(* ===== verification/Prelude.thy ===== *)
theory Prelude
  imports Main "HOL-Library.Word" "HOL-Library.List_Lexorder"
begin

text \<open>
  Shared vocabulary of the development: Python's exceptions as values, the result type of code
  that may raise, byte strings and their slices, the fixed-width little- and big-endian codecs
  behind \<open>struct.pack\<close> and \<open>struct.unpack\<close>, and insertion-ordered dictionaries.
\<close>

section \<open>Exceptions and results\<close>

text \<open>The exceptions the modelled code raises or lets escape; \<open>StructError\<close> is
  \<open>struct.error\<close>, which is neither a \<open>ValueError\<close> nor an \<open>IndexError\<close>.\<close>

datatype py_exc =
    IndexError
  | KeyError
  | ValueError
  | TypeError
  | ZeroDivisionError
  | AssertionError
  | OverflowError
  | AttributeError
  | StructError
  | FileNotFoundError
  | RuntimeError
  | StopIteration
  | MemoryError
  | EnumError
  | ScriptError
  | Base58Error
  | CoinError
  | DBError
  | ChainError
  | DBSyncError

type_synonym 'a res = "py_exc + 'a"

definition rbind :: "'a res \<Rightarrow> ('a \<Rightarrow> 'b res) \<Rightarrow> 'b res" where
  "rbind m f = (case m of Inl e \<Rightarrow> Inl e | Inr x \<Rightarrow> f x)"

lemma rbind_simps [simp]: "rbind (Inl e) f = Inl e" "rbind (Inr x) f = f x"
  by (simp_all add: rbind_def)

lemma rbind_eq_Inr: "rbind m f = Inr y \<longleftrightarrow> (\<exists>x. m = Inr x \<and> f x = Inr y)"
  by (cases m) auto

lemma rbind_eq_Inl: "rbind m f = Inl e \<longleftrightarrow> m = Inl e \<or> (\<exists>x. m = Inr x \<and> f x = Inl e)"
  by (cases m) auto

lemma rbind_cong [fundef_cong]:
  "m = m' \<Longrightarrow> (\<And>x. m' = Inr x \<Longrightarrow> f x = f' x) \<Longrightarrow> rbind m f = rbind m' f'"
  by (cases m') auto

text \<open>A loop that threads a state and stops at the first exception.\<close>

fun foldM :: "('s \<Rightarrow> 'a \<Rightarrow> 's res) \<Rightarrow> 's \<Rightarrow> 'a list \<Rightarrow> 's res" where
  "foldM f s [] = Inr s"
| "foldM f s (x # xs) = rbind (f s x) (\<lambda>s'. foldM f s' xs)"

lemma foldM_append: "foldM f s (xs @ ys) = rbind (foldM f s xs) (\<lambda>s'. foldM f s' ys)"
proof (induction xs arbitrary: s)
  case Nil
  show ?case by simp
next
  case (Cons x xs)
  then show ?case by (cases "f s x") simp_all
qed

lemma foldM_invariant:
  assumes "foldM f s xs = Inr s'" and "P s"
    and "\<And>s x s'. x \<in> set xs \<Longrightarrow> P s \<Longrightarrow> f s x = Inr s' \<Longrightarrow> P s'"
  shows "P s'"
  using assms
proof (induction xs arbitrary: s)
  case Nil
  then show ?case by simp
next
  case (Cons x xs)
  then show ?case by (auto simp: rbind_eq_Inr)
qed

text \<open>A list comprehension whose element expression may raise.\<close>

fun mapM :: "('a \<Rightarrow> 'b res) \<Rightarrow> 'a list \<Rightarrow> 'b list res" where
  "mapM f [] = Inr []"
| "mapM f (x # xs) = rbind (f x) (\<lambda>y. rbind (mapM f xs) (\<lambda>ys. Inr (y # ys)))"

lemma mapM_Inr: "(\<And>x. x \<in> set xs \<Longrightarrow> f x = Inr (g x)) \<Longrightarrow> mapM f xs = Inr (map g xs)"
  by (induction xs) simp_all

lemma mapM_cong [fundef_cong]:
  "xs = ys \<Longrightarrow> (\<And>x. x \<in> set ys \<Longrightarrow> f x = g x) \<Longrightarrow> mapM f xs = mapM g ys"
proof (induction xs arbitrary: ys)
  case Nil
  then show ?case by simp
next
  case (Cons x xs)
  then show ?case by auto
qed

lemma mapM_length: "mapM f xs = Inr ys \<Longrightarrow> length ys = length xs"
  by (induction xs arbitrary: ys) (auto simp: rbind_eq_Inr)

section \<open>Byte strings\<close>

type_synonym byte = "8 word"
type_synonym bytes = "byte list"

text \<open>\<open>slice i j xs\<close> is \<open>xs[i:j]\<close> for non-negative bounds, which Python clips to the
  length; \<open>takelast n xs\<close> is \<open>xs[-n:]\<close> and \<open>droplast n xs\<close> is \<open>xs[:-n]\<close> for
  positive \<open>n\<close>.\<close>

definition slice :: "nat \<Rightarrow> nat \<Rightarrow> 'a list \<Rightarrow> 'a list" where
  "slice i j xs = take (j - i) (drop i xs)"

definition takelast :: "nat \<Rightarrow> 'a list \<Rightarrow> 'a list" where
  "takelast n xs = drop (length xs - n) xs"

definition droplast :: "nat \<Rightarrow> 'a list \<Rightarrow> 'a list" where
  "droplast n xs = take (length xs - n) xs"

text \<open>\<open>bytes(n)\<close>: a string of zero bytes.\<close>

definition zero_bytes :: "nat \<Rightarrow> bytes" where
  "zero_bytes n = replicate n 0"

text \<open>Indexing that raises out of range.\<close>

definition index :: "'a list \<Rightarrow> nat \<Rightarrow> 'a res" where
  "index xs n = (if n < length xs then Inr (xs ! n) else Inl IndexError)"

lemma index_simps [simp]:
  "n < length xs \<Longrightarrow> index xs n = Inr (xs ! n)"
  "length xs \<le> n \<Longrightarrow> index xs n = Inl IndexError"
  by (simp_all add: index_def)

lemma length_slice [simp]: "length (slice i j xs) = min (j - i) (length xs - i)"
  by (simp add: slice_def min.commute)

lemma slice_append_left [simp]: "j \<le> length xs \<Longrightarrow> slice i j (xs @ ys) = slice i j xs"
  by (simp add: slice_def)

lemma slice_append_right:
  "length xs \<le> i \<Longrightarrow> slice i j (xs @ ys) = slice (i - length xs) (j - length xs) ys"
  by (simp add: slice_def)

lemma slice_all [simp]: "slice 0 (length xs) xs = xs"
  by (simp add: slice_def)

lemma takelast_append [simp]: "length ys = n \<Longrightarrow> takelast n (xs @ ys) = ys"
  by (simp add: takelast_def)

lemma droplast_append [simp]: "length ys = n \<Longrightarrow> droplast n (xs @ ys) = xs"
  by (simp add: droplast_def)

lemma length_takelast [simp]: "length (takelast n xs) = min n (length xs)"
  by (simp add: takelast_def)

lemma length_droplast [simp]: "length (droplast n xs) = length xs - n"
  by (simp add: droplast_def)

lemma droplast_takelast: "droplast n xs @ takelast n xs = xs"
  by (simp add: droplast_def takelast_def)

lemma length_zero_bytes [simp]: "length (zero_bytes n) = n"
  by (simp add: zero_bytes_def)

section \<open>Fixed-width integer codecs\<close>

text \<open>\<open>le_enc k n\<close> writes the low \<open>k\<close> bytes of \<open>n\<close>, least significant first;
  the range checks of \<open>struct.pack\<close> are in the packers of theory \<open>Util\<close>.\<close>

fun le_enc :: "nat \<Rightarrow> nat \<Rightarrow> bytes" where
  "le_enc 0 n = []"
| "le_enc (Suc k) n = of_nat (n mod 256) # le_enc k (n div 256)"

fun le_dec :: "bytes \<Rightarrow> nat" where
  "le_dec [] = 0"
| "le_dec (b # bs) = unat b + 256 * le_dec bs"

definition be_enc :: "nat \<Rightarrow> nat \<Rightarrow> bytes" where
  "be_enc k n = rev (le_enc k n)"

definition be_dec :: "bytes \<Rightarrow> nat" where
  "be_dec bs = le_dec (rev bs)"

lemma unat_byte_lt [simp]: "unat (b :: byte) < 256"
  using unsigned_less [of b] by simp

lemma unat_of_nat_byte [simp]: "unat (of_nat n :: byte) = n mod 256"
  by (simp add: unat_of_nat)

lemma length_le_enc [simp]: "length (le_enc k n) = k"
  by (induction k arbitrary: n) simp_all

lemma length_be_enc [simp]: "length (be_enc k n) = k"
  by (simp add: be_enc_def)

lemma le_dec_enc: "le_dec (le_enc k n) = n mod 256 ^ k"
proof (induction k arbitrary: n)
  case 0
  show ?case by simp
next
  case (Suc k)
  have "n mod 256 ^ Suc k = n mod 256 + 256 * (n div 256 mod 256 ^ k)"
    by (simp add: mod_mult2_eq)
  then show ?case using Suc by simp
qed

lemma le_dec_enc_id [simp]: "n < 256 ^ k \<Longrightarrow> le_dec (le_enc k n) = n"
  by (simp add: le_dec_enc)

lemma le_dec_bound: "le_dec bs < 256 ^ length bs"
proof (induction bs)
  case Nil
  show ?case by simp
next
  case (Cons b bs)
  have "unat b + 256 * le_dec bs < 256 + 256 * le_dec bs" by simp
  also have "\<dots> \<le> 256 * 256 ^ length bs" using Cons by simp
  finally show ?case by simp
qed

lemma le_enc_dec [simp]: "le_enc (length bs) (le_dec bs) = bs"
proof (induction bs)
  case Nil
  show ?case by simp
next
  case (Cons b bs)
  have "(unat b + 256 * le_dec bs) div 256 = le_dec bs" by simp
  moreover have "of_nat ((unat b + 256 * le_dec bs) mod 256) = b" by simp
  ultimately show ?case using Cons by simp
qed

lemma le_dec_append: "le_dec (xs @ ys) = le_dec xs + 256 ^ length xs * le_dec ys"
  by (induction xs) (simp_all add: algebra_simps)

lemma le_dec_zero_bytes [simp]: "le_dec (zero_bytes n) = 0"
  by (induction n) (simp_all add: zero_bytes_def)

lemma be_dec_enc: "be_dec (be_enc k n) = n mod 256 ^ k"
  by (simp add: be_dec_def be_enc_def le_dec_enc)

lemma be_dec_enc_id [simp]: "n < 256 ^ k \<Longrightarrow> be_dec (be_enc k n) = n"
  by (simp add: be_dec_enc)

lemma be_enc_dec [simp]: "be_enc (length bs) (be_dec bs) = bs"
  using le_enc_dec [of "rev bs"] by (simp add: be_dec_def be_enc_def)

lemma be_dec_bound: "be_dec bs < 256 ^ length bs"
  using le_dec_bound [of "rev bs"] by (simp add: be_dec_def)

lemma be_dec_Cons: "be_dec (b # bs) = unat b * 256 ^ length bs + be_dec bs"
  by (simp add: be_dec_def le_dec_append algebra_simps)

lemma be_dec_Nil [simp]: "be_dec [] = 0"
  by (simp add: be_dec_def)

lemma le_enc_inj: "a < 256 ^ k \<Longrightarrow> b < 256 ^ k \<Longrightarrow> le_enc k a = le_enc k b \<longleftrightarrow> a = b"
  by (metis le_dec_enc_id)

lemma be_enc_inj: "a < 256 ^ k \<Longrightarrow> b < 256 ^ k \<Longrightarrow> be_enc k a = be_enc k b \<longleftrightarrow> a = b"
  by (metis be_dec_enc_id)

text \<open>Byte strings of one length compare as the big-endian numbers they spell. The keys of
  the undo tables and of the history rows rest on this.\<close>

lemma be_dec_less_iff:
  "length xs = length ys \<Longrightarrow> xs < ys \<longleftrightarrow> be_dec xs < be_dec ys"
proof (induction xs ys rule: list_induct2)
  case Nil
  show ?case by simp
next
  case (Cons x xs y ys)
  have bx: "be_dec xs < 256 ^ length ys" and by': "be_dec ys < 256 ^ length ys"
    using be_dec_bound [of xs] be_dec_bound [of ys] Cons by simp_all
  have lt: "unat a * M + p < unat b * M + q" if "a < b" "p < M" for a b :: byte and M p q :: nat
  proof -
    from \<open>a < b\<close> have "Suc (unat a) \<le> unat b" by (simp add: word_less_nat_alt)
    then have "Suc (unat a) * M \<le> unat b * M" by (rule mult_le_mono1)
    with \<open>p < M\<close> show ?thesis by simp
  qed
  consider "x < y" | "y < x" | "x = y" by (rule linorder_cases)
  then show ?case
  proof cases
    case 1
    with lt [OF 1 bx] show ?thesis using Cons by (simp add: be_dec_Cons)
  next
    case 2
    with lt [OF 2 by', of "be_dec xs"] show ?thesis using Cons by (auto simp: be_dec_Cons)
  next
    case 3
    with Cons show ?thesis by (simp add: be_dec_Cons)
  qed
qed

lemma be_enc_less_iff:
  "a < 256 ^ k \<Longrightarrow> b < 256 ^ k \<Longrightarrow> be_enc k a < be_enc k b \<longleftrightarrow> a < b"
  by (simp add: be_dec_less_iff)

section \<open>Insertion-ordered dictionaries\<close>

text \<open>A Python \<open>dict\<close> whose iteration order matters: assignment overwrites in place or
  appends, \<open>pop\<close> removes. Lookup is \<^const>\<open>map_of\<close>.\<close>

type_synonym ('k, 'v) dict = "('k \<times> 'v) list"

fun dict_set :: "'k \<Rightarrow> 'v \<Rightarrow> ('k, 'v) dict \<Rightarrow> ('k, 'v) dict" where
  "dict_set k v [] = [(k, v)]"
| "dict_set k v ((k', v') # d) = (if k' = k then (k, v) # d else (k', v') # dict_set k v d)"

definition dict_del :: "'k \<Rightarrow> ('k, 'v) dict \<Rightarrow> ('k, 'v) dict" where
  "dict_del k d = filter (\<lambda>e. fst e \<noteq> k) d"

definition dict_keys :: "('k, 'v) dict \<Rightarrow> 'k list" where
  "dict_keys d = map fst d"

definition dict_ok :: "('k, 'v) dict \<Rightarrow> bool" where
  "dict_ok d \<longleftrightarrow> distinct (dict_keys d)"

lemma map_of_dict_set [simp]: "map_of (dict_set k v d) = (map_of d)(k \<mapsto> v)"
  by (induction d) (auto simp: fun_eq_iff)

lemma map_of_dict_del [simp]: "map_of (dict_del k d) = (map_of d)(k := None)"
  by (induction d) (auto simp: dict_del_def fun_eq_iff)

lemma set_dict_keys: "set (dict_keys d) = dom (map_of d)"
  by (simp add: dict_keys_def dom_map_of_conv_image_fst)

lemma dict_keys_set: "dict_keys (dict_set k v d) = (if k \<in> set (dict_keys d) then dict_keys d
    else dict_keys d @ [k])"
  by (induction d) (auto simp: dict_keys_def simp del: set_map)

lemma dict_ok_set [simp, intro]: "dict_ok d \<Longrightarrow> dict_ok (dict_set k v d)"
  by (simp add: dict_ok_def dict_keys_set)

lemma dict_ok_del [simp, intro]: "dict_ok d \<Longrightarrow> dict_ok (dict_del k d)"
  by (simp add: dict_ok_def dict_del_def dict_keys_def distinct_map_filter)

lemma dict_ok_Nil [simp]: "dict_ok []"
  by (simp add: dict_ok_def dict_keys_def)

lemma dict_set_new: "map_of d k = None \<Longrightarrow> dict_set k v d = d @ [(k, v)]"
  by (induction d) (auto split: if_splits)

lemma dict_del_new: "map_of d k = None \<Longrightarrow> dict_del k d = d"
  by (induction d) (auto simp: dict_del_def split: if_splits)

lemma map_of_eq_iff_mem: "dict_ok d \<Longrightarrow> map_of d k = Some v \<longleftrightarrow> (k, v) \<in> set d"
  by (simp add: dict_ok_def dict_keys_def)

text \<open>Two dictionaries that agree on every lookup stay so under every update.\<close>

definition dict_eq :: "('k, 'v) dict \<Rightarrow> ('k, 'v) dict \<Rightarrow> bool" where
  "dict_eq d e \<longleftrightarrow> map_of d = map_of e"

end
