(* ===== verification/Util.thy ===== *)
theory Util
  imports Prelude
begin

text \<open>
  \<open>src/electrumx/lib/util.py\<close>: the \<open>struct\<close> packers, CompactSize integers, chunking, byte
  string arithmetic and the undo-entry codec. A packer raises \<open>struct.error\<close> on a value
  that does not fit; an unpacker raises it when too few bytes are left.
\<close>

section \<open>struct packers and unpackers\<close>

definition pack_uint :: "nat \<Rightarrow> int \<Rightarrow> bytes res" where
  "pack_uint k n = (if 0 \<le> n \<and> n < 256 ^ k then Inr (le_enc k (nat n)) else Inl StructError)"

definition pack_sint :: "nat \<Rightarrow> int \<Rightarrow> bytes res" where
  "pack_sint k n =
     (if - (256 ^ k div 2) \<le> n \<and> n < 256 ^ k div 2
      then Inr (le_enc k (nat (n mod 256 ^ k))) else Inl StructError)"

definition unpack_uint_from :: "nat \<Rightarrow> bytes \<Rightarrow> nat \<Rightarrow> nat res" where
  "unpack_uint_from k b off =
     (if off + k \<le> length b then Inr (le_dec (slice off (off + k) b)) else Inl StructError)"

definition to_signed :: "nat \<Rightarrow> nat \<Rightarrow> int" where
  "to_signed k u = (if int u < 256 ^ k div 2 then int u else int u - 256 ^ k)"

definition unpack_sint_from :: "nat \<Rightarrow> bytes \<Rightarrow> nat \<Rightarrow> int res" where
  "unpack_sint_from k b off = rbind (unpack_uint_from k b off) (\<lambda>u. Inr (to_signed k u))"

definition pack_le_int32 :: "int \<Rightarrow> bytes res" where
  "pack_le_int32 n = pack_sint 4 n"

definition pack_le_int64 :: "int \<Rightarrow> bytes res" where
  "pack_le_int64 n = pack_sint 8 n"

definition pack_le_uint16 :: "int \<Rightarrow> bytes res" where
  "pack_le_uint16 n = pack_uint 2 n"

definition pack_le_uint32 :: "int \<Rightarrow> bytes res" where
  "pack_le_uint32 n = pack_uint 4 n"

definition pack_le_uint64 :: "int \<Rightarrow> bytes res" where
  "pack_le_uint64 n = pack_uint 8 n"

definition pack_be_uint16 :: "int \<Rightarrow> bytes res" where
  "pack_be_uint16 n = rbind (pack_uint 2 n) (\<lambda>b. Inr (rev b))"

definition pack_be_uint32 :: "int \<Rightarrow> bytes res" where
  "pack_be_uint32 n = rbind (pack_uint 4 n) (\<lambda>b. Inr (rev b))"

definition pack_byte :: "int \<Rightarrow> bytes res" where
  "pack_byte n = pack_uint 1 n"

definition unpack_le_int32_from :: "bytes \<Rightarrow> nat \<Rightarrow> int res" where
  "unpack_le_int32_from b off = unpack_sint_from 4 b off"

definition unpack_le_int64_from :: "bytes \<Rightarrow> nat \<Rightarrow> int res" where
  "unpack_le_int64_from b off = unpack_sint_from 8 b off"

definition unpack_le_uint16_from :: "bytes \<Rightarrow> nat \<Rightarrow> nat res" where
  "unpack_le_uint16_from b off = unpack_uint_from 2 b off"

definition unpack_le_uint32_from :: "bytes \<Rightarrow> nat \<Rightarrow> nat res" where
  "unpack_le_uint32_from b off = unpack_uint_from 4 b off"

definition unpack_le_uint64_from :: "bytes \<Rightarrow> nat \<Rightarrow> nat res" where
  "unpack_le_uint64_from b off = unpack_uint_from 8 b off"

definition unpack_be_uint16_from :: "bytes \<Rightarrow> nat \<Rightarrow> nat res" where
  "unpack_be_uint16_from b off =
     (if off + 2 \<le> length b then Inr (be_dec (slice off (off + 2) b)) else Inl StructError)"

definition unpack_be_uint32_from :: "bytes \<Rightarrow> nat \<Rightarrow> nat res" where
  "unpack_be_uint32_from b off =
     (if off + 4 \<le> length b then Inr (be_dec (slice off (off + 4) b)) else Inl StructError)"

text \<open>\<open>Struct.unpack\<close> (without \<open>_from\<close>) wants exactly the right number of bytes.\<close>

definition unpack_le_uint32 :: "bytes \<Rightarrow> nat res" where
  "unpack_le_uint32 b = (if length b = 4 then Inr (le_dec b) else Inl StructError)"

definition unpack_le_uint64 :: "bytes \<Rightarrow> nat res" where
  "unpack_le_uint64 b = (if length b = 8 then Inr (le_dec b) else Inl StructError)"

definition unpack_be_uint32 :: "bytes \<Rightarrow> nat res" where
  "unpack_be_uint32 b = (if length b = 4 then Inr (be_dec b) else Inl StructError)"

named_theorems packer_defs \<open>definitions of the struct packers and unpackers\<close>

lemmas packer_all [packer_defs] =
  pack_le_int32_def pack_le_int64_def pack_le_uint16_def pack_le_uint32_def pack_le_uint64_def
  pack_be_uint16_def pack_be_uint32_def pack_byte_def unpack_le_int32_from_def
  unpack_le_int64_from_def unpack_le_uint16_from_def unpack_le_uint32_from_def
  unpack_le_uint64_from_def

lemma pack_uint_length: "pack_uint k n = Inr b \<Longrightarrow> length b = k"
  by (auto simp: pack_uint_def split: if_splits)

lemma pack_sint_length: "pack_sint k n = Inr b \<Longrightarrow> length b = k"
  by (auto simp: pack_sint_def split: if_splits)

lemma pack_uint_nat: "n < 256 ^ k \<Longrightarrow> pack_uint k (int n) = Inr (le_enc k n)"
proof -
  assume "n < 256 ^ k"
  then have "int n < int (256 ^ k)" by (simp only: of_nat_less_iff)
  then show ?thesis by (simp add: pack_uint_def)
qed

text \<open>Reading back what was packed, wherever it stands in a longer string.\<close>

lemma slice_mid: "length xs = i \<Longrightarrow> length ys = j - i \<Longrightarrow> slice i j (xs @ ys @ zs) = ys"
  by (simp add: slice_def)

lemma unpack_pack_uint:
  assumes "pack_uint k n = Inr b"
  shows "unpack_uint_from k (pre @ b @ post) (length pre) = Inr (nat n)"
proof -
  from assms have b: "b = le_enc k (nat n)" and n: "0 \<le> n" "n < 256 ^ k"
    by (auto simp: pack_uint_def split: if_splits)
  from n have "int (nat n) < int (256 ^ k)" by simp
  then have "nat n < 256 ^ k" by (simp only: of_nat_less_iff)
  then show ?thesis by (simp add: unpack_uint_from_def b slice_mid)
qed

lemma unpack_pack_sint:
  assumes "pack_sint k n = Inr b" and "0 < k"
  shows "unpack_sint_from k (pre @ b @ post) (length pre) = Inr n"
proof -
  let ?M = "256 ^ k :: int"
  from assms have b: "b = le_enc k (nat (n mod ?M))"
    and n: "- (?M div 2) \<le> n" "n < ?M div 2"
    by (auto simp: pack_sint_def split: if_splits)
  have "even ?M" using \<open>0 < k\<close> by simp
  then have half: "2 * (?M div 2) = ?M" by simp
  have m: "0 \<le> n mod ?M" "n mod ?M < ?M" by simp_all
  then have "int (nat (n mod ?M)) < int (256 ^ k)" by simp
  then have lt: "nat (n mod ?M) < 256 ^ k" by (simp only: of_nat_less_iff)
  have "to_signed k (nat (n mod ?M)) = n"
  proof (cases "0 \<le> n")
    case True
    then have "n mod ?M = n" using n half by (intro mod_pos_pos_trivial) linarith+
    with True n show ?thesis by (simp add: to_signed_def)
  next
    case False
    then have "(n + ?M) mod ?M = n + ?M" using n half by (intro mod_pos_pos_trivial) linarith+
    then have "n mod ?M = n + ?M" by simp
    with n half m show ?thesis by (simp add: to_signed_def)
  qed
  with lt show ?thesis by (simp add: unpack_sint_from_def unpack_uint_from_def b slice_mid)
qed

lemma pack_uint_unpack:
  assumes "unpack_uint_from k b off = Inr n"
  shows "pack_uint k (int n) = Inr (slice off (off + k) b)"
proof -
  from assms have n: "n = le_dec (slice off (off + k) b)" and len: "off + k \<le> length b"
    by (auto simp: unpack_uint_from_def split: if_splits)
  then have l: "length (slice off (off + k) b) = k" by simp
  with n le_dec_bound [of "slice off (off + k) b"] have "n < 256 ^ k" by simp
  moreover from n l have "le_enc k n = slice off (off + k) b"
    using le_enc_dec [of "slice off (off + k) b"] by simp
  ultimately show ?thesis by (simp add: pack_uint_nat)
qed

section \<open>CompactSize integers\<close>

definition pack_varint :: "int \<Rightarrow> bytes res" where
  "pack_varint n =
     (if n < 253 then pack_byte n
      else if n < 65536 then rbind (pack_le_uint16 n) (\<lambda>b. Inr (253 # b))
      else if n < 4294967296 then rbind (pack_le_uint32 n) (\<lambda>b. Inr (254 # b))
      else rbind (pack_le_uint64 n) (\<lambda>b. Inr (255 # b)))"

definition pack_varbytes :: "bytes \<Rightarrow> bytes res" where
  "pack_varbytes data = rbind (pack_varint (int (length data))) (\<lambda>b. Inr (b @ data))"

lemma pack_varint_total: "0 \<le> n \<Longrightarrow> n < 2 ^ 64 \<Longrightarrow> \<exists>b. pack_varint n = Inr b"
  by (simp add: pack_varint_def packer_defs pack_uint_def)

lemma pack_varint_error: "n < 0 \<or> 2 ^ 64 \<le> n \<longleftrightarrow> pack_varint n = Inl StructError"
  by (auto simp: pack_varint_def packer_defs pack_uint_def)

lemma pack_varint_not_Nil: "pack_varint n = Inr b \<Longrightarrow> b \<noteq> []"
  by (auto simp: pack_varint_def packer_defs rbind_eq_Inr dest!: pack_uint_length split: if_splits)

section \<open>Chunks, limits and big-endian integers\<close>

text \<open>\<open>chunks(items, sz, reverse)\<close> slices at \<open>range(0, len, sz)\<close>; a zero sz makes
  \<open>range\<close> raise \<open>ValueError\<close>.\<close>

definition chunks_list :: "nat \<Rightarrow> 'a list \<Rightarrow> 'a list list" where
  "chunks_list sz items =
     map (\<lambda>i. slice (i * sz) (i * sz + sz) items) [0..<(length items + sz - 1) div sz]"

definition chunks :: "'a list \<Rightarrow> nat \<Rightarrow> bool \<Rightarrow> 'a list list res" where
  "chunks items sz reverse =
     (if sz = 0 then Inl ValueError
      else Inr (if reverse then rev (chunks_list sz items) else chunks_list sz items))"

definition resolve_limit :: "int option \<Rightarrow> int" where
  "resolve_limit limit = (case limit of None \<Rightarrow> -1 | Some l \<Rightarrow> if l < 0 then -1 else l)"

definition bytes_to_int :: "bytes \<Rightarrow> nat" where
  "bytes_to_int be_bytes = be_dec be_bytes"

fun bit_length :: "nat \<Rightarrow> nat" where
  "bit_length n = (if n = 0 then 0 else Suc (bit_length (n div 2)))"

declare bit_length.simps [simp del]

definition int_to_bytes :: "int \<Rightarrow> bytes res" where
  "int_to_bytes value =
     (if value < 0 then Inl OverflowError
      else Inr (be_enc ((bit_length (nat value) + 7) div 8) (nat value)))"

lemma chunks_list_Nil [simp]: "chunks_list sz [] = []"
  by (cases sz) (simp_all add: chunks_list_def)

lemma chunks_list_step:
  assumes "0 < sz" and "xs \<noteq> []"
  shows "chunks_list sz xs = take sz xs # chunks_list sz (drop sz xs)"
proof -
  let ?n = "\<lambda>l. (l + sz - 1) div sz"
  have n: "?n (length xs) = Suc (?n (length xs - sz))"
  proof (cases "sz \<le> length xs")
    case True
    then have "length xs + sz - 1 = (length xs - sz + sz - 1) + sz" using assms by simp
    moreover have "((length xs - sz + sz - 1) + sz) div sz = Suc ((length xs - sz + sz - 1) div sz)"
      using assms(1) by (subst div_add_self2) simp_all
    ultimately show ?thesis by (simp only:)
  next
    case False
    moreover have "0 < length xs" using assms by simp
    ultimately have "length xs + sz - 1 = (length xs - 1) + sz" "length xs - 1 < sz"
        "length xs - sz + sz - 1 < sz"
      by linarith+
    then show ?thesis using assms(1) by (simp only: div_add_self2 div_less)
  qed
  define k where "k = ?n (length xs - sz)"
  have "chunks_list sz xs = slice (0 * sz) (0 * sz + sz) xs
      # map (\<lambda>i. slice (Suc i * sz) (Suc i * sz + sz) xs) [0..<k]"
    unfolding chunks_list_def n k_def [symmetric] map_upt_Suc ..
  moreover have "chunks_list sz (drop sz xs)
      = map (\<lambda>i. slice (i * sz) (i * sz + sz) (drop sz xs)) [0..<k]"
    by (simp only: chunks_list_def k_def length_drop)
  ultimately show ?thesis
    by (simp add: slice_def add.commute)
qed

lemma concat_chunks_list: "0 < sz \<Longrightarrow> concat (chunks_list sz xs) = xs"
proof (induction "length xs" arbitrary: xs rule: less_induct)
  case less
  show ?case
  proof (cases "xs = []")
    case False
    with less show ?thesis by (simp add: chunks_list_step)
  qed simp
qed

lemma chunks_list_concat:
  assumes "0 < sz" and "\<forall>c \<in> set cs. length c = sz"
  shows "chunks_list sz (concat cs) = cs"
  using assms(2)
proof (induction cs)
  case Nil
  show ?case by simp
next
  case (Cons c cs)
  then have "c @ concat cs \<noteq> []" using assms(1) by auto
  from chunks_list_step [OF assms(1) this] Cons show ?case by simp
qed

lemma chunks_list_lengths:
  assumes "0 < sz" and "sz dvd length xs" and "c \<in> set (chunks_list sz xs)"
  shows "length c = sz"
  using assms(2,3)
proof (induction "length xs" arbitrary: xs rule: less_induct)
  case less
  show ?case
  proof (cases "xs = []")
    case False
    then have le: "sz \<le> length xs" using less.prems by (simp add: dvd_imp_le)
    have "length (drop sz xs) < length xs" using assms(1) False by simp
    moreover have "sz dvd length (drop sz xs)" using less.prems le by (simp add: dvd_diff_nat)
    ultimately have "c \<in> set (chunks_list sz (drop sz xs)) \<Longrightarrow> length c = sz"
      by (rule less.hyps)
    then show ?thesis using less.prems False le assms(1) by (auto simp: chunks_list_step)
  qed (use less in simp)
qed

lemma bit_length_bound: "n < 2 ^ bit_length n"
proof (induction n rule: bit_length.induct)
  case (1 n)
  show ?case
  proof (cases "n = 0")
    case False
    with 1 have "n div 2 < 2 ^ bit_length (n div 2)" by simp
    then have "n < 2 * 2 ^ bit_length (n div 2)" by linarith
    with False show ?thesis by (simp add: bit_length.simps [of n])
  qed (simp add: bit_length.simps)
qed

lemma int_to_bytes_roundtrip:
  assumes "int_to_bytes value = Inr b"
  shows "int (bytes_to_int b) = value"
proof -
  from assms have v: "0 \<le> value"
    and b: "b = be_enc ((bit_length (nat value) + 7) div 8) (nat value)" (is "b = be_enc ?k _")
    by (auto simp: int_to_bytes_def split: if_splits)
  have "bit_length (nat value) \<le> 8 * ?k" by linarith
  then have "(2::nat) ^ bit_length (nat value) \<le> 2 ^ (8 * ?k)" by (intro power_increasing) auto
  with bit_length_bound [of "nat value"] have "nat value < 2 ^ (8 * ?k)" by linarith
  then have "nat value < 256 ^ ?k" by (simp add: power_mult)
  with v b show ?thesis by (simp add: bytes_to_int_def)
qed

section \<open>The next byte string\<close>

text \<open>The loop \<open>for n in range(1, len(bs) + 1)\<close>, with the passes left as its last
  argument.\<close>

fun increment_loop :: "bytes \<Rightarrow> nat \<Rightarrow> nat \<Rightarrow> bytes option" where
  "increment_loop bs n 0 = None"
| "increment_loop bs n (Suc passes) =
     (if bs ! (length bs - n) \<noteq> 255
      then Some (droplast n bs @ [bs ! (length bs - n) + 1] @ zero_bytes (n - 1))
      else increment_loop bs (Suc n) passes)"

definition increment_byte_string :: "bytes \<Rightarrow> bytes option" where
  "increment_byte_string bs = increment_loop bs 1 (length bs)"

lemma increment_loop_trailing:
  assumes "length bs = length pre + 1 + m" and "bs = pre @ [b] @ replicate m 255" and "b \<noteq> 255"
    and "n \<le> Suc m" and "0 < n" and "passes = Suc (length pre + m) - (n - 1)"
  shows "increment_loop bs n passes = Some (pre @ [b + 1] @ zero_bytes m)"
  using assms(4-6)
proof (induction passes arbitrary: n)
  case 0
  then show ?case by simp
next
  case (Suc passes)
  show ?case
  proof (cases "n = Suc m")
    case True
    have "bs ! (length bs - n) = b" using assms True by (simp add: nth_append)
    moreover have "droplast n bs = pre" using assms True by (simp add: droplast_def)
    ultimately show ?thesis using assms True by simp
  next
    case False
    with Suc.prems have n: "n \<le> m" by simp
    have bs: "bs = (pre @ [b]) @ replicate m 255" using assms(2) by simp
    have idx: "length bs - n = length (pre @ [b]) + (m - n)" using assms(1) n by simp
    have "bs ! (length bs - n) = replicate m 255 ! (m - n)"
      by (simp only: idx) (simp only: bs nth_append_length_plus)
    also have "\<dots> = 255" using n Suc.prems by simp
    finally have "increment_loop bs n (Suc passes) = increment_loop bs (Suc n) passes" by simp
    also have "\<dots> = Some (pre @ [b + 1] @ zero_bytes m)"
      using Suc.prems n by (intro Suc.IH) simp_all
    finally show ?thesis .
  qed
qed

lemma increment_loop_all_ff:
  "0 < n \<Longrightarrow> n + passes = Suc m \<Longrightarrow> increment_loop (replicate m 255) n passes = None"
  by (induction passes arbitrary: n) auto

lemma increment_byte_string_ff [simp]: "increment_byte_string (replicate m 255) = None"
  by (simp add: increment_byte_string_def increment_loop_all_ff)

lemma increment_byte_string_split:
  "b \<noteq> 255 \<Longrightarrow> increment_byte_string (pre @ b # replicate m 255) = Some (pre @ (b + 1) # zero_bytes m)"
  unfolding increment_byte_string_def
  by (subst increment_loop_trailing [where pre = pre and b = b and m = m]) auto

lemma ff_cases:
  obtains (ff) "(bs :: bytes) = replicate (length bs) 255"
  | (split) pre b m where "bs = pre @ b # replicate m 255" and "b \<noteq> 255"
proof (induction bs arbitrary: thesis rule: rev_induct)
  case Nil
  then show ?case by simp
next
  case (snoc x xs)
  show ?case
  proof (cases "x = 255")
    case False
    with snoc.prems(2) [of xs x 0] show ?thesis by simp
  next
    case True
    show ?thesis
    proof (rule snoc.IH)
      assume "xs = replicate (length xs) 255"
      then have "xs @ [x] = replicate (length (xs @ [x])) 255"
        using True by (metis length_append_singleton replicate_Suc replicate_append_same)
      then show ?thesis by (rule snoc.prems(1))
    next
      fix pre b m
      assume "xs = pre @ b # replicate m 255" and "b \<noteq> 255"
      then show ?thesis
        using snoc.prems(2) [of pre b "Suc m"] True by (simp add: replicate_append_same)
    qed
  qed
qed

lemma be_dec_ff: "be_dec (replicate m 255) + 1 = 256 ^ m"
  by (induction m) (simp_all add: be_dec_Cons)

lemma be_dec_append: "be_dec (xs @ ys) = be_dec xs * 256 ^ length ys + be_dec ys"
  by (simp add: be_dec_def le_dec_append algebra_simps)

lemma be_dec_zero_bytes [simp]: "be_dec (zero_bytes m) = 0"
proof -
  have "rev (zero_bytes m) = zero_bytes m" by (simp add: zero_bytes_def)
  then show ?thesis by (simp add: be_dec_def)
qed

lemma unat_byte_plus1: "b \<noteq> (255 :: byte) \<Longrightarrow> unat (b + 1) = unat b + 1"
proof -
  assume "b \<noteq> 255"
  moreover have "b = 255" if "b + 1 = 0" using that by (simp add: add_eq_0_iff2)
  ultimately have "b + 1 \<noteq> 0" by auto
  then show ?thesis by (simp add: unatSuc add.commute)
qed

lemma increment_byte_string_next:
  assumes "increment_byte_string bs = Some bs'"
  shows "length bs' = length bs \<and> be_dec bs' = be_dec bs + 1"
proof (rule ff_cases [of bs])
  assume "bs = replicate (length bs) 255"
  with assms show ?thesis by (metis increment_byte_string_ff option.distinct(1))
next
  fix pre b m
  assume bs: "bs = pre @ b # replicate m 255" and b: "b \<noteq> 255"
  with assms have bs': "bs' = pre @ (b + 1) # zero_bytes m"
    by (simp add: increment_byte_string_split)
  have "be_dec ((b + 1) # zero_bytes m) = be_dec (b # replicate m 255) + 1"
    using be_dec_ff [of m] unat_byte_plus1 [OF b] by (simp add: be_dec_Cons algebra_simps)
  then show ?thesis
    using bs bs' be_dec_append [of pre "b # replicate m 255"] be_dec_append [of pre "(b + 1) # zero_bytes m"]
    by simp
qed

lemma increment_byte_string_None:
  "increment_byte_string bs = None \<longleftrightarrow> (\<forall>b \<in> set bs. b = 255)"
proof (rule ff_cases [of bs])
  assume "bs = replicate (length bs) 255"
  then show ?thesis by (metis increment_byte_string_ff in_set_replicate)
next
  fix pre b m
  assume "bs = pre @ b # replicate m 255" and "b \<noteq> 255"
  then show ?thesis by (auto simp: increment_byte_string_split)
qed

section \<open>The undo-entry codec\<close>

text \<open>The side indexes store, per height, the previous value of every key they wrote; \<open>None\<close>
  marks a key that did not exist and is written as the length \<open>0xFFFFFFFF\<close>.\<close>

definition UNDO_NONE_SENTINEL :: nat where
  "UNDO_NONE_SENTINEL = 4294967295"

definition encode_undo_entry :: "bytes \<times> bytes option \<Rightarrow> bytes res" where
  "encode_undo_entry e = (case e of (key, prev) \<Rightarrow>
     rbind (pack_be_uint16 (int (length key))) (\<lambda>klen.
     case prev of
       None \<Rightarrow> rbind (pack_be_uint32 (int UNDO_NONE_SENTINEL)) (\<lambda>vlen. Inr (klen @ key @ vlen))
     | Some v \<Rightarrow> rbind (pack_be_uint32 (int (length v))) (\<lambda>vlen. Inr (klen @ key @ vlen @ v))))"

definition encode_undo :: "(bytes \<times> bytes option) list \<Rightarrow> bytes res" where
  "encode_undo entries = rbind (mapM encode_undo_entry entries) (\<lambda>parts. Inr (concat parts))"

text \<open>The decoder never raises: a truncated header ends it, a truncated payload is clipped as
  Python slices are.\<close>

function decode_undo_loop ::
    "bytes \<Rightarrow> nat \<Rightarrow> (bytes \<times> bytes option) list \<Rightarrow> (bytes \<times> bytes option) list" where
  "decode_undo_loop raw pos entries =
     (if pos < length raw then
        if length raw < pos + 2 then entries
        else
          let key_len = be_dec (slice pos (pos + 2) raw);
              key = slice (pos + 2) (pos + 2 + key_len) raw;
              pos2 = pos + 2 + key_len
          in if length raw < pos2 + 4 then entries
             else
               let val_len = be_dec (slice pos2 (pos2 + 4) raw)
               in if val_len = UNDO_NONE_SENTINEL
                  then decode_undo_loop raw (pos2 + 4) (entries @ [(key, None)])
                  else decode_undo_loop raw (pos2 + 4 + val_len)
                         (entries @ [(key, Some (slice (pos2 + 4) (pos2 + 4 + val_len) raw))])
      else entries)"
  by pat_completeness auto
termination
  by (relation "measure (\<lambda>(raw, pos, entries). length raw - pos)") (auto simp: Let_def)

declare decode_undo_loop.simps [simp del]

definition decode_undo :: "bytes \<Rightarrow> (bytes \<times> bytes option) list" where
  "decode_undo raw = decode_undo_loop raw 0 []"

definition undo_entry_fits :: "bytes \<times> bytes option \<Rightarrow> bool" where
  "undo_entry_fits e \<longleftrightarrow> length (fst e) < 65536 \<and>
     (case snd e of None \<Rightarrow> True | Some v \<Rightarrow> length v < UNDO_NONE_SENTINEL)"

lemma pack_be_uint16_nat: "n < 65536 \<Longrightarrow> pack_be_uint16 (int n) = Inr (be_enc 2 n)"
  by (simp add: pack_be_uint16_def pack_uint_nat be_enc_def)

lemma pack_be_uint32_nat: "n < 4294967296 \<Longrightarrow> pack_be_uint32 (int n) = Inr (be_enc 4 n)"
  by (simp add: pack_be_uint32_def pack_uint_nat be_enc_def)

definition undo_entry_bytes :: "bytes \<times> bytes option \<Rightarrow> bytes" where
  "undo_entry_bytes e = be_enc 2 (length (fst e)) @ fst e @
     (case snd e of None \<Rightarrow> be_enc 4 UNDO_NONE_SENTINEL | Some v \<Rightarrow> be_enc 4 (length v) @ v)"

lemma encode_undo_entry_fits:
  "undo_entry_fits e \<Longrightarrow> encode_undo_entry e = Inr (undo_entry_bytes e)"
  by (auto simp: encode_undo_entry_def undo_entry_fits_def undo_entry_bytes_def
      pack_be_uint16_nat pack_be_uint32_nat UNDO_NONE_SENTINEL_def
      simp del: of_nat_numeral split: prod.split option.splits
      intro!: arg_cong2 [where f = rbind] pack_be_uint32_nat [of 4294967295, simplified])

lemma decode_undo_loop_step:
  assumes "undo_entry_fits e"
  shows "decode_undo_loop (pre @ undo_entry_bytes e @ post) (length pre) acc =
    decode_undo_loop (pre @ undo_entry_bytes e @ post) (length (pre @ undo_entry_bytes e)) (acc @ [e])"
proof -
  obtain key prev where e: "e = (key, prev)" by (cases e)
  with assms have k: "length key < 256 ^ 2" by (simp add: undo_entry_fits_def)
  define v where "v = (case prev of None \<Rightarrow> [] | Some v \<Rightarrow> v)"
  define n where "n = (case prev of None \<Rightarrow> UNDO_NONE_SENTINEL | Some v \<Rightarrow> length v)"
  have n: "n < 256 ^ 4" "n = UNDO_NONE_SENTINEL \<longleftrightarrow> prev = None"
      "prev \<noteq> None \<Longrightarrow> n = length v" "prev = None \<Longrightarrow> v = []"
    using assms by (auto simp: n_def v_def e undo_entry_fits_def UNDO_NONE_SENTINEL_def split: option.splits)
  let ?raw = "pre @ be_enc 2 (length key) @ key @ be_enc 4 n @ v @ post"
  have raw: "pre @ undo_entry_bytes e @ post = ?raw"
    by (simp add: undo_entry_bytes_def e n_def v_def split: option.splits)
  let ?p = "length pre" and ?k = "length key"
  have s1: "slice ?p (?p + 2) ?raw = be_enc 2 ?k" by (rule slice_mid) simp_all
  have s2: "slice (?p + 2) (?p + 2 + ?k) ?raw = key"
    using slice_mid [of "pre @ be_enc 2 ?k" "?p + 2" key "?p + 2 + ?k"] by simp
  have s3: "slice (?p + 2 + ?k) (?p + 2 + ?k + 4) ?raw = be_enc 4 n"
    using slice_mid [of "pre @ be_enc 2 ?k @ key" "?p + 2 + ?k" "be_enc 4 n" "?p + 2 + ?k + 4"] by simp
  have s4: "slice (?p + 2 + ?k + 4) (?p + 2 + ?k + 4 + length v) ?raw = v"
    using slice_mid [of "pre @ be_enc 2 ?k @ key @ be_enc 4 n" "?p + 2 + ?k + 4" v
        "?p + 2 + ?k + 4 + length v"] by simp
  have len: "length (pre @ undo_entry_bytes e) = ?p + 2 + ?k + 4 + length v"
    by (simp add: undo_entry_bytes_def e v_def split: option.splits)
  have kd: "be_dec (slice ?p (?p + 2) ?raw) = ?k" by (simp only: s1 be_dec_enc_id [OF k])
  have nd: "be_dec (slice (?p + 2 + ?k) (?p + 2 + ?k + 4) ?raw) = n"
    by (simp only: s3 be_dec_enc_id [OF n(1)])
  have conds: "?p < length ?raw" "\<not> length ?raw < ?p + 2" "\<not> length ?raw < ?p + 2 + ?k + 4"
    by simp_all
  have "decode_undo_loop ?raw ?p acc =
    (if n = UNDO_NONE_SENTINEL then decode_undo_loop ?raw (?p + 2 + ?k + 4) (acc @ [(key, None)])
     else decode_undo_loop ?raw (?p + 2 + ?k + 4 + n)
       (acc @ [(key, Some (slice (?p + 2 + ?k + 4) (?p + 2 + ?k + 4 + n) ?raw))]))"
    by (subst decode_undo_loop.simps) (simp only: kd nd s2 conds Let_def if_True if_False)
  then show ?thesis
    unfolding raw len using n(2-4) s4 by (cases prev) (simp_all add: e v_def)
qed

lemma decode_undo_loop_all:
  assumes "\<forall>e \<in> set es. undo_entry_fits e"
  shows "decode_undo_loop (pre @ concat (map undo_entry_bytes es)) (length pre) acc = acc @ es"
  using assms
proof (induction es arbitrary: pre acc)
  case Nil
  show ?case by (simp add: decode_undo_loop.simps)
next
  case (Cons e es)
  have "decode_undo_loop (pre @ concat (map undo_entry_bytes (e # es))) (length pre) acc
      = decode_undo_loop ((pre @ undo_entry_bytes e) @ concat (map undo_entry_bytes es))
          (length (pre @ undo_entry_bytes e)) (acc @ [e])"
    using decode_undo_loop_step [of e pre "concat (map undo_entry_bytes es)" acc] Cons.prems by simp
  also have "\<dots> = acc @ e # es"
    using Cons.IH [of "pre @ undo_entry_bytes e" "acc @ [e]"] Cons.prems by simp
  finally show ?case .
qed

lemma undo_codec:
  assumes "\<forall>e \<in> set entries. undo_entry_fits e"
  shows "\<exists>raw. encode_undo entries = Inr raw \<and> decode_undo raw = entries"
proof -
  have "encode_undo entries = Inr (concat (map undo_entry_bytes entries))"
    using assms by (simp add: encode_undo_def mapM_Inr [of _ _ undo_entry_bytes] encode_undo_entry_fits)
  moreover have "decode_undo (concat (map undo_entry_bytes entries)) = entries"
    using decode_undo_loop_all [OF assms, of "[]" "[]"] by (simp add: decode_undo_def)
  ultimately show ?thesis by blast
qed

text \<open>C37: Undo entries survive the round trip through the database: whatever list of
  (key, previous value) pairs an index writes with \<open>encode_undo\<close>, as long as keys are shorter
  than 64 KiB and values shorter than the sentinel length, \<open>decode_undo\<close> reads back exactly that
  list, in order, with absent values still absent.\<close>

theorem undo_codec_roundtrip:
  assumes "\<forall>e \<in> set entries. undo_entry_fits e"
  shows "\<exists>raw. encode_undo entries = Inr raw \<and> decode_undo raw = entries"
  using assms by (rule undo_codec)

theorem undo_codec_roundtrip_witness:
  "\<exists>raw. encode_undo [([1, 2], None), ([3], Some [7, 8, 9]), ([], Some [])] = Inr raw
     \<and> decode_undo raw = [([1, 2], None), ([3], Some [7, 8, 9]), ([], Some [])]"
  by (rule undo_codec_roundtrip) (simp add: undo_entry_fits_def UNDO_NONE_SENTINEL_def)

end
