(* ===== verification/Hash.thy ===== *)
theory Hash
  imports Util
begin

text \<open>
  \<open>src/electrumx/lib/hash.py\<close>: display form of hashes and base 58. The digests themselves
  (\<open>hashlib\<close>) are arguments of the definitions that use them; nothing below depends on which
  function they compute.
\<close>

definition HASHX_LEN :: nat where
  "HASHX_LEN = 11"

text \<open>\<open>double_sha256\<close> and \<open>double_sha512_256\<close>, over the single digest.\<close>

definition double_hash :: "(bytes \<Rightarrow> bytes) \<Rightarrow> bytes \<Rightarrow> bytes" where
  "double_hash h x = h (h x)"

section \<open>Hexadecimal display\<close>

definition hex_chars :: string where
  "hex_chars = ''0123456789abcdef''"

definition byte_hex :: "byte \<Rightarrow> string" where
  "byte_hex b = [hex_chars ! (unat b div 16), hex_chars ! (unat b mod 16)]"

text \<open>\<open>bytes.hex()\<close> and \<open>bytes.fromhex\<close>: the latter takes either case and skips ASCII white
  space between bytes.\<close>

definition bytes_hex :: "bytes \<Rightarrow> string" where
  "bytes_hex bs = concat (map byte_hex bs)"

definition hex_value :: "char \<Rightarrow> nat option" where
  "hex_value c = map_of (zip (hex_chars @ ''ABCDEF'') ([0..<16] @ [10..<16])) c"

definition is_space :: "char \<Rightarrow> bool" where
  "is_space c \<longleftrightarrow> c \<in> set [CHR '' '', CHR 0x09, CHR 0x0A, CHR 0x0B, CHR 0x0C, CHR 0x0D]"

fun hex_to_bytes :: "string \<Rightarrow> bytes res" where
  "hex_to_bytes [] = Inr []"
| "hex_to_bytes [c] = (if is_space c then Inr [] else Inl ValueError)"
| "hex_to_bytes (c # d # cs) =
     (if is_space c then hex_to_bytes (d # cs)
      else case (hex_value c, hex_value d) of
        (Some h, Some l) \<Rightarrow> rbind (hex_to_bytes cs) (\<lambda>bs. Inr (of_nat (16 * h + l) # bs))
      | _ \<Rightarrow> Inl ValueError)"

definition hash_to_hex_str :: "bytes \<Rightarrow> string" where
  "hash_to_hex_str x = bytes_hex (rev x)"

definition hex_str_to_hash :: "string \<Rightarrow> bytes res" where
  "hex_str_to_hash x = rbind (hex_to_bytes x) (\<lambda>b. Inr (rev b))"

lemma hex_digits: "d < 16 \<Longrightarrow> hex_value (hex_chars ! d) = Some d \<and> \<not> is_space (hex_chars ! d)"
proof -
  assume "d < 16"
  moreover have "list_all (\<lambda>d. hex_value (hex_chars ! d) = Some d \<and> \<not> is_space (hex_chars ! d)) [0..<16]"
    by code_simp
  ultimately show ?thesis by (simp only: list_all_iff) simp
qed

lemma hex_to_bytes_hex [simp]: "hex_to_bytes (bytes_hex bs) = Inr bs"
proof (induction bs)
  case Nil
  show ?case by (simp add: bytes_hex_def)
next
  case (Cons b bs)
  have hi: "unat b div 16 < 16" using unat_byte_lt [of b] by linarith
  have lo: "unat b mod 16 < 16" by simp
  from Cons hex_digits [OF hi] hex_digits [OF lo] show ?case
    by (simp add: bytes_hex_def byte_hex_def)
qed

text \<open>The display form of a hash loses nothing: reading back the hex string shown for a
  hash gives the hash.\<close>

theorem hash_hex_roundtrip: "hex_str_to_hash (hash_to_hex_str x) = Inr x"
  by (simp add: hex_str_to_hash_def hash_to_hex_str_def)

section \<open>Base 58\<close>

definition chars58 :: string where
  "chars58 = ''123456789ABCDEFGHJKLMNPQRSTUVWXYZabcdefghijkmnopqrstuvwxyz''"

definition char_value :: "char \<Rightarrow> nat res" where
  "char_value c = (case map_of (zip chars58 [0..<58]) c of
     None \<Rightarrow> Inl Base58Error | Some v \<Rightarrow> Inr v)"

definition b58_step :: "nat \<Rightarrow> char \<Rightarrow> nat res" where
  "b58_step v c = rbind (char_value c) (\<lambda>d. Inr (v * 58 + d))"

definition b58_decode :: "string \<Rightarrow> bytes res" where
  "b58_decode txt =
     (if txt = [] then Inl Base58Error
      else rbind (foldM b58_step 0 txt) (\<lambda>v.
        rbind (int_to_bytes (int v)) (\<lambda>result.
        let count = length (takeWhile (\<lambda>c. c = CHR ''1'') txt)
        in Inr (if count \<noteq> 0 then zero_bytes count @ result else result))))"

fun b58_digits :: "nat \<Rightarrow> string" where
  "b58_digits v = (if v = 0 then [] else chars58 ! (v mod 58) # b58_digits (v div 58))"

declare b58_digits.simps [simp del]

definition b58_encode :: "bytes \<Rightarrow> string" where
  "b58_encode be_bytes =
     rev (b58_digits (bytes_to_int be_bytes)
          @ replicate (length (takeWhile (\<lambda>b. b = 0) be_bytes)) (CHR ''1''))"

definition decode_check :: "(bytes \<Rightarrow> bytes) \<Rightarrow> string \<Rightarrow> bytes res" where
  "decode_check hash_fn txt = rbind (b58_decode txt) (\<lambda>be_bytes.
     let result = droplast 4 be_bytes; check = takelast 4 be_bytes
     in if check \<noteq> take 4 (hash_fn result) then Inl Base58Error else Inr result)"

definition encode_check :: "(bytes \<Rightarrow> bytes) \<Rightarrow> bytes \<Rightarrow> string" where
  "encode_check hash_fn payload = b58_encode (payload @ take 4 (hash_fn payload))"

lemma chars58_digit:
  assumes "d < 58"
  shows "char_value (chars58 ! d) = Inr d" and "chars58 ! d = CHR ''1'' \<longleftrightarrow> d = 0"
proof -
  have "list_all (\<lambda>d. char_value (chars58 ! d) = Inr d \<and> (chars58 ! d = CHR ''1'') = (d = 0)) [0..<58]"
    by code_simp
  with assms show "char_value (chars58 ! d) = Inr d" "chars58 ! d = CHR ''1'' \<longleftrightarrow> d = 0"
    by (simp_all only: list_all_iff) simp_all
qed

lemma b58_step_digit: "d < 58 \<Longrightarrow> b58_step v (chars58 ! d) = Inr (v * 58 + d)"
  by (simp add: b58_step_def chars58_digit)

lemma b58_value_digits: "foldM b58_step 0 (rev (b58_digits v)) = Inr v"
proof (induction v rule: b58_digits.induct)
  case (1 v)
  show ?case
  proof (cases "v = 0")
    case False
    with 1 have "foldM b58_step 0 (rev (b58_digits (v div 58))) = Inr (v div 58)" by simp
    moreover have "b58_step (v div 58) (chars58 ! (v mod 58)) = Inr v"
      by (simp add: b58_step_digit)
    ultimately show ?thesis using False by (subst b58_digits.simps) (simp add: foldM_append)
  qed (simp add: b58_digits.simps)
qed

lemma b58_value_ones: "foldM b58_step 0 (replicate m (CHR ''1'')) = Inr 0"
proof (induction m)
  case (Suc m)
  have "b58_step 0 (CHR ''1'') = Inr 0" by code_simp
  with Suc show ?case by simp
qed simp

lemma b58_digits_last: "v \<noteq> 0 \<Longrightarrow> b58_digits v \<noteq> [] \<and> last (b58_digits v) \<noteq> CHR ''1''"
proof (induction v rule: b58_digits.induct)
  case (1 v)
  show ?case
  proof (cases "v div 58 = 0")
    case True
    then have "v mod 58 = v" "v < 58" by simp_all
    with True 1 show ?thesis
      by (subst (1 2) b58_digits.simps) (simp add: b58_digits.simps [of 0] chars58_digit)
  next
    case False
    with 1 show ?thesis by (subst (1 2) b58_digits.simps) simp
  qed
qed

lemma takeWhile_replicate_append:
  "P a \<Longrightarrow> (xs = [] \<or> \<not> P (hd xs)) \<Longrightarrow> takeWhile P (replicate m a @ xs) = replicate m a"
  by (induction m) (cases xs; simp)+

lemma b58_encode_ones:
  "takeWhile (\<lambda>c. c = CHR ''1'') (replicate m (CHR ''1'') @ rev (b58_digits v)) = replicate m (CHR ''1'')"
proof (rule takeWhile_replicate_append)
  show "rev (b58_digits v) = [] \<or> hd (rev (b58_digits v)) \<noteq> CHR ''1''"
    using b58_digits_last [of v] by (cases "v = 0") (auto simp: b58_digits.simps [of 0] hd_rev)
qed simp

text \<open>\<open>int_to_bytes\<close> is minimal, so it gives back a byte string without its leading zeros.\<close>

lemma bit_length_le: "n < 2 ^ k \<longleftrightarrow> bit_length n \<le> k"
proof (induction n arbitrary: k rule: bit_length.induct)
  case (1 n)
  show ?case
  proof (cases "n = 0")
    case False
    then have bl: "bit_length n = Suc (bit_length (n div 2))" by (simp add: bit_length.simps [of n])
    show ?thesis
    proof (cases k)
      case 0
      with False bl show ?thesis by simp
    next
      case (Suc j)
      have "n < 2 ^ Suc j \<longleftrightarrow> n div 2 < 2 ^ j" by auto
      with 1 False bl Suc show ?thesis by simp
    qed
  qed (simp add: bit_length.simps)
qed

lemma int_to_bytes_minimal:
  assumes "bs = [] \<or> hd bs \<noteq> 0"
  shows "int_to_bytes (int (be_dec bs)) = Inr bs"
proof -
  have "(bit_length (be_dec bs) + 7) div 8 = length bs"
  proof (cases bs)
    case Nil
    then show ?thesis by (simp add: bit_length.simps)
  next
    case (Cons b bs')
    then have "0 < unat b" using assms by (simp add: unat_gt_0)
    then have "256 ^ length bs' \<le> unat b * 256 ^ length bs'" by simp
    also have "\<dots> \<le> be_dec bs" by (simp add: Cons be_dec_Cons)
    finally have "\<not> be_dec bs < 2 ^ (8 * length bs')" by (simp add: power_mult)
    then have "8 * length bs' < bit_length (be_dec bs)" by (simp add: bit_length_le)
    moreover have "be_dec bs < 2 ^ (8 * length bs)"
      using be_dec_bound [of bs] by (simp add: power_mult)
    then have "bit_length (be_dec bs) \<le> 8 * length bs" by (simp only: bit_length_le)
    ultimately show ?thesis using Cons by simp
  qed
  then show ?thesis by (simp add: int_to_bytes_def)
qed

lemma strip_zeros:
  obtains m rest where "(bs :: bytes) = zero_bytes m @ rest" "rest = [] \<or> hd rest \<noteq> 0"
    "length (takeWhile (\<lambda>b. b = 0) bs) = m"
proof
  let ?z = "takeWhile (\<lambda>b. b = 0) bs"
  have "?z = zero_bytes (length ?z)"
    unfolding zero_bytes_def by (rule replicate_eqI) (auto dest: set_takeWhileD)
  then show "bs = zero_bytes (length ?z) @ dropWhile (\<lambda>b. b = 0) bs"
    by (metis takeWhile_dropWhile_id)
  show "dropWhile (\<lambda>b. b = 0) bs = [] \<or> hd (dropWhile (\<lambda>b. b = 0) bs) \<noteq> 0"
    using hd_dropWhile [of "\<lambda>b. b = 0" bs] by auto
qed simp

lemma b58_decode_encode:
  assumes "bs \<noteq> []"
  shows "b58_decode (b58_encode bs) = Inr bs"
proof -
  obtain m rest where bs: "bs = zero_bytes m @ rest" and rest: "rest = [] \<or> hd rest \<noteq> 0"
    and m: "length (takeWhile (\<lambda>b. b = 0) bs) = m"
    by (rule strip_zeros)
  have v: "bytes_to_int bs = be_dec rest" by (simp add: bytes_to_int_def bs be_dec_append)
  have enc: "b58_encode bs = replicate m (CHR ''1'') @ rev (b58_digits (be_dec rest))"
    by (simp add: b58_encode_def m v)
  have "m \<noteq> 0 \<or> be_dec rest \<noteq> 0"
  proof (rule ccontr)
    assume "\<not> ?thesis"
    with int_to_bytes_minimal [OF rest] have "Inr rest = int_to_bytes 0" "m = 0" by simp_all
    then show False using bs assms by (simp add: int_to_bytes_def bit_length.simps be_enc_def zero_bytes_def)
  qed
  then have ne: "b58_encode bs \<noteq> []"
    using b58_digits_last [of "be_dec rest"] by (auto simp: enc)
  have "foldM b58_step 0 (b58_encode bs) = Inr (be_dec rest)"
    by (simp add: enc foldM_append b58_value_ones b58_value_digits)
  moreover have "takeWhile (\<lambda>c. c = CHR ''1'') (b58_encode bs) = replicate m (CHR ''1'')"
    by (simp add: enc b58_encode_ones)
  ultimately have "b58_decode (b58_encode bs) = Inr (zero_bytes m @ rest)"
    using ne by (simp add: b58_decode_def int_to_bytes_minimal [OF rest] zero_bytes_def)
  then show ?thesis by (simp only: bs)
qed

text \<open>Base58Check addresses round trip: decoding the encoding of any payload gives the
  payload back, leading zero bytes included, for every checksum function whose digest has at
  least four bytes.\<close>

theorem base58_check_roundtrip:
  assumes "4 \<le> length (hash_fn payload)"
  shows "decode_check hash_fn (encode_check hash_fn payload) = Inr payload"
proof -
  have len: "length (take 4 (hash_fn payload)) = 4" using assms by simp
  then have "payload @ take 4 (hash_fn payload) \<noteq> []" by auto
  then show ?thesis using len by (simp add: decode_check_def encode_check_def b58_decode_encode)
qed

theorem base58_check_roundtrip_witness:
  "decode_check (\<lambda>b. rev b @ [1, 2, 3, 4]) (encode_check (\<lambda>b. rev b @ [1, 2, 3, 4]) [0, 0, 9, 200])
     = Inr [0, 0, 9, 200]"
  by (rule base58_check_roundtrip) simp

end
