(* ===== verification/Script.thy ===== *)
theory Script
  imports Hash
begin

text \<open>
  \<open>src/electrumx/lib/script.py\<close> and \<open>src/electrumx/lib/enum.py\<close>: opcodes, the script
  walkers (each a loop over a cursor, as written), the zeroing of token references that decides
  which address an output is indexed under, reference extraction, and the recovery of the owner's
  locking script from a token output.
\<close>

section \<open>Opcodes\<close>

definition OP_PUSHDATA1 :: nat where "OP_PUSHDATA1 = 76"
definition OP_PUSHDATA2 :: nat where "OP_PUSHDATA2 = 77"
definition OP_PUSHDATA4 :: nat where "OP_PUSHDATA4 = 78"
definition OP_2DROP :: nat where "OP_2DROP = 109"
definition OP_DROP :: nat where "OP_DROP = 117"
definition OP_DUP :: nat where "OP_DUP = 118"
definition OP_EQUAL :: nat where "OP_EQUAL = 135"
definition OP_EQUALVERIFY :: nat where "OP_EQUALVERIFY = 136"
definition OP_HASH160 :: nat where "OP_HASH160 = 169"
definition OP_CHECKSIG :: nat where "OP_CHECKSIG = 172"
definition OP_CHECKSIGVERIFY :: nat where "OP_CHECKSIGVERIFY = 173"
definition OP_CHECKMULTISIG :: nat where "OP_CHECKMULTISIG = 174"
definition OP_CHECKMULTISIGVERIFY :: nat where "OP_CHECKMULTISIGVERIFY = 175"
definition OP_STATESEPERATOR :: nat where "OP_STATESEPERATOR = 189"
definition OP_PUSHINPUTREF :: nat where "OP_PUSHINPUTREF = 208"
definition OP_REQUIREINPUTREF :: nat where "OP_REQUIREINPUTREF = 209"
definition OP_DISALLOWPUSHINPUTREF :: nat where "OP_DISALLOWPUSHINPUTREF = 210"
definition OP_DISALLOWPUSHINPUTREFSIBLING :: nat where "OP_DISALLOWPUSHINPUTREFSIBLING = 211"
definition OP_PUSHINPUTREFSINGLETON :: nat where "OP_PUSHINPUTREFSINGLETON = 216"

lemmas opcode_defs =
  OP_PUSHDATA1_def OP_PUSHDATA2_def OP_PUSHDATA4_def OP_2DROP_def OP_DROP_def OP_DUP_def
  OP_EQUAL_def OP_EQUALVERIFY_def OP_HASH160_def OP_CHECKSIG_def OP_CHECKSIGVERIFY_def
  OP_CHECKMULTISIG_def OP_CHECKMULTISIGVERIFY_def OP_STATESEPERATOR_def OP_PUSHINPUTREF_def
  OP_REQUIREINPUTREF_def OP_DISALLOWPUSHINPUTREF_def OP_DISALLOWPUSHINPUTREFSIBLING_def
  OP_PUSHINPUTREFSINGLETON_def

definition INPUT_REF_OPS :: "nat list" where
  "INPUT_REF_OPS = [OP_PUSHINPUTREF, OP_PUSHINPUTREFSINGLETON, OP_REQUIREINPUTREF,
     OP_DISALLOWPUSHINPUTREF, OP_DISALLOWPUSHINPUTREFSIBLING]"

definition CHECKSIG_OPS :: "nat list" where
  "CHECKSIG_OPS = [OP_CHECKSIG, OP_CHECKSIGVERIFY, OP_CHECKMULTISIG, OP_CHECKMULTISIGVERIFY]"

definition is_unspendable_legacy :: "bytes \<Rightarrow> bool" where
  "is_unspendable_legacy script \<longleftrightarrow>
     take 2 script = [0, 106] \<or> (script \<noteq> [] \<and> script ! 0 = 106)"

definition is_unspendable_genesis :: "bytes \<Rightarrow> bool" where
  "is_unspendable_genesis script \<longleftrightarrow> take 2 script = [0, 106]"

section \<open>The push operand\<close>

text \<open>The operand length of a push opcode: the \<open>if op < OP_PUSHDATA1 \<dots>\<close> ladder that every
  walker repeats. \<open>n\<close> is the cursor after the opcode; the result is the data length and the
  cursor of the data. A missing length byte raises \<open>IndexError\<close>, missing length bytes
  \<open>struct.error\<close>.\<close>

definition push_operand :: "bytes \<Rightarrow> nat \<Rightarrow> nat \<Rightarrow> (nat \<times> nat) res" where
  "push_operand script op n =
     (if op < OP_PUSHDATA1 then Inr (op, n)
      else if op = OP_PUSHDATA1 then rbind (index script n) (\<lambda>b. Inr (unat b, n + 1))
      else if op = OP_PUSHDATA2 then
        rbind (unpack_le_uint16_from (slice n (n + 2) script) 0) (\<lambda>d. Inr (d, n + 2))
      else rbind (unpack_le_uint32_from (slice n (n + 4) script) 0) (\<lambda>d. Inr (d, n + 4)))"

lemma push_operand_mono: "push_operand script op n = Inr (dlen, n') \<Longrightarrow> n \<le> n'"
  by (auto simp: push_operand_def rbind_eq_Inr split: if_splits)

text \<open>One opcode with its operand: where its data starts, how long the data is, where the next
  opcode stands. This is the specification the walkers are compared with.\<close>

definition next_op :: "bytes \<Rightarrow> nat \<Rightarrow> (nat \<times> nat \<times> nat \<times> nat) res" where
  "next_op script n =
     (let op = unat (script ! n) in
      if op \<le> OP_PUSHDATA4 then
        rbind (push_operand script op (n + 1)) (\<lambda>(dlen, n2).
          if length script < n2 + dlen then Inl IndexError else Inr (op, dlen, n2, n2 + dlen))
      else if op \<in> set INPUT_REF_OPS then
        (if length script < n + 1 + 36 then Inl IndexError else Inr (op, 36, n + 1, n + 1 + 36))
      else Inr (op, 0, n + 1, n + 1))"

lemma next_op_bounds:
  "next_op script n = Inr (op, dlen, d, e) \<Longrightarrow> n < length script \<Longrightarrow>
     n < d \<and> e = d + dlen \<and> e \<le> length script \<and> op = unat (script ! n)"
  by (auto simp: next_op_def Let_def rbind_eq_Inr split: if_splits dest: push_operand_mono)

section \<open>The walkers\<close>

function walk_ops_loop ::
    "bytes \<Rightarrow> nat \<Rightarrow> (nat \<times> nat \<times> nat \<times> nat) list \<Rightarrow> (nat \<times> nat \<times> nat \<times> nat) list res" where
  "walk_ops_loop script n ops =
     (if n < length script then
        let op = unat (script ! n) in
        if op \<le> OP_PUSHDATA4 then
          rbind (push_operand script op (n + 1)) (\<lambda>(dlen, n2).
            if length script < n2 + dlen then Inl IndexError
            else walk_ops_loop script (n2 + dlen) (ops @ [(op, dlen, n, n2 + dlen)]))
        else if op \<in> set INPUT_REF_OPS then
          (if length script < n + 1 + 36 then Inl IndexError
           else walk_ops_loop script (n + 1 + 36) (ops @ [(op, 36, n, n + 1 + 36)]))
        else walk_ops_loop script (n + 1) (ops @ [(op, 0, n, n + 1)])
      else Inr ops)"
  by pat_completeness auto
termination
  by (relation "measure (\<lambda>(script, n, ops). length script - n)") (auto dest!: push_operand_mono)

declare walk_ops_loop.simps [simp del]

definition walk_ops :: "bytes \<Rightarrow> (nat \<times> nat \<times> nat \<times> nat) list res" where
  "walk_ops script = walk_ops_loop script 0 []"

function stateseperator_loop :: "bytes \<Rightarrow> nat \<Rightarrow> nat res" where
  "stateseperator_loop script n =
     (if n < length script then
        let op = unat (script ! n) in
        if op = OP_STATESEPERATOR then Inr n
        else if op \<le> OP_PUSHDATA4 then
          rbind (push_operand script op (n + 1)) (\<lambda>(dlen, n2).
            if length script < n2 + dlen then Inl IndexError
            else stateseperator_loop script (n2 + dlen))
        else if op = OP_PUSHINPUTREF \<or> op = OP_REQUIREINPUTREF \<or> op = OP_DISALLOWPUSHINPUTREF
            \<or> op = OP_DISALLOWPUSHINPUTREFSIBLING \<or> op = OP_PUSHINPUTREFSINGLETON then
          (if length script < n + 1 + 36 then Inl IndexError
           else stateseperator_loop script (n + 1 + 36))
        else stateseperator_loop script (n + 1)
      else Inr 0)"
  by pat_completeness auto
termination
  by (relation "measure (\<lambda>(script, n). length script - n)") (auto dest!: push_operand_mono)

declare stateseperator_loop.simps [simp del]

text \<open>\<open>except Exception: raise ScriptError\<close>.\<close>

definition as_script_error :: "'a res \<Rightarrow> 'a res" where
  "as_script_error r = (case r of Inl _ \<Rightarrow> Inl ScriptError | Inr x \<Rightarrow> Inr x)"

lemma as_script_error_simps [simp]:
  "as_script_error (Inl e) = Inl ScriptError" "as_script_error (Inr x) = Inr x"
  by (simp_all add: as_script_error_def)

lemma as_script_error_eq_Inr [simp]: "as_script_error r = Inr x \<longleftrightarrow> r = Inr x"
  by (cases r) simp_all

definition get_stateseperator_index :: "bytes \<Rightarrow> nat res" where
  "get_stateseperator_index script = as_script_error (stateseperator_loop script 0)"

text \<open>An element of \<open>get_ops\<close>: a push is the pair \<open>(op, data)\<close>, and every element, push or
  not, is paired once more with the slice of the last operand length at the new cursor.\<close>

datatype script_op = Op byte | Push byte bytes

function get_ops_loop ::
    "bytes \<Rightarrow> nat \<Rightarrow> nat \<Rightarrow> (script_op \<times> bytes) list \<Rightarrow> (script_op \<times> bytes) list res" where
  "get_ops_loop script n dlen ops =
     (if n < length script then
        let b = script ! n; op = unat b in
        if op \<le> OP_PUSHDATA4 then
          rbind (push_operand script op (n + 1)) (\<lambda>(dlen', n2).
            if length script < n2 + dlen' then Inl IndexError
            else get_ops_loop script (n2 + dlen') dlen'
                   (ops @ [(Push b (slice n2 (n2 + dlen') script),
                            slice (n2 + dlen') (n2 + dlen' + dlen') script)]))
        else if op \<in> set INPUT_REF_OPS then
          (if length script < n + 1 + 36 then Inl IndexError
           else get_ops_loop script (n + 1 + 36) 36
                  (ops @ [(Op b, slice (n + 1 + 36) (n + 1 + 36 + 36) script)]))
        else get_ops_loop script (n + 1) dlen (ops @ [(Op b, slice (n + 1) (n + 1 + dlen) script)])
      else Inr ops)"
  by pat_completeness auto
termination
  by (relation "measure (\<lambda>(script, n, dlen, ops). length script - n)") (auto dest!: push_operand_mono)

declare get_ops_loop.simps [simp del]

definition get_ops :: "bytes \<Rightarrow> (script_op \<times> bytes) list res" where
  "get_ops script = as_script_error (get_ops_loop script 0 0 [])"

text \<open>\<open>refs\<close> holds \<open>(all_refs, normal_refs, singleton_refs)\<close>.\<close>

type_synonym refs3 = "bytes list \<times> bytes list \<times> bytes list"

function push_refs_loop :: "bytes \<Rightarrow> nat \<Rightarrow> refs3 \<Rightarrow> refs3 res" where
  "push_refs_loop script n refs =
     (if n < length script then
        let op = unat (script ! n) in
        if op \<le> OP_PUSHDATA4 then
          rbind (push_operand script op (n + 1)) (\<lambda>(dlen, n2).
            if length script < n2 + dlen then Inl IndexError
            else push_refs_loop script (n2 + dlen) refs)
        else if op \<in> set INPUT_REF_OPS then
          (let ref = slice (n + 1) (n + 1 + 36) script;
               refs' = (case refs of (all_refs, normal, single) \<Rightarrow>
                 if op = OP_PUSHINPUTREF then (all_refs @ [ref], normal @ [ref], single)
                 else if op = OP_PUSHINPUTREFSINGLETON then (all_refs @ [ref], normal, single @ [ref])
                 else (all_refs, normal, single))
           in if length script < n + 1 + 36 then Inl IndexError
              else push_refs_loop script (n + 1 + 36) refs')
        else push_refs_loop script (n + 1) refs
      else Inr refs)"
  by pat_completeness auto
termination
  by (relation "measure (\<lambda>(script, n, refs). length script - n)") (auto dest!: push_operand_mono)

declare push_refs_loop.simps [simp del]

definition get_push_input_refs :: "bytes \<Rightarrow> refs3 res" where
  "get_push_input_refs script = as_script_error (push_refs_loop script 0 ([], [], []))"

text \<open>\<open>dedup_refs\<close> returns a dictionary mapping each reference to itself; only its keys, in
  order of first occurrence, and membership are ever used.\<close>

definition dedup_refs :: "bytes list \<Rightarrow> (bytes, bytes) dict" where
  "dedup_refs refs_list = fold (\<lambda>ref d. dict_set ref ref d) refs_list []"

function zero_refs_loop :: "bytes \<Rightarrow> nat \<Rightarrow> bytes \<Rightarrow> bool \<Rightarrow> (bytes \<times> bool) res" where
  "zero_refs_loop script n ops requires_sig =
     (if n < length script then
        let op = unat (script ! n); ops1 = ops @ [script ! n] in
        if op \<in> set CHECKSIG_OPS then zero_refs_loop script (n + 1) ops1 True
        else if op \<le> OP_PUSHDATA4 then
          rbind (push_operand script op (n + 1)) (\<lambda>(dlen, n2).
            if length script < n2 + dlen then Inl IndexError
            else zero_refs_loop script (n2 + dlen) (ops1 @ slice n2 (n2 + dlen) script) requires_sig)
        else if op \<in> set INPUT_REF_OPS then
          (if length script < n + 1 + 36 then Inl IndexError
           else zero_refs_loop script (n + 1 + 36) (ops1 @ zero_bytes 36) requires_sig)
        else zero_refs_loop script (n + 1) ops1 requires_sig
      else Inr (ops, requires_sig))"
  by pat_completeness auto
termination
  by (relation "measure (\<lambda>(script, n, ops, requires_sig). length script - n)")
    (auto dest!: push_operand_mono)

declare zero_refs_loop.simps [simp del]

definition zero_refs :: "bytes \<Rightarrow> bytes res" where
  "zero_refs script =
     as_script_error (rbind (zero_refs_loop script 0 [] False) (\<lambda>(ops, requires_sig).
       Inr (if requires_sig then ops else script)))"

section \<open>Building scripts\<close>

definition push_data :: "bytes \<Rightarrow> bytes res" where
  "push_data data =
     (let n = length data in
      if n < OP_PUSHDATA1 then Inr (of_nat n # data)
      else if n < 256 then Inr ([of_nat OP_PUSHDATA1, of_nat n] @ data)
      else if n < 65536 then
        rbind (pack_le_uint16 (int n)) (\<lambda>l. Inr (of_nat OP_PUSHDATA2 # l @ data))
      else rbind (pack_le_uint32 (int n)) (\<lambda>l. Inr (of_nat OP_PUSHDATA4 # l @ data)))"

definition P2SH_script :: "bytes \<Rightarrow> bytes res" where
  "P2SH_script hash160 = rbind (push_data hash160) (\<lambda>p.
     Inr ([of_nat OP_HASH160] @ p @ [of_nat OP_EQUAL]))"

definition P2PKH_script :: "bytes \<Rightarrow> bytes res" where
  "P2PKH_script hash160 = rbind (push_data hash160) (\<lambda>p.
     Inr ([of_nat OP_DUP, of_nat OP_HASH160] @ p @ [of_nat OP_EQUALVERIFY, of_nat OP_CHECKSIG]))"

section \<open>The owner's locking script\<close>

fun find_first :: "(nat \<Rightarrow> bool) \<Rightarrow> nat list \<Rightarrow> nat option" where
  "find_first p [] = None"
| "find_first p (i # is) = (if p i then Some i else find_first p is)"

definition is_p2pkh_at :: "(nat \<times> nat \<times> nat \<times> nat) list \<Rightarrow> nat \<Rightarrow> bool" where
  "is_p2pkh_at ops i \<longleftrightarrow>
     fst (ops ! i) = OP_DUP \<and> fst (ops ! (i + 1)) = OP_HASH160
     \<and> fst (ops ! (i + 2)) = 20 \<and> fst (snd (ops ! (i + 2))) = 20
     \<and> fst (ops ! (i + 3)) = OP_EQUALVERIFY \<and> fst (ops ! (i + 4)) = OP_CHECKSIG"

definition is_p2sh_at :: "(nat \<times> nat \<times> nat \<times> nat) list \<Rightarrow> nat \<Rightarrow> bool" where
  "is_p2sh_at ops i \<longleftrightarrow>
     fst (ops ! i) = OP_HASH160 \<and> fst (ops ! (i + 1)) = 20
     \<and> fst (snd (ops ! (i + 1))) = 20 \<and> fst (ops ! (i + 2)) = OP_EQUAL"

definition op_start :: "(nat \<times> nat \<times> nat \<times> nat) list \<Rightarrow> nat \<Rightarrow> nat" where
  "op_start ops i = fst (snd (snd (ops ! i)))"

definition op_end :: "(nat \<times> nat \<times> nat \<times> nat) list \<Rightarrow> nat \<Rightarrow> nat" where
  "op_end ops i = snd (snd (snd (ops ! i)))"

text \<open>The fallback: the cursor after a leading run of reference operands and drops.\<close>

function skip_preamble :: "bytes \<Rightarrow> nat \<Rightarrow> nat" where
  "skip_preamble script n =
     (if n < length script then
        let op = unat (script ! n) in
        if op \<in> set INPUT_REF_OPS then
          (if length script < n + 1 + 36 then n else skip_preamble script (n + 1 + 36))
        else if op = OP_DROP \<or> op = OP_2DROP then skip_preamble script (n + 1)
        else n
      else n)"
  by pat_completeness auto
termination
  by (relation "measure (\<lambda>(script, n). length script - n)") auto

declare skip_preamble.simps [simp del]

definition base_locking_script :: "bytes \<Rightarrow> bytes" where
  "base_locking_script script =
     (case walk_ops script of
        Inl _ \<Rightarrow> script
      | Inr ops \<Rightarrow>
         (case find_first (is_p2pkh_at ops) [0..<length ops - 4] of
            Some i \<Rightarrow> slice (op_start ops i) (op_end ops (i + 4)) script
          | None \<Rightarrow>
             (case find_first (is_p2sh_at ops) [0..<length ops - 2] of
                Some i \<Rightarrow> slice (op_start ops i) (op_end ops (i + 2)) script
              | None \<Rightarrow>
                  let remainder = drop (skip_preamble script 0) script
                  in if remainder \<noteq> [] then remainder else script)))"

section \<open>One tokeniser behind all walkers\<close>

text \<open>The specification: the script cut into opcodes, each \<open>(op, length, start, data, next)\<close>.\<close>

type_synonym token = "nat \<times> nat \<times> nat \<times> nat \<times> nat"

function script_tokens :: "bytes \<Rightarrow> nat \<Rightarrow> token list res" where
  "script_tokens script n =
     (if n < length script then
        rbind (next_op script n) (\<lambda>(op, dlen, d, e).
          rbind (script_tokens script e) (\<lambda>ts. Inr ((op, dlen, n, d, e) # ts)))
      else Inr [])"
  by pat_completeness auto
termination
  by (relation "measure (\<lambda>(script, n). length script - n)") (auto dest!: next_op_bounds)

declare script_tokens.simps [simp del]

lemma script_tokens_end [simp]: "length script \<le> n \<Longrightarrow> script_tokens script n = Inr []"
  by (simp add: script_tokens.simps)

lemma script_tokens_step:
  "n < length script \<Longrightarrow> next_op script n = Inr (op, dlen, d, e) \<Longrightarrow>
   script_tokens script n = rbind (script_tokens script e) (\<lambda>ts. Inr ((op, dlen, n, d, e) # ts))"
  by (subst script_tokens.simps) simp

lemma script_tokens_fail:
  "n < length script \<Longrightarrow> next_op script n = Inl x \<Longrightarrow> script_tokens script n = Inl x"
  by (subst script_tokens.simps) simp

text \<open>Induction along the tokens.\<close>

lemma tokens_induct [case_names End Fail Step]:
  assumes "\<And>n. length script \<le> n \<Longrightarrow> P n"
    and "\<And>n x. n < length script \<Longrightarrow> next_op script n = Inl x \<Longrightarrow> P n"
    and "\<And>n op dlen d e. n < length script \<Longrightarrow> next_op script n = Inr (op, dlen, d, e) \<Longrightarrow>
      P e \<Longrightarrow> P n"
  shows "P n"
proof (induction "length script - n" arbitrary: n rule: less_induct)
  case less
  show ?case
  proof (cases "n < length script")
    case True
    show ?thesis
    proof (cases "next_op script n")
      case (Inl x)
      with True show ?thesis by (rule assms(2))
    next
      case (Inr t)
      obtain op dlen d e where t: "t = (op, dlen, d, e)" by (cases t)
      with Inr next_op_bounds [of script n op dlen d e] True have "length script - e < length script - n"
        by auto
      then have "P e" by (rule less)
      with assms(3) True Inr t show ?thesis by blast
    qed
  qed (simp add: assms(1))
qed

lemma op_kind_cases [case_names push ref other]:
  assumes "op \<le> OP_PUSHDATA4 \<Longrightarrow> P"
    and "\<not> op \<le> OP_PUSHDATA4 \<Longrightarrow> op \<in> set INPUT_REF_OPS \<Longrightarrow> P"
    and "\<not> op \<le> OP_PUSHDATA4 \<Longrightarrow> op \<notin> set INPUT_REF_OPS \<Longrightarrow> P"
  shows P
  using assms by blast

text \<open>The classes of opcodes are disjoint.\<close>

lemma push_op_simps:
  "op \<le> OP_PUSHDATA4 \<Longrightarrow> op \<notin> set INPUT_REF_OPS"
  "op \<le> OP_PUSHDATA4 \<Longrightarrow> op \<notin> set CHECKSIG_OPS"
  "op \<le> OP_PUSHDATA4 \<Longrightarrow> op \<noteq> OP_STATESEPERATOR"
  "op \<le> OP_PUSHDATA4 \<Longrightarrow> op \<noteq> OP_PUSHINPUTREF"
  "op \<le> OP_PUSHDATA4 \<Longrightarrow> op \<noteq> OP_PUSHINPUTREFSINGLETON"
  by (auto simp: INPUT_REF_OPS_def CHECKSIG_OPS_def opcode_defs)

lemma ref_op_simps:
  "op \<in> set INPUT_REF_OPS \<Longrightarrow> op \<notin> set CHECKSIG_OPS"
  "op \<in> set INPUT_REF_OPS \<Longrightarrow> op \<noteq> OP_STATESEPERATOR"
  "op \<notin> set INPUT_REF_OPS \<Longrightarrow> op \<noteq> OP_PUSHINPUTREF"
  "op \<notin> set INPUT_REF_OPS \<Longrightarrow> op \<noteq> OP_PUSHINPUTREFSINGLETON"
  "op \<notin> set INPUT_REF_OPS \<Longrightarrow> op \<noteq> OP_REQUIREINPUTREF"
  "op \<notin> set INPUT_REF_OPS \<Longrightarrow> op \<noteq> OP_DISALLOWPUSHINPUTREF"
  "op \<notin> set INPUT_REF_OPS \<Longrightarrow> op \<noteq> OP_DISALLOWPUSHINPUTREFSIBLING"
  by (auto simp: INPUT_REF_OPS_def CHECKSIG_OPS_def opcode_defs)

lemma ref_ops_iff:
  "op = OP_PUSHINPUTREF \<or> op = OP_REQUIREINPUTREF \<or> op = OP_DISALLOWPUSHINPUTREF
     \<or> op = OP_DISALLOWPUSHINPUTREFSIBLING \<or> op = OP_PUSHINPUTREFSINGLETON
   \<longleftrightarrow> op \<in> set INPUT_REF_OPS"
  by (auto simp: INPUT_REF_OPS_def)

lemmas op_class_simps = push_op_simps ref_op_simps ref_ops_iff

lemma walk_ops_loop_unfold:
  "n < length script \<Longrightarrow> walk_ops_loop script n ops =
     rbind (next_op script n) (\<lambda>(op, dlen, d, e). walk_ops_loop script e (ops @ [(op, dlen, n, e)]))"
proof -
  assume n: "n < length script"
  let ?op = "unat (script ! n)"
  show ?thesis
  proof (rule op_kind_cases [of ?op])
    assume "?op \<le> OP_PUSHDATA4"
    with n show ?thesis
      by (subst walk_ops_loop.simps, cases "push_operand script ?op (n + 1)")
        (simp_all add: next_op_def Let_def op_class_simps split: prod.split)
  next
    assume "\<not> ?op \<le> OP_PUSHDATA4" and "?op \<in> set INPUT_REF_OPS"
    with n show ?thesis
      by (subst walk_ops_loop.simps) (simp add: next_op_def Let_def op_class_simps)
  next
    assume "\<not> ?op \<le> OP_PUSHDATA4" and "?op \<notin> set INPUT_REF_OPS"
    with n show ?thesis
      by (subst walk_ops_loop.simps) (simp add: next_op_def Let_def op_class_simps)
  qed
qed

lemma walk_ops_loop_tokens:
  "walk_ops_loop script n ops = rbind (script_tokens script n) (\<lambda>ts.
     Inr (ops @ map (\<lambda>(op, dlen, s, d, e). (op, dlen, s, e)) ts))"
proof (induction n arbitrary: ops rule: tokens_induct [of script])
  case (End n)
  then show ?case by (simp add: walk_ops_loop.simps)
next
  case (Fail n x)
  then show ?case by (simp add: walk_ops_loop_unfold script_tokens_fail)
next
  case (Step n op dlen d e)
  then show ?case
    by (cases "script_tokens script e") (simp_all add: walk_ops_loop_unfold script_tokens_step)
qed

definition add_ref :: "nat \<Rightarrow> bytes \<Rightarrow> refs3 \<Rightarrow> refs3" where
  "add_ref op ref refs = (case refs of (all_refs, normal, single) \<Rightarrow>
     if op = OP_PUSHINPUTREF then (all_refs @ [ref], normal @ [ref], single)
     else if op = OP_PUSHINPUTREFSINGLETON then (all_refs @ [ref], normal, single @ [ref])
     else (all_refs, normal, single))"

lemma push_refs_loop_unfold:
  "n < length script \<Longrightarrow> push_refs_loop script n refs =
     rbind (next_op script n) (\<lambda>(op, dlen, d, e). push_refs_loop script e (add_ref op (slice d e script) refs))"
proof -
  assume n: "n < length script"
  let ?op = "unat (script ! n)"
  show ?thesis
  proof (rule op_kind_cases [of ?op])
    assume "?op \<le> OP_PUSHDATA4"
    with n show ?thesis
      by (subst push_refs_loop.simps, cases "push_operand script ?op (n + 1)")
        (simp_all add: next_op_def Let_def op_class_simps add_ref_def split: prod.split)
  next
    assume "\<not> ?op \<le> OP_PUSHDATA4" and "?op \<in> set INPUT_REF_OPS"
    with n show ?thesis
      by (subst push_refs_loop.simps) (simp add: next_op_def Let_def op_class_simps add_ref_def)
  next
    assume "\<not> ?op \<le> OP_PUSHDATA4" and "?op \<notin> set INPUT_REF_OPS"
    with n show ?thesis
      by (subst push_refs_loop.simps) (simp add: next_op_def Let_def op_class_simps add_ref_def)
  qed
qed

lemma push_refs_loop_tokens:
  "push_refs_loop script n refs = rbind (script_tokens script n) (\<lambda>ts.
     Inr (fold (\<lambda>(op, dlen, s, d, e). add_ref op (slice d e script)) ts refs))"
proof (induction n arbitrary: refs rule: tokens_induct [of script])
  case (End n)
  then show ?case by (simp add: push_refs_loop.simps)
next
  case (Fail n x)
  then show ?case by (simp add: push_refs_loop_unfold script_tokens_fail)
next
  case (Step n op dlen d e)
  then show ?case
    by (cases "script_tokens script e") (simp_all add: push_refs_loop_unfold script_tokens_step)
qed

text \<open>What \<open>zero_refs\<close> copies of one token: the opcode byte, then push data verbatim, or 36 zero
  bytes for a reference. The length bytes of \<open>OP_PUSHDATA1/2/4\<close> are not copied.\<close>

definition zero_token :: "bytes \<Rightarrow> token \<Rightarrow> bytes" where
  "zero_token script t = (case t of (op, dlen, s, d, e) \<Rightarrow>
     script ! s # (if op \<le> OP_PUSHDATA4 then slice d e script
                   else if op \<in> set INPUT_REF_OPS then zero_bytes 36 else []))"

definition token_op :: "token \<Rightarrow> nat" where
  "token_op t = fst t"

lemma zero_refs_loop_unfold:
  "n < length script \<Longrightarrow> zero_refs_loop script n ops sig =
     rbind (next_op script n) (\<lambda>(op, dlen, d, e).
       zero_refs_loop script e (ops @ zero_token script (op, dlen, n, d, e))
         (sig \<or> op \<in> set CHECKSIG_OPS))"
proof -
  assume n: "n < length script"
  let ?op = "unat (script ! n)"
  show ?thesis
  proof (rule op_kind_cases [of ?op])
    assume "?op \<le> OP_PUSHDATA4"
    with n show ?thesis
      by (subst zero_refs_loop.simps, cases "push_operand script ?op (n + 1)")
        (simp_all add: next_op_def Let_def op_class_simps zero_token_def split: prod.split)
  next
    assume "\<not> ?op \<le> OP_PUSHDATA4" and "?op \<in> set INPUT_REF_OPS"
    with n show ?thesis
      by (subst zero_refs_loop.simps) (simp add: next_op_def Let_def op_class_simps zero_token_def)
  next
    assume "\<not> ?op \<le> OP_PUSHDATA4" and "?op \<notin> set INPUT_REF_OPS"
    with n show ?thesis
      by (subst zero_refs_loop.simps) (simp add: next_op_def Let_def op_class_simps zero_token_def)
  qed
qed

lemma zero_refs_loop_tokens:
  "zero_refs_loop script n ops sig = rbind (script_tokens script n) (\<lambda>ts.
     Inr (ops @ concat (map (zero_token script) ts),
          sig \<or> (\<exists>t \<in> set ts. token_op t \<in> set CHECKSIG_OPS)))"
proof (induction n arbitrary: ops sig rule: tokens_induct [of script])
  case (End n)
  then show ?case by (simp add: zero_refs_loop.simps)
next
  case (Fail n x)
  then show ?case by (simp add: zero_refs_loop_unfold script_tokens_fail)
next
  case (Step n op dlen d e)
  then show ?case
    by (cases "script_tokens script e")
      (simp_all add: zero_refs_loop_unfold script_tokens_step token_op_def)
qed

lemma get_ops_loop_unfold:
  "n < length script \<Longrightarrow> get_ops_loop script n k ops =
     rbind (next_op script n) (\<lambda>(op, dlen, d, e).
       let k' = (if op \<le> OP_PUSHDATA4 \<or> op \<in> set INPUT_REF_OPS then dlen else k) in
       get_ops_loop script e k' (ops @
         [(if op \<le> OP_PUSHDATA4 then Push (script ! n) (slice d e script) else Op (script ! n),
           slice e (e + k') script)]))"
proof -
  assume n: "n < length script"
  let ?op = "unat (script ! n)"
  show ?thesis
  proof (rule op_kind_cases [of ?op])
    assume "?op \<le> OP_PUSHDATA4"
    with n show ?thesis
      by (subst get_ops_loop.simps, cases "push_operand script ?op (n + 1)")
        (simp_all add: next_op_def Let_def op_class_simps split: prod.split)
  next
    assume "\<not> ?op \<le> OP_PUSHDATA4" and "?op \<in> set INPUT_REF_OPS"
    with n show ?thesis
      by (subst get_ops_loop.simps) (simp add: next_op_def Let_def op_class_simps)
  next
    assume "\<not> ?op \<le> OP_PUSHDATA4" and "?op \<notin> set INPUT_REF_OPS"
    with n show ?thesis
      by (subst get_ops_loop.simps) (simp add: next_op_def Let_def op_class_simps)
  qed
qed

text \<open>What \<open>get_ops\<close> lists for a token: the opcode, with the data if it is a push.\<close>

definition op_token :: "bytes \<Rightarrow> token \<Rightarrow> script_op" where
  "op_token script t = (case t of (op, dlen, s, d, e) \<Rightarrow>
     if op \<le> OP_PUSHDATA4 then Push (script ! s) (slice d e script) else Op (script ! s))"

lemma get_ops_loop_tokens:
  "rbind (get_ops_loop script n k ops) (\<lambda>r. Inr (map fst r))
     = rbind (script_tokens script n) (\<lambda>ts. Inr (map fst ops @ map (op_token script) ts))"
proof (induction n arbitrary: k ops rule: tokens_induct [of script])
  case (End n)
  then show ?case by (simp add: get_ops_loop.simps)
next
  case (Fail n x)
  then show ?case by (simp add: get_ops_loop_unfold script_tokens_fail)
next
  case (Step n op dlen d e)
  then show ?case
    by (cases "script_tokens script e") (simp_all add: get_ops_loop_unfold script_tokens_step Let_def op_token_def)
qed

lemma stateseperator_loop_unfold:
  "n < length script \<Longrightarrow> stateseperator_loop script n =
     (if unat (script ! n) = OP_STATESEPERATOR then Inr n
      else rbind (next_op script n) (\<lambda>(op, dlen, d, e). stateseperator_loop script e))"
proof -
  assume n: "n < length script"
  let ?op = "unat (script ! n)"
  show ?thesis
  proof (rule op_kind_cases [of ?op])
    assume "?op \<le> OP_PUSHDATA4"
    with n show ?thesis
      by (subst stateseperator_loop.simps, cases "push_operand script ?op (n + 1)")
        (simp_all add: next_op_def Let_def op_class_simps split: prod.split)
  next
    assume "\<not> ?op \<le> OP_PUSHDATA4" and "?op \<in> set INPUT_REF_OPS"
    with n show ?thesis
      by (subst stateseperator_loop.simps) (simp add: next_op_def Let_def op_class_simps)
  next
    assume "\<not> ?op \<le> OP_PUSHDATA4" and "?op \<notin> set INPUT_REF_OPS"
    with n show ?thesis
      by (subst stateseperator_loop.simps) (simp add: next_op_def Let_def op_class_simps)
  qed
qed

text \<open>The search ends at the first separator, and looks no further.\<close>

fun first_separator :: "token list \<Rightarrow> nat" where
  "first_separator [] = 0"
| "first_separator ((op, dlen, s, d, e) # ts) = (if op = OP_STATESEPERATOR then s else first_separator ts)"

lemma stateseperator_loop_tokens:
  "script_tokens script n = Inr ts \<Longrightarrow> stateseperator_loop script n = Inr (first_separator ts)"
proof (induction n arbitrary: ts rule: tokens_induct [of script])
  case (End n)
  then show ?case by (simp add: stateseperator_loop.simps)
next
  case (Fail n x)
  then show ?case by (simp add: script_tokens_fail)
next
  case (Step n op dlen d e)
  then show ?case using next_op_bounds [OF Step.hyps(2,1)]
    by (auto simp: stateseperator_loop_unfold script_tokens_step rbind_eq_Inr)
qed

section \<open>Tokens of concatenated scripts\<close>

definition shift_token :: "nat \<Rightarrow> token \<Rightarrow> token" where
  "shift_token k t = (case t of (op, dlen, s, d, e) \<Rightarrow> (op, dlen, s + k, d + k, e + k))"

lemma push_operand_prefix:
  "push_operand (pre @ s) op (length pre + n) =
     rbind (push_operand s op n) (\<lambda>(dlen, n2). Inr (dlen, n2 + length pre))"
  by (simp add: push_operand_def index_def nth_append slice_append_right rbind_def
      unpack_le_uint16_from_def unpack_le_uint32_from_def unpack_uint_from_def
      split: sum.split)

lemma push_operand_extend:
  assumes "push_operand s op n = Inr r"
  shows "push_operand (s @ post) op n = Inr r"
proof -
  have ext: "unpack_uint_from k (slice n (n + k) (s @ post)) 0 = Inr d"
    if "unpack_uint_from k (slice n (n + k) s) 0 = Inr d" and "0 < k" for k d
    using that by (simp add: unpack_uint_from_def split: if_splits)
  consider "op < OP_PUSHDATA1" | "\<not> op < OP_PUSHDATA1" "op = OP_PUSHDATA1"
    | "\<not> op < OP_PUSHDATA1" "op \<noteq> OP_PUSHDATA1" by blast
  then show ?thesis
  proof cases
    case 1
    with assms show ?thesis by (simp add: push_operand_def)
  next
    case 2
    with assms show ?thesis
      by (auto simp: push_operand_def index_def nth_append split: if_splits)
  next
    case 3
    with assms show ?thesis
      by (auto simp: push_operand_def rbind_eq_Inr unpack_le_uint16_from_def
          unpack_le_uint32_from_def dest!: ext ext [of 2, simplified] split: if_splits)
  qed
qed

lemma next_op_prefix:
  "next_op (pre @ s) (length pre + n) =
     rbind (next_op s n) (\<lambda>(op, dlen, d, e). Inr (op, dlen, d + length pre, e + length pre))"
  using push_operand_prefix [of pre s "unat (s ! n)" "Suc n"]
  by (simp add: next_op_def Let_def rbind_def split: sum.split)

lemma next_op_extend:
  assumes "next_op s n = Inr t" and "n < length s"
  shows "next_op (s @ post) n = Inr t"
proof -
  have op: "(s @ post) ! n = s ! n" using assms(2) by (simp add: nth_append)
  show ?thesis
  proof (rule op_kind_cases [of "unat (s ! n)"])
    assume push: "unat (s ! n) \<le> OP_PUSHDATA4"
    with assms(1) obtain dlen n2 where p: "push_operand s (unat (s ! n)) (n + 1) = Inr (dlen, n2)"
      and "n2 + dlen \<le> length s" and "t = (unat (s ! n), dlen, n2, n2 + dlen)"
      by (auto simp: next_op_def Let_def rbind_eq_Inr split: if_splits)
    with push push_operand_extend [OF p, of post] show ?thesis
      by (simp add: next_op_def op)
  next
    assume "\<not> unat (s ! n) \<le> OP_PUSHDATA4" and "unat (s ! n) \<in> set INPUT_REF_OPS"
    with assms(1) show ?thesis by (auto simp: next_op_def op split: if_splits)
  next
    assume "\<not> unat (s ! n) \<le> OP_PUSHDATA4" and "unat (s ! n) \<notin> set INPUT_REF_OPS"
    with assms(1) show ?thesis by (simp add: next_op_def op)
  qed
qed

lemma script_tokens_shift:
  "script_tokens (pre @ s) (length pre + n) =
     rbind (script_tokens s n) (\<lambda>ts. Inr (map (shift_token (length pre)) ts))"
proof (induction n rule: tokens_induct [of s])
  case (End n)
  then show ?case by simp
next
  case (Fail n x)
  then show ?case by (simp add: script_tokens_fail next_op_prefix)
next
  case (Step n op dlen d e)
  then have "next_op (pre @ s) (length pre + n) = Inr (op, dlen, d + length pre, length pre + e)"
    by (simp add: next_op_prefix)
  with Step show ?case
    by (cases "script_tokens s e") (simp_all add: script_tokens_step shift_token_def add.commute)
qed

lemma script_tokens_extend:
  "script_tokens s n = Inr ts \<Longrightarrow> n \<le> length s \<Longrightarrow>
   script_tokens (s @ post) n = rbind (script_tokens (s @ post) (length s)) (\<lambda>us. Inr (ts @ us))"
proof (induction n arbitrary: ts rule: tokens_induct [of s])
  case (End n)
  then show ?case by (cases "script_tokens (s @ post) (length s)") auto
next
  case (Fail n x)
  then show ?case by (simp add: script_tokens_fail)
next
  case (Step n op dlen d e)
  from Step.hyps Step.prems obtain ts' where ts': "script_tokens s e = Inr ts'"
    and ts: "ts = (op, dlen, n, d, e) # ts'"
    by (auto simp: script_tokens_step rbind_eq_Inr)
  have e: "e \<le> length s" using next_op_bounds [OF Step.hyps(2,1)] by simp
  have "script_tokens (s @ post) n =
      rbind (script_tokens (s @ post) e) (\<lambda>ts. Inr ((op, dlen, n, d, e) # ts))"
    using Step.hyps next_op_extend [OF Step.hyps(2,1)] by (intro script_tokens_step) simp_all
  also have "\<dots> = rbind (script_tokens (s @ post) (length s)) (\<lambda>us. Inr (ts @ us))"
    using Step.IH [OF ts' e] ts by (cases "script_tokens (s @ post) (length s)") simp_all
  finally show ?case .
qed

lemma script_tokens_append:
  assumes "script_tokens s 0 = Inr ts" and "script_tokens post 0 = Inr us"
  shows "script_tokens (s @ post) 0 = Inr (ts @ map (shift_token (length s)) us)"
  using script_tokens_extend [OF assms(1), of post] script_tokens_shift [of s post 0] assms(2)
  by simp

lemma script_tokens_plain:
  assumes "\<not> unat b \<le> OP_PUSHDATA4" and "unat b \<notin> set INPUT_REF_OPS"
  shows "script_tokens [b] 0 = Inr [(unat b, 0, 0, 1, 1)]"
  using assms script_tokens_step [of 0 "[b]" "unat b" 0 1 1] by (simp add: next_op_def)

lemma script_tokens_ref:
  assumes "unat b \<in> set INPUT_REF_OPS" and "length ref = 36"
  shows "script_tokens (b # ref) 0 = Inr [(unat b, 36, 0, 1, 37)]"
proof -
  have "\<not> unat b \<le> OP_PUSHDATA4" using assms(1) by (auto simp: push_op_simps)
  then have "next_op (b # ref) 0 = Inr (unat b, 36, 1, 37)" using assms by (simp add: next_op_def)
  then show ?thesis using assms script_tokens_step [of 0 "b # ref" "unat b" 36 1 37] by simp
qed

lemma script_tokens_push:
  assumes "unat b \<le> OP_PUSHDATA4"
    and "push_operand (b # rest) (unat b) 1 = Inr (dlen, n2)" and "n2 + dlen = length (b # rest)"
  shows "script_tokens (b # rest) 0 = Inr [(unat b, dlen, 0, n2, n2 + dlen)]"
proof -
  have "next_op (b # rest) 0 = Inr (unat b, dlen, n2, n2 + dlen)" using assms by (simp add: next_op_def)
  then show ?thesis using assms script_tokens_step [of 0 "b # rest" "unat b" dlen n2 "n2 + dlen"] by simp
qed

lemma script_tokens_direct_push:
  "length data < OP_PUSHDATA1 \<Longrightarrow>
   script_tokens (of_nat (length data) # data) 0 = Inr [(length data, length data, 0, 1, Suc (length data))]"
  using script_tokens_push [of "of_nat (length data)" data "length data" 1]
  by (simp add: push_operand_def opcode_defs)

section \<open>What the walkers return\<close>

lemma walk_ops_tokens:
  "walk_ops script = rbind (script_tokens script 0) (\<lambda>ts. Inr (map (\<lambda>(op, dlen, s, d, e). (op, dlen, s, e)) ts))"
  by (simp add: walk_ops_def walk_ops_loop_tokens)

lemma get_push_input_refs_tokens:
  "get_push_input_refs script = as_script_error (rbind (script_tokens script 0) (\<lambda>ts.
     Inr (fold (\<lambda>(op, dlen, s, d, e). add_ref op (slice d e script)) ts ([], [], []))))"
  by (simp add: get_push_input_refs_def push_refs_loop_tokens)

lemma zero_refs_tokens:
  "zero_refs script = as_script_error (rbind (script_tokens script 0) (\<lambda>ts.
     Inr (if \<exists>t \<in> set ts. token_op t \<in> set CHECKSIG_OPS
          then concat (map (zero_token script) ts) else script)))"
  by (cases "script_tokens script 0") (simp_all add: zero_refs_def zero_refs_loop_tokens)

text \<open>C30: Each walker runs its own copy of the parsing loop, and all of them cut a script at the same
  places into the same opcodes with the same operands: there is one list of tokens, and the address
  computation lists exactly its opcodes and positions, the opcode listing its opcodes and push data, the
  reference extraction the operands of its reference opcodes in order, the zeroing copies it token by
  token, and the separator search returns the position of its first separator. Where the script cannot
  be cut, the first four fail, three of them with ScriptError.\<close>

theorem script_parsers_agree:
  "case script_tokens script 0 of
     Inl x \<Rightarrow> walk_ops script = Inl x \<and> get_ops script = Inl ScriptError \<and> get_push_input_refs script = Inl ScriptError
       \<and> zero_refs script = Inl ScriptError
   | Inr ts \<Rightarrow> walk_ops script = Inr (map (\<lambda>(op, dlen, s, d, e). (op, dlen, s, e)) ts)
       \<and> (\<exists>ops. get_ops script = Inr ops \<and> map fst ops = map (op_token script) ts)
       \<and> get_push_input_refs script = Inr (fold (\<lambda>(op, dlen, s, d, e). add_ref op (slice d e script)) ts ([], [], []))
       \<and> zero_refs script = Inr (if \<exists>t \<in> set ts. token_op t \<in> set CHECKSIG_OPS then concat (map (zero_token script) ts) else script)
       \<and> get_stateseperator_index script = Inr (first_separator ts)"
proof (cases "script_tokens script 0")
  case (Inl x)
  then have "\<exists>y. get_ops_loop script 0 0 [] = Inl y"
    using get_ops_loop_tokens [of script 0 0 "[]"] by (cases "get_ops_loop script 0 0 []") auto
  with Inl show ?thesis by (auto simp: walk_ops_tokens zero_refs_tokens get_push_input_refs_tokens get_ops_def)
next
  case (Inr ts)
  have "\<exists>ops. get_ops_loop script 0 0 [] = Inr ops \<and> map fst ops = map (op_token script) ts"
    using get_ops_loop_tokens [of script 0 0 "[]"] Inr by (cases "get_ops_loop script 0 0 []") auto
  with Inr show ?thesis
    using stateseperator_loop_tokens [OF Inr]
    by (auto simp: walk_ops_tokens zero_refs_tokens get_push_input_refs_tokens get_stateseperator_index_def get_ops_def)
qed

text \<open>The tokens tile the script.\<close>

lemma script_tokens_tile:
  "script_tokens script n = Inr ts \<Longrightarrow>
   concat (map (\<lambda>(op, dlen, s, d, e). slice s e script) ts) = drop n script"
proof (induction n arbitrary: ts rule: tokens_induct [of script])
  case (End n)
  then show ?case by simp
next
  case (Fail n x)
  then show ?case by (simp add: script_tokens_fail)
next
  case (Step n op dlen d e)
  have "slice n e script @ drop e script = drop n script"
    using next_op_bounds [OF Step.hyps(2,1)]
    by (simp add: slice_def) (metis append_take_drop_id drop_drop le_add_diff_inverse2 less_imp_le_nat trans_le_add1 less_or_eq_imp_le add.commute)
  with Step show ?case by (auto simp: script_tokens_step rbind_eq_Inr)
qed

text \<open>The opcode walk loses nothing: the byte ranges it reports follow one another without
  gap or overlap, so joining them gives back the script.\<close>

theorem walk_ops_tile:
  assumes "walk_ops script = Inr ops"
  shows "concat (map (\<lambda>(op, dlen, s, e). slice s e script) ops) = script"
proof -
  from assms obtain ts where ts: "script_tokens script 0 = Inr ts"
    and ops: "ops = map (\<lambda>(op, dlen, s, d, e). (op, dlen, s, e)) ts"
    by (auto simp: walk_ops_tokens rbind_eq_Inr)
  have "concat (map (\<lambda>(op, dlen, s, e). slice s e script) ops)
      = concat (map (\<lambda>(op, dlen, s, d, e). slice s e script) ts)"
    unfolding ops by (induction ts) auto
  then show ?thesis using script_tokens_tile [OF ts] by simp
qed

theorem walk_ops_tile_witness:
  "concat (map (\<lambda>(op, dlen, s, e). slice s e [118, 2, 9, 9, 172])
     [(118 :: nat, 0 :: nat, 0, 1), (2, 2, 1, 4), (172, 0, 4, 5)]) = [118, 2, 9, 9, 172 :: byte]"
  by (rule walk_ops_tile) code_simp

section \<open>Owners of token outputs\<close>

definition p2pkh_bytes :: "bytes \<Rightarrow> bytes" where
  "p2pkh_bytes h = [118, 169] @ (20 # h) @ [136, 172]"

lemma P2PKH_script_bytes: "length h = 20 \<Longrightarrow> P2PKH_script h = Inr (p2pkh_bytes h)"
  by (simp add: P2PKH_script_def push_data_def p2pkh_bytes_def opcode_defs)

lemma length_p2pkh_bytes [simp]: "length (p2pkh_bytes h) = length h + 5"
  by (simp add: p2pkh_bytes_def)

lemma plain_op_tokens:
  "script_tokens [118] 0 = Inr [(118, 0, 0, 1, 1)]"
  "script_tokens [169] 0 = Inr [(169, 0, 0, 1, 1)]"
  "script_tokens [136] 0 = Inr [(136, 0, 0, 1, 1)]"
  "script_tokens [172] 0 = Inr [(172, 0, 0, 1, 1)]"
  "script_tokens [117] 0 = Inr [(117, 0, 0, 1, 1)]"
  "script_tokens [189] 0 = Inr [(189, 0, 0, 1, 1)]"
  by (subst script_tokens_plain; simp add: opcode_defs INPUT_REF_OPS_def)+

lemma p2pkh_tokens:
  assumes "length h = 20"
  shows "script_tokens (p2pkh_bytes h) 0 = Inr [(118, 0, 0, 1, 1), (169, 0, 1, 2, 2),
    (20, 20, 2, 3, 23), (136, 0, 23, 24, 24), (172, 0, 24, 25, 25)]"
proof -
  have a: "script_tokens [118, 169] 0 = Inr [(118, 0, 0, 1, 1), (169, 0, 1, 2, 2)]"
    using script_tokens_append [OF plain_op_tokens(1,2)] by (simp add: shift_token_def)
  have b: "script_tokens [136, 172] 0 = Inr [(136, 0, 0, 1, 1), (172, 0, 1, 2, 2)]"
    using script_tokens_append [OF plain_op_tokens(3,4)] by (simp add: shift_token_def)
  have c: "script_tokens (20 # h) 0 = Inr [(20, 20, 0, 1, 21)]"
    using script_tokens_direct_push [of h] assms by (simp add: opcode_defs)
  have "script_tokens ((20 # h) @ [136, 172]) 0 = Inr [(20, 20, 0, 1, 21), (136, 0, 21, 22, 22), (172, 0, 22, 23, 23)]"
    using script_tokens_append [OF c b] assms by (simp add: shift_token_def)
  from script_tokens_append [OF a this] show ?thesis by (simp add: shift_token_def p2pkh_bytes_def)
qed

lemma walk_opsI:
  "script_tokens script 0 = Inr ts \<Longrightarrow> walk_ops script = Inr (map (\<lambda>(op, dlen, s, d, e). (op, dlen, s, e)) ts)"
  by (simp add: walk_ops_tokens)

lemmas template_simps = is_p2pkh_at_def is_p2sh_at_def op_start_def op_end_def opcode_defs

lemma base_locking_p2pkh_first:
  assumes "length h = 20" and "script_tokens tail 0 = Inr ts"
  shows "base_locking_script (p2pkh_bytes h @ tail) = p2pkh_bytes h"
proof -
  let ?more = "map (\<lambda>(op, dlen, s, d, e). (op, dlen, s, e)) (map (shift_token 25) ts)"
  have w: "walk_ops (p2pkh_bytes h @ tail) = Inr ((118, 0, 0, 1) # (169, 0, 1, 2) # (20, 20, 2, 23)
      # (136, 0, 23, 24) # (172, 0, 24, 25) # ?more)"
    using walk_opsI [OF script_tokens_append [OF p2pkh_tokens [OF assms(1)] assms(2)]] assms(1)
    by simp
  have "find_first (is_p2pkh_at ((118, 0, 0, 1) # (169, 0, 1, 2) # (20, 20, 2, 23)
      # (136, 0, 23, 24) # (172, 0, 24, 25) # ?more)) [0..<Suc (length ts)] = Some 0"
    by (simp add: upt_conv_Cons template_simps del: upt_Suc)
  then show ?thesis using assms(1) by (simp add: base_locking_script_def w template_simps slice_def)
qed

lemma base_locking_nft:
  assumes "length h = 20" and "length ref = 36"
  shows "base_locking_script (216 # ref @ 117 # p2pkh_bytes h) = p2pkh_bytes h"
proof -
  have r: "script_tokens (216 # ref) 0 = Inr [(216, 36, 0, 1, 37)]"
    using script_tokens_ref [of 216 ref] assms(2) by (simp add: INPUT_REF_OPS_def opcode_defs)
  have pre: "script_tokens ((216 # ref) @ [117]) 0 = Inr [(216, 36, 0, 1, 37), (117, 0, 37, 38, 38)]"
    using script_tokens_append [OF r plain_op_tokens(5)] assms(2) by (simp add: shift_token_def)
  have "script_tokens (((216 # ref) @ [117]) @ p2pkh_bytes h) 0 = Inr [(216, 36, 0, 1, 37),
      (117, 0, 37, 38, 38), (118, 0, 38, 39, 39), (169, 0, 39, 40, 40), (20, 20, 40, 41, 61),
      (136, 0, 61, 62, 62), (172, 0, 62, 63, 63)]"
    using script_tokens_append [OF pre p2pkh_tokens [OF assms(1)]] assms(2) by (simp add: shift_token_def)
  from walk_opsI [OF this] have w: "walk_ops (216 # ref @ 117 # p2pkh_bytes h) = Inr [(216, 36, 0, 37),
      (117, 0, 37, 38), (118, 0, 38, 39), (169, 0, 39, 40), (20, 20, 40, 61), (136, 0, 61, 62), (172, 0, 62, 63)]"
    by simp
  have upt: "[0..<3] = [0, 1, 2 :: nat]" by code_simp
  show ?thesis using assms by (simp add: base_locking_script_def w upt template_simps slice_def)
qed

text \<open>C33: The owner of a token output is found in both token layouts: for any public key hash and
  any 36-byte reference, the base locking script of the plain payment script, of the NFT layout
  (singleton reference, drop, payment script) and of the FT layout (payment script, state separator,
  reference, any well-formed contract code) is the payment script itself, so a wallet finds its
  tokens under its ordinary address.\<close>

theorem token_owner_script:
  assumes "length h = 20" and "length ref = 36" and "P2PKH_script h = Inr p"
    and "walk_ops contract = Inr ops"
  shows "base_locking_script p = p \<and> base_locking_script (216 # ref @ 117 # p) = p
    \<and> base_locking_script (p @ 189 # 208 # ref @ contract) = p"
proof -
  have p: "p = p2pkh_bytes h" using assms(1,3) by (simp add: P2PKH_script_bytes)
  obtain us where us: "script_tokens contract 0 = Inr us"
    using assms(4) by (auto simp: walk_ops_tokens rbind_eq_Inr)
  have r: "script_tokens (208 # ref) 0 = Inr [(208, 36, 0, 1, 37)]"
    using script_tokens_ref [of 208 ref] assms(2) by (simp add: INPUT_REF_OPS_def opcode_defs)
  obtain vs where "script_tokens ([189] @ (208 # ref) @ contract) 0 = Inr vs"
    using script_tokens_append [OF plain_op_tokens(6) script_tokens_append [OF r us]] by blast
  with assms(1) have "base_locking_script (p @ 189 # 208 # ref @ contract) = p"
    unfolding p by (intro base_locking_p2pkh_first) simp_all
  moreover have "base_locking_script p = p"
    using base_locking_p2pkh_first [of h "[]" "[]"] assms(1) by (simp add: p)
  ultimately show ?thesis using base_locking_nft [OF assms(1,2)] by (simp add: p)
qed

lemma walk_ops_two: "walk_ops [2, 1, 1] = Inr [(2, 2, 0, 3)]"
  by code_simp

theorem token_owner_script_witness:
  "base_locking_script (p2pkh_bytes (replicate 20 7)) = p2pkh_bytes (replicate 20 7)
   \<and> base_locking_script (216 # replicate 36 5 @ 117 # p2pkh_bytes (replicate 20 7)) = p2pkh_bytes (replicate 20 7)
   \<and> base_locking_script (p2pkh_bytes (replicate 20 7) @ 189 # 208 # replicate 36 5 @ [2, 1, 1])
       = p2pkh_bytes (replicate 20 7)"
  using token_owner_script [where h = "replicate 20 7" and ref = "replicate 36 5" and contract = "[2, 1, 1]"
      and ops = "[(2, 2, 0, 3)]", OF _ _ P2PKH_script_bytes walk_ops_two] by simp

section \<open>Data pushes\<close>

text \<open>Pushing data is the inverse of reading a push: for any data shorter than 4 GiB the script
  built by \<open>push_data\<close> parses as one opcode whose operand is the data, whichever of the four
  length encodings was chosen.\<close>

theorem push_data_parses_back:
  assumes "length data < 2 ^ 32"
  shows "\<exists>p op. push_data data = Inr p \<and> walk_ops p = Inr [(op, length data, 0, length p)]
    \<and> takelast (length data) p = data"
proof -
  let ?n = "length data"
  have one: "walk_ops (b # rest @ data) = Inr [(unat b, ?n, 0, length (b # rest @ data))]"
    if "unat b \<le> OP_PUSHDATA4" "push_operand (b # rest @ data) (unat b) 1 = Inr (?n, Suc (length rest))"
    for b rest
    using walk_opsI [OF script_tokens_push [OF that]] by simp
  have tl: "takelast ?n (b # rest @ data) = data" for b :: byte and rest
    using takelast_append [of data ?n "b # rest"] by simp
  have unp: "unpack_uint_from k (slice (Suc 0) (1 + k) (b # le_enc k ?n @ data)) 0 = Inr ?n"
    if "?n < 256 ^ k" for b k
    using that by (simp add: unpack_uint_from_def slice_def)
  consider "?n < 76" | "\<not> ?n < 76" "?n < 256" | "\<not> ?n < 256" "?n < 65536" | "\<not> ?n < 65536"
    by linarith
  then show ?thesis
  proof cases
    case 1
    then have "push_data data = Inr (of_nat ?n # data)" by (simp add: push_data_def opcode_defs)
    with 1 one [of "of_nat ?n" "[]"] tl [of "of_nat ?n" "[]"] show ?thesis
      by (auto simp: push_operand_def opcode_defs)
  next
    case 2
    then have "push_data data = Inr (76 # [of_nat ?n] @ data)" by (simp add: push_data_def opcode_defs)
    with 2 one [of 76 "[of_nat ?n]"] tl [of 76 "[of_nat ?n]"] show ?thesis
      by (auto simp: push_operand_def opcode_defs)
  next
    case 3
    then have pk: "push_data data = Inr (77 # le_enc 2 ?n @ data)"
      by (simp add: push_data_def opcode_defs pack_le_uint16_def pack_uint_nat)
    have "push_operand (77 # le_enc 2 ?n @ data) 77 1 = Inr (?n, Suc 2)"
      using 3 unp [of 2 77] by (simp add: push_operand_def opcode_defs unpack_le_uint16_from_def)
    with pk one [of 77 "le_enc 2 ?n"] tl [of 77 "le_enc 2 ?n"] show ?thesis
      by (auto simp: opcode_defs)
  next
    case 4
    then have pk: "push_data data = Inr (78 # le_enc 4 ?n @ data)"
      using assms by (simp add: push_data_def opcode_defs pack_le_uint32_def pack_uint_nat)
    have "push_operand (78 # le_enc 4 ?n @ data) 78 1 = Inr (?n, Suc 4)"
      using assms unp [of 4 78] by (simp add: push_operand_def opcode_defs unpack_le_uint32_from_def)
    with pk one [of 78 "le_enc 4 ?n"] tl [of 78 "le_enc 4 ?n"] show ?thesis
      by (auto simp: opcode_defs)
  qed
qed

theorem push_data_parses_back_witness:
  "\<exists>p op. push_data [1, 2, 3] = Inr p \<and> walk_ops p = Inr [(op, length [1 :: byte, 2, 3], 0, length p)]
    \<and> takelast (length [1 :: byte, 2, 3]) p = [1, 2, 3]"
  by (rule push_data_parses_back) simp

section \<open>Zeroing references\<close>

definition ref_operand :: "(nat \<times> nat \<times> nat \<times> nat) list \<Rightarrow> nat \<Rightarrow> bool" where
  "ref_operand ops i \<longleftrightarrow> (\<exists>(op, dlen, s, e) \<in> set ops. op \<in> set INPUT_REF_OPS \<and> s < i \<and> i < e)"

definition token_ref_operand :: "token list \<Rightarrow> nat \<Rightarrow> bool" where
  "token_ref_operand ts i \<longleftrightarrow> (\<exists>(op, dlen, s, d, e) \<in> set ts. op \<in> set INPUT_REF_OPS \<and> s < i \<and> i < e)"

definition pushdata_free :: "(nat \<times> nat \<times> nat \<times> nat) list \<Rightarrow> bool" where
  "pushdata_free ops \<longleftrightarrow> (\<forall>t \<in> set ops. fst t \<notin> {OP_PUSHDATA1, OP_PUSHDATA2, OP_PUSHDATA4})"

lemma ref_operand_tokens:
  "ref_operand (map (\<lambda>(op, dlen, s, d, e). (op, dlen, s, e)) ts) i = token_ref_operand ts i"
  by (auto simp: ref_operand_def token_ref_operand_def split_beta)

lemma script_tokens_starts:
  "script_tokens script n = Inr ts \<Longrightarrow> (op, dlen, s, d, e) \<in> set ts \<Longrightarrow> n \<le> s"
proof (induction n arbitrary: ts rule: tokens_induct [of script])
  case (End n)
  then show ?case by simp
next
  case (Fail n x)
  then show ?case by (simp add: script_tokens_fail)
next
  case (Step n op' dlen' d' e')
  then show ?case
    using next_op_bounds [OF Step(2,1)] by (fastforce simp: script_tokens_step rbind_eq_Inr)
qed

lemma next_op_direct:
  assumes "next_op script n = Inr (op, dlen, d, e)" and "op \<notin> {OP_PUSHDATA1, OP_PUSHDATA2, OP_PUSHDATA4}"
  shows "d = n + 1" and "\<not> op \<le> OP_PUSHDATA4 \<Longrightarrow> op \<notin> set INPUT_REF_OPS \<Longrightarrow> e = n + 1"
    and "op \<in> set INPUT_REF_OPS \<Longrightarrow> e = n + 37"
  using assms
  by (auto simp: next_op_def Let_def push_operand_def op_class_simps rbind_eq_Inr opcode_defs INPUT_REF_OPS_def
      split: if_splits)

lemma zero_tokens_mask:
  assumes "script_tokens script n = Inr ts" and "n \<le> length script"
    and "\<forall>t \<in> set ts. token_op t \<notin> {OP_PUSHDATA1, OP_PUSHDATA2, OP_PUSHDATA4}"
  shows "concat (map (zero_token script) ts) =
    map (\<lambda>i. if token_ref_operand ts i then 0 else script ! i) [n..<length script]"
  using assms
proof (induction n arbitrary: ts rule: tokens_induct [of script])
  case (End n)
  then show ?case by simp
next
  case (Fail n x)
  then show ?case by (simp add: script_tokens_fail)
next
  case (Step n op dlen d e)
  then obtain us where ts: "ts = (op, dlen, n, d, e) # us" and us: "script_tokens script e = Inr us"
    by (auto simp: script_tokens_step rbind_eq_Inr)
  note b = next_op_bounds [OF Step(2,1)]
  have op: "op \<notin> {OP_PUSHDATA1, OP_PUSHDATA2, OP_PUSHDATA4}" using Step.prems ts by (auto simp: token_op_def)
  note dir = next_op_direct [OF Step(2) op]
  have late: "token_ref_operand ts i = token_ref_operand us i" if "e \<le> i" for i
    using that by (auto simp: token_ref_operand_def ts)
  have none: "\<not> token_ref_operand us i" if "i < e" for i
    using that script_tokens_starts [OF us] by (fastforce simp: token_ref_operand_def)
  have early: "token_ref_operand ts i \<longleftrightarrow> op \<in> set INPUT_REF_OPS \<and> n < i" if "i < e" for i
    using that none [OF that] by (auto simp: token_ref_operand_def ts)
  have tail: "concat (map (zero_token script) us)
      = map (\<lambda>i. if token_ref_operand ts i then 0 else script ! i) [e..<length script]"
    using Step.IH [OF us] Step.prems(3) b late by (simp add: ts)
  have data: "slice (n + 1) e script = map ((!) script) [n + 1..<e]"
    using b by (intro nth_equalityI) (auto simp: slice_def)
  have head: "zero_token script (op, dlen, n, d, e)
      = map (\<lambda>i. if token_ref_operand ts i then 0 else script ! i) [n..<e]"
  proof -
    have up: "[n..<e] = n # [n + 1..<e]" using b by (simp add: upt_conv_Cons)
    have n: "\<not> token_ref_operand ts n" using early [of n] b by simp
    show ?thesis
    proof (rule op_kind_cases [of op])
      assume "op \<le> OP_PUSHDATA4"
      with dir(1) data n show ?thesis
        by (simp add: zero_token_def up early op_class_simps cong: map_cong)
    next
      assume "\<not> op \<le> OP_PUSHDATA4" and "op \<in> set INPUT_REF_OPS"
      moreover from this have "map (\<lambda>i. if token_ref_operand ts i then 0 else script ! i) [n + 1..<e] = replicate 36 0"
        using dir(3) early by (intro nth_equalityI) auto
      ultimately show ?thesis by (simp add: zero_token_def up n zero_bytes_def del: upt_Suc)
    next
      assume "\<not> op \<le> OP_PUSHDATA4" and "op \<notin> set INPUT_REF_OPS"
      with dir n show ?thesis by (simp add: zero_token_def up)
    qed
  qed
  have "[n..<length script] = [n..<e] @ [e..<length script]"
    using b by (metis le_add_diff_inverse less_imp_le_nat le_trans le_add1 upt_add_eq_append)
  then show ?case using head tail by (simp add: ts)
qed

text \<open>Zeroing the references of a script that contains no \<open>OP_PUSHDATA1/2/4\<close> keeps every
  other byte: the result has the script's length; when the script checks a signature, exactly the
  bytes of the 36-byte reference operands are replaced by zero, and otherwise the script is
  returned as it is.\<close>

theorem zero_refs_masks_operands:
  assumes "walk_ops script = Inr ops" and "pushdata_free ops"
  shows "zero_refs script = Inr (if \<exists>t \<in> set ops. fst t \<in> set CHECKSIG_OPS
    then map (\<lambda>i. if ref_operand ops i then 0 else script ! i) [0..<length script] else script)"
proof -
  obtain ts where ts: "script_tokens script 0 = Inr ts"
      "ops = map (\<lambda>(op, dlen, s, d, e). (op, dlen, s, e)) ts"
    using assms(1) by (auto simp: walk_ops_tokens rbind_eq_Inr)
  have "\<forall>t \<in> set ts. token_op t \<notin> {OP_PUSHDATA1, OP_PUSHDATA2, OP_PUSHDATA4}"
    using assms(2) by (auto simp: pushdata_free_def ts(2) token_op_def split_beta)
  from zero_tokens_mask [OF ts(1) _ this]
  have m: "concat (map (zero_token script) ts)
      = map (\<lambda>i. if ref_operand ops i then 0 else script ! i) [0..<length script]"
    by (simp add: ts(2) ref_operand_tokens)
  have "(\<exists>t \<in> set ops. fst t \<in> set CHECKSIG_OPS) \<longleftrightarrow> (\<exists>t \<in> set ts. token_op t \<in> set CHECKSIG_OPS)"
    by (auto simp: ts(2) token_op_def split_beta)
  then show ?thesis by (simp add: zero_refs_def zero_refs_loop_tokens ts(1) m)
qed

theorem zero_refs_masks_operands_witness:
  "zero_refs (208 # replicate 36 5 @ [172])
     = Inr (if \<exists>t \<in> set [(208 :: nat, 36 :: nat, 0 :: nat, 37 :: nat), (172, 0, 37, 38)]. fst t \<in> set CHECKSIG_OPS
    then map (\<lambda>i. if ref_operand [(208, 36, 0, 37), (172, 0, 37, 38)] i then 0
                  else (208 # replicate 36 5 @ [172]) ! i) [0..<length (208 # replicate 36 (5 :: byte) @ [172])]
    else 208 # replicate 36 5 @ [172])"
proof (rule zero_refs_masks_operands)
  show "walk_ops (208 # replicate 36 5 @ [172]) = Inr [(208, 36, 0, 37), (172, 0, 37, 38)]" by code_simp
  show "pushdata_free [(208, 36, 0, 37), (172, 0, 37, 38)]" by (simp add: pushdata_free_def opcode_defs)
qed

text \<open>C39: On a script that pushes data with \<open>OP_PUSHDATA1\<close> the zeroed script is not the script with
  its references zeroed: the length byte of the push is dropped, so the result is one byte short
  and no longer parses as the same pushes. Such outputs are indexed under the hash of this
  shortened script.\<close>

theorem zero_refs_drops_push_length:
  assumes "length data < 256"
  shows "zero_refs ([76, of_nat (length data)] @ data @ [172]) = Inr (76 # data @ [172])"
proof -
  let ?s = "76 # of_nat (length data) # data" and ?n = "length data"
  have "push_operand ?s 76 1 = Inr (?n, Suc 1)"
    using assms by (simp add: push_operand_def opcode_defs)
  moreover have u: "unat (76 :: byte) = 76" by simp
  ultimately have p: "script_tokens ?s 0 = Inr [(76, ?n, 0, 2, ?n + 2)]"
    using script_tokens_push [of 76 "of_nat ?n # data" "?n" "Suc 1", unfolded u] by (simp add: OP_PUSHDATA4_def)
  have "script_tokens (?s @ [172]) 0 = Inr [(76, ?n, 0, 2, ?n + 2), (172, 0, ?n + 2, ?n + 3, ?n + 3)]"
    using script_tokens_append [OF p plain_op_tokens(4)] by (simp add: shift_token_def)
  then show ?thesis
    by (simp add: zero_refs_def zero_refs_loop_tokens zero_token_def token_op_def CHECKSIG_OPS_def
        INPUT_REF_OPS_def opcode_defs slice_def nth_append)
qed

theorem zero_refs_drops_push_length_witness:
  "zero_refs ([76, of_nat (length [7 :: byte])] @ [7] @ [172]) = Inr (76 # [7] @ [172])"
  by (rule zero_refs_drops_push_length) simp

end
