(* ===== verification/Enumerations.thy ===== *)
theory Enumerations
  imports Prelude
begin

text \<open>
  \<open>electrumx/lib/enum.py\<close>: the enumeration builder behind the opcode table, with its checks
  that names and values are unique, attribute lookup and the reverse lookup \<open>whatis\<close>.
\<close>

text \<open>An entry of \<open>enumList\<close>: a bare name takes the next value, a pair sets it.\<close>

datatype enum_item = Named string | Valued string int

record enumeration =
  lookup :: "(string, int) dict"
  reverseLookup :: "(int, string) dict"

text \<open>The loop of \<open>__init__\<close>; \<open>names\<close> and \<open>vals\<close> are \<open>uniqueNames\<close> and
  \<open>uniqueValues\<close>. The two type checks of the source cannot fail on these items.\<close>

fun enum_loop :: "enum_item list \<Rightarrow> int \<Rightarrow> string list \<Rightarrow> int list \<Rightarrow> enumeration \<Rightarrow> enumeration res" where
  "enum_loop [] i names vals e = Inr e"
| "enum_loop (item # items) i names vals e =
     (let (x, i) = (case item of Named x \<Rightarrow> (x, i) | Valued x v \<Rightarrow> (x, v)) in
      if x \<in> set names then Inl EnumError
      else if i \<in> set vals then Inl EnumError
      else enum_loop items (i + 1) (x # names) (i # vals)
             \<lparr>lookup = dict_set x i (lookup e), reverseLookup = dict_set i x (reverseLookup e)\<rparr>)"

definition Enumeration :: "enum_item list \<Rightarrow> enumeration res" where
  "Enumeration enumList = enum_loop enumList 0 [] [] \<lparr>lookup = [], reverseLookup = []\<rparr>"

definition enum_getattr :: "enumeration \<Rightarrow> string \<Rightarrow> int res" where
  "enum_getattr e attr =
     (case map_of (lookup e) attr of None \<Rightarrow> Inl AttributeError | Some v \<Rightarrow> Inr v)"

definition whatis :: "enumeration \<Rightarrow> int \<Rightarrow> string res" where
  "whatis e v = (case map_of (reverseLookup e) v of None \<Rightarrow> Inl KeyError | Some x \<Rightarrow> Inr x)"

lemma enum_loop_inverse:
  assumes "enum_loop items i names vals e = Inr e'"
    and "\<And>x v. map_of (lookup e) x = Some v \<longleftrightarrow> map_of (reverseLookup e) v = Some x"
    and "\<And>x v. map_of (lookup e) x = Some v \<Longrightarrow> x \<in> set names \<and> v \<in> set vals"
  shows "map_of (lookup e') x = Some v \<longleftrightarrow> map_of (reverseLookup e') v = Some x"
  using assms
proof (induction items arbitrary: i names vals e)
  case Nil
  then show ?case by simp
next
  case (Cons item items)
  obtain y w where yw: "(case item of Named x \<Rightarrow> (x, i) | Valued x v \<Rightarrow> (x, v)) = (y, w)"
    by (cases "case item of Named x \<Rightarrow> (x, i) | Valued x v \<Rightarrow> (x, v)")
  with Cons.prems(1) have new: "y \<notin> set names" "w \<notin> set vals"
    and step: "enum_loop items (w + 1) (y # names) (w # vals)
      \<lparr>lookup = dict_set y w (lookup e), reverseLookup = dict_set w y (reverseLookup e)\<rparr> = Inr e'"
    by (auto split: if_splits)
  show ?case
  proof (rule Cons.IH [OF step], goal_cases)
    case (1 x v)
    with new Cons.prems(2) Cons.prems(3) show ?case by auto
  next
    case (2 x v)
    with Cons.prems(3) show ?case by (auto split: if_splits)
  qed
qed

lemma getattr_iff_whatis:
  assumes "Enumeration enumList = Inr e"
  shows "enum_getattr e x = Inr v \<longleftrightarrow> whatis e v = Inr x"
proof -
  have "map_of (lookup e) x = Some v \<longleftrightarrow> map_of (reverseLookup e) v = Some x"
    using assms [unfolded Enumeration_def] by (rule enum_loop_inverse) simp_all
  then show ?thesis by (auto simp: enum_getattr_def whatis_def split: option.splits)
qed

text \<open>Names and values of an enumeration that was built are in one-to-one correspondence: a
  member has a value exactly when \<open>whatis\<close> gives that member back for the value.\<close>

theorem enumeration_bijective:
  assumes "Enumeration enumList = Inr e"
  shows "enum_getattr e x = Inr v \<longleftrightarrow> whatis e v = Inr x"
  using assms by (rule getattr_iff_whatis)

theorem enumeration_bijective_witness:
  "enum_getattr \<lparr>lookup = [(''A'', 0), (''B'', 7), (''C'', 8)],
      reverseLookup = [(0, ''A''), (7, ''B''), (8, ''C'')]\<rparr> ''C'' = Inr 8
   \<longleftrightarrow> whatis \<lparr>lookup = [(''A'', 0), (''B'', 7), (''C'', 8)],
      reverseLookup = [(0, ''A''), (7, ''B''), (8, ''C'')]\<rparr> 8 = Inr ''C''"
  by (rule enumeration_bijective [where enumList = "[Named ''A'', Valued ''B'' 7, Named ''C'']"])
    (simp add: Enumeration_def)

end
