(* ===== verification/Tx.thy ===== *)
theory Tx
  imports Util Hash Script
begin

text \<open>
  \<open>electrumx/lib/tx.py\<close>: transactions, their serialisation, the block deserialiser with its
  cursor, and the hash preimage of version 3 transactions. \<open>hashlib\<close> digests are arguments.
  A reader takes the binary and the cursor and returns a value with the new cursor, or the
  exception the source raises.
\<close>

section \<open>Readers\<close>

type_synonym 'a reader = "bytes \<Rightarrow> nat \<Rightarrow> ('a \<times> nat) res"

definition rd_return :: "'a \<Rightarrow> 'a reader" where
  "rd_return x b c = Inr (x, c)"

definition rd_bind :: "'a reader \<Rightarrow> ('a \<Rightarrow> 'b reader) \<Rightarrow> 'b reader" where
  "rd_bind r f b c = rbind (r b c) (\<lambda>(x, c'). f x b c')"

text \<open>\<open>_ensure\<close>: a short buffer is a \<open>ValueError\<close>, not the \<open>struct.error\<close> that
  \<open>unpack_from\<close> would raise.\<close>

definition ensure :: "nat \<Rightarrow> unit reader" where
  "ensure n b c = (if length b < c + n then Inl ValueError else Inr ((), c))"

definition unpack_at :: "(bytes \<Rightarrow> nat \<Rightarrow> 'a res) \<Rightarrow> nat \<Rightarrow> 'a reader" where
  "unpack_at f n b c = rbind (f b c) (\<lambda>x. Inr (x, c + n))"

definition read_le_int32 :: "int reader" where
  "read_le_int32 = rd_bind (ensure 4) (\<lambda>_. unpack_at unpack_le_int32_from 4)"

definition read_le_int64 :: "int reader" where
  "read_le_int64 = rd_bind (ensure 8) (\<lambda>_. unpack_at unpack_le_int64_from 8)"

definition read_le_uint16 :: "nat reader" where
  "read_le_uint16 = rd_bind (ensure 2) (\<lambda>_. unpack_at unpack_le_uint16_from 2)"

definition read_be_uint16 :: "nat reader" where
  "read_be_uint16 = rd_bind (ensure 2) (\<lambda>_. unpack_at unpack_be_uint16_from 2)"

definition read_le_uint32 :: "nat reader" where
  "read_le_uint32 = rd_bind (ensure 4) (\<lambda>_. unpack_at unpack_le_uint32_from 4)"

definition read_le_uint64 :: "nat reader" where
  "read_le_uint64 = rd_bind (ensure 8) (\<lambda>_. unpack_at unpack_le_uint64_from 8)"

definition read_byte :: "byte reader" where
  "read_byte b c = rbind (index b c) (\<lambda>x. Inr (x, c + 1))"

definition read_nbytes :: "nat \<Rightarrow> bytes reader" where
  "read_nbytes n b c = (if c + n \<le> length b then Inr (slice c (c + n) b, c + n) else Inl AssertionError)"

definition read_varint :: "nat reader" where
  "read_varint = rd_bind read_byte (\<lambda>n.
     if unat n < 253 then rd_return (unat n)
     else if unat n = 253 then read_le_uint16
     else if unat n = 254 then read_le_uint32
     else read_le_uint64)"

definition read_varbytes :: "bytes reader" where
  "read_varbytes = rd_bind read_varint read_nbytes"

text \<open>\<open>[read() for _ in range(n)]\<close>.\<close>

fun read_many :: "'a reader \<Rightarrow> nat \<Rightarrow> 'a list reader" where
  "read_many r 0 = rd_return []"
| "read_many r (Suc n) = rd_bind r (\<lambda>x. rd_bind (read_many r n) (\<lambda>xs. rd_return (x # xs)))"

section \<open>Transactions\<close>

record TxInput =
  prev_hash :: bytes
  prev_idx :: nat
  in_script :: bytes
  in_sequence :: nat

record TxOutput =
  out_value :: int
  pk_script :: bytes

record Tx =
  tx_version :: int
  tx_inputs :: "TxInput list"
  tx_outputs :: "TxOutput list"
  tx_locktime :: nat

definition ZERO :: bytes where
  "ZERO = zero_bytes 32"

definition MINUS_1 :: nat where
  "MINUS_1 = 4294967295"

definition is_generation :: "TxInput \<Rightarrow> bool" where
  "is_generation i \<longleftrightarrow> prev_idx i = MINUS_1 \<and> prev_hash i = ZERO"

definition serialize_input :: "TxInput \<Rightarrow> bytes res" where
  "serialize_input i =
     rbind (pack_le_uint32 (int (prev_idx i))) (\<lambda>idx.
     rbind (pack_varbytes (in_script i)) (\<lambda>scr.
     rbind (pack_le_uint32 (int (in_sequence i))) (\<lambda>sq.
     Inr (prev_hash i @ idx @ scr @ sq))))"

definition serialize_output :: "TxOutput \<Rightarrow> bytes res" where
  "serialize_output out =
     rbind (pack_le_int64 (out_value out)) (\<lambda>val.
     rbind (pack_varbytes (pk_script out)) (\<lambda>scr.
     Inr (val @ scr)))"

definition serialize_tx :: "Tx \<Rightarrow> bytes res" where
  "serialize_tx tx =
     rbind (pack_le_int32 (tx_version tx)) (\<lambda>ver.
     rbind (pack_varint (int (length (tx_inputs tx)))) (\<lambda>n_in.
     rbind (mapM serialize_input (tx_inputs tx)) (\<lambda>ins.
     rbind (pack_varint (int (length (tx_outputs tx)))) (\<lambda>n_out.
     rbind (mapM serialize_output (tx_outputs tx)) (\<lambda>outs.
     rbind (pack_le_uint32 (int (tx_locktime tx))) (\<lambda>lock.
     Inr (ver @ n_in @ concat ins @ n_out @ concat outs @ lock)))))))"

definition read_input :: "TxInput reader" where
  "read_input =
     rd_bind (read_nbytes 32) (\<lambda>h.
     rd_bind read_le_uint32 (\<lambda>idx.
     rd_bind read_varbytes (\<lambda>scr.
     rd_bind read_le_uint32 (\<lambda>sq.
     rd_return \<lparr>prev_hash = h, prev_idx = idx, in_script = scr, in_sequence = sq\<rparr>))))"

definition read_inputs :: "TxInput list reader" where
  "read_inputs = rd_bind read_varint (read_many read_input)"

definition read_output :: "TxOutput reader" where
  "read_output =
     rd_bind read_le_int64 (\<lambda>val.
     rd_bind read_varbytes (\<lambda>scr.
     rd_return \<lparr>out_value = val, pk_script = scr\<rparr>))"

definition read_outputs :: "TxOutput list reader" where
  "read_outputs = rd_bind read_varint (read_many read_output)"

definition read_tx :: "Tx reader" where
  "read_tx =
     rd_bind read_le_int32 (\<lambda>ver.
     rd_bind read_inputs (\<lambda>ins.
     rd_bind read_outputs (\<lambda>outs.
     rd_bind read_le_uint32 (\<lambda>lock.
     rd_return \<lparr>tx_version = ver, tx_inputs = ins, tx_outputs = outs, tx_locktime = lock\<rparr>))))"

section \<open>Transaction hashes\<close>

text \<open>\<open>sha\<close> is \<open>hashlib.sha256(x).digest()\<close>.\<close>

definition get_hash_prev_inputs :: "(bytes \<Rightarrow> bytes) \<Rightarrow> Tx \<Rightarrow> bytes res" where
  "get_hash_prev_inputs sha tx =
     rbind (foldM (\<lambda>inputs i. rbind (pack_le_uint32 (int (prev_idx i))) (\<lambda>idx.
              Inr (inputs @ prev_hash i @ idx @ double_hash sha (in_script i)))) [] (tx_inputs tx))
       (\<lambda>inputs. Inr (double_hash sha inputs))"

definition get_hash_sequence :: "(bytes \<Rightarrow> bytes) \<Rightarrow> Tx \<Rightarrow> bytes res" where
  "get_hash_sequence sha tx =
     rbind (foldM (\<lambda>inputs i. rbind (pack_le_uint32 (int (in_sequence i))) (\<lambda>sq.
              Inr (inputs @ sq))) [] (tx_inputs tx))
       (\<lambda>inputs. Inr (double_hash sha inputs))"

definition calculate_pushrefs_count_and_hash :: "(bytes \<Rightarrow> bytes) \<Rightarrow> bytes \<Rightarrow> bytes res" where
  "calculate_pushrefs_count_and_hash sha script =
     rbind (get_push_input_refs script) (\<lambda>(all_refs, _, _).
     let ref_dict = fold (\<lambda>ref d. dict_set ref True d) all_refs [];
         refs_hash = (if 0 < length ref_dict
                      then double_hash sha (concat (sort_key rev (dict_keys ref_dict)))
                      else ZERO)
     in rbind (pack_le_uint32 (int (length ref_dict))) (\<lambda>n. Inr (n @ refs_hash)))"

definition get_hash_output_hashes :: "(bytes \<Rightarrow> bytes) \<Rightarrow> Tx \<Rightarrow> bytes res" where
  "get_hash_output_hashes sha tx =
     rbind (foldM (\<lambda>outputs out.
              rbind (pack_le_uint64 (out_value out)) (\<lambda>val.
              rbind (calculate_pushrefs_count_and_hash sha (pk_script out)) (\<lambda>refs.
              Inr (outputs @ val @ double_hash sha (pk_script out) @ refs)))) [] (tx_outputs tx))
       (\<lambda>outputs. Inr (double_hash sha outputs))"

definition transaction_preimage_v3 :: "(bytes \<Rightarrow> bytes) \<Rightarrow> Tx \<Rightarrow> bytes res" where
  "transaction_preimage_v3 sha tx =
     rbind (get_hash_prev_inputs sha tx) (\<lambda>prevs.
     rbind (get_hash_sequence sha tx) (\<lambda>seqs.
     rbind (get_hash_output_hashes sha tx) (\<lambda>outs.
     rbind (pack_le_uint32 (tx_version tx)) (\<lambda>ver.
     rbind (pack_le_int32 (int (length (tx_inputs tx)))) (\<lambda>n_in.
     rbind (pack_le_int32 (int (length (tx_outputs tx)))) (\<lambda>n_out.
     rbind (pack_le_uint32 (int (tx_locktime tx))) (\<lambda>lock.
     Inr (ver @ n_in @ prevs @ seqs @ n_out @ outs @ lock))))))))"

definition get_transaction_hash_preimage_v3 :: "(bytes \<Rightarrow> bytes) \<Rightarrow> Tx \<Rightarrow> bytes res" where
  "get_transaction_hash_preimage_v3 sha tx =
     rbind (transaction_preimage_v3 sha tx) (\<lambda>preimage. Inr (double_hash sha preimage))"

definition read_tx_and_hash :: "(bytes \<Rightarrow> bytes) \<Rightarrow> (Tx \<times> bytes) reader" where
  "read_tx_and_hash sha b start =
     rbind (read_tx b start) (\<lambda>(tx, c).
       if tx_version tx = 3
       then rbind (get_transaction_hash_preimage_v3 sha tx) (\<lambda>h. Inr ((tx, h), c))
       else Inr ((tx, double_hash sha (slice start c b)), c))"

definition read_tx_and_vsize :: "(Tx \<times> nat) reader" where
  "read_tx_and_vsize b c = rbind (read_tx b c) (\<lambda>(tx, c'). Inr ((tx, length b), c'))"

definition read_tx_block :: "(bytes \<Rightarrow> bytes) \<Rightarrow> (Tx \<times> bytes) list reader" where
  "read_tx_block sha = rd_bind read_varint (read_many (read_tx_and_hash sha))"

section \<open>What a reader parses\<close>

text \<open>\<open>parses r raw x\<close>: wherever \<open>raw\<close> stands in a binary, \<open>r\<close> reads \<open>x\<close> there and
  leaves the cursor at its end.\<close>

definition parses :: "'a reader \<Rightarrow> bytes \<Rightarrow> 'a \<Rightarrow> bool" where
  "parses r raw x \<longleftrightarrow> (\<forall>pre post. r (pre @ raw @ post) (length pre) = Inr (x, length pre + length raw))"

lemma parsesD: "parses r raw x \<Longrightarrow> r (pre @ raw @ post) (length pre) = Inr (x, length pre + length raw)"
  by (simp add: parses_def)

lemma parsesD0: "parses r raw x \<Longrightarrow> r (raw @ post) 0 = Inr (x, length raw)"
  using parsesD [of r raw x "[]" post] by simp

named_theorems parse_intros \<open>what the readers parse\<close>

lemma parses_return [parse_intros]: "parses (rd_return x) [] x"
  by (simp add: parses_def rd_return_def)

lemma parses_bind [parse_intros]:
  assumes "parses r raw x" and "parses (f x) raw' y"
  shows "parses (rd_bind r f) (raw @ raw') y"
  unfolding parses_def
proof (intro allI)
  fix pre post
  have "r (pre @ raw @ raw' @ post) (length pre) = Inr (x, length pre + length raw)"
    using assms(1) by (rule parsesD)
  moreover have "f x ((pre @ raw) @ raw' @ post) (length (pre @ raw)) = Inr (y, length (pre @ raw) + length raw')"
    using assms(2) by (rule parsesD)
  ultimately show "rd_bind r f (pre @ (raw @ raw') @ post) (length pre)
      = Inr (y, length pre + length (raw @ raw'))"
    by (simp add: rd_bind_def add.assoc)
qed

lemma parses_bind_end: "parses r raw x \<Longrightarrow> parses (f x) [] y \<Longrightarrow> parses (rd_bind r f) raw y"
  using parses_bind [of r raw x f "[]" y] by simp

lemma parses_return_eq: "x = y \<Longrightarrow> parses (rd_return x) [] y"
  by (simp add: parses_return)

lemma parses_unpack:
  assumes "\<And>pre post. f (pre @ raw @ post) (length pre) = Inr x" and "length raw = n"
  shows "parses (rd_bind (ensure n) (\<lambda>_. unpack_at f n)) raw x"
  using assms by (simp add: parses_def rd_bind_def ensure_def unpack_at_def)

lemma parses_le_int32: "pack_le_int32 n = Inr raw \<Longrightarrow> parses read_le_int32 raw n"
  unfolding read_le_int32_def packer_defs
  by (rule parses_unpack) (simp_all add: unpack_pack_sint unpack_le_int32_from_def pack_sint_length)

lemma parses_le_int64: "pack_le_int64 n = Inr raw \<Longrightarrow> parses read_le_int64 raw n"
  unfolding read_le_int64_def packer_defs
  by (rule parses_unpack) (simp_all add: unpack_pack_sint unpack_le_int64_from_def pack_sint_length)

lemma parses_le_uint16: "pack_le_uint16 n = Inr raw \<Longrightarrow> parses read_le_uint16 raw (nat n)"
  unfolding read_le_uint16_def packer_defs
  by (rule parses_unpack) (simp_all add: unpack_pack_uint unpack_le_uint16_from_def pack_uint_length)

lemma parses_le_uint32: "pack_le_uint32 n = Inr raw \<Longrightarrow> parses read_le_uint32 raw (nat n)"
  unfolding read_le_uint32_def packer_defs
  by (rule parses_unpack) (simp_all add: unpack_pack_uint unpack_le_uint32_from_def pack_uint_length)

lemma parses_le_uint64: "pack_le_uint64 n = Inr raw \<Longrightarrow> parses read_le_uint64 raw (nat n)"
  unfolding read_le_uint64_def packer_defs
  by (rule parses_unpack) (simp_all add: unpack_pack_uint unpack_le_uint64_from_def pack_uint_length)

lemma parses_nbytes: "length raw = n \<Longrightarrow> parses (read_nbytes n) raw raw"
  by (simp add: parses_def read_nbytes_def slice_mid)

lemma parses_byte: "parses read_byte [b] b"
  by (simp add: parses_def read_byte_def)

lemma parses_varint:
  assumes "pack_varint n = Inr raw"
  shows "parses read_varint raw (nat n)"
proof -
  consider "n < 253" | "\<not> n < 253" "n < 65536" | "\<not> n < 65536" "n < 4294967296" | "\<not> n < 4294967296"
    by linarith
  then show ?thesis
  proof cases
    case 1
    with assms have raw: "raw = [of_nat (nat n)]" and n: "0 \<le> n"
      by (auto simp: pack_varint_def packer_defs pack_uint_def split: if_splits)
    from 1 n have lt: "nat n < 253" by linarith
    then have "unat (of_nat (nat n) :: byte) = nat n" by (simp only: unat_of_nat_byte mod_less)
    with lt show ?thesis
      unfolding read_varint_def raw by (intro parses_bind_end [OF parses_byte]) (simp add: parses_return del: of_nat_nat)
  next
    case 2
    with assms obtain b where raw: "raw = [253] @ b" and b: "pack_le_uint16 n = Inr b"
      by (auto simp: pack_varint_def rbind_eq_Inr)
    show ?thesis unfolding read_varint_def raw
      by (rule parses_bind [OF parses_byte]) (simp add: parses_le_uint16 [OF b])
  next
    case 3
    with assms obtain b where raw: "raw = [254] @ b" and b: "pack_le_uint32 n = Inr b"
      by (auto simp: pack_varint_def rbind_eq_Inr)
    show ?thesis unfolding read_varint_def raw
      by (rule parses_bind [OF parses_byte]) (simp add: parses_le_uint32 [OF b])
  next
    case 4
    with assms obtain b where raw: "raw = [255] @ b" and b: "pack_le_uint64 n = Inr b"
      by (auto simp: pack_varint_def rbind_eq_Inr)
    show ?thesis unfolding read_varint_def raw
      by (rule parses_bind [OF parses_byte]) (simp add: parses_le_uint64 [OF b])
  qed
qed

lemma parses_varbytes: "pack_varbytes d = Inr raw \<Longrightarrow> parses read_varbytes raw d"
  unfolding read_varbytes_def pack_varbytes_def
  by (auto simp: rbind_eq_Inr intro!: parses_bind dest!: parses_varint intro: parses_nbytes)

section \<open>Codecs\<close>

text \<open>The contract between a serialiser and the reader for the same data.\<close>

locale codec =
  fixes enc :: "'a \<Rightarrow> bytes res" and dec :: "'a reader" and fits :: "'a \<Rightarrow> bool"
  assumes enc_total: "fits x \<Longrightarrow> \<exists>raw. enc x = Inr raw"
    and dec_enc: "fits x \<Longrightarrow> enc x = Inr raw \<Longrightarrow> parses dec raw x"
begin

lemma roundtrip:
  "fits x \<Longrightarrow> \<exists>raw. enc x = Inr raw
     \<and> (\<forall>pre post. dec (pre @ raw @ post) (length pre) = Inr (x, length pre + length raw))"
  using enc_total dec_enc unfolding parses_def by blast

text \<open>No encoding is a proper prefix of another, so encodings can be concatenated.\<close>

lemma prefix_free:
  assumes "fits x" "fits y" "enc x = Inr raw" "enc y = Inr (raw @ rest)"
  shows "x = y \<and> rest = []"
  using parsesD0 [OF dec_enc [OF assms(1,3)], of "rest"] parsesD0 [OF dec_enc [OF assms(2,4)], of "[]"]
  by auto

lemma list_roundtrip:
  assumes "list_all fits xs"
  shows "\<exists>raws. mapM enc xs = Inr raws \<and> parses (read_many dec (length xs)) (concat raws) xs"
  using assms
proof (induction xs)
  case Nil
  show ?case by (simp add: parses_return)
next
  case (Cons x xs)
  then obtain raws where raws: "mapM enc xs = Inr raws" "parses (read_many dec (length xs)) (concat raws) xs"
    by auto
  from Cons.prems obtain raw where raw: "enc x = Inr raw" using enc_total [of x] by auto
  with Cons.prems have "parses dec raw x" by (simp add: dec_enc)
  then have "parses (read_many dec (length (x # xs))) (concat (raw # raws)) (x # xs)"
    using raws(2) by simp (assumption | rule parses_bind | rule parses_bind_end | rule parses_return_eq | simp)+
  with raws raw show ?case by auto
qed

end

definition fits_input :: "TxInput \<Rightarrow> bool" where
  "fits_input i \<longleftrightarrow> length (prev_hash i) = 32 \<and> prev_idx i < 2 ^ 32 \<and> length (in_script i) < 2 ^ 64
     \<and> in_sequence i < 2 ^ 32"

definition fits_output :: "TxOutput \<Rightarrow> bool" where
  "fits_output out \<longleftrightarrow> - (2 ^ 63) \<le> out_value out \<and> out_value out < 2 ^ 63 \<and> length (pk_script out) < 2 ^ 64"

definition fits_tx :: "Tx \<Rightarrow> bool" where
  "fits_tx tx \<longleftrightarrow> - (2 ^ 31) \<le> tx_version tx \<and> tx_version tx < 2 ^ 31
     \<and> length (tx_inputs tx) < 2 ^ 64 \<and> list_all fits_input (tx_inputs tx)
     \<and> length (tx_outputs tx) < 2 ^ 64 \<and> list_all fits_output (tx_outputs tx)
     \<and> tx_locktime tx < 2 ^ 32"

lemma pack_le_uint32_total: "n < 2 ^ 32 \<Longrightarrow> pack_le_uint32 (int n) = Inr (le_enc 4 n)"
  by (simp add: pack_le_uint32_def pack_uint_nat)

lemma pack_varbytes_total: "length d < 2 ^ 64 \<Longrightarrow> \<exists>raw. pack_varbytes d = Inr raw"
  using pack_varint_total [of "int (length d)"] by (auto simp: pack_varbytes_def)

lemma pack_le_int64_total: "- (2 ^ 63) \<le> n \<Longrightarrow> n < 2 ^ 63 \<Longrightarrow> \<exists>raw. pack_le_int64 n = Inr raw"
  by (simp add: packer_defs pack_sint_def)

lemma pack_le_int32_total: "- (2 ^ 31) \<le> n \<Longrightarrow> n < 2 ^ 31 \<Longrightarrow> \<exists>raw. pack_le_int32 n = Inr raw"
  by (simp add: packer_defs pack_sint_def)

interpretation varint: codec "\<lambda>n. pack_varint (int n)" read_varint "\<lambda>n. n < 2 ^ 64"
proof unfold_locales
  fix n :: nat
  assume "n < 2 ^ 64"
  then show "\<exists>raw. pack_varint (int n) = Inr raw" by (intro pack_varint_total) simp_all
qed (use parses_varint in fastforce)

interpretation varbytes: codec pack_varbytes read_varbytes "\<lambda>d. length d < 2 ^ 64"
  by unfold_locales (simp_all add: pack_varbytes_total parses_varbytes)

interpretation tx_input: codec serialize_input read_input fits_input
proof unfold_locales
  fix i
  assume i: "fits_input i"
  then show "\<exists>raw. serialize_input i = Inr raw"
    using varbytes.enc_total [of "in_script i"]
    by (auto simp: fits_input_def serialize_input_def pack_le_uint32_total)
  fix raw
  assume "serialize_input i = Inr raw"
  then obtain idx scr sq where raw: "raw = prev_hash i @ idx @ scr @ sq"
    and "pack_le_uint32 (int (prev_idx i)) = Inr idx" "pack_varbytes (in_script i) = Inr scr"
      "pack_le_uint32 (int (in_sequence i)) = Inr sq"
    by (auto simp: serialize_input_def rbind_eq_Inr)
  then have "parses read_le_uint32 idx (prev_idx i)" "parses read_varbytes scr (in_script i)"
    "parses read_le_uint32 sq (in_sequence i)" "parses (read_nbytes 32) (prev_hash i) (prev_hash i)"
    using i by (auto simp: fits_input_def parses_nbytes parses_varbytes dest: parses_le_uint32)
  then show "parses read_input raw i"
    unfolding read_input_def raw
    by - (assumption | rule parses_bind | rule parses_bind_end | rule parses_return_eq | simp)+
qed

interpretation tx_output: codec serialize_output read_output fits_output
proof unfold_locales
  fix out
  assume out: "fits_output out"
  then show "\<exists>raw. serialize_output out = Inr raw"
    using varbytes.enc_total [of "pk_script out"] pack_le_int64_total [of "out_value out"]
    by (auto simp: fits_output_def serialize_output_def)
  fix raw
  assume "serialize_output out = Inr raw"
  then obtain val scr where raw: "raw = val @ scr" and "pack_le_int64 (out_value out) = Inr val"
      "pack_varbytes (pk_script out) = Inr scr"
    by (auto simp: serialize_output_def rbind_eq_Inr)
  then have "parses read_le_int64 val (out_value out)" "parses read_varbytes scr (pk_script out)"
    by (auto simp: parses_varbytes parses_le_int64)
  then show "parses read_output raw out"
    unfolding read_output_def raw
    by - (assumption | rule parses_bind | rule parses_bind_end | rule parses_return_eq | simp)+
qed

interpretation tx: codec serialize_tx read_tx fits_tx
proof unfold_locales
  fix t
  assume t: "fits_tx t"
  obtain ins outs where ins: "mapM serialize_input (tx_inputs t) = Inr ins"
      "parses (read_many read_input (length (tx_inputs t))) (concat ins) (tx_inputs t)"
    and outs: "mapM serialize_output (tx_outputs t) = Inr outs"
      "parses (read_many read_output (length (tx_outputs t))) (concat outs) (tx_outputs t)"
    using t tx_input.list_roundtrip tx_output.list_roundtrip unfolding fits_tx_def by meson
  obtain n_in n_out ver where n_in: "pack_varint (int (length (tx_inputs t))) = Inr n_in"
    and n_out: "pack_varint (int (length (tx_outputs t))) = Inr n_out"
    and ver: "pack_le_int32 (tx_version t) = Inr ver"
    using t varint.enc_total pack_le_int32_total unfolding fits_tx_def by meson
  have lock: "pack_le_uint32 (int (tx_locktime t)) = Inr (le_enc 4 (tx_locktime t))"
    using t by (simp add: fits_tx_def pack_le_uint32_total)
  note packed = ver n_in ins(1) n_out outs(1) lock
  then show "\<exists>raw. serialize_tx t = Inr raw" by (simp add: serialize_tx_def)
  fix raw
  assume "serialize_tx t = Inr raw"
  with packed have raw: "raw = ver @ (n_in @ concat ins) @ (n_out @ concat outs) @ le_enc 4 (tx_locktime t)"
    by (simp add: serialize_tx_def)
  have "parses read_inputs (n_in @ concat ins) (tx_inputs t)"
    unfolding read_inputs_def using parses_varint [OF n_in] ins(2) by (auto intro: parses_bind)
  moreover have "parses read_outputs (n_out @ concat outs) (tx_outputs t)"
    unfolding read_outputs_def using parses_varint [OF n_out] outs(2) by (auto intro: parses_bind)
  moreover have "parses read_le_uint32 (le_enc 4 (tx_locktime t)) (tx_locktime t)"
    using parses_le_uint32 [OF lock] by simp
  ultimately show "parses read_tx raw t"
    unfolding read_tx_def raw using parses_le_int32 [OF ver]
    by - (assumption | rule parses_bind | rule parses_bind_end | rule parses_return_eq | simp)+
qed

section \<open>What a reader can return and raise\<close>

definition yields :: "'a reader \<Rightarrow> ('a \<Rightarrow> bool) \<Rightarrow> bool" where
  "yields r P \<longleftrightarrow> (\<forall>b c x c'. r b c = Inr (x, c') \<longrightarrow> P x)"

definition raises :: "'a reader \<Rightarrow> py_exc set \<Rightarrow> bool" where
  "raises r E \<longleftrightarrow> (\<forall>b c e. r b c = Inl e \<longrightarrow> e \<in> E)"

text \<open>The exceptions of a truncated or malformed transaction that the callers expect.\<close>

definition PARSE_ERRORS :: "py_exc set" where
  "PARSE_ERRORS = {IndexError, AssertionError, ValueError}"

lemma yieldsD: "yields r P \<Longrightarrow> r b c = Inr (x, c') \<Longrightarrow> P x"
  by (auto simp: yields_def)

lemma raisesD: "raises r E \<Longrightarrow> r b c = Inl e \<Longrightarrow> e \<in> E"
  by (auto simp: raises_def)

lemma yields_bind:
  "yields r P \<Longrightarrow> (\<And>x. P x \<Longrightarrow> yields (f x) Q) \<Longrightarrow> yields (rd_bind r f) Q"
  by (fastforce simp: yields_def rd_bind_def rbind_eq_Inr)

lemma yields_return: "P x \<Longrightarrow> yields (rd_return x) P"
  by (simp add: yields_def rd_return_def)

lemma yields_mono: "yields r P \<Longrightarrow> (\<And>x. P x \<Longrightarrow> Q x) \<Longrightarrow> yields r Q"
  by (auto simp: yields_def)

lemma raises_bind: "raises r E \<Longrightarrow> (\<And>x. raises (f x) E) \<Longrightarrow> raises (rd_bind r f) E"
  by (fastforce simp: raises_def rd_bind_def rbind_eq_Inl)

lemma raises_return: "raises (rd_return x) E"
  by (simp add: raises_def rd_return_def)

lemma raises_unpack:
  assumes "\<And>b c. c + n \<le> length b \<Longrightarrow> \<exists>x. f b c = Inr x" and "ValueError \<in> E"
  shows "raises (rd_bind (ensure n) (\<lambda>_. unpack_at f n)) E"
  unfolding raises_def
proof (intro allI impI)
  fix b c e
  assume e: "rd_bind (ensure n) (\<lambda>_. unpack_at f n) b c = Inl e"
  show "e \<in> E"
  proof (cases "c + n \<le> length b")
    case True
    then obtain x where "f b c = Inr x" using assms(1) by blast
    with True e show ?thesis by (simp add: rd_bind_def ensure_def unpack_at_def)
  next
    case False
    with e assms(2) show ?thesis by (simp add: rd_bind_def ensure_def)
  qed
qed

lemma yields_unpack:
  assumes "\<And>b c x. f b c = Inr x \<Longrightarrow> P x"
  shows "yields (rd_bind (ensure n) (\<lambda>_. unpack_at f n)) P"
  using assms by (auto simp: yields_def rd_bind_def ensure_def unpack_at_def rbind_eq_Inr split: if_splits)

lemma unpack_uint_bound: "unpack_uint_from k b off = Inr n \<Longrightarrow> n < 256 ^ k"
  using le_dec_bound [of "slice off (off + k) b"] by (auto simp: unpack_uint_from_def split: if_splits)

lemma unpack_sint_bound:
  assumes "unpack_sint_from k b off = Inr n" and "0 < k"
  shows "- (256 ^ k div 2) \<le> n \<and> n < 256 ^ k div 2"
proof -
  let ?M = "256 ^ k :: int"
  from assms(1) obtain u where n: "n = to_signed k u" and "unpack_uint_from k b off = Inr u"
    by (auto simp: unpack_sint_from_def rbind_eq_Inr)
  then have "u < 256 ^ k" by (simp add: unpack_uint_bound)
  then have "int u < int (256 ^ k)" by (simp only: of_nat_less_iff)
  then have u: "int u < ?M" by simp
  have "even ?M" using \<open>0 < k\<close> by simp
  then have "2 * (?M div 2) = ?M" by simp
  moreover have "- H \<le> (if int u < H then int u else int u - M) \<and> (if int u < H then int u else int u - M) < H"
    if "2 * H = M" "int u < M" for H M :: int
    using that by auto
  ultimately show ?thesis using u unfolding n to_signed_def by blast
qed

lemmas unpack_from_simps = unpack_le_int32_from_def unpack_le_int64_from_def unpack_le_uint16_from_def
  unpack_le_uint32_from_def unpack_le_uint64_from_def unpack_sint_from_def unpack_uint_from_def

lemma raises_fixed:
  "raises read_le_int32 PARSE_ERRORS" "raises read_le_int64 PARSE_ERRORS"
  "raises read_le_uint16 PARSE_ERRORS" "raises read_le_uint32 PARSE_ERRORS"
  "raises read_le_uint64 PARSE_ERRORS"
  unfolding read_le_int32_def read_le_int64_def read_le_uint16_def read_le_uint32_def read_le_uint64_def
  by (rule raises_unpack; simp add: unpack_from_simps PARSE_ERRORS_def)+

lemma yields_fixed:
  "yields read_le_int32 (\<lambda>n. - (2 ^ 31) \<le> n \<and> n < 2 ^ 31)" "yields read_le_int64 (\<lambda>n. - (2 ^ 63) \<le> n \<and> n < 2 ^ 63)"
  "yields read_le_uint16 (\<lambda>n. n < 2 ^ 16)" "yields read_le_uint32 (\<lambda>n. n < 2 ^ 32)"
  "yields read_le_uint64 (\<lambda>n. n < 2 ^ 64)"
  unfolding read_le_int32_def read_le_int64_def read_le_uint16_def read_le_uint32_def read_le_uint64_def
    unpack_le_int32_from_def unpack_le_int64_from_def unpack_le_uint16_from_def
    unpack_le_uint32_from_def unpack_le_uint64_from_def
  by (rule yields_unpack; drule unpack_sint_bound unpack_uint_bound; simp)+

lemma raises_nbytes: "raises (read_nbytes n) PARSE_ERRORS"
  by (simp add: raises_def read_nbytes_def PARSE_ERRORS_def)

lemma yields_nbytes: "yields (read_nbytes n) (\<lambda>d. length d = n)"
  by (auto simp: yields_def read_nbytes_def split: if_splits)

lemma raises_byte: "raises read_byte PARSE_ERRORS"
  by (auto simp: raises_def read_byte_def PARSE_ERRORS_def rbind_eq_Inl index_def split: if_splits)

lemma raises_varint: "raises read_varint PARSE_ERRORS"
  unfolding read_varint_def
  by (rule raises_bind [OF raises_byte]) (simp add: raises_fixed raises_return)

lemma yields_varint: "yields read_varint (\<lambda>n. n < 2 ^ 64)"
  unfolding read_varint_def
proof (rule yields_bind [of _ "\<lambda>_. True"])
  show "yields read_byte (\<lambda>_. True)" by (simp add: yields_def)
  fix x
  show "yields (if unat x < 253 then rd_return (unat x) else if unat x = 253 then read_le_uint16
    else if unat x = 254 then read_le_uint32 else read_le_uint64) (\<lambda>n. n < 2 ^ 64)"
    using yields_fixed(3,4) [THEN yields_mono, of "\<lambda>n. n < 2 ^ 64"] yields_fixed(5)
    by (simp add: yields_return)
qed

lemma raises_varbytes: "raises read_varbytes PARSE_ERRORS"
  unfolding read_varbytes_def by (intro raises_bind raises_varint raises_nbytes)

lemma yields_varbytes: "yields read_varbytes (\<lambda>d. length d < 2 ^ 64)"
  unfolding read_varbytes_def
  by (rule yields_bind [OF yields_varint]) (rule yields_mono [OF yields_nbytes], simp)

lemma raises_many: "raises r E \<Longrightarrow> raises (read_many r n) E"
  by (induction n) (auto intro: raises_bind raises_return)

lemma yields_many: "yields r P \<Longrightarrow> yields (read_many r n) (\<lambda>xs. length xs = n \<and> list_all P xs)"
  by (induction n) (auto intro!: yields_bind [of r P] yields_return intro: yields_bind)

lemmas raises_rules = raises_bind raises_return raises_fixed raises_nbytes raises_byte raises_varint
  raises_varbytes raises_many

lemma raises_input: "raises read_input PARSE_ERRORS"
  unfolding read_input_def by (intro raises_rules)

lemma raises_output: "raises read_output PARSE_ERRORS"
  unfolding read_output_def by (intro raises_rules)

lemma raises_tx: "raises read_tx PARSE_ERRORS"
  unfolding read_tx_def read_inputs_def read_outputs_def
  by (intro raises_rules raises_input raises_output)

lemma yields_input: "yields read_input fits_input"
  unfolding read_input_def
  by (rule yields_bind [OF yields_nbytes] yields_bind [OF yields_fixed(4)]
      yields_bind [OF yields_varbytes] yields_return)+ (simp add: fits_input_def)

lemma yields_output: "yields read_output fits_output"
  unfolding read_output_def
  by (rule yields_bind [OF yields_fixed(2)] yields_bind [OF yields_varbytes] yields_return)+
    (simp add: fits_output_def)

lemma yields_inputs: "yields read_inputs (\<lambda>xs. length xs < 2 ^ 64 \<and> list_all fits_input xs)"
  unfolding read_inputs_def
  by (rule yields_bind [OF yields_varint], rule yields_mono [OF yields_many [OF yields_input]]) auto

lemma yields_outputs: "yields read_outputs (\<lambda>xs. length xs < 2 ^ 64 \<and> list_all fits_output xs)"
  unfolding read_outputs_def
  by (rule yields_bind [OF yields_varint], rule yields_mono [OF yields_many [OF yields_output]]) auto

lemma yields_tx: "yields read_tx fits_tx"
  unfolding read_tx_def
  by (rule yields_bind [OF yields_fixed(1)] yields_bind [OF yields_inputs] yields_bind [OF yields_outputs]
      yields_bind [OF yields_fixed(4)] yields_return)+ (simp add: fits_tx_def)

text \<open>C20: Serialising any transaction whose fields fit their wire types succeeds, and the
  deserialiser reads the same transaction back wherever those bytes stand in a block, leaving the
  cursor at their end.\<close>

theorem tx_roundtrip:
  assumes "fits_tx t"
  shows "\<exists>raw. serialize_tx t = Inr raw
    \<and> (\<forall>pre post. read_tx (pre @ raw @ post) (length pre) = Inr (t, length pre + length raw))"
  using assms by (rule tx.roundtrip)

definition sample_tx :: Tx where
  "sample_tx = \<lparr>tx_version = 1,
     tx_inputs = [\<lparr>prev_hash = zero_bytes 32, prev_idx = 7, in_script = [1, 2], in_sequence = 5\<rparr>],
     tx_outputs = [\<lparr>out_value = 50, pk_script = [81]\<rparr>], tx_locktime = 9\<rparr>"

lemma sample_tx_fits: "fits_tx sample_tx"
  by (simp add: fits_tx_def sample_tx_def fits_input_def fits_output_def)

theorem tx_roundtrip_witness:
  "\<exists>raw. serialize_tx sample_tx = Inr raw
    \<and> (\<forall>pre post. read_tx (pre @ raw @ post) (length pre) = Inr (sample_tx, length pre + length raw))"
  using sample_tx_fits by (rule tx_roundtrip)

text \<open>C23: Whatever the bytes and the cursor, reading a transaction either raises one of the
  exceptions the block and mempool parsers catch (\<open>IndexError\<close>, \<open>AssertionError\<close>,
  \<open>ValueError\<close>), never \<open>struct.error\<close>, or returns a transaction whose fields fit their wire
  types and which therefore serialises and parses again.\<close>

theorem read_tx_total:
  "(\<exists>e. read_tx b c = Inl e \<and> e \<in> {IndexError, AssertionError, ValueError})
   \<or> (\<exists>t c' raw. read_tx b c = Inr (t, c') \<and> fits_tx t \<and> serialize_tx t = Inr raw
        \<and> read_tx raw 0 = Inr (t, length raw))"
proof (cases "read_tx b c")
  case (Inl e)
  with raisesD [OF raises_tx] show ?thesis by (auto simp: PARSE_ERRORS_def)
next
  case (Inr r)
  obtain t c' where r: "r = (t, c')" by (cases r)
  with Inr have fit: "fits_tx t" using yieldsD [OF yields_tx] by blast
  then obtain raw where raw: "serialize_tx t = Inr raw" using tx.enc_total by blast
  then have "parses read_tx raw t" using fit by (simp add: tx.dec_enc)
  then have "read_tx raw 0 = Inr (t, length raw)" using parsesD0 [of read_tx raw t "[]"] by simp
  with Inr r fit raw show ?thesis by blast
qed

section \<open>Version 3 hashes\<close>

lemma push_refs_loop_36:
  "push_refs_loop script n (a, b, c) = Inr (a', b', c') \<Longrightarrow> \<forall>r \<in> set a. length r = 36 \<Longrightarrow>
   \<forall>r \<in> set a'. length r = 36"
proof (induction n arbitrary: a b c rule: tokens_induct [of script])
  case (End n)
  then show ?case by (simp add: push_refs_loop.simps)
next
  case (Fail n x)
  then show ?case by (simp add: push_refs_loop_unfold)
next
  case (Step n op dlen d e)
  obtain a1 b1 c1 where acc: "add_ref op (slice d e script) (a, b, c) = (a1, b1, c1)"
    by (cases "add_ref op (slice d e script) (a, b, c)")
  have "length (slice d e script) = 36" if "op = OP_PUSHINPUTREF \<or> op = OP_PUSHINPUTREFSINGLETON"
    using Step(1,2) that
    by (auto simp: next_op_def Let_def opcode_defs INPUT_REF_OPS_def rbind_eq_Inr split: if_splits)
  then have "\<forall>r \<in> set a1. length r = 36" using acc Step.prems(2) by (auto simp: add_ref_def split: if_splits)
  moreover have "push_refs_loop script e (a1, b1, c1) = Inr (a', b', c')"
    using Step.prems(1) by (simp add: push_refs_loop_unfold [OF Step(1)] Step(2) acc)
  ultimately show ?case using Step.IH by blast
qed

lemma push_refs_36:
  "get_push_input_refs script = Inr (all_refs, normal, single) \<Longrightarrow> \<forall>r \<in> set all_refs. length r = 36"
  by (auto simp: get_push_input_refs_def dest!: push_refs_loop_36)

lemma ref_dict_keys:
  "set (dict_keys (fold (\<lambda>ref d. dict_set ref v d) refs d)) = set (dict_keys d) \<union> set refs"
  "dict_ok d \<Longrightarrow> dict_ok (fold (\<lambda>ref d. dict_set ref v d) refs d)"
  by (induction refs arbitrary: d) (auto simp: set_dict_keys)

lemma sorted_key_strict:
  "distinct xs \<Longrightarrow> inj_on f (set xs) \<Longrightarrow> sorted (map f xs) \<Longrightarrow> sorted_wrt (\<lambda>x y. f x < f y) xs"
  by (induction xs) (auto simp: inj_on_def order_less_le)

lemma rev_less_le_dec: "length x = length y \<Longrightarrow> rev x < rev y \<longleftrightarrow> le_dec x < le_dec y"
  by (simp add: be_dec_less_iff be_dec_def)

lemma sorted_wrt_cong_set:
  "sorted_wrt P xs \<Longrightarrow> (\<And>x y. x \<in> set xs \<Longrightarrow> y \<in> set xs \<Longrightarrow> P x y \<Longrightarrow> Q x y) \<Longrightarrow> sorted_wrt Q xs"
  by (induction xs) auto

text \<open>C36: The reference summary of an output in a version 3 transaction hash matches the node's:
  it is the number of distinct pushed references followed by the hash of those references listed
  in strictly increasing order of the little-endian 288-bit numbers they spell, whatever order and
  multiplicity they have in the script.\<close>

theorem pushrefs_hash_canonical:
  assumes "get_push_input_refs script = Inr (all_refs, normal, single)"
    and "all_refs \<noteq> []" and "length all_refs < 2 ^ 32"
  shows "\<exists>rs. set rs = set all_refs \<and> sorted_wrt (\<lambda>x y. le_dec x < le_dec y) rs
    \<and> calculate_pushrefs_count_and_hash sha script
        = Inr (le_enc 4 (card (set all_refs)) @ double_hash sha (concat rs))"
proof -
  define d where "d = fold (\<lambda>ref d. dict_set ref True d) all_refs []"
  define rs where "rs = sort_key rev (dict_keys d)"
  have keys: "set (dict_keys d) = set all_refs" and dist: "distinct (dict_keys d)"
    using ref_dict_keys(1) [of True all_refs "[]"] ref_dict_keys(2) [of "[]" True all_refs]
    by (simp_all add: d_def dict_keys_def dict_ok_def)
  have set_rs: "set rs = set all_refs" and "distinct rs" by (simp_all add: rs_def keys dist)
  then have "sorted_wrt (\<lambda>x y. rev x < rev y) rs"
    by (intro sorted_key_strict) (simp_all add: rs_def inj_on_def)
  then have "sorted_wrt (\<lambda>x y. le_dec x < le_dec y) rs"
    by (rule sorted_wrt_cong_set) (use push_refs_36 [OF assms(1)] in \<open>simp add: set_rs rev_less_le_dec\<close>)
  moreover have len: "length d = card (set all_refs)"
    using distinct_card [OF dist] keys by (simp add: dict_keys_def)
  moreover have "0 < length d" using assms(2) by (simp add: len card_gt_0_iff del: length_greater_0_conv)
  moreover have "length d < 2 ^ 32" using assms(3) card_length [of all_refs] len by linarith
  ultimately show ?thesis using set_rs assms(1)
    by (auto simp: calculate_pushrefs_count_and_hash_def Let_def d_def [symmetric] rs_def [symmetric]
        pack_le_uint32_total)
qed

theorem pushrefs_hash_canonical_witness:
  "\<exists>rs. set rs = set [replicate 36 5 :: bytes] \<and> sorted_wrt (\<lambda>x y. le_dec x < le_dec y) rs
    \<and> calculate_pushrefs_count_and_hash (take 32) (208 # replicate 36 5)
        = Inr (le_enc 4 (card (set [replicate 36 5 :: bytes])) @ double_hash (take 32) (concat rs))"
  by (rule pushrefs_hash_canonical [where normal = "[replicate 36 5]" and single = "[]"])
    (code_simp, simp, simp)

lemma foldM_concat_length:
  assumes "foldM f acc xs = Inr out" and "\<And>acc x acc'. f acc x = Inr acc' \<Longrightarrow> length acc' = length acc + k"
  shows "length out = length acc + k * length xs"
  using assms(1)
proof (induction xs arbitrary: acc)
  case Nil
  then show ?case by simp
next
  case (Cons x xs)
  then show ?case using assms(2) by (auto simp: rbind_eq_Inr)
qed

lemma double_hash_length: "(\<And>x. length (sha x) = n) \<Longrightarrow> length (double_hash sha x) = n"
  by (simp add: double_hash_def)

text \<open>The preimage of a version 3 transaction hash has the fixed size of 112 bytes, however
  large the transaction, provided the digest has 32 bytes.\<close>

theorem v3_preimage_size:
  assumes "\<And>x. length (sha x) = 32" and "transaction_preimage_v3 sha t = Inr preimage"
  shows "length preimage = 112"
proof -
  note dl = double_hash_length [of sha, OF assms(1)]
  from assms(2) obtain prevs seqs outs ver n_in n_out lock where
      pre: "preimage = ver @ n_in @ prevs @ seqs @ n_out @ outs @ lock"
    and "get_hash_prev_inputs sha t = Inr prevs" "get_hash_sequence sha t = Inr seqs"
      "get_hash_output_hashes sha t = Inr outs"
    and len: "length ver = 4" "length n_in = 4" "length n_out = 4" "length lock = 4"
    by (auto simp: transaction_preimage_v3_def rbind_eq_Inr packer_defs dest!: pack_uint_length pack_sint_length)
  then have "length prevs = 32" "length seqs = 32" "length outs = 32"
    by (auto simp: get_hash_prev_inputs_def get_hash_sequence_def get_hash_output_hashes_def rbind_eq_Inr dl)
  with pre len show ?thesis by simp
qed

theorem v3_preimage_size_witness:
  "length (le_enc 4 3 @ le_enc 4 0 @ zero_bytes 32 @ zero_bytes 32 @ le_enc 4 0 @ zero_bytes 32 @ le_enc 4 0) = 112"
  by (rule v3_preimage_size [where sha = "\<lambda>_. zero_bytes 32" and t = "\<lparr>tx_version = 3, tx_inputs = [],
        tx_outputs = [], tx_locktime = 0\<rparr>"])
    (simp_all add: transaction_preimage_v3_def get_hash_prev_inputs_def get_hash_sequence_def
      get_hash_output_hashes_def packer_defs pack_uint_def pack_sint_def double_hash_def)

lemma v3_negative_aux:
  assumes "out_value out < 0" and "tx_outputs t = out # outs"
  shows "get_hash_output_hashes sha t = Inl StructError"
  using assms by (simp add: get_hash_output_hashes_def packer_defs pack_uint_def)

lemma hash_inputs_total:
  assumes "list_all fits_input (tx_inputs t)"
  shows "\<exists>h. get_hash_prev_inputs sha t = Inr h" and "\<exists>h. get_hash_sequence sha t = Inr h"
proof -
  have *: "\<exists>out. foldM f acc xs = Inr out" if "\<And>x acc. x \<in> set xs \<Longrightarrow> \<exists>a. f acc x = Inr a"
    for f :: "bytes \<Rightarrow> TxInput \<Rightarrow> bytes res" and acc xs
    using that by (induction xs arbitrary: acc) (simp_all, metis rbind_simps(2))
  have fits: "fits_input i" if "i \<in> set (tx_inputs t)" for i using assms that by (simp add: list_all_iff)
  show "\<exists>h. get_hash_prev_inputs sha t = Inr h" unfolding get_hash_prev_inputs_def rbind_eq_Inr
    using * [of "tx_inputs t"] fits by (simp add: fits_input_def pack_le_uint32_total)
  show "\<exists>h. get_hash_sequence sha t = Inr h" unfolding get_hash_sequence_def rbind_eq_Inr
    using * [of "tx_inputs t"] fits by (simp add: fits_input_def pack_le_uint32_total)
qed

text \<open>C40: A well-formed version 3 transaction whose first output has a negative value parses, but
  hashing it packs the signed value with an unsigned packer and raises \<open>struct.error\<close>, the
  exception that \<open>_ensure\<close> was added to keep away from the block and mempool parsers.\<close>

theorem v3_negative_value_escapes:
  assumes "read_tx b c = Inr (t, c')" and "tx_version t = 3"
    and "tx_outputs t = out # outs" and "out_value out < 0"
  shows "read_tx_and_hash sha b c = Inl StructError"
proof -
  have "fits_tx t" using assms(1) yieldsD [OF yields_tx] by blast
  then have "list_all fits_input (tx_inputs t)" by (simp add: fits_tx_def)
  from hash_inputs_total [OF this, of sha] v3_negative_aux [OF assms(4,3), of sha] show ?thesis
    using assms(1,2)
    by (auto simp: read_tx_and_hash_def get_transaction_hash_preimage_v3_def transaction_preimage_v3_def)
qed

definition negative_tx :: Tx where
  "negative_tx = \<lparr>tx_version = 3, tx_inputs = [],
     tx_outputs = [\<lparr>out_value = -1, pk_script = []\<rparr>], tx_locktime = 0\<rparr>"

definition negative_raw :: bytes where
  "negative_raw = [3, 0, 0, 0, 0, 1, 255, 255, 255, 255, 255, 255, 255, 255, 0, 0, 0, 0, 0]"

lemma le_enc_numeral:
  "le_enc (numeral k) n = of_nat (n mod 256) # le_enc (pred_numeral k) (n div 256)"
  by (simp only: numeral_eq_Suc [of k] le_enc.simps)

lemma negative_tx_parses: "read_tx negative_raw 0 = Inr (negative_tx, length negative_raw)"
proof -
  have "serialize_tx negative_tx = Inr negative_raw"
    by (simp add: serialize_tx_def negative_tx_def negative_raw_def packer_defs pack_varint_def pack_uint_def
        pack_sint_def serialize_output_def pack_varbytes_def le_enc_numeral)
  moreover have "fits_tx negative_tx" by (simp add: negative_tx_def fits_tx_def fits_output_def)
  ultimately have "parses read_tx negative_raw negative_tx" by (rule tx.dec_enc [rotated])
  then show ?thesis using parsesD0 [of read_tx negative_raw negative_tx "[]"] by simp
qed

theorem v3_negative_value_escapes_witness: "read_tx_and_hash id negative_raw 0 = Inl StructError"
  using v3_negative_value_escapes [OF negative_tx_parses, of "\<lparr>out_value = -1, pk_script = []\<rparr>" "[]" id]
  by (simp add: negative_tx_def)

end
