(* ===== verification/Merkle.thy ===== *)
theory Merkle
  imports Util
begin

text \<open>
  \<open>electrumx/lib/merkle.py\<close>: merkle branches and roots, their verification, branches from a
  cached level of the tree, and the cache of header hashes. \<open>H\<close> is the hash function applied to
  the concatenation of two child hashes. Indices and lengths are non-negative here (the session
  code checks that before it calls); the type checks of the source have no counterpart.
  \<open>ceil(log(n, 2))\<close> is the exact integer logarithm: the floating-point value agrees with it for
  every count below \<open>2^29\<close>, which is the first one where rounding gives one too many.
\<close>

section \<open>Branches and roots\<close>

fun ceil_log2 :: "nat \<Rightarrow> nat" where
  "ceil_log2 n = (if n \<le> 1 then 0 else Suc (ceil_log2 ((n + 1) div 2)))"

declare ceil_log2.simps [simp del]

definition branch_length :: "nat \<Rightarrow> nat res" where
  "branch_length hash_count = (if hash_count < 1 then Inl ValueError else Inr (ceil_log2 hash_count))"

definition tree_depth :: "nat \<Rightarrow> nat res" where
  "tree_depth hash_count = rbind (branch_length hash_count) (\<lambda>n. Inr (n + 1))"

text \<open>\<open>index ^ 1\<close>.\<close>

definition sibling :: "nat \<Rightarrow> nat" where
  "sibling idx = (if even idx then idx + 1 else idx - 1)"

fun pair_up :: "(bytes \<Rightarrow> bytes) \<Rightarrow> bytes list \<Rightarrow> bytes list" where
  "pair_up H (x # y # hashes) = H (x @ y) # pair_up H hashes"
| "pair_up H hashes = []"

definition pad :: "bytes list \<Rightarrow> bytes list" where
  "pad hashes = (if odd (length hashes) then hashes @ [last hashes] else hashes)"

text \<open>One element of the branch; \<open>b"*"\<close> stands for a duplicated hash in the TSC format.\<close>

definition branch_elt :: "bool \<Rightarrow> bytes list \<Rightarrow> nat \<Rightarrow> bytes" where
  "branch_elt tsc hashes idx =
     (if odd (length hashes)
      then (if tsc \<and> sibling idx = length (pad hashes) - 1 then [42] else pad hashes ! sibling idx)
      else hashes ! sibling idx)"

fun branch_loop :: "(bytes \<Rightarrow> bytes) \<Rightarrow> bool \<Rightarrow> nat \<Rightarrow> bytes list \<Rightarrow> nat \<Rightarrow> bytes list \<Rightarrow> bytes list \<times> bytes list" where
  "branch_loop H tsc 0 hashes idx branch = (branch, hashes)"
| "branch_loop H tsc (Suc n) hashes idx branch =
     branch_loop H tsc n (pair_up H (pad hashes)) (idx div 2) (branch @ [branch_elt tsc hashes idx])"

definition branch_and_root ::
    "(bytes \<Rightarrow> bytes) \<Rightarrow> bytes list \<Rightarrow> nat \<Rightarrow> nat option \<Rightarrow> bool \<Rightarrow> (bytes list \<times> bytes) res" where
  "branch_and_root H hashes idx len tsc =
     (if \<not> idx < length hashes then Inl ValueError
      else rbind (branch_length (length hashes)) (\<lambda>natural_length.
        rbind (case len of None \<Rightarrow> Inr natural_length
                         | Some l \<Rightarrow> if l < natural_length then Inl ValueError else Inr l) (\<lambda>l.
        case branch_loop H tsc l hashes idx [] of (branch, hs) \<Rightarrow> Inr (branch, hs ! 0))))"

definition merkle_root :: "(bytes \<Rightarrow> bytes) \<Rightarrow> bytes list \<Rightarrow> nat option \<Rightarrow> bytes res" where
  "merkle_root H hashes len = rbind (branch_and_root H hashes 0 len False) (\<lambda>(_, root). Inr root)"

fun proof_loop :: "(bytes \<Rightarrow> bytes) \<Rightarrow> bytes list \<Rightarrow> bytes \<Rightarrow> nat \<Rightarrow> bytes \<times> nat" where
  "proof_loop H [] leaf idx = (leaf, idx)"
| "proof_loop H (elt # branch) leaf idx =
     proof_loop H branch (if odd idx then H (elt @ leaf) else H (leaf @ elt)) (idx div 2)"

definition root_from_proof :: "(bytes \<Rightarrow> bytes) \<Rightarrow> bytes \<Rightarrow> bytes list \<Rightarrow> nat \<Rightarrow> bytes res" where
  "root_from_proof H leaf branch idx =
     (case proof_loop H branch leaf idx of (h, i) \<Rightarrow> if i \<noteq> 0 then Inl ValueError else Inr h)"

text \<open>The slices at \<open>range(0, len(hashes), size)\<close> are those of \<^const>\<open>chunks_list\<close>.\<close>

definition level :: "(bytes \<Rightarrow> bytes) \<Rightarrow> bytes list \<Rightarrow> nat \<Rightarrow> bytes list res" where
  "level H hashes depth_higher =
     mapM (\<lambda>chunk. merkle_root H chunk (Some depth_higher)) (chunks_list (2 ^ depth_higher) hashes)"

definition branch_and_root_from_level ::
    "(bytes \<Rightarrow> bytes) \<Rightarrow> bytes list \<Rightarrow> bytes list \<Rightarrow> nat \<Rightarrow> nat \<Rightarrow> bool \<Rightarrow> (bytes list \<times> bytes) res" where
  "branch_and_root_from_level H lvl leaf_hashes idx depth_higher tsc =
     (let leaf_index = idx div 2 ^ depth_higher * 2 ^ depth_higher in
      rbind (branch_and_root H leaf_hashes (idx - leaf_index) (Some depth_higher) tsc) (\<lambda>(leaf_branch, leaf_root).
      let idx = idx div 2 ^ depth_higher in
      rbind (branch_and_root H lvl idx None tsc) (\<lambda>(level_branch, root).
      if leaf_root \<noteq> lvl ! idx then Inl ValueError
      else Inr (leaf_branch @ level_branch, root))))"

section \<open>The cache\<close>

text \<open>\<open>source_func(start, count)\<close> is an argument of the operations; it is awaited, and may
  raise. The \<open>initialized\<close> event is left out: operations run after \<open>initialize\<close>.\<close>

type_synonym source_func = "nat \<Rightarrow> nat \<Rightarrow> bytes list res"

record merkle_cache =
  mc_length :: nat
  mc_level :: "bytes list"
  mc_depth_higher :: nat

definition segment_length :: "merkle_cache \<Rightarrow> nat" where
  "segment_length c = 2 ^ mc_depth_higher c"

definition leaf_start :: "merkle_cache \<Rightarrow> nat \<Rightarrow> nat" where
  "leaf_start c idx = idx div 2 ^ mc_depth_higher c * 2 ^ mc_depth_higher c"

definition extend_to :: "(bytes \<Rightarrow> bytes) \<Rightarrow> source_func \<Rightarrow> merkle_cache \<Rightarrow> nat \<Rightarrow> merkle_cache res" where
  "extend_to H source c len =
     (if len \<le> mc_length c then Inr c
      else
        let start = leaf_start c (mc_length c) in
        rbind (source start (len - start)) (\<lambda>hashes.
        rbind (level H hashes (mc_depth_higher c)) (\<lambda>lvl.
        Inr (c\<lparr>mc_level := take (start div 2 ^ mc_depth_higher c) (mc_level c) @ lvl, mc_length := len\<rparr>))))"

definition level_for :: "(bytes \<Rightarrow> bytes) \<Rightarrow> source_func \<Rightarrow> merkle_cache \<Rightarrow> nat \<Rightarrow> bytes list res" where
  "level_for H source c len =
     (if len = mc_length c then Inr (mc_level c)
      else
        let lvl = take (len div 2 ^ mc_depth_higher c) (mc_level c);
            start = leaf_start c len;
            count = min (segment_length c) (len - start)
        in rbind (source start count) (\<lambda>hashes.
           rbind (level H hashes (mc_depth_higher c)) (\<lambda>more. Inr (lvl @ more))))"

definition mc_initialize :: "(bytes \<Rightarrow> bytes) \<Rightarrow> source_func \<Rightarrow> nat \<Rightarrow> merkle_cache res" where
  "mc_initialize H source len =
     rbind (tree_depth len) (\<lambda>depth.
     rbind (source 0 len) (\<lambda>hashes.
     rbind (level H hashes (depth div 2)) (\<lambda>lvl.
     Inr \<lparr>mc_length = len, mc_level = lvl, mc_depth_higher = depth div 2\<rparr>)))"

definition mc_truncate :: "merkle_cache \<Rightarrow> nat \<Rightarrow> merkle_cache res" where
  "mc_truncate c len =
     (if len \<le> 0 then Inl ValueError
      else if mc_length c \<le> len then Inr c
      else let len = leaf_start c len
           in Inr (c\<lparr>mc_length := len, mc_level := take (len div 2 ^ mc_depth_higher c) (mc_level c)\<rparr>))"

definition mc_branch_and_root ::
    "(bytes \<Rightarrow> bytes) \<Rightarrow> source_func \<Rightarrow> merkle_cache \<Rightarrow> nat \<Rightarrow> nat \<Rightarrow> bool
      \<Rightarrow> ((bytes list \<times> bytes) \<times> merkle_cache) res" where
  "mc_branch_and_root H source c len idx tsc =
     (if len \<le> 0 then Inl ValueError
      else if len \<le> idx then Inl ValueError
      else
        rbind (extend_to H source c len) (\<lambda>c.
        let start = leaf_start c idx;
            count = min (segment_length c) (len - start)
        in rbind (source start count) (\<lambda>leaf_hashes.
           if len < segment_length c
           then rbind (branch_and_root H leaf_hashes idx None tsc) (\<lambda>r. Inr (r, c))
           else rbind (level_for H source c len) (\<lambda>lvl.
                rbind (branch_and_root_from_level H lvl leaf_hashes idx (mc_depth_higher c) tsc) (\<lambda>r.
                Inr (r, c))))))"

section \<open>Levels of the tree\<close>

definition up :: "(bytes \<Rightarrow> bytes) \<Rightarrow> bytes list \<Rightarrow> bytes list" where
  "up H hashes = pair_up H (pad hashes)"

fun mlevel :: "(bytes \<Rightarrow> bytes) \<Rightarrow> nat \<Rightarrow> bytes list \<Rightarrow> bytes list" where
  "mlevel H 0 hashes = hashes"
| "mlevel H (Suc d) hashes = mlevel H d (up H hashes)"

lemma length_pad: "length (pad hs) = 2 * ((length hs + 1) div 2)"
  by (simp add: pad_def)

lemma length_pair_up: "length (pair_up H hs) = length hs div 2"
  by (induction H hs rule: pair_up.induct) simp_all

lemma pair_up_nth: "k < length hs div 2 \<Longrightarrow> pair_up H hs ! k = H (hs ! (2 * k) @ hs ! (2 * k + 1))"
proof (induction H hs arbitrary: k rule: pair_up.induct)
  case (1 H x y hashes)
  then show ?case by (cases k) simp_all
qed simp_all

lemma length_up [simp]: "length (up H hs) = (length hs + 1) div 2"
  by (simp add: up_def length_pair_up length_pad)

lemma up_eq_Nil [simp]: "up H hs = [] \<longleftrightarrow> hs = []"
  using length_up [of H hs] by (cases hs) (auto simp: up_def pad_def)

text \<open>A node of the next level, with the last hash standing in for a missing right child.\<close>

definition node :: "bytes list \<Rightarrow> nat \<Rightarrow> bytes" where
  "node hs m = (if m < length hs then hs ! m else last hs)"

lemma pad_nth: "m < length (pad hs) \<Longrightarrow> pad hs ! m = node hs m"
  by (auto simp: pad_def node_def nth_append)

lemma up_nth:
  assumes "k < length (up H hs)"
  shows "up H hs ! k = H (node hs (2 * k) @ node hs (2 * k + 1))"
  using assms by (simp add: up_def pair_up_nth length_pair_up length_pad pad_nth)

lemma sibling_less: "i < length hs \<Longrightarrow> sibling i < length (pad hs)"
  unfolding sibling_def length_pad by (cases "even i"; presburger)

lemma branch_elt_eq:
  assumes "i < length hs"
  shows "branch_elt tsc hs i = (if tsc \<and> odd (length hs) \<and> i = length hs - 1 then [42] else node hs (sibling i))"
proof (cases "odd (length hs)")
  case True
  then have "length (pad hs) = length hs + 1" by (simp add: pad_def)
  moreover have "sibling i = length hs \<longleftrightarrow> i = length hs - 1"
    using True assms by (auto simp: sibling_def elim!: oddE)
  ultimately show ?thesis
    using True sibling_less [OF assms] by (auto simp: branch_elt_def pad_nth)
next
  case False
  then have "pad hs = hs" by (simp add: pad_def)
  with False sibling_less [OF assms] show ?thesis by (simp add: branch_elt_def node_def)
qed

lemma branch_loop_Suc:
  "branch_loop H tsc (Suc n) hs i br = branch_loop H tsc n (up H hs) (i div 2) (br @ [branch_elt tsc hs i])"
  by (simp add: up_def)

text \<open>The branch of a hash, as a function.\<close>

fun branch_of :: "(bytes \<Rightarrow> bytes) \<Rightarrow> bool \<Rightarrow> nat \<Rightarrow> bytes list \<Rightarrow> nat \<Rightarrow> bytes list" where
  "branch_of H tsc 0 hs i = []"
| "branch_of H tsc (Suc n) hs i = branch_elt tsc hs i # branch_of H tsc n (up H hs) (i div 2)"

lemma branch_loop_eq: "branch_loop H tsc n hs i br = (br @ branch_of H tsc n hs i, mlevel H n hs)"
proof (induction n arbitrary: hs i br)
  case (Suc n)
  show ?case unfolding branch_loop_Suc Suc by simp
qed simp

lemma branch_and_root_eq:
  "branch_and_root H hs i len tsc =
     (if \<not> i < length hs then Inl ValueError
      else case len of
        None \<Rightarrow> Inr (branch_of H tsc (ceil_log2 (length hs)) hs i, mlevel H (ceil_log2 (length hs)) hs ! 0)
      | Some l \<Rightarrow> if l < ceil_log2 (length hs) then Inl ValueError
          else Inr (branch_of H tsc l hs i, mlevel H l hs ! 0))"
  by (cases "i < length hs") (auto simp: branch_and_root_def branch_length_def branch_loop_eq split: option.split)

lemma ceil_log2_bound: "n \<le> 2 ^ ceil_log2 n"
proof (induction n rule: ceil_log2.induct)
  case (1 n)
  show ?case
  proof (cases "n \<le> 1")
    case False
    with 1 have "(n + 1) div 2 \<le> 2 ^ ceil_log2 ((n + 1) div 2)" by simp
    then have "n \<le> 2 * 2 ^ ceil_log2 ((n + 1) div 2)" by linarith
    with False show ?thesis by (simp add: ceil_log2.simps [of n])
  qed (simp add: ceil_log2.simps)
qed

lemma ceil_log2_least: "n \<le> 2 ^ d \<Longrightarrow> ceil_log2 n \<le> d"
proof (induction n arbitrary: d rule: ceil_log2.induct)
  case (1 n)
  show ?case
  proof (cases "n \<le> 1")
    case False
    with 1 obtain e where d: "d = Suc e" by (cases d) auto
    have "(n + 1) div 2 \<le> 2 ^ e" using 1(2) d by simp
    with 1(1) False d show ?thesis by (simp add: ceil_log2.simps [of n])
  qed (simp add: ceil_log2.simps)
qed

lemma ceil_log2_Suc: "2 ^ Suc d \<le> n \<Longrightarrow> ceil_log2 n = Suc (ceil_log2 ((n + 1) div 2))"
proof -
  assume "2 ^ Suc d \<le> n"
  moreover have "(2::nat) \<le> 2 ^ Suc d" by simp
  ultimately have "\<not> n \<le> 1" by linarith
  then show ?thesis by (subst ceil_log2.simps) simp
qed

lemma length_mlevel_nonempty: "hs \<noteq> [] \<Longrightarrow> mlevel H d hs \<noteq> []"
  by (induction d arbitrary: hs) simp_all

lemma mlevel_root_length: "hs \<noteq> [] \<Longrightarrow> length hs \<le> 2 ^ d \<Longrightarrow> length (mlevel H d hs) = 1"
proof (induction d arbitrary: hs)
  case 0
  then show ?case by (cases hs) auto
next
  case (Suc d)
  then have "length (up H hs) \<le> 2 ^ d" by simp
  with Suc show ?case by simp
qed

section \<open>Verification of branches\<close>

lemma proof_loop_step:
  assumes "i < length hs"
  shows "(if odd i then H (node hs (sibling i) @ hs ! i) else H (hs ! i @ node hs (sibling i))) = up H hs ! (i div 2)"
proof -
  have k: "i div 2 < length (up H hs)" using assms by simp
  show ?thesis
  proof (cases "even i")
    case True
    then have "2 * (i div 2) = i" by simp
    with True assms show ?thesis by (simp add: up_nth [OF k] sibling_def node_def)
  next
    case False
    then have e: "2 * (i div 2) + 1 = i" and "sibling i = 2 * (i div 2)"
      by (auto simp: sibling_def elim!: oddE)
    then show ?thesis using False assms by (simp only: up_nth [OF k] e) (simp add: node_def)
  qed
qed

lemma proof_loop_branch:
  assumes "i < length hs"
  shows "proof_loop H (branch_of H False d hs i) (hs ! i) i = (mlevel H d hs ! (i div 2 ^ d), i div 2 ^ d)"
  using assms
proof (induction d arbitrary: hs i)
  case (Suc d)
  then have "i div 2 < length (up H hs)" by simp
  from Suc.IH [OF this] Suc.prems show ?case
    by (simp add: branch_elt_eq proof_loop_step div_mult2_eq)
qed simp

text \<open>C13: Every merkle branch the server hands out verifies: applying the client's check to the
  hash at the index, the branch and the index returns exactly the root that was computed with it.\<close>

theorem merkle_proof_verifies:
  assumes "branch_and_root H hashes i len False = Inr (branch, root)"
  shows "root_from_proof H (hashes ! i) branch i = Inr root"
proof -
  from assms obtain l where i: "i < length hashes" and l: "ceil_log2 (length hashes) \<le> l"
    and br: "branch = branch_of H False l hashes i" "root = mlevel H l hashes ! 0"
    by (fastforce simp: branch_and_root_eq linorder_not_less split: if_splits option.splits)
  have "(2::nat) ^ ceil_log2 (length hashes) \<le> 2 ^ l" using l by (rule power_increasing) simp
  with ceil_log2_bound [of "length hashes"] have "length hashes \<le> 2 ^ l" by (rule le_trans)
  then have "i div 2 ^ l = 0" using i by simp
  then show ?thesis using proof_loop_branch [OF i, of H l] by (simp add: root_from_proof_def br)
qed

theorem merkle_proof_verifies_witness:
  "root_from_proof (\<lambda>x. x @ [0]) ([[1], [2], [3]] ! 1) [[1], [3, 3, 0]] 1 = Inr [1, 2, 0, 3, 3, 0, 0]"
  by (rule merkle_proof_verifies [where len = None]) code_simp

section \<open>A tree cut at a level\<close>

text \<open>The chunk of \<open>2 ^ d\<close> leaves number \<open>q\<close>.\<close>

definition chunk :: "nat \<Rightarrow> nat \<Rightarrow> 'a list \<Rightarrow> 'a list" where
  "chunk d q hs = slice (q * 2 ^ d) (q * 2 ^ d + 2 ^ d) hs"

lemma length_chunk: "length (chunk d q hs) = min (2 ^ d) (length hs - q * 2 ^ d)"
  by (simp add: chunk_def)

lemma chunk_nth: "j < length (chunk d q hs) \<Longrightarrow> chunk d q hs ! j = hs ! (q * 2 ^ d + j)"
proof -
  assume "j < length (chunk d q hs)"
  then have j: "j < 2 ^ d" "q * 2 ^ d + j < length hs" unfolding length_chunk by linarith+
  then have "drop (q * 2 ^ d) hs ! j = hs ! (q * 2 ^ d + j)" by (intro nth_drop) linarith
  with j show ?thesis by (simp add: chunk_def slice_def)
qed

lemma chunk_node:
  assumes "q * 2 ^ Suc d + j < length hs" and "j < 2 ^ Suc d" and "even j"
  shows "node (chunk (Suc d) q hs) (j + 1) = node hs (q * 2 ^ Suc d + (j + 1))"
proof -
  let ?B = "2 ^ Suc d :: nat"
  have "even ?B" by simp
  with assms(3) have "Suc j \<noteq> ?B" by (metis even_Suc)
  with assms(2) have j: "j + 1 < ?B" by simp
  have len: "length (chunk (Suc d) q hs) = min ?B (length hs - q * ?B)" by (rule length_chunk)
  show ?thesis
  proof (cases "q * ?B + (j + 1) < length hs")
    case True
    with j len have "j + 1 < length (chunk (Suc d) q hs)" by linarith
    with True show ?thesis by (simp only: node_def chunk_nth if_True)
  next
    case False
    with assms(1) have e: "length hs = q * ?B + (j + 1)" by linarith
    with j len have l: "length (chunk (Suc d) q hs) = j + 1" by linarith
    then have "chunk (Suc d) q hs \<noteq> []" by auto
    with l have "last (chunk (Suc d) q hs) = hs ! (q * ?B + j)" by (simp add: last_conv_nth chunk_nth)
    moreover have "hs \<noteq> []" using e by auto
    then have "last hs = hs ! (q * ?B + j)" using e by (simp add: last_conv_nth)
    ultimately show ?thesis using e l by (simp add: node_def)
  qed
qed

lemma half_min: "(min (2 * b) (n - 2 * m) + 1) div 2 = min b ((n + 1) div 2 - m)" for b m n :: nat
  unfolding min_def by (cases "2 * b \<le> n - 2 * m"; simp split: if_splits; linarith)

lemma half_ceil: "1 \<le> b \<Longrightarrow> (n + 1) div 2 + b - 1 = (n + 2 * b - 1) div 2" for b n :: nat
  by linarith

lemma up_chunk: "up H (chunk (Suc d) q hs) = chunk d q (up H hs)"
proof (rule nth_equalityI)
  let ?m = "q * 2 ^ d"
  have B: "q * 2 ^ Suc d = 2 * ?m" by simp
  show len: "length (up H (chunk (Suc d) q hs)) = length (chunk d q (up H hs))"
    unfolding length_up length_chunk B by (simp only: power_Suc half_min)
  fix k
  assume k: "k < length (up H (chunk (Suc d) q hs))"
  then have k2: "2 * k < length (chunk (Suc d) q hs)" unfolding length_up by linarith
  then have k3: "2 * k < 2 ^ Suc d" "q * 2 ^ Suc d + 2 * k < length hs" unfolding length_chunk by linarith+
  have k4: "k < length (chunk d q (up H hs))" using k len by simp
  then have k5: "?m + k < length (up H hs)" unfolding length_chunk by linarith
  have "node (chunk (Suc d) q hs) (2 * k) = node hs (2 * (?m + k))"
    using k2 k3(2) by (simp add: node_def chunk_nth algebra_simps)
  moreover have "node (chunk (Suc d) q hs) (2 * k + 1) = node hs (2 * (?m + k) + 1)"
    using chunk_node [OF k3(2,1)] by (simp add: algebra_simps)
  ultimately show "up H (chunk (Suc d) q hs) ! k = chunk d q (up H hs) ! k"
    by (simp add: up_nth [OF k] chunk_nth [OF k4] up_nth [OF k5])
qed

lemma length_mlevel: "length (mlevel H d hs) = (length hs + 2 ^ d - 1) div 2 ^ d"
proof (induction d arbitrary: hs)
  case (Suc d)
  have "(1::nat) \<le> 2 ^ d" by simp
  then have "(length (up H hs) + 2 ^ d - 1) div 2 ^ d = (length hs + 2 ^ Suc d - 1) div 2 div 2 ^ d"
    by (simp only: length_up half_ceil power_Suc)
  then show ?case using Suc [of "up H hs"] by (simp only: mlevel.simps power_Suc div_mult2_eq)
qed simp

lemma mlevel_nth_chunk:
  assumes "q * 2 ^ d < length hs"
  shows "mlevel H d hs ! q = mlevel H d (chunk d q hs) ! 0"
  using assms
proof (induction d arbitrary: hs)
  case 0
  then show ?case by (simp add: chunk_def slice_def)
next
  case (Suc d)
  then have "q * 2 ^ d < length (up H hs)" by simp
  from Suc.IH [OF this] show ?case by (simp add: up_chunk)
qed

lemma merkle_root_chunk:
  assumes "c \<noteq> []" and "length c \<le> 2 ^ d"
  shows "merkle_root H c (Some d) = Inr (mlevel H d c ! 0)"
proof -
  from assms(1) have "0 < length c" by simp
  moreover have "\<not> d < ceil_log2 (length c)" using ceil_log2_least [OF assms(2)] by simp
  ultimately show ?thesis by (simp add: merkle_root_def branch_and_root_eq)
qed

lemma div_ceil_less: "0 < B \<Longrightarrow> q < (n + B - 1) div B \<longleftrightarrow> q * B < (n :: nat)"
proof -
  assume "0 < B"
  then have "q < (n + B - 1) div B \<longleftrightarrow> Suc q * B \<le> n + B - 1"
    by (simp only: Suc_le_eq [symmetric] less_eq_div_iff_mult_less_eq)
  with \<open>0 < B\<close> show ?thesis by auto
qed

lemma level_eq: "level H hs d = Inr (mlevel H d hs)"
proof -
  let ?n = "(length hs + 2 ^ d - 1) div 2 ^ d"
  have "level H hs d = mapM (\<lambda>c. merkle_root H c (Some d)) (map (\<lambda>q. chunk d q hs) [0..<?n])"
    by (simp add: level_def chunks_list_def chunk_def)
  also have "\<dots> = Inr (map (\<lambda>c. mlevel H d c ! 0) (map (\<lambda>q. chunk d q hs) [0..<?n]))"
  proof (rule mapM_Inr)
    fix c
    assume "c \<in> set (map (\<lambda>q. chunk d q hs) [0..<?n])"
    then obtain q where c: "c = chunk d q hs" and "q < ?n" by auto
    then have "q * 2 ^ d < length hs" using div_ceil_less [of "2 ^ d" q "length hs"] by simp
    then have "0 < length c" unfolding c length_chunk by simp
    then have "c \<noteq> []" by simp
    moreover have "length c \<le> 2 ^ d" by (simp add: c length_chunk)
    ultimately show "merkle_root H c (Some d) = Inr (mlevel H d c ! 0)" by (rule merkle_root_chunk)
  qed
  also have "map (\<lambda>c. mlevel H d c ! 0) (map (\<lambda>q. chunk d q hs) [0..<?n]) = mlevel H d hs"
    using div_ceil_less [of "2 ^ d" _ "length hs"]
    by (intro nth_equalityI) (simp_all add: length_mlevel mlevel_nth_chunk)
  finally show ?thesis .
qed

lemma branch_elt_chunk:
  assumes "i < length hs" and "q = i div 2 ^ Suc d"
  shows "branch_elt tsc (chunk (Suc d) q hs) (i mod 2 ^ Suc d) = branch_elt tsc hs i"
proof -
  let ?B = "2 ^ Suc d :: nat" and ?c = "chunk (Suc d) q hs"
  have i: "i = q * ?B + i mod ?B" using div_mult_mod_eq [of i ?B] by (simp only: assms(2))
  have iB: "i mod ?B < ?B" by simp
  have B: "even ?B" by simp
  have len: "length ?c = min ?B (length hs - q * ?B)" by (rule length_chunk)
  have j: "i mod ?B < length ?c" using len i iB assms(1) by linarith
  have ev: "even (i mod ?B) \<longleftrightarrow> even i" using i B by (metis dvd_mult even_add)
  have sib: "node ?c (sibling (i mod ?B)) = node hs (sibling i)"
  proof (cases "even i")
    case True
    then show ?thesis using chunk_node [of q d "i mod ?B" hs] i iB assms(1) ev
      by (simp add: sibling_def)
  next
    case False
    then have "i mod ?B - 1 < length ?c" "0 < i mod ?B" using j ev odd_pos by auto
    moreover have "q * ?B + (i mod ?B - 1) = i - 1" using i \<open>0 < i mod ?B\<close> by linarith
    moreover have "i - 1 < length hs" using assms(1) by simp
    ultimately show ?thesis using False ev by (simp add: sibling_def node_def chunk_nth)
  qed
  have "odd (length ?c) \<and> i mod ?B = length ?c - 1 \<longleftrightarrow> odd (length hs) \<and> i = length hs - 1"
  proof (cases "?B \<le> length hs - q * ?B")
    case True
    then have "length ?c = ?B" using len by simp
    moreover have "\<not> (odd (length hs) \<and> i = length hs - 1)"
    proof
      assume "odd (length hs) \<and> i = length hs - 1"
      then have "odd (length hs)" and "i = length hs - 1" by simp_all
      with True i iB have "length hs = q * ?B + ?B" by linarith
      with B \<open>odd (length hs)\<close> show False by simp
    qed
    ultimately show ?thesis using B by simp
  next
    case False
    then have l: "length ?c = length hs - q * ?B" using len by simp
    moreover from this j have "length hs = q * ?B + length ?c" by linarith
    moreover from this have "odd (length hs) \<longleftrightarrow> odd (length ?c)" using B by (metis dvd_mult even_add)
    ultimately show ?thesis using i j by auto
  qed
  then show ?thesis using j assms(1) sib by (simp add: branch_elt_eq)
qed

lemma branch_of_chunk:
  assumes "i < length hs"
  shows "branch_of H tsc d (chunk d (i div 2 ^ d) hs) (i mod 2 ^ d) = branch_of H tsc d hs i"
  using assms
proof (induction d arbitrary: hs i)
  case (Suc d)
  then have i2: "i div 2 < length (up H hs)" by simp
  have q: "i div 2 ^ Suc d = i div 2 div 2 ^ d" by (simp add: div_mult2_eq)
  have m: "i mod 2 ^ Suc d div 2 = i div 2 mod 2 ^ d"
    by (simp add: mod_mult2_eq)
  show ?case
    using Suc.IH [OF i2] branch_elt_chunk [OF Suc.prems refl, of tsc d]
    by (simp only: branch_of.simps up_chunk q m)
qed simp

lemma branch_of_add:
  "branch_of H tsc (a + b) hs i = branch_of H tsc a hs i @ branch_of H tsc b (mlevel H a hs) (i div 2 ^ a)"
  by (induction a arbitrary: hs i) (simp_all add: div_mult2_eq)

lemma mlevel_add: "mlevel H (a + b) hs = mlevel H b (mlevel H a hs)"
  by (induction a arbitrary: hs) simp_all

lemma ceil_log2_mlevel:
  "2 ^ d \<le> length hs \<Longrightarrow> ceil_log2 (length hs) = d + ceil_log2 (length (mlevel H d hs))"
proof (induction d arbitrary: hs)
  case (Suc d)
  then have "2 ^ d \<le> length (up H hs)" by simp
  from Suc.IH [OF this] ceil_log2_Suc [OF Suc.prems] show ?case by simp
qed simp

lemma mlevel_nth_slice:
  assumes "i < length hs" and "c = chunk d (i div 2 ^ d) hs"
  shows "mlevel H d hs ! (i div 2 ^ d) = mlevel H d c ! 0" and "i div 2 ^ d < length (mlevel H d hs)"
    and "i mod 2 ^ d < length c" and "length c \<le> 2 ^ d"
proof -
  have i: "i = i div 2 ^ d * 2 ^ d + i mod 2 ^ d" by (rule div_mult_mod_eq [symmetric])
  have m: "i mod 2 ^ d < 2 ^ d" by simp
  have q: "i div 2 ^ d * 2 ^ d < length hs" using i assms(1) by linarith
  then show "mlevel H d hs ! (i div 2 ^ d) = mlevel H d c ! 0" by (simp add: mlevel_nth_chunk assms(2))
  show "i div 2 ^ d < length (mlevel H d hs)"
    using q div_ceil_less [of "2 ^ d" "i div 2 ^ d" "length hs"] by (simp add: length_mlevel)
  show "i mod 2 ^ d < length c" unfolding assms(2) length_chunk using i m assms(1) by linarith
  show "length c \<le> 2 ^ d" by (simp add: assms(2) length_chunk)
qed

lemma from_level_eq:
  assumes "2 ^ d \<le> length hs" and "i < length hs"
  shows "branch_and_root_from_level H (mlevel H d hs) (chunk d (i div 2 ^ d) hs) i d tsc
    = branch_and_root H hs i None tsc"
proof -
  let ?q = "i div 2 ^ d" and ?c = "chunk d (i div 2 ^ d) hs"
  note nth = mlevel_nth_slice(1) [OF assms(2) refl, where H = H and d = d]
    mlevel_nth_slice(2) [OF assms(2) refl, where H = H and d = d]
    mlevel_nth_slice(3,4) [OF assms(2) refl, where d = d]
  have sub: "i - ?q * 2 ^ d = i mod 2 ^ d" by (simp add: minus_div_mult_eq_mod)
  have "\<not> d < ceil_log2 (length ?c)" using ceil_log2_least [OF nth(4)] by simp
  then have leaf: "branch_and_root H ?c (i mod 2 ^ d) (Some d) tsc
      = Inr (branch_of H tsc d hs i, mlevel H d hs ! ?q)"
    using nth by (simp add: branch_and_root_eq branch_of_chunk [OF assms(2)])
  show ?thesis
    unfolding branch_and_root_from_level_def Let_def sub leaf rbind_simps prod.case
    using nth(2) assms(2) ceil_log2_mlevel [OF assms(1), of H]
    by (simp add: branch_and_root_eq branch_of_add mlevel_add)
qed

text \<open>Computing a branch from a cached level of the tree and the leaves under one of its
  nodes gives the same branch and root as computing it from all leaves, in both branch formats,
  whenever the tree is at least as deep as the cached level.\<close>

theorem branch_from_level_correct:
  assumes "level H hashes d = Inr lvl" and "i < length hashes" and "2 ^ d \<le> length hashes"
  shows "branch_and_root_from_level H lvl (slice (i div 2 ^ d * 2 ^ d) (i div 2 ^ d * 2 ^ d + 2 ^ d) hashes) i d tsc
    = branch_and_root H hashes i None tsc"
  using from_level_eq [OF assms(3,2), of H tsc] assms(1) by (simp add: level_eq chunk_def)

theorem branch_from_level_correct_witness:
  "branch_and_root_from_level id [[1, 2], [3, 3]] (slice (2 div 2 ^ 1 * 2 ^ 1) (2 div 2 ^ 1 * 2 ^ 1 + 2 ^ 1) [[1], [2], [3]]) 2 1 True
    = branch_and_root id [[1], [2], [3]] 2 None True"
  by (rule branch_from_level_correct) (code_simp, simp_all)

section \<open>Correctness of the cache\<close>

definition source_of :: "bytes list \<Rightarrow> source_func \<Rightarrow> bool" where
  "source_of hs source \<longleftrightarrow> (\<forall>s n. s + n \<le> length hs \<longrightarrow> source s n = Inr (slice s (s + n) hs))"

definition cache_ok :: "(bytes \<Rightarrow> bytes) \<Rightarrow> bytes list \<Rightarrow> merkle_cache \<Rightarrow> bool" where
  "cache_ok H hs c \<longleftrightarrow> mc_length c \<le> length hs
     \<and> mc_level c = mlevel H (mc_depth_higher c) (take (mc_length c) hs)"

lemma chunk_take: "q * 2 ^ d + 2 ^ d \<le> n \<Longrightarrow> chunk d q (take n hs) = chunk d q hs"
  by (simp add: chunk_def slice_def drop_take min_def)

lemma chunk_drop: "chunk d q (drop (k * 2 ^ d) hs) = chunk d (k + q) hs"
  by (simp add: chunk_def slice_def algebra_simps)

text \<open>A level is known from any segment boundary on from the leaves from there on.\<close>

lemma mlevel_split:
  assumes "k * 2 ^ d \<le> m" and "k * 2 ^ d \<le> n" and "n \<le> length hs" and "m \<le> length hs"
  shows "take k (mlevel H d (take m hs)) @ mlevel H d (slice (k * 2 ^ d) n hs) = mlevel H d (take n hs)"
proof -
  let ?B = "2 ^ d :: nat"
  have slice: "slice (k * ?B) n hs = drop (k * ?B) (take n hs)" by (simp add: slice_def drop_take)
  have cut: "j < k \<longleftrightarrow> j * ?B < k * ?B" for j by simp
  have len: "length (mlevel H d (take l hs)) = (l + ?B - 1) div ?B" if "l \<le> length hs" for l
    using that by (simp add: length_mlevel)
  have klen: "k \<le> (l + ?B - 1) div ?B" if "k * ?B \<le> l" for l
  proof (rule ccontr)
    assume "\<not> k \<le> (l + ?B - 1) div ?B"
    then have "(l + ?B - 1) div ?B < k" by simp
    then have "\<not> (l + ?B - 1) div ?B < (l + ?B - 1) div ?B \<longrightarrow> l \<le> (l + ?B - 1) div ?B * ?B"
      using div_ceil_less [of ?B "(l + ?B - 1) div ?B" l] by simp
    then have "l \<le> (l + ?B - 1) div ?B * ?B" by simp
    also have "\<dots> < k * ?B" using \<open>(l + ?B - 1) div ?B < k\<close> by simp
    finally show False using that by simp
  qed
  have first: "mlevel H d (take l hs) ! j = mlevel H d (chunk d j hs) ! 0"
    if "k * ?B \<le> l" "l \<le> length hs" "j < k" for j l
  proof -
    from that(3) have "Suc j * ?B \<le> k * ?B" by (intro mult_le_mono1) simp
    then have a: "j * ?B + ?B \<le> l" using that(1) by simp
    have "0 < ?B" by simp
    with a have "j * ?B < l" by linarith
    then have "j * ?B < length (take l hs)" using that(2) by simp
    then show ?thesis using a by (simp add: mlevel_nth_chunk chunk_take)
  qed
  have second: "mlevel H d (take n hs) ! (k + j) = mlevel H d (drop (k * ?B) (take n hs)) ! j"
    if "(k + j) * ?B < n" for j
  proof -
    from that have "j * ?B < length (drop (k * ?B) (take n hs))" using assms(3) by (simp add: algebra_simps)
    moreover from that have "(k + j) * ?B < length (take n hs)" using assms(3) by simp
    ultimately show ?thesis by (simp only: mlevel_nth_chunk chunk_drop)
  qed
  have "0 < ?B" by simp
  have len2: "length (mlevel H d (drop (k * ?B) (take n hs))) = (n + ?B - 1) div ?B - k"
  proof -
    obtain r where n: "n = k * ?B + r" using assms(2) le_Suc_ex by blast
    have e: "n + ?B - 1 = (r + ?B - 1) + k * ?B" using \<open>0 < ?B\<close> n by linarith
    have "(n + ?B - 1) div ?B = k + (r + ?B - 1) div ?B"
      unfolding e by (subst div_mult_self1) simp_all
    then show ?thesis using assms(3) n by (simp add: length_mlevel min_def)
  qed
  show ?thesis unfolding slice
  proof (rule nth_equalityI)
    show l: "length (take k (mlevel H d (take m hs)) @ mlevel H d (drop (k * ?B) (take n hs)))
        = length (mlevel H d (take n hs))"
      using len2 klen [OF assms(1)] klen [OF assms(2)] by (simp add: len assms(3,4))
    fix j
    assume "j < length (take k (mlevel H d (take m hs)) @ mlevel H d (drop (k * ?B) (take n hs)))"
    then have j: "j < (n + ?B - 1) div ?B" unfolding l by (simp add: len assms(3))
    then have jn: "j * ?B < n" using div_ceil_less [of ?B j n] by simp
    have tk: "length (take k (mlevel H d (take m hs))) = k" using klen [OF assms(1)] by (simp add: len assms(4))
    show "(take k (mlevel H d (take m hs)) @ mlevel H d (drop (k * ?B) (take n hs))) ! j = mlevel H d (take n hs) ! j"
    proof (cases "j < k")
      case True
      then show ?thesis using first [of m j] first [of n j] assms tk by (simp add: nth_append)
    next
      case False
      then have "j = k + (j - k)" by simp
      then show ?thesis using second [of "j - k"] jn False tk by (simp add: nth_append)
    qed
  qed
qed

lemma take_le_segment: "len div 2 ^ d * 2 ^ d \<le> (len :: nat)"
  by (rule div_times_less_eq_dividend)

lemma source_range: "source_of hs source \<Longrightarrow> s + n \<le> length hs \<Longrightarrow> source s n = Inr (slice s (s + n) hs)"
  by (simp add: source_of_def)

lemma source_slice:
  "source_of hs source \<Longrightarrow> s \<le> e \<Longrightarrow> e \<le> length hs \<Longrightarrow> source s (e - s) = Inr (slice s e hs)"
  by (simp add: source_of_def)

lemma extend_to_ok:
  assumes "cache_ok H hs c" and "source_of hs source" and "len \<le> length hs"
  shows "\<exists>c'. extend_to H source c len = Inr c' \<and> cache_ok H hs c' \<and> len \<le> mc_length c'
    \<and> mc_depth_higher c' = mc_depth_higher c"
proof (cases "len \<le> mc_length c")
  case True
  with assms(1) show ?thesis by (simp add: extend_to_def)
next
  case False
  let ?d = "mc_depth_higher c" and ?q = "mc_length c div 2 ^ mc_depth_higher c"
  let ?s = "?q * 2 ^ ?d"
  have s: "?s \<le> mc_length c" by (rule take_le_segment)
  have "source ?s (len - ?s) = Inr (slice ?s len hs)"
    using s False by (intro source_slice [OF assms(2) _ assms(3)]) linarith
  moreover have "take ?q (mlevel H ?d (take (mc_length c) hs)) @ mlevel H ?d (slice ?s len hs)
      = mlevel H ?d (take len hs)"
    using s False assms(1,3) by (intro mlevel_split) (unfold cache_ok_def, linarith+)
  ultimately show ?thesis using False assms(1,3)
    by (simp add: extend_to_def leaf_start_def level_eq cache_ok_def)
qed

lemma level_for_ok:
  assumes "cache_ok H hs c" and "source_of hs source" and "len \<le> mc_length c"
  shows "level_for H source c len = Inr (mlevel H (mc_depth_higher c) (take len hs))"
proof (cases "len = mc_length c")
  case True
  with assms(1) show ?thesis by (simp add: level_for_def cache_ok_def)
next
  case False
  let ?d = "mc_depth_higher c" and ?q = "len div 2 ^ mc_depth_higher c"
  let ?s = "?q * 2 ^ ?d"
  have s: "?s \<le> len" by (rule take_le_segment)
  have "len - ?s = len mod 2 ^ ?d" by (simp add: minus_div_mult_eq_mod)
  also have "\<dots> \<le> 2 ^ ?d" by (simp add: less_imp_le)
  finally have count: "min (2 ^ ?d) (len - ?s) = len - ?s" by simp
  have le: "len \<le> length hs" using assms(1,3) by (simp add: cache_ok_def)
  with assms(2) s have src: "source ?s (len - ?s) = Inr (slice ?s len hs)" by (rule source_slice)
  have "take ?q (mlevel H ?d (take (mc_length c) hs)) @ mlevel H ?d (slice ?s len hs)
      = mlevel H ?d (take len hs)"
    using s assms(1,3) by (intro mlevel_split) (unfold cache_ok_def, linarith+)
  with False assms(1) show ?thesis
    by (simp add: level_for_def leaf_start_def segment_length_def count src level_eq cache_ok_def)
qed

lemma cache_transparent:
  assumes "cache_ok H hs c" and "source_of hs source" and "len \<le> length hs" and "idx < len"
  shows "\<exists>r c'. mc_branch_and_root H source c len idx tsc = Inr (r, c')
    \<and> branch_and_root H (take len hs) idx None tsc = Inr r \<and> cache_ok H hs c'"
proof -
  obtain c' where ext: "extend_to H source c len = Inr c'" and ok: "cache_ok H hs c'"
    and len: "len \<le> mc_length c'"
    using extend_to_ok [OF assms(1-3)] by blast
  let ?d = "mc_depth_higher c'" and ?t = "take len hs"
  let ?q = "idx div 2 ^ ?d"
  have tl: "length ?t = len" using assms(3) by simp
  have s: "?q * 2 ^ ?d \<le> idx" by (rule take_le_segment)
  have "source (?q * 2 ^ ?d) (min (2 ^ ?d) (len - ?q * 2 ^ ?d))
      = Inr (slice (?q * 2 ^ ?d) (?q * 2 ^ ?d + min (2 ^ ?d) (len - ?q * 2 ^ ?d)) hs)"
    by (rule source_range [OF assms(2)]) (use s assms(3,4) in linarith)
  also have "slice (?q * 2 ^ ?d) (?q * 2 ^ ?d + min (2 ^ ?d) (len - ?q * 2 ^ ?d)) hs = chunk ?d ?q ?t"
    by (simp add: slice_def chunk_def drop_take min.commute)
  finally have src: "source (?q * 2 ^ ?d) (min (2 ^ ?d) (len - ?q * 2 ^ ?d)) = Inr (chunk ?d ?q ?t)" .
  obtain r where r: "branch_and_root H ?t idx None tsc = Inr r"
    using assms(3,4) by (simp add: branch_and_root_eq)
  have "mc_branch_and_root H source c len idx tsc = Inr (r, c')"
  proof (cases "len < 2 ^ ?d")
    case True
    with assms(4) have "?q = 0" by simp
    moreover from this have "chunk ?d ?q ?t = ?t" using True tl by (simp add: chunk_def slice_def)
    ultimately show ?thesis using True src r assms(4)
      by (simp add: mc_branch_and_root_def ext leaf_start_def segment_length_def)
  next
    case False
    with tl have "2 ^ ?d \<le> length ?t" by simp
    from from_level_eq [OF this, of idx H tsc] tl assms(4) r
    have "branch_and_root_from_level H (mlevel H ?d ?t) (chunk ?d ?q ?t) idx ?d tsc = Inr r" by simp
    with False src show ?thesis using assms(4) level_for_ok [OF ok assms(2) len]
      by (simp add: mc_branch_and_root_def ext leaf_start_def segment_length_def)
  qed
  with r ok show ?thesis by blast
qed

text \<open>C17: The header cache is transparent: in any consistent state, for any number of hashes the
  source holds and any index below it, it returns exactly the branch and root computed from
  scratch over the first \<open>len\<close> hashes, and leaves the cache consistent.\<close>

theorem merkle_cache_transparent:
  assumes "cache_ok H hs c" and "source_of hs source" and "len \<le> length hs" and "idx < len"
  shows "\<exists>r c'. mc_branch_and_root H source c len idx tsc = Inr (r, c')
    \<and> branch_and_root H (take len hs) idx None tsc = Inr r \<and> cache_ok H hs c'"
  using assms by (rule cache_transparent)

lemma initialize_ok:
  assumes "source_of hs source" and "0 < len" and "len \<le> length hs"
  shows "\<exists>c. mc_initialize H source len = Inr c \<and> cache_ok H hs c \<and> mc_length c = len"
  using assms
  by (simp add: mc_initialize_def tree_depth_def branch_length_def source_of_def level_eq cache_ok_def slice_def)

lemma truncate_ok:
  assumes "cache_ok H hs c" and "mc_truncate c len = Inr c'" and "take len hs' = take len hs"
    and "len \<le> length hs'"
  shows "cache_ok H hs' c'"
proof (cases "mc_length c \<le> len")
  case True
  have l: "mc_length c \<le> length hs" using assms(1) by (simp add: cache_ok_def)
  have c': "c' = c" using assms(2) True by (simp add: mc_truncate_def split: if_splits)
  have "take (mc_length c) hs' = take (mc_length c) hs"
    using assms(3) True by (metis min.absorb1 take_take)
  with assms(1,4) True show ?thesis by (simp add: cache_ok_def c')
next
  case False
  let ?d = "mc_depth_higher c" and ?q = "len div 2 ^ mc_depth_higher c"
  let ?s = "?q * 2 ^ ?d"
  have s: "?s \<le> len" by (rule take_le_segment)
  have hs: "mc_length c \<le> length hs" "mc_level c = mlevel H ?d (take (mc_length c) hs)"
    using assms(1) by (simp_all add: cache_ok_def)
  have c': "c' = c\<lparr>mc_length := ?s, mc_level := take ?q (mc_level c)\<rparr>"
    using assms(2) False by (simp add: mc_truncate_def leaf_start_def Let_def split: if_splits)
  have "take ?q (mlevel H ?d (take (mc_length c) hs)) @ mlevel H ?d (slice ?s ?s hs)
      = mlevel H ?d (take ?s hs)"
    using s False hs(1) by (intro mlevel_split) linarith+
  moreover have "mlevel H ?d (slice ?s ?s hs) = []"
    using length_mlevel [of H ?d "[]"] by (simp add: slice_def)
  moreover have "take ?s hs' = take ?s hs" using assms(3) s by (metis min.absorb1 take_take)
  moreover have "?s \<le> length hs'" using s assms(4) by (rule le_trans)
  ultimately show ?thesis using hs(2) by (simp add: cache_ok_def c')
qed

text \<open>The cache survives a reorganisation: after truncating to the height of the fork, it is
  consistent with any chain that shares the hashes below the fork, so later branches are those of
  the new chain.\<close>

theorem merkle_cache_reorg:
  assumes "cache_ok H hs c" and "mc_truncate c fork = Inr c'"
    and "take fork hs' = take fork hs" and "source_of hs' source"
    and "fork \<le> len" and "len \<le> length hs'" and "idx < len"
  shows "\<exists>r c''. mc_branch_and_root H source c' len idx tsc = Inr (r, c'')
    \<and> branch_and_root H (take len hs') idx None tsc = Inr r"
proof -
  have "cache_ok H hs' c'" using truncate_ok [OF assms(1,2,3)] assms(5,6) by simp
  from cache_transparent [OF this assms(4,6,7)] show ?thesis by blast
qed

definition sample_hashes :: "bytes list" where
  "sample_hashes = [[1], [2], [3], [4], [5]]"

definition sample_source :: source_func where
  "sample_source s n = Inr (slice s (s + n) sample_hashes)"

definition sample_cache :: merkle_cache where
  "sample_cache = \<lparr>mc_length = 3, mc_level = [[1, 2], [3, 3]], mc_depth_higher = 1\<rparr>"

lemma sample_source_ok: "source_of sample_hashes sample_source"
  by (simp add: source_of_def sample_source_def)

lemma sample_cache_ok: "cache_ok id sample_hashes sample_cache"
  by code_simp

theorem merkle_cache_transparent_witness:
  "\<exists>r c'. mc_branch_and_root id sample_source sample_cache 5 4 True = Inr (r, c')
    \<and> branch_and_root id (take 5 sample_hashes) 4 None True = Inr r \<and> cache_ok id sample_hashes c'"
  by (rule merkle_cache_transparent [OF sample_cache_ok sample_source_ok]) (simp_all add: sample_hashes_def)

theorem merkle_cache_reorg_witness:
  "\<exists>r c''. mc_branch_and_root id sample_source
      \<lparr>mc_length = 2, mc_level = [[1, 2]], mc_depth_higher = 1\<rparr> 5 4 False = Inr (r, c'')
    \<and> branch_and_root id (take 5 sample_hashes) 4 None False = Inr r"
proof (rule merkle_cache_reorg)
  show "cache_ok id [[1], [2], [9]] \<lparr>mc_length = 3, mc_level = [[1, 2], [9, 9]], mc_depth_higher = 1\<rparr>" by code_simp
  show "mc_truncate \<lparr>mc_length = 3, mc_level = [[1, 2], [9, 9]], mc_depth_higher = 1\<rparr> 2
      = Inr \<lparr>mc_length = 2, mc_level = [[1, 2]], mc_depth_higher = 1\<rparr>" by code_simp
  show "take 2 sample_hashes = take 2 [[1], [2], [9]]" by (simp add: sample_hashes_def)
  show "source_of sample_hashes sample_source" by (rule sample_source_ok)
qed (simp_all add: sample_hashes_def)

end
