(* ===== verification/LogicalFile.thy ===== *)
theory LogicalFile
  imports Prelude
begin

text \<open>
  \<open>LogicalFile\<close> of \<open>electrumx/lib/util.py\<close>: one byte array spread over files of a fixed size.
  The files on disk are a dictionary from file number to contents (the file name is an injective
  function of the number). The constructor is only called with positive sizes; the loops below
  stop on a zero size, where the source would raise \<open>ZeroDivisionError\<close>.
\<close>

record logical_file =
  file_size :: nat
  files :: "(nat, bytes) dict"

text \<open>\<open>open_file\<close> with \<open>create\<close>: an existing file keeps its contents (mode \<open>rb+\<close>), a missing one
  is created empty. The handle is the file number, the offset and the contents.\<close>

definition open_file :: "logical_file \<Rightarrow> nat \<Rightarrow> bool \<Rightarrow> (nat \<times> nat \<times> bytes) res" where
  "open_file f start create =
     (let file_num = start div file_size f; offset = start mod file_size f in
      case map_of (files f) file_num of
        Some content \<Rightarrow> Inr (file_num, offset, content)
      | None \<Rightarrow> if create then Inr (file_num, offset, []) else Inl FileNotFoundError)"

text \<open>\<open>f.seek(offset); f.read(sz)\<close>, where \<open>None\<close> is sz \<open>-1\<close>, and
  \<open>f.seek(offset); f.write(b)\<close>, which pads a gap with zeros.\<close>

definition read_at :: "bytes \<Rightarrow> nat \<Rightarrow> nat option \<Rightarrow> bytes" where
  "read_at content offset sz =
     (case sz of None \<Rightarrow> drop offset content | Some n \<Rightarrow> take n (drop offset content))"

definition write_at :: "bytes \<Rightarrow> nat \<Rightarrow> bytes \<Rightarrow> bytes" where
  "write_at content offset b =
     take offset content @ zero_bytes (offset - length content) @ b @ drop (offset + length b) content"

definition last_file :: "logical_file \<Rightarrow> nat" where
  "last_file f = Max (insert 0 (set (dict_keys (files f))))"

lemma last_file_ge: "map_of (files f) n = Some c \<Longrightarrow> n \<le> last_file f"
  unfolding last_file_def by (rule Max_ge) (auto simp: set_dict_keys finite_dom_map_of)

function read_loop :: "logical_file \<Rightarrow> nat \<Rightarrow> nat option \<Rightarrow> bytes \<Rightarrow> bytes" where
  "read_loop f start sz parts =
     (if sz = Some 0 \<or> file_size f = 0 then parts
      else case open_file f start False of
        Inl _ \<Rightarrow> parts
      | Inr (_, offset, content) \<Rightarrow>
          let part = read_at content offset sz in
          if part = [] then parts
          else read_loop f (start + length part) (map_option (\<lambda>n. n - length part) sz) (parts @ part))"
  by pat_completeness auto
termination
proof (relation "measure (\<lambda>(f, start, sz, parts). Suc (last_file f) * file_size f - start)", goal_cases)
  case (2 f start sz parts x y file_num offset content part)
  then have "map_of (files f) (start div file_size f) = Some content"
    by (auto simp: open_file_def Let_def split: option.splits)
  then have "start div file_size f \<le> last_file f" by (rule last_file_ge)
  then have "start div file_size f < Suc (last_file f)" by simp
  then have "start < Suc (last_file f) * file_size f"
    using 2(1) by (subst div_less_iff_less_mult [symmetric]) simp_all
  moreover have "0 < length part" using 2 by simp
  ultimately show ?case by (simp only: in_measure prod.case)
qed simp

declare read_loop.simps [simp del]

definition lf_read :: "logical_file \<Rightarrow> nat \<Rightarrow> nat option \<Rightarrow> bytes" where
  "lf_read f start sz = read_loop f start sz []"

function lf_write :: "logical_file \<Rightarrow> nat \<Rightarrow> bytes \<Rightarrow> logical_file" where
  "lf_write f start b =
     (if b = [] \<or> file_size f = 0 then f
      else
        let sz = min (length b) (file_size f - start mod file_size f) in
        case open_file f start True of
          Inl _ \<Rightarrow> f
        | Inr (file_num, offset, content) \<Rightarrow>
            lf_write (f\<lparr>files := dict_set file_num (write_at content offset (take sz b)) (files f)\<rparr>)
              (start + sz) (drop sz b))"
  by pat_completeness auto
termination
proof (relation "measure (\<lambda>(f, start, b). length b)", goal_cases)
  case (2 f start b sz x y file_num offset content)
  then have "start mod file_size f < file_size f" by simp
  with 2 show ?case by simp
qed simp

declare lf_write.simps [simp del]

section \<open>The byte array behind the files\<close>

text \<open>\<open>lf_rep f c\<close>: the files hold exactly the byte array \<open>c\<close>.\<close>

definition lf_rep :: "logical_file \<Rightarrow> bytes \<Rightarrow> bool" where
  "lf_rep f c \<longleftrightarrow> 0 < file_size f \<and> (\<forall>n. map_of (files f) n =
     (if n * file_size f < length c then Some (slice (n * file_size f) (n * file_size f + file_size f) c) else None))"

definition overwrite :: "bytes \<Rightarrow> nat \<Rightarrow> bytes \<Rightarrow> bytes" where
  "overwrite c start b = take start c @ b @ drop (start + length b) c"

lemma overwrite_Nil [simp]: "overwrite c start [] = c"
  by (simp add: overwrite_def)

lemma overwrite_append:
  "start \<le> length c \<Longrightarrow> overwrite (overwrite c start b1) (start + length b1) b2 = overwrite c start (b1 @ b2)"
  by (simp add: overwrite_def ac_simps)

lemma length_overwrite: "start \<le> length c \<Longrightarrow> length (overwrite c start b) = max (length c) (start + length b)"
  by (simp add: overwrite_def)

lemma slice_alt: "slice i j xs = drop i (take j xs)"
  by (simp add: slice_def drop_take)

lemma slice_overwrite_before:
  assumes "j \<le> start" and "start \<le> length c"
  shows "slice i j (overwrite c start b) = slice i j c"
proof -
  have "take j (overwrite c start b) = take j c" using assms by (simp add: overwrite_def)
  then show ?thesis by (simp add: slice_alt)
qed

lemma slice_overwrite_after:
  assumes "start + length b \<le> i" and "start \<le> length c"
  shows "slice i j (overwrite c start b) = slice i j c"
proof -
  have "drop i (overwrite c start b) = drop i c" using assms by (simp add: overwrite_def)
  then show ?thesis by (simp add: slice_def)
qed

lemma slice_overwrite_in:
  assumes "start + length b \<le> e" and "i \<le> start" and "start \<le> length c"
  shows "slice i e (overwrite c start b) = overwrite (slice i e c) (start - i) b"
proof -
  let ?n = "start + length b"
  have "take e (overwrite c start b) = take start c @ b @ take (e - ?n) (drop ?n c)"
    using assms by (simp add: overwrite_def)
  then have "slice i e (overwrite c start b) = drop i (take start c) @ b @ take (e - ?n) (drop ?n c)"
    using assms by (simp add: slice_alt)
  moreover have "take (start - i) (slice i e c) = drop i (take start c)"
    using assms by (simp add: slice_def drop_take min_def)
  moreover have "drop (start - i + length b) (slice i e c) = take (e - ?n) (drop ?n c)"
    using assms by (simp add: slice_alt drop_take)
  ultimately show ?thesis by (simp add: overwrite_def)
qed

lemma write_at_overwrite: "off \<le> length c \<Longrightarrow> write_at c off b = overwrite c off b"
  by (simp add: write_at_def overwrite_def zero_bytes_def)

lemma lf_write_step:
  assumes rep: "lf_rep f c" and s: "start \<le> length c" and b: "b \<noteq> []"
    and fit: "start mod file_size f + length b \<le> file_size f"
    and "open_file f start True = Inr (num, off, content)"
  shows "lf_rep (f\<lparr>files := dict_set num (write_at content off b) (files f)\<rparr>) (overwrite c start b)"
proof -
  let ?S = "file_size f" and ?c = "overwrite c start b"
  have S: "0 < ?S" using rep by (simp add: lf_rep_def)
  have num: "num = start div ?S" and off: "off = start mod ?S"
    and content: "content = (case map_of (files f) num of None \<Rightarrow> [] | Some x \<Rightarrow> x)"
    using assms(5) by (auto simp: open_file_def Let_def split: option.splits)
  have st: "start = num * ?S + off" by (simp add: num off)
  have old: "content = slice (num * ?S) (num * ?S + ?S) c"
    using rep s st S by (auto simp: content lf_rep_def slice_def)
  have "off < ?S" using S by (simp add: off)
  then have off_le: "off \<le> length content" unfolding old length_slice using st s by linarith
  have len: "length ?c = max (length c) (start + length b)" using s by (rule length_overwrite)
  have end_le: "start + length b \<le> num * ?S + ?S" using fit [folded off] st by linarith
  have "map_of (dict_set num (write_at content off b) (files f)) n =
      (if n * ?S < length ?c then Some (slice (n * ?S) (n * ?S + ?S) ?c) else None)" for n
  proof -
    consider "n = num" | "n < num" | "num < n" by linarith
    then show ?thesis
    proof cases
      case 1
      have "0 < length b" using b by simp
      then have "num * ?S < length ?c" unfolding len using st by linarith
      moreover have "slice (num * ?S) (num * ?S + ?S) ?c = overwrite content (start - num * ?S) b"
        unfolding old using end_le _ s by (rule slice_overwrite_in) (simp add: st)
      ultimately show ?thesis using 1 off_le st by (simp add: write_at_overwrite)
    next
      case 2
      then have "Suc n * ?S \<le> num * ?S" by (intro mult_le_mono1) simp
      then have le: "n * ?S + ?S \<le> start" using st by simp
      then have "n * ?S < length c" using s S by simp
      moreover from this have "n * ?S < length ?c" unfolding len by simp
      ultimately show ?thesis using 2 rep le s by (simp add: lf_rep_def slice_overwrite_before)
    next
      case 3
      then have "Suc num * ?S \<le> n * ?S" by (intro mult_le_mono1) simp
      then have le: "start + length b \<le> n * ?S" using end_le by simp
      then have "n * ?S < length ?c \<longleftrightarrow> n * ?S < length c" unfolding len by auto
      then show ?thesis using 3 rep le s by (simp add: lf_rep_def slice_overwrite_after)
    qed
  qed
  with S show ?thesis by (simp add: lf_rep_def)
qed

lemma lf_write_rep:
  assumes "lf_rep f c" and "start \<le> length c"
  shows "lf_rep (lf_write f start b) (overwrite c start b)"
  using assms
proof (induction "length b" arbitrary: b f c start rule: less_induct)
  case less
  show ?case
  proof (cases "b = []")
    case True
    with less.prems show ?thesis by (simp add: lf_write.simps)
  next
    case False
    let ?S = "file_size f"
    define sz where "sz = min (length b) (?S - start mod ?S)"
    have S: "0 < ?S" using less.prems by (simp add: lf_rep_def)
    then have m: "start mod ?S < ?S" by simp
    then have sz: "0 < sz" "sz \<le> length b" "start mod ?S + sz \<le> ?S" using False by (simp_all add: sz_def)
    obtain num off content where o: "open_file f start True = Inr (num, off, content)"
      by (cases "map_of (files f) (start div ?S)") (simp_all add: open_file_def Let_def)
    define f' where "f' = f\<lparr>files := dict_set num (write_at content off (take sz b)) (files f)\<rparr>"
    have "take sz b \<noteq> []" using sz False by simp
    then have rep': "lf_rep f' (overwrite c start (take sz b))"
      unfolding f'_def using less.prems o sz by (intro lf_write_step) simp_all
    have "lf_rep (lf_write f' (start + sz) (drop sz b)) (overwrite (overwrite c start (take sz b)) (start + sz) (drop sz b))"
      using sz False less.prems(2) by (intro less.hyps [OF _ rep']) (simp_all add: length_overwrite)
    moreover have "overwrite (overwrite c start (take sz b)) (start + sz) (drop sz b) = overwrite c start b"
      using overwrite_append [OF less.prems(2), of "take sz b" "drop sz b"] sz by simp
    moreover have "lf_write f start b = lf_write f' (start + sz) (drop sz b)"
      using False S o by (subst lf_write.simps) (simp add: Let_def sz_def [symmetric] f'_def)
    ultimately show ?thesis by simp
  qed
qed

lemma read_loop_rep:
  assumes "lf_rep f c"
  shows "read_loop f start sz parts = parts @ read_at c start sz"
proof (induction "length c - start" arbitrary: start sz parts rule: less_induct)
  case less
  let ?S = "file_size f" and ?num = "start div file_size f" and ?off = "start mod file_size f"
  have S: "0 < ?S" using assms by (simp add: lf_rep_def)
  have st: "start = ?num * ?S + ?off" by (rule div_mult_mod_eq [symmetric])
  show ?case
  proof (cases "sz = Some 0")
    case True
    then show ?thesis by (simp add: read_loop.simps read_at_def)
  next
    case nz: False
    show ?thesis
    proof (cases "?num * ?S < length c")
      case False
      then have "open_file f start False = Inl FileNotFoundError"
        using assms by (simp add: open_file_def lf_rep_def)
      moreover have "length c \<le> start" using False st by linarith
      ultimately show ?thesis by (simp add: read_loop.simps read_at_def split: option.split)
    next
      case True
      let ?content = "slice (?num * ?S) (?num * ?S + ?S) c"
      have o: "open_file f start False = Inr (?num, ?off, ?content)"
        using assms True by (simp add: open_file_def lf_rep_def Let_def)
      have "drop ?off ?content = take (?S - ?off) (drop (?off + ?num * ?S) c)"
        by (simp add: slice_def drop_take)
      also have "?off + ?num * ?S = start" by simp
      finally have rest: "drop ?off ?content = take (?S - ?off) (drop start c)" .
      define part where "part = read_at ?content ?off sz"
      define k where "k = length part"
      have k_le: "\<And>n. sz = Some n \<Longrightarrow> k \<le> n" by (auto simp: k_def part_def read_at_def)
      have part: "part = take k (drop start c)" "k \<le> length (drop start c)"
        unfolding k_def part_def read_at_def rest by (auto split: option.split simp: min_def)
      have step: "read_loop f start sz parts = (if part = [] then parts
          else read_loop f (start + k) (map_option (\<lambda>n. n - k) sz) (parts @ part))"
        using nz S o by (subst read_loop.simps) (simp add: Let_def part_def k_def)
      show ?thesis
      proof (cases "part = []")
        case True
        have "0 < ?S - ?off" using S by simp
        with True nz have "drop start c = []"
          unfolding part_def read_at_def rest by (cases sz) auto
        then show ?thesis using True step by (simp add: read_at_def split: option.split)
      next
        case False
        then have "0 < k" by (simp add: k_def)
        then have "length c - (start + k) < length c - start" using part(2) by simp
        from less [OF this] have "read_loop f start sz parts = parts @ part @ read_at c (start + k) (map_option (\<lambda>n. n - k) sz)"
          using False step by simp
        also have "part @ read_at c (start + k) (map_option (\<lambda>n. n - k) sz) = read_at c start sz"
        proof (cases sz)
          case None
          then show ?thesis
            using part(1) append_take_drop_id [of k "drop start c"] by (simp add: read_at_def add.commute)
        next
          case (Some n)
          with k_le have "n = k + (n - k)" by simp
          then have "take n (drop start c) = take k (drop start c) @ take (n - k) (drop (start + k) c)"
            by (metis add.commute drop_drop take_add)
          then show ?thesis using part(1) Some by (simp add: read_at_def)
        qed
        finally show ?thesis .
      qed
    qed
  qed
qed

text \<open>C34: A logical file behaves as one byte array: after writing \<open>b\<close> anywhere at or before its
  end, reading any number of bytes at any offset returns what the array with \<open>b\<close> written over it
  holds there, however the bytes fall on the files on disk.\<close>

theorem logical_file_read_after_write:
  assumes "lf_rep f c" and "start \<le> length c"
  shows "lf_read (lf_write f start b) s (Some n) = slice s (s + n) (take start c @ b @ drop (start + length b) c)
    \<and> lf_rep (lf_write f start b) (take start c @ b @ drop (start + length b) c)"
  using lf_write_rep [OF assms, of b] read_loop_rep [OF lf_write_rep [OF assms], of b s "Some n" "[]"]
  by (simp add: lf_read_def read_at_def slice_def overwrite_def)

lemma lf_rep_empty: "0 < file_size f \<Longrightarrow> files f = [] \<Longrightarrow> lf_rep f []"
  by (simp add: lf_rep_def)

lemma lf_read_rep: "lf_rep f c \<Longrightarrow> lf_read f s (Some n) = slice s (s + n) c"
  by (simp add: lf_read_def read_loop_rep read_at_def slice_def)

theorem logical_file_read_after_write_witness:
  "lf_read (lf_write \<lparr>file_size = 2, files = [(0, [9, 8])]\<rparr> 1 [1, 2, 3, 4]) 1 (Some 3)
      = slice 1 (1 + 3) (take 1 [9, 8] @ [1, 2, 3, 4] @ drop (1 + length [1 :: byte, 2, 3, 4]) [9, 8])
    \<and> lf_rep (lf_write \<lparr>file_size = 2, files = [(0, [9, 8])]\<rparr> 1 [1, 2, 3, 4])
        (take 1 [9, 8] @ [1, 2, 3, 4] @ drop (1 + length [1 :: byte, 2, 3, 4]) [9, 8])"
proof (rule logical_file_read_after_write)
  have "n * 2 < Suc (Suc 0) \<longleftrightarrow> n = 0" for n by auto
  then show "lf_rep \<lparr>file_size = 2, files = [(0, [9, 8])]\<rparr> [9, 8]" by (simp add: lf_rep_def slice_def)
qed simp

end
