(* ===== verification/Storage.thy ===== *)
theory Storage
  imports Util
begin

text \<open>
  \<open>electrumx/server/storage.py\<close>: the ordered key-value store behind both databases. The store is
  its sorted list of entries; \<open>scan\<close> is the iterator contract of the abstract class, and the two
  engines are proved to implement it over the third-party iterators they wrap (\<open>plyvel\<close> and
  \<open>python-rocksdb\<close>), which are arguments.
\<close>

section \<open>Entries, batches and the iterator contract\<close>

type_synonym kv = "(bytes \<times> bytes) list"

definition kv_ok :: "kv \<Rightarrow> bool" where
  "kv_ok kv \<longleftrightarrow> sorted_wrt (<) (map fst kv)"

definition kv_get :: "kv \<Rightarrow> bytes \<Rightarrow> bytes option" where
  "kv_get kv key = map_of kv key"

fun kv_put :: "bytes \<Rightarrow> bytes \<Rightarrow> kv \<Rightarrow> kv" where
  "kv_put key val [] = [(key, val)]"
| "kv_put key val ((k, v) # kv) =
     (if key < k then (key, val) # (k, v) # kv
      else if key = k then (key, val) # kv
      else (k, v) # kv_put key val kv)"

definition kv_delete :: "bytes \<Rightarrow> kv \<Rightarrow> kv" where
  "kv_delete key kv = filter (\<lambda>e. fst e \<noteq> key) kv"

datatype batch_op = Put bytes bytes | Delete bytes

fun apply_op :: "batch_op \<Rightarrow> kv \<Rightarrow> kv" where
  "apply_op (Put k v) kv = kv_put k v kv"
| "apply_op (Delete k) kv = kv_delete k kv"

definition apply_batch :: "batch_op list \<Rightarrow> kv \<Rightarrow> kv" where
  "apply_batch ops kv = fold apply_op ops kv"

text \<open>\<open>with db.write_batch() as batch\<close>: the operations are committed in order when the block ends
  without an exception, and dropped otherwise.\<close>

definition with_batch :: "kv \<Rightarrow> (batch_op list \<times> 'a) res \<Rightarrow> (kv \<times> 'a) res" where
  "with_batch kv block = rbind block (\<lambda>(ops, x). Inr (apply_batch ops kv, x))"

definition starts_with :: "bytes \<Rightarrow> bytes \<Rightarrow> bool" where
  "starts_with p k \<longleftrightarrow> take (length p) k = p"

text \<open>A resume key counts when it is non-empty and not below the prefix; \<open>None\<close> and the empty
  string are both "no seek".\<close>

definition effective_seek :: "bytes \<Rightarrow> bytes option \<Rightarrow> bytes option" where
  "effective_seek p seek = (case seek of None \<Rightarrow> None
     | Some s \<Rightarrow> if s \<noteq> [] \<and> p \<le> s then Some s else None)"

definition in_page :: "bool \<Rightarrow> bytes option \<Rightarrow> bytes \<Rightarrow> bool" where
  "in_page reverse seek k = (case seek of None \<Rightarrow> True | Some s \<Rightarrow> if reverse then k \<le> s else s \<le> k)"

definition scan :: "kv \<Rightarrow> bytes \<Rightarrow> bool \<Rightarrow> bytes option \<Rightarrow> kv" where
  "scan kv p reverse seek =
     (let hits = filter (\<lambda>(k, _). starts_with p k \<and> in_page reverse (effective_seek p seek) k) kv
      in if reverse then rev hits else hits)"

definition kv_iter :: "kv \<Rightarrow> bytes \<Rightarrow> bool \<Rightarrow> kv" where
  "kv_iter kv p reverse = scan kv p reverse None"

section \<open>The engines\<close>

text \<open>\<open>plyvel kv start stop include_stop reverse\<close> is \<open>plyvel.DB.iterator\<close>.\<close>

type_synonym plyvel_iterator = "kv \<Rightarrow> bytes option \<Rightarrow> bytes option \<Rightarrow> bool \<Rightarrow> bool \<Rightarrow> kv"

definition leveldb_iterator :: "plyvel_iterator \<Rightarrow> kv \<Rightarrow> bytes \<Rightarrow> bool \<Rightarrow> bytes option \<Rightarrow> kv" where
  "leveldb_iterator plyvel kv p reverse seek =
     (let stop = (if p \<noteq> [] then increment_byte_string p else None);
          (start, stop, include_stop) =
            (case seek of
               Some s \<Rightarrow>
                 if s \<noteq> [] \<and> p \<le> s then
                   if reverse then
                     (if stop = None \<or> s < the stop then (p, Some s, True) else (p, stop, False))
                   else (s, stop, False)
                 else (p, stop, False)
             | None \<Rightarrow> (p, stop, False))
      in plyvel kv (if start \<noteq> [] then Some start else None)
           (case stop of Some b \<Rightarrow> if b \<noteq> [] then Some b else None | None \<Rightarrow> None) include_stop reverse)"

text \<open>A RocksDB cursor is what successive \<open>next\<close> calls still yield: \<open>seek_fwd\<close> of the plain
  iterator, \<open>seek_rev\<close>, \<open>seek_for_prev\<close> (absent before 0.7) and \<open>seek_to_last\<close> of the
  reversed one.\<close>

record rocksdb =
  seek_fwd :: "kv \<Rightarrow> bytes \<Rightarrow> kv"
  seek_rev :: "kv \<Rightarrow> bytes \<Rightarrow> kv"
  seek_to_last :: "kv \<Rightarrow> kv"
  seek_for_prev :: "(kv \<Rightarrow> bytes \<Rightarrow> kv) option"

definition park_at_or_below :: "rocksdb \<Rightarrow> kv \<Rightarrow> bytes \<Rightarrow> kv" where
  "park_at_or_below db kv target =
     (case seek_for_prev db of
        Some sfp \<Rightarrow> sfp kv target
      | None \<Rightarrow>
          (case seek_rev db kv target of
             [] \<Rightarrow> seek_to_last db kv
           | (key, _) # rest \<Rightarrow> if key = target then seek_rev db kv target else rest))"

definition park_below :: "rocksdb \<Rightarrow> kv \<Rightarrow> bytes \<Rightarrow> kv" where
  "park_below db kv bound =
     (case seek_for_prev db of
        None \<Rightarrow> (case seek_rev db kv bound of [] \<Rightarrow> seek_to_last db kv | _ # rest \<Rightarrow> rest)
      | Some sfp \<Rightarrow>
          (case sfp kv bound of
             [] \<Rightarrow> []
           | (key, _) # rest \<Rightarrow> if key \<noteq> bound then sfp kv key else rest))"

text \<open>\<open>RocksDBIterator.__init__\<close>, and the entries its \<open>__next__\<close> yields.\<close>

definition rocksdb_start :: "rocksdb \<Rightarrow> kv \<Rightarrow> bytes \<Rightarrow> bool \<Rightarrow> bytes option \<Rightarrow> kv" where
  "rocksdb_start db kv p reverse seek =
     (if reverse then
        let nxt_prefix = increment_byte_string p in
        case seek of
          Some s \<Rightarrow>
            if s \<noteq> [] \<and> p \<le> s \<and> (nxt_prefix = None \<or> s < the nxt_prefix) then park_at_or_below db kv s
            else (case nxt_prefix of Some b \<Rightarrow> if b \<noteq> [] then park_below db kv b else seek_to_last db kv
                                   | None \<Rightarrow> seek_to_last db kv)
        | None \<Rightarrow> (case nxt_prefix of Some b \<Rightarrow> if b \<noteq> [] then park_below db kv b else seek_to_last db kv
                                   | None \<Rightarrow> seek_to_last db kv)
      else seek_fwd db kv (case seek of Some s \<Rightarrow> if s \<noteq> [] \<and> p \<le> s then s else p | None \<Rightarrow> p))"

definition rocksdb_iterator :: "rocksdb \<Rightarrow> kv \<Rightarrow> bytes \<Rightarrow> bool \<Rightarrow> bytes option \<Rightarrow> kv" where
  "rocksdb_iterator db kv p reverse seek =
     takeWhile (\<lambda>(k, _). starts_with p k) (rocksdb_start db kv p reverse seek)"

section \<open>The store as a map\<close>

lemma kv_ok_Nil [simp]: "kv_ok []"
  by (simp add: kv_ok_def)

lemma kv_ok_distinct: "kv_ok kv \<Longrightarrow> distinct (map fst kv)"
  unfolding kv_ok_def by (induction kv) auto

lemma kv_get_put [simp]: "kv_ok kv \<Longrightarrow> kv_get (kv_put k v kv) = (kv_get kv)(k \<mapsto> v)"
proof (induction k v kv rule: kv_put.induct)
  case (1 key val)
  then show ?case by (auto simp: kv_get_def)
next
  case (2 key val k v kv)
  have "map_of kv key = None" if "key < k"
    using 2 that by (auto simp: kv_ok_def map_of_eq_None_iff)
  with 2 show ?case by (auto simp: kv_get_def kv_ok_def fun_eq_iff)
qed

lemma kv_get_delete [simp]: "kv_get (kv_delete k kv) = (kv_get kv)(k := None)"
  by (induction kv) (auto simp: kv_get_def kv_delete_def fun_eq_iff)

lemma set_kv_put: "set (map fst (kv_put k v kv)) = insert k (set (map fst kv))"
  by (induction k v kv rule: kv_put.induct) (simp_all add: insert_commute)

lemma kv_ok_put [simp, intro]: "kv_ok kv \<Longrightarrow> kv_ok (kv_put k v kv)"
  by (induction k v kv rule: kv_put.induct) (auto simp: kv_ok_def set_kv_put simp del: set_map)

lemma kv_ok_delete [simp, intro]: "kv_ok kv \<Longrightarrow> kv_ok (kv_delete k kv)"
  by (simp add: kv_ok_def kv_delete_def sorted_wrt_map sorted_wrt_filter)

lemma kv_ok_apply_op [simp, intro]: "kv_ok kv \<Longrightarrow> kv_ok (apply_op op kv)"
  by (cases op) simp_all

lemma kv_ok_apply_batch [simp, intro]: "kv_ok kv \<Longrightarrow> kv_ok (apply_batch ops kv)"
  unfolding apply_batch_def by (induction ops arbitrary: kv) simp_all

text \<open>The effect of a batch on the map.\<close>

fun op_map :: "batch_op \<Rightarrow> (bytes \<rightharpoonup> bytes) \<Rightarrow> (bytes \<rightharpoonup> bytes)" where
  "op_map (Put k v) m = m(k \<mapsto> v)"
| "op_map (Delete k) m = m(k := None)"

lemma kv_get_apply_op: "kv_ok kv \<Longrightarrow> kv_get (apply_op op kv) = op_map op (kv_get kv)"
  by (cases op) simp_all

lemma kv_get_apply_batch: "kv_ok kv \<Longrightarrow> kv_get (apply_batch ops kv) = fold op_map ops (kv_get kv)"
  unfolding apply_batch_def by (induction ops arbitrary: kv) (simp_all add: kv_get_apply_op)

lemma kv_get_mem: "kv_ok kv \<Longrightarrow> kv_get kv k = Some v \<longleftrightarrow> (k, v) \<in> set kv"
  by (simp add: kv_get_def kv_ok_distinct)

lemma kv_iter_mem: "kv_ok kv \<Longrightarrow> (k, v) \<in> set (kv_iter kv p r) \<longleftrightarrow> starts_with p k \<and> kv_get kv k = Some v"
  by (auto simp: kv_iter_def scan_def Let_def effective_seek_def in_page_def kv_get_mem)

section \<open>Prefixes in the key order\<close>

lemma less_prefix: "length a = length p \<Longrightarrow> a @ b < p \<longleftrightarrow> a < (p :: bytes)"
  by (induction a p rule: list_induct2) auto

lemma prefix_le: "length a = length p \<Longrightarrow> p \<le> a @ b \<longleftrightarrow> p \<le> (a :: bytes)"
  using less_prefix [of a p b] by (simp add: linorder_not_less [symmetric])

lemma starts_with_le: "starts_with p k \<Longrightarrow> p \<le> k"
  by (metis append_take_drop_id order_refl prefix_le starts_with_def)

lemma starts_with_Cons: "starts_with (x # p) k \<longleftrightarrow> (\<exists>ks. k = x # ks \<and> starts_with p ks)"
  by (cases k) (auto simp: starts_with_def)

lemma starts_with_between:
  assumes "starts_with p k" and "starts_with p k'" and "k \<le> m" and "m \<le> k'"
  shows "starts_with p m"
  using assms
proof (induction p arbitrary: k m k')
  case Nil
  then show ?case by (simp add: starts_with_def)
next
  case (Cons x p)
  obtain ks where k: "k = x # ks" "starts_with p ks" using Cons.prems(1) by (auto simp: starts_with_Cons)
  obtain ks' where k': "k' = x # ks'" "starts_with p ks'" using Cons.prems(2) by (auto simp: starts_with_Cons)
  from Cons.prems(3) k(1) obtain y ms where m: "m = y # ms" by (cases m) simp_all
  have "x < y \<or> x = y \<and> ks \<le> ms" using Cons.prems(3) by (simp only: k(1) m Cons_le_Cons)
  moreover have "y < x \<or> y = x \<and> ms \<le> ks'" using Cons.prems(4) by (simp only: k'(1) m Cons_le_Cons)
  ultimately have "y = x" "ks \<le> ms" "ms \<le> ks'" by (auto dest: less_asym)
  with Cons.IH [OF k(2) k'(2)] show ?case by (simp add: starts_with_def m)
qed

lemma starts_with_iff_ff:
  assumes "increment_byte_string p = None" and "length p \<le> length k"
  shows "starts_with p k \<longleftrightarrow> p \<le> k"
proof
  assume le: "p \<le> k"
  define a b where "a = take (length p) k" and "b = drop (length p) k"
  have k: "k = a @ b" and len: "length a = length p" using assms(2) by (simp_all add: a_def b_def)
  have "p \<le> a" using le len by (simp add: k prefix_le)
  have "p = replicate (length p) 255"
    using assms(1) by (simp add: increment_byte_string_None replicate_eqI)
  then have "be_dec p + 1 = 256 ^ length p" by (metis be_dec_ff)
  with be_dec_bound [of a] len have "\<not> be_dec p < be_dec a" by simp
  with \<open>p \<le> a\<close> len have "a = p" using be_dec_less_iff [of p a] by (auto simp: order_le_less)
  then show "starts_with p k" by (simp add: starts_with_def a_def)
qed (rule starts_with_le)

lemma starts_with_iff_bound:
  assumes "increment_byte_string p = Some bound" and "length p \<le> length k"
  shows "starts_with p k \<longleftrightarrow> p \<le> k \<and> k < bound"
proof -
  define a b where "a = take (length p) k" and "b = drop (length p) k"
  have k: "k = a @ b" and len: "length a = length p" using assms(2) by (simp_all add: a_def b_def)
  have bl: "length bound = length p" and bd: "be_dec bound = be_dec p + 1"
    using increment_byte_string_next [OF assms(1)] by simp_all
  have "p \<le> k \<and> k < bound \<longleftrightarrow> p \<le> a \<and> a < bound"
    using len bl by (simp add: k prefix_le less_prefix)
  also have "\<dots> \<longleftrightarrow> be_dec p \<le> be_dec a \<and> be_dec a < be_dec bound"
    using len bl be_dec_less_iff [of a p] be_dec_less_iff [of a bound] by (simp add: linorder_not_less [symmetric])
  also have "\<dots> \<longleftrightarrow> be_dec a = be_dec p" using bd by auto
  also have "\<dots> \<longleftrightarrow> a = p" using len by (metis be_enc_dec)
  finally show ?thesis by (simp add: starts_with_def a_def)
qed

lemma not_starts_with_bound:
  assumes "increment_byte_string p = Some bound"
  shows "bound \<noteq> []" and "p < bound"
  using starts_with_iff_bound [OF assms, of p] increment_byte_string_next [OF assms]
  by (auto simp: starts_with_def)

text \<open>The condition under which the engines implement the contract: no stored key in the range from the
  prefix up to its successor is shorter than the prefix. Only a prefix that ends in \<open>0xff\<close> leaves room
  for such a key.\<close>

definition below_bound :: "bytes \<Rightarrow> bytes \<Rightarrow> bool" where
  "below_bound p k \<longleftrightarrow> p \<le> k \<and> (case increment_byte_string p of None \<Rightarrow> True | Some b \<Rightarrow> k < b)"

definition long_keys :: "bytes \<Rightarrow> kv \<Rightarrow> bool" where
  "long_keys p kv \<longleftrightarrow> (\<forall>(k, v) \<in> set kv. below_bound p k \<longrightarrow> length p \<le> length k)"

lemma long_keysD: "long_keys p kv \<Longrightarrow> (k, v) \<in> set kv \<Longrightarrow> below_bound p k \<Longrightarrow> length p \<le> length k"
  by (auto simp: long_keys_def)

lemma starts_with_length: "starts_with p k \<Longrightarrow> length p \<le> length k"
  by (metis length_take min.cobounded1 min.commute starts_with_def)

text \<open>Above a prefix of \<open>0xff\<close> bytes there is no shorter key.\<close>

lemma ff_not_below:
  assumes "increment_byte_string p = None" and "length k < length p"
  shows "\<not> p \<le> k"
proof -
  have "p = replicate (length p) 255" using assms(1) by (simp add: increment_byte_string_None replicate_eqI)
  moreover have "k < replicate n 255" if "length k < n" for n
    using that
  proof (induction k arbitrary: n)
    case Nil
    then show ?case by (cases n) simp_all
  next
    case (Cons x k)
    then obtain m where m: "n = Suc m" "length k < m" by (cases n) auto
    have "unat x < 256" by (rule unat_byte_lt)
    then have "unat x \<le> 255" by arith
    then have "x \<le> 255" by (simp add: word_le_nat_alt)
    then show ?case using Cons.IH [OF m(2)] by (auto simp: m(1) order_le_less)
  qed
  ultimately show ?thesis using assms(2) by (metis linorder_not_less)
qed

lemma short_gap:
  fixes k q :: bytes
  assumes "length k \<le> length q" and "q @ xs \<le> k" and "xs \<noteq> []"
  shows "\<not> k < q @ ys"
  using assms
proof (induction q arbitrary: k)
  case Nil
  then show ?case by (cases xs) auto
next
  case (Cons a q)
  obtain b ks where k: "k = b # ks" using Cons.prems(2) by (cases k) simp_all
  have "a < b \<or> a = b \<and> q @ xs \<le> ks" using Cons.prems(2) by (simp only: k append_Cons Cons_le_Cons)
  moreover have "length ks \<le> length q" using Cons.prems(1) by (simp add: k)
  ultimately show ?case using Cons.IH [of ks] assms(3) by (auto simp: k)
qed

lemma short_below_bound:
  assumes "below_bound p k" and "length k < length p"
  shows "p \<noteq> [] \<and> last p = 255"
proof (rule ccontr)
  assume no: "\<not> (p \<noteq> [] \<and> last p = 255)"
  have p: "p \<noteq> []" using assms(2) by auto
  define q x where "q = butlast p" and "x = last p"
  have qx: "p = q @ [x]" "x \<noteq> 255" using no p by (simp_all add: q_def x_def)
  have inc: "increment_byte_string p = Some (q @ [x + 1])"
    using increment_byte_string_split [of x q 0] qx by (simp add: zero_bytes_def)
  have "p \<le> k" "k < q @ [x + 1]" using assms(1) by (simp_all add: below_bound_def inc)
  then have k: "q @ [x] \<le> k" "k < q @ [x + 1]" by (simp_all only: qx(1))
  have "length k \<le> length q" using assms(2) by (simp add: qx(1))
  with k short_gap [of k q "[x]"] show False by simp
qed

lemma long_keys_plain: "p = [] \<or> last p \<noteq> 255 \<Longrightarrow> long_keys p kv"
  unfolding long_keys_def using short_below_bound [of p] by (fastforce simp: linorder_not_le [symmetric])

lemma starts_with_range:
  assumes "long_keys p kv" and "(k, v) \<in> set kv"
  shows "starts_with p k \<longleftrightarrow> p \<le> k \<and> (case increment_byte_string p of None \<Rightarrow> True | Some b \<Rightarrow> k < b)"
  using long_keysD [OF assms] starts_with_iff_bound [of p _ k] starts_with_iff_ff [of p k] starts_with_length [of p k]
  by (cases "increment_byte_string p") (auto simp: below_bound_def dest: starts_with_le)

section \<open>The engines implement the contract\<close>

lemma ball_take: "(\<And>i. i < n \<Longrightarrow> P (xs ! i)) \<Longrightarrow> \<forall>e \<in> set (take n xs). P e"
  by (auto simp: in_set_conv_nth)

lemma ball_drop: "(\<And>i. n \<le> i \<Longrightarrow> i < length xs \<Longrightarrow> P (xs ! i)) \<Longrightarrow> \<forall>e \<in> set (drop n xs). P e"
  by (auto simp: in_set_conv_nth)

lemma scan_seek:
  "effective_seek p (Some s) = Some s \<Longrightarrow>
   scan kv p reverse (Some s) = filter (\<lambda>e. if reverse then fst e \<le> s else s \<le> fst e) (scan kv p reverse None)"
  by (auto simp: scan_def effective_seek_def in_page_def Let_def rev_filter split_beta intro!: filter_cong
      split: if_splits)

text \<open>An engine is an ordered store when its iterator is \<^const>\<open>scan\<close>.\<close>

locale ordered_store =
  fixes iter :: "kv \<Rightarrow> bytes \<Rightarrow> bool \<Rightarrow> bytes option \<Rightarrow> kv"
  assumes iter_scan: "kv_ok kv \<Longrightarrow> long_keys p kv \<Longrightarrow> iter kv p reverse seek = scan kv p reverse seek"
begin

lemma iter_mem:
  "kv_ok kv \<Longrightarrow> long_keys p kv \<Longrightarrow>
     (k, v) \<in> set (iter kv p reverse None) \<longleftrightarrow> starts_with p k \<and> kv_get kv k = Some v"
  using kv_iter_mem [of kv k v p reverse] by (simp add: iter_scan kv_iter_def)

lemma iter_sorted:
  "kv_ok kv \<Longrightarrow> long_keys p kv \<Longrightarrow>
     sorted_wrt (\<lambda>x y. if reverse then fst y < fst x else fst x < fst y) (iter kv p reverse seek)"
  by (auto simp: iter_scan scan_def Let_def kv_ok_def sorted_wrt_map sorted_wrt_filter sorted_wrt_rev)

text \<open>Resuming at the key of an entry that has not been served yet yields the rest of the scan.\<close>

lemma resume:
  assumes "kv_ok kv" and "long_keys p kv" and "n < length (iter kv p reverse None)"
    and "fst (iter kv p reverse None ! n) \<noteq> []"
  shows "iter kv p reverse (Some (fst (iter kv p reverse None ! n))) = drop n (iter kv p reverse None)"
proof -
  let ?xs = "iter kv p reverse None" and ?s = "fst (iter kv p reverse None ! n)"
  let ?lt = "\<lambda>x y :: bytes \<times> bytes. if reverse then fst y < fst x else fst x < fst y"
  let ?P = "\<lambda>e :: bytes \<times> bytes. if reverse then fst e \<le> ?s else ?s \<le> fst e"
  have sorted: "sorted_wrt ?lt ?xs" using assms(1,2) by (rule iter_sorted)
  have "?xs ! n \<in> set ?xs" using assms(3) by simp
  then have "starts_with p ?s"
    using assms(1,2) by (auto simp: iter_scan scan_def Let_def split: if_splits)
  then have eff: "effective_seek p (Some ?s) = Some ?s"
    using assms(4) by (simp add: effective_seek_def starts_with_le)
  have "iter kv p reverse (Some ?s) = filter ?P ?xs"
    using scan_seek [OF eff, of kv reverse] by (simp only: iter_scan [OF assms(1,2)])
  also have "\<dots> = filter ?P (take n ?xs) @ filter ?P (drop n ?xs)"
    by (metis append_take_drop_id filter_append)
  also have "filter ?P (take n ?xs) = []"
  proof -
    have "\<not> ?P (?xs ! i)" if "i < n" for i
      using sorted_wrt_nth_less [OF sorted that assms(3)] by (auto split: if_splits)
    then have "\<forall>e \<in> set (take n ?xs). \<not> ?P e" by (rule ball_take)
    then show ?thesis by (simp only: filter_empty_conv)
  qed
  also have "filter ?P (drop n ?xs) = drop n ?xs"
  proof -
    have "?P (?xs ! i)" if "n \<le> i" "i < length ?xs" for i
      using sorted_wrt_nth_less [OF sorted, of n i] that by (cases "n = i") (auto split: if_splits)
    then have "\<forall>e \<in> set (drop n ?xs). ?P e" by (rule ball_drop)
    then show ?thesis by (simp only: filter_id_conv)
  qed
  finally show ?thesis by simp
qed

end

text \<open>What \<open>plyvel\<close> documents of its iterator: the entries of \<open>[start, stop)\<close>, or
  \<open>[start, stop]\<close> with \<open>include_stop\<close>, in key order or reversed.\<close>

definition in_range :: "bytes option \<Rightarrow> bytes option \<Rightarrow> bool \<Rightarrow> bytes \<Rightarrow> bool" where
  "in_range start stop include_stop k \<longleftrightarrow>
     (case start of None \<Rightarrow> True | Some s \<Rightarrow> s \<le> k)
     \<and> (case stop of None \<Rightarrow> True | Some b \<Rightarrow> if include_stop then k \<le> b else k < b)"

definition plyvel_ok :: "plyvel_iterator \<Rightarrow> bool" where
  "plyvel_ok db_iterator \<longleftrightarrow> (\<forall>kv start stop include_stop reverse.
     db_iterator kv start stop include_stop reverse =
       (let hits = filter (\<lambda>(k, _). in_range start stop include_stop k) kv in if reverse then rev hits else hits))"

locale plyvel =
  fixes db_iterator :: plyvel_iterator
  assumes documented: "plyvel_ok db_iterator"
begin

lemma db_iterator_range: "db_iterator kv start stop include_stop reverse =
    (let hits = filter (\<lambda>(k, _). in_range start stop include_stop k) kv in if reverse then rev hits else hits)"
  using documented unfolding plyvel_ok_def by blast

lemma leveldb_scan:
  assumes "long_keys p kv"
  shows "leveldb_iterator db_iterator kv p reverse seek = scan kv p reverse seek"
proof -
  let ?b = "increment_byte_string p" and ?hits = "\<lambda>P. (let hits = filter (\<lambda>(k, _). P k) kv in if reverse then rev hits else hits)"
  have stop: "(if p \<noteq> [] then ?b else None) = ?b" by (simp add: increment_byte_string_def)
  have bnz: "(case ?b of Some b \<Rightarrow> if b \<noteq> [] then Some b else None | None \<Rightarrow> None) = ?b"
    using not_starts_with_bound(1) [of p] by (simp split: option.split)
  have nil: "in_range (if x \<noteq> [] then Some x else None) b i k = in_range (Some x) b i k" for x b i k
    by (simp add: in_range_def)
  have base: "starts_with p k \<longleftrightarrow> in_range (Some p) ?b False k" if "(k, v) \<in> set kv" for k v
    using starts_with_range [OF assms that] by (simp add: in_range_def split: option.split)
  have hits: "?hits P = ?hits Q" if "\<And>k v. (k, v) \<in> set kv \<Longrightarrow> P k = Q k" for P Q
  proof -
    have "filter (\<lambda>(k, _). P k) kv = filter (\<lambda>(k, _). Q k) kv" using that by (intro filter_cong) auto
    then show ?thesis by simp
  qed
  show ?thesis
  proof (cases "effective_seek p seek")
    case None
    then have "leveldb_iterator db_iterator kv p reverse seek = ?hits (in_range (Some p) ?b False)"
      unfolding leveldb_iterator_def stop Let_def
      by (auto simp: effective_seek_def db_iterator_range bnz nil split: option.splits if_splits)
    also have "\<dots> = ?hits (\<lambda>k. starts_with p k \<and> in_page reverse None k)"
      by (rule hits) (simp add: base in_page_def)
    finally show ?thesis by (simp only: scan_def None)
  next
    case (Some s)
    then have s: "seek = Some s" "s \<noteq> []" "p \<le> s" by (auto simp: effective_seek_def split: option.splits if_splits)
    show ?thesis
    proof (cases "reverse \<and> (?b = None \<or> s < the ?b)")
      case True
      then have "leveldb_iterator db_iterator kv p reverse seek = ?hits (in_range (Some p) (Some s) True)"
        unfolding leveldb_iterator_def stop using s by (simp add: db_iterator_range nil)
      also have "\<dots> = ?hits (\<lambda>k. starts_with p k \<and> in_page reverse (Some s) k)"
        by (rule hits) (use True in \<open>auto simp: base in_page_def in_range_def split: option.split\<close>)
      finally show ?thesis by (simp only: scan_def Some)
    next
      case False
      let ?start = "if reverse then p else s"
      have "leveldb_iterator db_iterator kv p reverse seek = ?hits (in_range (Some ?start) ?b False)"
        using s False by (auto simp: leveldb_iterator_def stop Let_def db_iterator_range nil bnz)
      also have "\<dots> = ?hits (\<lambda>k. starts_with p k \<and> in_page reverse (Some s) k)"
        by (rule hits) (use False s in \<open>auto simp: base in_page_def in_range_def split: option.splits\<close>)
      finally show ?thesis by (simp only: scan_def Some)
    qed
  qed
qed

end

lemma takeWhile_sorted:
  assumes "sorted_wrt R xs" and "\<And>x y. x \<in> set xs \<Longrightarrow> R x y \<Longrightarrow> P y \<Longrightarrow> P x"
  shows "takeWhile P xs = filter P xs"
  using assms
proof (induction xs)
  case Nil
  then show ?case by simp
next
  case (Cons x xs)
  show ?case
  proof (cases "P x")
    case True
    with Cons show ?thesis by auto
  next
    case False
    with Cons.prems have "filter P xs = []" by (auto simp: filter_empty_conv)
    with False show ?thesis by simp
  qed
qed

text \<open>What \<open>python-rocksdb\<close> documents of its cursors. \<open>Seek\<close> on the reversed iterator still
  lands on the first key at or above the target; only the direction of the steps is reversed.\<close>

definition rocksdb_ok :: "rocksdb \<Rightarrow> bool" where
  "rocksdb_ok db \<longleftrightarrow> (\<forall>kv t.
     seek_fwd db kv t = filter (\<lambda>(k, _). t \<le> k) kv
     \<and> seek_rev db kv t = (case filter (\<lambda>(k, _). t \<le> k) kv of [] \<Rightarrow> []
         | (k0, _) # _ \<Rightarrow> rev (filter (\<lambda>(k, _). k \<le> k0) kv))
     \<and> seek_to_last db kv = rev kv
     \<and> (case seek_for_prev db of None \<Rightarrow> True
        | Some sfp \<Rightarrow> sfp kv t = rev (filter (\<lambda>(k, _). k \<le> t) kv)))"

locale rocksdb_cursors =
  fixes db :: rocksdb
  assumes documented: "rocksdb_ok db"
begin

lemma seek_fwd_spec: "seek_fwd db kv t = filter (\<lambda>(k, _). t \<le> k) kv"
  and seek_rev_spec: "seek_rev db kv t = (case filter (\<lambda>(k, _). t \<le> k) kv of [] \<Rightarrow> []
      | (k0, _) # _ \<Rightarrow> rev (filter (\<lambda>(k, _). k \<le> k0) kv))"
  and seek_to_last_spec: "seek_to_last db kv = rev kv"
  and seek_for_prev_spec: "seek_for_prev db = Some sfp \<Longrightarrow> sfp kv t = rev (filter (\<lambda>(k, _). k \<le> t) kv)"
  using documented [unfolded rocksdb_ok_def, rule_format, of kv t] by (simp_all split: option.splits)

lemma filter_cut:
  assumes "kv = pre @ (k0, v0) # post" and "\<forall>x \<in> set pre. P (fst x)" and "\<forall>x \<in> set post. \<not> P (fst x)"
  shows "filter (\<lambda>(k, _). P k) kv = pre @ (if P k0 then [(k0, v0)] else [])"
proof -
  have "filter (\<lambda>(k, _). P k) pre = pre" using assms(2) by (simp add: split_beta)
  moreover have "filter (\<lambda>(k, _). P k) post = []" using assms(3) by (simp add: split_beta)
  ultimately show ?thesis by (simp add: assms(1))
qed

lemma seek_rev_cases:
  assumes "kv_ok kv"
  shows "(seek_rev db kv t = [] \<and> filter (\<lambda>(k, _). k < t) kv = kv)
    \<or> (\<exists>k0 v0. seek_rev db kv t = (k0, v0) # rev (filter (\<lambda>(k, _). k < t) kv) \<and> t \<le> k0
         \<and> (k0 = t \<longrightarrow> seek_rev db kv t = rev (filter (\<lambda>(k, _). k \<le> t) kv))
         \<and> (k0 \<noteq> t \<longrightarrow> filter (\<lambda>(k, _). k < t) kv = filter (\<lambda>(k, _). k \<le> t) kv))"
proof (cases "filter (\<lambda>(k, _). t \<le> k) kv")
  case Nil
  then have "\<forall>e \<in> set kv. (\<lambda>(k, _). k < t) e" by (auto simp: filter_empty_conv)
  then have "filter (\<lambda>(k, _). k < t) kv = kv" by (simp only: filter_id_conv)
  with Nil show ?thesis by (simp add: seek_rev_spec)
next
  case (Cons e rest)
  obtain k0 v0 where e: "e = (k0, v0)" by (cases e)
  have "\<exists>pre post. kv = pre @ (k0, v0) # post \<and> (\<forall>x \<in> set pre. \<not> t \<le> fst x)"
    using Cons e by (auto simp: filter_eq_Cons_iff split_beta)
  then obtain pre post where kv: "kv = pre @ (k0, v0) # post" and pre: "\<forall>x \<in> set pre. fst x < t"
    by (auto simp: linorder_not_le)
  have t: "t \<le> k0" using Cons e by (auto simp: filter_eq_Cons_iff)
  have post: "\<forall>x \<in> set post. k0 < fst x" and pre0: "\<forall>x \<in> set pre. fst x < k0"
    using assms by (auto simp: kv_ok_def kv sorted_wrt_append)
  have a: "filter (\<lambda>(k, _). k \<le> k0) kv = pre @ [(k0, v0)]"
    using filter_cut [OF kv, of "\<lambda>k. k \<le> k0"] pre0 post by (simp add: less_imp_le linorder_not_le)
  have b: "filter (\<lambda>(k, _). k < t) kv = pre"
  proof -
    have "\<forall>x \<in> set post. \<not> fst x < t" using post t by fastforce
    with filter_cut [OF kv, of "\<lambda>k. k < t"] pre t show ?thesis by simp
  qed
  have c: "filter (\<lambda>(k, _). k \<le> t) kv = pre" if "k0 \<noteq> t"
  proof -
    have "\<forall>x \<in> set post. \<not> fst x \<le> t" using post t by fastforce
    moreover have "\<not> k0 \<le> t" using t that by simp
    moreover have "\<forall>x \<in> set pre. fst x \<le> t" using pre by (simp add: less_imp_le)
    ultimately show ?thesis using filter_cut [OF kv, of "\<lambda>k. k \<le> t"] by simp
  qed
  have "seek_rev db kv t = (k0, v0) # rev pre" by (simp add: seek_rev_spec Cons e a)
  with b c t a show ?thesis by auto
qed

lemma park_at_or_below_spec:
  "kv_ok kv \<Longrightarrow> park_at_or_below db kv t = rev (filter (\<lambda>(k, _). k \<le> t) kv)"
proof (cases "seek_for_prev db")
  case None
  assume "kv_ok kv"
  then show ?thesis
  proof (rule seek_rev_cases [THEN disjE, of _ t])
    assume a: "seek_rev db kv t = [] \<and> filter (\<lambda>(k, _). k < t) kv = kv"
    then have "\<forall>e \<in> set kv. (\<lambda>(k, _). k < t) e" unfolding filter_id_conv by blast
    then have "\<forall>e \<in> set kv. (\<lambda>(k, _). k \<le> t) e" by auto
    then have "filter (\<lambda>(k, _). k \<le> t) kv = kv" unfolding filter_id_conv .
    with None a show ?thesis by (simp add: park_at_or_below_def seek_to_last_spec)
  qed (use None in \<open>auto simp: park_at_or_below_def\<close>)
qed (simp add: park_at_or_below_def seek_for_prev_spec)

lemma park_below_spec:
  "kv_ok kv \<Longrightarrow> park_below db kv b = rev (filter (\<lambda>(k, _). k < b) kv)"
proof (cases "seek_for_prev db")
  case None
  assume "kv_ok kv"
  then show ?thesis
    by (rule seek_rev_cases [THEN disjE, of _ b])
      (use None in \<open>auto simp: park_below_def seek_to_last_spec\<close>)
next
  case (Some sfp)
  assume ok: "kv_ok kv"
  show ?thesis
  proof (cases "kv_get kv b")
    case None
    then have "\<forall>e \<in> set kv. fst e \<noteq> b" by (auto simp: kv_get_def map_of_eq_None_iff)
    then have eq: "filter (\<lambda>(k, _). k \<le> b) kv = filter (\<lambda>(k, _). k < b) kv"
      by (intro filter_cong) (auto simp: order_le_less)
    show ?thesis
    proof (cases "rev (filter (\<lambda>(k, _). k < b) kv)")
      case Nil
      with Some eq show ?thesis by (simp add: park_below_def seek_for_prev_spec)
    next
      case (Cons e rest)
      obtain k v where e: "e = (k, v)" by (cases e)
      have kb: "k < b" using Cons e by (metis (mono_tags, lifting) case_prod_conv list.set_intros(1) mem_Collect_eq set_filter set_rev)
      have sorted: "sorted_wrt (\<lambda>x y. fst y < fst x) (rev (filter (\<lambda>(k, _). k < b) kv))"
        using ok by (simp add: kv_ok_def sorted_wrt_map sorted_wrt_filter sorted_wrt_rev)
      have "x \<le> k" if "(x, y) \<in> set kv" "x < b" for x y
      proof -
        have "(x, y) \<in> set (rev (filter (\<lambda>(k, _). k < b) kv))" using that by simp
        with sorted show ?thesis unfolding Cons e by auto
      qed
      then have "filter (\<lambda>(x, _). x \<le> k) kv = filter (\<lambda>(x, _). x < b) kv"
        using kb by (intro filter_cong) auto
      with Some eq Cons e kb show ?thesis by (simp add: park_below_def seek_for_prev_spec)
    qed
  next
    case (Some v)
    then have mem: "(b, v) \<in> set kv" using ok by (simp add: kv_get_mem)
    obtain pre post where kv: "kv = pre @ (b, v) # post" using mem by (auto simp: in_set_conv_decomp)
    have post: "\<forall>x \<in> set post. b < fst x" and pre: "\<forall>x \<in> set pre. fst x < b"
      using ok by (auto simp: kv_ok_def kv sorted_wrt_append)
    have "filter (\<lambda>(k, _). k \<le> b) kv = pre @ [(b, v)]"
      using filter_cut [OF kv, of "\<lambda>k. k \<le> b"] pre post by (simp add: less_imp_le linorder_not_le)
    moreover have "filter (\<lambda>(k, _). k < b) kv = pre"
    proof -
      have "\<forall>x \<in> set post. \<not> fst x < b" using post by fastforce
      with filter_cut [OF kv, of "\<lambda>k. k < b"] pre show ?thesis by simp
    qed
    ultimately show ?thesis using \<open>seek_for_prev db = Some sfp\<close> by (simp add: park_below_def seek_for_prev_spec)
  qed
qed

lemma rocksdb_scan:
  assumes "kv_ok kv" and "long_keys p kv"
  shows "rocksdb_iterator db kv p reverse seek = scan kv p reverse seek"
proof -
  let ?P = "\<lambda>(k, _). starts_with p k" and ?b = "increment_byte_string p"
  have sorted: "sorted_wrt (\<lambda>x y. fst x < fst y) (filter Q kv)" for Q
    using assms(1) by (simp add: kv_ok_def sorted_wrt_map sorted_wrt_filter)
  have up: "takeWhile ?P (filter (\<lambda>(k, _). t \<le> k) kv) = filter ?P (filter (\<lambda>(k, _). t \<le> k) kv)" if "p \<le> t" for t
    using sorted [of "\<lambda>(k, _). t \<le> k"]
  proof (rule takeWhile_sorted)
    fix x y
    assume "x \<in> set (filter (\<lambda>(k, _). t \<le> k) kv)" "fst x < fst y" "?P y"
    then have "p \<le> fst x" "starts_with p (fst y)" using that by (auto simp: split_beta)
    then show "?P x" using starts_with_between [of p p "fst y" "fst x"] \<open>fst x < fst y\<close>
      by (simp add: starts_with_def split_beta)
  qed
  have down: "takeWhile ?P (rev (filter Q kv)) = filter ?P (rev (filter Q kv))"
    if "\<And>k v. (k, v) \<in> set kv \<Longrightarrow> Q (k, v) \<Longrightarrow> p \<le> k \<Longrightarrow> starts_with p k" for Q
  proof -
    have "sorted_wrt (\<lambda>x y. fst y < fst x) (rev (filter Q kv))" using sorted [of Q] by (simp add: sorted_wrt_rev)
    then show ?thesis
    proof (rule takeWhile_sorted)
      fix x y
      assume x: "x \<in> set (rev (filter Q kv))" and "fst y < fst x" and y: "?P y"
      then have "p \<le> fst x" using starts_with_le [of p "fst y"] by (auto simp: split_beta)
      then show "?P x" using x that [of "fst x" "snd x"] by (simp add: split_beta)
    qed
  qed
  have range: "starts_with p k \<longleftrightarrow> p \<le> k \<and> (case ?b of None \<Rightarrow> True | Some b \<Rightarrow> k < b)"
    if "(k, v) \<in> set kv" for k v
    using starts_with_range [OF assms(2) that] .
  have hits: "filter ?P (filter Q kv) = filter (\<lambda>(k, _). starts_with p k \<and> in_page reverse (effective_seek p seek) k) kv"
    if "\<And>k v. (k, v) \<in> set kv \<Longrightarrow> starts_with p k \<Longrightarrow> Q (k, v) \<longleftrightarrow> in_page reverse (effective_seek p seek) k" for Q
    using that by (auto simp: filter_filter intro!: filter_cong)
  have fin: "rocksdb_iterator db kv p reverse seek = scan kv p reverse seek"
    if "reverse" "rocksdb_start db kv p reverse seek = rev (filter Q kv)"
      "\<And>k v. (k, v) \<in> set kv \<Longrightarrow> Q (k, v) \<Longrightarrow> p \<le> k \<Longrightarrow> starts_with p k"
      "\<And>k v. (k, v) \<in> set kv \<Longrightarrow> starts_with p k \<Longrightarrow> Q (k, v) \<longleftrightarrow> in_page reverse (effective_seek p seek) k" for Q
  proof -
    have "rocksdb_iterator db kv p reverse seek = takeWhile ?P (rev (filter Q kv))"
      by (simp only: rocksdb_iterator_def that(2))
    also have "\<dots> = filter ?P (rev (filter Q kv))" by (rule down) (rule that(3))
    also have "\<dots> = rev (filter ?P (filter Q kv))" by (simp only: rev_filter)
    also have "filter ?P (filter Q kv) = filter (\<lambda>(k, _). starts_with p k \<and> in_page reverse (effective_seek p seek) k) kv"
      by (rule hits) (rule that(4))
    finally show ?thesis using that(1) by (simp add: scan_def)
  qed
  show ?thesis
  proof (cases reverse)
    case False
    let ?t = "case seek of Some s \<Rightarrow> if s \<noteq> [] \<and> p \<le> s then s else p | None \<Rightarrow> p"
    have t: "p \<le> ?t" by (simp split: option.split)
    have "rocksdb_iterator db kv p reverse seek = filter ?P (filter (\<lambda>(k, _). ?t \<le> k) kv)"
      using False up [OF t] by (simp add: rocksdb_iterator_def rocksdb_start_def seek_fwd_spec)
    also have "\<dots> = filter (\<lambda>(k, _). starts_with p k \<and> in_page reverse (effective_seek p seek) k) kv"
      by (rule hits) (use False in \<open>auto simp: in_page_def effective_seek_def dest: starts_with_le split: option.split\<close>)
    finally show ?thesis using False by (simp add: scan_def)
  next
    case True
    note pa = park_at_or_below_spec [OF assms(1)] and pb = park_below_spec [OF assms(1)]
    show ?thesis
    proof (cases "\<exists>s. effective_seek p seek = Some s \<and> (?b = None \<or> s < the ?b)")
      case seek: True
      then obtain s where s: "effective_seek p seek = Some s" "?b = None \<or> s < the ?b" by blast
      then have "rocksdb_start db kv p reverse seek = rev (filter (\<lambda>(k, _). k \<le> s) kv)"
        using True by (auto simp: rocksdb_start_def effective_seek_def pa split: option.splits if_splits)
      from fin [OF True this] show ?thesis
        using s True range by (fastforce simp: in_page_def split: option.splits)
    next
      case noseek: False
      show ?thesis
      proof (cases ?b)
        case None
        with noseek have "effective_seek p seek = None" by (cases "effective_seek p seek") auto
        moreover from this None have "rocksdb_start db kv p reverse seek = rev (filter (\<lambda>_. True) kv)"
          using True by (auto simp: rocksdb_start_def effective_seek_def seek_to_last_spec split: option.splits if_splits)
        ultimately show ?thesis using fin [OF True, of "\<lambda>_. True"] True range None by (simp add: in_page_def)
      next
        case (Some b)
        then have "b \<noteq> []" by (rule not_starts_with_bound)
        with Some noseek have "rocksdb_start db kv p reverse seek = rev (filter (\<lambda>(k, _). k < b) kv)"
          using True by (auto simp: rocksdb_start_def effective_seek_def pb split: option.splits if_splits)
        from fin [OF True this] show ?thesis
          using noseek Some True range by (fastforce simp: in_page_def split: option.splits)
      qed
    qed
  qed
qed

end

sublocale plyvel \<subseteq> leveldb: ordered_store "leveldb_iterator db_iterator"
  by unfold_locales (rule leveldb_scan)

sublocale rocksdb_cursors \<subseteq> rocksdb: ordered_store "rocksdb_iterator db"
  by unfold_locales (rule rocksdb_scan)

text \<open>The documented iterators themselves, as executable instances.\<close>

definition plyvel_range :: plyvel_iterator where
  "plyvel_range kv start stop include_stop reverse =
     (let hits = filter (\<lambda>(k, _). in_range start stop include_stop k) kv in if reverse then rev hits else hits)"

definition rocksdb_instance :: "bool \<Rightarrow> rocksdb" where
  "rocksdb_instance has_seek_for_prev =
     \<lparr>seek_fwd = \<lambda>kv t. filter (\<lambda>(k, _). t \<le> k) kv,
      seek_rev = \<lambda>kv t. (case filter (\<lambda>(k, _). t \<le> k) kv of [] \<Rightarrow> []
        | (k0, _) # _ \<Rightarrow> rev (filter (\<lambda>(k, _). k \<le> k0) kv)),
      seek_to_last = rev,
      seek_for_prev = if has_seek_for_prev then Some (\<lambda>kv t. rev (filter (\<lambda>(k, _). k \<le> t) kv)) else None\<rparr>"

interpretation plyvel_range: plyvel plyvel_range
  by unfold_locales (simp add: plyvel_ok_def plyvel_range_def)

interpretation rocksdb_instance: rocksdb_cursors "rocksdb_instance b" for b
  by unfold_locales (simp add: rocksdb_ok_def rocksdb_instance_def)

text \<open>C25: Both storage engines implement the iterator contract: the LevelDB and the RocksDB iterator (with
  or without \<open>seek_for_prev\<close>) yield the same entries in the same order, exactly those with the prefix,
  cut at the resume key in the direction of the scan. This holds over any sorted store when the prefix
  does not end in \<open>0xff\<close>, and otherwise when no stored key between the prefix and its successor is
  shorter than the prefix.\<close>

theorem engines_implement_scan:
  assumes "plyvel_ok pl" and "rocksdb_ok db" and "kv_ok kv" and "p = [] \<or> last p \<noteq> 255 \<or> long_keys p kv"
  shows "leveldb_iterator pl kv p reverse seek = scan kv p reverse seek
    \<and> rocksdb_iterator db kv p reverse seek = scan kv p reverse seek"
proof -
  have "long_keys p kv" using assms(4) long_keys_plain by blast
  then show ?thesis
    using plyvel.leveldb_scan [OF plyvel.intro [OF assms(1)]]
      rocksdb_cursors.rocksdb_scan [OF rocksdb_cursors.intro [OF assms(2)] assms(3)] by blast
qed

definition sample_kv :: kv where
  "sample_kv = [([97, 1], [1]), ([97, 2], [2]), ([97, 255], [3]), ([98, 0], [4])]"

lemma sample_kv_ok: "kv_ok sample_kv" "long_keys [97] sample_kv"
  by (simp_all add: kv_ok_def long_keys_plain sample_kv_def)

theorem engines_implement_scan_witness:
  "leveldb_iterator plyvel_range sample_kv [97] True (Some [97, 2]) = scan sample_kv [97] True (Some [97, 2])
    \<and> rocksdb_iterator (rocksdb_instance False) sample_kv [97] True (Some [97, 2])
        = scan sample_kv [97] True (Some [97, 2])"
  by (rule engines_implement_scan [OF plyvel_range.documented rocksdb_instance.documented sample_kv_ok(1)]) simp

text \<open>Cursor pagination neither repeats nor skips an entry on either engine: resuming at the
  key of the first entry not yet served yields exactly the rest of the scan, in both directions.\<close>

theorem cursor_pages_tile:
  assumes "plyvel_ok pl" and "rocksdb_ok db" and "kv_ok kv" and "long_keys p kv"
    and "n < length (scan kv p reverse None)" and "cursor = fst (scan kv p reverse None ! n)" and "cursor \<noteq> []"
  shows "take n (leveldb_iterator pl kv p reverse None) @ leveldb_iterator pl kv p reverse (Some cursor)
      = leveldb_iterator pl kv p reverse None
    \<and> take n (rocksdb_iterator db kv p reverse None) @ rocksdb_iterator db kv p reverse (Some cursor)
      = rocksdb_iterator db kv p reverse None"
proof -
  have scan: "leveldb_iterator pl kv p reverse seek = scan kv p reverse seek"
    "rocksdb_iterator db kv p reverse seek = scan kv p reverse seek" for seek
    using plyvel.leveldb_scan [OF plyvel.intro [OF assms(1)] assms(4)]
      rocksdb_cursors.rocksdb_scan [OF rocksdb_cursors.intro [OF assms(2)] assms(3,4)] by blast+
  have "ordered_store (rocksdb_iterator db)"
    by (rule ordered_store.intro) (rule rocksdb_cursors.rocksdb_scan [OF rocksdb_cursors.intro [OF assms(2)]])
  note resume = ordered_store.resume [OF this assms(3,4), of n reverse]
  have "scan kv p reverse (Some cursor) = drop n (scan kv p reverse None)"
    unfolding assms(6) by (rule resume [unfolded scan, OF assms(5) assms(7) [unfolded assms(6)]])
  then show ?thesis by (simp only: scan append_take_drop_id simp_thms)
qed

theorem cursor_pages_tile_witness:
  "take 1 (leveldb_iterator plyvel_range sample_kv [97] True None)
      @ leveldb_iterator plyvel_range sample_kv [97] True (Some [97, 2])
      = leveldb_iterator plyvel_range sample_kv [97] True None
    \<and> take 1 (rocksdb_iterator (rocksdb_instance True) sample_kv [97] True None)
      @ rocksdb_iterator (rocksdb_instance True) sample_kv [97] True (Some [97, 2])
      = rocksdb_iterator (rocksdb_instance True) sample_kv [97] True None"
  by (rule cursor_pages_tile [OF plyvel_range.documented rocksdb_instance.documented sample_kv_ok])
    (code_simp, code_simp, simp)

text \<open>C38: The bound both engines compute for a prefix has the prefix's length. A stored key shorter than
  the prefix that lies below this bound and not below the prefix does not start with it, yet the
  LevelDB iterator yields it, in both directions, and a descending RocksDB scan parks on such a key and
  yields nothing at all, whatever matching entries the store holds.\<close>

theorem short_key_breaks_prefix_scan:
  assumes "plyvel_ok pl" and "rocksdb_ok db" and "kv_ok kv" and "(k, v) \<in> set kv"
    and "below_bound p k" and "length k < length p"
  shows "\<not> starts_with p k \<and> (k, v) \<in> set (leveldb_iterator pl kv p reverse None)
    \<and> rocksdb_iterator db kv p True None = []"
proof -
  have no: "\<not> starts_with p k" using starts_with_length [of p k] assms(6) by auto
  obtain b where b: "increment_byte_string p = Some b"
    using assms(5,6) ff_not_below [of p k] by (cases "increment_byte_string p") (auto simp: below_bound_def)
  have k: "p \<le> k" "k < b" using assms(5) by (simp_all add: below_bound_def b)
  have p: "p \<noteq> []" "b \<noteq> []" using assms(6) not_starts_with_bound(1) [OF b] by auto
  have "(k, v) \<in> set (leveldb_iterator pl kv p reverse None)"
    using assms(1,4) k p by (simp add: leveldb_iterator_def b plyvel_ok_def in_range_def Let_def)
  moreover have "rocksdb_iterator db kv p True None = []"
  proof -
    have start: "rocksdb_start db kv p True None = rev (filter (\<lambda>(k, _). k < b) kv)"
      using rocksdb_cursors.park_below_spec [OF rocksdb_cursors.intro [OF assms(2)] assms(3), of b] p(2)
      by (simp add: rocksdb_start_def b)
    have mem: "(k, v) \<in> set (rev (filter (\<lambda>(k, _). k < b) kv))" using assms(4) k(2) by simp
    then obtain m w rest where m: "rev (filter (\<lambda>(k, _). k < b) kv) = (m, w) # rest"
      by (cases "rev (filter (\<lambda>(k, _). k < b) kv)") auto
    have "sorted_wrt (\<lambda>x y. fst y < fst x) (rev (filter (\<lambda>(k, _). k < b) kv))"
      using assms(3) by (simp add: kv_ok_def sorted_wrt_map sorted_wrt_filter sorted_wrt_rev)
    then have "k \<le> m" using mem unfolding m by auto
    then have "\<not> starts_with p m" using no starts_with_between [of p p m k] k(1) by (auto simp: starts_with_def)
    then show ?thesis by (simp add: rocksdb_iterator_def start m)
  qed
  ultimately show ?thesis using no by blast
qed

theorem short_key_breaks_prefix_scan_witness:
  "\<not> starts_with [97, 255] [98] \<and> ([98], [2]) \<in> set (leveldb_iterator plyvel_range [([97, 255, 1], [1]), ([98], [2])] [97, 255] False None)
    \<and> rocksdb_iterator (rocksdb_instance True) [([97, 255, 1], [1]), ([98], [2])] [97, 255] True None = []"
proof (rule short_key_breaks_prefix_scan [OF plyvel_range.documented rocksdb_instance.documented])
  have "increment_byte_string [97, 255] = Some [98, 0]"
    using increment_byte_string_split [of 97 "[]" 1] by (simp add: zero_bytes_def)
  then show "below_bound [97, 255] [98]" by (simp add: below_bound_def)
qed (simp_all add: kv_ok_def)

end
