(* ===== verification/Literal.thy ===== *)
theory Literal
  imports Prelude
begin

text \<open>
  The text a state dictionary is stored as: \<open>repr(state).encode()\<close> when a database writes its
  state and \<open>ast.literal_eval(data.decode())\<close> when it reads it back. Modelled for what the
  history database stores, dictionaries from strings to integers; \<open>literal_eval\<close> raises
  \<open>ValueError\<close> on any other text.
\<close>

section \<open>repr\<close>

datatype literal = IntL int | DictL "(string, int) dict"

fun digits :: "nat \<Rightarrow> string" where
  "digits n = (if n < 10 then [char_of (48 + n)] else digits (n div 10) @ [char_of (48 + n mod 10)])"

declare digits.simps [simp del]

definition repr_int :: "int \<Rightarrow> string" where
  "repr_int i = (if i < 0 then CHR ''-'' # digits (nat (- i)) else digits (nat i))"

definition quote :: char where
  "quote = char_of (39::nat)"

definition repr_item :: "string \<times> int \<Rightarrow> string" where
  "repr_item e = quote # fst e @ quote # CHR '':'' # CHR '' '' # repr_int (snd e)"

fun repr_items :: "(string \<times> int) list \<Rightarrow> string" where
  "repr_items [] = ''}''"
| "repr_items [e] = repr_item e @ ''}''"
| "repr_items (e # es) = repr_item e @ '', '' @ repr_items es"

definition repr_dict :: "(string, int) dict \<Rightarrow> string" where
  "repr_dict d = CHR ''{'' # repr_items d"

definition encode :: "string \<Rightarrow> bytes" where
  "encode s = map (\<lambda>c. of_nat (of_char c)) s"

definition decode :: "bytes \<Rightarrow> string" where
  "decode b = map (\<lambda>x. char_of (unat x)) b"

section \<open>literal_eval\<close>

definition is_digit :: "char \<Rightarrow> bool" where
  "is_digit c \<longleftrightarrow> 48 \<le> (of_char c :: nat) \<and> of_char c \<le> (57 :: nat)"

definition digits_val :: "string \<Rightarrow> nat" where
  "digits_val s = foldl (\<lambda>a c. 10 * a + (of_char c - 48)) 0 s"

definition parse_nat :: "string \<Rightarrow> (nat \<times> string) option" where
  "parse_nat s = (let d = takeWhile is_digit s in if d = [] then None else Some (digits_val d, drop (length d) s))"

definition parse_int :: "string \<Rightarrow> (int \<times> string) option" where
  "parse_int s = (case s of
     CHR ''-'' # r \<Rightarrow> map_option (\<lambda>(n, r). (- int n, r)) (parse_nat r)
   | _ \<Rightarrow> map_option (\<lambda>(n, r). (int n, r)) (parse_nat s))"

definition parse_key :: "string \<Rightarrow> (string \<times> string) option" where
  "parse_key s = (case s of [] \<Rightarrow> None | q # r \<Rightarrow>
     if q \<noteq> quote then None
     else let k = takeWhile (\<lambda>c. c \<noteq> quote) r in
       (case drop (length k) r of
          _ # CHR '':'' # CHR '' '' # t \<Rightarrow> Some (k, t)
        | _ \<Rightarrow> None))"

text \<open>The items of a dictionary display, with fuel for the remaining text: every item consumes
  at least one character.\<close>

fun parse_items :: "nat \<Rightarrow> string \<Rightarrow> (string, int) dict \<Rightarrow> ((string, int) dict \<times> string) option" where
  "parse_items 0 s d = None"
| "parse_items (Suc fuel) s d =
     (case parse_key s of None \<Rightarrow> None
      | Some (k, r) \<Rightarrow>
        (case parse_int r of None \<Rightarrow> None
         | Some (v, r) \<Rightarrow>
           (case r of
              CHR ''}'' # t \<Rightarrow> Some (dict_set k v d, t)
            | CHR '','' # CHR '' '' # t \<Rightarrow> parse_items fuel t (dict_set k v d)
            | _ \<Rightarrow> None)))"

definition literal_eval :: "string \<Rightarrow> literal res" where
  "literal_eval s =
     (if s = ''{}'' then Inr (DictL [])
      else case s of
        CHR ''{'' # r \<Rightarrow>
          (case parse_items (length r) r [] of Some (d, []) \<Rightarrow> Inr (DictL d) | _ \<Rightarrow> Inl ValueError)
      | _ \<Rightarrow> (case parse_int s of Some (i, []) \<Rightarrow> Inr (IntL i) | _ \<Rightarrow> Inl ValueError))"

section \<open>Round trip\<close>

lemma decode_encode [simp]: "decode (encode s) = s"
  by (induction s) (simp_all add: decode_def encode_def)

lemma encode_eq_Nil [simp]: "encode s = [] \<longleftrightarrow> s = []"
  by (simp add: encode_def)

lemma digit_char: "n < (10::nat) \<Longrightarrow> is_digit (char_of (48 + n)) \<and> of_char (char_of (48 + n) :: char) - 48 = n"
  by (simp add: is_digit_def)

lemma digits_props: "digits n \<noteq> [] \<and> list_all is_digit (digits n) \<and> digits_val (digits n) = n"
proof (induction n rule: digits.induct)
  case (1 n)
  show ?case
  proof (cases "n < 10")
    case True
    then show ?thesis using digit_char [of n] by (simp add: digits.simps [of n] digits_val_def)
  next
    case False
    have "n mod 10 < 10" by simp
    from digit_char [OF this] 1 [OF False] False show ?thesis
      by (simp add: digits.simps [of n] digits_val_def)
  qed
qed

definition no_digit :: "string \<Rightarrow> bool" where
  "no_digit s \<longleftrightarrow> (case s of [] \<Rightarrow> True | c # _ \<Rightarrow> \<not> is_digit c)"

lemma parse_nat_digits: "no_digit r \<Longrightarrow> parse_nat (digits n @ r) = Some (n, r)"
proof -
  assume r: "no_digit r"
  have "takeWhile is_digit (digits n @ r) = digits n"
    using digits_props [of n] r by (auto simp: takeWhile_append list_all_iff no_digit_def split: list.splits)
  then show ?thesis using digits_props [of n] by (simp add: parse_nat_def)
qed

lemma parse_int_repr: "no_digit r \<Longrightarrow> parse_int (repr_int i @ r) = Some (i, r)"
proof (cases "i < 0")
  case True
  assume "no_digit r"
  with True show ?thesis by (simp add: repr_int_def parse_int_def parse_nat_digits)
next
  case False
  assume r: "no_digit r"
  obtain c cs where d: "digits (nat i) = c # cs" using digits_props [of "nat i"] by (cases "digits (nat i)") auto
  with digits_props [of "nat i"] have "is_digit c" by simp
  then have "c \<noteq> CHR ''-''" by (auto simp: is_digit_def)
  then have "parse_int (digits (nat i) @ r) = map_option (\<lambda>(n, r). (int n, r)) (parse_nat (digits (nat i) @ r))"
    by (auto simp: d parse_int_def split: list.splits char.splits bool.splits)
  with False r show ?thesis by (simp add: repr_int_def parse_nat_digits)
qed

lemma parse_key_repr: "quote \<notin> set k \<Longrightarrow> parse_key (repr_item (k, v) @ r) = Some (k, repr_int v @ r)"
proof -
  assume k: "quote \<notin> set k"
  then have "takeWhile (\<lambda>c. c \<noteq> quote) (k @ quote # t) = k" for t
    by (auto simp: takeWhile_append)
  then show ?thesis by (simp add: parse_key_def repr_item_def)
qed

lemma parse_items_repr:
  assumes "es \<noteq> []" and "\<forall>e \<in> set es. quote \<notin> set (fst e)" and "length es \<le> fuel"
  shows "parse_items fuel (repr_items es) d = Some (fold (\<lambda>(k, v). dict_set k v) es d, [])"
  using assms
proof (induction es arbitrary: fuel d rule: repr_items.induct)
  case 1
  then show ?case by simp
next
  case (2 e)
  obtain k v where e: "e = (k, v)" by (cases e)
  obtain f where "fuel = Suc f" using 2 by (cases fuel) auto
  moreover have "parse_int (repr_int v @ ''}'') = Some (v, ''}'')"
    by (rule parse_int_repr) (simp add: no_digit_def is_digit_def)
  ultimately show ?case using 2 by (simp add: e parse_key_repr)
next
  case (3 e e' es)
  obtain k v where e: "e = (k, v)" by (cases e)
  obtain f where f: "fuel = Suc f" using 3 by (cases fuel) auto
  have "parse_int (repr_int v @ '', '' @ repr_items (e' # es)) = Some (v, '', '' @ repr_items (e' # es))"
    by (rule parse_int_repr) (simp add: no_digit_def is_digit_def)
  with 3 f show ?case by (simp add: e parse_key_repr)
qed

lemma length_repr_items: "es \<noteq> [] \<Longrightarrow> length es \<le> length (repr_items es)"
  by (induction es rule: repr_items.induct) (auto simp: repr_item_def)

lemma fold_dict_set_new:
  "distinct (map fst es) \<Longrightarrow> set (map fst es) \<inter> set (dict_keys d) = {} \<Longrightarrow>
     fold (\<lambda>(k, v). dict_set k v) es d = d @ es"
proof (induction es arbitrary: d)
  case Nil
  then show ?case by simp
next
  case (Cons e es)
  obtain k v where e: "e = (k, v)" by (cases e)
  have "dict_set k v d = d @ [(k, v)]"
    using Cons.prems by (intro dict_set_new) (auto simp: e set_dict_keys)
  with Cons show ?case by (auto simp: e dict_keys_def)
qed

lemma literal_eval_repr:
  assumes "d \<noteq> []" and "dict_ok d" and "\<forall>e \<in> set d. quote \<notin> set (fst e)"
  shows "literal_eval (repr_dict d) = Inr (DictL d)"
proof -
  have "repr_items d \<noteq> ''}''" using assms(1) by (cases d rule: repr_items.cases) (auto simp: repr_item_def quote_def)
  moreover have "fold (\<lambda>(k, v). dict_set k v) d [] = d"
    using assms(2) fold_dict_set_new [of d "[]"] by (simp add: dict_ok_def dict_keys_def)
  ultimately show ?thesis
    using parse_items_repr [OF assms(1,3) length_repr_items [OF assms(1)], of "[]"]
    by (simp add: repr_dict_def literal_eval_def)
qed

end
