(* ===== verification/History.thy ===== *)
theory History
  imports Storage Hash Literal
begin

text \<open>
  \<open>electrumx/server/history.py\<close>: for every script hash the increasing list of the transactions
  that touch it, kept as 5-byte numbers in rows keyed by the script hash and the number of the
  flush that wrote them. The database is the ordered store of theory \<open>Storage\<close>, read through the
  iterator contract; an operation that raises returns the exception and its state is dropped.
\<close>

section \<open>State\<close>

record history =
  hist_db :: kv
  unflushed :: "(bytes, bytes) dict"
  unflushed_count :: nat
  flush_count :: int
  comp_flush_count :: int
  comp_cursor :: int
  hist_version :: int
  upgrade_cursor :: int
  max_hist_row_entries :: nat

definition DB_VERSIONS :: "int list" where
  "DB_VERSIONS = [0, 1, 2]"

definition init_history :: history where
  "init_history = \<lparr>hist_db = [], unflushed = [], unflushed_count = 0, flush_count = 0,
     comp_flush_count = -1, comp_cursor = -1, hist_version = Max (set DB_VERSIONS),
     upgrade_cursor = -1, max_hist_row_entries = 12500\<rparr>"

definition state_key :: bytes where
  "state_key = encode ''state'' @ [0, 0]"

definition write_state :: "history \<Rightarrow> batch_op list" where
  "write_state h = [Put state_key (encode (repr_dict
     [(''flush_count'', flush_count h), (''comp_flush_count'', comp_flush_count h),
      (''comp_cursor'', comp_cursor h), (''db_version'', hist_version h),
      (''upgrade_cursor'', upgrade_cursor h)]))]"

definition commit :: "history \<Rightarrow> batch_op list \<Rightarrow> history" where
  "commit h ops = h\<lparr>hist_db := apply_batch ops (hist_db h)\<rparr>"

section \<open>Opening the database\<close>

text \<open>One pass of the upgrade: every row whose key starts with the cursor gets a fifth byte per
  entry.\<close>

definition widen_row :: "bytes \<Rightarrow> bytes" where
  "widen_row hist = concat (map (\<lambda>item. item @ [0]) (chunks_list 4 hist))"

definition upgrade_at_cursor :: "history \<Rightarrow> int \<Rightarrow> history res" where
  "upgrade_at_cursor h cursor =
     rbind (pack_be_uint32 cursor) (\<lambda>prefix.
       let rows = filter (\<lambda>(key, hist). length key = HASHX_LEN + 4) (kv_iter (hist_db h) prefix False);
           puts = map (\<lambda>(key, hist). Put key (widen_row hist)) rows;
           h = h\<lparr>upgrade_cursor := cursor\<rparr>
       in Inr (commit h (puts @ write_state h)))"

definition upgrade_db :: "history \<Rightarrow> history res" where
  "upgrade_db h =
     rbind (foldM upgrade_at_cursor h [upgrade_cursor h + 1..4294967295]) (\<lambda>h.
       let h = h\<lparr>hist_version := Max (set DB_VERSIONS), upgrade_cursor := -1\<rparr>
       in Inr (commit h (write_state h)))"

text \<open>The fields of the state dictionary; \<open>state['flush_count']\<close> raises when it is missing.\<close>

definition load_state :: "history \<Rightarrow> (string, int) dict \<Rightarrow> history res" where
  "load_state h state =
     (case map_of state ''flush_count'' of
        None \<Rightarrow> Inl KeyError
      | Some n \<Rightarrow>
          let get = (\<lambda>k d. case map_of state k of Some v \<Rightarrow> v | None \<Rightarrow> d)
          in Inr (h\<lparr>flush_count := n, comp_flush_count := get ''comp_flush_count'' (-1),
               comp_cursor := get ''comp_cursor'' (-1), hist_version := get ''db_version'' 0,
               upgrade_cursor := get ''upgrade_cursor'' (-1)\<rparr>))"

definition read_state :: "history \<Rightarrow> history res" where
  "read_state h =
     rbind
       (case kv_get (hist_db h) state_key of
          Some (b # bs) \<Rightarrow>
            rbind (literal_eval (decode (b # bs))) (\<lambda>l.
              case l of DictL state \<Rightarrow> load_state h state | IntL _ \<Rightarrow> Inl RuntimeError)
        | _ \<Rightarrow>
            Inr (h\<lparr>flush_count := 0, comp_flush_count := -1, comp_cursor := -1,
              hist_version := Max (set DB_VERSIONS), upgrade_cursor := -1\<rparr>))
       (\<lambda>h.
          if hist_version h \<notin> set DB_VERSIONS then Inl RuntimeError
          else if hist_version h \<noteq> Max (set DB_VERSIONS) then upgrade_db h
          else Inr h)"

text \<open>History written by flushes the UTXO database does not know of is dropped.\<close>

definition clear_excess :: "history \<Rightarrow> int \<Rightarrow> history res" where
  "clear_excess h utxo_flush_count =
     (if flush_count h \<le> utxo_flush_count then Inr h
      else rbind (mapM (\<lambda>(key, hist). rbind (unpack_be_uint32_from (takelast 4 key) 0)
                    (\<lambda>flush_id. Inr (key, int flush_id))) (kv_iter (hist_db h) [] False)) (\<lambda>ids.
        let keys = map fst (filter (\<lambda>(key, flush_id). flush_id > utxo_flush_count) ids);
            h = h\<lparr>flush_count := utxo_flush_count\<rparr>
        in Inr (commit h (map Delete keys @ write_state h))))"

definition cancel_compaction :: "history \<Rightarrow> history" where
  "cancel_compaction h =
     (if comp_cursor h \<noteq> -1 then h\<lparr>comp_flush_count := -1, comp_cursor := -1\<rparr> else h)"

definition open_db :: "history \<Rightarrow> kv \<Rightarrow> int \<Rightarrow> bool \<Rightarrow> history res" where
  "open_db h stored utxo_flush_count compacting =
     rbind (read_state (h\<lparr>hist_db := stored\<rparr>)) (\<lambda>h.
       rbind (clear_excess h utxo_flush_count) (\<lambda>h.
         Inr (if \<not> compacting then cancel_compaction h else h)))"

section \<open>Adding history and flushing it\<close>

definition extend_unflushed :: "bytes \<Rightarrow> (bytes, bytes) dict \<Rightarrow> bytes \<Rightarrow> (bytes, bytes) dict" where
  "extend_unflushed tx_numb d hashX =
     dict_set hashX ((case map_of d hashX of Some b \<Rightarrow> b | None \<Rightarrow> []) @ tx_numb) d"

fun add_unflushed_loop :: "history \<Rightarrow> bytes list list \<Rightarrow> int \<Rightarrow> nat \<Rightarrow> history res" where
  "add_unflushed_loop h [] tx_num count = Inr (h\<lparr>unflushed_count := unflushed_count h + count\<rparr>)"
| "add_unflushed_loop h (hashXs # rest) tx_num count =
     rbind (pack_le_uint64 tx_num) (\<lambda>packed.
       let tx_numb = take 5 packed;
           hashXs = remdups hashXs
       in add_unflushed_loop (h\<lparr>unflushed := foldl (extend_unflushed tx_numb) (unflushed h) hashXs\<rparr>)
            rest (tx_num + 1) (count + length hashXs))"

definition add_unflushed :: "history \<Rightarrow> bytes list list \<Rightarrow> int \<Rightarrow> history res" where
  "add_unflushed h hashXs_by_tx first_tx_num = add_unflushed_loop h hashXs_by_tx first_tx_num 0"

definition unflushed_memsize :: "history \<Rightarrow> nat" where
  "unflushed_memsize h = length (unflushed h) * 180 + unflushed_count h * 5"

definition assert_flushed :: "history \<Rightarrow> unit res" where
  "assert_flushed h = (if unflushed h \<noteq> [] then Inl AssertionError else Inr ())"

definition flush :: "history \<Rightarrow> history res" where
  "flush h =
     (let h = h\<lparr>flush_count := flush_count h + 1\<rparr> in
      rbind (pack_be_uint32 (flush_count h)) (\<lambda>flush_id.
        let puts = map (\<lambda>hashX. Put (hashX @ flush_id) (the (map_of (unflushed h) hashX)))
                     (sort (dict_keys (unflushed h)));
            h = commit h (puts @ write_state h)
        in Inr (h\<lparr>unflushed := [], unflushed_count := 0\<rparr>)))"

section \<open>Backing up and reading\<close>

text \<open>\<open>array.array('Q').frombytes\<close> on a little-endian machine.\<close>

definition tx_array :: "bytes \<Rightarrow> nat list res" where
  "tx_array hist =
     (let data = concat (map (\<lambda>item. item @ zero_bytes 3) (chunks_list 5 hist))
      in if length data mod 8 \<noteq> 0 then Inl ValueError else Inr (map le_dec (chunks_list 8 data)))"

function bisect_loop :: "nat list \<Rightarrow> int \<Rightarrow> nat \<Rightarrow> nat \<Rightarrow> nat" where
  "bisect_loop a x lo hi =
     (if lo < hi then
        let mid = (lo + hi) div 2
        in if int (a ! mid) < x then bisect_loop a x (mid + 1) hi else bisect_loop a x lo mid
      else lo)"
  by pat_completeness auto
termination by (relation "measure (\<lambda>(a, x, lo, hi). hi - lo)") auto

declare bisect_loop.simps [simp del]

definition bisect_left :: "nat list \<Rightarrow> int \<Rightarrow> nat" where
  "bisect_left a x = bisect_loop a x 0 (length a)"

fun backup_rows :: "int \<Rightarrow> kv \<Rightarrow> (bytes list \<times> (bytes \<times> bytes) list) res" where
  "backup_rows tx_count [] = Inr ([], [])"
| "backup_rows tx_count ((key, hist) # rows) =
     rbind (tx_array hist) (\<lambda>a.
       let idx = bisect_left a tx_count in
       if idx > 0 then Inr ([], [(key, take (5 * idx) hist)])
       else rbind (backup_rows tx_count rows) (\<lambda>(deletes, puts). Inr (key # deletes, puts)))"

definition backup_hashX :: "kv \<Rightarrow> int \<Rightarrow> bytes \<Rightarrow> batch_op list res" where
  "backup_hashX kv tx_count hashX =
     rbind (backup_rows tx_count (kv_iter kv hashX True)) (\<lambda>(deletes, puts).
       Inr (map Delete deletes @ map (\<lambda>(k, v). Put k v) puts))"

definition backup :: "history \<Rightarrow> bytes list \<Rightarrow> int \<Rightarrow> history res" where
  "backup h hashXs tx_count =
     (let h = h\<lparr>flush_count := flush_count h + 1\<rparr> in
      rbind (mapM (backup_hashX (hist_db h) tx_count) (sort hashXs)) (\<lambda>ops.
        Inr (commit h (concat ops @ write_state h))))"

fun txnum_loop :: "int \<Rightarrow> bytes list \<Rightarrow> nat list res" where
  "txnum_loop limit [] = Inr []"
| "txnum_loop limit (tx_numb # rest) =
     (if limit = 0 then Inr []
      else rbind (unpack_le_uint64 (tx_numb @ zero_bytes 3)) (\<lambda>tx_num.
        rbind (txnum_loop (limit - 1) rest) (\<lambda>txs. Inr (tx_num # txs))))"

definition get_txnums :: "history \<Rightarrow> bytes \<Rightarrow> int option \<Rightarrow> bool \<Rightarrow> nat list res" where
  "get_txnums h hashX limit reverse =
     txnum_loop (resolve_limit limit)
       (concat (map (\<lambda>(key, hist). if reverse then rev (chunks_list 5 hist) else chunks_list 5 hist)
         (kv_iter (hist_db h) hashX reverse)))"

section \<open>Compaction\<close>

text \<open>What a compaction pass accumulates; \<open>hi_count\<close> is \<open>self.comp_flush_count\<close>.\<close>

record comp_pass =
  write_items :: "(bytes \<times> bytes) list"
  keys_to_delete :: "bytes list"
  hi_count :: int
  write_size :: nat

fun compact_chunks :: "bytes \<Rightarrow> (bytes, bytes) dict \<Rightarrow> comp_pass \<Rightarrow> nat \<Rightarrow> bytes list \<Rightarrow> comp_pass res" where
  "compact_chunks hashX hist_map p n [] = Inr p"
| "compact_chunks hashX hist_map p n (chunk # rest) =
     rbind (pack_be_uint32 (int n)) (\<lambda>suffix.
       let key = hashX @ suffix in
       if map_of hist_map key = Some chunk then
         if key \<in> set (keys_to_delete p)
         then compact_chunks hashX hist_map (p\<lparr>keys_to_delete := removeAll key (keys_to_delete p)\<rparr>) (n + 1) rest
         else Inl KeyError
       else compact_chunks hashX hist_map
              (p\<lparr>write_items := write_items p @ [(key, chunk)], write_size := write_size p + length chunk\<rparr>)
              (n + 1) rest)"

definition compact_hashX ::
    "nat \<Rightarrow> bytes \<Rightarrow> (bytes, bytes) dict \<Rightarrow> bytes list \<Rightarrow> comp_pass \<Rightarrow> comp_pass res" where
  "compact_hashX row_entries hashX hist_map hist_list p =
     (let max_row_size = row_entries * 5;
          full_hist = concat hist_list in
      if max_row_size = 0 then Inl ZeroDivisionError
      else
        let nrows = (length full_hist + max_row_size - 1) div max_row_size;
            p = p\<lparr>keys_to_delete := remdups (keys_to_delete p @ dict_keys hist_map)\<rparr>;
            parts = chunks_list max_row_size full_hist;
            n = length parts - 1
        in rbind (compact_chunks hashX hist_map p 0 parts) (\<lambda>p.
             if n + 1 \<noteq> nrows then Inl AssertionError
             else Inr (p\<lparr>hi_count := max (hi_count p) (int n)\<rparr>)))"

fun compact_rows :: "nat \<Rightarrow> bytes option \<Rightarrow> (bytes, bytes) dict \<Rightarrow> bytes list \<Rightarrow> kv \<Rightarrow> comp_pass \<Rightarrow> comp_pass res" where
  "compact_rows m prior hist_map hist_list [] p =
     (case prior of Some hX \<Rightarrow> compact_hashX m hX hist_map hist_list p | None \<Rightarrow> Inr p)"
| "compact_rows m prior hist_map hist_list ((key, hist) # rows) p =
     (if length key \<noteq> HASHX_LEN + 4 then compact_rows m prior hist_map hist_list rows p
      else
        let hashX = droplast 4 key in
        if prior \<noteq> None \<and> Some hashX \<noteq> prior
        then rbind (compact_hashX m (the prior) hist_map hist_list p)
               (\<lambda>p. compact_rows m (Some hashX) [(key, hist)] [hist] rows p)
        else compact_rows m (Some hashX) (dict_set key hist hist_map) (hist_list @ [hist]) rows p)"

definition compact_prefix :: "history \<Rightarrow> bytes \<Rightarrow> comp_pass \<Rightarrow> comp_pass res" where
  "compact_prefix h prefix p =
     compact_rows (max_hist_row_entries h) None [] [] (kv_iter (hist_db h) prefix False) p"

definition flush_compaction :: "history \<Rightarrow> int \<Rightarrow> comp_pass \<Rightarrow> history" where
  "flush_compaction h cursor p =
     (let h = (if cursor = 4294967296
               then h\<lparr>flush_count := comp_flush_count h, comp_cursor := -1, comp_flush_count := -1\<rparr>
               else h\<lparr>comp_cursor := cursor\<rparr>)
      in commit h (map Delete (keys_to_delete p) @ map (\<lambda>(k, v). Put k v) (write_items p) @ write_state h))"

function compact_loop :: "history \<Rightarrow> int \<Rightarrow> int \<Rightarrow> comp_pass \<Rightarrow> (int \<times> comp_pass) res" where
  "compact_loop h limit cursor p =
     (if int (write_size p) < limit \<and> cursor < 4294967296
      then rbind (pack_be_uint32 cursor) (\<lambda>prefix.
             rbind (compact_prefix h prefix p) (\<lambda>p. compact_loop h limit (cursor + 1) p))
      else Inr (cursor, p))"
  by pat_completeness auto
termination by (relation "measure (\<lambda>(h, limit, cursor, p). nat (4294967296 - cursor))") auto

declare compact_loop.simps [simp del]

definition compact_history :: "history \<Rightarrow> int \<Rightarrow> (history \<times> nat) res" where
  "compact_history h limit =
     rbind (compact_loop h limit (comp_cursor h)
         \<lparr>write_items = [], keys_to_delete = [], hi_count = comp_flush_count h, write_size = 0\<rparr>)
       (\<lambda>(cursor, p).
          let h = h\<lparr>comp_flush_count := hi_count p\<rparr>
          in Inr (flush_compaction h cursor p, write_size p))"

end
