(* ===== verification/HistoryFacts.thy ===== *)
theory HistoryFacts
  imports History
begin

text \<open>
  What the history database promises: the list of transactions of each script hash, and how
  flushing, reading, backing up, recovering from an unclean shutdown, compacting and upgrading
  act on it.
\<close>

section \<open>Rows of a script hash\<close>

lemma strictly_sorted_eq:
  fixes xs ys :: kv
  assumes "sorted_wrt (\<lambda>x y. fst x < fst y) xs" and "sorted_wrt (\<lambda>x y. fst x < fst y) ys" and "set xs = set ys"
  shows "xs = ys"
  using assms
proof (induction xs arbitrary: ys)
  case Nil
  then show ?case by simp
next
  case (Cons x xs)
  then obtain y ys' where ys: "ys = y # ys'" by (cases ys) auto
  have "x = y"
  proof (rule ccontr)
    assume "x \<noteq> y"
    with Cons.prems(3) ys have "x \<in> set ys'" "y \<in> set xs" by auto
    with Cons.prems(1,2) ys have "fst x < fst y" "fst y < fst x" by auto
    then show False by simp
  qed
  have "x \<notin> set xs" "y \<notin> set ys'" using Cons.prems(1,2) ys by auto
  with Cons.prems(3) ys \<open>x = y\<close> have "set xs = set ys'" by auto
  with Cons ys \<open>x = y\<close> show ?case by simp
qed

lemma kv_iter_sorted: "kv_ok kv \<Longrightarrow> sorted_wrt (\<lambda>x y. fst x < fst y) (kv_iter kv p False)"
  by (simp add: kv_iter_def scan_def Let_def kv_ok_def sorted_wrt_map sorted_wrt_filter)

lemma kv_iter_reverse: "kv_iter kv p True = rev (kv_iter kv p False)"
  by (simp add: kv_iter_def scan_def effective_seek_def in_page_def Let_def)

lemma kv_iter_eqI:
  assumes "kv_ok kv" and "sorted_wrt (\<lambda>x y. fst x < fst y) rows"
    and "\<And>k v. (k, v) \<in> set rows \<longleftrightarrow> starts_with p k \<and> kv_get kv k = Some v"
  shows "kv_iter kv p False = rows"
proof (rule strictly_sorted_eq [OF kv_iter_sorted [OF assms(1)] assms(2)])
  show "set (kv_iter kv p False) = set rows"
    using kv_iter_mem [OF assms(1)] assms(3) by auto
qed

lemma kv_iter_cong:
  assumes "kv_ok kv" and "kv_ok kv'" and "\<And>k. starts_with p k \<Longrightarrow> kv_get kv k = kv_get kv' k"
  shows "kv_iter kv p False = kv_iter kv' p False"
  using kv_iter_mem [OF assms(2)] assms(3)
  by (intro kv_iter_eqI [OF assms(1)] kv_iter_sorted [OF assms(2)]) auto

lemma starts_with_append [simp]: "starts_with p (p @ s)"
  by (simp add: starts_with_def)

lemma starts_with_split: "starts_with p k \<longleftrightarrow> (\<exists>s. k = p @ s)"
  by (metis append_take_drop_id append_eq_conv_conj starts_with_def)

lemma append_less_iff: "(p :: bytes) @ a < p @ b \<longleftrightarrow> a < b"
  by (induction p) simp_all

lemma length_state_key: "length state_key = 7"
  by (simp add: state_key_def encode_def)

section \<open>The abstraction\<close>

text \<open>The numbers a row spells, the history a database holds for a script hash, and the history
  including what has not been flushed yet.\<close>

definition decode_row :: "bytes \<Rightarrow> nat list" where
  "decode_row hist = map le_dec (chunks_list 5 hist)"

definition stored_history :: "kv \<Rightarrow> bytes \<Rightarrow> nat list" where
  "stored_history kv hashX = concat (map (\<lambda>(key, hist). decode_row hist) (kv_iter kv hashX False))"

definition pending_history :: "history \<Rightarrow> bytes \<Rightarrow> nat list" where
  "pending_history h hashX = (case map_of (unflushed h) hashX of Some b \<Rightarrow> decode_row b | None \<Rightarrow> [])"

definition history_of :: "history \<Rightarrow> bytes \<Rightarrow> nat list" where
  "history_of h hashX = stored_history (hist_db h) hashX @ pending_history h hashX"

text \<open>Well-formed rows: the state entry, or 15-byte keys whose value is a non-empty string of
  5-byte entries and whose flush number is at most \<open>n\<close>.\<close>

definition row_ok :: "int \<Rightarrow> bytes \<Rightarrow> bytes \<Rightarrow> bool" where
  "row_ok n k v \<longleftrightarrow> k = state_key
     \<or> length k = 15 \<and> v \<noteq> [] \<and> 5 dvd length v \<and> int (be_dec (drop 11 k)) \<le> n"

definition rows_ok :: "int \<Rightarrow> kv \<Rightarrow> bool" where
  "rows_ok n kv \<longleftrightarrow> kv_ok kv \<and> (\<forall>k v. kv_get kv k = Some v \<longrightarrow> row_ok n k v)"

definition pending_ok :: "history \<Rightarrow> bool" where
  "pending_ok h \<longleftrightarrow> dict_ok (unflushed h)
     \<and> (\<forall>k v. map_of (unflushed h) k = Some v \<longrightarrow> length k = 11 \<and> v \<noteq> [] \<and> 5 dvd length v)"

definition history_ok :: "history \<Rightarrow> bool" where
  "history_ok h \<longleftrightarrow> rows_ok (flush_count h) (hist_db h) \<and> pending_ok h"

text \<open>The histories are increasing and name transactions below \<open>tx_count\<close>.\<close>

definition below :: "history \<Rightarrow> int \<Rightarrow> bool" where
  "below h tx_count \<longleftrightarrow> (\<forall>hashX. length hashX = 11 \<longrightarrow>
     sorted_wrt (<) (history_of h hashX) \<and> (\<forall>n \<in> set (history_of h hashX). int n < tx_count))"

lemma row_of_hashX:
  assumes "rows_ok n kv" and "length hashX = 11" and "(k, v) \<in> set (kv_iter kv hashX False)"
  shows "\<exists>s. k = hashX @ s \<and> length s = 4 \<and> v \<noteq> [] \<and> 5 dvd length v \<and> int (be_dec s) \<le> n"
proof -
  from assms have sw: "starts_with hashX k" and "row_ok n k v"
    using kv_iter_mem [of kv k v hashX False] by (auto simp: rows_ok_def)
  from sw obtain s where k: "k = hashX @ s" by (auto simp: starts_with_split)
  then have "length k = 11 + length s" using assms(2) by simp
  then have "k \<noteq> state_key" using length_state_key by auto
  with \<open>row_ok n k v\<close> k assms(2) show ?thesis by (auto simp: row_ok_def)
qed

section \<open>Entries of a row\<close>

lemma chunks_list_append:
  assumes "0 < sz" and "sz dvd length xs"
  shows "chunks_list sz (xs @ ys) = chunks_list sz xs @ chunks_list sz ys"
  using assms(2)
proof (induction "length xs" arbitrary: xs rule: less_induct)
  case less
  show ?case
  proof (cases "xs = []")
    case False
    then have le: "sz \<le> length xs" using less.prems by (simp add: dvd_imp_le)
    have "length (drop sz xs) < length xs" using assms(1) False by simp
    moreover have "sz dvd length (drop sz xs)" using less.prems le by (simp add: dvd_diff_nat)
    ultimately have "chunks_list sz (drop sz xs @ ys) = chunks_list sz (drop sz xs) @ chunks_list sz ys"
      by (rule less.hyps)
    with False le show ?thesis by (simp add: chunks_list_step [OF assms(1)])
  qed simp
qed

lemma decode_row_append: "5 dvd length a \<Longrightarrow> decode_row (a @ b) = decode_row a @ decode_row b"
  by (simp add: decode_row_def chunks_list_append)

lemma decode_row_Nil [simp]: "decode_row [] = []"
  by (simp add: decode_row_def)

lemma decode_row_entry: "length b = 5 \<Longrightarrow> decode_row b = [le_dec b]"
  using chunks_list_concat [of 5 "[b]"] by (simp add: decode_row_def)

lemma decode_row_concat: "\<forall>b \<in> set bs. 5 dvd length b \<Longrightarrow> decode_row (concat bs) = concat (map decode_row bs)"
  by (induction bs) (simp_all add: decode_row_append)

lemma length_decode_row: "5 dvd length b \<Longrightarrow> length (decode_row b) = length b div 5"
  by (auto simp: decode_row_def chunks_list_def elim!: dvdE)

lemma decode_row_take:
  assumes "5 dvd length b"
  shows "decode_row (take (5 * i) b) = take i (decode_row b)"
proof (cases "5 * i \<le> length b")
  case True
  then have len: "length (take (5 * i) b) = 5 * i" by simp
  have "decode_row b = decode_row (take (5 * i) b) @ decode_row (drop (5 * i) b)"
    using decode_row_append [of "take (5 * i) b" "drop (5 * i) b"] len by simp
  moreover have "length (decode_row (take (5 * i) b)) = i" using length_decode_row [of "take (5 * i) b"] len by simp
  ultimately show ?thesis by simp
next
  case False
  then have "length (decode_row b) \<le> i" using length_decode_row [OF assms] by linarith
  with False show ?thesis by simp
qed

lemma stored_history_rows:
  assumes "rows_ok n kv" and "length hashX = 11"
  shows "stored_history kv hashX = decode_row (concat (map snd (kv_iter kv hashX False)))"
proof -
  have "\<forall>b \<in> set (map snd (kv_iter kv hashX False)). 5 dvd length b"
    using row_of_hashX [OF assms] by fastforce
  from decode_row_concat [OF this] show ?thesis
    by (simp add: stored_history_def comp_def split_def)
qed

text \<open>Reading the generator: the first \<open>limit\<close> entries in either direction.\<close>

lemma txnum_loop_take:
  assumes "\<forall>c \<in> set cs. length c = 5"
  shows "txnum_loop limit cs = Inr (if limit < 0 then map le_dec cs else take (nat limit) (map le_dec cs))"
  using assms
proof (induction limit cs rule: txnum_loop.induct)
  case (1 limit)
  show ?case by simp
next
  case (2 limit c cs)
  have "unpack_le_uint64 (c @ zero_bytes 3) = Inr (le_dec c)"
    using 2 by (simp add: unpack_le_uint64_def le_dec_append)
  moreover have "nat limit = Suc (nat (limit - 1))" if "0 < limit" using that by simp
  ultimately show ?case using 2 by (cases "limit = 0") (auto)
qed

lemma get_txnums_spec:
  assumes "rows_ok n (hist_db h)" and "length hashX = 11"
  shows "get_txnums h hashX limit reverse =
    Inr (let txs = (if reverse then rev else id) (stored_history (hist_db h) hashX)
         in case limit of None \<Rightarrow> txs | Some l \<Rightarrow> if l < 0 then txs else take (nat l) txs)"
proof -
  let ?rows = "kv_iter (hist_db h) hashX False"
  let ?cs = "concat (map (\<lambda>(key, hist). chunks_list 5 hist) ?rows)"
  have five: "\<forall>c \<in> set ?cs. length c = 5"
  proof (clarsimp)
    fix k v c assume "(k, v) \<in> set ?rows" "c \<in> set (chunks_list 5 v)"
    then show "length c = 5" using row_of_hashX [OF assms, of k v] chunks_list_lengths [of 5 v c] by auto
  qed
  have txs: "map le_dec ?cs = stored_history (hist_db h) hashX"
    by (simp add: stored_history_def decode_row_def map_concat comp_def split_def)
  have rv: "concat (map (\<lambda>(key, hist). if reverse then rev (chunks_list 5 hist) else chunks_list 5 hist)
      (kv_iter (hist_db h) hashX reverse)) = (if reverse then rev else id) ?cs"
    by (cases reverse) (simp_all add: kv_iter_reverse rev_concat rev_map comp_def split_def)
  have "\<forall>c \<in> set ((if reverse then rev else id) ?cs). length c = 5" using five by simp
  moreover have "map le_dec ((if reverse then rev else id) ?cs)
      = (if reverse then rev else id) (stored_history (hist_db h) hashX)"
    unfolding txs [symmetric] by (simp add: rev_map)
  ultimately have "txnum_loop l ((if reverse then rev else id) ?cs) =
      Inr (let txs = (if reverse then rev else id) (stored_history (hist_db h) hashX)
           in if l < 0 then txs else take (nat l) txs)" for l
    by (simp only: txnum_loop_take Let_def)
  then show ?thesis
    unfolding get_txnums_def rv by (simp add: resolve_limit_def Let_def split: option.splits)
qed

section \<open>Batches\<close>

lemma fold_puts: "fold op_map (map (\<lambda>(k, v). Put k v) es) m = m ++ map_of (rev es)"
proof (induction es arbitrary: m)
  case Nil
  show ?case by simp
next
  case (Cons e es)
  then show ?case by (cases e) (simp add: map_add_def fun_eq_iff split: option.splits)
qed

lemma fold_deletes: "fold op_map (map Delete ks) m = m |` (- set ks)"
  by (induction ks arbitrary: m) (auto simp: restrict_map_def fun_eq_iff)

lemma map_of_rev: "distinct (map fst es) \<Longrightarrow> map_of (rev es) = map_of es"
  by (subst map_of_inject_set) (simp_all add: rev_map [symmetric])

lemma fold_write_state: "k \<noteq> state_key \<Longrightarrow> fold op_map (write_state h) m k = m k"
  by (simp add: write_state_def)

lemma commit_simps [simp]:
  "hist_db (commit h ops) = apply_batch ops (hist_db h)"
  "unflushed (commit h ops) = unflushed h" "flush_count (commit h ops) = flush_count h"
  "comp_cursor (commit h ops) = comp_cursor h" "comp_flush_count (commit h ops) = comp_flush_count h"
  "hist_version (commit h ops) = hist_version h" "upgrade_cursor (commit h ops) = upgrade_cursor h"
  "max_hist_row_entries (commit h ops) = max_hist_row_entries h"
  by (simp_all add: commit_def)

text \<open>A batch that ends by writing the state, seen at any other key.\<close>

lemma kv_get_batch:
  "kv_ok kv \<Longrightarrow> k \<noteq> state_key \<Longrightarrow>
     kv_get (apply_batch (ops @ write_state h) kv) k = fold op_map ops (kv_get kv) k"
  by (simp add: kv_get_apply_batch fold_write_state)

lemma hashX_not_state: "length hashX = 11 \<Longrightarrow> starts_with hashX k \<Longrightarrow> k \<noteq> state_key"
proof -
  assume "length hashX = 11" "starts_with hashX k"
  then have "11 \<le> length k" by (auto simp: starts_with_split)
  then show ?thesis using length_state_key by auto
qed

lemma pack_be_uint32_Inr:
  "pack_be_uint32 n = Inr b \<longleftrightarrow> 0 \<le> n \<and> n < 4294967296 \<and> b = be_enc 4 (nat n)"
  by (auto simp: pack_be_uint32_def pack_uint_def be_enc_def)

lemma be_dec_enc4: "0 \<le> n \<Longrightarrow> n < 4294967296 \<Longrightarrow> int (be_dec (be_enc 4 (nat n))) = n"
  by simp

section \<open>Flushing\<close>

definition flush_rows :: "history \<Rightarrow> bytes \<Rightarrow> (bytes \<times> bytes) list" where
  "flush_rows h fid = map (\<lambda>hX. (hX @ fid, the (map_of (unflushed h) hX))) (sort (dict_keys (unflushed h)))"

lemma flush_rows_get:
  assumes "pending_ok h"
  shows "map_of (rev (flush_rows h fid)) k = Some v \<longleftrightarrow> (\<exists>hX. k = hX @ fid \<and> map_of (unflushed h) hX = Some v)"
proof -
  have "inj_on (\<lambda>hX. hX @ fid) X" for X :: "bytes set" by (simp add: inj_on_def)
  then have d: "distinct (map fst (flush_rows h fid))"
    using assms by (simp add: flush_rows_def comp_def distinct_map pending_ok_def dict_ok_def)
  have "set (dict_keys (unflushed h)) = dom (map_of (unflushed h))" by (rule set_dict_keys)
  then have "(k, v) \<in> set (flush_rows h fid) \<longleftrightarrow> (\<exists>hX. k = hX @ fid \<and> map_of (unflushed h) hX = Some v)"
    by (auto simp: flush_rows_def dom_def image_iff)
  with d show ?thesis by (simp add: map_of_rev)
qed

lemma flush_eq:
  assumes "flush h = Inr h'"
  shows "0 \<le> flush_count h + 1" "flush_count h + 1 < 4294967296"
    "\<exists>ws. hist_db h' = apply_batch (map (\<lambda>(k, v). Put k v) (flush_rows h (be_enc 4 (nat (flush_count h + 1))))
        @ write_state ws) (hist_db h)"
    "unflushed h' = []" "unflushed_count h' = 0" "flush_count h' = flush_count h + 1"
  using assms by (auto simp: flush_def flush_rows_def rbind_eq_Inr pack_be_uint32_Inr Let_def comp_def)

lemma flush_iter:
  assumes "history_ok h" and "flush h = Inr h'" and "length hashX = 11"
  shows "kv_iter (hist_db h') hashX False = kv_iter (hist_db h) hashX False
     @ (case map_of (unflushed h) hashX of None \<Rightarrow> []
        | Some v \<Rightarrow> [(hashX @ be_enc 4 (nat (flush_count h + 1)), v)])" (is "_ = ?old @ ?new")
proof -
  let ?fid = "be_enc 4 (nat (flush_count h + 1))"
  note r = flush_eq [OF assms(2)]
  from r(3) obtain ws where db: "hist_db h' = apply_batch (map (\<lambda>(k, v). Put k v) (flush_rows h ?fid)
      @ write_state ws) (hist_db h)" by blast
  have ok: "rows_ok (flush_count h) (hist_db h)" "kv_ok (hist_db h)" "pending_ok h"
    using assms(1) by (simp_all add: history_ok_def rows_ok_def)
  have fid: "int (be_dec ?fid) = flush_count h + 1" using r(1,2) by simp
  have old: "\<exists>s. k = hashX @ s \<and> length s = 4 \<and> be_dec s < be_dec ?fid" if "(k, v) \<in> set ?old" for k v
    using row_of_hashX [OF ok(1) assms(3) that] fid by (fastforce simp del: of_nat_less_iff)
  have less: "fst x < hashX @ ?fid" if "x \<in> set ?old" for x
    using old [of "fst x" "snd x"] that by (auto simp: append_less_iff be_dec_less_iff)
  have sorted: "sorted_wrt (\<lambda>x y. fst x < fst y) (?old @ ?new)"
    using kv_iter_sorted [OF ok(2)] less by (auto simp: sorted_wrt_append split: option.splits)
  have get: "kv_get (hist_db h') k = (case map_of (rev (flush_rows h ?fid)) k of Some v \<Rightarrow> Some v
      | None \<Rightarrow> kv_get (hist_db h) k)" if "starts_with hashX k" for k
    using hashX_not_state [OF assms(3) that]
    by (simp add: db kv_get_batch [OF ok(2)] fold_puts map_add_def)
  have fresh: "kv_get (hist_db h) (hashX @ ?fid) = None"
  proof (rule ccontr)
    assume "kv_get (hist_db h) (hashX @ ?fid) \<noteq> None"
    then obtain v where "(hashX @ ?fid, v) \<in> set ?old" using kv_iter_mem [OF ok(2)] by auto
    then show False using less by fastforce
  qed
  have len: "length hX = 11" if "map_of (unflushed h) hX = Some v" for hX v
    using ok(3) that by (auto simp: pending_ok_def)
  show ?thesis
  proof (rule kv_iter_eqI [OF _ sorted])
    show "kv_ok (hist_db h')" using ok(2) by (simp add: db)
    fix k v
    have "(k, v) \<in> set ?new \<longleftrightarrow> starts_with hashX k \<and> map_of (rev (flush_rows h ?fid)) k = Some v"
      using flush_rows_get [OF ok(3), of ?fid k] assms(3) len
      by (auto simp: starts_with_split split: option.splits)
    moreover have "(k, v) \<in> set ?old \<longleftrightarrow> starts_with hashX k \<and> kv_get (hist_db h) k = Some v"
      by (rule kv_iter_mem [OF ok(2)])
    moreover have "map_of (rev (flush_rows h ?fid)) k = None"
      if "starts_with hashX k" "kv_get (hist_db h) k = Some v"
    proof (rule ccontr)
      assume "map_of (rev (flush_rows h ?fid)) k \<noteq> None"
      then obtain hX w where k: "k = hX @ ?fid" "map_of (unflushed h) hX = Some w"
        using flush_rows_get [OF ok(3), of ?fid k] by auto
      with len assms(3) that(1) have "hX = hashX" by (auto simp: starts_with_split append_eq_append_conv)
      with k that(2) fresh show False by simp
    qed
    ultimately show "(k, v) \<in> set (?old @ ?new) \<longleftrightarrow> starts_with hashX k \<and> kv_get (hist_db h') k = Some v"
      using get [of k] by (auto split: option.splits)
  qed
qed

lemma flush_history:
  assumes "history_ok h" and "flush h = Inr h'" and "length hashX = 11"
  shows "stored_history (hist_db h') hashX = history_of h hashX" and "history_of h' hashX = history_of h hashX"
proof -
  show st: "stored_history (hist_db h') hashX = history_of h hashX"
    by (simp add: stored_history_def flush_iter [OF assms] history_of_def pending_history_def split: option.splits)
  show "history_of h' hashX = history_of h hashX"
    using flush_eq(4) [OF assms(2)] by (simp add: history_of_def [of h'] st pending_history_def)
qed

lemma flush_ok:
  assumes "history_ok h" and "flush h = Inr h'"
  shows "history_ok h'"
proof -
  let ?fid = "be_enc 4 (nat (flush_count h + 1))"
  note r = flush_eq [OF assms(2)]
  from r(3) obtain ws where db: "hist_db h' = apply_batch (map (\<lambda>(k, v). Put k v) (flush_rows h ?fid)
      @ write_state ws) (hist_db h)" by blast
  have ok: "rows_ok (flush_count h) (hist_db h)" "kv_ok (hist_db h)" "pending_ok h"
    using assms(1) by (simp_all add: history_ok_def rows_ok_def)
  have "row_ok (flush_count h') k v" if "kv_get (hist_db h') k = Some v" for k v
  proof (cases "k = state_key")
    case False
    with that have "(case map_of (rev (flush_rows h ?fid)) k of Some v \<Rightarrow> Some v
        | None \<Rightarrow> kv_get (hist_db h) k) = Some v"
      by (simp add: db kv_get_batch [OF ok(2)] fold_puts map_add_def)
    then consider "map_of (rev (flush_rows h ?fid)) k = Some v" | "kv_get (hist_db h) k = Some v"
      by (auto split: option.splits)
    then show ?thesis
    proof cases
      case 1
      then obtain hX where "k = hX @ ?fid" "map_of (unflushed h) hX = Some v"
        using flush_rows_get [OF ok(3)] by blast
      then show ?thesis using ok(3) r(1,2,6) by (auto simp: row_ok_def pending_ok_def)
    next
      case 2
      then have "row_ok (flush_count h) k v" using ok(1) by (simp add: rows_ok_def)
      then show ?thesis by (auto simp: row_ok_def r(6))
    qed
  qed (simp add: row_ok_def)
  then show ?thesis using ok(2) r(4) by (simp add: history_ok_def rows_ok_def pending_ok_def db)
qed

section \<open>Adding history\<close>

text \<open>The numbers of the transactions that touch a script hash, counted from \<open>n\<close>.\<close>

fun touching :: "bytes \<Rightarrow> bytes list list \<Rightarrow> nat \<Rightarrow> nat list" where
  "touching hashX [] n = []"
| "touching hashX (hashXs # rest) n = (if hashX \<in> set hashXs then [n] else []) @ touching hashX rest (n + 1)"

lemma set_touching: "m \<in> set (touching hashX xs n) \<Longrightarrow> n \<le> m \<and> m < n + length xs"
  by (induction hashX xs n rule: touching.induct) (auto split: if_splits)

lemma sorted_touching: "sorted_wrt (<) (touching hashX xs n)"
  by (induction hashX xs n rule: touching.induct) (auto dest: set_touching)

lemma extend_all:
  assumes "distinct hashXs"
  shows "map_of (foldl (extend_unflushed b) d hashXs) k =
    (if k \<in> set hashXs then Some ((case map_of d k of Some x \<Rightarrow> x | None \<Rightarrow> []) @ b) else map_of d k)"
  using assms
proof (induction hashXs arbitrary: d)
  case (Cons x xs)
  then show ?case by (auto simp: extend_unflushed_def)
qed simp

lemma extend_all_ok: "dict_ok d \<Longrightarrow> dict_ok (foldl (extend_unflushed b) d hashXs)"
  by (induction hashXs arbitrary: d) (simp_all add: extend_unflushed_def)

lemma take_le_enc: "j \<le> k \<Longrightarrow> take j (le_enc k n) = le_enc j n"
proof (induction k arbitrary: j n)
  case (Suc k)
  then show ?case by (cases j) simp_all
qed simp

lemma tx_numb_decode:
  assumes "pack_le_uint64 (int n) = Inr b" and "n < 2 ^ 40"
  shows "length (take 5 b) = 5" and "decode_row (take 5 b) = [n]"
proof -
  from assms(1) have b: "b = le_enc 8 n" by (auto simp: pack_le_uint64_def pack_uint_def split: if_splits)
  show "length (take 5 b) = 5" by (simp add: b)
  show "decode_row (take 5 b) = [n]"
    using assms(2) by (simp add: b take_le_enc decode_row_entry del: le_enc.simps)
qed

lemma add_unflushed_loop_spec:
  assumes "add_unflushed_loop h xs (int n) count = Inr h'" and "pending_ok h"
    and "\<forall>hashXs \<in> set xs. \<forall>hX \<in> set hashXs. length hX = 11" and "n + length xs \<le> 2 ^ 40"
  shows "pending_ok h' \<and> hist_db h' = hist_db h \<and> flush_count h' = flush_count h
    \<and> pending_history h' hashX = pending_history h hashX @ touching hashX xs n"
  using assms
proof (induction xs arbitrary: h n count)
  case Nil
  from Nil(1) have "h' = h\<lparr>unflushed_count := unflushed_count h + count\<rparr>" by simp
  with Nil(2) show ?case by (simp add: pending_ok_def pending_history_def)
next
  case (Cons hashXs xs)
  from Cons.prems(1) obtain b where b: "pack_le_uint64 (int n) = Inr b"
    and rec: "add_unflushed_loop (h\<lparr>unflushed := foldl (extend_unflushed (take 5 b)) (unflushed h) (remdups hashXs)\<rparr>)
        xs (int (n + 1)) (count + length (remdups hashXs)) = Inr h'" (is "add_unflushed_loop ?h _ _ _ = _")
    by (auto simp: rbind_eq_Inr Let_def algebra_simps)
  note enc = tx_numb_decode [OF b] 
  have n: "n < 2 ^ 40" using Cons.prems(4) by simp
  have get: "map_of (unflushed ?h) k = (if k \<in> set hashXs
      then Some ((case map_of (unflushed h) k of Some x \<Rightarrow> x | None \<Rightarrow> []) @ take 5 b)
      else map_of (unflushed h) k)" for k
    by (simp add: extend_all)
  have five: "5 dvd length (case map_of (unflushed h) k of Some x \<Rightarrow> x | None \<Rightarrow> [])" for k
    using Cons.prems(2) by (auto simp: pending_ok_def split: option.splits)
  have "pending_ok ?h"
    unfolding pending_ok_def get
    using Cons.prems(2,3) enc(1) [OF n] five
    by (auto simp: extend_all_ok pending_ok_def dvd_add split: if_splits)
  moreover have "pending_history ?h hashX = pending_history h hashX @ (if hashX \<in> set hashXs then [n] else [])"
    unfolding pending_history_def get
    using five [of hashX] enc(2) [OF n] by (auto simp: decode_row_append split: option.splits)
  ultimately show ?case using Cons.IH [OF rec] Cons.prems(3,4) by simp
qed

lemma add_unflushed_spec:
  assumes "add_unflushed h xs (int n) = Inr h'" and "history_ok h"
    and "\<forall>hashXs \<in> set xs. \<forall>hX \<in> set hashXs. length hX = 11" and "n + length xs \<le> 2 ^ 40"
  shows "history_ok h'" and "hist_db h' = hist_db h" and "flush_count h' = flush_count h"
    and "history_of h' hashX = history_of h hashX @ touching hashX xs n"
  using add_unflushed_loop_spec [OF assms(1) [unfolded add_unflushed_def] _ assms(3,4)] assms(2)
  by (auto simp: history_ok_def history_of_def)

lemma add_unflushed_total:
  "n + length xs \<le> 2 ^ 64 \<Longrightarrow> \<exists>h'. add_unflushed_loop h xs (int n) count = Inr h'"
proof (induction xs arbitrary: h n count)
  case (Cons x xs)
  then have "int n < 2 ^ 64" by simp
  then obtain b where "pack_le_uint64 (int n) = Inr b" by (auto simp: pack_le_uint64_def pack_uint_def)
  moreover have "\<exists>h'. add_unflushed_loop h2 xs (int n + 1) c = Inr h'" for h2 c
    using Cons.IH [of "n + 1" h2 c] Cons.prems by (simp add: add.commute)
  ultimately show ?case by (simp add: Let_def)
qed simp

section \<open>Backing up\<close>

lemma bisect_loop_spec:
  assumes "lo \<le> hi" and "hi \<le> length a" and "sorted a"
    and "\<forall>i < lo. int (a ! i) < x" and "\<forall>i < length a. hi \<le> i \<longrightarrow> x \<le> int (a ! i)"
  shows "bisect_loop a x lo hi \<le> length a \<and> (\<forall>i < bisect_loop a x lo hi. int (a ! i) < x)
    \<and> (\<forall>i < length a. bisect_loop a x lo hi \<le> i \<longrightarrow> x \<le> int (a ! i))"
  using assms
proof (induction a x lo hi rule: bisect_loop.induct)
  case (1 a x lo hi)
  show ?case
  proof (cases "lo < hi")
    case False
    then have "bisect_loop a x lo hi = lo" by (simp add: bisect_loop.simps [of a x lo hi])
    with 1(3-7) False show ?thesis by simp
  next
    case True
    let ?mid = "(lo + hi) div 2"
    have mid: "lo \<le> ?mid" "?mid < hi" "?mid < length a" using True 1(4) by simp_all
    show ?thesis
    proof (cases "int (a ! ?mid) < x")
      case lt: True
      have "int (a ! i) < x" if "i < ?mid + 1" for i
        using sorted_nth_mono [OF 1(5), of i ?mid] that mid lt by simp
      then have "\<forall>i < ?mid + 1. int (a ! i) < x" by blast
      moreover have "bisect_loop a x lo hi = bisect_loop a x (?mid + 1) hi"
        using True lt by (simp add: bisect_loop.simps [of a x lo hi] Let_def)
      ultimately show ?thesis using 1(1) [OF True refl lt _ 1(4,5) _ 1(7)] mid by simp
    next
      case False
      have "x \<le> int (a ! i)" if "i < length a" "?mid \<le> i" for i
        using sorted_nth_mono [OF 1(5) that(2,1)] False by linarith
      then have "\<forall>i < length a. ?mid \<le> i \<longrightarrow> x \<le> int (a ! i)" by blast
      moreover have "bisect_loop a x lo hi = bisect_loop a x lo ?mid"
        using True False by (simp add: bisect_loop.simps [of a x lo hi] Let_def)
      ultimately show ?thesis using 1(2) [OF True refl False mid(1) _ 1(5,6)] mid by simp
    qed
  qed
qed

lemma bisect_left_take:
  assumes "sorted a"
  shows "take (bisect_left a x) a = filter (\<lambda>n. int n < x) a"
proof -
  let ?i = "bisect_left a x"
  have s: "?i \<le> length a" "\<forall>i < ?i. int (a ! i) < x" "\<forall>i < length a. ?i \<le> i \<longrightarrow> x \<le> int (a ! i)"
    using bisect_loop_spec [of 0 "length a" a x] assms by (simp_all add: bisect_left_def)
  have "filter (\<lambda>n. int n < x) (take ?i a) = take ?i a"
    using s(1,2) by (auto simp: in_set_conv_nth intro!: filter_True)
  moreover have "filter (\<lambda>n. int n < x) (drop ?i a) = []"
    using s(1,3) by (auto simp: in_set_conv_nth filter_empty_conv not_less)
  ultimately show ?thesis using filter_append [of "\<lambda>n. int n < x" "take ?i a" "drop ?i a"] by simp
qed

lemma length_concat_const: "\<forall>c \<in> set cs. length c = n \<Longrightarrow> length (concat cs) = n * length cs"
  by (induction cs) simp_all

lemma tx_array_decode:
  assumes "5 dvd length hist"
  shows "tx_array hist = Inr (decode_row hist)"
proof -
  let ?cs = "map (\<lambda>item. item @ zero_bytes 3) (chunks_list 5 hist)"
  have eight: "\<forall>c \<in> set ?cs. length c = 8" using chunks_list_lengths [OF _ assms] by auto
  then have "length (concat ?cs) = 8 * length ?cs" by (rule length_concat_const)
  then have m: "length (concat ?cs) mod 8 = 0" by simp
  have "map le_dec (chunks_list 8 (concat ?cs)) = decode_row hist"
    using chunks_list_concat [OF _ eight] by (simp add: decode_row_def le_dec_append)
  then show ?thesis unfolding tx_array_def Let_def using m by simp
qed

text \<open>What backing up does to the rows of one script hash, seen from the last row.\<close>

lemma backup_rows_spec:
  assumes "\<forall>(k, v) \<in> set rows. v \<noteq> [] \<and> 5 dvd length v"
    and "sorted_wrt (<) (concat (map (\<lambda>(k, v). decode_row v) (rev rows)))"
  shows "\<exists>pre post. backup_rows c rows = Inr (map fst pre, map (\<lambda>(k, v). (k, take (5 * bisect_left (decode_row v) c) v)) (take 1 post))
    \<and> rows = pre @ post \<and> (\<forall>(k, v) \<in> set (take 1 post). 0 < bisect_left (decode_row v) c)
    \<and> filter (\<lambda>n. int n < c) (concat (map (\<lambda>(k, v). decode_row v) (rev rows)))
      = concat (map (\<lambda>(k, v). decode_row v) (rev (drop 1 post)))
        @ concat (map (\<lambda>(k, v). take (bisect_left (decode_row v) c) (decode_row v)) (take 1 post))"
  using assms
proof (induction rows)
  case Nil
  show ?case by (rule exI [of _ "[]"], rule exI [of _ "[]"]) simp
next
  case (Cons row rows)
  obtain k v where row: "row = (k, v)" by (cases row)
  let ?P = "\<lambda>n. int n < c" and ?d = "\<lambda>rows. concat (map (\<lambda>(k, v). decode_row v) (rev rows))"
  have arr: "tx_array v = Inr (decode_row v)" using Cons.prems(1) row by (simp add: tx_array_decode)
  have srt: "sorted_wrt (<) (?d rows)" "sorted_wrt (<) (decode_row v)"
      "\<forall>a \<in> set (?d rows). \<forall>b \<in> set (decode_row v). a < b"
    using Cons.prems(2) row by (simp_all add: sorted_wrt_append)
  have tk: "take (bisect_left (decode_row v) c) (decode_row v) = filter ?P (decode_row v)"
    using srt(2) by (intro bisect_left_take) (simp add: strict_sorted_iff)
  show ?case
  proof (cases "0 < bisect_left (decode_row v) c")
    case True
    have "filter ?P (decode_row v) \<noteq> []"
    proof -
      have "0 < length (decode_row v)" using Cons.prems(1) row length_decode_row [of v] by (auto elim!: dvdE)
      with True show ?thesis by (simp add: tk [symmetric])
    qed
    then obtain b where "b \<in> set (decode_row v)" "int b < c" by (auto simp: filter_empty_conv)
    with srt(3) have "\<forall>a \<in> set (?d rows). ?P a" by fastforce
    then have "filter ?P (?d rows) = ?d rows" by (rule filter_True)
    then show ?thesis using True
      by (intro exI [of _ "[]"] exI [of _ "row # rows"]) (simp add: row arr tk)
  next
    case False
    then have none: "filter ?P (decode_row v) = []" using tk by simp
    obtain pre post where IH: "backup_rows c rows = Inr (map fst pre,
        map (\<lambda>(k, v). (k, take (5 * bisect_left (decode_row v) c) v)) (take 1 post))"
        "rows = pre @ post" "\<forall>(k, v) \<in> set (take 1 post). 0 < bisect_left (decode_row v) c"
        "filter ?P (?d rows) = ?d (drop 1 post)
          @ concat (map (\<lambda>(k, v). take (bisect_left (decode_row v) c) (decode_row v)) (take 1 post))"
      using Cons.IH srt(1) Cons.prems(1) by auto
    then show ?thesis using False none
      by (intro exI [of _ "row # pre"] exI [of _ post]) (simp add: row arr)
  qed
qed

fun op_key :: "batch_op \<Rightarrow> bytes" where
  "op_key (Put k v) = k"
| "op_key (Delete k) = k"

lemma fold_op_some: "fold op_map ops m k = Some v \<Longrightarrow> m k = Some v \<or> Put k v \<in> set ops"
proof (induction ops arbitrary: m)
  case (Cons op ops)
  then have "op_map op m k = Some v \<or> Put k v \<in> set ops" by simp
  then show ?case by (cases op) (auto split: if_splits)
qed simp

lemma fold_op_cong: "m k = m' k \<Longrightarrow> fold op_map ops m k = fold op_map ops m' k"
proof (induction ops arbitrary: m m')
  case (Cons op ops)
  then have "op_map op m k = op_map op m' k" by (cases op) simp_all
  then have "fold op_map ops (op_map op m) k = fold op_map ops (op_map op m') k" by (rule Cons.IH)
  then show ?case by (simp only: fold.simps o_apply)
qed simp

lemma fold_op_other: "k \<notin> op_key ` set ops \<Longrightarrow> fold op_map ops m k = m k"
proof (induction ops arbitrary: m)
  case (Cons op ops)
  then show ?case by (cases op) simp_all
qed simp

lemma restrict_add_cong: "m k = m' k \<Longrightarrow> (m |` A ++ f) k = (m' |` A ++ f) k"
  by (simp add: restrict_map_def map_add_def split: option.splits)

lemma map_of_replaced:
  assumes "distinct (map fst (D @ T @ P))" and "map fst C = map fst T" and "S = set (map fst P)"
  shows "(map_of (D @ T @ P) |` (- S) ++ map_of C) k = map_of (D @ C) k"
proof -
  have none: "map_of X k = None \<longleftrightarrow> k \<notin> set (map fst X)" for X
    by (simp add: map_of_eq_None_iff)
  have C: "k \<in> set (map fst C) \<longleftrightarrow> k \<in> set (map fst T)" by (simp only: assms(2))
  consider "k \<in> set (map fst P)" | "k \<in> set (map fst T)" "k \<notin> set (map fst P)"
    | "k \<notin> set (map fst T)" "k \<notin> set (map fst P)" by blast
  then show ?thesis
  proof cases
    case 1
    then have "k \<notin> set (map fst D)" "k \<notin> set (map fst C)" using assms(1) unfolding C by auto
    then have "map_of D k = None" "map_of C k = None" using none by blast+
    with 1 show ?thesis by (simp add: map_add_def restrict_map_def assms(3))
  next
    case 2
    then have "k \<notin> set (map fst D)" "k \<in> set (map fst C)" using assms(1) unfolding C by auto
    with none have "map_of D k = None" by blast
    moreover obtain v where "map_of C k = Some v" using none \<open>k \<in> set (map fst C)\<close> by blast
    ultimately show ?thesis by (simp add: map_add_def)
  next
    case 3
    then have "map_of C k = None" "map_of T k = None" "map_of P k = None" using none C by blast+
    with 3 show ?thesis by (simp add: map_add_def restrict_map_def assms(3) split: option.splits)
  qed
qed

text \<open>The rows left after a backup, and their history.\<close>

lemma backup_hashX_spec:
  assumes "rows_ok n kv" and "length hashX = 11" and "sorted_wrt (<) (stored_history kv hashX)"
    and "backup_hashX kv c hashX = Inr ops" and "kv_ok kv'"
    and "\<And>k. starts_with hashX k \<Longrightarrow> kv_get kv' k = fold op_map ops (kv_get kv) k"
  shows "stored_history kv' hashX = filter (\<lambda>n. int n < c) (stored_history kv hashX)
    \<and> (\<forall>op \<in> set ops. starts_with hashX (op_key op)
        \<and> (\<forall>k v. op = Put k v \<longrightarrow> row_ok n k v))"
proof -
  let ?old = "kv_iter kv hashX False" and ?i = "\<lambda>v. bisect_left (decode_row v) c"
  let ?cut = "\<lambda>(k, v :: bytes). (k :: bytes, take (5 * ?i v) v)"
  have kv: "kv_ok kv" using assms(1) by (simp add: rows_ok_def)
  have wf: "\<forall>(k, v) \<in> set (rev ?old). v \<noteq> [] \<and> 5 dvd length v"
    using row_of_hashX [OF assms(1,2)] by fastforce
  obtain pre post where b: "backup_rows c (rev ?old) = Inr (map fst pre, map ?cut (take 1 post))"
      "rev ?old = pre @ post" "\<forall>(k, v) \<in> set (take 1 post). 0 < ?i v"
      "filter (\<lambda>n. int n < c) (stored_history kv hashX)
       = concat (map (\<lambda>(k, v). decode_row v) (rev (drop 1 post)))
        @ concat (map (\<lambda>(k, v). take (?i v) (decode_row v)) (take 1 post))"
    using backup_rows_spec [OF wf, of c, unfolded rev_rev_ident, folded stored_history_def, OF assms(3)] by blast
  have ops: "ops = map Delete (map fst pre) @ map (\<lambda>(k, v). Put k v) (map ?cut (take 1 post))"
    using assms(4) b(1) by (simp add: backup_hashX_def kv_iter_reverse)
  have old: "?old = rev (drop 1 post) @ take 1 post @ rev pre"
  proof -
    have "?old = rev (pre @ post)" using b(2) by (metis rev_rev_ident)
    then show ?thesis by (cases post) simp_all
  qed
  let ?new = "rev (drop 1 post) @ map ?cut (take 1 post)"
  have keys: "map fst (map ?cut xs) = map fst xs" for xs by (induction xs) auto
  have srt: "sorted_wrt (<) (map fst (rev (drop 1 post) @ take 1 post @ rev pre))"
    using kv_iter_sorted [OF kv, of hashX] by (simp only: old sorted_wrt_map)
  have new_sorted: "sorted_wrt (\<lambda>x y. fst x < fst y) ?new"
  proof -
    have "sorted_wrt (<) (map fst ?new)" using srt by (simp only: map_append keys) (auto simp: sorted_wrt_append)
    then show ?thesis by (simp only: sorted_wrt_map)
  qed
  have dist: "distinct (map fst (rev (drop 1 post) @ take 1 post @ rev pre))"
    using srt by (simp only: strict_sorted_iff)
  have get: "kv_get kv k = map_of (rev (drop 1 post) @ take 1 post @ rev pre) k" if "starts_with hashX k" for k
  proof -
    have "kv_get kv k = Some v \<longleftrightarrow> map_of (rev (drop 1 post) @ take 1 post @ rev pre) k = Some v" for v
      using kv_iter_mem [OF kv, of k v hashX False] that old dist by (metis map_of_eq_Some_iff)
    then show ?thesis by (metis option.exhaust)
  qed
  have mem: "(k, v) \<in> set ?new \<longleftrightarrow> starts_with hashX k \<and> kv_get kv' k = Some v" for k v
  proof (cases "starts_with hashX k")
    case True
    have one: "rev (map ?cut (take 1 post)) = map ?cut (take 1 post)" by (cases post) simp_all
    have "kv_get kv' k = (kv_get kv |` (- set (map fst pre)) ++ map_of (map ?cut (take 1 post))) k"
      by (simp only: assms(6) [OF True] ops fold_append o_apply fold_deletes fold_puts one)
    also have "\<dots> = (map_of (rev (drop 1 post) @ take 1 post @ rev pre) |` (- set (map fst pre))
        ++ map_of (map ?cut (take 1 post))) k"
      by (rule restrict_add_cong) (rule get [OF True])
    also have "\<dots> = map_of ?new k" by (rule map_of_replaced [OF dist keys]) simp
    finally have eq: "kv_get kv' k = map_of ?new k" .
    have "distinct (map fst ?new)"
      using new_sorted by (simp only: sorted_wrt_map [symmetric] strict_sorted_iff)
    from map_of_eq_Some_iff [OF this] True show ?thesis by (simp only: eq simp_thms)
  next
    case False
    have "\<forall>e \<in> set ?old. starts_with hashX (fst e)" using kv_iter_mem [OF kv] by auto
    then have "\<forall>e \<in> set ?new. starts_with hashX (fst e)"
      unfolding old by (cases post) auto
    with False show ?thesis by fastforce
  qed
  have "kv_iter kv' hashX False = ?new" by (rule kv_iter_eqI [OF assms(5) new_sorted mem])
  moreover have "\<forall>(k, v) \<in> set (take 1 post). 5 dvd length v"
    using wf b(2) by (cases post) auto
  ultimately have st: "stored_history kv' hashX = filter (\<lambda>n. int n < c) (stored_history kv hashX)"
    using b(4) by (cases post) (auto simp: stored_history_def decode_row_take)
  have in_old: "starts_with hashX k \<and> row_ok n k v" if "(k, v) \<in> set ?old" for k v
    using kv_iter_mem [OF kv, of k v hashX False] assms(1) that by (auto simp: rows_ok_def)
  have cut_ok: "row_ok n k (take (5 * ?i v) v)" if "(k, v) \<in> set (take 1 post)" for k v
  proof -
    have "(k, v) \<in> set ?old" using that unfolding old by simp
    from row_of_hashX [OF assms(1,2) this] obtain s where k: "k = hashX @ s" "length s = 4" "v \<noteq> []"
      "5 dvd length v" "int (be_dec s) \<le> n" by blast
    have "0 < ?i v" using b(3) that by fastforce
    moreover have "5 dvd min (length v) (5 * ?i v)" using k(4) by (simp add: min_def)
    ultimately show ?thesis using k assms(2) by (simp add: row_ok_def)
  qed
  have "starts_with hashX (op_key op) \<and> (\<forall>k v. op = Put k v \<longrightarrow> row_ok n k v)" if "op \<in> set ops" for op
  proof -
    from that consider k v where "op = Delete k" "(k, v) \<in> set pre"
      | k v where "op = Put k (take (5 * ?i v) v)" "(k, v) \<in> set (take 1 post)"
      by (auto simp: ops)
    then show ?thesis
    proof cases
      case 1
      then have "(k, v) \<in> set ?old" unfolding old by simp
      with in_old 1 show ?thesis by simp
    next
      case 2
      then have "(k, v) \<in> set ?old" unfolding old by simp
      with in_old 2 cut_ok [OF 2(2)] show ?thesis by simp
    qed
  qed
  with st show ?thesis by blast
qed

lemma backup_hashX_total:
  assumes "rows_ok n kv" and "length hashX = 11" and "sorted_wrt (<) (stored_history kv hashX)"
  shows "\<exists>ops. backup_hashX kv c hashX = Inr ops"
proof -
  have wf: "\<forall>(k, v) \<in> set (rev (kv_iter kv hashX False)). v \<noteq> [] \<and> 5 dvd length v"
    using row_of_hashX [OF assms(1,2)] by fastforce
  show ?thesis
    using backup_rows_spec [OF wf, of c, unfolded rev_rev_ident, folded stored_history_def, OF assms(3)]
    by (auto simp: backup_hashX_def kv_iter_reverse)
qed

lemma mapM_total: "(\<And>x. x \<in> set xs \<Longrightarrow> \<exists>y. f x = Inr y) \<Longrightarrow> \<exists>ys. mapM f xs = Inr ys"
proof (induction xs)
  case (Cons x xs)
  then obtain y ys where "f x = Inr y" "mapM f xs = Inr ys" by (metis list.set_intros)
  then show ?case by simp
qed simp

lemma starts_with_same: "starts_with a k \<Longrightarrow> starts_with b k \<Longrightarrow> length a = length b \<Longrightarrow> a = b"
  by (auto simp: starts_with_def)

text \<open>The operations on the keys of one script hash, out of the batch of all of them.\<close>

lemma backup_batch:
  assumes "\<And>hX op. hX \<in> set hashXs \<Longrightarrow> op \<in> set (f hX) \<Longrightarrow> starts_with hX (op_key op)"
    and "distinct hashXs" and "\<And>hX. hX \<in> set hashXs \<Longrightarrow> length hX = 11"
    and "length hashX = 11" and "starts_with hashX k"
  shows "fold op_map (concat (map f hashXs)) m k = (if hashX \<in> set hashXs then fold op_map (f hashX) m k else m k)"
  using assms(1-3)
proof (induction hashXs arbitrary: m)
  case Nil
  then show ?case by simp
next
  case (Cons hX hashXs)
  have IH: "fold op_map (concat (map f hashXs)) m k = (if hashX \<in> set hashXs then fold op_map (f hashX) m k else m k)" for m
    using Cons.IH Cons.prems by simp
  show ?case
  proof (cases "hX = hashX")
    case True
    then show ?thesis using Cons.prems(2) by (simp add: IH)
  next
    case False
    have "k \<notin> op_key ` set (f hX)"
    proof
      assume "k \<in> op_key ` set (f hX)"
      then have "starts_with hX k" using Cons.prems(1) [of hX] by auto
      with False show False using starts_with_same [OF assms(5), of hX] assms(4) Cons.prems(3) [of hX] by simp
    qed
    then have same: "fold op_map (f hX) m k = m k" by (rule fold_op_other)
    then show ?thesis using fold_op_cong [of "fold op_map (f hX) m" k m "f hashX"] same False by (simp add: IH)
  qed
qed

lemma backup_spec:
  assumes "history_ok h" and "unflushed h = []" and "below h n" and "distinct hashXs"
    and "\<forall>hX \<in> set hashXs. length hX = 11"
  shows "\<exists>h'. backup h hashXs c = Inr h' \<and> history_ok h' \<and> unflushed h' = []
    \<and> (\<forall>hashX. length hashX = 11 \<longrightarrow> history_of h' hashX =
        (if hashX \<in> set hashXs then filter (\<lambda>n. int n < c) (history_of h hashX) else history_of h hashX))"
proof -
  let ?kv = "hist_db h" and ?xs = "sort hashXs"
  define f where "f hX = projr (backup_hashX ?kv c hX)" for hX
  have ok: "rows_ok (flush_count h) ?kv" "kv_ok ?kv" using assms(1) by (simp_all add: history_ok_def rows_ok_def)
  have hist: "history_of h hX = stored_history ?kv hX" for hX
    using assms(2) by (simp add: history_of_def pending_history_def)
  have srt: "sorted_wrt (<) (stored_history ?kv hX)" if "length hX = 11" for hX
    using assms(3) that by (simp add: below_def hist)
  have f: "backup_hashX ?kv c hX = Inr (f hX)" if "hX \<in> set ?xs" for hX
    using backup_hashX_total [OF ok(1) _ srt, of hX c] assms(5) that by (auto simp: f_def)
  define ops where "ops = concat (map f ?xs)"
  have "mapM (backup_hashX ?kv c) ?xs = Inr (map f ?xs)" by (rule mapM_Inr) (rule f)
  then obtain ws where b: "backup h hashXs c = Inr (commit (h\<lparr>flush_count := flush_count h + 1\<rparr>) (ops @ write_state ws))"
    by (simp add: backup_def ops_def Let_def)
  let ?h = "commit (h\<lparr>flush_count := flush_count h + 1\<rparr>) (ops @ write_state ws)"
  have pre: "starts_with hX (op_key op) \<and> (\<forall>k v. op = Put k v \<longrightarrow> row_ok (flush_count h) k v)"
    if "hX \<in> set ?xs" "op \<in> set (f hX)" for hX op
  proof -
    have len: "length hX = 11" using assms(5) that(1) by simp
    let ?kv' = "apply_batch (f hX) ?kv"
    have "kv_ok ?kv'" "kv_get ?kv' k = fold op_map (f hX) (kv_get ?kv) k" for k
      using ok(2) by (simp_all add: kv_get_apply_batch)
    from backup_hashX_spec [OF ok(1) len srt [OF len] f [OF that(1)] this] that(2) show ?thesis by blast
  qed
  have get: "kv_get (hist_db ?h) k = (if hashX \<in> set hashXs then fold op_map (f hashX) (kv_get ?kv) k else kv_get ?kv k)"
    if "length hashX = 11" "starts_with hashX k" for hashX k
  proof -
    have "kv_get (hist_db ?h) k = fold op_map ops (kv_get ?kv) k"
      using kv_get_batch [OF ok(2) hashX_not_state [OF that]] by simp
    also have "\<dots> = (if hashX \<in> set ?xs then fold op_map (f hashX) (kv_get ?kv) k else kv_get ?kv k)"
      unfolding ops_def by (rule backup_batch) (use pre assms(4,5) that in auto)
    finally show ?thesis by simp
  qed
  have st: "stored_history (hist_db ?h) hashX =
      (if hashX \<in> set hashXs then filter (\<lambda>n. int n < c) (stored_history ?kv hashX) else stored_history ?kv hashX)"
    if len: "length hashX = 11" for hashX
  proof (cases "hashX \<in> set hashXs")
    case True
    with get [OF len] backup_hashX_spec [OF ok(1) len srt [OF len] f, of "hist_db ?h"] ok(2) show ?thesis by simp
  next
    case False
    then have "kv_iter (hist_db ?h) hashX False = kv_iter ?kv hashX False"
      using get [OF len] ok(2) by (intro kv_iter_cong) auto
    with False show ?thesis by (simp add: stored_history_def)
  qed
  have "row_ok (flush_count ?h) k v" if "kv_get (hist_db ?h) k = Some v" for k v
  proof (cases "k = state_key")
    case False
    then have "fold op_map ops (kv_get ?kv) k = Some v"
      using that kv_get_batch [OF ok(2) False] by simp
    then have "kv_get ?kv k = Some v \<or> Put k v \<in> set ops" by (rule fold_op_some)
    then have "row_ok (flush_count h) k v"
      using ok(1) pre by (auto simp: rows_ok_def ops_def)
    then show ?thesis by (auto simp: row_ok_def)
  qed (simp add: row_ok_def)
  then have "history_ok ?h" using assms(1) ok(2) by (simp add: history_ok_def rows_ok_def pending_ok_def)
  moreover have "history_of ?h hashX = stored_history (hist_db ?h) hashX" for hashX
    using assms(2) by (simp add: history_of_def pending_history_def)
  ultimately show ?thesis using b assms(2) st hist by auto
qed

section \<open>Opening after an unclean shutdown\<close>

definition state_text :: "history \<Rightarrow> bytes" where
  "state_text h = encode (repr_dict
     [(''flush_count'', flush_count h), (''comp_flush_count'', comp_flush_count h),
      (''comp_cursor'', comp_cursor h), (''db_version'', hist_version h),
      (''upgrade_cursor'', upgrade_cursor h)])"

lemma write_state_text: "write_state h = [Put state_key (state_text h)]"
  by (simp add: write_state_def state_text_def)

lemma quote_char: "quote = CHR 0x27"
  by (simp add: quote_def char_of_def bit_0)

lemma literal_eval_state:
  "literal_eval (decode (state_text h)) = Inr (DictL
     [(''flush_count'', flush_count h), (''comp_flush_count'', comp_flush_count h),
      (''comp_cursor'', comp_cursor h), (''db_version'', hist_version h),
      (''upgrade_cursor'', upgrade_cursor h)])"
  unfolding state_text_def decode_encode
  by (rule literal_eval_repr) (simp_all add: dict_ok_def dict_keys_def quote_char)

lemma state_text_not_Nil: "state_text h \<noteq> []"
  by (simp add: state_text_def repr_dict_def)

lemma read_state_written:
  assumes "kv_get (hist_db g) state_key = Some (state_text h)" and "hist_version h = 2"
  shows "read_state g = Inr (g\<lparr>flush_count := flush_count h, comp_flush_count := comp_flush_count h,
    comp_cursor := comp_cursor h, hist_version := 2, upgrade_cursor := upgrade_cursor h\<rparr>)"
proof -
  obtain b bs where t: "state_text h = b # bs" using state_text_not_Nil by (cases "state_text h") auto
  have "literal_eval (decode (b # bs)) = Inr (DictL
     [(''flush_count'', flush_count h), (''comp_flush_count'', comp_flush_count h),
      (''comp_cursor'', comp_cursor h), (''db_version'', hist_version h),
      (''upgrade_cursor'', upgrade_cursor h)])"
    using literal_eval_state [of h] by (simp only: t)
  then show ?thesis
    using assms by (simp add: read_state_def t load_state_def DB_VERSIONS_def Let_def)
qed

lemma clear_excess_spec:
  assumes "rows_ok n (hist_db h)" and "u < flush_count h"
  shows "\<exists>h'. clear_excess h u = Inr h' \<and> flush_count h' = u \<and> unflushed h' = unflushed h \<and> kv_ok (hist_db h')
    \<and> comp_cursor h' = comp_cursor h
    \<and> (\<forall>k. k \<noteq> state_key \<longrightarrow> kv_get (hist_db h') k =
         (if u < int (be_dec (takelast 4 k)) then None else kv_get (hist_db h) k))"
proof -
  let ?kv = "hist_db h" and ?rows = "kv_iter (hist_db h) [] False"
  let ?id = "\<lambda>key. int (be_dec (takelast 4 key))"
  have kv: "kv_ok ?kv" using assms(1) by (simp add: rows_ok_def)
  have mem: "(k, v) \<in> set ?rows \<longleftrightarrow> kv_get ?kv k = Some v" for k v
    using kv_iter_mem [OF kv, of k v "[]" False] by (simp add: starts_with_def)
  have "row_ok n k v" if "(k, v) \<in> set ?rows" for k v
    using assms(1) that mem by (simp add: rows_ok_def)
  then have "4 \<le> length k" if "(k, v) \<in> set ?rows" for k v
    using that length_state_key by (fastforce simp: row_ok_def)
  then have ids: "mapM (\<lambda>(key, hist). rbind (unpack_be_uint32_from (takelast 4 key) 0) (\<lambda>flush_id. Inr (key, int flush_id))) ?rows
      = Inr (map (\<lambda>(key, hist). (key, ?id key)) ?rows)"
    by (intro mapM_Inr) (auto simp: unpack_be_uint32_from_def slice_def)
  define keys where "keys = map fst (filter (\<lambda>(key, flush_id). flush_id > u) (map (\<lambda>(key, hist). (key, ?id key)) ?rows))"
  let ?h = "h\<lparr>flush_count := u\<rparr>"
  have eq: "clear_excess h u = Inr (commit ?h (map Delete keys @ write_state ?h))"
    using assms(2) by (simp add: clear_excess_def ids keys_def Let_def)
  have keys: "k \<in> set keys \<longleftrightarrow> u < ?id k \<and> kv_get ?kv k \<noteq> None" for k
  proof -
    have "k \<in> set keys \<longleftrightarrow> (\<exists>v. (k, v) \<in> set ?rows \<and> u < ?id k)" by (force simp: keys_def)
    then show ?thesis using mem by auto
  qed
  have "kv_get (hist_db (commit ?h (map Delete keys @ write_state ?h))) k =
      (if u < int (be_dec (takelast 4 k)) then None else kv_get ?kv k)" if "k \<noteq> state_key" for k
  proof -
    have "kv_get (hist_db (commit ?h (map Delete keys @ write_state ?h))) k = (kv_get ?kv |` (- set keys)) k"
      using that by (simp add: kv_get_batch [OF kv] fold_deletes)
    then show ?thesis using keys [of k] by (auto simp: restrict_map_def)
  qed
  then show ?thesis using kv by (intro exI [of _ "commit ?h (map Delete keys @ write_state ?h)"]) (simp add: eq)
qed

lemma get_txnums_cong:
  assumes "kv_iter (hist_db h) hashX False = kv_iter (hist_db g) hashX False"
  shows "get_txnums h hashX limit reverse = get_txnums g hashX limit reverse"
  using assms by (cases reverse) (simp_all add: get_txnums_def kv_iter_reverse)

lemma flush_total:
  assumes "0 \<le> flush_count h" and "flush_count h < 4294967295"
  shows "\<exists>h'. flush h = Inr h'"
  using assms by (simp add: flush_def Let_def pack_be_uint32_Inr [THEN iffD2] )

text \<open>A flush that the UTXO database did not see is undone when the database is opened again.\<close>

lemma reopen_after_flush:
  assumes "history_ok h" and "flush h = Inr h'" and "hist_version h = 2" and "length hashX = 11"
  shows "\<exists>g'. open_db g (hist_db h') (flush_count h) compacting = Inr g'
    \<and> flush_count g' = flush_count h
    \<and> kv_iter (hist_db g') hashX False = kv_iter (hist_db h) hashX False"
proof -
  have kv: "kv_ok (hist_db h)" and ok: "rows_ok (flush_count h) (hist_db h)"
    using assms(1) by (simp_all add: history_ok_def rows_ok_def)
  note r = flush_eq [OF assms(2)]
  have "kv_get (hist_db h') state_key = Some (state_text (h\<lparr>flush_count := flush_count h + 1\<rparr>))"
    using assms(2) kv by (auto simp: flush_def rbind_eq_Inr Let_def kv_get_apply_batch write_state_text)
  then obtain g1 where g1: "read_state (g\<lparr>hist_db := hist_db h'\<rparr>) = Inr g1" "hist_db g1 = hist_db h'"
      "flush_count g1 = flush_count h + 1"
    using read_state_written [of "g\<lparr>hist_db := hist_db h'\<rparr>"] assms(3) by fastforce
  have "rows_ok (flush_count h + 1) (hist_db g1)"
    using flush_ok [OF assms(1,2)] r(6) g1(2) by (simp add: history_ok_def)
  from clear_excess_spec [OF this, of "flush_count h"] g1(3) obtain g2 where
    g2: "clear_excess g1 (flush_count h) = Inr g2" "flush_count g2 = flush_count h" "kv_ok (hist_db g2)"
      "\<And>k. k \<noteq> state_key \<Longrightarrow> kv_get (hist_db g2) k =
         (if flush_count h < int (be_dec (takelast 4 k)) then None else kv_get (hist_db h') k)"
    using g1(2) by auto
  have "kv_iter (hist_db g2) hashX False = kv_iter (hist_db h) hashX False"
  proof (rule kv_iter_eqI [OF g2(3) kv_iter_sorted [OF kv]])
    fix k v
    let ?old = "kv_iter (hist_db h) hashX False"
    have kv': "kv_ok (hist_db h')" using flush_ok [OF assms(1,2)] by (simp add: history_ok_def rows_ok_def)
    have old: "int (be_dec (takelast 4 k)) \<le> flush_count h" if "(k, v) \<in> set ?old"
      using row_of_hashX [OF ok assms(4) that] by auto
    have h': "(k, v) \<in> set ?old \<or> map_of (unflushed h) hashX = Some v \<and> k = hashX @ be_enc 4 (nat (flush_count h + 1))
        \<longleftrightarrow> starts_with hashX k \<and> kv_get (hist_db h') k = Some v"
      using kv_iter_mem [OF kv', of k v hashX False] flush_iter [OF assms(1,2,4)] by (auto split: option.splits)
    have new: "flush_count h < int (be_dec (takelast 4 (hashX @ be_enc 4 (nat (flush_count h + 1)))))"
      using r(1,2) by simp
    show "(k, v) \<in> set ?old \<longleftrightarrow> starts_with hashX k \<and> kv_get (hist_db g2) k = Some v"
    proof (cases "starts_with hashX k")
      case True
      then have "kv_get (hist_db g2) k = Some v \<longleftrightarrow> \<not> flush_count h < int (be_dec (takelast 4 k)) \<and> kv_get (hist_db h') k = Some v"
        using g2(4) [OF hashX_not_state [OF assms(4) True]] by simp
      with True old new h' show ?thesis by fastforce
    next
      case False
      with kv_iter_mem [OF kv, of k v hashX False] show ?thesis by simp
    qed
  qed
  with g1(1) g2(1,2) show ?thesis by (simp add: open_db_def cancel_compaction_def)
qed

section \<open>The properties\<close>

definition sample_history :: history where
  "sample_history = init_history\<lparr>hist_db := [(replicate 11 7 @ [0, 0, 0, 1], le_enc 5 3 @ le_enc 5 8)], flush_count := 1\<rparr>"

text \<open>C8: Adding the script hashes a block touches and flushing makes the history of every script
  hash its old history followed by the numbers of the transactions that touch it, and that is what
  \<open>get_txnums\<close> returns.\<close>

theorem history_flush_appends:
  assumes "history_ok h" and "length hashX = 11" and "n + length xs \<le> 2 ^ 40"
    and "\<forall>hashXs \<in> set xs. \<forall>hX \<in> set hashXs. length hX = 11"
    and "0 \<le> flush_count h" and "flush_count h < 4294967295"
  shows "\<exists>h1 h2. add_unflushed h xs (int n) = Inr h1 \<and> flush h1 = Inr h2 \<and> history_ok h2
    \<and> get_txnums h2 hashX None False = Inr (history_of h hashX @ touching hashX xs n)"
proof -
  have "n + length xs \<le> 2 ^ 64" using assms(3) by simp
  from add_unflushed_total [OF this] obtain h1 where h1: "add_unflushed h xs (int n) = Inr h1"
    unfolding add_unflushed_def by blast
  note a = add_unflushed_spec [OF h1 assms(1,4,3)]
  from flush_total [of h1] assms(5,6) obtain h2 where h2: "flush h1 = Inr h2" by (auto simp: a(3))
  have "rows_ok (flush_count h2) (hist_db h2)" using flush_ok [OF a(1) h2] by (simp add: history_ok_def)
  from get_txnums_spec [OF this assms(2), of None False]
  have "get_txnums h2 hashX None False = Inr (history_of h hashX @ touching hashX xs n)"
    by (simp add: flush_history(1) [OF a(1) h2 assms(2)] a(4))
  with h1 h2 flush_ok [OF a(1) h2] show ?thesis by blast
qed

lemma sample_history_ok: "history_ok sample_history" "below sample_history 9"
proof -
  have rows: "rows_ok 1 (hist_db sample_history)"
    by (auto simp: rows_ok_def sample_history_def kv_ok_def kv_get_def row_ok_def be_dec_def
        simp del: le_enc.simps split: if_splits dest!: arg_cong [of _ _ length])
  then show "history_ok sample_history"
    by (simp add: history_ok_def pending_ok_def) (simp add: sample_history_def init_history_def)
  have hist: "history_of sample_history hX = (if hX = replicate 11 7 then [3, 8] else [])" if "length hX = 11" for hX
  proof -
    have sw: "starts_with hX (replicate 11 7 @ s) \<longleftrightarrow> hX = replicate 11 7" for s :: bytes
      using that by (auto simp: starts_with_def)
    have "decode_row (le_enc 5 3 @ le_enc 5 8) = [3, 8]"
      by (simp add: decode_row_append decode_row_entry del: le_enc.simps)
    then show ?thesis
      by (simp add: history_of_def stored_history_def pending_history_def kv_iter_def scan_def
          effective_seek_def in_page_def Let_def sample_history_def init_history_def sw del: le_enc.simps)
  qed
  show "below sample_history 9" by (auto simp: below_def hist)
qed

theorem history_flush_appends_witness:
  "\<exists>h1 h2. add_unflushed sample_history [[replicate 11 7], [replicate 11 1, replicate 11 7]] (int 9) = Inr h1
    \<and> flush h1 = Inr h2 \<and> history_ok h2
    \<and> get_txnums h2 (replicate 11 7) None False = Inr (history_of sample_history (replicate 11 7)
        @ touching (replicate 11 7) [[replicate 11 7], [replicate 11 1, replicate 11 7]] 9)"
  by (rule history_flush_appends [OF sample_history_ok(1)]) (simp_all add: sample_history_def)

text \<open>C10: Backing up to a transaction count removes from the history of every given script hash
  exactly the transactions from that count on, and changes no other history.\<close>

theorem history_backup_truncates:
  assumes "history_ok h" and "unflushed h = []" and "below h n" and "distinct hashXs"
    and "\<forall>hX \<in> set hashXs. length hX = 11" and "length hashX = 11"
  shows "\<exists>h'. backup h hashXs c = Inr h' \<and> history_ok h' \<and> flush_count h' = flush_count h + 1
    \<and> get_txnums h' hashX None False =
        Inr (if hashX \<in> set hashXs then filter (\<lambda>n. int n < c) (history_of h hashX) else history_of h hashX)"
proof -
  from backup_spec [OF assms(1-5), of c] obtain h' where b: "backup h hashXs c = Inr h'" "history_ok h'"
      "unflushed h' = []" "history_of h' hashX =
        (if hashX \<in> set hashXs then filter (\<lambda>n. int n < c) (history_of h hashX) else history_of h hashX)"
    using assms(6) by blast
  have "stored_history (hist_db h') hashX = history_of h' hashX"
    using b(3) by (simp add: history_of_def pending_history_def)
  moreover have "rows_ok (flush_count h') (hist_db h')" using b(2) by (simp add: history_ok_def)
  ultimately have "get_txnums h' hashX None False = Inr (history_of h' hashX)"
    using get_txnums_spec [of _ h' hashX None False] assms(6) by simp
  moreover have "flush_count h' = flush_count h + 1"
    using b(1) by (auto simp: backup_def Let_def rbind_eq_Inr)
  ultimately show ?thesis using b by simp
qed

theorem history_backup_truncates_witness:
  "\<exists>h'. backup sample_history [replicate 11 7] 8 = Inr h' \<and> history_ok h' \<and> flush_count h' = flush_count sample_history + 1
    \<and> get_txnums h' (replicate 11 7) None False =
        Inr (if replicate 11 7 \<in> set [replicate 11 (7 :: byte)]
          then filter (\<lambda>n. int n < 8) (history_of sample_history (replicate 11 7))
          else history_of sample_history (replicate 11 7))"
  by (rule history_backup_truncates [OF sample_history_ok(1) _ sample_history_ok(2)])
    (simp_all add: sample_history_def init_history_def)

lemma reorg_roundtrip:
  assumes "history_ok h" and "below h (int n)" and "n + length xs \<le> 2 ^ 40"
    and "\<forall>hashXs \<in> set xs. \<forall>hX \<in> set hashXs. length hX = 11"
    and "add_unflushed h xs (int n) = Inr h1" and "flush h1 = Inr h2"
    and "distinct touched" and "\<forall>hX \<in> set touched. length hX = 11" and "\<Union> (set ` set xs) \<subseteq> set touched"
  shows "\<exists>h3. backup h2 touched (int n) = Inr h3
    \<and> (\<forall>hashX. length hashX = 11 \<longrightarrow> history_of h3 hashX = history_of h hashX)"
proof -
  note a = add_unflushed_spec [OF assms(5,1,4,3)]
  have h2: "history_of h2 hX = history_of h hX @ touching hX xs n" if "length hX = 11" for hX
    by (simp add: flush_history(2) [OF a(1) assms(6) that] a(4))
  have old: "sorted_wrt (<) (history_of h hX)" "\<forall>m \<in> set (history_of h hX). m < n" if "length hX = 11" for hX
    using assms(2) that by (auto simp: below_def)
  have "below h2 (int (n + length xs))"
    unfolding below_def
  proof (intro allI impI conjI ballI)
    fix hX :: bytes assume len: "length hX = 11"
    show "sorted_wrt (<) (history_of h2 hX)"
      using old [OF len] sorted_touching [of hX xs n] set_touching [of _ hX xs n]
      by (fastforce simp: h2 [OF len] sorted_wrt_append)
    fix m assume "m \<in> set (history_of h2 hX)"
    then show "int m < int (n + length xs)"
      using old(2) [OF len] set_touching [of m hX xs n] by (auto simp: h2 [OF len])
  qed
  from backup_spec [OF flush_ok [OF a(1) assms(6)] flush_eq(4) [OF assms(6)] this assms(7,8), of "int n"]
  obtain h3 where h3: "backup h2 touched (int n) = Inr h3"
      "\<forall>hX. length hX = 11 \<longrightarrow> history_of h3 hX =
        (if hX \<in> set touched then filter (\<lambda>m. int m < int n) (history_of h2 hX) else history_of h2 hX)" by blast
  have "history_of h3 hX = history_of h hX" if len: "length hX = 11" for hX
  proof (cases "hX \<in> set touched")
    case True
    have "filter (\<lambda>m. int m < int n) (touching hX xs n) = []"
      using set_touching [of _ hX xs n] by (fastforce simp: filter_empty_conv)
    moreover have "filter (\<lambda>m. int m < int n) (history_of h hX) = history_of h hX"
      using old(2) [OF len] by (auto intro!: filter_True)
    ultimately show ?thesis using h3(2) len True by (simp add: h2 [OF len])
  next
    case False
    have "touching hX xs n = []" if "hX \<notin> \<Union> (set ` set xs)" for n
      using that by (induction xs arbitrary: n) auto
    then show ?thesis using False assms(9) h3(2) len by (auto simp: h2 [OF len])
  qed
  with h3(1) show ?thesis by blast
qed

text \<open>A block's history is undone by a reorganisation: after adding and flushing the history of
  a block whose first transaction is number \<open>n\<close>, backing up the touched script hashes to \<open>n\<close> leaves
  every history as it was.\<close>

theorem history_reorg_roundtrip:
  assumes "history_ok h" and "below h (int n)" and "n + length xs \<le> 2 ^ 40"
    and "\<forall>hashXs \<in> set xs. \<forall>hX \<in> set hashXs. length hX = 11"
    and "distinct touched" and "\<forall>hX \<in> set touched. length hX = 11" and "\<Union> (set ` set xs) \<subseteq> set touched"
    and "0 \<le> flush_count h" and "flush_count h < 4294967295"
  shows "\<exists>h1 h2 h3. add_unflushed h xs (int n) = Inr h1 \<and> flush h1 = Inr h2 \<and> backup h2 touched (int n) = Inr h3
    \<and> (\<forall>hashX. length hashX = 11 \<longrightarrow> history_of h3 hashX = history_of h hashX)"
proof -
  have "n + length xs \<le> 2 ^ 64" using assms(3) by simp
  from add_unflushed_total [OF this] obtain h1 where h1: "add_unflushed h xs (int n) = Inr h1"
    unfolding add_unflushed_def by blast
  note a = add_unflushed_spec [OF h1 assms(1,4,3)]
  from flush_total [of h1] assms(8,9) obtain h2 where h2: "flush h1 = Inr h2" by (auto simp: a(3))
  from reorg_roundtrip [OF assms(1-4) h1 h2 assms(5-7)] h1 h2 show ?thesis by blast
qed

theorem history_reorg_roundtrip_witness:
  "\<exists>h1 h2 h3. add_unflushed sample_history [[replicate 11 7], [replicate 11 1, replicate 11 7]] (int 9) = Inr h1
    \<and> flush h1 = Inr h2 \<and> backup h2 [replicate 11 7, replicate 11 1] (int 9) = Inr h3
    \<and> (\<forall>hashX. length hashX = 11 \<longrightarrow> history_of h3 hashX = history_of sample_history hashX)"
  by (rule history_reorg_roundtrip [OF sample_history_ok(1)])
    (use sample_history_ok(2) in \<open>simp_all add: sample_history_def\<close>)

text \<open>C19: After an unclean shutdown, reopening the history database with the flush count the UTXO
  database recorded drops exactly the flushes that count does not cover: every query answers as
  before the lost flush.\<close>

theorem history_crash_recovery:
  assumes "history_ok h" and "hist_version h = 2" and "length hashX = 11"
    and "0 \<le> flush_count h" and "flush_count h < 4294967295"
  shows "\<exists>h' g'. flush h = Inr h' \<and> open_db g (hist_db h') (flush_count h) compacting = Inr g'
    \<and> flush_count g' = flush_count h
    \<and> get_txnums g' hashX limit reverse = get_txnums h hashX limit reverse"
proof -
  from flush_total [OF assms(4,5)] obtain h' where h': "flush h = Inr h'" by blast
  from reopen_after_flush [OF assms(1) h' assms(2,3), of g compacting] obtain g' where
    "open_db g (hist_db h') (flush_count h) compacting = Inr g'" "flush_count g' = flush_count h"
    "kv_iter (hist_db g') hashX False = kv_iter (hist_db h) hashX False" by blast
  with h' get_txnums_cong [of g' hashX h limit reverse] show ?thesis by blast
qed

theorem history_crash_recovery_witness:
  "\<exists>h' g'. flush sample_history = Inr h' \<and> open_db init_history (hist_db h') (flush_count sample_history) False = Inr g'
    \<and> flush_count g' = flush_count sample_history
    \<and> get_txnums g' (replicate 11 7) (Some 1) True = get_txnums sample_history (replicate 11 7) (Some 1) True"
  by (rule history_crash_recovery [OF sample_history_ok(1)])
    (simp_all add: sample_history_def init_history_def DB_VERSIONS_def)

end
