(* ===== verification/Compaction.thy ===== *)
theory Compaction
  imports HistoryFacts
begin

text \<open>
  History compaction (\<open>History._compact_history\<close>) rewrites the rows of every script hash into rows
  of a fixed length numbered from zero. The scan of a prefix is shown to hand each script hash its
  own rows; the deletions and writes a pass collects then leave the history of every script hash
  unchanged.
\<close>

section \<open>The scan groups rows by script hash\<close>

lemma distinct_remdups_adj: "sorted xs \<Longrightarrow> distinct (remdups_adj xs)"
  by (induction xs rule: remdups_adj.induct) auto

lemma concat_groups:
  assumes "sorted (map f xs)"
  shows "concat (map (\<lambda>y. filter (\<lambda>x. f x = y) xs) (remdups_adj (map f xs))) = xs"
  using assms
proof (induction xs)
  case Nil
  then show ?case by simp
next
  case (Cons x xs)
  let ?g = "\<lambda>y. filter (\<lambda>x. f x = y) xs"
  show ?case
  proof (cases "map f xs")
    case Nil
    then show ?thesis by simp
  next
    case (Cons y ys)
    have IH: "concat (map ?g (remdups_adj (map f xs))) = xs" using Cons.IH Cons.prems by simp
    have srt: "sorted (remdups_adj (map f xs))" "distinct (remdups_adj (map f xs))"
      using Cons.prems by (simp_all add: sorted_remdups_adj distinct_remdups_adj)
    show ?thesis
    proof (cases "f x = y")
      case True
      have r: "remdups_adj (map f xs) = y # tl (remdups_adj (map f xs))" by (simp add: Cons)
      have "y \<notin> set (tl (remdups_adj (map f xs)))" using srt(2) by (subst (asm) r) simp
      then have m: "map (\<lambda>y. filter (\<lambda>x. f x = y) (x # xs)) (tl (remdups_adj (map f xs)))
          = map ?g (tl (remdups_adj (map f xs)))" using True by auto
      have r2: "remdups_adj (map f (x # xs)) = y # tl (remdups_adj (map f xs))"
        using r True Cons by simp
      have c: "?g y @ concat (map ?g (tl (remdups_adj (map f xs)))) = xs"
        using IH by (subst (asm) r) simp
      show ?thesis by (subst r2, unfold list.map(2) concat.simps(2) m, simp add: True c)
    next
      case False
      have "f x \<notin> set (map f xs)" using Cons.prems False Cons by auto
      then have none: "filter (\<lambda>z. f z = f x) xs = []" proof -
      have "f z \<noteq> f x" if "z \<in> set xs" for z
        using \<open>f x \<notin> set (map f xs)\<close> that by (metis image_eqI set_map)
      then show ?thesis by (simp add: filter_empty_conv)
    qed
      have "map (\<lambda>y. filter (\<lambda>x. f x = y) (x # xs)) (remdups_adj (map f xs)) = map ?g (remdups_adj (map f xs))"
        using \<open>f x \<notin> set (map f xs)\<close> by auto
      moreover have "remdups_adj (map f (x # xs)) = f x # remdups_adj (map f xs)"
        using False Cons by simp
      ultimately show ?thesis using none IH
        by (simp only: list.map(2) concat.simps(2) filter.simps(2) if_True) simp
    qed
  qed
qed

lemma take_mono: "(xs :: bytes) \<le> ys \<Longrightarrow> take n xs \<le> take n ys"
proof (induction n arbitrary: xs ys)
  case (Suc n)
  then show ?case by (cases xs; cases ys) auto
qed simp

lemma compact_rows_skip:
  "compact_rows m prior hm hl rows p = compact_rows m prior hm hl (filter (\<lambda>(k, v). length k = 15) rows) p"
proof (induction rows arbitrary: prior hm hl p)
  case (Cons e rows)
  have "compact_rows m prior hm hl (filter (\<lambda>(k, v). length k = 15) rows) = compact_rows m prior hm hl rows"
    for prior hm hl by (rule ext) (rule Cons [symmetric])
  then show ?case by (cases e) (simp add: HASHX_LEN_def Let_def)
qed simp

lemma compact_rows_group:
  assumes "\<forall>(k, v) \<in> set g. length k = 15 \<and> droplast 4 k = hX" and "dict_ok (hm @ g)"
  shows "compact_rows m (Some hX) hm hl (g @ rest) p = compact_rows m (Some hX) (hm @ g) (hl @ map snd g) rest p"
  using assms
proof (induction g arbitrary: hm hl)
  case (Cons e g)
  obtain k v where e: "e = (k, v)" by (cases e)
  have "map_of hm k = None" using Cons.prems(2) by (auto simp: e dict_ok_def dict_keys_def map_of_eq_None_iff)
  then have "dict_set k v hm = hm @ [(k, v)]" by (rule dict_set_new)
  with Cons show ?case by (simp add: e HASHX_LEN_def)
qed simp

definition compact_group :: "nat \<Rightarrow> (bytes \<Rightarrow> kv) \<Rightarrow> comp_pass \<Rightarrow> bytes \<Rightarrow> comp_pass res" where
  "compact_group m G p hX = compact_hashX m hX (G hX) (map snd (G hX)) p"

definition groups_ok :: "(bytes \<Rightarrow> kv) \<Rightarrow> bytes list \<Rightarrow> bool" where
  "groups_ok G hXs \<longleftrightarrow> distinct hXs \<and> (\<forall>hX \<in> set hXs. G hX \<noteq> [] \<and> dict_ok (G hX)
     \<and> (\<forall>(k, v) \<in> set (G hX). length k = 15 \<and> droplast 4 k = hX))"

lemma compact_rows_groups:
  assumes "groups_ok G hXs" and "hX \<notin> set hXs"
  shows "compact_rows m (Some hX) hm hl (concat (map G hXs)) p
    = rbind (compact_hashX m hX hm hl p) (\<lambda>p. foldM (compact_group m G) p hXs)"
  using assms
proof (induction hXs arbitrary: hX hm hl p)
  case Nil
  then show ?case by (cases "compact_hashX m hX hm hl p") simp_all
next
  case (Cons hY hXs)
  then obtain k v g where G: "G hY = (k, v) # g" by (cases "G hY") (auto simp: groups_ok_def)
  have ok: "groups_ok G hXs" "hY \<notin> set hXs" "hY \<noteq> hX" using Cons.prems by (auto simp: groups_ok_def)
  have g: "\<forall>(k, v) \<in> set g. length k = 15 \<and> droplast 4 k = hY" "dict_ok ([(k, v)] @ g)" "length k = 15" "droplast 4 k = hY"
    using Cons.prems(1) by (auto simp: groups_ok_def G)
  have "compact_rows m (Some hX) hm hl (concat (map G (hY # hXs))) p
      = rbind (compact_hashX m hX hm hl p) (\<lambda>p. compact_rows m (Some hY) [(k, v)] [v] (g @ concat (map G hXs)) p)"
    using ok(3) g(3,4) by (simp add: G HASHX_LEN_def)
  also have "\<dots> = rbind (compact_hashX m hX hm hl p) (\<lambda>p. foldM (compact_group m G) p (hY # hXs))"
    using compact_rows_group [OF g(1,2)] Cons.IH [OF ok(1,2)] by (simp add: G compact_group_def [of m G _ hY])
  finally show ?case .
qed

lemma compact_rows_from_start:
  assumes "groups_ok G hXs"
  shows "compact_rows m None [] [] (concat (map G hXs)) p = foldM (compact_group m G) p hXs"
proof (cases hXs)
  case Nil
  then show ?thesis by simp
next
  case (Cons hY hYs)
  with assms obtain k v g where G: "G hY = (k, v) # g" by (cases "G hY") (auto simp: groups_ok_def)
  have ok: "groups_ok G hYs" "hY \<notin> set hYs" using assms by (auto simp: groups_ok_def Cons)
  have g: "\<forall>(k, v) \<in> set g. length k = 15 \<and> droplast 4 k = hY" "dict_ok ([(k, v)] @ g)" "length k = 15" "droplast 4 k = hY"
    using assms by (auto simp: groups_ok_def G Cons)
  then show ?thesis
    using compact_rows_group [OF g(1,2)] compact_rows_groups [OF ok] by (simp add: Cons G HASHX_LEN_def compact_group_def [of m G _ hY])
qed

text \<open>The rows of a prefix, grouped.\<close>

definition hashXs_at :: "kv \<Rightarrow> bytes \<Rightarrow> bytes list" where
  "hashXs_at kv prefix = remdups_adj (map (\<lambda>(k, v). droplast 4 k)
     (filter (\<lambda>(k, v). length k = 15) (kv_iter kv prefix False)))"

lemma droplast4_iff:
  assumes "length k = 15" and "length hX = 11"
  shows "droplast 4 k = hX \<longleftrightarrow> starts_with hX k"
  using assms by (simp add: droplast_def starts_with_def)

lemma prefix_groups:
  assumes "rows_ok n kv" and "length prefix = 4"
  shows "groups_ok (\<lambda>hX. kv_iter kv hX False) (hashXs_at kv prefix)"
    and "concat (map (\<lambda>hX. kv_iter kv hX False) (hashXs_at kv prefix))
      = filter (\<lambda>(k, v). length k = 15) (kv_iter kv prefix False)"
    and "hX \<in> set (hashXs_at kv prefix) \<Longrightarrow> length hX = 11 \<and> take 4 hX = prefix"
proof -
  let ?rows = "filter (\<lambda>(k, v). length k = 15) (kv_iter kv prefix False)"
  let ?f = "\<lambda>(k :: bytes, v :: bytes). droplast 4 k"
  have kv: "kv_ok kv" using assms(1) by (simp add: rows_ok_def)
  have srt: "sorted_wrt (\<lambda>x y. fst x < fst y) ?rows"
    using kv_iter_sorted [OF kv] by (rule sorted_wrt_filter)
  have "sorted (map ?f ?rows)"
    unfolding sorted_wrt_map
  proof (rule sorted_wrt_mono_rel [OF _ srt])
    fix x y assume "x \<in> set ?rows" "y \<in> set ?rows" "fst x < fst y"
    then show "?f x \<le> ?f y" using take_mono [of "fst x" "fst y" 11] by (auto simp: droplast_def)
  qed
  then have groups: "concat (map (\<lambda>hX. filter (\<lambda>x. ?f x = hX) ?rows) (hashXs_at kv prefix)) = ?rows"
    and dist: "distinct (hashXs_at kv prefix)"
    using concat_groups [of ?f ?rows] distinct_remdups_adj [of "map ?f ?rows"] by (simp_all add: hashXs_at_def)
  have mem: "length hX = 11 \<and> take 4 hX = prefix" if "hX \<in> set (hashXs_at kv prefix)" for hX
  proof -
    from that obtain k v where kv_in: "(k, v) \<in> set (kv_iter kv prefix False)" "length k = 15" "hX = droplast 4 k"
      by (auto simp: hashXs_at_def)
    have "take 4 k = prefix" using kv_iter_mem [OF kv] kv_in(1) assms(2) by (simp add: starts_with_def)
    with kv_in(2,3) show ?thesis by (simp add: droplast_def)
  qed
  then show "hX \<in> set (hashXs_at kv prefix) \<Longrightarrow> length hX = 11 \<and> take 4 hX = prefix" .
  have same: "filter (\<lambda>x. ?f x = hX) ?rows = kv_iter kv hX False" if "hX \<in> set (hashXs_at kv prefix)" for hX
  proof (rule kv_iter_eqI [symmetric, OF kv])
    show "sorted_wrt (\<lambda>x y. fst x < fst y) (filter (\<lambda>x. ?f x = hX) ?rows)" using srt by (rule sorted_wrt_filter)
    fix k v
    have len: "length hX = 11" "take 4 hX = prefix" using mem [OF that] by auto
    have "length k = 15 \<and> starts_with prefix k" if "starts_with hX k" "kv_get kv k = Some v"
    proof -
      have "(k, v) \<in> set (kv_iter kv hX False)" using kv_iter_mem [OF kv] that by simp
      from row_of_hashX [OF assms(1) len(1) this] obtain s where k: "k = hX @ s" "length s = 4" by blast
      then show ?thesis using len assms(2) by (simp add: starts_with_def) 
    qed
    then show "(k, v) \<in> set (filter (\<lambda>x. ?f x = hX) ?rows) \<longleftrightarrow> starts_with hX k \<and> kv_get kv k = Some v"
      using kv_iter_mem [OF kv, of k v prefix False] droplast4_iff [OF _ len(1), of k] by auto
  qed
  show "concat (map (\<lambda>hX. kv_iter kv hX False) (hashXs_at kv prefix)) = ?rows"
    using groups same by (metis (no_types, lifting) map_eq_conv)
  show "groups_ok (\<lambda>hX. kv_iter kv hX False) (hashXs_at kv prefix)"
    unfolding groups_ok_def
  proof (intro conjI ballI dist)
    fix hX assume hX: "hX \<in> set (hashXs_at kv prefix)"
    have g: "(k, v) \<in> set ?rows \<and> droplast 4 k = hX" if "(k, v) \<in> set (kv_iter kv hX False)" for k v
      using that unfolding same [OF hX, symmetric] by simp
    then show "\<And>e. e \<in> set (kv_iter kv hX False) \<Longrightarrow> case e of (k, v) \<Rightarrow> length k = 15 \<and> droplast 4 k = hX"
      by fastforce
    show "dict_ok (kv_iter kv hX False)"
      using kv_iter_sorted [OF kv, of hX] by (simp add: dict_ok_def dict_keys_def sorted_wrt_map [symmetric] strict_sorted_iff)
    have "filter (\<lambda>x. ?f x = hX) ?rows \<noteq> []" using hX by (auto simp: hashXs_at_def filter_empty_conv)
    then show "kv_iter kv hX False \<noteq> []" unfolding same [OF hX] .
  qed
qed

section \<open>The effect of a pass\<close>

text \<open>The rows a compaction aims at: the chunks of the full history, numbered.\<close>

fun numbered :: "bytes \<Rightarrow> nat \<Rightarrow> bytes list \<Rightarrow> kv" where
  "numbered hX n [] = []"
| "numbered hX n (c # cs) = (hX @ be_enc 4 n, c) # numbered hX (n + 1) cs"

definition effect :: "comp_pass \<Rightarrow> (bytes \<rightharpoonup> bytes) \<Rightarrow> bytes \<rightharpoonup> bytes" where
  "effect p m = (m |` (- set (keys_to_delete p))) ++ map_of (rev (write_items p))"

lemma numbered_mem:
  "(k, c) \<in> set (numbered hX n cs) \<longleftrightarrow> (\<exists>i < length cs. k = hX @ be_enc 4 (n + i) \<and> c = cs ! i)"
proof (induction hX n cs rule: numbered.induct)
  case (2 hX n c' cs)
  show ?case
    by (simp add: 2 [simplified] Ex_less_Suc2)
qed simp

lemma be_enc4_inj: "a < 4294967296 \<Longrightarrow> b < 4294967296 \<Longrightarrow> be_enc 4 a = be_enc 4 b \<longleftrightarrow> a = b"
  using be_enc_inj [of a 4 b] by simp

lemma numbered_sorted:
  "n + length cs \<le> 4294967296 \<Longrightarrow> sorted_wrt (\<lambda>x y. fst x < fst y) (numbered hX n cs)"
proof (induction hX n cs rule: numbered.induct)
  case (2 hX n c cs)
  have "hX @ be_enc 4 n < k" if "(k, d) \<in> set (numbered hX (n + 1) cs)" for k d
    using that 2(2) be_enc_less_iff [of n 4] by (auto simp: numbered_mem append_less_iff)
  with 2 show ?case by auto
qed simp

lemma compact_chunks_spec:
  assumes "n + length cs \<le> 4294967296" and "set (dict_keys hm) \<inter> set (map fst (numbered hX n cs)) \<subseteq> set (keys_to_delete p)"
  shows "\<exists>p'. compact_chunks hX hm p n cs = Inr p' \<and> hi_count p' = hi_count p
    \<and> set (keys_to_delete p') = set (keys_to_delete p) - {k. \<exists>c. (k, c) \<in> set (numbered hX n cs) \<and> map_of hm k = Some c}
    \<and> write_items p' = write_items p @ filter (\<lambda>(k, c). map_of hm k \<noteq> Some c) (numbered hX n cs)"
  using assms
proof (induction cs arbitrary: p n)
  case (Cons c cs)
  let ?k = "hX @ be_enc 4 n"
  have pk: "pack_be_uint32 (int n) = Inr (be_enc 4 n)" using Cons.prems(1) by (simp add: pack_be_uint32_Inr)
  have later: "?k \<notin> set (map fst (numbered hX (n + 1) cs))"
    using Cons.prems(1) by (auto simp: numbered_mem be_enc4_inj)
  show ?case
  proof (cases "map_of hm ?k = Some c")
    case True
    then have kd: "?k \<in> set (keys_to_delete p)" using Cons.prems(2) by (auto simp: set_dict_keys)
    let ?p = "p\<lparr>keys_to_delete := removeAll ?k (keys_to_delete p)\<rparr>"
    have "set (dict_keys hm) \<inter> set (map fst (numbered hX (n + 1) cs)) \<subseteq> set (keys_to_delete ?p)"
      using Cons.prems(2) later by force
    then obtain p' where "compact_chunks hX hm ?p (n + 1) cs = Inr p'" "hi_count p' = hi_count ?p"
      "set (keys_to_delete p') = set (keys_to_delete ?p) - {k. \<exists>c. (k, c) \<in> set (numbered hX (n + 1) cs) \<and> map_of hm k = Some c}"
      "write_items p' = write_items ?p @ filter (\<lambda>(k, c). map_of hm k \<noteq> Some c) (numbered hX (n + 1) cs)"
      using Cons.IH [of "n + 1" ?p] Cons.prems(1) by auto
    with True kd pk show ?thesis by (intro exI [of _ p']) auto
  next
    case False
    let ?p = "p\<lparr>write_items := write_items p @ [(?k, c)], write_size := write_size p + length c\<rparr>"
    obtain p' where "compact_chunks hX hm ?p (n + 1) cs = Inr p'" "hi_count p' = hi_count ?p"
      "set (keys_to_delete p') = set (keys_to_delete ?p) - {k. \<exists>c. (k, c) \<in> set (numbered hX (n + 1) cs) \<and> map_of hm k = Some c}"
      "write_items p' = write_items ?p @ filter (\<lambda>(k, c). map_of hm k \<noteq> Some c) (numbered hX (n + 1) cs)"
      using Cons.IH [of "n + 1" ?p] Cons.prems by auto
    with False pk show ?thesis by (intro exI [of _ p']) auto
  qed
qed simp

text \<open>A pass is good for the script hashes \<open>S\<close> it has gone through when carrying it out gives each
  of them its numbered rows and it names no other key.\<close>

definition full_row :: "kv \<Rightarrow> bytes \<Rightarrow> bytes" where
  "full_row kv hX = concat (map snd (kv_iter kv hX False))"

definition target :: "nat \<Rightarrow> kv \<Rightarrow> bytes \<Rightarrow> kv" where
  "target m kv hX = numbered hX 0 (chunks_list (m * 5) (full_row kv hX))"

definition good :: "nat \<Rightarrow> kv \<Rightarrow> bytes set \<Rightarrow> comp_pass \<Rightarrow> bool" where
  "good m kv S p \<longleftrightarrow>
     (\<forall>hX \<in> S. length hX = 11 \<and> (\<forall>k. starts_with hX k \<longrightarrow> effect p (kv_get kv) k = map_of (target m kv hX) k))
   \<and> (\<forall>k \<in> set (keys_to_delete p) \<union> fst ` set (write_items p). \<exists>hX \<in> S. starts_with hX k)"

lemma good_key:
  "good m kv S p \<Longrightarrow> k \<in> set (keys_to_delete p) \<union> fst ` set (write_items p) \<Longrightarrow>
     \<exists>hX \<in> S. starts_with hX k \<and> length hX = 11"
  unfolding good_def by blast

lemma effect_untouched:
  "k \<notin> set (keys_to_delete p) \<Longrightarrow> k \<notin> fst ` set (write_items p) \<Longrightarrow> effect p m k = m k"
proof -
  assume "k \<notin> set (keys_to_delete p)" "k \<notin> fst ` set (write_items p)"
  moreover from this(2) have "map_of (rev (write_items p)) k = None" by (simp add: map_of_eq_None_iff)
  ultimately show ?thesis by (simp add: effect_def map_add_def restrict_map_def)
qed

lemma length_chunks_list: "length (chunks_list sz xs) = (length xs + sz - 1) div sz"
  by (simp add: chunks_list_def)

lemma length_target_rows: "0 < m \<Longrightarrow> length (chunks_list (m * 5) xs) \<le> length xs"
proof (induction "length xs" arbitrary: xs rule: less_induct)
  case less
  show ?case
  proof (cases "xs = []")
    case False
    with less.prems have "length (drop (m * 5) xs) < length xs" by simp
    from less.hyps [OF this less.prems] have "length (chunks_list (m * 5) (drop (m * 5) xs)) \<le> length xs - m * 5" by simp
    moreover have "0 < length xs" "1 \<le> m * 5" using False less.prems by simp_all
    ultimately have "Suc (length (chunks_list (m * 5) (drop (m * 5) xs))) \<le> length xs" by linarith
    with less.prems False show ?thesis by (simp add: chunks_list_step)
  qed simp
qed

lemma compact_hashX_good:
  assumes "good m kv S p" and "hX \<notin> S" and "length hX = 11" and "kv_ok kv" and "0 < m"
    and "full_row kv hX \<noteq> []" and "length (full_row kv hX) \<le> 4294967296"
  shows "\<exists>p'. compact_hashX m hX (kv_iter kv hX False) (map snd (kv_iter kv hX False)) p = Inr p'
    \<and> good m kv (insert hX S) p'"
proof -
  let ?hm = "kv_iter kv hX False" and ?parts = "chunks_list (m * 5) (full_row kv hX)"
  let ?p = "p\<lparr>keys_to_delete := remdups (keys_to_delete p @ dict_keys ?hm)\<rparr>"
  have bound: "length ?parts \<le> 4294967296" using length_target_rows [OF assms(5)] assms(7) order_trans by blast
  have "set (dict_keys ?hm) \<inter> set (map fst (numbered hX 0 ?parts)) \<subseteq> set (keys_to_delete ?p)" by auto
  then obtain q where q: "compact_chunks hX ?hm ?p 0 ?parts = Inr q" "hi_count q = hi_count ?p"
    "set (keys_to_delete q) = set (keys_to_delete ?p) - {k. \<exists>c. (k, c) \<in> set (target m kv hX) \<and> map_of ?hm k = Some c}"
    "write_items q = write_items ?p @ filter (\<lambda>(k, c). map_of ?hm k \<noteq> Some c) (target m kv hX)"
    using compact_chunks_spec [of 0 ?parts ?hm hX ?p] bound by (auto simp: target_def)
  have "?parts \<noteq> []" using chunks_list_step [of "m * 5" "full_row kv hX"] assms(5,6) by simp
  then have "length ?parts - 1 + 1 = length ?parts" by (cases ?parts) simp_all
  then have "length ?parts - 1 + 1 = (length (full_row kv hX) + m * 5 - 1) div (m * 5)"
    by (simp only: length_chunks_list)
  then have res: "compact_hashX m hX ?hm (map snd ?hm) p = Inr (q\<lparr>hi_count := max (hi_count q) (int (length ?parts - 1))\<rparr>)"
    using q(1) assms(5) by (simp add: compact_hashX_def full_row_def Let_def)
  let ?q = "q\<lparr>hi_count := max (hi_count q) (int (length ?parts - 1))\<rparr>"
  have hm: "map_of ?hm k = (if starts_with hX k then kv_get kv k else None)" for k
  proof -
    have "distinct (map fst ?hm)"
      using kv_iter_sorted [OF assms(4), of hX] by (simp add: sorted_wrt_map [symmetric] strict_sorted_iff)
    then have iff: "map_of ?hm k = Some v \<longleftrightarrow> starts_with hX k \<and> kv_get kv k = Some v" for v
      using kv_iter_mem [OF assms(4), of k v hX False] by simp
    show ?thesis
    proof (cases "map_of ?hm k")
      case None
      then have "\<not> (starts_with hX k \<and> kv_get kv k = Some v)" for v using iff [of v] by simp
      then show ?thesis using None by (cases "kv_get kv k") auto
    next
      case (Some v)
      then show ?thesis using iff [of v] by simp
    qed
  qed
  have keys_hm: "k \<in> set (dict_keys ?hm) \<longleftrightarrow> starts_with hX k \<and> kv_get kv k \<noteq> None" for k
    unfolding set_dict_keys domIff hm by simp
  have dist: "distinct (map fst (target m kv hX))"
    using numbered_sorted [of 0 ?parts hX] bound by (simp add: target_def sorted_wrt_map [symmetric] strict_sorted_iff)
  have tgt: "starts_with hX k" if "(k, c) \<in> set (target m kv hX)" for k c
    using that by (auto simp: target_def numbered_mem)
  have other: "\<not> starts_with hX k" if "k \<in> set (keys_to_delete p) \<union> fst ` set (write_items p)" for k
  proof
    assume sw: "starts_with hX k"
    from good_key [OF assms(1) that] obtain hY where "hY \<in> S" "starts_with hY k" "length hY = 11" by blast
    with sw assms(2,3) starts_with_same [of hX k hY] show False by simp
  qed
  let ?F = "\<lambda>(k, c). map_of ?hm k \<noteq> Some c" and ?T = "target m kv hX"
  have writes: "map_of (rev (write_items ?q)) k
      = (case map_of (filter ?F ?T) k of Some c \<Rightarrow> Some c | None \<Rightarrow> map_of (rev (write_items p)) k)" for k
  proof -
    have "map_of (rev (filter ?F ?T)) = map_of (filter ?F ?T)"
      by (rule map_of_rev) (rule distinct_map_filter [OF dist])
    then show ?thesis by (simp add: q(4) map_add_def)
  qed
  have mine: "effect ?q (kv_get kv) k = map_of ?T k" if k: "starts_with hX k" for k
  proof -
    have no_p: "k \<notin> set (keys_to_delete p)" "map_of (rev (write_items p)) k = None"
      using other [of k] k by (auto simp: map_of_eq_None_iff)
    have T: "map_of ?T k = Some c \<longleftrightarrow> (k, c) \<in> set ?T" for c by (rule map_of_eq_Some_iff [OF dist])
    have F: "map_of (filter ?F ?T) k = Some c \<longleftrightarrow> (k, c) \<in> set ?T \<and> kv_get kv k \<noteq> Some c" for c
      using map_of_eq_Some_iff [OF distinct_map_filter [OF dist, of ?F], of k c] hm [of k] k by auto
    show ?thesis
    proof (cases "map_of ?T k")
      case None
      then have "map_of (filter ?F ?T) k \<noteq> Some c" for c using F [of c] T [of c] by simp
      then have "map_of (filter ?F ?T) k = None" by (cases "map_of (filter ?F ?T) k") blast+
      moreover have "k \<in> set (keys_to_delete ?q) \<longleftrightarrow> kv_get kv k \<noteq> None"
        using None T no_p keys_hm [of k] k by (simp add: q(3))
      ultimately show ?thesis using None no_p(2) writes [of k]
        by (simp add: effect_def map_add_def restrict_map_def)
    next
      case (Some c)
      show ?thesis
      proof (cases "kv_get kv k = Some c")
        case True
        then have "k \<notin> set (keys_to_delete ?q)" using T [of c] Some hm [of k] k by (auto simp: q(3))
        moreover have "map_of (filter ?F ?T) k = None"
        proof (rule ccontr)
          assume "map_of (filter ?F ?T) k \<noteq> None"
          then obtain d where "map_of (filter ?F ?T) k = Some d" by blast
          with F [of d] T [of d] Some True show False by simp
        qed
        ultimately show ?thesis using True Some no_p(2) writes [of k]
          by (simp add: effect_def map_add_def restrict_map_def)
      next
        case False
        then have "map_of (filter ?F ?T) k = Some c" using F T Some by blast
        then show ?thesis using Some writes [of k] by (simp add: effect_def map_add_def)
      qed
    qed
  qed
  have theirs: "effect ?q (kv_get kv) k = effect p (kv_get kv) k" if k: "\<not> starts_with hX k" for k
  proof -
    have "map_of (filter ?F ?T) k = None" using k tgt by (auto simp: map_of_eq_None_iff)
    moreover have "k \<in> set (keys_to_delete ?q) \<longleftrightarrow> k \<in> set (keys_to_delete p)"
      using k keys_hm [of k] tgt by (auto simp: q(3))
    ultimately show ?thesis using writes [of k] by (simp add: effect_def map_add_def restrict_map_def)
  qed
  have "good m kv (insert hX S) ?q"
    unfolding good_def
  proof (intro conjI ballI allI impI)
    fix hY assume "hY \<in> insert hX S"
    then show "length hY = 11" using assms(1,3) by (auto simp: good_def)
  next
    fix hY k assume hY: "hY \<in> insert hX S" "starts_with hY k"
    show "effect ?q (kv_get kv) k = map_of (target m kv hY) k"
    proof (cases "hY = hX")
      case True
      with mine hY show ?thesis by simp
    next
      case False
      then have "\<not> starts_with hX k" using hY assms(1,3) starts_with_same [of hY k hX] by (auto simp: good_def)
      with theirs hY False assms(1) show ?thesis by (auto simp: good_def)
    qed
  next
    fix k assume "k \<in> set (keys_to_delete ?q) \<union> fst ` set (write_items ?q)"
    then have "k \<in> set (keys_to_delete p) \<union> fst ` set (write_items p) \<or> starts_with hX k"
      using tgt keys_hm by (auto simp: q)
    then show "\<exists>hY \<in> insert hX S. starts_with hY k" using assms(1) by (auto simp: good_def)
  qed
  with res show ?thesis by blast
qed

section \<open>Whole passes\<close>

text \<open>The conditions a compaction runs under: rows as the other operations leave them, a positive row
  length, and histories that fit the 32-bit row numbers.\<close>

definition compactable :: "history \<Rightarrow> bool" where
  "compactable h \<longleftrightarrow> rows_ok (flush_count h) (hist_db h) \<and> 0 < max_hist_row_entries h
     \<and> (\<forall>hX. length (full_row (hist_db h) hX) \<le> 4294967296)"

lemma fold_groups_good:
  assumes "compactable h" and "good m kv S p" and "m = max_hist_row_entries h" and "kv = hist_db h"
    and "distinct hXs" and "set hXs \<inter> S = {}" and "\<forall>hX \<in> set hXs. length hX = 11 \<and> kv_iter kv hX False \<noteq> []"
  shows "\<exists>p'. foldM (compact_group m (\<lambda>hX. kv_iter kv hX False)) p hXs = Inr p' \<and> good m kv (S \<union> set hXs) p'"
  using assms(2,5-7)
proof (induction hXs arbitrary: S p)
  case (Cons hX hXs)
  have kv: "rows_ok (flush_count h) kv" "kv_ok kv" using assms(1,4) by (simp_all add: compactable_def rows_ok_def)
  have "full_row kv hX \<noteq> []"
  proof -
    obtain k v r where "kv_iter kv hX False = (k, v) # r" using Cons.prems(4) by (cases "kv_iter kv hX False") auto
    moreover from this row_of_hashX [OF kv(1), of hX k v] Cons.prems(4) have "v \<noteq> []" by auto
    ultimately show ?thesis by (simp add: full_row_def)
  qed
  then obtain q where q: "compact_group m (\<lambda>hX. kv_iter kv hX False) p hX = Inr q" "good m kv (insert hX S) q"
    using compact_hashX_good [OF Cons.prems(1), of hX] Cons.prems(3,4) kv(2) assms(1,3,4)
    by (auto simp: compact_group_def compactable_def)
  from Cons.IH [OF q(2)] Cons.prems(2-4) obtain p' where
    "foldM (compact_group m (\<lambda>hX. kv_iter kv hX False)) q hXs = Inr p'" "good m kv (insert hX S \<union> set hXs) p'" by auto
  with q(1) show ?case by simp
qed simp

lemma compact_prefix_good:
  assumes "compactable h" and "good (max_hist_row_entries h) (hist_db h) S p" and "length prefix = 4"
    and "\<forall>hX \<in> S. take 4 hX \<noteq> prefix"
  shows "\<exists>p'. compact_prefix h prefix p = Inr p'
    \<and> good (max_hist_row_entries h) (hist_db h) (S \<union> set (hashXs_at (hist_db h) prefix)) p'"
proof -
  let ?kv = "hist_db h"
  have kv: "rows_ok (flush_count h) ?kv" using assms(1) by (simp add: compactable_def)
  note g = prefix_groups [OF kv assms(3)]
  have "compact_prefix h prefix p = foldM (compact_group (max_hist_row_entries h) (\<lambda>hX. kv_iter ?kv hX False)) p (hashXs_at ?kv prefix)"
    unfolding compact_prefix_def
    by (subst compact_rows_skip) (simp only: g(2) [symmetric] compact_rows_from_start [OF g(1)])
  moreover have "set (hashXs_at ?kv prefix) \<inter> S = {}" using g(3) assms(4) by blast
  moreover have "distinct (hashXs_at ?kv prefix)"
    "\<forall>hX \<in> set (hashXs_at ?kv prefix). length hX = 11 \<and> kv_iter ?kv hX False \<noteq> []"
    using g(1,3) by (auto simp: groups_ok_def)
  ultimately show ?thesis using fold_groups_good [OF assms(1,2) refl refl] by simp
qed

lemma compact_loop_good:
  assumes "compactable h" and "good (max_hist_row_entries h) (hist_db h) S p" and "0 \<le> cursor" and "cursor \<le> 4294967296"
    and "\<forall>hX \<in> S. int (be_dec (take 4 hX)) < cursor"
  shows "\<exists>c p' S'. compact_loop h limit cursor p = Inr (c, p') \<and> good (max_hist_row_entries h) (hist_db h) S' p'
    \<and> c \<le> 4294967296"
  using assms(2-5)
proof (induction "nat (4294967296 - cursor)" arbitrary: cursor p S rule: less_induct)
  case less
  show ?case
  proof (cases "int (write_size p) < limit \<and> cursor < 4294967296")
    case False
    then have "compact_loop h limit cursor p = Inr (cursor, p)" by (subst compact_loop.simps) auto
    with less.prems show ?thesis by blast
  next
    case True
    let ?prefix = "be_enc 4 (nat cursor)"
    have pk: "pack_be_uint32 cursor = Inr ?prefix" using less.prems(2) True by (simp add: pack_be_uint32_Inr)
    have dec: "int (be_dec ?prefix) = cursor" using be_dec_enc4 less.prems(2) True by blast
    then have "\<forall>hX \<in> S. take 4 hX \<noteq> ?prefix" using less.prems(4) by fastforce
    from compact_prefix_good [OF assms(1) less.prems(1) _ this] obtain q where
      q: "compact_prefix h ?prefix p = Inr q"
        "good (max_hist_row_entries h) (hist_db h) (S \<union> set (hashXs_at (hist_db h) ?prefix)) q" by auto
    have "rows_ok (flush_count h) (hist_db h)" using assms(1) by (simp add: compactable_def)
    note g3 = prefix_groups(3) [OF this, of ?prefix]
    have lt: "\<forall>hX \<in> S \<union> set (hashXs_at (hist_db h) ?prefix). int (be_dec (take 4 hX)) < cursor + 1"
      using less.prems(4) g3 dec by fastforce
    have "nat (4294967296 - (cursor + 1)) < nat (4294967296 - cursor)" using True by simp
    from less.hyps [OF this q(2) _ _ lt] less.prems(2) True obtain c p' S' where
      "compact_loop h limit (cursor + 1) q = Inr (c, p')" "good (max_hist_row_entries h) (hist_db h) S' p'" "c \<le> 4294967296"
      by auto
    moreover have "compact_loop h limit cursor p = compact_loop h limit (cursor + 1) q"
      using True pk q(1) by (subst compact_loop.simps) simp
    ultimately show ?thesis by auto
  qed
qed

lemma numbered_snd: "map snd (numbered hX n cs) = cs"
  by (induction hX n cs rule: numbered.induct) simp_all

lemma chunk_lengths:
  assumes "0 < m" and "5 dvd length xs" and "c \<in> set (chunks_list (m * 5) xs)"
  shows "5 dvd length c \<and> c \<noteq> []"
  using assms(2,3)
proof (induction "length xs" arbitrary: xs rule: less_induct)
  case less
  have ne: "xs \<noteq> []" using less.prems(2) by auto
  have "c = take (m * 5) xs \<or> c \<in> set (chunks_list (m * 5) (drop (m * 5) xs))"
    using less.prems(2) ne assms(1) by (simp add: chunks_list_step)
  then show ?case
  proof
    assume "c = take (m * 5) xs"
    then show ?thesis using ne assms(1) less.prems(1) by (auto simp: min_def)
  next
    assume c: "c \<in> set (chunks_list (m * 5) (drop (m * 5) xs))"
    have "5 dvd length (drop (m * 5) xs)" using less.prems(1) by (cases "m * 5 \<le> length xs") (simp_all add: dvd_diff_nat)
    moreover have "length (drop (m * 5) xs) < length xs" using ne assms(1) by simp
    ultimately show ?thesis using less.hyps c by blast
  qed
qed

lemma full_row_dvd: "rows_ok n kv \<Longrightarrow> length hX = 11 \<Longrightarrow> 5 dvd length (full_row kv hX)"
proof -
  assume a: "rows_ok n kv" "length hX = 11"
  have "\<forall>e \<in> set es. 5 dvd length (snd e) \<Longrightarrow> 5 dvd length (concat (map snd es))" for es :: kv
    by (induction es) (simp_all add: dvd_add)
  then show ?thesis using row_of_hashX [OF a] unfolding full_row_def by fastforce
qed

lemma compact_history_spec:
  assumes "compactable h" and "0 \<le> comp_cursor h" and "comp_cursor h \<le> 4294967296"
  shows "\<exists>h' w. compact_history h limit = Inr (h', w) \<and> rows_ok 4294967296 (hist_db h')
    \<and> (\<forall>hX. length hX = 11 \<longrightarrow> stored_history (hist_db h') hX = stored_history (hist_db h) hX)"
proof -
  let ?m = "max_hist_row_entries h" and ?kv = "hist_db h"
  let ?p0 = "\<lparr>write_items = [], keys_to_delete = [], hi_count = comp_flush_count h, write_size = 0\<rparr>"
  have rows: "rows_ok (flush_count h) ?kv" "kv_ok ?kv" and m: "0 < ?m"
    using assms(1) by (simp_all add: compactable_def rows_ok_def)
  have "good ?m ?kv {} ?p0" by (simp add: good_def)
  from compact_loop_good [OF assms(1) this assms(2,3), of limit] obtain c p S where
    p: "compact_loop h limit (comp_cursor h) ?p0 = Inr (c, p)" "good ?m ?kv S p" by auto
  define h' where "h' = flush_compaction (h\<lparr>comp_flush_count := hi_count p\<rparr>) c p"
  obtain ws where db: "hist_db h' = apply_batch (map Delete (keys_to_delete p) @ map (\<lambda>(k, v). Put k v) (write_items p)
      @ write_state ws) ?kv"
    by (cases "c = 4294967296") (auto simp: h'_def flush_compaction_def Let_def)
  have kv': "kv_ok (hist_db h')" using rows(2) by (simp add: db)
  have get: "kv_get (hist_db h') k = effect p (kv_get ?kv) k" if "k \<noteq> state_key" for k
    using kv_get_batch [OF rows(2) that, of "map Delete (keys_to_delete p) @ map (\<lambda>(k, v). Put k v) (write_items p)" ws]
    by (simp add: db effect_def fold_deletes fold_puts)
  have bound: "length (chunks_list (?m * 5) (full_row ?kv hX)) \<le> 4294967296" for hX
    using length_target_rows [OF m] assms(1) order_trans by (fastforce simp: compactable_def)
  have tgt_row: "row_ok 4294967296 k v" if "length hX = 11" "(k, v) \<in> set (target ?m ?kv hX)" for hX k v
  proof -
    from that obtain i where i: "i < length (chunks_list (?m * 5) (full_row ?kv hX))" "k = hX @ be_enc 4 i"
      "v = chunks_list (?m * 5) (full_row ?kv hX) ! i" by (auto simp: target_def numbered_mem)
    then have "v \<in> set (chunks_list (?m * 5) (full_row ?kv hX))" by simp
    from chunk_lengths [OF m full_row_dvd [OF rows(1) that(1)] this] i that(1) bound [of hX]
    show ?thesis by (auto simp: row_ok_def)
  qed
  have iter: "kv_iter (hist_db h') hX False = (if hX \<in> S then target ?m ?kv hX else kv_iter ?kv hX False)"
    if len: "length hX = 11" for hX
  proof (cases "hX \<in> S")
    case True
    have srt: "sorted_wrt (\<lambda>x y. fst x < fst y) (target ?m ?kv hX)"
      using numbered_sorted [of 0] bound by (simp add: target_def)
    then have dist: "distinct (map fst (target ?m ?kv hX))" by (simp add: sorted_wrt_map [symmetric] strict_sorted_iff)
    have "(k, v) \<in> set (target ?m ?kv hX) \<longleftrightarrow> starts_with hX k \<and> kv_get (hist_db h') k = Some v" for k v
    proof (cases "starts_with hX k")
      case sw: True
      from p(2) True sw have "effect p (kv_get ?kv) k = map_of (target ?m ?kv hX) k" by (auto simp: good_def)
      then show ?thesis using get [OF hashX_not_state [OF len sw]] sw map_of_eq_Some_iff [OF dist] by simp
    qed (auto simp: target_def numbered_mem)
    from kv_iter_eqI [OF kv' srt this] True show ?thesis by simp
  next
    case False
    have "kv_get (hist_db h') k = kv_get ?kv k" if sw: "starts_with hX k" for k
    proof -
      have "k \<notin> set (keys_to_delete p) \<union> fst ` set (write_items p)"
      proof
        assume "k \<in> set (keys_to_delete p) \<union> fst ` set (write_items p)"
        with good_key [OF p(2)] obtain hY where "hY \<in> S" "starts_with hY k" "length hY = 11" by blast
        with False sw len starts_with_same [of hX k hY] show False by simp
      qed
      then show ?thesis using get [OF hashX_not_state [OF len sw]] by (simp add: effect_untouched)
    qed
    with False kv_iter_cong [OF kv' rows(2)] show ?thesis by simp
  qed
  have "row_ok 4294967296 k v" if some: "kv_get (hist_db h') k = Some v" for k v
  proof (cases "k = state_key")
    case False
    with some have e: "effect p (kv_get ?kv) k = Some v" using get by simp
    show ?thesis
    proof (cases "k \<in> set (keys_to_delete p) \<union> fst ` set (write_items p)")
      case True
      with good_key [OF p(2)] obtain hY where hY: "hY \<in> S" "starts_with hY k" "length hY = 11" by blast
      with p(2) e have "map_of (target ?m ?kv hY) k = Some v" by (auto simp: good_def)
      then show ?thesis using tgt_row [OF hY(3)] by (blast dest: map_of_SomeD)
    next
      case untouched: False
      then have old: "row_ok (flush_count h) k v" using e rows(1) by (simp add: effect_untouched rows_ok_def)
      have "be_dec (drop 11 k) < 256 ^ length (drop 11 k)" by (rule be_dec_bound)
      with old show ?thesis by (auto simp: row_ok_def)
    qed
  qed (simp add: row_ok_def)
  then have ok': "rows_ok 4294967296 (hist_db h')" using kv' by (simp add: rows_ok_def)
  have "stored_history (hist_db h') hX = stored_history ?kv hX" if len: "length hX = 11" for hX
  proof (cases "hX \<in> S")
    case True
    have "concat (map snd (kv_iter (hist_db h') hX False)) = full_row ?kv hX"
      using iter [OF len] True m by (simp add: target_def numbered_snd concat_chunks_list)
    then show ?thesis
      using stored_history_rows [OF ok' len] stored_history_rows [OF rows(1) len] by (simp add: full_row_def)
  qed (use iter [OF len] in \<open>simp add: stored_history_def\<close>)
  with p(1) ok' show ?thesis by (simp add: compact_history_def h'_def)
qed

text \<open>C21: Compacting the history database, whatever the byte limit that stops the pass, succeeds and
  changes no script hash's history.\<close>

theorem compaction_preserves_history:
  assumes "compactable h" and "0 \<le> comp_cursor h" and "comp_cursor h \<le> 4294967296" and "length hashX = 11"
  shows "\<exists>h' w. compact_history h limit = Inr (h', w)
    \<and> get_txnums h' hashX None reverse = get_txnums h hashX None reverse"
proof -
  from compact_history_spec [OF assms(1-3), of limit] obtain h' w where h': "compact_history h limit = Inr (h', w)"
    "rows_ok 4294967296 (hist_db h')" "stored_history (hist_db h') hashX = stored_history (hist_db h) hashX"
    using assms(4) by blast
  have "rows_ok (flush_count h) (hist_db h)" using assms(1) by (simp add: compactable_def)
  from get_txnums_spec [OF this assms(4), of None reverse] get_txnums_spec [OF h'(2) assms(4), of None reverse] h'
  show ?thesis by simp
qed

theorem compaction_preserves_history_witness:
  "\<exists>h' w. compact_history (sample_history\<lparr>comp_cursor := 117901063, max_hist_row_entries := 1\<rparr>) 5 = Inr (h', w)
    \<and> get_txnums h' (replicate 11 7) None True
      = get_txnums (sample_history\<lparr>comp_cursor := 117901063, max_hist_row_entries := 1\<rparr>) (replicate 11 7) None True"
proof (rule compaction_preserves_history)
  have "length (full_row (hist_db sample_history) hX) \<le> 4294967296" for hX
    by (simp add: full_row_def kv_iter_def scan_def Let_def sample_history_def init_history_def del: le_enc.simps)
  then show "compactable (sample_history\<lparr>comp_cursor := 117901063, max_hist_row_entries := 1\<rparr>)"
    using sample_history_ok(1) by (simp add: compactable_def history_ok_def)
qed simp_all

section \<open>Upgrading the rows\<close>

lemma upgrade_step:
  assumes "kv_ok (hist_db h)" and "0 \<le> c" and "c < 4294967296"
  shows "\<exists>h'. upgrade_at_cursor h c = Inr h' \<and> kv_ok (hist_db h') \<and> upgrade_cursor h' = c \<and> hist_version h' = hist_version h
    \<and> kv_get (hist_db h') state_key = Some (state_text h')
    \<and> (\<forall>k. length k = 15 \<longrightarrow> kv_get (hist_db h') k =
        (if int (be_dec (take 4 k)) = c then map_option widen_row (kv_get (hist_db h) k) else kv_get (hist_db h) k))"
proof -
  let ?kv = "hist_db h" and ?prefix = "be_enc 4 (nat c)" and ?h = "h\<lparr>upgrade_cursor := c\<rparr>"
  define rows where "rows = filter (\<lambda>(key, hist). length key = HASHX_LEN + 4) (kv_iter ?kv ?prefix False)"
  define es where "es = map (\<lambda>(k, v). (k, widen_row v)) rows"
  have eq: "upgrade_at_cursor h c = Inr (commit ?h (map (\<lambda>(k, v). Put k v) es @ write_state ?h))"
    using assms(2,3) by (simp add: upgrade_at_cursor_def pack_be_uint32_Inr [THEN iffD2] rows_def es_def comp_def split_def Let_def)
  have fst_es: "map fst es = map fst rows" by (simp add: es_def comp_def split_def)
  have "sorted_wrt (\<lambda>x y. fst x < fst y) rows"
    unfolding rows_def using kv_iter_sorted [OF assms(1)] by (rule sorted_wrt_filter)
  then have "distinct (map fst es)" by (simp add: fst_es sorted_wrt_map [symmetric] strict_sorted_iff)
  then have es: "map_of (rev es) k = Some v \<longleftrightarrow> (k, v) \<in> set es" for k v by (simp add: map_of_rev)
  have pre: "starts_with ?prefix k \<longleftrightarrow> int (be_dec (take 4 k)) = c" if "length k = 15" for k
  proof -
    have "take 4 k = ?prefix \<longleftrightarrow> be_dec (take 4 k) = be_dec ?prefix"
      using that by (metis be_enc_dec length_be_enc length_take min.absorb2 numeral_le_iff
          semiring_norm(70) semiring_norm(71) semiring_norm(72) semiring_norm(68) semiring_norm(75))
    then show ?thesis using be_dec_enc4 [OF assms(2,3)] by (auto simp: starts_with_def)
  qed
  have mem: "(k, w) \<in> set es \<longleftrightarrow> int (be_dec (take 4 k)) = c \<and> (\<exists>v. kv_get ?kv k = Some v \<and> w = widen_row v)"
    if "length k = 15" for k w
    using kv_iter_mem [OF assms(1), of k _ ?prefix False] that pre [OF that]
    by (auto simp: es_def rows_def HASHX_LEN_def)
  have "kv_get (apply_batch (map (\<lambda>(k, v). Put k v) es @ write_state ?h) ?kv) k =
      (if int (be_dec (take 4 k)) = c then map_option widen_row (kv_get ?kv k) else kv_get ?kv k)" if len: "length k = 15" for k
  proof -
    have "k \<noteq> state_key" using len length_state_key by auto
    then have g: "kv_get (apply_batch (map (\<lambda>(k, v). Put k v) es @ write_state ?h) ?kv) k
        = (case map_of (rev es) k of None \<Rightarrow> kv_get ?kv k | Some w \<Rightarrow> Some w)"
      by (simp add: kv_get_batch [OF assms(1)] fold_puts map_add_def)
    show ?thesis
    proof (cases "map_of (rev es) k")
      case None
      then have "(k, w) \<notin> set es" for w using es [of k w] by simp
      then show ?thesis using mem [OF len] None g by (cases "kv_get ?kv k") auto
    next
      case (Some w)
      then show ?thesis using mem [OF len, of w] es [of k w] g by auto
    qed
  qed
  moreover have "kv_get (hist_db (commit ?h (map (\<lambda>(k, v). Put k v) es @ write_state ?h))) state_key
      = Some (state_text (commit ?h (map (\<lambda>(k, v). Put k v) es @ write_state ?h)))"
    using assms(1) by (simp add: kv_get_apply_batch write_state_text state_text_def)
  ultimately show ?thesis using eq assms(1) by simp
qed

lemma upgrade_fold:
  assumes "kv_ok (hist_db h)" and "distinct cs" and "\<forall>c \<in> set cs. 0 \<le> c \<and> c < 4294967296"
  shows "\<exists>h'. foldM upgrade_at_cursor h cs = Inr h' \<and> kv_ok (hist_db h') \<and> hist_version h' = hist_version h
    \<and> (cs \<noteq> [] \<longrightarrow> upgrade_cursor h' = last cs \<and> kv_get (hist_db h') state_key = Some (state_text h'))
    \<and> (\<forall>k. length k = 15 \<longrightarrow> kv_get (hist_db h') k =
        (if int (be_dec (take 4 k)) \<in> set cs then map_option widen_row (kv_get (hist_db h) k) else kv_get (hist_db h) k))"
  using assms
proof (induction cs arbitrary: h)
  case (Cons c cs)
  from upgrade_step [OF Cons.prems(1), of c] Cons.prems(3) obtain h1 where h1: "upgrade_at_cursor h c = Inr h1"
    "kv_ok (hist_db h1)" "upgrade_cursor h1 = c" "hist_version h1 = hist_version h"
    "kv_get (hist_db h1) state_key = Some (state_text h1)"
    "\<And>k. length k = 15 \<Longrightarrow> kv_get (hist_db h1) k =
        (if int (be_dec (take 4 k)) = c then map_option widen_row (kv_get (hist_db h) k) else kv_get (hist_db h) k)"
    by auto
  from Cons.IH [OF h1(2)] Cons.prems(2,3) obtain h' where h': "foldM upgrade_at_cursor h1 cs = Inr h'" "kv_ok (hist_db h')"
    "hist_version h' = hist_version h1"
    "cs \<noteq> [] \<longrightarrow> upgrade_cursor h' = last cs \<and> kv_get (hist_db h') state_key = Some (state_text h')"
    "\<And>k. length k = 15 \<Longrightarrow> kv_get (hist_db h') k =
        (if int (be_dec (take 4 k)) \<in> set cs then map_option widen_row (kv_get (hist_db h1) k) else kv_get (hist_db h1) k)"
    by auto
  have "h' = h1" if "cs = []" using h'(1) that by simp
  then show ?case using h1 h' Cons.prems(2) by (cases "cs = []") auto
qed simp

lemma upgrade_db_spec:
  assumes "kv_ok (hist_db h)" and "-1 \<le> upgrade_cursor h"
  shows "\<exists>h'. upgrade_db h = Inr h' \<and> hist_version h' = 2
    \<and> (\<forall>k. length k = 15 \<longrightarrow> kv_get (hist_db h') k =
        (if upgrade_cursor h < int (be_dec (take 4 k)) then map_option widen_row (kv_get (hist_db h) k)
         else kv_get (hist_db h) k))"
proof -
  have "distinct [upgrade_cursor h + 1..4294967295]"
    "\<forall>c \<in> set [upgrade_cursor h + 1..4294967295]. 0 \<le> c \<and> c < 4294967296" using assms(2) by auto
  from upgrade_fold [OF assms(1) this] obtain h1 where h1: "foldM upgrade_at_cursor h [upgrade_cursor h + 1..4294967295] = Inr h1"
    "kv_ok (hist_db h1)" "\<And>k. length k = 15 \<Longrightarrow> kv_get (hist_db h1) k =
        (if int (be_dec (take 4 k)) \<in> set [upgrade_cursor h + 1..4294967295]
         then map_option widen_row (kv_get (hist_db h) k) else kv_get (hist_db h) k)" by blast
  let ?h = "h1\<lparr>hist_version := 2, upgrade_cursor := -1\<rparr>"
  have "upgrade_db h = Inr (commit ?h (write_state ?h))"
    using h1(1) by (simp add: upgrade_db_def DB_VERSIONS_def Let_def)
  moreover have "kv_get (hist_db (commit ?h (write_state ?h))) k =
        (if upgrade_cursor h < int (be_dec (take 4 k)) then map_option widen_row (kv_get (hist_db h) k)
         else kv_get (hist_db h) k)" if len: "length k = 15" for k
  proof -
    have "k \<noteq> state_key" using len length_state_key by auto
    then have "kv_get (hist_db (commit ?h (write_state ?h))) k = kv_get (hist_db h1) k"
      using kv_get_batch [OF h1(2), of k "[]" ?h] by simp
    moreover have "be_dec (take 4 k) < 256 ^ length (take 4 k)" by (rule be_dec_bound)
    then have "int (be_dec (take 4 k)) \<le> 4294967295" using len by simp
    ultimately show ?thesis using h1(3) [OF len] by auto
  qed
  ultimately show ?thesis by simp
qed

lemma read_state_loaded:
  assumes "kv_get (hist_db g) state_key = Some (state_text h)" and "hist_version h \<in> {0, 1}"
  shows "read_state g = upgrade_db (g\<lparr>flush_count := flush_count h, comp_flush_count := comp_flush_count h,
    comp_cursor := comp_cursor h, hist_version := hist_version h, upgrade_cursor := upgrade_cursor h\<rparr>)"
proof -
  obtain b bs where t: "state_text h = b # bs" using state_text_not_Nil by (cases "state_text h") auto
  have "literal_eval (decode (b # bs)) = Inr (DictL
     [(''flush_count'', flush_count h), (''comp_flush_count'', comp_flush_count h),
      (''comp_cursor'', comp_cursor h), (''db_version'', hist_version h),
      (''upgrade_cursor'', upgrade_cursor h)])"
    using literal_eval_state [of h] by (simp only: t)
  then show ?thesis
    using assms by (auto simp: read_state_def t load_state_def DB_VERSIONS_def Let_def)
qed

lemma widened_entries:
  assumes "4 dvd length hist"
  shows "decode_row (widen_row hist) = map le_dec (chunks_list 4 hist)"
proof -
  have "\<forall>c \<in> set (map (\<lambda>item. item @ [0]) (chunks_list 4 hist)). length c = 5"
    using chunks_list_lengths [OF _ assms] by auto
  from chunks_list_concat [OF _ this] show ?thesis by (simp add: decode_row_def widen_row_def le_dec_append)
qed

text \<open>An upgrade of the history rows that is interrupted after any prefix and taken up by the next
  start widens every row exactly once: each 15-byte key ends up with its old entries, every one with
  a fifth byte, and they spell the same transaction numbers.\<close>

theorem upgrade_resumes_after_interruption:
  assumes "kv_ok (hist_db h)" and "hist_version h \<in> {0, 1}" and "0 \<le> c" and "c < 4294967296"
  shows "\<exists>h1 h2. foldM upgrade_at_cursor h [0..c] = Inr h1
    \<and> read_state (g\<lparr>hist_db := hist_db h1\<rparr>) = Inr h2 \<and> hist_version h2 = 2
    \<and> (\<forall>k. length k = 15 \<longrightarrow> kv_get (hist_db h2) k = map_option widen_row (kv_get (hist_db h) k))
    \<and> (\<forall>hist. 4 dvd length hist \<longrightarrow> decode_row (widen_row hist) = map le_dec (chunks_list 4 hist))"
proof -
  have d: "distinct [0..c]" "\<forall>x \<in> set [0..c]. 0 \<le> x \<and> x < 4294967296" and ne: "[0..c] \<noteq> []" "last [0..c] = c"
    using assms(3,4) by (auto simp: upto_rec2)
  from upgrade_fold [OF assms(1) d, unfolded ne(2)] ne(1) obtain h1 where h1: "foldM upgrade_at_cursor h [0..c] = Inr h1"
    "kv_ok (hist_db h1)" "hist_version h1 = hist_version h" "upgrade_cursor h1 = c"
    "kv_get (hist_db h1) state_key = Some (state_text h1)"
    "\<And>k. length k = 15 \<Longrightarrow> kv_get (hist_db h1) k = (if int (be_dec (take 4 k)) \<in> set [0..c]
         then map_option widen_row (kv_get (hist_db h) k) else kv_get (hist_db h) k)" by blast
  let ?g = "g\<lparr>hist_db := hist_db h1, flush_count := flush_count h1, comp_flush_count := comp_flush_count h1,
    comp_cursor := comp_cursor h1, hist_version := hist_version h1, upgrade_cursor := upgrade_cursor h1\<rparr>"
  have "read_state (g\<lparr>hist_db := hist_db h1\<rparr>) = upgrade_db ?g"
    using read_state_loaded [of "g\<lparr>hist_db := hist_db h1\<rparr>" h1] h1(3,5) assms(2) by simp
  moreover obtain h2 where "upgrade_db ?g = Inr h2" "hist_version h2 = 2"
    "\<And>k. length k = 15 \<Longrightarrow> kv_get (hist_db h2) k = (if c < int (be_dec (take 4 k))
       then map_option widen_row (kv_get (hist_db h1) k) else kv_get (hist_db h1) k)"
    using upgrade_db_spec [of ?g] h1(2,4) assms(3) by auto
  ultimately show ?thesis using h1(1,6) widened_entries by (intro exI [of _ h1] exI [of _ h2]) auto
qed

theorem upgrade_resumes_after_interruption_witness:
  "\<exists>h1 h2. foldM upgrade_at_cursor (init_history\<lparr>hist_db := [(replicate 11 7 @ [0, 0, 0, 1], [3, 0, 0, 0])], hist_version := 0\<rparr>)
      [0..9] = Inr h1
    \<and> read_state (init_history\<lparr>hist_db := hist_db h1\<rparr>) = Inr h2 \<and> hist_version h2 = 2
    \<and> (\<forall>k. length k = 15 \<longrightarrow> kv_get (hist_db h2) k = map_option widen_row
        (kv_get (hist_db (init_history\<lparr>hist_db := [(replicate 11 7 @ [0, 0, 0, 1], [3, 0, 0, 0])], hist_version := 0\<rparr>)) k))
    \<and> (\<forall>hist. 4 dvd length hist \<longrightarrow> decode_row (widen_row hist) = map le_dec (chunks_list 4 hist))"
  by (rule upgrade_resumes_after_interruption) (simp_all add: kv_ok_def)

end
