(* ===== verification/Coins.thy ===== *)
theory Coins
  imports Tx
begin

text \<open>
  \<open>electrumx/lib/coins.py\<close>: the networks, their parameters, and the helpers the block processor
  calls through the coin. The digests are arguments: \<open>sha\<close> for \<open>sha256(x).digest()\<close> and \<open>H\<close> for
  \<open>double_sha512_256\<close>, the header hash. Deserialisation of a block reads its transactions after the
  80-byte header.
\<close>

section \<open>The networks\<close>

record coin =
  NAME :: string
  NET :: string
  P2PKH_VERBYTE :: bytes
  P2SH_VERBYTES :: "bytes list"
  GENESIS_HASH :: string
  REORG_LIMIT :: int
  TX_COUNT :: int
  TX_COUNT_HEIGHT :: int
  TX_PER_BLOCK :: int
  RPC_PORT :: nat

definition Radiant :: coin where
  "Radiant = \<lparr>NAME = ''Radiant'', NET = ''mainnet'', P2PKH_VERBYTE = [0], P2SH_VERBYTES = [[5]],
     GENESIS_HASH = ''0000000065d8ed5d8be28d6876b3ffb660ac2a6c0ca59e437e1f7a6f4e003fb4'',
     REORG_LIMIT = 69, TX_COUNT = 27500000, TX_COUNT_HEIGHT = 396500, TX_PER_BLOCK = 69, RPC_PORT = 7332\<rparr>"

definition RadiantTestnet :: coin where
  "RadiantTestnet = \<lparr>NAME = ''Radiant'', NET = ''testnet'', P2PKH_VERBYTE = [111], P2SH_VERBYTES = [[196]],
     GENESIS_HASH = ''000000000d8ada264d16f87a590b2af320cd3c7e3f9be5482163e830fd00aca2'',
     REORG_LIMIT = 8000, TX_COUNT = 100000, TX_COUNT_HEIGHT = 50000, TX_PER_BLOCK = 10, RPC_PORT = 27332\<rparr>"

definition RadiantScalingTestnet :: coin where
  "RadiantScalingTestnet = RadiantTestnet\<lparr>NET := ''scalingtest'',
     GENESIS_HASH := ''00000000ea7340a6e9ae28ad8ca95a652c8da00ee7ea97e6cb42cd1558884c87'',
     TX_COUNT := 1000000, TX_COUNT_HEIGHT := 100000, TX_PER_BLOCK := 5000, RPC_PORT := 37332\<rparr>"

definition RadiantRegtest :: coin where
  "RadiantRegtest = RadiantTestnet\<lparr>NET := ''regtest'',
     GENESIS_HASH := ''7c1797514a165b0d99953a993a2a40811d6c0706026c36c06fc6fe728f93a5dd'',
     TX_COUNT := 1, TX_COUNT_HEIGHT := 1, TX_PER_BLOCK := 1, RPC_PORT := 17443\<rparr>"

text \<open>\<open>util.subclasses(Coin)\<close>: the classes by name.\<close>

definition coin_classes :: "coin list" where
  "coin_classes = [Radiant, RadiantRegtest, RadiantScalingTestnet, RadiantTestnet]"

definition lower :: "string \<Rightarrow> string" where
  "lower s = map (\<lambda>c. if 65 \<le> (of_char c :: nat) \<and> of_char c \<le> (90 :: nat) then char_of (of_char c + 32 :: nat) else c) s"

definition lookup_coin_class :: "string \<Rightarrow> string \<Rightarrow> coin res" where
  "lookup_coin_class name net =
     (case filter (\<lambda>c. lower (NAME c) = lower name \<and> lower (NET c) = lower net) coin_classes of
        c # _ \<Rightarrow> Inr c
      | [] \<Rightarrow> Inl CoinError)"

text \<open>\<open>max_fetch_blocks\<close>, overridden by the scaling test network.\<close>

definition max_fetch_blocks :: "coin \<Rightarrow> int \<Rightarrow> int" where
  "max_fetch_blocks c height =
     (if NET c = ''scalingtest'' then (if height \<le> 10 then 100 else 3)
      else if height < 130000 then 1000
      else if height < 230000 then 100
      else 25)"

section \<open>Script hashes and addresses\<close>

definition hashX_from_script :: "(bytes \<Rightarrow> bytes) \<Rightarrow> bytes \<Rightarrow> bytes" where
  "hashX_from_script sha script = take HASHX_LEN (sha script)"

definition codeScriptHash_from_script :: "(bytes \<Rightarrow> bytes) \<Rightarrow> bytes \<Rightarrow> bytes res" where
  "codeScriptHash_from_script sha script =
     rbind (get_stateseperator_index script) (\<lambda>i. Inr (sha (drop i script)))"

definition hash160_to_P2PKH_hashX :: "(bytes \<Rightarrow> bytes) \<Rightarrow> bytes \<Rightarrow> bytes res" where
  "hash160_to_P2PKH_hashX sha hash160 = rbind (P2PKH_script hash160) (\<lambda>s. Inr (hashX_from_script sha s))"

text \<open>\<open>hash_fn\<close> is the checksum digest of Base58Check.\<close>

definition pay_to_address_script :: "(bytes \<Rightarrow> bytes) \<Rightarrow> coin \<Rightarrow> string \<Rightarrow> bytes res" where
  "pay_to_address_script hash_fn c address =
     rbind (decode_check hash_fn address) (\<lambda>raw.
       let verlen = int (length raw) - 20 in
       if verlen > 0 then
         let verbyte = take (nat verlen) raw; hash160 = drop (nat verlen) raw in
         if verbyte = P2PKH_VERBYTE c then P2PKH_script hash160
         else if verbyte \<in> set (P2SH_VERBYTES c) then P2SH_script hash160
         else Inl CoinError
       else Inl CoinError)"

definition address_to_hashX :: "(bytes \<Rightarrow> bytes) \<Rightarrow> (bytes \<Rightarrow> bytes) \<Rightarrow> coin \<Rightarrow> string \<Rightarrow> bytes res" where
  "address_to_hashX hash_fn sha c address =
     rbind (pay_to_address_script hash_fn c address) (\<lambda>s. Inr (hashX_from_script sha s))"

section \<open>Blocks\<close>

record block =
  raw :: bytes
  header :: bytes
  transactions :: "(Tx \<times> bytes) list"

definition header_prevhash :: "bytes \<Rightarrow> bytes" where
  "header_prevhash hdr = slice 4 36 hdr"

definition genesis_block :: "(bytes \<Rightarrow> bytes) \<Rightarrow> coin \<Rightarrow> bytes \<Rightarrow> bytes res" where
  "genesis_block H c blk =
     (let hdr = take 80 blk in
      if hash_to_hex_str (H hdr) \<noteq> GENESIS_HASH c then Inl CoinError else Inr (hdr @ zero_bytes 1))"

definition read_block :: "(bytes \<Rightarrow> bytes) \<Rightarrow> bytes \<Rightarrow> block res" where
  "read_block sha raw_block =
     (let hdr = take 80 raw_block in
      rbind (read_tx_block sha raw_block (length hdr)) (\<lambda>(txs, _).
        Inr \<lparr>raw = raw_block, header = hdr, transactions = txs\<rparr>))"

section \<open>Facts\<close>

lemma length_hashX: "length (sha s) = 32 \<Longrightarrow> length (hashX_from_script sha s) = 11"
  by (simp add: hashX_from_script_def HASHX_LEN_def)

lemma lookup_coin_class_known:
  "map (\<lambda>c. lookup_coin_class (NAME c) (NET c)) coin_classes = map Inr coin_classes"
  by (simp add: coin_classes_def lookup_coin_class_def lower_def Radiant_def RadiantRegtest_def
      RadiantScalingTestnet_def RadiantTestnet_def)

lemma genesis_block_no_transactions:
  assumes "genesis_block H c blk = Inr g" and "80 \<le> length blk"
  shows "read_block sha g = Inr \<lparr>raw = g, header = take 80 blk, transactions = []\<rparr>"
proof -
  have g: "g = take 80 blk @ [0]"
    using assms(1) by (simp add: genesis_block_def Let_def zero_bytes_def split: if_splits)
  then have "take 80 g = take 80 blk" "length g = 81" using assms(2) by simp_all
  moreover have "read_varint g 80 = Inr (0, 81)"
    using g assms(2)
    by (simp add: read_varint_def rd_bind_def read_byte_def index_def rd_return_def nth_append)
  moreover have "min (length blk) 80 = 80" using assms(2) by simp
  ultimately show ?thesis by (simp add: read_block_def read_tx_block_def rd_bind_def rd_return_def)
qed

end
