(* ===== verification/Db.thy ===== *)
theory Db
  imports Coins Merkle LogicalFile HistoryFacts
begin

text \<open>
  \<open>electrumx/server/db.py\<close>: the append-only files of headers, transaction counts and transaction
  hashes, the UTXO database with its tables, and the queries on them. The UTXO database is the
  ordered store of theory \<open>Storage\<close>; its entry \<open>b'state'\<close>, which holds the \<open>repr\<close> of a
  dictionary, is kept beside it as a record. Time is an argument of the operations that read the
  clock. \<open>pylru\<close> caches are maps with an eviction function of the package, an argument kept in the
  state, that drops entries.
\<close>

section \<open>State\<close>

record utxo =
  utxo_tx_num :: nat
  utxo_tx_pos :: nat
  utxo_tx_hash :: "bytes option"
  utxo_height :: nat
  utxo_value :: nat

text \<open>The dictionary stored under \<open>b'state'\<close>.\<close>

record utxo_state =
  st_genesis :: string
  st_height :: int
  st_tx_count :: int
  st_tip :: bytes
  st_utxo_flush_count :: int
  st_wall_time :: int
  st_first_sync :: bool
  st_db_version :: int

record db =
  coin_of :: coin
  reorg_limit :: int
  utxo_db :: kv
  state_entry :: "utxo_state option"
  db_history :: history
  header_mc :: merkle_cache
  headers_file :: logical_file
  tx_counts_file :: logical_file
  hashes_file :: logical_file
  raw_blocks :: "(int, bytes) dict"
  tx_counts :: "nat list option"
  utxo_flush_count :: int
  fs_height :: int
  fs_tx_count :: int
  db_height :: int
  db_tx_count :: int
  db_tip :: bytes
  last_flush :: int
  last_flush_tx_count :: int
  wall_time :: int
  first_sync :: bool
  db_version :: int
  tx_hash_cache :: "nat \<rightharpoonup> bytes option \<times> nat"
  tx_hash_evict :: "(nat \<rightharpoonup> bytes option \<times> nat) \<Rightarrow> nat set"
  balance_cache :: "bytes \<rightharpoonup> int"
  utxo_list_cache :: "bytes \<rightharpoonup> utxo list"

definition UTXO_DB_VERSIONS :: "int list" where
  "UTXO_DB_VERSIONS = [9]"

text \<open>\<open>self.tx_counts\<close> before it is read is \<open>None\<close>; indexing it then raises \<open>TypeError\<close>.\<close>

definition counts :: "db \<Rightarrow> nat list res" where
  "counts d = (case tx_counts d of Some c \<Rightarrow> Inr c | None \<Rightarrow> Inl TypeError)"

text \<open>Python's \<open>xs[i]\<close> with a negative index counting from the end.\<close>

definition py_index :: "'a list \<Rightarrow> int \<Rightarrow> 'a res" where
  "py_index xs i = (if i < 0 then (if - i \<le> int (length xs) then Inr (xs ! nat (int (length xs) + i)) else Inl IndexError)
     else index xs (nat i))"

definition py_assert :: "bool \<Rightarrow> 'a res \<Rightarrow> 'a res" where
  "py_assert c r = (if c then r else Inl AssertionError)"

text \<open>\<open>array.array('Q', data)\<close> and \<open>tobytes\<close> on a little-endian machine.\<close>

definition array_q :: "bytes \<Rightarrow> nat list res" where
  "array_q data = (if length data mod 8 \<noteq> 0 then Inl ValueError else Inr (map le_dec (chunks_list 8 data)))"

definition tobytes :: "nat list \<Rightarrow> bytes" where
  "tobytes a = concat (map (le_enc 8) a)"

section \<open>Opening\<close>

definition min_undo_height :: "db \<Rightarrow> int \<Rightarrow> int" where
  "min_undo_height d max_height = max_height - reorg_limit d + 1"

definition undo_key :: "int \<Rightarrow> bytes res" where
  "undo_key ht = rbind (pack_be_uint32 ht) (\<lambda>b. Inr (85 # b))"

definition ref_loc_undo_key :: "int \<Rightarrow> bytes res" where
  "ref_loc_undo_key ht = rbind (pack_be_uint32 ht) (\<lambda>b. Inr (82 # 85 # b))"

definition write_utxo_state :: "db \<Rightarrow> db" where
  "write_utxo_state d = d\<lparr>state_entry := Some \<lparr>st_genesis = GENESIS_HASH (coin_of d), st_height = db_height d,
     st_tx_count = db_tx_count d, st_tip = db_tip d, st_utxo_flush_count = utxo_flush_count d,
     st_wall_time = wall_time d, st_first_sync = first_sync d, st_db_version = db_version d\<rparr>\<rparr>"

definition set_flush_count :: "db \<Rightarrow> int \<Rightarrow> db" where
  "set_flush_count d count = write_utxo_state (d\<lparr>utxo_flush_count := count\<rparr>)"

text \<open>The version check leaves \<open>upgrade_db\<close> unreachable: the only version it accepts is the
  current one.\<close>

definition read_utxo_state :: "db \<Rightarrow> db res" where
  "read_utxo_state d =
     rbind
       (case state_entry d of
          None \<Rightarrow> Inr (d\<lparr>db_height := -1, db_tx_count := 0, db_tip := zero_bytes 32,
            db_version := Max (set UTXO_DB_VERSIONS), utxo_flush_count := 0, wall_time := 0, first_sync := True\<rparr>)
        | Some st \<Rightarrow>
            if st_db_version st \<notin> set UTXO_DB_VERSIONS then Inl DBError
            else if st_genesis st \<noteq> GENESIS_HASH (coin_of d) then Inl DBError
            else Inr (d\<lparr>db_version := st_db_version st, db_height := st_height st, db_tx_count := st_tx_count st,
              db_tip := st_tip st, utxo_flush_count := st_utxo_flush_count st, wall_time := st_wall_time st,
              first_sync := st_first_sync st\<rparr>))
       (\<lambda>d. Inr (d\<lparr>fs_height := db_height d, fs_tx_count := db_tx_count d, last_flush_tx_count := db_tx_count d\<rparr>))"

fun stale_undo_keys :: "int \<Rightarrow> kv \<Rightarrow> bytes list res" where
  "stale_undo_keys min_height [] = Inr []"
| "stale_undo_keys min_height ((key, _) # rows) =
     rbind (unpack_be_uint32 (takelast 4 key)) (\<lambda>ht.
       if int ht \<ge> min_height then Inr []
       else rbind (stale_undo_keys min_height rows) (\<lambda>keys. Inr (key # keys)))"

definition clear_excess_undo_info :: "db \<Rightarrow> db res" where
  "clear_excess_undo_info d =
     (let min_height = min_undo_height d (db_height d) in
      rbind (stale_undo_keys min_height (kv_iter (utxo_db d) [85] False)) (\<lambda>keys1.
      rbind (stale_undo_keys min_height (kv_iter (utxo_db d) [82, 85] False)) (\<lambda>keys2.
        Inr (d\<lparr>utxo_db := apply_batch (map Delete (keys1 @ keys2)) (utxo_db d),
          raw_blocks := filter (\<lambda>e. \<not> fst e < min_height) (raw_blocks d)\<rparr>))))"

definition read_tx_counts :: "db \<Rightarrow> db res" where
  "read_tx_counts d =
     (if tx_counts d \<noteq> None then Inr d
      else
        let sz = (db_height d + 1) * 8;
            data = lf_read (tx_counts_file d) 0 (if sz < 0 then None else Some (nat sz)) in
        py_assert (int (length data) = sz)
          (rbind (array_q data) (\<lambda>a.
             py_assert (db_tx_count d = (if a = [] then 0 else int (last a)))
               (Inr (d\<lparr>tx_counts := Some a\<rparr>)))))"

text \<open>\<open>_open_dbs\<close> on existing databases: \<open>stored\<close> is the history database found on disk.\<close>

definition open_dbs :: "db \<Rightarrow> bool \<Rightarrow> db res" where
  "open_dbs d compacting =
     rbind (read_utxo_state d) (\<lambda>d.
     rbind (open_db (db_history d) (hist_db (db_history d)) (utxo_flush_count d) compacting) (\<lambda>h.
     rbind (clear_excess_undo_info (d\<lparr>db_history := h, utxo_flush_count := flush_count h\<rparr>)) (\<lambda>d.
       read_tx_counts d)))"

section \<open>Flushing\<close>

record flush_data =
  fd_height :: int
  fd_tx_count :: int
  fd_headers :: "bytes list"
  fd_block_tx_hashes :: "bytes list"
  fd_undo_infos :: "(bytes list \<times> int) list"
  fd_ref_loc_undo_infos :: "(bytes list \<times> int) list"
  fd_adds :: "(bytes, bytes) dict"
  fd_ref_adds :: "(bytes, bytes) dict"
  fd_ref_mints :: "(bytes, bytes) dict"
  fd_ref_locs :: "(bytes, bytes) dict"
  fd_data_adds :: "(bytes, bytes) dict"
  fd_deletes :: "bytes list"
  fd_tip :: bytes

text \<open>The assertions in order; \<open>flush_data.ref_mints\<close> and \<open>ref_locs\<close> are not among them.\<close>

definition db_assert_flushed :: "db \<Rightarrow> flush_data \<Rightarrow> unit res" where
  "db_assert_flushed d f =
     py_assert (fd_tx_count f = fs_tx_count d \<and> fs_tx_count d = db_tx_count d)
     (py_assert (fd_height f = fs_height d \<and> fs_height d = db_height d)
     (py_assert (fd_tip f = db_tip d)
     (py_assert (fd_headers f = [] \<and> fd_block_tx_hashes f = [] \<and> fd_adds f = [] \<and> fd_ref_adds f = []
        \<and> fd_data_adds f = [] \<and> fd_deletes f = [] \<and> fd_undo_infos f = [])
     (assert_flushed (db_history d)))))"

definition flush_fs :: "db \<Rightarrow> flush_data \<Rightarrow> (db \<times> flush_data) res" where
  "flush_fs d f =
     rbind (counts d) (\<lambda>tcs.
     rbind (if fs_height d \<ge> 0 then py_index tcs (fs_height d) else Inr 0) (\<lambda>prior.
     py_assert (length (fd_block_tx_hashes f) = length (fd_headers f))
     (py_assert (fd_height f = fs_height d + int (length (fd_headers f)))
     (py_assert (fd_tx_count f = (if tcs = [] then 0 else int (last tcs)))
     (py_assert (int (length tcs) = fd_height f + 1)
     (let hashes = concat (fd_block_tx_hashes f) in
      py_assert (length hashes mod 32 = 0)
     (py_assert (int (length hashes div 32) = fd_tx_count f - int prior)
     (let height_start = nat (fs_height d + 1) in
      Inr (d\<lparr>headers_file := lf_write (headers_file d) (height_start * 80) (concat (fd_headers f)),
             tx_counts_file := lf_write (tx_counts_file d) (height_start * 8) (tobytes (drop height_start tcs)),
             hashes_file := lf_write (hashes_file d) (prior * 32) hashes,
             fs_height := fd_height f, fs_tx_count := fd_tx_count f\<rparr>,
           f\<lparr>fd_headers := [], fd_block_tx_hashes := []\<rparr>)))))))))"

definition flush_undo_infos :: "(bytes list \<times> int) list \<Rightarrow> batch_op list res" where
  "flush_undo_infos infos = mapM (\<lambda>(undo_info, ht). rbind (undo_key ht) (\<lambda>k. Inr (Put k (concat undo_info)))) infos"

definition flush_ref_loc_undo_infos :: "(bytes list \<times> int) list \<Rightarrow> batch_op list res" where
  "flush_ref_loc_undo_infos infos =
     mapM (\<lambda>(undo_info, ht). rbind (ref_loc_undo_key ht) (\<lambda>k. Inr (Put k (concat undo_info)))) infos"

text \<open>The two rows of a UTXO, from its cache key \<open>hash + idx\<close> and its 56-byte value
  \<open>hashX + codeScriptHash + tx_num + value\<close>.\<close>

definition utxo_suffix :: "bytes \<Rightarrow> bytes \<Rightarrow> bytes" where
  "utxo_suffix key val = takelast 4 key @ droplast 8 (takelast 13 val)"

definition h_row :: "bytes \<Rightarrow> bytes \<Rightarrow> bytes \<times> bytes" where
  "h_row key val = (104 # take 4 key @ utxo_suffix key val, take 11 val @ slice 11 43 val)"

definition u_row :: "bytes \<Rightarrow> bytes \<Rightarrow> bytes \<times> bytes" where
  "u_row key val = (117 # take 11 val @ utxo_suffix key val, takelast 8 val)"

definition utxo_puts :: "(bytes, bytes) dict \<Rightarrow> batch_op list" where
  "utxo_puts adds = concat (map (\<lambda>(key, val). [Put (fst (h_row key val)) (snd (h_row key val)),
     Put (fst (u_row key val)) (snd (u_row key val))]) adds)"

definition table_puts :: "bytes \<Rightarrow> (bytes, bytes) dict \<Rightarrow> batch_op list" where
  "table_puts prefix adds = map (\<lambda>(key, val). Put (prefix @ key) val) adds"

text \<open>The operations go to the batch; the state of the database object moves on before the batch is
  committed, and \<open>flush_data\<close> is emptied.\<close>

definition flush_utxo_db :: "db \<Rightarrow> flush_data \<Rightarrow> (batch_op list \<times> db \<times> flush_data) res" where
  "flush_utxo_db d f =
     rbind (flush_undo_infos (fd_undo_infos f)) (\<lambda>undos.
     rbind (flush_ref_loc_undo_infos (fd_ref_loc_undo_infos f)) (\<lambda>ref_undos.
       Inr (map Delete (sort (fd_deletes f)) @ utxo_puts (fd_adds f)
              @ table_puts [114, 105] (fd_ref_adds f) @ table_puts [114, 109] (fd_ref_mints f)
              @ table_puts [114, 108] (fd_ref_locs f) @ table_puts [] (fd_data_adds f) @ undos @ ref_undos,
            d\<lparr>utxo_flush_count := flush_count (db_history d), db_height := fd_height f,
              db_tx_count := fd_tx_count f, db_tip := fd_tip f\<rparr>,
            f\<lparr>fd_deletes := [], fd_adds := [], fd_ref_adds := [], fd_ref_mints := [], fd_ref_locs := [],
              fd_data_adds := [], fd_undo_infos := [], fd_ref_loc_undo_infos := []\<rparr>)))"

definition flush_state :: "int \<Rightarrow> db \<Rightarrow> db" where
  "flush_state now d = write_utxo_state (d\<lparr>wall_time := wall_time d + (now - last_flush d), last_flush := now,
     last_flush_tx_count := fs_tx_count d\<rparr>)"

text \<open>\<open>index_flush\<close> is the flush of the token, name, realm, order, prediction, royalty and analytics
  indexes into the batch: what they put into it, and their state afterwards, with no result when
  nothing was flushed. They read the store as it was before the batch.\<close>

definition flush_dbs ::
    "int \<Rightarrow> int \<Rightarrow> (db \<Rightarrow> (batch_op list \<times> 'o) res) \<Rightarrow> flush_data \<Rightarrow> bool \<Rightarrow> db
      \<Rightarrow> (db \<times> flush_data \<times> 'o option) res" where
  "flush_dbs now now' index_flush f flush_utxos d =
     (if fd_height f = db_height d then rbind (db_assert_flushed d f) (\<lambda>_. Inr (d, f, None))
      else
        rbind (flush_fs d f) (\<lambda>(d, f).
        rbind (flush (db_history d)) (\<lambda>h.
        rbind (if flush_utxos then flush_utxo_db (d\<lparr>db_history := h\<rparr>) f else Inr ([], d\<lparr>db_history := h\<rparr>, f))
          (\<lambda>(ops, d, f).
        rbind (index_flush d) (\<lambda>(index_ops, o').
            let d = flush_state now d;
                d = d\<lparr>utxo_db := apply_batch (ops @ index_ops) (utxo_db d)\<rparr>
            in Inr (flush_state now' d, f, Some o'))))))"

definition backup_fs :: "db \<Rightarrow> int \<Rightarrow> int \<Rightarrow> db res" where
  "backup_fs d ht tx_count =
     rbind (if ht + 1 \<le> 0 then Inl ValueError else mc_truncate (header_mc d) (nat (ht + 1))) (\<lambda>mc.
       Inr (d\<lparr>fs_height := ht, fs_tx_count := tx_count, header_mc := mc\<rparr>))"

definition flush_backup ::
    "int \<Rightarrow> (db \<Rightarrow> (batch_op list \<times> 'o) res) \<Rightarrow> flush_data \<Rightarrow> bytes list \<Rightarrow> db \<Rightarrow> (db \<times> flush_data \<times> 'o) res" where
  "flush_backup now index_backup f touched d =
     py_assert (fd_headers f = []) (py_assert (fd_block_tx_hashes f = []) (py_assert (fd_height f < db_height d)
     (rbind (assert_flushed (db_history d)) (\<lambda>_.
      rbind (backup_fs d (fd_height f) (fd_tx_count f)) (\<lambda>d.
      rbind (backup (db_history d) touched (fd_tx_count f)) (\<lambda>h.
      rbind (index_backup (d\<lparr>db_history := h\<rparr>)) (\<lambda>(index_ops, o').
      rbind (flush_utxo_db (d\<lparr>db_history := h\<rparr>) f) (\<lambda>(ops, d, f).
        let d = flush_state now d
        in Inr (d\<lparr>utxo_db := apply_batch (index_ops @ ops) (utxo_db d)\<rparr>, f, o')))))))))"

section \<open>Headers and transaction hashes\<close>

definition read_headers :: "db \<Rightarrow> int \<Rightarrow> int \<Rightarrow> (bytes \<times> int) res" where
  "read_headers d start_height count =
     (if start_height < 0 \<or> count < 0 then Inl DBError
      else let disk_count = max 0 (min count (db_height d + 1 - start_height)) in
        if disk_count \<noteq> 0
        then Inr (lf_read (headers_file d) (nat (start_height * 80)) (Some (nat (disk_count * 80))), disk_count)
        else Inr ([], 0))"

definition raw_header :: "db \<Rightarrow> int \<Rightarrow> bytes res" where
  "raw_header d ht = rbind (read_headers d ht 1) (\<lambda>(hdr, n). if n \<noteq> 1 then Inl IndexError else Inr hdr)"

definition fs_block_hashes :: "(bytes \<Rightarrow> bytes) \<Rightarrow> db \<Rightarrow> int \<Rightarrow> int \<Rightarrow> bytes list res" where
  "fs_block_hashes H d ht count =
     rbind (read_headers d ht count) (\<lambda>(headers_concat, headers_count).
       if headers_count \<noteq> count then Inl DBError
       else Inr (map (\<lambda>i. H (slice (i * 80) (i * 80 + 80) headers_concat)) [0..<nat count]))"

function bisect_right_loop :: "nat list \<Rightarrow> nat \<Rightarrow> nat \<Rightarrow> nat \<Rightarrow> nat" where
  "bisect_right_loop a x lo hi =
     (if lo < hi then
        let mid = (lo + hi) div 2
        in if x < a ! mid then bisect_right_loop a x lo mid else bisect_right_loop a x (mid + 1) hi
      else lo)"
  by pat_completeness auto
termination by (relation "measure (\<lambda>(a, x, lo, hi). hi - lo)") auto

declare bisect_right_loop.simps [simp del]

definition bisect_right :: "nat list \<Rightarrow> nat \<Rightarrow> nat" where
  "bisect_right a x = bisect_right_loop a x 0 (length a)"

text \<open>Storing in the LRU cache may drop other entries; the new one is the most recent and stays.\<close>

definition cache_tx_hash :: "db \<Rightarrow> nat \<Rightarrow> bytes option \<times> nat \<Rightarrow> db" where
  "cache_tx_hash d tx_num result =
     (let m = (tx_hash_cache d)(tx_num \<mapsto> result)
      in d\<lparr>tx_hash_cache := m |` (- (tx_hash_evict d m - {tx_num}))\<rparr>)"

definition fs_tx_hash :: "db \<Rightarrow> nat \<Rightarrow> (db \<times> bytes option \<times> nat) res" where
  "fs_tx_hash d tx_num =
     (case tx_hash_cache d tx_num of
        Some cached \<Rightarrow> Inr (d, cached)
      | None \<Rightarrow>
          rbind (counts d) (\<lambda>tcs.
            let tx_height = bisect_right tcs tx_num;
                tx_hash = (if int tx_height > db_height d then None
                           else Some (lf_read (hashes_file d) (tx_num * 32) (Some 32)));
                result = (tx_hash, tx_height)
            in Inr (cache_tx_hash d tx_num result, result)))"

definition fs_tx_hashes_at_blockheight :: "db \<Rightarrow> int \<Rightarrow> bytes list res" where
  "fs_tx_hashes_at_blockheight d block_height =
     (if block_height > db_height d then Inl DBError
      else py_assert (block_height \<ge> 0)
        (rbind (counts d) (\<lambda>tcs.
         rbind (if block_height > 0 then py_index tcs (block_height - 1) else Inr 0) (\<lambda>first_tx_num.
         rbind (py_index tcs block_height) (\<lambda>last_tx_num.
           let num = int last_tx_num - int first_tx_num;
               tx_hashes = lf_read (hashes_file d) (first_tx_num * 32) (if num < 0 then None else Some (nat (num * 32)))
           in py_assert (num = int (length tx_hashes div 32))
                (Inr (map (\<lambda>idx. slice (idx * 32) ((idx + 1) * 32) tx_hashes) [0..<nat num])))))))"

section \<open>Histories and UTXOs\<close>

text \<open>\<open>read_history\<close>, one attempt.\<close>

definition read_history :: "db \<Rightarrow> bytes \<Rightarrow> int option \<Rightarrow> bool \<Rightarrow> (db \<times> (bytes option \<times> nat) list) res" where
  "read_history d hashX limit reverse =
     rbind (get_txnums (db_history d) hashX limit reverse) (\<lambda>tx_nums.
       foldM (\<lambda>(d, acc) tx_num. rbind (fs_tx_hash d tx_num) (\<lambda>(d, r). Inr (d, acc @ [r]))) (d, []) tx_nums)"

text \<open>The retry loop, with the attempts still allowed; \<open>sleep\<close> is what the other tasks do to the
  database while this one sleeps, and \<open>None\<close> means it is still retrying.\<close>

fun limited_history ::
    "nat \<Rightarrow> (nat \<Rightarrow> db \<Rightarrow> db) \<Rightarrow> db \<Rightarrow> bytes \<Rightarrow> int option \<Rightarrow> bool \<Rightarrow> (db \<times> (bytes option \<times> nat) list) option res" where
  "limited_history 0 sleep d hashX limit reverse = Inr None"
| "limited_history (Suc fuel) sleep d hashX limit reverse =
     rbind (read_history d hashX limit reverse) (\<lambda>(d, history).
       if \<forall>(tx_hash, ht) \<in> set history. tx_hash \<noteq> None then Inr (Some (d, history))
       else limited_history fuel sleep (sleep fuel d) hashX limit reverse)"

definition read_utxo :: "db \<times> utxo list \<Rightarrow> bytes \<times> bytes \<Rightarrow> (db \<times> utxo list) res" where
  "read_utxo s row =
     (case (s, row) of ((d, utxos), (db_key, db_value)) \<Rightarrow>
        rbind (unpack_le_uint32 (droplast 5 (takelast 9 db_key))) (\<lambda>tx_pos.
        rbind (unpack_le_uint64 (takelast 5 db_key @ zero_bytes 3)) (\<lambda>tx_num.
        rbind (unpack_le_uint64 db_value) (\<lambda>val.
        rbind (fs_tx_hash d tx_num) (\<lambda>(d, tx_hash, ht).
          Inr (d, utxos @ [\<lparr>utxo_tx_num = tx_num, utxo_tx_pos = tx_pos, utxo_tx_hash = tx_hash,
            utxo_height = ht, utxo_value = val\<rparr>]))))))"

fun utxos_loop :: "nat \<Rightarrow> (nat \<Rightarrow> db \<Rightarrow> db) \<Rightarrow> db \<Rightarrow> bytes \<Rightarrow> (db \<times> utxo list) option res" where
  "utxos_loop 0 sleep d prefix = Inr None"
| "utxos_loop (Suc fuel) sleep d prefix =
     rbind (foldM read_utxo (d, []) (kv_iter (utxo_db d) prefix False)) (\<lambda>(d, utxos).
       if \<forall>u \<in> set utxos. utxo_tx_hash u \<noteq> None then Inr (Some (d, utxos))
       else utxos_loop fuel sleep (sleep fuel d) prefix)"

definition all_utxos :: "nat \<Rightarrow> (nat \<Rightarrow> db \<Rightarrow> db) \<Rightarrow> db \<Rightarrow> bytes \<Rightarrow> (db \<times> utxo list) option res" where
  "all_utxos fuel sleep d hashX =
     (case utxo_list_cache d hashX of
        Some utxos \<Rightarrow> Inr (Some (d, utxos))
      | None \<Rightarrow>
          rbind (utxos_loop fuel sleep d (117 # hashX)) (\<lambda>r. Inr (map_option (\<lambda>(d, utxos).
            (d\<lparr>utxo_list_cache := (utxo_list_cache d)(hashX \<mapsto> utxos)\<rparr>, utxos)) r)))"

definition codescripthash_all_utxos ::
    "nat \<Rightarrow> (nat \<Rightarrow> db \<Rightarrow> db) \<Rightarrow> db \<Rightarrow> bytes \<Rightarrow> (db \<times> utxo list) option res" where
  "codescripthash_all_utxos fuel sleep d codeScriptHash = utxos_loop fuel sleep d (99 # 117 # codeScriptHash)"

definition get_cached_balance :: "db \<Rightarrow> bytes \<Rightarrow> int option" where
  "get_cached_balance d hashX = balance_cache d hashX"

definition set_cached_balance :: "db \<Rightarrow> bytes \<Rightarrow> int \<Rightarrow> db" where
  "set_cached_balance d hashX balance = d\<lparr>balance_cache := (balance_cache d)(hashX \<mapsto> balance)\<rparr>"

definition invalidate_balance_cache :: "db \<Rightarrow> bytes set \<Rightarrow> db" where
  "invalidate_balance_cache d hashXs =
     d\<lparr>balance_cache := balance_cache d |` (- hashXs), utxo_list_cache := utxo_list_cache d |` (- hashXs)\<rparr>"

definition invalidate_all_balances :: "db \<Rightarrow> db" where
  "invalidate_all_balances d = d\<lparr>balance_cache := Map.empty, utxo_list_cache := Map.empty, tx_hash_cache := Map.empty\<rparr>"

text \<open>\<open>lookup_hashX\<close> returns at the first entry whose full hash matches.\<close>

fun lookup_hashX_loop :: "db \<Rightarrow> bytes \<Rightarrow> bytes \<Rightarrow> kv \<Rightarrow> (db \<times> (bytes \<times> bytes) option) res" where
  "lookup_hashX_loop d tx_hash idx_packed [] = Inr (d, None)"
| "lookup_hashX_loop d tx_hash idx_packed ((db_key, val) # rows) =
     rbind (unpack_le_uint64 (takelast 5 db_key @ zero_bytes 3)) (\<lambda>tx_num.
     rbind (fs_tx_hash d tx_num) (\<lambda>(d, fs_hash, _).
       if fs_hash = Some tx_hash then Inr (d, Some (take HASHX_LEN val, idx_packed @ takelast 5 db_key))
       else lookup_hashX_loop d tx_hash idx_packed rows))"

definition lookup_hashX :: "db \<Rightarrow> bytes \<times> nat \<Rightarrow> (db \<times> (bytes \<times> bytes) option) res" where
  "lookup_hashX d prevout =
     (case prevout of (tx_hash, tx_idx) \<Rightarrow>
       rbind (pack_le_uint32 (int tx_idx)) (\<lambda>idx_packed.
         lookup_hashX_loop d tx_hash idx_packed
           (kv_iter (utxo_db d) (104 # take 4 tx_hash @ idx_packed) False)))"

definition lookup_utxo :: "db \<Rightarrow> (bytes \<times> bytes) option \<Rightarrow> (bytes \<times> nat) option res" where
  "lookup_utxo d pair =
     (case pair of None \<Rightarrow> Inr None
      | Some (hashX, suffix) \<Rightarrow>
         if hashX = [] then Inr None
         else (case kv_get (utxo_db d) (117 # hashX @ suffix) of
             Some (b # bs) \<Rightarrow> rbind (unpack_le_uint64 (b # bs)) (\<lambda>val. Inr (Some (hashX, val)))
           | _ \<Rightarrow> Inr None))"

definition lookup_utxos :: "db \<Rightarrow> (bytes \<times> nat) list \<Rightarrow> (db \<times> (bytes \<times> nat) option list) res" where
  "lookup_utxos d prevouts =
     rbind (foldM (\<lambda>(d, acc) prevout. rbind (lookup_hashX d prevout) (\<lambda>(d, r). Inr (d, acc @ [r]))) (d, []) prevouts)
       (\<lambda>(d, pairs). rbind (mapM (lookup_utxo d) pairs) (\<lambda>utxos. Inr (d, utxos)))"

fun height_for_tx_loop :: "db \<Rightarrow> bytes \<Rightarrow> kv \<Rightarrow> (db \<times> nat option) res" where
  "height_for_tx_loop d tx_hash [] = Inr (d, None)"
| "height_for_tx_loop d tx_hash ((db_key, _) # rows) =
     rbind (unpack_le_uint64 (takelast 5 db_key @ zero_bytes 3)) (\<lambda>tx_num.
     rbind (fs_tx_hash d tx_num) (\<lambda>(d, fs_hash, ht).
       if fs_hash = Some tx_hash then Inr (d, Some ht) else height_for_tx_loop d tx_hash rows))"

definition get_height_for_tx :: "db \<Rightarrow> bytes \<Rightarrow> (db \<times> nat option) res" where
  "get_height_for_tx d tx_hash =
     height_for_tx_loop d tx_hash (kv_iter (utxo_db d) (104 # take 4 tx_hash) False)"

section \<open>References\<close>

definition outpoint_to_str :: "bytes \<Rightarrow> string res" where
  "outpoint_to_str outpoint =
     rbind (unpack_le_uint32_from (drop 32 outpoint) 0) (\<lambda>num.
       Inr (hash_to_hex_str (take 32 outpoint) @ CHR ''i'' # digits num))"

definition get_ref_mint :: "db \<Rightarrow> bytes \<Rightarrow> bytes option" where
  "get_ref_mint d ref = kv_get (utxo_db d) (114 # 109 # ref)"

definition get_ref_location :: "db \<Rightarrow> bytes \<Rightarrow> bytes option" where
  "get_ref_location d ref = kv_get (utxo_db d) (114 # 108 # ref)"

text \<open>\<open>range(0, len(value), 37)\<close>.\<close>

definition get_refs_by_outpoint :: "db \<Rightarrow> bytes \<Rightarrow> (string \<times> string) list res" where
  "get_refs_by_outpoint d outpoint =
     (case kv_get (utxo_db d) (114 # 105 # outpoint) of
        Some (b # bs) \<Rightarrow>
          mapM (\<lambda>entry. rbind (outpoint_to_str (take 36 entry)) (\<lambda>ref_id.
              if drop 36 entry = [0] then Inr (ref_id, ''normal'')
              else if drop 36 entry = [1] then Inr (ref_id, ''single'')
              else Inl IndexError))
            (chunks_list 37 (b # bs))
      | _ \<Rightarrow> Inr [])"

section \<open>Raw blocks and undo information\<close>

definition read_undo_info :: "db \<Rightarrow> int \<Rightarrow> bytes option res" where
  "read_undo_info d ht = rbind (undo_key ht) (\<lambda>k. Inr (kv_get (utxo_db d) k))"

definition read_ref_loc_undo_info :: "db \<Rightarrow> int \<Rightarrow> bytes option res" where
  "read_ref_loc_undo_info d ht = rbind (ref_loc_undo_key ht) (\<lambda>k. Inr (kv_get (utxo_db d) k))"

definition read_raw_block :: "db \<Rightarrow> int \<Rightarrow> bytes res" where
  "read_raw_block d ht = (case map_of (raw_blocks d) ht of Some b \<Rightarrow> Inr b | None \<Rightarrow> Inl FileNotFoundError)"

definition write_raw_block :: "db \<Rightarrow> bytes \<Rightarrow> int \<Rightarrow> db" where
  "write_raw_block d blk ht =
     d\<lparr>raw_blocks := dict_del (min_undo_height d ht - 1) (dict_set ht blk (raw_blocks d))\<rparr>"

end
