(* ===== verification/BlockProcessor.thy ===== *)
theory BlockProcessor
  imports Db
begin

text \<open>
  \<open>electrumx/server/block_processor.py\<close>: the chain state the indexer holds in memory, how a block
  moves it forward, how a reorganisation moves it back, and how it is flushed. The overlays (token,
  name, realm, order, prediction, royalty and analytics indexes) are arguments: functions on a state
  of their own that may raise; they read the database and leave the state below alone. The digests
  \<open>sha\<close> and \<open>H\<close>, the daemon's answers and the clock are arguments too. \<open>await\<close> is sequential:
  the state lock serialises the operations.
\<close>

section \<open>State\<close>

record 'o bp =
  bp_db :: db
  height :: int
  tip :: bytes
  tx_count :: int
  touched :: "bytes set"
  reorg_count :: "int option"
  next_cache_check :: int
  headers :: "bytes list"
  tx_hashes :: "bytes list"
  undo_infos :: "(bytes list \<times> int) list"
  ref_loc_undo_infos :: "(bytes list \<times> int) list"
  utxo_cache :: "(bytes, bytes) dict"
  ref_cache :: "(bytes, bytes) dict"
  ref_mint_cache :: "(bytes, bytes) dict"
  ref_loc_cache :: "(bytes, bytes) dict"
  data_cache :: "(bytes, bytes) dict"
  db_deletes :: "bytes list"
  overlay_state :: 'o

text \<open>What an overlay is given for a transaction.\<close>

record tx_ctx =
  ctx_tx_hash :: bytes
  ctx_tx :: Tx
  ctx_height :: int
  ctx_tx_idx :: int
  ctx_output_refs :: "(nat, (bytes \<times> nat) list) dict"
  ctx_spent_singletons :: "bytes set option"
  ctx_spent_outpoints :: "bytes set"

text \<open>An index that is not configured is \<open>None\<close>. The token index returns an envelope, with
  \<open>None\<close> for a falsy one.\<close>

type_synonym ('o, 'e) overlay = "db \<Rightarrow> tx_ctx \<Rightarrow> 'e option \<Rightarrow> 'o \<Rightarrow> 'o \<times> unit res"
type_synonym debit = "bytes \<times> nat \<times> bytes"
type_synonym credit = "bytes \<times> int \<times> bytes list \<times> bytes"
type_synonym spend = "bytes \<times> nat \<times> bytes \<times> nat"
type_synonym addition = "bytes \<times> nat \<times> bytes \<times> int \<times> bytes"

record ('o, 'e) overlays =
  glyph_index :: "(db \<Rightarrow> tx_ctx \<Rightarrow> 'o \<Rightarrow> 'o \<times> 'e option res) option"
  glyph_balances :: "db \<Rightarrow> int \<Rightarrow> debit list \<Rightarrow> credit list \<Rightarrow> 'o \<Rightarrow> 'o \<times> unit res"
  wave_index :: "('o, 'e) overlay option"
  realm_index :: "('o, 'e) overlay option"
  swap_index :: "('o, 'e) overlay option"
  predict_index :: "('o, 'e) overlay option"
  royalty_index :: "('o, 'e) overlay option"
  analytics_index :: "(db \<Rightarrow> int \<Rightarrow> spend list \<Rightarrow> addition list \<Rightarrow> 'o \<Rightarrow> 'o \<times> unit res) option"
  index_flush :: "db \<Rightarrow> 'o \<Rightarrow> (batch_op list \<times> 'o) res"
  index_backup :: "db \<Rightarrow> int \<Rightarrow> 'o \<Rightarrow> (batch_op list \<times> 'o) res"
  index_memory :: "'o \<Rightarrow> int"

section \<open>Spending a UTXO\<close>

text \<open>The loop over the candidates; \<open>many\<close> is \<open>len(candidates) > 1\<close>.\<close>

fun spend_from_db :: "bool \<Rightarrow> bytes \<Rightarrow> kv \<Rightarrow> 'o bp \<Rightarrow> ('o bp \<times> bytes) res" where
  "spend_from_db many tx_hash [] s = Inl ChainError"
| "spend_from_db many tx_hash ((hdb_key, row) # rows) s =
     (let tx_num_packed = takelast 5 hdb_key in
      rbind (if many then
               rbind (unpack_le_uint64 (tx_num_packed @ zero_bytes 3)) (\<lambda>tx_num.
               rbind (fs_tx_hash (bp_db s) tx_num) (\<lambda>(d, fs_hash, _).
                 if fs_hash \<noteq> Some tx_hash
                 then (if fs_hash = None then Inl AssertionError else Inr (s\<lparr>bp_db := d\<rparr>, False))
                 else Inr (s\<lparr>bp_db := d\<rparr>, True)))
             else Inr (s, True)) (\<lambda>(s, mine).
        if \<not> mine then spend_from_db many tx_hash rows s
        else
          let hashX = take HASHX_LEN row; codeScriptHash = drop HASHX_LEN row;
              udb_key = 117 # hashX @ takelast 9 hdb_key in
          case kv_get (utxo_db (bp_db s)) udb_key of
            Some (b # bs) \<Rightarrow>
              Inr (s\<lparr>db_deletes := db_deletes s @ [hdb_key, udb_key]\<rparr>, hashX @ codeScriptHash @ tx_num_packed @ b # bs)
          | _ \<Rightarrow> spend_from_db many tx_hash rows s))"

definition spend_utxo :: "bytes \<Rightarrow> nat \<Rightarrow> 'o bp \<Rightarrow> ('o bp \<times> bytes) res" where
  "spend_utxo tx_hash tx_idx s =
     rbind (pack_le_uint32 (int tx_idx)) (\<lambda>idx_packed.
       let s' = s\<lparr>utxo_cache := dict_del (tx_hash @ idx_packed) (utxo_cache s)\<rparr> in
       case map_of (utxo_cache s) (tx_hash @ idx_packed) of
         Some (b # bs) \<Rightarrow> Inr (s', b # bs)
       | _ \<Rightarrow>
           let candidates = kv_iter (utxo_db (bp_db s)) (104 # take 4 tx_hash @ idx_packed) False
           in spend_from_db (length candidates > 1) tx_hash candidates s')"

definition delete_potential_refs :: "bytes \<Rightarrow> nat \<Rightarrow> 'o bp \<Rightarrow> 'o bp res" where
  "delete_potential_refs tx_hash tx_idx s =
     rbind (pack_le_uint32 (int tx_idx)) (\<lambda>idx_packed.
       let outpoint = tx_hash @ idx_packed;
           cached = map_of (ref_cache s) outpoint;
           stored = kv_get (utxo_db (bp_db s)) (114 # 105 # outpoint);
           full = (\<lambda>v. v \<noteq> None \<and> v \<noteq> Some []) in
       if full cached \<and> full stored then Inl IndexError
       else Inr (s\<lparr>ref_cache := dict_del outpoint (ref_cache s),
             data_cache := dict_del (114 # 98 # outpoint) (data_cache s),
             db_deletes := db_deletes s @ [114 # 105 # outpoint, 114 # 98 # outpoint]\<rparr>))"

section \<open>Which outputs are indexed\<close>

definition script_parse_errors :: "py_exc set" where
  "script_parse_errors = {ScriptError, AssertionError, ValueError, IndexError}"

text \<open>An exception outside the tuple propagates.\<close>

definition output_indexable :: "bytes \<Rightarrow> bool res" where
  "output_indexable script =
     (if is_unspendable_legacy script then Inr False
      else case zero_refs script of
             Inr _ \<Rightarrow> Inr True
           | Inl e \<Rightarrow> if e \<in> script_parse_errors then Inr False else Inl e)"

section \<open>Advancing a transaction\<close>

text \<open>The local variables of \<open>advance_txs\<close>: those of the block and those of one transaction.\<close>

record blk_acc =
  undo_info :: "bytes list"
  ref_loc_undo :: "(bytes, bytes) dict"
  analytics_spends :: "spend list"
  analytics_adds :: "addition list"
  hashXs_by_tx :: "bytes list list"
  mints :: "bytes set"

record tx_acc =
  hashXs :: "bytes list"
  refs :: "bytes list"
  output_refs_by_vout :: "(nat, (bytes \<times> nat) list) dict"
  balance_debits :: "debit list"
  balance_credits :: "credit list"
  spent_singleton_refs :: "bytes set option"

type_synonym 'o adv = "'o bp \<times> blk_acc \<times> tx_acc"

definition truthy :: "bytes option \<Rightarrow> bytes option" where
  "truthy v = (case v of Some (b # bs) \<Rightarrow> v | _ \<Rightarrow> None)"

definition py_or :: "bytes option \<Rightarrow> bytes option \<Rightarrow> bytes option" where
  "py_or a b = (if truthy a \<noteq> None then a else b)"

definition singleton_entries :: "bytes \<Rightarrow> bytes set" where
  "singleton_entries spent_refs =
     set (map (take 36) (filter (\<lambda>e. length e = 37 \<and> e ! 36 = 1) (chunks_list 37 spent_refs)))"

definition advance_input :: "('o, 'e) overlays \<Rightarrow> 'o adv \<Rightarrow> TxInput \<Rightarrow> 'o adv res" where
  "advance_input ov st txin = (case st of (s, blk, tx) \<Rightarrow>
     if is_generation txin then Inr st
     else
       rbind (pack_le_uint32 (int (prev_idx txin))) (\<lambda>idx_packed.
       let outpoint = prev_hash txin @ idx_packed;
           spent_refs = (if glyph_index ov \<noteq> None
             then truthy (py_or (map_of (ref_cache s) outpoint) (kv_get (utxo_db (bp_db s)) (114 # 105 # outpoint)))
             else None) in
       rbind (spend_utxo (prev_hash txin) (prev_idx txin) s) (\<lambda>(s, cache_value).
       let hashX = take HASHX_LEN cache_value in
       rbind (if analytics_index ov \<noteq> None
              then rbind (unpack_le_uint64 (takelast 8 cache_value)) (\<lambda>v. Inr [(prev_hash txin, prev_idx txin, hashX, v)])
              else Inr []) (\<lambda>spends.
       let blk = blk\<lparr>undo_info := undo_info blk @ [cache_value], analytics_spends := analytics_spends blk @ spends\<rparr>;
           tx = tx\<lparr>hashXs := hashXs tx @ [hashX]\<rparr> in
       case spent_refs of
         None \<Rightarrow> Inr (s, blk, tx)
       | Some sr \<Rightarrow>
           rbind (unpack_le_uint64 (takelast 8 cache_value)) (\<lambda>spent_value.
             let base = py_or (py_or (map_of (data_cache s) (114 # 98 # outpoint))
                          (kv_get (utxo_db (bp_db s)) (114 # 98 # outpoint))) (Some hashX)
             in Inr (s, blk, tx\<lparr>balance_debits := balance_debits tx @ [(the base, spent_value, sr)],
                  spent_singleton_refs := map_option (\<lambda>m. m \<union> singleton_entries sr) (spent_singleton_refs tx)\<rparr>))))))"

definition spent_outpoints :: "Tx \<Rightarrow> bytes set res" where
  "spent_outpoints tx =
     rbind (mapM (\<lambda>txin. rbind (pack_le_uint32 (int (prev_idx txin))) (\<lambda>i. Inr (prev_hash txin @ i)))
       (filter (\<lambda>txin. \<not> is_generation txin) (tx_inputs tx))) (\<lambda>os. Inr (set os))"

text \<open>\<open>refs_value\<close>: every reference with its type byte.\<close>

fun refs_value :: "(bytes, bytes) dict \<Rightarrow> (bytes, bytes) dict \<Rightarrow> bytes list \<Rightarrow> bytes res" where
  "refs_value normal single [] = Inr []"
| "refs_value normal single (ref_id # rest) =
     rbind (if truthy (map_of normal ref_id) = None
            then (if truthy (map_of single ref_id) = None then Inl AssertionError else Inr 1)
            else Inr 0) (\<lambda>enc.
     rbind (refs_value normal single rest) (\<lambda>v. Inr (ref_id @ [enc] @ v)))"

text \<open>A singleton reference of an output: a mint when the transaction spends its outpoint, otherwise
  its new location, whose previous value is recorded once per block.\<close>

definition track_singleton :: "bytes \<Rightarrow> bytes set \<Rightarrow> 'o adv \<Rightarrow> bytes \<Rightarrow> 'o adv" where
  "track_singleton tx_hash spent st ref = (case st of (s, blk, tx) \<Rightarrow>
     let tx = tx\<lparr>refs := refs tx @ [ref]\<rparr> in
     if ref \<in> spent
     then (s\<lparr>ref_mint_cache := dict_set ref tx_hash (ref_mint_cache s)\<rparr>, blk\<lparr>mints := insert ref (mints blk)\<rparr>, tx)
     else
       let s = s\<lparr>ref_loc_cache := dict_set ref tx_hash (ref_loc_cache s)\<rparr> in
       if ref \<notin> mints blk \<and> map_of (ref_loc_undo blk) ref = None
       then (case truthy (kv_get (utxo_db (bp_db s)) (114 # 108 # ref)) of
               Some cur_loc \<Rightarrow> (s, blk\<lparr>ref_loc_undo := dict_set ref cur_loc (ref_loc_undo blk)\<rparr>, tx)
             | None \<Rightarrow> (s, blk, tx))
       else (s, blk, tx))"

definition track_normal :: "bytes \<Rightarrow> bytes set \<Rightarrow> 'o adv \<Rightarrow> bytes \<Rightarrow> 'o adv" where
  "track_normal tx_hash spent st ref = (case st of (s, blk, tx) \<Rightarrow>
     if ref \<in> spent
     then (s\<lparr>ref_mint_cache := dict_set ref tx_hash (ref_mint_cache s)\<rparr>, blk, tx\<lparr>refs := refs tx @ [ref]\<rparr>)
     else (s, blk, tx))"

text \<open>The references of an output for the token index, with their types; the entry of the reference
  table; and the balance credit of its base address.\<close>

definition collect_output_refs ::
    "nat \<Rightarrow> bytes list \<Rightarrow> (bytes, bytes) dict \<Rightarrow> (bytes, bytes) dict \<Rightarrow> 'o adv \<Rightarrow> 'o adv" where
  "collect_output_refs idx keys normal_d single_d st = (case st of (s, blk, tx) \<Rightarrow>
     if keys = [] then (s, blk, tx)
     else (s, blk, tx\<lparr>output_refs_by_vout := dict_set idx
        (map (\<lambda>r. (r, if truthy (map_of single_d r) \<noteq> None \<and> truthy (map_of normal_d r) = None then 1 else 0)) keys)
        (output_refs_by_vout tx)\<rparr>))"

definition put_refs :: "bytes \<Rightarrow> bytes \<Rightarrow> 'o adv \<Rightarrow> 'o adv" where
  "put_refs cache_key val st = (case st of (s, rest) \<Rightarrow>
     (if val = [] then s else s\<lparr>ref_cache := dict_set cache_key val (ref_cache s)\<rparr>, rest))"

definition credit_output ::
    "(bytes \<Rightarrow> bytes) \<Rightarrow> ('o, 'e) overlays \<Rightarrow> bytes \<Rightarrow> TxOutput \<Rightarrow> bytes list \<Rightarrow> 'o adv \<Rightarrow> 'o adv" where
  "credit_output sha ov cache_key txout keys st = (case st of (s, blk, tx) \<Rightarrow>
     if glyph_index ov \<noteq> None \<and> keys \<noteq> [] then
       let base_script = base_locking_script (pk_script txout);
           base_hashX = hashX_from_script sha base_script
       in (s\<lparr>data_cache := dict_set (114 # 98 # cache_key) base_hashX (data_cache s)\<rparr>, blk,
           tx\<lparr>balance_credits := balance_credits tx @ [(base_hashX, out_value txout, keys, base_script)]\<rparr>)
     else st)"

text \<open>The guarded reference block of an output. A caught exception keeps what was done before it.\<close>

definition advance_refs ::
    "(bytes \<Rightarrow> bytes) \<Rightarrow> ('o, 'e) overlays \<Rightarrow> bytes \<Rightarrow> bytes set \<Rightarrow> bytes \<Rightarrow> nat \<Rightarrow> TxOutput \<Rightarrow> 'o adv \<Rightarrow> 'o adv res" where
  "advance_refs sha ov tx_hash spent cache_key idx txout st =
     (case get_push_input_refs (pk_script txout) of
        Inl e \<Rightarrow> if e \<in> script_parse_errors then Inr st else Inl e
      | Inr (all_refs, normal_refs, singleton_refs) \<Rightarrow>
        let all_d = dedup_refs all_refs; normal_d = dedup_refs normal_refs; single_d = dedup_refs singleton_refs;
            keys = dict_keys all_d;
            st = collect_output_refs idx keys normal_d single_d st in
        case refs_value normal_d single_d keys of
          Inl e \<Rightarrow> if e \<in> script_parse_errors then Inr st else Inl e
        | Inr val \<Rightarrow>
            let st = put_refs cache_key val st;
                st = foldl (track_singleton tx_hash spent) st (dict_keys single_d);
                st = foldl (track_normal tx_hash spent) st (dict_keys normal_d)
            in Inr (credit_output sha ov cache_key txout keys st))"

definition advance_output ::
    "(bytes \<Rightarrow> bytes) \<Rightarrow> ('o, 'e) overlays \<Rightarrow> bytes \<Rightarrow> bytes \<Rightarrow> bytes set \<Rightarrow> 'o adv \<Rightarrow> nat \<times> TxOutput \<Rightarrow> 'o adv res" where
  "advance_output sha ov tx_hash tx_numb spent st out = (case (st, out) of ((s, blk, tx), (idx, txout)) \<Rightarrow>
     rbind (output_indexable (pk_script txout)) (\<lambda>indexable.
     if \<not> indexable then Inr st
     else
       case rbind (zero_refs (pk_script txout)) (\<lambda>zr.
              rbind (codeScriptHash_from_script sha (pk_script txout)) (\<lambda>csh. Inr (zr, csh))) of
         Inl e \<Rightarrow> if e \<in> script_parse_errors then Inr st else Inl e
       | Inr (zr, codeScriptHash) \<Rightarrow>
           let hashX = hashX_from_script sha zr in
           rbind (pack_le_uint32 (int idx)) (\<lambda>idx_packed.
           rbind (pack_le_uint64 (out_value txout)) (\<lambda>value_packed.
           let cache_key = tx_hash @ idx_packed;
               s = s\<lparr>utxo_cache := dict_set cache_key (hashX @ codeScriptHash @ tx_numb @ value_packed) (utxo_cache s)\<rparr>;
               blk = (if analytics_index ov \<noteq> None
                 then blk\<lparr>analytics_adds := analytics_adds blk @ [(tx_hash, idx, hashX, out_value txout, zr)]\<rparr> else blk);
               tx = tx\<lparr>hashXs := hashXs tx @ [hashX]\<rparr>
           in advance_refs sha ov tx_hash spent cache_key idx txout (s, blk, tx)))))"

text \<open>An overlay call in its guard: \<open>MemoryError\<close> is raised again, any other exception is logged and
  the overlay keeps what it had done.\<close>

definition guarded :: "'o bp \<Rightarrow> 'o \<times> 'a res \<Rightarrow> 'a \<Rightarrow> ('o bp \<times> 'a) res" where
  "guarded s call dflt = (case call of (o', r) \<Rightarrow>
     let s = s\<lparr>overlay_state := o'\<rparr> in
     case r of Inr x \<Rightarrow> Inr (s, x) | Inl e \<Rightarrow> if e = MemoryError then Inl MemoryError else Inr (s, dflt))"

definition run_overlay :: "('o, 'e) overlay option \<Rightarrow> bool \<Rightarrow> tx_ctx \<Rightarrow> 'e option \<Rightarrow> 'o bp \<Rightarrow> 'o bp res" where
  "run_overlay overlay wanted ctx env s =
     (case overlay of None \<Rightarrow> Inr s
      | Some f \<Rightarrow> if wanted then rbind (guarded s (f (bp_db s) ctx env (overlay_state s)) ()) (\<lambda>(s, _). Inr s)
                  else Inr s)"

definition run_overlays :: "('o, 'e) overlays \<Rightarrow> tx_ctx \<Rightarrow> tx_acc \<Rightarrow> 'o bp \<Rightarrow> 'o bp res" where
  "run_overlays ov ctx tx s =
     (case glyph_index ov of None \<Rightarrow> Inr s
      | Some glyph \<Rightarrow>
          rbind (guarded s (glyph (bp_db s) ctx (overlay_state s)) None) (\<lambda>(s, env).
          rbind (run_overlay (wave_index ov) (env \<noteq> None \<or> spent_singleton_refs tx \<notin> {None, Some {}}) ctx env s) (\<lambda>s.
          rbind (run_overlay (realm_index ov) (env \<noteq> None) ctx env s) (\<lambda>s.
          rbind (run_overlay (swap_index ov) True ctx env s) (\<lambda>s.
          rbind (run_overlay (predict_index ov) True ctx env s) (\<lambda>s.
          rbind (run_overlay (royalty_index ov) True ctx env s) (\<lambda>s.
            if balance_debits tx \<noteq> [] \<or> balance_credits tx \<noteq> []
            then rbind (guarded s (glyph_balances ov (bp_db s) (height s + 1) (balance_debits tx) (balance_credits tx)
                     (overlay_state s)) ()) (\<lambda>(s, _). Inr s)
            else Inr s)))))))"

definition advance_tx ::
    "(bytes \<Rightarrow> bytes) \<Rightarrow> ('o, 'e) overlays \<Rightarrow> 'o bp \<times> blk_acc \<times> int \<Rightarrow> Tx \<times> bytes \<Rightarrow> ('o bp \<times> blk_acc \<times> int) res" where
  "advance_tx sha ov st txh = (case (st, txh) of ((s, blk, tx_num), (tx, tx_hash)) \<Rightarrow>
     rbind (pack_le_uint64 tx_num) (\<lambda>packed.
     let tx_numb = take 5 packed;
         acc = \<lparr>hashXs = [], refs = [], output_refs_by_vout = [], balance_debits = [], balance_credits = [],
           spent_singleton_refs = (if glyph_index ov \<noteq> None then Some {} else None)\<rparr> in
     rbind (foldM (advance_input ov) (s, blk, acc) (tx_inputs tx)) (\<lambda>st.
     rbind (spent_outpoints tx) (\<lambda>spent.
     rbind (foldM (advance_output sha ov tx_hash tx_numb spent) st (enumerate 0 (tx_outputs tx))) (\<lambda>(s, blk, acc).
     let blk = blk\<lparr>hashXs_by_tx := hashXs_by_tx blk @ [hashXs acc]\<rparr>;
         s = s\<lparr>touched := touched s \<union> set (hashXs acc) \<union> set (refs acc)\<rparr>;
         ctx = \<lparr>ctx_tx_hash = tx_hash, ctx_tx = tx, ctx_height = height s + 1, ctx_tx_idx = tx_num - tx_count s,
           ctx_output_refs = output_refs_by_vout acc, ctx_spent_singletons = spent_singleton_refs acc,
           ctx_spent_outpoints = spent\<rparr> in
     rbind (run_overlays ov ctx acc s) (\<lambda>s. Inr (s, blk, tx_num + 1)))))))"

definition run_analytics :: "('o, 'e) overlays \<Rightarrow> blk_acc \<Rightarrow> 'o bp \<Rightarrow> 'o bp res" where
  "run_analytics ov blk s =
     (case analytics_index ov of
        Some f \<Rightarrow> if analytics_spends blk \<noteq> [] \<or> analytics_adds blk \<noteq> []
          then rbind (guarded s (f (bp_db s) (height s + 1) (analytics_spends blk) (analytics_adds blk)
                 (overlay_state s)) ()) (\<lambda>(s, _). Inr s)
          else Inr s
      | None \<Rightarrow> Inr s)"

definition advance_txs ::
    "(bytes \<Rightarrow> bytes) \<Rightarrow> ('o, 'e) overlays \<Rightarrow> (Tx \<times> bytes) list \<Rightarrow> 'o bp \<Rightarrow> ('o bp \<times> bytes list \<times> bytes list) res" where
  "advance_txs sha ov txs s =
     (let s = s\<lparr>tx_hashes := tx_hashes s @ [concat (map snd txs)]\<rparr>;
          blk = \<lparr>undo_info = [], ref_loc_undo = [], analytics_spends = [], analytics_adds = [], hashXs_by_tx = [],
            mints = {}\<rparr> in
      rbind (foldM (advance_tx sha ov) (s, blk, tx_count s) txs) (\<lambda>(s, blk, tx_num).
      rbind (run_analytics ov blk s) (\<lambda>s.
      rbind (add_unflushed (db_history (bp_db s)) (hashXs_by_tx blk) (tx_count s)) (\<lambda>h.
      rbind (counts (bp_db s)) (\<lambda>tcs.
        if 0 \<le> tx_num \<and> tx_num < 2 ^ 64
        then Inr (s\<lparr>bp_db := (bp_db s)\<lparr>db_history := h, tx_counts := Some (tcs @ [nat tx_num])\<rparr>, tx_count := tx_num\<rparr>,
                  undo_info blk, map (\<lambda>(r, l). r @ l) (ref_loc_undo blk))
        else Inl OverflowError)))))"

text \<open>\<open>cached_height\<close> is the daemon's.\<close>

definition advance_block ::
    "(bytes \<Rightarrow> bytes) \<Rightarrow> (bytes \<Rightarrow> bytes) \<Rightarrow> ('o, 'e) overlays \<Rightarrow> int \<Rightarrow> block \<Rightarrow> 'o bp \<Rightarrow> 'o bp res" where
  "advance_block sha H ov cached_height blk s =
     (let min_height = min_undo_height (bp_db s) cached_height; new_height = height s + 1 in
      rbind (advance_txs sha ov (transactions blk) s) (\<lambda>(s, undo, ref_undo).
        let s = (if new_height \<ge> min_height
              then s\<lparr>undo_infos := undo_infos s @ [(undo, new_height)],
                     ref_loc_undo_infos := ref_loc_undo_infos s @ [(ref_undo, new_height)],
                     bp_db := write_raw_block (bp_db s) (raw blk) new_height\<rparr>
              else s)
        in Inr (s\<lparr>height := new_height, headers := headers s @ [header blk], tip := H (header blk)\<rparr>)))"

section \<open>Flushing\<close>

text \<open>\<open>FlushData\<close> aliases the caches: clearing them in the flush clears them here, which
  \<open>after_flush\<close> writes back.\<close>

definition flush_data_of :: "'o bp \<Rightarrow> flush_data" where
  "flush_data_of s = \<lparr>fd_height = height s, fd_tx_count = tx_count s, fd_headers = headers s,
     fd_block_tx_hashes = tx_hashes s, fd_undo_infos = undo_infos s, fd_ref_loc_undo_infos = ref_loc_undo_infos s,
     fd_adds = utxo_cache s, fd_ref_adds = ref_cache s, fd_ref_mints = ref_mint_cache s, fd_ref_locs = ref_loc_cache s,
     fd_data_adds = data_cache s, fd_deletes = db_deletes s, fd_tip = tip s\<rparr>"

definition after_flush :: "'o bp \<Rightarrow> db \<times> flush_data \<Rightarrow> 'o bp" where
  "after_flush s r = (case r of (d, f) \<Rightarrow>
     s\<lparr>bp_db := d, headers := fd_headers f, tx_hashes := fd_block_tx_hashes f, undo_infos := fd_undo_infos f,
       ref_loc_undo_infos := fd_ref_loc_undo_infos f, utxo_cache := fd_adds f, ref_cache := fd_ref_adds f,
       ref_mint_cache := fd_ref_mints f, ref_loc_cache := fd_ref_locs f, data_cache := fd_data_adds f,
       db_deletes := fd_deletes f\<rparr>)"

text \<open>\<open>now\<close> is the time of the two readings of the clock in \<open>flush_dbs\<close> and of \<open>time.monotonic\<close>.
  The indexes are not flushed when there was nothing to flush.\<close>

definition bp_flush :: "('o, 'e) overlays \<Rightarrow> int \<Rightarrow> bool \<Rightarrow> 'o bp \<Rightarrow> 'o bp res" where
  "bp_flush ov now flush_utxos s =
     rbind (flush_dbs now now (\<lambda>d. index_flush ov d (overlay_state s)) (flush_data_of s) flush_utxos (bp_db s))
       (\<lambda>(d, f, o').
        let s' = after_flush s (d, f);
            s' = (case o' of None \<Rightarrow> s' | Some o' \<Rightarrow> s'\<lparr>overlay_state := o'\<rparr>);
            s' = (if touched s' \<noteq> {} then s'\<lparr>bp_db := invalidate_balance_cache (bp_db s') (touched s')\<rparr> else s')
        in Inr (s'\<lparr>next_cache_check := now + 30\<rparr>))"

definition check_cache_size :: "('o, 'e) overlays \<Rightarrow> int \<Rightarrow> 'o bp \<Rightarrow> bool option" where
  "check_cache_size ov cache_MB s =
     (let one_MB = 1000 * 1000;
          utxo_cache_size = int (length (utxo_cache s)) * 205;
          ref_cache_size = int (length (ref_cache s)) * 190 + int (length (data_cache s)) * 60;
          db_deletes_size = int (length (db_deletes s)) * 57;
          hist_cache_size = int (unflushed_memsize (db_history (bp_db s)));
          tx_hash_size = (tx_count s - fs_tx_count (bp_db s)) * 32 + (height s - fs_height (bp_db s)) * 42;
          utxo_MB = (db_deletes_size + utxo_cache_size) div one_MB;
          ref_MB = ref_cache_size div one_MB;
          hist_MB = (hist_cache_size + tx_hash_size) div one_MB;
          index_MB = index_memory ov (overlay_state s) div one_MB;
          total_MB = utxo_MB + hist_MB + ref_MB + index_MB
      in if total_MB \<ge> cache_MB \<or> hist_MB \<ge> cache_MB div 5 then Some True else None)"

definition schedule_reorg :: "int \<Rightarrow> 'o bp \<Rightarrow> 'o bp" where
  "schedule_reorg count s = s\<lparr>reorg_count := Some count\<rparr>"

definition force_chain_reorg :: "bool \<Rightarrow> int \<Rightarrow> 'o bp \<Rightarrow> 'o bp \<times> bool" where
  "force_chain_reorg caught_up count s = (if caught_up then (schedule_reorg count s, True) else (s, False))"

text \<open>The blocks of a batch; the result says whether all of them were taken.\<close>

fun advance_raw_blocks ::
    "(bytes \<Rightarrow> bytes) \<Rightarrow> (bytes \<Rightarrow> bytes) \<Rightarrow> ('o, 'e) overlays \<Rightarrow> int \<Rightarrow> bytes list \<Rightarrow> 'o bp \<Rightarrow> ('o bp \<times> bool) res" where
  "advance_raw_blocks sha H ov cached_height [] s = Inr (s, True)"
| "advance_raw_blocks sha H ov cached_height (raw_block # rest) s =
     rbind (read_block sha raw_block) (\<lambda>blk.
       if header_prevhash (header blk) \<noteq> tip s then Inr (schedule_reorg (-1) s, False)
       else rbind (advance_block sha H ov cached_height blk s) (advance_raw_blocks sha H ov cached_height rest))"

text \<open>\<open>_advance_blocks\<close> up to the notifications: when the chain ends flush, otherwise check the
  cache at intervals. \<open>_on_caught_up\<close> only reopens the database for serving.\<close>

definition advance_blocks ::
    "(bytes \<Rightarrow> bytes) \<Rightarrow> (bytes \<Rightarrow> bytes) \<Rightarrow> ('o, 'e) overlays \<Rightarrow> int \<Rightarrow> int \<Rightarrow> int \<Rightarrow> bytes list \<Rightarrow> 'o bp \<Rightarrow> 'o bp res" where
  "advance_blocks sha H ov cached_height cache_MB now blocks s =
     rbind (advance_raw_blocks sha H ov cached_height blocks s) (\<lambda>(s, complete).
       if \<not> complete then Inr s
       else
         rbind (if height s = cached_height then bp_flush ov now True s
                else if now > next_cache_check s then
                  (case check_cache_size ov cache_MB s of None \<Rightarrow> Inr s | Some a \<Rightarrow> bp_flush ov now a s)
                else Inr s) (\<lambda>s. Inr (s\<lparr>touched := {}\<rparr>)))"

section \<open>Backing up\<close>

text \<open>\<open>xs[a:b]\<close> with Python's negative bounds.\<close>

definition py_slice :: "int \<Rightarrow> int \<Rightarrow> 'a list \<Rightarrow> 'a list" where
  "py_slice a b xs =
     (let norm = (\<lambda>i. if i < 0 then max 0 (int (length xs) + i) else i) in slice (nat (norm a)) (nat (norm b)) xs)"

definition undo_entry_len :: int where
  "undo_entry_len = 13 + int HASHX_LEN + 32"

definition backup_ref :: "(bytes \<Rightarrow> bytes) \<Rightarrow> bytes set \<Rightarrow> 'o bp \<Rightarrow> bytes \<Rightarrow> 'o bp res" where
  "backup_ref sha spent s ref =
     (let s = s\<lparr>touched := insert (hashX_from_script sha ref) (touched s)\<rparr> in
      if ref \<in> spent then
        let cached = truthy (map_of (ref_mint_cache s) ref);
            s = s\<lparr>ref_mint_cache := dict_del ref (ref_mint_cache s)\<rparr>;
            stored = truthy (kv_get (utxo_db (bp_db s)) (114 # 109 # ref)) in
        if cached \<noteq> None \<and> stored \<noteq> None then Inl IndexError
        else Inr (if stored \<noteq> None then s\<lparr>db_deletes := db_deletes s @ [114 # 109 # ref]\<rparr> else s)
      else
        let cached = truthy (map_of (ref_loc_cache s) ref);
            s = s\<lparr>ref_loc_cache := dict_del ref (ref_loc_cache s)\<rparr>;
            stored = truthy (kv_get (utxo_db (bp_db s)) (114 # 108 # ref)) in
        if cached \<noteq> None \<and> stored \<noteq> None then Inl IndexError
        else Inr (if stored \<noteq> None then s\<lparr>db_deletes := db_deletes s @ [114 # 108 # ref]\<rparr> else s))"

definition backup_output :: "(bytes \<Rightarrow> bytes) \<Rightarrow> bytes \<Rightarrow> bytes set \<Rightarrow> 'o bp \<Rightarrow> nat \<times> TxOutput \<Rightarrow> 'o bp res" where
  "backup_output sha tx_hash spent s out = (case out of (idx, txout) \<Rightarrow>
     rbind (output_indexable (pk_script txout)) (\<lambda>indexable.
     if \<not> indexable then Inr s
     else
       rbind (spend_utxo tx_hash idx s) (\<lambda>(s, cache_value).
       rbind (delete_potential_refs tx_hash idx (s\<lparr>touched := insert (take HASHX_LEN cache_value) (touched s)\<rparr>)) (\<lambda>s.
         case get_push_input_refs (pk_script txout) of
           Inl e \<Rightarrow> if e \<in> script_parse_errors then Inr s else Inl e
         | Inr (all_refs, _, _) \<Rightarrow> foldM (backup_ref sha spent) s (dict_keys (dedup_refs all_refs))))))"

text \<open>An input restored from the undo information, whose unread length is \<open>n\<close>.\<close>

definition backup_input :: "bytes \<Rightarrow> 'o bp \<times> int \<Rightarrow> TxInput \<Rightarrow> ('o bp \<times> int) res" where
  "backup_input undo st txin = (case st of (s, n) \<Rightarrow>
     if is_generation txin then Inr st
     else
       let n = n - undo_entry_len; undo_item = py_slice n (n + undo_entry_len) undo in
       rbind (pack_le_uint32 (int (prev_idx txin))) (\<lambda>idx_packed.
         Inr (s\<lparr>utxo_cache := dict_set (prev_hash txin @ idx_packed) undo_item (utxo_cache s),
                touched := insert (take HASHX_LEN undo_item) (touched s)\<rparr>, n)))"

definition backup_tx :: "(bytes \<Rightarrow> bytes) \<Rightarrow> bytes \<Rightarrow> 'o bp \<times> int \<Rightarrow> Tx \<times> bytes \<Rightarrow> ('o bp \<times> int) res" where
  "backup_tx sha undo st txh = (case (st, txh) of ((s, n), (tx, tx_hash)) \<Rightarrow>
     rbind (spent_outpoints tx) (\<lambda>spent.
     rbind (foldM (backup_output sha tx_hash spent) s (enumerate 0 (tx_outputs tx))) (\<lambda>s.
       foldM (backup_input undo) (s, n) (rev (tx_inputs tx)))))"

definition restore_ref_locs :: "bytes \<Rightarrow> 'o bp \<Rightarrow> 'o bp" where
  "restore_ref_locs ref_loc_undo_info s =
     foldl (\<lambda>s chunk. s\<lparr>ref_loc_cache := dict_set (take 36 chunk) (drop 36 chunk) (ref_loc_cache s)\<rparr>) s
       (chunks_list 68 ref_loc_undo_info)"

definition backup_txs :: "(bytes \<Rightarrow> bytes) \<Rightarrow> (Tx \<times> bytes) list \<Rightarrow> 'o bp \<Rightarrow> 'o bp res" where
  "backup_txs sha txs s =
     rbind (read_undo_info (bp_db s) (height s)) (\<lambda>undo.
     rbind (read_ref_loc_undo_info (bp_db s) (height s)) (\<lambda>ref_undo.
       case (undo, ref_undo) of
         (Some undo, Some ref_undo) \<Rightarrow>
           rbind (foldM (backup_tx sha undo) (s, int (length undo)) (rev txs)) (\<lambda>(s, n).
             let s = restore_ref_locs ref_undo s in
             py_assert (n = 0) (Inr (s\<lparr>tx_count := tx_count s - int (length txs)\<rparr>)))
       | _ \<Rightarrow> Inl ChainError))"

text \<open>\<open>tx_counts.pop()\<close> raises \<open>IndexError\<close> on an empty array.\<close>

definition backup_block :: "(bytes \<Rightarrow> bytes) \<Rightarrow> (bytes \<Rightarrow> bytes) \<Rightarrow> bytes \<Rightarrow> 'o bp \<Rightarrow> 'o bp res" where
  "backup_block sha H raw_block s =
     rbind (db_assert_flushed (bp_db s) (flush_data_of s)) (\<lambda>_.
     py_assert (height s > 0)
     (rbind (read_block sha raw_block) (\<lambda>blk.
      if H (header blk) \<noteq> tip s then Inl ChainError
      else
        rbind (backup_txs sha (transactions blk) (s\<lparr>tip := header_prevhash (header blk)\<rparr>)) (\<lambda>s.
        rbind (counts (bp_db s)) (\<lambda>tcs.
          if tcs = [] then Inl IndexError
          else Inr (s\<lparr>height := height s - 1, bp_db := (bp_db s)\<lparr>tx_counts := Some (butlast tcs)\<rparr>\<rparr>))))))"

definition bp_flush_backup :: "('o, 'e) overlays \<Rightarrow> int \<Rightarrow> 'o bp \<Rightarrow> 'o bp res" where
  "bp_flush_backup ov now s =
     rbind (flush_backup now (\<lambda>d. index_backup ov d (height s + 1) (overlay_state s)) (flush_data_of s)
         (sorted_list_of_set (touched s)) (bp_db s)) (\<lambda>(d, f, o').
       Inr ((after_flush s (d, f))\<lparr>overlay_state := o'\<rparr>))"

section \<open>The range of a reorganisation\<close>

fun diff_pos :: "'a list \<Rightarrow> 'a list \<Rightarrow> nat" where
  "diff_pos (x # xs) (y # ys) = (if x \<noteq> y then 0 else Suc (diff_pos xs ys))"
| "diff_pos xs [] = length xs"
| "diff_pos [] ys = 0"

text \<open>The search loop; \<open>ours\<close> and \<open>theirs\<close> give the displayed hashes of a range of heights.\<close>

function reorg_search ::
    "(int \<Rightarrow> int \<Rightarrow> string list res) \<Rightarrow> (int \<Rightarrow> int \<Rightarrow> string list res) \<Rightarrow> int \<Rightarrow> int \<Rightarrow> int res" where
  "reorg_search ours theirs start count =
     (if 0 < start \<and> 0 < count then
        rbind (ours start count) (\<lambda>hex_hashes.
        rbind (theirs start count) (\<lambda>d_hex_hashes.
          let n = diff_pos hex_hashes d_hex_hashes in
          if n > 0 then Inr (start + int n)
          else let count = min (count * 2) start in reorg_search ours theirs (start - count) count))
      else Inr start)"
  by pat_completeness auto
termination by (relation "measure (\<lambda>(ours, theirs, start, count). nat start)") auto

declare reorg_search.simps [simp del]

definition calc_reorg_range ::
    "(int \<Rightarrow> int \<Rightarrow> string list res) \<Rightarrow> (int \<Rightarrow> int \<Rightarrow> string list res) \<Rightarrow> int \<Rightarrow> int \<Rightarrow> (int \<times> int) res" where
  "calc_reorg_range ours theirs ht count =
     (if count < 0
      then rbind (reorg_search ours theirs (ht - 1) 1) (\<lambda>start. Inr (start, ht - start + 1))
      else Inr (ht - count + 1, count))"

definition our_hashes :: "(bytes \<Rightarrow> bytes) \<Rightarrow> db \<Rightarrow> int \<Rightarrow> int \<Rightarrow> string list res" where
  "our_hashes H d start count = rbind (fs_block_hashes H d start count) (\<lambda>hs. Inr (map hash_to_hex_str hs))"

definition reorg_hashes ::
    "(bytes \<Rightarrow> bytes) \<Rightarrow> (int \<Rightarrow> int \<Rightarrow> string list res) \<Rightarrow> int \<Rightarrow> 'o bp \<Rightarrow> (int \<times> int \<times> bytes list) res" where
  "reorg_hashes H theirs count s =
     rbind (calc_reorg_range (our_hashes H (bp_db s)) theirs (height s) count) (\<lambda>(start, count).
     rbind (fs_block_hashes H (bp_db s) start count) (\<lambda>hashes. Inr (start, start + count - 1, hashes)))"

text \<open>\<open>raw_blocks\<close> is the daemon's answer for a displayed hash.\<close>

definition get_raw_block :: "(string \<Rightarrow> bytes res) \<Rightarrow> string \<Rightarrow> int \<Rightarrow> 'o bp \<Rightarrow> bytes res" where
  "get_raw_block daemon_block hex_hash ht s =
     (case read_raw_block (bp_db s) ht of Inr blk \<Rightarrow> Inr blk | Inl _ \<Rightarrow> daemon_block hex_hash)"

fun back_up_blocks ::
    "(bytes \<Rightarrow> bytes) \<Rightarrow> (bytes \<Rightarrow> bytes) \<Rightarrow> ('o, 'e) overlays \<Rightarrow> int \<Rightarrow> (string \<Rightarrow> bytes res) \<Rightarrow> string list \<Rightarrow> int
      \<Rightarrow> 'o bp \<Rightarrow> 'o bp res" where
  "back_up_blocks sha H ov now daemon_block [] ht s = Inr s"
| "back_up_blocks sha H ov now daemon_block (hex_hash # rest) ht s =
     rbind (get_raw_block daemon_block hex_hash ht s) (\<lambda>raw_block.
     rbind (backup_block sha H raw_block s) (\<lambda>s.
     rbind (bp_flush_backup ov now s) (\<lambda>s.
       back_up_blocks sha H ov now daemon_block rest (ht - 1)
         (s\<lparr>bp_db := invalidate_all_balances (bp_db s)\<rparr>))))"

definition reorg_chain ::
    "(bytes \<Rightarrow> bytes) \<Rightarrow> (bytes \<Rightarrow> bytes) \<Rightarrow> ('o, 'e) overlays \<Rightarrow> int \<Rightarrow> (int \<Rightarrow> int \<Rightarrow> string list res)
      \<Rightarrow> (string \<Rightarrow> bytes res) \<Rightarrow> int \<Rightarrow> 'o bp \<Rightarrow> 'o bp res" where
  "reorg_chain sha H ov now theirs daemon_block count s =
     rbind (bp_flush ov now True s) (\<lambda>s.
     rbind (reorg_hashes H theirs count s) (\<lambda>(_, last_height, hashes).
       back_up_blocks sha H ov now daemon_block (rev (map hash_to_hex_str hashes)) last_height s))"

text \<open>\<open>process_event\<close>: a pending reorganisation, or the prefetched blocks.\<close>

definition process_event ::
    "(bytes \<Rightarrow> bytes) \<Rightarrow> (bytes \<Rightarrow> bytes) \<Rightarrow> ('o, 'e) overlays \<Rightarrow> int \<Rightarrow> int \<Rightarrow> int \<Rightarrow> (int \<Rightarrow> int \<Rightarrow> string list res)
      \<Rightarrow> (string \<Rightarrow> bytes res) \<Rightarrow> bytes list \<Rightarrow> 'o bp \<Rightarrow> 'o bp res" where
  "process_event sha H ov cached_height cache_MB now theirs daemon_block blocks s =
     (case reorg_count s of
        Some count \<Rightarrow>
          rbind (reorg_chain sha H ov now theirs daemon_block count s) (\<lambda>s. Inr (s\<lparr>reorg_count := None\<rparr>))
      | None \<Rightarrow> advance_blocks sha H ov cached_height cache_MB now blocks s)"

end
