(* ===== verification/UtxoSet.thy ===== *)
theory UtxoSet
  imports Db
begin

text \<open>
  What the two UTXO tables of \<open>server/db.py\<close> stand for: a map from outpoints (transaction hash and
  packed output number) to 56-byte values. The rows hold four bytes of the hash and a transaction
  number; the hash file, listed here as \<open>T\<close>, tells outpoints with the same four bytes apart.
\<close>

type_synonym utxo_map = "bytes \<rightharpoonup> bytes"

section \<open>Entries and rows\<close>

definition entry_num :: "bytes \<Rightarrow> bytes" where
  "entry_num val = slice 43 48 val"

definition entry_ok :: "bytes list \<Rightarrow> bytes \<Rightarrow> bytes \<Rightarrow> bool" where
  "entry_ok T op val \<longleftrightarrow> length op = 36 \<and> length val = 56
     \<and> le_dec (entry_num val) < length T \<and> T ! le_dec (entry_num val) = take 32 op"

lemma entry_okD:
  assumes "entry_ok T op val"
  shows "length op = 36" "length val = 56" "le_dec (entry_num val) < length T"
    "T ! le_dec (entry_num val) = take 32 op" "length (entry_num val) = 5"
  using assms by (simp_all add: entry_ok_def entry_num_def)

lemma entry_ok_more: "entry_ok T op val \<Longrightarrow> entry_ok (T @ T') op val"
  by (auto simp: entry_ok_def nth_append)

lemma utxo_suffix_entry:
  assumes "length op = 36" and "length val = 56"
  shows "utxo_suffix op val = drop 32 op @ entry_num val"
  using assms by (simp add: utxo_suffix_def takelast_def droplast_def entry_num_def slice_def)

lemma entry_split:
  assumes "length val = 56"
  shows "take 11 val @ slice 11 43 val @ entry_num val @ takelast 8 val = val"
proof -
  have "slice 11 43 val @ drop 43 val = drop 11 val"
    using append_take_drop_id [of 32 "drop 11 val"] by (simp add: slice_def)
  moreover have "entry_num val @ drop 48 val = drop 43 val"
    using append_take_drop_id [of 5 "drop 43 val"] by (simp add: entry_num_def slice_def)
  ultimately show ?thesis using assms by (simp add: takelast_def)
qed

lemma h_row_entry: "entry_ok T op val \<Longrightarrow>
    h_row op val = (104 # take 4 op @ drop 32 op @ entry_num val, take 43 val)"
proof -
  assume "entry_ok T op val"
  then have "length op = 36" "length val = 56" by (rule entry_okD)+
  moreover have "take 11 val @ slice 11 43 val = take 43 val"
    using take_add [of 11 32 val] by (simp add: slice_def)
  ultimately show ?thesis by (simp add: h_row_def utxo_suffix_entry)
qed

lemma u_row_entry: "entry_ok T op val \<Longrightarrow>
    u_row op val = (117 # take 11 val @ drop 32 op @ entry_num val, takelast 8 val)"
  by (simp add: u_row_def utxo_suffix_entry entry_okD)

text \<open>A row key determines the outpoint: the transaction number leads to the full hash.\<close>

lemma entry_outpoint:
  assumes "entry_ok T op val" and "entry_ok T op' val'"
    and "drop 32 op = drop 32 op'" and "entry_num val = entry_num val'"
  shows "op = op'"
proof -
  have "take 32 op = take 32 op'" using entry_okD(4) [OF assms(1)] entry_okD(4) [OF assms(2)] assms(4) by simp
  then show ?thesis using assms(3) by (metis append_take_drop_id)
qed

lemma h_row_inj:
  assumes "entry_ok T op val" and "entry_ok T op' val'" and "fst (h_row op val) = fst (h_row op' val')"
  shows "op = op'"
proof (rule entry_outpoint [OF assms(1,2)])
  have l: "length op = 36" "length op' = 36" using entry_okD(1) [OF assms(1)] entry_okD(1) [OF assms(2)] .
  have "take 4 op @ drop 32 op @ entry_num val = take 4 op' @ drop 32 op' @ entry_num val'"
    using assms(3) h_row_entry [OF assms(1)] h_row_entry [OF assms(2)] by simp
  then show "drop 32 op = drop 32 op'" "entry_num val = entry_num val'" using l by simp_all
qed

lemma u_row_inj:
  assumes "entry_ok T op val" and "entry_ok T op' val'" and "fst (u_row op val) = fst (u_row op' val')"
  shows "op = op'"
proof (rule entry_outpoint [OF assms(1,2)])
  have l: "length op = 36" "length op' = 36" using entry_okD(1) [OF assms(1)] entry_okD(1) [OF assms(2)] .
  have v: "length val = 56" "length val' = 56" using entry_okD(2) [OF assms(1)] entry_okD(2) [OF assms(2)] .
  have "take 11 val @ drop 32 op @ entry_num val = take 11 val' @ drop 32 op' @ entry_num val'"
    using assms(3) u_row_entry [OF assms(1)] u_row_entry [OF assms(2)] by simp
  then show "drop 32 op = drop 32 op'" "entry_num val = entry_num val'" using l v by simp_all
qed

section \<open>The tables\<close>

definition utxo_key :: "bytes \<Rightarrow> bool" where
  "utxo_key k \<longleftrightarrow> (\<exists>r. k = 104 # r) \<or> (\<exists>r. k = 117 # r)"

lemma utxo_key_simps [simp]:
  "utxo_key (b # r) \<longleftrightarrow> b = 104 \<or> b = 117" "\<not> utxo_key []"
  by (simp_all add: utxo_key_def)

text \<open>The two rows of each entry of a map.\<close>

definition rows_of :: "utxo_map \<Rightarrow> (bytes \<times> bytes) set" where
  "rows_of U = {r. \<exists>op val. U op = Some val \<and> (r = h_row op val \<or> r = u_row op val)}"

definition disk_rep :: "bytes list \<Rightarrow> kv \<Rightarrow> utxo_map \<Rightarrow> bool" where
  "disk_rep T kv D \<longleftrightarrow> kv_ok kv \<and> (\<forall>op val. D op = Some val \<longrightarrow> entry_ok T op val)
     \<and> (\<forall>k v. utxo_key k \<longrightarrow> kv_get kv k = Some v \<longleftrightarrow> (k, v) \<in> rows_of D)"

lemma disk_repD:
  assumes "disk_rep T kv D"
  shows "kv_ok kv" "D op = Some val \<Longrightarrow> entry_ok T op val"
    "utxo_key k \<Longrightarrow> kv_get kv k = Some v \<longleftrightarrow> (k, v) \<in> rows_of D"
  using assms by (simp_all add: disk_rep_def)

lemma utxo_key_rows [simp]:
  "utxo_key (fst (h_row op val))" "utxo_key (fst (u_row op val))"
  by (simp_all add: h_row_def u_row_def)

lemma kv_get_rows:
  assumes "disk_rep T kv D" and "D op = Some val"
  shows "kv_get kv (fst (h_row op val)) = Some (snd (h_row op val))"
    "kv_get kv (fst (u_row op val)) = Some (snd (u_row op val))"
proof -
  have "h_row op val \<in> rows_of D" "u_row op val \<in> rows_of D" using assms(2) by (auto simp: rows_of_def)
  then show "kv_get kv (fst (h_row op val)) = Some (snd (h_row op val))"
    "kv_get kv (fst (u_row op val)) = Some (snd (u_row op val))"
    using disk_repD(3) [OF assms(1)] by simp_all
qed

lemma h_table_row:
  assumes "disk_rep T kv D"
  shows "kv_get kv (104 # k) = Some v \<longleftrightarrow> (\<exists>op val. D op = Some val \<and> (104 # k, v) = h_row op val)"
  using disk_repD(3) [OF assms, of "104 # k" v] by (auto simp: rows_of_def u_row_def)

text \<open>The rows an outpoint can be found under.\<close>

lemma h_candidates:
  assumes "disk_rep T kv D" and "length tx_hash = 32" and "length idx = 4"
  shows "(k, v) \<in> set (kv_iter kv (104 # take 4 tx_hash @ idx) False) \<longleftrightarrow>
    (\<exists>op val. D op = Some val \<and> (k, v) = h_row op val \<and> take 4 op = take 4 tx_hash \<and> drop 32 op = idx)"
    (is "_ \<longleftrightarrow> ?R")
proof -
  have ok: "kv_ok kv" using assms(1) by (rule disk_repD)
  have sw: "starts_with (104 # take 4 tx_hash @ idx) (fst (h_row op val)) \<longleftrightarrow>
      take 4 op = take 4 tx_hash \<and> drop 32 op = idx" if "D op = Some val" for op val
  proof -
    have e: "entry_ok T op val" using disk_repD(2) [OF assms(1) that] .
    have "starts_with (take 4 tx_hash @ idx) (take 4 op @ drop 32 op @ entry_num val) \<longleftrightarrow>
        take 4 op = take 4 tx_hash \<and> drop 32 op = idx"
      using entry_okD(1) [OF e] assms(2,3) by (auto simp: starts_with_def)
    then show ?thesis using h_row_entry [OF e] by (simp add: starts_with_Cons)
  qed
  have "(k, v) \<in> set (kv_iter kv (104 # take 4 tx_hash @ idx) False) \<longleftrightarrow>
      starts_with (104 # take 4 tx_hash @ idx) k \<and> kv_get kv k = Some v"
    by (rule kv_iter_mem [OF ok])
  also have "\<dots> \<longleftrightarrow> ?R"
  proof
    assume l: "starts_with (104 # take 4 tx_hash @ idx) k \<and> kv_get kv k = Some v"
    then obtain r where k: "k = 104 # r" by (auto simp: starts_with_Cons)
    with l obtain op val where r: "D op = Some val" "(k, v) = h_row op val" using h_table_row [OF assms(1)] by auto
    then have "fst (h_row op val) = k" by (metis fst_conv)
    with l sw [OF r(1)] have "take 4 op = take 4 tx_hash \<and> drop 32 op = idx" by simp
    with r show ?R by blast
  next
    assume ?R
    then obtain op val where r: "D op = Some val" "(k, v) = h_row op val"
        "take 4 op = take 4 tx_hash" "drop 32 op = idx" by blast
    then have "fst (h_row op val) = k" "snd (h_row op val) = v" by (metis fst_conv, metis snd_conv)
    with r sw [OF r(1)] kv_get_rows(1) [OF assms(1) r(1)]
    show "starts_with (104 # take 4 tx_hash @ idx) k \<and> kv_get kv k = Some v" by simp
  qed
  finally show ?thesis .
qed

section \<open>Looking up a transaction number\<close>

text \<open>Every transaction of \<open>T\<close> is in the hash file, at or below the flushed height, and the LRU
  cache tells no other hash for it, nor one for a number beyond the list.\<close>

definition hash_ok :: "db \<Rightarrow> bytes list \<Rightarrow> bool" where
  "hash_ok d T \<longleftrightarrow> (\<exists>tcs. tx_counts d = Some tcs \<and> (\<forall>n < length T. int (bisect_right tcs n) \<le> db_height d))
     \<and> (\<forall>n < length T. lf_read (hashes_file d) (n * 32) (Some 32) = T ! n
          \<and> (\<forall>r. tx_hash_cache d n = Some r \<longrightarrow> fst r = Some (T ! n)))
     \<and> (\<forall>n. length T \<le> n \<longrightarrow> tx_hash_cache d n = None)"

lemma hash_ok_cache:
  assumes "hash_ok d T" and "n < length T" and "fst r = Some (T ! n)"
  shows "hash_ok (cache_tx_hash d n r) T"
  using assms by (auto simp: hash_ok_def cache_tx_hash_def Let_def restrict_map_def)

lemma fs_tx_hash_ok:
  assumes "hash_ok d T" and "n < length T"
  shows "\<exists>c ht. fs_tx_hash d n = Inr (d\<lparr>tx_hash_cache := c\<rparr>, Some (T ! n), ht) \<and> hash_ok (d\<lparr>tx_hash_cache := c\<rparr>) T"
proof (cases "tx_hash_cache d n")
  case None
  from assms obtain tcs where t: "tx_counts d = Some tcs" "int (bisect_right tcs n) \<le> db_height d"
    by (auto simp: hash_ok_def)
  have f: "lf_read (hashes_file d) (n * 32) (Some 32) = T ! n" using assms by (simp add: hash_ok_def)
  let ?r = "(Some (T ! n), bisect_right tcs n)"
  have "fs_tx_hash d n = Inr (cache_tx_hash d n ?r, ?r)"
    using None t f by (simp add: fs_tx_hash_def counts_def Let_def)
  moreover have "hash_ok (cache_tx_hash d n ?r) T" using hash_ok_cache [OF assms, of ?r] by simp
  ultimately show ?thesis by (auto simp: cache_tx_hash_def Let_def)
next
  case (Some r)
  then have "fst r = Some (T ! n)" using assms unfolding hash_ok_def by blast
  then have "fs_tx_hash d n = Inr (d\<lparr>tx_hash_cache := tx_hash_cache d\<rparr>, Some (T ! n), snd r)"
    using Some by (cases r) (simp add: fs_tx_hash_def)
  moreover have "hash_ok (d\<lparr>tx_hash_cache := tx_hash_cache d\<rparr>) T" using assms(1) by simp
  ultimately show ?thesis by blast
qed

lemma unpack_num: "length b = 5 \<Longrightarrow> unpack_le_uint64 (b @ zero_bytes 3) = Inr (le_dec b)"
  by (simp add: unpack_le_uint64_def le_dec_append)

section \<open>Committing the cache\<close>

text \<open>The map after a flush: the marked outpoints removed, then the cache added.\<close>

definition merged :: "utxo_map \<Rightarrow> bytes set \<Rightarrow> utxo_map \<Rightarrow> utxo_map" where
  "merged D R C = D |` (- R) ++ C"

definition row_keys :: "utxo_map \<Rightarrow> bytes set \<Rightarrow> bytes set" where
  "row_keys D R = {k. \<exists>op \<in> R. \<exists>val. D op = Some val \<and> (k = fst (h_row op val) \<or> k = fst (u_row op val))}"

definition utxo_rows :: "bytes \<times> bytes \<Rightarrow> (bytes \<times> bytes) list" where
  "utxo_rows e = [h_row (fst e) (snd e), u_row (fst e) (snd e)]"

lemma utxo_puts_rows: "utxo_puts adds = map (\<lambda>(k, v). Put k v) (concat (map utxo_rows adds))"
  by (induction adds) (auto simp: utxo_puts_def utxo_rows_def split_beta)

lemma rows_of_map_of:
  "dict_ok adds \<Longrightarrow> set (concat (map utxo_rows adds)) = rows_of (map_of adds)"
  by (auto simp: rows_of_def utxo_rows_def map_of_eq_iff_mem) (metis fst_conv snd_conv)+

lemma hd_rows: "hd (fst (h_row op val)) = 104" "hd (fst (u_row op val)) = 117"
  by (simp_all add: h_row_def u_row_def)

lemma row_key_inj:
  assumes "\<And>op val. U op = Some val \<Longrightarrow> entry_ok T op val" and "(k, v) \<in> rows_of U" and "(k, v') \<in> rows_of U"
  shows "v = v'"
proof -
  have 1: "op = op'" if "fst (h_row op val) = fst (h_row op' val')" "U op = Some val" "U op' = Some val'" for op val op' val'
    using h_row_inj [OF assms(1) [OF that(2)] assms(1) [OF that(3)] that(1)] .
  have 2: "op = op'" if "fst (u_row op val) = fst (u_row op' val')" "U op = Some val" "U op' = Some val'" for op val op' val'
    using u_row_inj [OF assms(1) [OF that(2)] assms(1) [OF that(3)] that(1)] .
  have 3: "fst (h_row op val) \<noteq> fst (u_row op' val')" for op val op' val'
    using hd_rows(1) [of op val] hd_rows(2) [of op' val'] by auto
  from assms(2,3) show ?thesis unfolding rows_of_def mem_Collect_eq
    by (metis 1 2 3 fst_conv option.sel snd_conv)
qed

lemma map_of_rows:
  assumes "dict_ok adds" and "\<And>op val. map_of adds op = Some val \<Longrightarrow> entry_ok T op val"
  shows "map_of (rev (concat (map utxo_rows adds))) k = Some v \<longleftrightarrow> (k, v) \<in> rows_of (map_of adds)"
proof
  assume "map_of (rev (concat (map utxo_rows adds))) k = Some v"
  from map_of_SomeD [OF this] have "(k, v) \<in> set (concat (map utxo_rows adds))" by (simp only: set_rev)
  then show "(k, v) \<in> rows_of (map_of adds)" unfolding rows_of_map_of [OF assms(1)] .
next
  assume r: "(k, v) \<in> rows_of (map_of adds)"
  then have "(k, v) \<in> set (rev (concat (map utxo_rows adds)))"
    unfolding rows_of_map_of [OF assms(1), symmetric] set_rev .
  then have "map_of (rev (concat (map utxo_rows adds))) k \<noteq> None"
    unfolding map_of_eq_None_iff by (force simp: image_iff)
  then obtain v' where v': "map_of (rev (concat (map utxo_rows adds))) k = Some v'" by blast
  from map_of_SomeD [OF this] have "(k, v') \<in> set (concat (map utxo_rows adds))" by (simp only: set_rev)
  then have "(k, v') \<in> rows_of (map_of adds)" unfolding rows_of_map_of [OF assms(1)] .
  with r v' row_key_inj [OF assms(2)] show "map_of (rev (concat (map utxo_rows adds))) k = Some v" by blast
qed

text \<open>The batch of a flush acts on the tables as \<open>merged\<close> acts on the map.\<close>

lemma disk_rep_flush:
  assumes "disk_rep T kv D" and "dict_ok adds" and "\<And>op val. map_of adds op = Some val \<Longrightarrow> entry_ok T' op val"
    and "\<And>op val. D op = Some val \<Longrightarrow> entry_ok T' op val"
    and "R \<subseteq> dom D" and "dom (map_of adds) \<inter> (dom D - R) = {}"
    and "{k \<in> set dels. utxo_key k} = row_keys D R"
    and "kv_ok kv'"
    and "\<And>k. utxo_key k \<Longrightarrow> kv_get kv' k = (kv_get kv |` (- set dels) ++ map_of (rev (concat (map utxo_rows adds)))) k"
    and "\<And>op val. merged D R (map_of adds) op = Some val \<Longrightarrow> entry_ok T'' op val"
  shows "disk_rep T'' kv' (merged D R (map_of adds))"
proof -
  let ?U = "merged D R (map_of adds)" and ?C = "map_of adds"
  note puts = map_of_rows [OF assms(2,3)]
  have split: "(k, v) \<in> rows_of ?U \<longleftrightarrow> (k, v) \<in> rows_of ?C \<or> (k, v) \<in> rows_of (D |` (- R))" for k v
  proof -
    have "?U op = Some val \<longleftrightarrow> ?C op = Some val \<or> (D |` (- R)) op = Some val" for op val
      using assms(6) by (auto simp: merged_def map_add_Some_iff restrict_map_def split: if_splits)
    then show ?thesis unfolding rows_of_def by blast
  qed
  have old: "(k, v) \<in> rows_of (D |` (- R)) \<longleftrightarrow> (k, v) \<in> rows_of D \<and> k \<notin> row_keys D R" for k v
  proof
    assume "(k, v) \<in> rows_of (D |` (- R))"
    then obtain op val where e: "D op = Some val" "op \<notin> R" "(k, v) = h_row op val \<or> (k, v) = u_row op val"
      by (auto simp: rows_of_def restrict_map_def split: if_splits)
    have "k \<notin> row_keys D R"
    proof
      assume "k \<in> row_keys D R"
      then obtain op' val' where f: "op' \<in> R" "D op' = Some val'" "k = fst (h_row op' val') \<or> k = fst (u_row op' val')"
        by (auto simp: row_keys_def)
      have ee: "entry_ok T op val" "entry_ok T op' val'" using disk_repD(2) [OF assms(1)] e(1) f(2) by blast+
      have "fst (h_row a b) \<noteq> fst (u_row a' b')" for a b a' b'
        using hd_rows(1) [of a b] hd_rows(2) [of a' b'] by auto
      then have "op = op'"
        using e(3) f(3) h_row_inj [OF ee] u_row_inj [OF ee] by (metis fst_conv)
      with e(2) f(1) show False by simp
    qed
    with e show "(k, v) \<in> rows_of D \<and> k \<notin> row_keys D R" by (auto simp: rows_of_def)
  next
    assume a: "(k, v) \<in> rows_of D \<and> k \<notin> row_keys D R"
    then obtain op val where e: "D op = Some val" "(k, v) = h_row op val \<or> (k, v) = u_row op val"
      by (auto simp: rows_of_def)
    then have "k = fst (h_row op val) \<or> k = fst (u_row op val)" by (metis fst_conv)
    with a e(1) have "op \<notin> R" unfolding row_keys_def by blast
    with e show "(k, v) \<in> rows_of (D |` (- R))" by (auto simp: rows_of_def restrict_map_def)
  qed
  have "kv_get kv' k = Some v \<longleftrightarrow> (k, v) \<in> rows_of ?U" if u: "utxo_key k" for k v
  proof -
    define p where "p = map_of (rev (concat (map utxo_rows adds))) k"
    have puts': "p = Some v \<longleftrightarrow> (k, v) \<in> rows_of ?C" for v using puts by (simp only: p_def)
    have dels: "k \<in> set dels \<longleftrightarrow> k \<in> row_keys D R" using assms(7) u by auto
    have kv: "kv_get kv k = Some v \<longleftrightarrow> (k, v) \<in> rows_of D" using disk_repD(3) [OF assms(1) u] .
    have r: "(kv_get kv |` (- set dels)) k = Some v \<longleftrightarrow> (k, v) \<in> rows_of (D |` (- R))"
      unfolding old by (simp add: restrict_map_def dels kv)
    have "kv_get kv' k = Some v \<longleftrightarrow> p = Some v \<or> p = None \<and> (k, v) \<in> rows_of (D |` (- R))"
      unfolding assms(9) [OF u] map_add_Some_iff r p_def by (rule refl)
    also have "\<dots> \<longleftrightarrow> (k, v) \<in> rows_of ?C \<or> (k, v) \<in> rows_of (D |` (- R))"
    proof (cases p)
      case None
      then have "(k, v) \<notin> rows_of ?C" using puts' [of v] by simp
      with None show ?thesis by simp
    next
      case (Some w)
      then have w: "(k, w) \<in> rows_of ?C" using puts' [of w] by simp
      have "v = w" if "(k, v) \<in> rows_of (D |` (- R))"
      proof -
        have "(k, v) \<in> rows_of ?U" "(k, w) \<in> rows_of ?U" using that w split by blast+
        with assms(10) show ?thesis by (rule row_key_inj [of ?U T'' k v w])
      qed
      with Some w puts' [of v] show ?thesis by auto
    qed
    finally show ?thesis using split by simp
  qed
  with assms(8,10) show ?thesis by (simp add: disk_rep_def)
qed

end
