(* ===== verification/Spending.thy ===== *)
theory Spending
  imports BlockProcessor UtxoSet
begin

text \<open>
  The UTXO set the block processor holds between flushes: what is on disk, less the rows it has
  marked for deletion, with its cache on top. Spending an outpoint removes it from that set and
  returns its value, whatever rows share the four bytes of its hash.
\<close>

section \<open>The set in memory\<close>

text \<open>\<open>T\<close> lists the hashes of all transactions, \<open>F\<close> of them flushed; \<open>D\<close> is the map on disk and \<open>R\<close>
  what has been spent from it.\<close>

definition utxo_rep :: "bytes list \<Rightarrow> nat \<Rightarrow> 'o bp \<Rightarrow> utxo_map \<Rightarrow> bytes set \<Rightarrow> bool" where
  "utxo_rep T F s D R \<longleftrightarrow> disk_rep (take F T) (utxo_db (bp_db s)) D \<and> hash_ok (bp_db s) (take F T)
     \<and> dict_ok (utxo_cache s) \<and> (\<forall>op val. map_of (utxo_cache s) op = Some val \<longrightarrow> entry_ok T op val)
     \<and> R \<subseteq> dom D \<and> dom (map_of (utxo_cache s)) \<inter> (dom D - R) = {}
     \<and> {k \<in> set (db_deletes s). utxo_key k} = row_keys D R"

definition utxo_inv :: "bytes list \<Rightarrow> nat \<Rightarrow> 'o bp \<Rightarrow> utxo_map \<Rightarrow> bool" where
  "utxo_inv T F s U \<longleftrightarrow> (\<exists>D R. utxo_rep T F s D R \<and> U = merged D R (map_of (utxo_cache s)))"

lemma utxo_repD:
  assumes "utxo_rep T F s D R"
  shows "disk_rep (take F T) (utxo_db (bp_db s)) D" "hash_ok (bp_db s) (take F T)" "dict_ok (utxo_cache s)"
    "map_of (utxo_cache s) op = Some val \<Longrightarrow> entry_ok T op val" "R \<subseteq> dom D"
    "dom (map_of (utxo_cache s)) \<inter> (dom D - R) = {}" "{k \<in> set (db_deletes s). utxo_key k} = row_keys D R"
  using assms by (simp_all add: utxo_rep_def)

lemma entry_ok_take: "entry_ok (take F T) op val \<Longrightarrow> entry_ok T op val"
  using entry_ok_more [of "take F T" op val "drop F T"] by simp

lemma merged_cases:
  assumes "merged D R C op = Some val"
  obtains (cached) "C op = Some val" | (stored) "C op = None" "op \<notin> R" "D op = Some val"
  using assms by (auto simp: merged_def map_add_Some_iff restrict_map_def split: if_splits)

lemma utxo_inv_entry:
  assumes "utxo_inv T F s U" and "U op = Some val"
  shows "entry_ok T op val"
proof -
  from assms(1) obtain D R where r: "utxo_rep T F s D R" "U = merged D R (map_of (utxo_cache s))"
    by (auto simp: utxo_inv_def)
  from assms(2) show ?thesis unfolding r(2)
  proof (cases rule: merged_cases)
    case cached
    then show ?thesis by (rule utxo_repD(4) [OF r(1)])
  next
    case stored
    from disk_repD(2) [OF utxo_repD(1) [OF r(1)] stored(3)] show ?thesis by (rule entry_ok_take)
  qed
qed

lemma utxo_rep_cong:
  assumes "utxo_db (bp_db s') = utxo_db (bp_db s)" and "hash_ok (bp_db s') (take F T)"
    and "utxo_cache s' = utxo_cache s" and "db_deletes s' = db_deletes s" and "utxo_rep T F s D R"
  shows "utxo_rep T F s' D R"
  using assms by (simp add: utxo_rep_def)

section \<open>Spending from the tables\<close>

lemma u_key_of_h_row:
  assumes "entry_ok T op val"
  shows "117 # take HASHX_LEN (snd (h_row op val)) @ takelast 9 (fst (h_row op val)) = fst (u_row op val)"
proof -
  note l = entry_okD [OF assms]
  have "takelast 9 ((104 # take 4 op) @ drop 32 op @ entry_num val) = drop 32 op @ entry_num val"
    using l by (intro takelast_append) simp
  then show ?thesis
    using l by (simp add: h_row_entry [OF assms] u_row_entry [OF assms] HASHX_LEN_def)
qed

lemma num_of_h_row:
  assumes "entry_ok T op val"
  shows "takelast 5 (fst (h_row op val)) = entry_num val"
proof -
  have "takelast 5 ((104 # take 4 op @ drop 32 op) @ entry_num val) = entry_num val"
    using entry_okD(5) [OF assms] by (intro takelast_append) simp
  then show ?thesis by (simp add: h_row_entry [OF assms])
qed

lemma value_of_rows:
  assumes "entry_ok T op val"
  shows "take HASHX_LEN (snd (h_row op val)) @ drop HASHX_LEN (snd (h_row op val)) @ entry_num val
    @ snd (u_row op val) = val"
proof -
  have l: "length val = 56" using assms by (rule entry_okD)
  have "take 43 val @ entry_num val @ takelast 8 val = val"
  proof -
    have "take 11 val @ slice 11 43 val = take 43 val" using take_add [of 11 32 val] by (simp add: slice_def)
    with entry_split [OF l] show ?thesis by (metis append.assoc)
  qed
  moreover have "take HASHX_LEN x @ drop HASHX_LEN x @ r = x @ r" for x r :: bytes
    by (metis append.assoc append_take_drop_id)
  ultimately show ?thesis by (simp only: h_row_entry [OF assms] u_row_entry [OF assms] snd_conv)
qed

lemma spend_from_db_finds:
  assumes "disk_rep T (utxo_db (bp_db s)) D" and "hash_ok (bp_db s) T"
    and "D op = Some val" and "op = tx_hash @ idx" and "length tx_hash = 32"
    and "\<And>k v. (k, v) \<in> set rows \<Longrightarrow> \<exists>op' val'. D op' = Some val' \<and> (k, v) = h_row op' val' \<and> drop 32 op' = idx"
    and "h_row op val \<in> set rows" and "\<not> many \<Longrightarrow> rows = [h_row op val]"
  shows "\<exists>c. spend_from_db many tx_hash rows s
       = Inr (s\<lparr>bp_db := (bp_db s)\<lparr>tx_hash_cache := c\<rparr>,
                db_deletes := db_deletes s @ [fst (h_row op val), fst (u_row op val)]\<rparr>, val)
     \<and> hash_ok ((bp_db s)\<lparr>tx_hash_cache := c\<rparr>) T"
  using assms
proof (induction rows arbitrary: s)
  case Nil
  then show ?case by simp
next
  case (Cons row rows)
  obtain hk hv where row: "row = (hk, hv)" by (cases row)
  from Cons.prems(6) [of hk hv] row obtain op' val'
    where o: "D op' = Some val'" "(hk, hv) = h_row op' val'" "drop 32 op' = idx" by auto
  have hk: "hk = fst (h_row op' val')" and hv: "hv = snd (h_row op' val')" using o(2) by (metis fst_conv, metis snd_conv)
  have e: "entry_ok T op' val'" using disk_repD(2) [OF Cons.prems(1) o(1)] .
  have u: "kv_get (utxo_db (bp_db s)) (117 # take HASHX_LEN hv @ takelast 9 hk) = Some (snd (u_row op' val'))"
    unfolding hk hv u_key_of_h_row [OF e] by (rule kv_get_rows(2) [OF Cons.prems(1) o(1)])
  have "length (snd (u_row op' val')) = 8" using entry_okD(2) [OF e] by (simp add: u_row_entry [OF e])
  then obtain b bs where ub: "snd (u_row op' val') = b # bs" by (cases "snd (u_row op' val')") auto
  note facts = u [unfolded ub] value_of_rows [OF e, folded hv, unfolded ub]
    u_key_of_h_row [OF e, folded hk hv] num_of_h_row [OF e, folded hk]
  have mine: "spend_from_db False tx_hash (row # rows) t
      = Inr (t\<lparr>db_deletes := db_deletes t @ [hk, fst (u_row op' val')]\<rparr>, val')"
    if "utxo_db (bp_db t) = utxo_db (bp_db s)" for t :: "'a bp" and rows
    using facts that by (simp add: row Let_def)
  show ?case
  proof (cases many)
    case False
    with Cons.prems(8) row have "(hk, hv) = h_row op val" "rows = []" by auto
    then have "fst (h_row op' val') = fst (h_row op val)" using o(2) by simp
    then have "op' = op" using h_row_inj [OF e disk_repD(2) [OF Cons.prems(1,3)]] by simp
    with o(1) Cons.prems(3) have "val' = val" by simp
    have "s\<lparr>bp_db := (bp_db s)\<lparr>tx_hash_cache := tx_hash_cache (bp_db s)\<rparr>\<rparr> = s" by simp
    with mine [of s "[]"] False \<open>op' = op\<close> \<open>val' = val\<close> \<open>rows = []\<close> Cons.prems(2)
    show ?thesis unfolding hk by (intro exI [of _ "tx_hash_cache (bp_db s)"]) simp
  next
    case True
    let ?n = "le_dec (entry_num val')"
    obtain c ht where f: "fs_tx_hash (bp_db s) ?n = Inr ((bp_db s)\<lparr>tx_hash_cache := c\<rparr>, Some (T ! ?n), ht)"
        "hash_ok ((bp_db s)\<lparr>tx_hash_cache := c\<rparr>) T"
      using fs_tx_hash_ok [OF Cons.prems(2) entry_okD(3) [OF e]] by blast
    let ?s = "s\<lparr>bp_db := (bp_db s)\<lparr>tx_hash_cache := c\<rparr>\<rparr>"
    have num: "unpack_le_uint64 (takelast 5 hk @ zero_bytes 3) = Inr ?n"
      unfolding hk num_of_h_row [OF e] by (rule unpack_num) (rule entry_okD(5) [OF e])
    have hash: "T ! ?n = take 32 op'" using entry_okD(4) [OF e] .
    show ?thesis
    proof (cases "take 32 op' = tx_hash")
      case True
      have "op' = op" using True o(3) Cons.prems(4) by (metis append_take_drop_id)
      with o(1) Cons.prems(3) have v: "val' = val" by simp
      have "spend_from_db many tx_hash (row # rows) s = spend_from_db False tx_hash (row # rows) ?s"
        using \<open>many\<close> num f(1) hash True facts by (simp add: row Let_def)
      with mine [of ?s rows] f(2) \<open>op' = op\<close> v show ?thesis unfolding hk by (intro exI [of _ c]) simp
    next
      case False
      have skip: "spend_from_db many tx_hash (row # rows) s = spend_from_db many tx_hash rows ?s"
        using \<open>many\<close> num f(1) hash False by (simp add: row)
      have "row \<noteq> h_row op val"
      proof
        assume "row = h_row op val"
        then have "fst (h_row op' val') = fst (h_row op val)" using o(2) row by simp
        then have "op' = op" using h_row_inj [OF e disk_repD(2) [OF Cons.prems(1,3)]] by simp
        with False Cons.prems(4,5) show False by simp
      qed
      then have "h_row op val \<in> set rows" using Cons.prems(7) by simp
      then have "\<exists>c. spend_from_db many tx_hash rows ?s
         = Inr (?s\<lparr>bp_db := (bp_db ?s)\<lparr>tx_hash_cache := c\<rparr>,
                  db_deletes := db_deletes ?s @ [fst (h_row op val), fst (u_row op val)]\<rparr>, val)
       \<and> hash_ok ((bp_db ?s)\<lparr>tx_hash_cache := c\<rparr>) T"
        using Cons.prems f(2) \<open>many\<close> by (intro Cons.IH) auto
      with skip show ?thesis by simp
    qed
  qed
qed

section \<open>Spending\<close>

lemma row_keys_insert:
  "D op = Some val \<Longrightarrow> row_keys D (insert op R) = row_keys D R \<union> {fst (h_row op val), fst (u_row op val)}"
  by (auto simp: row_keys_def)

lemma keys_append: "utxo_key a \<Longrightarrow> utxo_key b \<Longrightarrow>
    {k \<in> set (ks @ [a, b]). utxo_key k} = {k \<in> set ks. utxo_key k} \<union> {a, b}"
  by auto

lemma pack_idx: "idx < 2 ^ 32 \<Longrightarrow> pack_le_uint32 (int idx) = Inr (le_enc 4 idx)"
  by (simp add: pack_le_uint32_def pack_uint_def)

lemma length_entry: "entry_ok T op val \<Longrightarrow> \<exists>b bs. val = b # bs"
  using entry_okD(2) [of T op val] by (cases val) auto

lemma utxo_rep_more:
  assumes "utxo_rep T F s D R" and "F \<le> length T"
  shows "utxo_rep (T @ T') F s D R"
  using assms by (auto simp: utxo_rep_def intro: entry_ok_more)

lemma spend_utxo_rep:
  assumes "utxo_inv T F s U" and "U (tx_hash @ le_enc 4 idx) = Some val"
    and "length tx_hash = 32" and "idx < 2 ^ 32"
  shows "\<exists>uc dd c. spend_utxo tx_hash idx s
       = Inr (s\<lparr>utxo_cache := uc, db_deletes := dd, bp_db := (bp_db s)\<lparr>tx_hash_cache := c\<rparr>\<rparr>, val)
     \<and> utxo_inv T F (s\<lparr>utxo_cache := uc, db_deletes := dd, bp_db := (bp_db s)\<lparr>tx_hash_cache := c\<rparr>\<rparr>)
         (U(tx_hash @ le_enc 4 idx := None))"
proof -
  let ?op = "tx_hash @ le_enc 4 idx" and ?C = "map_of (utxo_cache s)"
  from assms(1) obtain D R where rep: "utxo_rep T F s D R" and U: "U = merged D R ?C" by (auto simp: utxo_inv_def)
  note r = utxo_repD [OF rep]
  let ?uc = "dict_del ?op (utxo_cache s)"
  have gone: "merged D R (map_of ?uc) = U(?op := None)" if "?op \<in> R \<or> ?op \<notin> dom D"
    using that by (auto simp: U merged_def map_add_def restrict_map_def fun_eq_iff split: option.splits)
  have "merged D R ?C ?op = Some val" using assms(2) U by simp
  then show ?thesis
  proof (cases rule: merged_cases)
    case cached
    with r(4) obtain b bs where v: "val = b # bs" using length_entry by blast
    have "?op \<in> R \<or> ?op \<notin> dom D" using r(6) cached by auto
    from gone [OF this] have m: "merged D R (map_of ?uc) = U(?op := None)" .
    let ?s = "s\<lparr>utxo_cache := ?uc, db_deletes := db_deletes s, bp_db := (bp_db s)\<lparr>tx_hash_cache := tx_hash_cache (bp_db s)\<rparr>\<rparr>"
    have "spend_utxo tx_hash idx s = Inr (?s, val)"
      using cached v by (simp add: spend_utxo_def pack_idx [OF assms(4)] Let_def)
    moreover have "utxo_rep T F ?s D R"
      using rep by (auto simp: utxo_rep_def split: if_splits)
    then have "utxo_inv T F ?s (U(?op := None))" using m unfolding utxo_inv_def by (intro exI [of _ D] exI [of _ R]) simp
    ultimately show ?thesis by blast
  next
    case stored
    have uc: "?uc = utxo_cache s" using stored(1) by (rule dict_del_new)
    let ?rows = "kv_iter (utxo_db (bp_db s)) (104 # take 4 tx_hash @ le_enc 4 idx) False"
    have e: "entry_ok (take F T) ?op val" using disk_repD(2) [OF r(1) stored(3)] .
    have cand: "(k, v) \<in> set ?rows \<longleftrightarrow> (\<exists>op val. D op = Some val \<and> (k, v) = h_row op val
        \<and> take 4 op = take 4 tx_hash \<and> drop 32 op = le_enc 4 idx)" for k v
      by (rule h_candidates [OF r(1) assms(3)]) simp
    have "take 4 ?op = take 4 tx_hash" "drop 32 ?op = le_enc 4 idx" using assms(3) by simp_all
    with cand [of "fst (h_row ?op val)" "snd (h_row ?op val)"] stored(3)
    have mem: "h_row ?op val \<in> set ?rows" unfolding prod.collapse by blast
    have single: "?rows = [h_row ?op val]" if "\<not> 1 < length ?rows"
      using mem that by (cases ?rows) auto
    have rows: "\<exists>op' val'. D op' = Some val' \<and> (k, v) = h_row op' val' \<and> drop 32 op' = le_enc 4 idx"
      if "(k, v) \<in> set ?rows" for k v using that cand by blast
    from spend_from_db_finds [OF r(1,2) stored(3) refl assms(3) rows mem single]
    obtain c where c: "spend_from_db (1 < length ?rows) tx_hash ?rows s
         = Inr (s\<lparr>bp_db := (bp_db s)\<lparr>tx_hash_cache := c\<rparr>,
                  db_deletes := db_deletes s @ [fst (h_row ?op val), fst (u_row ?op val)]\<rparr>, val)"
      and h: "hash_ok ((bp_db s)\<lparr>tx_hash_cache := c\<rparr>) (take F T)" by blast
    let ?s = "s\<lparr>utxo_cache := utxo_cache s, db_deletes := db_deletes s @ [fst (h_row ?op val), fst (u_row ?op val)],
      bp_db := (bp_db s)\<lparr>tx_hash_cache := c\<rparr>\<rparr>"
    have "s\<lparr>utxo_cache := ?uc\<rparr> = s" unfolding uc by simp
    then have "spend_utxo tx_hash idx s = Inr (?s, val)"
      using stored(1) c by (simp add: spend_utxo_def pack_idx [OF assms(4)] Let_def)
    moreover have "utxo_inv T F ?s (U(?op := None))"
    proof -
      have "{k \<in> set (db_deletes ?s). utxo_key k} = row_keys D (insert ?op R)"
        unfolding row_keys_insert [of D, OF stored(3)] r(7) [symmetric]
        using keys_append [OF utxo_key_rows [of ?op val], of "db_deletes s"] by simp
      moreover have "dom ?C \<inter> (dom D - insert ?op R) = {}" using r(6) by auto
      moreover have "insert ?op R \<subseteq> dom D" using r(5) stored(3) by auto
      ultimately have "utxo_rep T F ?s D (insert ?op R)" using rep h by (simp add: utxo_rep_def)
      moreover have "merged D (insert ?op R) ?C = U(?op := None)"
        using stored(1) by (auto simp: U merged_def map_add_def restrict_map_def fun_eq_iff split: option.splits)
      ultimately show ?thesis unfolding utxo_inv_def by (intro exI [of _ D] exI [of _ "insert ?op R"]) simp
    qed
    ultimately show ?thesis by blast
  qed
qed

text \<open>Adding a new output.\<close>

lemma put_utxo_rep:
  assumes "utxo_inv T F s U" and "U op = None" and "entry_ok T op val"
  shows "utxo_inv T F (s\<lparr>utxo_cache := dict_set op val (utxo_cache s)\<rparr>) (U(op \<mapsto> val))"
proof -
  from assms(1) obtain D R where rep: "utxo_rep T F s D R" and U: "U = merged D R (map_of (utxo_cache s))"
    by (auto simp: utxo_inv_def)
  have "op \<notin> dom D - R" using assms(2) by (auto simp: U merged_def map_add_def restrict_map_def split: option.splits if_splits)
  then have "utxo_rep T F (s\<lparr>utxo_cache := dict_set op val (utxo_cache s)\<rparr>) D R"
    using rep assms(3) by (auto simp: utxo_rep_def)
  moreover have "merged D R (map_of (dict_set op val (utxo_cache s))) = U(op \<mapsto> val)"
    by (simp add: U merged_def)
  ultimately show ?thesis unfolding utxo_inv_def by (intro exI [of _ D] exI [of _ R]) simp
qed

text \<open>The parts of the state the set depends on.\<close>

lemma utxo_inv_cong:
  assumes "bp_db s' = bp_db s" and "utxo_cache s' = utxo_cache s"
    and "{k \<in> set (db_deletes s'). utxo_key k} = {k \<in> set (db_deletes s). utxo_key k}"
  shows "utxo_inv T F s' U \<longleftrightarrow> utxo_inv T F s U"
  using assms by (simp add: utxo_inv_def utxo_rep_def)

lemma utxo_inv_more:
  assumes "utxo_inv T F s U" and "F \<le> length T"
  shows "utxo_inv (T @ T') F s U"
  using assms utxo_rep_more unfolding utxo_inv_def by blast

end
