(* ===== verification/Ledger.thy ===== *)
theory Ledger
  imports Spending
begin

text \<open>
  The abstract ledger a block acts on: a transaction removes the outpoints it spends and adds its
  indexed outputs, and its spent values are what undoes it. Blocks of the code are compared with
  this in theories \<open>Advance\<close> and \<open>Reorg\<close>.
\<close>

section \<open>Transactions and blocks on a map\<close>

definition outpoint :: "TxInput \<Rightarrow> bytes" where
  "outpoint txin = prev_hash txin @ le_enc 4 (prev_idx txin)"

definition spent_inputs :: "Tx \<Rightarrow> TxInput list" where
  "spent_inputs tx = filter (\<lambda>i. \<not> is_generation i) (tx_inputs tx)"

text \<open>The cache entry of an output, when it is indexed.\<close>

definition out_entries :: "(bytes \<Rightarrow> bytes) \<Rightarrow> bytes \<Rightarrow> bytes \<Rightarrow> nat \<times> TxOutput \<Rightarrow> (bytes \<times> bytes) list" where
  "out_entries sha tx_hash numb out = (case out of (idx, txout) \<Rightarrow>
     if is_unspendable_legacy (pk_script txout) then []
     else case (zero_refs (pk_script txout), codeScriptHash_from_script sha (pk_script txout)) of
       (Inr zr, Inr csh) \<Rightarrow> [(tx_hash @ le_enc 4 idx,
          hashX_from_script sha zr @ csh @ numb @ le_enc 8 (nat (out_value txout)))]
     | _ \<Rightarrow> [])"

definition tx_entries :: "(bytes \<Rightarrow> bytes) \<Rightarrow> nat \<Rightarrow> Tx \<times> bytes \<Rightarrow> (bytes \<times> bytes) list" where
  "tx_entries sha n txh = concat (map (out_entries sha (snd txh) (le_enc 5 n)) (enumerate 0 (tx_outputs (fst txh))))"

fun spend_all :: "utxo_map \<Rightarrow> bytes list \<Rightarrow> (utxo_map \<times> bytes list) option" where
  "spend_all U [] = Some (U, [])"
| "spend_all U (op # ops) =
     (case U op of None \<Rightarrow> None
      | Some v \<Rightarrow> map_option (\<lambda>(U', vs). (U', v # vs)) (spend_all (U(op := None)) ops))"

definition add_all :: "utxo_map \<Rightarrow> (bytes \<times> bytes) list \<Rightarrow> utxo_map" where
  "add_all U es = foldl (\<lambda>U (op, v). U(op \<mapsto> v)) U es"

definition apply_tx :: "(bytes \<Rightarrow> bytes) \<Rightarrow> nat \<Rightarrow> Tx \<times> bytes \<Rightarrow> utxo_map \<Rightarrow> (utxo_map \<times> bytes list) option" where
  "apply_tx sha n txh U =
     map_option (\<lambda>(U', vs). (add_all U' (tx_entries sha n txh), vs)) (spend_all U (map outpoint (spent_inputs (fst txh))))"

text \<open>The values spent by a block, per transaction.\<close>

fun apply_txs :: "(bytes \<Rightarrow> bytes) \<Rightarrow> nat \<Rightarrow> (Tx \<times> bytes) list \<Rightarrow> utxo_map \<Rightarrow> (utxo_map \<times> bytes list list) option" where
  "apply_txs sha n [] U = Some (U, [])"
| "apply_txs sha n (txh # txs) U =
     (case apply_tx sha n txh U of None \<Rightarrow> None
      | Some (U', vs) \<Rightarrow> map_option (\<lambda>(U'', vss). (U'', vs # vss)) (apply_txs sha (n + 1) txs U'))"

section \<open>Facts\<close>

lemma add_all_simps [simp]:
  "add_all U [] = U" "add_all U ((op, v) # es) = add_all (U(op \<mapsto> v)) es"
  "add_all U (es @ es') = add_all (add_all U es) es'"
  by (simp_all add: add_all_def)

lemma dom_add_all: "dom (add_all U es) = dom U \<union> fst ` set es"
proof (induction es arbitrary: U)
  case (Cons e es)
  have "dom (add_all U (e # es)) = insert (fst e) (dom U) \<union> fst ` set es"
    by (cases e) (simp only: add_all_simps Cons.IH dom_fun_upd option.distinct if_False fst_conv)
  also have "\<dots> = dom U \<union> fst ` set (e # es)" unfolding list.set image_insert by blast
  finally show ?case .
qed simp

lemma add_all_other: "op \<notin> fst ` set es \<Longrightarrow> add_all U es op = U op"
proof (induction es arbitrary: U)
  case (Cons e es)
  then show ?case by (cases e) simp
qed simp

lemma spend_all_spec:
  "spend_all U ops = Some (U', vs) \<Longrightarrow>
     distinct ops \<and> length vs = length ops \<and> set ops \<subseteq> dom U \<and> U' = U |` (- set ops)
     \<and> (\<forall>(op, v) \<in> set (zip ops vs). U op = Some v)"
proof (induction ops arbitrary: U U' vs)
  case Nil
  then show ?case by simp
next
  case (Cons op ops)
  then obtain v ws where v: "U op = Some v" and s: "spend_all (U(op := None)) ops = Some (U', ws)" and vs: "vs = v # ws"
    by (auto split: option.splits)
  from Cons.IH [OF s] have i: "distinct ops" "length ws = length ops" "set ops \<subseteq> dom (U(op := None))"
    "U' = U(op := None) |` (- set ops)" "\<forall>(op', v) \<in> set (zip ops ws). (U(op := None)) op' = Some v"
    by - (elim conjE, assumption)+
  have "op \<notin> set ops" using i(3) by auto
  moreover have "U' = U |` (- set (op # ops))" unfolding i(4) by (auto simp: restrict_map_def fun_eq_iff)
  moreover have "\<forall>(op', v) \<in> set (zip ops ws). U op' = Some v" using i(5) by (auto split: if_splits)
  moreover have "set (op # ops) \<subseteq> dom U" using i(3) v by (auto simp: subset_iff split: if_splits)
  ultimately show ?case using i(1,2) v by (simp add: vs)
qed

lemma spend_all_restore:
  assumes "spend_all U ops = Some (U', vs)"
  shows "U' ++ map_of (zip ops vs) = U"
proof
  fix op
  from spend_all_spec [OF assms] have s: "distinct ops" "length vs = length ops"
    "U' = U |` (- set ops)" "\<forall>(op, v) \<in> set (zip ops vs). U op = Some v" by auto
  show "(U' ++ map_of (zip ops vs)) op = U op"
  proof (cases "map_of (zip ops vs) op")
    case None
    then have "op \<notin> set ops" using s(2) by (metis map_of_zip_is_None)
    with None s(3) show ?thesis by (simp add: map_add_def)
  next
    case (Some v)
    then have "(op, v) \<in> set (zip ops vs)" by (rule map_of_SomeD)
    with s(4) Some show ?thesis by (auto simp: map_add_def)
  qed
qed

lemma apply_txs_length: "apply_txs sha n txs U = Some (U', vss) \<Longrightarrow> length vss = length txs"
  by (induction txs arbitrary: n U U' vss) (auto split: option.splits)

text \<open>The outpoints of outputs.\<close>

lemma out_entries_cases:
  "out_entries sha tx_hash numb (idx, txout) = [] \<or>
   (\<exists>v. out_entries sha tx_hash numb (idx, txout) = [(tx_hash @ le_enc 4 idx, v)])"
  by (simp add: out_entries_def split: sum.splits)

lemma entries_keys:
  "map fst (concat (map (out_entries sha tx_hash numb) (enumerate i outs)))
     = map (\<lambda>j. tx_hash @ le_enc 4 j) (filter (\<lambda>j. out_entries sha tx_hash numb (j, outs ! (j - i)) \<noteq> []) [i..<i + length outs])"
proof (induction outs arbitrary: i)
  case (Cons out outs)
  have up: "[i..<i + length (out # outs)] = i # [Suc i..<Suc i + length outs]" by (simp add: upt_rec)
  have f: "filter (\<lambda>j. out_entries sha tx_hash numb (j, (out # outs) ! (j - i)) \<noteq> []) [Suc i..<Suc i + length outs]
      = filter (\<lambda>j. out_entries sha tx_hash numb (j, outs ! (j - Suc i)) \<noteq> []) [Suc i..<Suc i + length outs]"
    by (rule filter_cong) (auto simp: nth_Cons' Suc_diff_le)
  from out_entries_cases [of sha tx_hash numb i out] show ?case
    unfolding up using Cons [of "Suc i"] f by auto
qed simp

lemma distinct_entries:
  assumes "length outs \<le> 2 ^ 32"
  shows "distinct (map fst (concat (map (out_entries sha tx_hash numb) (enumerate 0 outs))))"
proof -
  let ?js = "filter (\<lambda>j. out_entries sha tx_hash numb (j, outs ! (j - 0)) \<noteq> []) [0..<0 + length outs]"
  have "inj_on (\<lambda>j. tx_hash @ le_enc 4 j) (set ?js)"
    using assms by (auto simp: inj_on_def le_enc_inj)
  then show ?thesis unfolding entries_keys by (simp add: distinct_map)
qed

lemma entry_hash:
  assumes "op \<in> fst ` set (tx_entries sha n (tx, tx_hash))" and "length tx_hash = 32"
  shows "take 32 op = tx_hash"
proof -
  have "op \<in> set (map fst (tx_entries sha n (tx, tx_hash)))" using assms(1) by simp
  then obtain j where "op = tx_hash @ le_enc 4 j"
    unfolding tx_entries_def fst_conv snd_conv entries_keys by (simp only: set_map) blast
  then show ?thesis using assms(2) by simp
qed

end
