(* ===== verification/Advance.thy ===== *)
theory Advance
  imports Ledger
begin

text \<open>
  Advancing: what the code does to its UTXO cache for a transaction, and for the transactions of a
  block, is what the ledger does, and the undo entries it collects are the values spent. The
  reference bookkeeping and the overlays leave that part of the state alone.
\<close>

section \<open>What a transaction leaves alone\<close>

definition data_keys :: "'o bp \<Rightarrow> bool" where
  "data_keys s \<longleftrightarrow> (\<forall>k \<in> set (dict_keys (data_cache s)). \<exists>r. k = 114 # 98 # r)"

definition same_block :: "'o bp \<Rightarrow> 'o bp \<Rightarrow> bool" where
  "same_block s s' \<longleftrightarrow> height s' = height s \<and> tip s' = tip s \<and> tx_count s' = tx_count s \<and> headers s' = headers s
     \<and> tx_hashes s' = tx_hashes s \<and> undo_infos s' = undo_infos s \<and> ref_loc_undo_infos s' = ref_loc_undo_infos s
     \<and> (\<exists>c. bp_db s' = (bp_db s)\<lparr>tx_hash_cache := c\<rparr>) \<and> touched s \<subseteq> touched s' \<and> (data_keys s \<longrightarrow> data_keys s')"

lemma same_block_refl [simp]: "same_block s s"
  unfolding same_block_def by (intro conjI exI [of _ "tx_hash_cache (bp_db s)"]) simp_all

lemma same_block_trans [trans]: "same_block s s' \<Longrightarrow> same_block s' s'' \<Longrightarrow> same_block s s''"
  unfolding same_block_def by auto

lemma same_blockI:
  assumes "height s' = height s" "tip s' = tip s" "tx_count s' = tx_count s" "headers s' = headers s"
    "tx_hashes s' = tx_hashes s" "undo_infos s' = undo_infos s" "ref_loc_undo_infos s' = ref_loc_undo_infos s"
    "bp_db s' = (bp_db s)\<lparr>tx_hash_cache := c\<rparr>" "touched s \<subseteq> touched s'" "data_keys s \<Longrightarrow> data_keys s'"
  shows "same_block s s'"
  unfolding same_block_def using assms by blast

lemma data_keys_set [simp]: "data_keys s \<Longrightarrow> data_keys (s\<lparr>data_cache := dict_set (114 # 98 # k) v (data_cache s)\<rparr>)"
  by (auto simp: data_keys_def set_dict_keys)

lemma same_block_update [simp]:
  "same_block s (s\<lparr>utxo_cache := uc\<rparr>)" "same_block s (s\<lparr>db_deletes := dd\<rparr>)"
  "same_block s (s\<lparr>overlay_state := o'\<rparr>)" "same_block s (s\<lparr>ref_cache := rc\<rparr>)"
  "same_block s (s\<lparr>ref_mint_cache := rm\<rparr>)" "same_block s (s\<lparr>ref_loc_cache := rl\<rparr>)"
  "same_block s (s\<lparr>touched := touched s \<union> X\<rparr>)"
  by (rule same_blockI [where c = "tx_hash_cache (bp_db s)"]; simp add: data_keys_def)+

lemma same_block_data [simp]: "same_block s (s\<lparr>data_cache := dict_set (114 # 98 # k) v (data_cache s)\<rparr>)"
  by (rule same_blockI [where c = "tx_hash_cache (bp_db s)"]) simp_all

lemma same_block_spent [simp]:
  "same_block s (s\<lparr>utxo_cache := uc, db_deletes := dd, bp_db := (bp_db s)\<lparr>tx_hash_cache := c\<rparr>\<rparr>)"
  by (rule same_blockI [where c = c]) (simp_all add: data_keys_def)

text \<open>Steps that change neither the database, the UTXO cache nor the deletions.\<close>

definition same_utxos :: "'o bp \<Rightarrow> 'o bp \<Rightarrow> bool" where
  "same_utxos s s' \<longleftrightarrow> same_block s s' \<and> bp_db s' = bp_db s \<and> utxo_cache s' = utxo_cache s \<and> db_deletes s' = db_deletes s"

lemma same_utxos_refl [simp]: "same_utxos s s"
  by (simp add: same_utxos_def)

lemma same_utxos_trans [trans]: "same_utxos s s' \<Longrightarrow> same_utxos s' s'' \<Longrightarrow> same_utxos s s''"
  unfolding same_utxos_def using same_block_trans by auto

lemma same_utxos_inv: "same_utxos s s' \<Longrightarrow> utxo_inv T F s' U \<longleftrightarrow> utxo_inv T F s U"
  by (rule utxo_inv_cong) (simp_all add: same_utxos_def)

lemma same_utxos_update [simp]:
  "same_utxos s (s\<lparr>overlay_state := o'\<rparr>)" "same_utxos s (s\<lparr>ref_cache := rc\<rparr>)"
  "same_utxos s (s\<lparr>ref_mint_cache := rm\<rparr>)" "same_utxos s (s\<lparr>ref_loc_cache := rl\<rparr>)"
  "same_utxos s (s\<lparr>data_cache := dict_set (114 # 98 # k) v (data_cache s)\<rparr>)"
  "same_utxos s (s\<lparr>touched := touched s \<union> X\<rparr>)"
  by (simp_all add: same_utxos_def)

section \<open>Spending the inputs\<close>

lemma unpack_last8: "8 \<le> length v \<Longrightarrow> \<exists>n. unpack_le_uint64 (takelast 8 v) = Inr n"
  by (simp add: unpack_le_uint64_def)

lemma advance_input_rep:
  assumes "advance_input ov (s, blk, acc) txin = Inr (s', blk', acc')" and "utxo_inv T F s U"
    and "\<not> is_generation txin" and "U (outpoint txin) = Some val"
    and "length (prev_hash txin) = 32" and "prev_idx txin < 2 ^ 32"
  shows "utxo_inv T F s' (U(outpoint txin := None)) \<and> same_block s s'
    \<and> undo_info blk' = undo_info blk @ [val] \<and> hashXs acc' = hashXs acc @ [take 11 val]
    \<and> hashXs_by_tx blk' = hashXs_by_tx blk"
proof -
  obtain uc dd c where sp: "spend_utxo (prev_hash txin) (prev_idx txin) s
       = Inr (s\<lparr>utxo_cache := uc, db_deletes := dd, bp_db := (bp_db s)\<lparr>tx_hash_cache := c\<rparr>\<rparr>, val)"
     and inv: "utxo_inv T F (s\<lparr>utxo_cache := uc, db_deletes := dd, bp_db := (bp_db s)\<lparr>tx_hash_cache := c\<rparr>\<rparr>)
         (U(outpoint txin := None))"
    using spend_utxo_rep [OF assms(2) _ assms(5,6), of val] assms(4) unfolding outpoint_def by blast
  let ?s = "s\<lparr>utxo_cache := uc, db_deletes := dd, bp_db := (bp_db s)\<lparr>tx_hash_cache := c\<rparr>\<rparr>"
  from assms(1,3) sp have "s' = ?s \<and> undo_info blk' = undo_info blk @ [val]
      \<and> hashXs acc' = hashXs acc @ [take 11 val] \<and> hashXs_by_tx blk' = hashXs_by_tx blk"
    by (auto simp: advance_input_def pack_idx [OF assms(6)] rbind_eq_Inr HASHX_LEN_def Let_def
        split: if_splits option.splits)
  with inv show ?thesis by simp
qed

lemma advance_inputs_rep:
  assumes "foldM (advance_input ov) (s, blk, acc) ins = Inr (s', blk', acc')" and "utxo_inv T F s U"
    and "spend_all U (map outpoint (filter (\<lambda>i. \<not> is_generation i) ins)) = Some (U', vs)"
    and "\<forall>i \<in> set ins. length (prev_hash i) = 32 \<and> prev_idx i < 2 ^ 32"
  shows "utxo_inv T F s' U' \<and> same_block s s' \<and> undo_info blk' = undo_info blk @ vs
    \<and> hashXs acc' = hashXs acc @ map (take 11) vs \<and> hashXs_by_tx blk' = hashXs_by_tx blk"
  using assms
proof (induction ins arbitrary: s blk acc U vs)
  case Nil
  then show ?case by simp
next
  case (Cons txin ins)
  from Cons.prems(1) obtain s1 blk1 acc1 where st: "advance_input ov (s, blk, acc) txin = Inr (s1, blk1, acc1)"
      "foldM (advance_input ov) (s1, blk1, acc1) ins = Inr (s', blk', acc')"
    by (auto simp: rbind_eq_Inr)
  show ?case
  proof (cases "is_generation txin")
    case True
    then have "s1 = s" "blk1 = blk" "acc1 = acc" using st(1) by (simp_all add: advance_input_def)
    with Cons.IH [OF st(2)] True Cons.prems show ?thesis by simp
  next
    case False
    with Cons.prems(3) obtain val ws where v: "U (outpoint txin) = Some val"
        "spend_all (U(outpoint txin := None)) (map outpoint (filter (\<lambda>i. \<not> is_generation i) ins)) = Some (U', ws)"
        "vs = val # ws"
      by (auto split: option.splits)
    have one: "utxo_inv T F s1 (U(outpoint txin := None)) \<and> same_block s s1
      \<and> undo_info blk1 = undo_info blk @ [val] \<and> hashXs acc1 = hashXs acc @ [take 11 val]
      \<and> hashXs_by_tx blk1 = hashXs_by_tx blk"
      using advance_input_rep [OF st(1) Cons.prems(2) False v(1)] Cons.prems(4) by simp
    have "utxo_inv T F s' U' \<and> same_block s1 s' \<and> undo_info blk' = undo_info blk1 @ ws
      \<and> hashXs acc' = hashXs acc1 @ map (take 11) ws \<and> hashXs_by_tx blk' = hashXs_by_tx blk1"
      using Cons.IH [OF st(2) _ v(2)] one Cons.prems(4) by (simp del: fun_upd_apply)
    with one v(3) same_block_trans [of s s1 s'] show ?thesis by simp
  qed
qed

section \<open>References\<close>

text \<open>The reference bookkeeping of an output: neither the UTXOs, the undo entries nor the collected
  script hashes change.\<close>

definition adv_same :: "'o adv \<Rightarrow> 'o adv \<Rightarrow> bool" where
  "adv_same st st' \<longleftrightarrow> (case (st, st') of ((s, blk, acc), (s', blk', acc')) \<Rightarrow>
     same_utxos s s' \<and> undo_info blk' = undo_info blk \<and> hashXs acc' = hashXs acc
     \<and> hashXs_by_tx blk' = hashXs_by_tx blk)"

lemma adv_same_refl [simp]: "adv_same st st"
  by (simp add: adv_same_def split: prod.split)

lemma adv_same_trans [trans]: "adv_same st st' \<Longrightarrow> adv_same st' st'' \<Longrightarrow> adv_same st st''"
  by (auto simp: adv_same_def intro: same_utxos_trans split: prod.splits)

lemma foldl_adv_same:
  assumes "\<And>st x. adv_same st (f st x)"
  shows "adv_same st (foldl f st xs)"
proof (induction xs arbitrary: st)
  case (Cons x xs)
  from adv_same_trans [OF assms Cons.IH] show ?case by simp
qed simp

lemma track_singleton_same: "adv_same st (track_singleton tx_hash spent st ref)"
  by (cases st) (simp add: track_singleton_def adv_same_def Let_def split: option.split)

lemma track_normal_same: "adv_same st (track_normal tx_hash spent st ref)"
  by (cases st) (simp add: track_normal_def adv_same_def)

lemma collect_output_refs_same: "adv_same st (collect_output_refs idx keys normal_d single_d st)"
  by (cases st) (simp add: collect_output_refs_def adv_same_def)

lemma put_refs_same: "adv_same st (put_refs cache_key val st)"
  by (cases st) (simp add: put_refs_def adv_same_def)

lemma credit_output_same: "adv_same st (credit_output sha ov cache_key txout keys st)"
  by (cases st) (simp add: credit_output_def adv_same_def Let_def)

lemmas step_same = collect_output_refs_same put_refs_same foldl_adv_same [OF track_singleton_same]
  foldl_adv_same [OF track_normal_same] credit_output_same

lemma advance_refs_same:
  assumes "advance_refs sha ov tx_hash spent cache_key idx txout st = Inr st'"
  shows "adv_same st st'"
  using assms unfolding advance_refs_def Let_def
  by (auto split: sum.splits prod.splits if_splits
      intro: step_same adv_same_trans [OF _ adv_same_trans [OF _ adv_same_trans [OF _ adv_same_trans]]])

section \<open>Adding the outputs\<close>

definition digest32 :: "(bytes \<Rightarrow> bytes) \<Rightarrow> bool" where
  "digest32 sha \<longleftrightarrow> (\<forall>x. length (sha x) = 32)"

lemma digest32_length [simp]: "digest32 sha \<Longrightarrow> length (sha x) = 32"
  by (simp add: digest32_def)

lemma zero_refs_error: "zero_refs script = Inl e \<Longrightarrow> e = ScriptError"
  by (cases "script_tokens script 0") (auto simp: zero_refs_tokens)

lemma output_indexable_eq:
  "output_indexable script = Inr (\<not> is_unspendable_legacy script \<and> (\<exists>zr. zero_refs script = Inr zr))"
  by (auto simp: output_indexable_def script_parse_errors_def dest: zero_refs_error split: sum.split)

text \<open>The parse that gates the entry gates the code script hash too.\<close>

lemma zero_refs_csh:
  assumes "zero_refs script = Inr zr"
  shows "\<exists>i. codeScriptHash_from_script sha script = Inr (sha (drop i script))"
proof -
  from assms obtain ts where "script_tokens script 0 = Inr ts"
    by (cases "script_tokens script 0") (auto simp: zero_refs_tokens)
  then obtain i where "stateseperator_loop script 0 = Inr i" using stateseperator_loop_tokens by blast
  then show ?thesis by (auto simp: codeScriptHash_from_script_def get_stateseperator_index_def)
qed

lemma out_entries_eq:
  "out_entries sha tx_hash numb (idx, txout) = (if output_indexable (pk_script txout) = Inr True
     then [(tx_hash @ le_enc 4 idx, hashX_from_script sha (projr (zero_refs (pk_script txout)))
        @ projr (codeScriptHash_from_script sha (pk_script txout)) @ numb @ le_enc 8 (nat (out_value txout)))]
     else [])"
proof (cases "zero_refs (pk_script txout)")
  case (Inr zr)
  with zero_refs_csh [OF Inr, of sha] show ?thesis by (auto simp: out_entries_def output_indexable_eq)
qed (simp add: out_entries_def output_indexable_eq)

lemma entry_ok_new:
  assumes "digest32 sha" and "length tx_hash = 32" and "n < length T" and "T ! n = tx_hash" and "n < 2 ^ 40"
    and "(op, val) \<in> set (out_entries sha tx_hash (le_enc 5 n) (idx, txout))"
  shows "entry_ok T op val" "take 11 val = take HASHX_LEN val"
proof -
  from assms(6) have ix: "output_indexable (pk_script txout) = Inr True"
    by (simp add: out_entries_eq split: if_splits)
  then obtain zr where zr: "zero_refs (pk_script txout) = Inr zr" by (auto simp: output_indexable_eq)
  obtain i where csh: "codeScriptHash_from_script sha (pk_script txout) = Inr (sha (drop i (pk_script txout)))"
    using zero_refs_csh [OF zr] by blast
  let ?pre = "hashX_from_script sha zr @ sha (drop i (pk_script txout))"
  from assms(6) ix zr csh have e: "op = tx_hash @ le_enc 4 idx" "val = ?pre @ le_enc 5 n @ le_enc 8 (nat (out_value txout))"
    by (simp_all add: out_entries_eq)
  have "length ?pre = 43" using assms(1) by (simp add: length_hashX)
  then have "entry_num val = le_enc 5 n" unfolding e(2) entry_num_def by (simp add: slice_append_right slice_def)
  moreover have "length val = 56" using \<open>length ?pre = 43\<close> unfolding e(2) by simp
  moreover have "le_dec (le_enc 5 n) = n" using assms(5) by simp
  ultimately show "entry_ok T op val" using assms(2-4) by (simp add: entry_ok_def e(1))
qed (simp add: HASHX_LEN_def)

lemma pack_value: "pack_le_uint64 v = Inr b \<Longrightarrow> b = le_enc 8 (nat v)"
  by (auto simp: pack_le_uint64_def pack_uint_def split: if_splits)

lemma advance_output_rep:
  assumes "advance_output sha ov tx_hash (le_enc 5 n) spent (s, blk, acc) (idx, txout) = Inr (s', blk', acc')"
    and "utxo_inv T F s U" and "U (tx_hash @ le_enc 4 idx) = None" and "idx < 2 ^ 32"
    and "digest32 sha" and "length tx_hash = 32" and "n < length T" and "T ! n = tx_hash" and "n < 2 ^ 40"
  shows "utxo_inv T F s' (add_all U (out_entries sha tx_hash (le_enc 5 n) (idx, txout))) \<and> same_block s s'
    \<and> undo_info blk' = undo_info blk
    \<and> hashXs acc' = hashXs acc @ map (\<lambda>e. take 11 (snd e)) (out_entries sha tx_hash (le_enc 5 n) (idx, txout))
    \<and> hashXs_by_tx blk' = hashXs_by_tx blk"
proof (cases "output_indexable (pk_script txout) = Inr True")
  case False
  with assms(1,2) show ?thesis
    by (auto simp: advance_output_def out_entries_eq output_indexable_eq)
next
  case True
  then obtain zr where zr: "zero_refs (pk_script txout) = Inr zr" by (auto simp: output_indexable_eq)
  obtain i where csh: "codeScriptHash_from_script sha (pk_script txout) = Inr (sha (drop i (pk_script txout)))"
    using zero_refs_csh [OF zr] by blast
  let ?key = "tx_hash @ le_enc 4 idx"
  let ?val = "hashX_from_script sha zr @ sha (drop i (pk_script txout)) @ le_enc 5 n @ le_enc 8 (nat (out_value txout))"
  have es: "out_entries sha tx_hash (le_enc 5 n) (idx, txout) = [(?key, ?val)]"
    using True zr csh by (simp add: out_entries_eq)
  have ok: "entry_ok T ?key ?val" by (rule entry_ok_new(1) [OF assms(5-9), where idx = idx and txout = txout]) (simp add: es)
  let ?s = "s\<lparr>utxo_cache := dict_set ?key ?val (utxo_cache s)\<rparr>"
  obtain blk1 where adv: "advance_refs sha ov tx_hash spent ?key idx txout
        (?s, blk1, acc\<lparr>hashXs := hashXs acc @ [hashX_from_script sha zr]\<rparr>) = Inr (s', blk', acc')"
      and blk1: "undo_info blk1 = undo_info blk" "hashXs_by_tx blk1 = hashXs_by_tx blk"
    using assms(1) True zr csh
    by (auto simp: advance_output_def rbind_eq_Inr pack_idx [OF assms(4)] Let_def dest!: pack_value split: if_splits)
  have same: "adv_same (?s, blk1, acc\<lparr>hashXs := hashXs acc @ [hashX_from_script sha zr]\<rparr>) (s', blk', acc')"
    using advance_refs_same [OF adv] .
  then have su: "same_utxos ?s s'" by (simp add: adv_same_def)
  have "utxo_inv T F ?s (U(?key \<mapsto> ?val))" using put_utxo_rep [OF assms(2,3) ok] .
  then have "utxo_inv T F s' (U(?key \<mapsto> ?val))" using same_utxos_inv [OF su] by blast
  moreover have "same_block s s'" using su same_block_trans [of s ?s s'] by (simp add: same_utxos_def)
  moreover have "take 11 ?val = hashX_from_script sha zr" using assms(5) by (simp add: length_hashX)
  ultimately show ?thesis using same blk1 by (simp add: es adv_same_def del: fun_upd_apply)
qed

lemma out_entries_keys: "op \<in> fst ` set (out_entries sha tx_hash numb (i, out)) \<Longrightarrow> op = tx_hash @ le_enc 4 i"
  by (auto simp: out_entries_eq split: if_splits)

lemma advance_outputs_rep:
  assumes "foldM (advance_output sha ov tx_hash (le_enc 5 n) spent) (s, blk, acc) (enumerate i outs) = Inr (s', blk', acc')"
    and "utxo_inv T F s U" and "\<And>j. i \<le> j \<Longrightarrow> j < i + length outs \<Longrightarrow> U (tx_hash @ le_enc 4 j) = None"
    and "i + length outs \<le> 2 ^ 32"
    and "digest32 sha" and "length tx_hash = 32" and "n < length T" and "T ! n = tx_hash" and "n < 2 ^ 40"
  shows "utxo_inv T F s' (add_all U (concat (map (out_entries sha tx_hash (le_enc 5 n)) (enumerate i outs)))) \<and> same_block s s'
    \<and> undo_info blk' = undo_info blk
    \<and> hashXs acc' = hashXs acc @ map (\<lambda>e. take 11 (snd e)) (concat (map (out_entries sha tx_hash (le_enc 5 n)) (enumerate i outs)))
    \<and> hashXs_by_tx blk' = hashXs_by_tx blk"
  using assms(1-4)
proof (induction outs arbitrary: i s blk acc U)
  case Nil
  then show ?case by simp
next
  case (Cons out outs)
  let ?es = "out_entries sha tx_hash (le_enc 5 n) (i, out)"
  from Cons.prems(1) obtain s1 blk1 acc1
    where st: "advance_output sha ov tx_hash (le_enc 5 n) spent (s, blk, acc) (i, out) = Inr (s1, blk1, acc1)"
      "foldM (advance_output sha ov tx_hash (le_enc 5 n) spent) (s1, blk1, acc1) (enumerate (Suc i) outs) = Inr (s', blk', acc')"
    by (auto simp: rbind_eq_Inr)
  have i: "i < 2 ^ 32" using Cons.prems(4) by simp
  have "U (tx_hash @ le_enc 4 i) = None" using Cons.prems(3) [of i] by simp
  note one = advance_output_rep [OF st(1) Cons.prems(2) this i assms(5-9)]
  have "add_all U ?es (tx_hash @ le_enc 4 j) = None" if "Suc i \<le> j" "j < Suc i + length outs" for j
  proof -
    have "j < 2 ^ 32" using that(2) Cons.prems(4) by simp
    then have "tx_hash @ le_enc 4 j \<noteq> tx_hash @ le_enc 4 i"
      using that(1) i le_enc_inj [of j 4 i] by simp
    then have "tx_hash @ le_enc 4 j \<notin> fst ` set ?es" using out_entries_keys by blast
    then show ?thesis using that Cons.prems(3) [of j] by (simp add: add_all_other)
  qed
  moreover have "Suc i + length outs \<le> 2 ^ 32" using Cons.prems(4) by simp
  ultimately have rest: "utxo_inv T F s' (add_all (add_all U ?es) (concat (map (out_entries sha tx_hash (le_enc 5 n)) (enumerate (Suc i) outs)))) \<and> same_block s1 s'
    \<and> undo_info blk' = undo_info blk1
    \<and> hashXs acc' = hashXs acc1 @ map (\<lambda>e. take 11 (snd e)) (concat (map (out_entries sha tx_hash (le_enc 5 n)) (enumerate (Suc i) outs)))
    \<and> hashXs_by_tx blk' = hashXs_by_tx blk1"
    using Cons.IH [OF st(2), of "add_all U ?es"] one by blast
  with one same_block_trans [of s s1 s'] show ?case by simp
qed

section \<open>Overlays\<close>

definition only_overlays :: "'o bp \<Rightarrow> 'o bp \<Rightarrow> bool" where
  "only_overlays s s' \<longleftrightarrow> (\<exists>o'. s' = s\<lparr>overlay_state := o'\<rparr>)"

lemma only_overlays_refl [simp]: "only_overlays s s"
  unfolding only_overlays_def by (rule exI [of _ "overlay_state s"]) simp

lemma only_overlays_trans [trans]: "only_overlays s s' \<Longrightarrow> only_overlays s' s'' \<Longrightarrow> only_overlays s s''"
  by (auto simp: only_overlays_def)

lemma only_overlays_utxos: "only_overlays s s' \<Longrightarrow> same_utxos s s'"
  by (auto simp: only_overlays_def)

lemma guarded_same: "guarded s call dflt = Inr (s', x) \<Longrightarrow> only_overlays s s'"
  by (auto simp: guarded_def only_overlays_def Let_def split: prod.splits sum.splits if_splits)

lemma run_overlay_same: "run_overlay f wanted ctx env s = Inr s' \<Longrightarrow> only_overlays s s'"
  by (auto simp: run_overlay_def rbind_eq_Inr split: option.splits if_splits dest: guarded_same)

lemma run_overlays_same:
  assumes "run_overlays ov ctx acc s = Inr s'"
  shows "only_overlays s s'"
proof (cases "glyph_index ov")
  case None
  with assms show ?thesis by (simp add: run_overlays_def)
next
  case (Some glyph)
  with assms obtain s1 env s2 s3 s4 s5 s6 where
      "only_overlays s s1" "only_overlays s1 s2" "only_overlays s2 s3" "only_overlays s3 s4"
      "only_overlays s4 s5" "only_overlays s5 s6" "only_overlays s6 s'"
    unfolding run_overlays_def
    by (auto simp: rbind_eq_Inr split: if_splits dest!: guarded_same run_overlay_same)
  then show ?thesis by (meson only_overlays_trans)
qed

lemma run_analytics_same: "run_analytics ov blk s = Inr s' \<Longrightarrow> only_overlays s s'"
  by (auto simp: run_analytics_def rbind_eq_Inr split: option.splits if_splits dest: guarded_same)

section \<open>A transaction\<close>

definition tx_ok :: "Tx \<times> bytes \<Rightarrow> bool" where
  "tx_ok txh \<longleftrightarrow> length (snd txh) = 32 \<and> length (tx_outputs (fst txh)) \<le> 2 ^ 32
     \<and> (\<forall>i \<in> set (tx_inputs (fst txh)). length (prev_hash i) = 32 \<and> prev_idx i < 2 ^ 32)"

text \<open>The script hashes a transaction touches, in the order the code collects them.\<close>

definition tx_hashXs :: "(bytes \<Rightarrow> bytes) \<Rightarrow> nat \<Rightarrow> Tx \<times> bytes \<Rightarrow> bytes list \<Rightarrow> bytes list" where
  "tx_hashXs sha n txh vs = map (take 11) vs @ map (\<lambda>e. take 11 (snd e)) (tx_entries sha n txh)"

lemma pack_num: "pack_le_uint64 (int n) = Inr b \<Longrightarrow> take 5 b = le_enc 5 n"
  by (auto simp: pack_le_uint64_def pack_uint_def take_le_enc split: if_splits)

lemma advance_tx_rep:
  assumes "advance_tx sha ov (s, blk, int n) (tx, tx_hash) = Inr (s', blk', m)"
    and "utxo_inv T F s U" and "apply_tx sha n (tx, tx_hash) U = Some (U', vs)"
    and "tx_ok (tx, tx_hash)" and "\<And>op. op \<in> dom U \<Longrightarrow> take 32 op \<noteq> tx_hash"
    and "digest32 sha" and "n < length T" and "T ! n = tx_hash" and "n < 2 ^ 40"
  shows "utxo_inv T F s' U' \<and> same_block s s' \<and> m = int (n + 1) \<and> undo_info blk' = undo_info blk @ vs
    \<and> hashXs_by_tx blk' = hashXs_by_tx blk @ [tx_hashXs sha n (tx, tx_hash) vs]
    \<and> set (tx_hashXs sha n (tx, tx_hash) vs) \<subseteq> touched s'"
proof -
  let ?acc = "\<lparr>hashXs = [], refs = [], output_refs_by_vout = [], balance_debits = [], balance_credits = [],
           spent_singleton_refs = (if glyph_index ov \<noteq> None then Some {} else None)\<rparr>"
  from assms(1) obtain b s1 blk1 acc1 spent s2 blk2 acc2 s3 where st:
      "pack_le_uint64 (int n) = Inr b"
      "foldM (advance_input ov) (s, blk, ?acc) (tx_inputs tx) = Inr (s1, blk1, acc1)"
      "foldM (advance_output sha ov tx_hash (take 5 b) spent) (s1, blk1, acc1) (enumerate 0 (tx_outputs tx)) = Inr (s2, blk2, acc2)"
      "\<exists>ctx. run_overlays ov ctx acc2 (s2\<lparr>touched := touched s2 \<union> set (hashXs acc2) \<union> set (refs acc2)\<rparr>) = Inr s3"
      "s' = s3" "blk' = blk2\<lparr>hashXs_by_tx := hashXs_by_tx blk2 @ [hashXs acc2]\<rparr>" "m = int n + 1"
    unfolding advance_tx_def by (clarsimp simp: rbind_eq_Inr Let_def) blast
  from assms(3) obtain U1 where U1: "spend_all U (map outpoint (spent_inputs tx)) = Some (U1, vs)"
      and U': "U' = add_all U1 (tx_entries sha n (tx, tx_hash))"
    by (auto simp: apply_tx_def)
  have tx: "length tx_hash = 32" "length (tx_outputs tx) \<le> 2 ^ 32"
      "\<forall>i \<in> set (tx_inputs tx). length (prev_hash i) = 32 \<and> prev_idx i < 2 ^ 32"
    using assms(4) by (simp_all add: tx_ok_def)
  have ins: "utxo_inv T F s1 U1 \<and> same_block s s1 \<and> undo_info blk1 = undo_info blk @ vs
    \<and> hashXs acc1 = hashXs ?acc @ map (take 11) vs \<and> hashXs_by_tx blk1 = hashXs_by_tx blk"
    using advance_inputs_rep [OF st(2) assms(2) _ tx(3)] U1 unfolding spent_inputs_def by blast
  have new: "U1 (tx_hash @ le_enc 4 j) = None" for j
  proof -
    have "U1 = U |` (- set (map outpoint (spent_inputs tx)))" using spend_all_spec [OF U1] by blast
    then have "dom U1 \<subseteq> dom U" by auto
    moreover have "take 32 (tx_hash @ le_enc 4 j) = tx_hash" using tx(1) by simp
    ultimately show ?thesis using assms(5) by blast
  qed
  have outs: "utxo_inv T F s2 (add_all U1 (tx_entries sha n (tx, tx_hash))) \<and> same_block s1 s2
    \<and> undo_info blk2 = undo_info blk1
    \<and> hashXs acc2 = hashXs acc1 @ map (\<lambda>e. take 11 (snd e)) (tx_entries sha n (tx, tx_hash))
    \<and> hashXs_by_tx blk2 = hashXs_by_tx blk1"
    unfolding tx_entries_def fst_conv snd_conv
    using ins new tx(2)
    by (intro advance_outputs_rep [OF st(3) [unfolded pack_num [OF st(1)]] _ _ _ assms(6) tx(1) assms(7-9)]) simp_all
  let ?s2 = "s2\<lparr>touched := touched s2 \<union> (set (hashXs acc2) \<union> set (refs acc2))\<rparr>"
  have s3: "only_overlays ?s2 s'" using st(4,5) run_overlays_same by (auto simp: Un_assoc)
  from only_overlays_utxos [OF s3] have su: "same_utxos s2 s'"
    using same_utxos_trans [of s2 ?s2 s'] by simp
  have hx: "hashXs acc2 = tx_hashXs sha n (tx, tx_hash) vs" using ins outs by (simp add: tx_hashXs_def)
  have "same_block s s'" using ins outs su same_block_trans unfolding same_utxos_def by blast
  moreover have "utxo_inv T F s' U'" using outs same_utxos_inv [OF su] U' by blast
  moreover have "set (hashXs acc2) \<subseteq> touched s'" using s3 by (auto simp: only_overlays_def)
  ultimately show ?thesis using ins outs st(6,7) hx by simp
qed

section \<open>A block\<close>

fun block_hashXs :: "(bytes \<Rightarrow> bytes) \<Rightarrow> nat \<Rightarrow> (Tx \<times> bytes) list \<Rightarrow> bytes list list \<Rightarrow> bytes list list" where
  "block_hashXs sha n (txh # txs) (vs # vss) = tx_hashXs sha n txh vs # block_hashXs sha (n + 1) txs vss"
| "block_hashXs sha n txs vss = []"

text \<open>Every outpoint of the set belongs to a listed transaction.\<close>

definition known :: "utxo_map \<Rightarrow> bytes list \<Rightarrow> bool" where
  "known U T \<longleftrightarrow> (\<forall>op \<in> dom U. take 32 op \<in> set T)"

lemma utxo_inv_known: "utxo_inv T F s U \<Longrightarrow> known U T"
  unfolding known_def using utxo_inv_entry entry_okD(3,4) by (metis domD nth_mem)

lemma known_apply_tx:
  assumes "apply_tx sha n txh U = Some (U', vs)" and "known U T" and "length (snd txh) = 32"
  shows "known U' (T @ [snd txh])"
  unfolding known_def
proof
  fix op assume op: "op \<in> dom U'"
  from assms(1) obtain U1 where U1: "spend_all U (map outpoint (spent_inputs (fst txh))) = Some (U1, vs)"
      and U': "U' = add_all U1 (tx_entries sha n txh)" by (auto simp: apply_tx_def)
  have "U1 = U |` (- set (map outpoint (spent_inputs (fst txh))))" using spend_all_spec [OF U1] by blast
  then have sub: "dom U1 \<subseteq> dom U" by auto
  from op U' consider "op \<in> dom U1" | "op \<in> fst ` set (tx_entries sha n txh)" by (auto simp: dom_add_all)
  then show "take 32 op \<in> set (T @ [snd txh])"
  proof cases
    case 1
    with sub assms(2) show ?thesis by (auto simp: known_def)
  next
    case 2
    then show ?thesis using entry_hash [of op sha n "fst txh" "snd txh"] assms(3) by simp
  qed
qed

lemma apply_tx_values:
  "apply_tx sha n txh U = Some (U', vs) \<Longrightarrow> set vs \<subseteq> ran U"
proof -
  assume "apply_tx sha n txh U = Some (U', vs)"
  then obtain U1 where U1: "spend_all U (map outpoint (spent_inputs (fst txh))) = Some (U1, vs)" by (auto simp: apply_tx_def)
  let ?ops = "map outpoint (spent_inputs (fst txh))"
  from spend_all_spec [OF U1] have l: "length vs = length ?ops" and z: "\<forall>(op, v) \<in> set (zip ?ops vs). U op = Some v" by blast+
  show "set vs \<subseteq> ran U"
  proof
    fix v assume "v \<in> set vs"
    with l obtain op where "(op, v) \<in> set (zip ?ops vs)" by (metis in_set_impl_in_set_zip2)
    with z have "U op = Some v" by blast
    then show "v \<in> ran U" by (rule ranI)
  qed
qed

lemma advance_tx_loop:
  assumes "foldM (advance_tx sha ov) (s, blk, int n) txs = Inr (s', blk', m)"
    and "utxo_inv T F s U" and "apply_txs sha n txs U = Some (U', vss)"
    and "\<forall>txh \<in> set txs. tx_ok txh" and "digest32 sha"
    and "T = pre @ map snd txs" and "length pre = n" and "distinct T" and "known U pre" and "length T \<le> 2 ^ 40"
  shows "utxo_inv T F s' U' \<and> same_block s s' \<and> m = int (length T) \<and> undo_info blk' = undo_info blk @ concat vss
    \<and> hashXs_by_tx blk' = hashXs_by_tx blk @ block_hashXs sha n txs vss
    \<and> \<Union> (set ` set (block_hashXs sha n txs vss)) \<subseteq> touched s' \<and> (\<forall>v \<in> set (concat vss). length v = 56)"
  using assms(1-4,6-9)
proof (induction txs arbitrary: s blk n U vss pre)
  case Nil
  then show ?case by simp
next
  case (Cons txh txs)
  obtain tx h where txh: "txh = (tx, h)" by (cases txh)
  from Cons.prems(1) obtain s1 blk1 m1 where st: "advance_tx sha ov (s, blk, int n) (tx, h) = Inr (s1, blk1, m1)"
      "foldM (advance_tx sha ov) (s1, blk1, m1) txs = Inr (s', blk', m)"
    by (auto simp: rbind_eq_Inr txh)
  from Cons.prems(3) obtain U1 vs wss where ap: "apply_tx sha n (tx, h) U = Some (U1, vs)"
      "apply_txs sha (n + 1) txs U1 = Some (U', wss)" and vss: "vss = vs # wss"
    by (auto simp: txh split: option.splits)
  have ok: "tx_ok (tx, h)" using Cons.prems(4) txh by simp
  have T: "T ! n = h" "n < length T" "h \<notin> set pre"
    using Cons.prems(5,6,7) by (auto simp: txh nth_append)
  have fresh: "take 32 op \<noteq> h" if "op \<in> dom U" for op using Cons.prems(8) T(3) that by (auto simp: known_def)
  have "n < 2 ^ 40" using T(2) assms(10) by simp
  note one = advance_tx_rep [OF st(1) Cons.prems(2) ap(1) ok fresh assms(5) T(2,1) this]
  have "known U1 (pre @ [h])" using known_apply_tx [OF ap(1) Cons.prems(8)] ok by (simp add: tx_ok_def)
  then have rest: "utxo_inv T F s' U' \<and> same_block s1 s' \<and> m = int (length T) \<and> undo_info blk' = undo_info blk1 @ concat wss
    \<and> hashXs_by_tx blk' = hashXs_by_tx blk1 @ block_hashXs sha (n + 1) txs wss
    \<and> \<Union> (set ` set (block_hashXs sha (n + 1) txs wss)) \<subseteq> touched s' \<and> (\<forall>v \<in> set (concat wss). length v = 56)"
    using one st(2) ap(2) Cons.prems(4-7)
    by (intro Cons.IH [of s1 blk1 "n + 1" U1 wss "pre @ [h]"]) (simp_all add: txh)
  have "length v = 56" if "v \<in> set vs" for v
  proof -
    from that apply_tx_values [OF ap(1)] obtain op where "U op = Some v" by (auto simp: ran_def)
    then show ?thesis using utxo_inv_entry [OF Cons.prems(2)] entry_okD(2) by blast
  qed
  moreover have "touched s1 \<subseteq> touched s'" using rest by (simp add: same_block_def)
  ultimately show ?case using one rest same_block_trans [of s s1 s'] by (auto simp: vss txh)
qed

section \<open>Transaction counts\<close>

lemma bisect_right_spec:
  assumes "lo \<le> hi" and "hi \<le> length a" and "sorted a"
    and "\<forall>i < lo. a ! i \<le> x" and "\<forall>i < length a. hi \<le> i \<longrightarrow> x < a ! i"
  shows "bisect_right_loop a x lo hi \<le> length a \<and> (\<forall>i < bisect_right_loop a x lo hi. a ! i \<le> x)
    \<and> (\<forall>i < length a. bisect_right_loop a x lo hi \<le> i \<longrightarrow> x < a ! i)"
  using assms
proof (induction a x lo hi rule: bisect_right_loop.induct)
  case (1 a x lo hi)
  show ?case
  proof (cases "lo < hi")
    case False
    with "1.prems" show ?thesis by (simp add: bisect_right_loop.simps)
  next
    case True
    let ?mid = "(lo + hi) div 2"
    have mid: "lo \<le> ?mid" "?mid < hi" using True by auto
    show ?thesis
    proof (cases "x < a ! ?mid")
      case less: True
      have "x < a ! i" if "i < length a" "?mid \<le> i" for i
        using sorted_nth_mono [OF "1.prems"(3) that(2,1)] less by simp
      then have "bisect_right_loop a x lo ?mid \<le> length a \<and> (\<forall>i < bisect_right_loop a x lo ?mid. a ! i \<le> x)
          \<and> (\<forall>i < length a. bisect_right_loop a x lo ?mid \<le> i \<longrightarrow> x < a ! i)"
        using "1.prems" mid by (intro "1.IH"(1) [OF True refl less]) auto
      with True less show ?thesis by (simp add: bisect_right_loop.simps [of a x lo hi])
    next
      case False
      have "a ! i \<le> x" if "i < ?mid + 1" for i
      proof -
        have "a ! i \<le> a ! ?mid" using that mid "1.prems"(2) by (intro sorted_nth_mono [OF "1.prems"(3)]) auto
        with False show ?thesis by simp
      qed
      then have "bisect_right_loop a x (?mid + 1) hi \<le> length a \<and> (\<forall>i < bisect_right_loop a x (?mid + 1) hi. a ! i \<le> x)
          \<and> (\<forall>i < length a. bisect_right_loop a x (?mid + 1) hi \<le> i \<longrightarrow> x < a ! i)"
        using "1.prems" mid by (intro "1.IH"(2) [OF True refl False]) auto
      with True False show ?thesis by (simp add: bisect_right_loop.simps [of a x lo hi])
    qed
  qed
qed

text \<open>\<open>bisect_right\<close> counts the blocks that end at or before a transaction.\<close>

lemma bisect_right_filter:
  assumes "sorted a"
  shows "bisect_right a x = length (filter (\<lambda>y. y \<le> x) a)"
proof -
  let ?i = "bisect_right a x"
  have s: "?i \<le> length a" "\<forall>i < ?i. a ! i \<le> x" "\<forall>i < length a. ?i \<le> i \<longrightarrow> x < a ! i"
    using bisect_right_spec [of 0 "length a" a x] assms by (simp_all add: bisect_right_def)
  have "filter (\<lambda>y. y \<le> x) (take ?i a) = take ?i a" using s(1,2) by (auto simp: filter_id_conv in_set_conv_nth)
  moreover have "filter (\<lambda>y. y \<le> x) (drop ?i a) = []" using s(1,3) by (auto simp: filter_empty_conv in_set_conv_nth not_le)
  ultimately have "filter (\<lambda>y. y \<le> x) a = take ?i a"
    using filter_append [of "\<lambda>y. y \<le> x" "take ?i a" "drop ?i a"] by simp
  with s(1) show ?thesis by simp
qed

text \<open>The counts the code keeps in memory: one per block, increasing, the last one the number of
  transactions.\<close>

definition counts_ok :: "bytes list \<Rightarrow> 'o bp \<Rightarrow> nat list \<Rightarrow> bool" where
  "counts_ok T s tcs \<longleftrightarrow> tx_counts (bp_db s) = Some tcs \<and> sorted tcs \<and> int (length tcs) = height s + 1
     \<and> tx_count s = int (length T) \<and> (if tcs = [] then 0 else last tcs) = length T"

lemma counts_ok_le:
  assumes "counts_ok T s tcs" and "c \<in> set tcs"
  shows "c \<le> length T"
proof -
  obtain i where i: "i < length tcs" "tcs ! i = c" using assms(2) by (auto simp: in_set_conv_nth)
  then have "tcs \<noteq> []" by auto
  then have "tcs ! (length tcs - 1) = length T" using assms(1) by (simp add: counts_ok_def last_conv_nth)
  moreover have "tcs ! i \<le> tcs ! (length tcs - 1)"
    using assms(1) i(1) by (intro sorted_nth_mono) (auto simp: counts_ok_def)
  ultimately show ?thesis using i(2) by simp
qed

lemma hash_ok_counts:
  assumes "hash_ok d (take F T)" and "tx_counts d = Some tcs" and "sorted (tcs @ new)" and "\<forall>c \<in> set new. F \<le> c"
  shows "hash_ok (d\<lparr>tx_counts := Some (tcs @ new)\<rparr>) (take F T)"
proof -
  have "bisect_right (tcs @ new) n = bisect_right tcs n" if "n < length (take F T)" for n
  proof -
    have "sorted tcs" using assms(3) by (simp add: sorted_append)
    moreover have "filter (\<lambda>y. y \<le> n) new = []" using assms(4) that by (force simp: filter_empty_conv)
    ultimately show ?thesis using bisect_right_filter [OF assms(3), of n] bisect_right_filter [of tcs n] by simp
  qed
  with assms(1,2) show ?thesis by (simp add: hash_ok_def)
qed

lemma hash_ok_history [simp]: "hash_ok (d\<lparr>db_history := h\<rparr>) T \<longleftrightarrow> hash_ok d T"
  by (simp add: hash_ok_def)

lemma hash_ok_raw_blocks [simp]: "hash_ok (d\<lparr>raw_blocks := r\<rparr>) T \<longleftrightarrow> hash_ok d T"
  by (simp add: hash_ok_def)

section \<open>The chain state\<close>

text \<open>\<open>T\<close> is the list of all transaction hashes, \<open>F\<close> of them in the flushed files, \<open>U\<close> the UTXO set.\<close>

definition chain_inv :: "bytes list \<Rightarrow> nat \<Rightarrow> 'o bp \<Rightarrow> utxo_map \<Rightarrow> bool" where
  "chain_inv T F s U \<longleftrightarrow> utxo_inv T F s U \<and> (\<exists>tcs. counts_ok T s tcs) \<and> distinct T \<and> F \<le> length T \<and> data_keys s
     \<and> history_ok (db_history (bp_db s))"

lemma touching_unknown: "\<forall>xs \<in> set xss. hX \<notin> set xs \<Longrightarrow> touching hX xss n = []"
  by (induction hX xss n rule: touching.induct) simp_all

lemma length_block_hashXs: "length vss = length txs \<Longrightarrow> length (block_hashXs sha n txs vss) = length txs"
  by (induction sha n txs vss rule: block_hashXs.induct) simp_all

lemma length11_tx_hashXs:
  assumes "\<forall>v \<in> set vs. 11 \<le> length v" and "digest32 sha"
  shows "\<forall>hX \<in> set (tx_hashXs sha n txh vs). length hX = 11"
proof -
  have "length (take 11 v) = 11" if "(op, v) \<in> set (out_entries sha h numb (i, txout))" for op v h numb i txout
  proof -
    from that have "output_indexable (pk_script txout) = Inr True" by (simp add: out_entries_eq split: if_splits)
    then obtain zr where zr: "zero_refs (pk_script txout) = Inr zr" by (auto simp: output_indexable_eq)
    with zero_refs_csh [OF zr, of sha] that assms(2) show ?thesis
      by (auto simp: out_entries_eq length_hashX split: if_splits)
  qed
  then show ?thesis using assms(1) by (auto simp: tx_hashXs_def tx_entries_def)
qed

lemma length11_block_hashXs:
  assumes "\<forall>v \<in> set (concat vss). length v = 56" and "digest32 sha"
  shows "\<forall>hashXs \<in> set (block_hashXs sha n txs vss). \<forall>hX \<in> set hashXs. length hX = 11"
  using assms
proof (induction sha n txs vss rule: block_hashXs.induct)
  case (1 sha n txh txs vs vss)
  have "\<forall>v \<in> set vs. 11 \<le> length v" using 1(2) by auto
  from length11_tx_hashXs [OF this 1(3)] 1 show ?case by simp
qed simp_all

text \<open>The database object after a block: only these parts of it have moved.\<close>

definition db_moved :: "db \<Rightarrow> db \<Rightarrow> bool" where
  "db_moved d d' \<longleftrightarrow> (\<exists>c h tcs rb. d' = d\<lparr>tx_hash_cache := c, db_history := h, tx_counts := tcs, raw_blocks := rb\<rparr>)"

lemma advance_txs_rep:
  assumes "advance_txs sha ov txs s = Inr (s', undo, ref_undo)" and "chain_inv T F s U"
    and "apply_txs sha (length T) txs U = Some (U', vss)" and "\<forall>txh \<in> set txs. tx_ok txh" and "digest32 sha"
    and "distinct (T @ map snd txs)" and "length T + length txs \<le> 2 ^ 40" and "counts_ok T s tcs"
  shows "\<exists>h c. utxo_inv (T @ map snd txs) F s' U' \<and> undo = concat vss
    \<and> bp_db s' = (bp_db s)\<lparr>tx_hash_cache := c, db_history := h, tx_counts := Some (tcs @ [length T + length txs])\<rparr>
    \<and> history_ok h \<and> flush_count h = flush_count (db_history (bp_db s)) \<and> (\<forall>hX. history_of h hX
        = history_of (db_history (bp_db s)) hX @ touching hX (block_hashXs sha (length T) txs vss) (length T))
    \<and> height s' = height s \<and> tip s' = tip s \<and> tx_count s' = int (length T + length txs) \<and> headers s' = headers s
    \<and> tx_hashes s' = tx_hashes s @ [concat (map snd txs)] \<and> undo_infos s' = undo_infos s
    \<and> ref_loc_undo_infos s' = ref_loc_undo_infos s \<and> touched s \<subseteq> touched s' \<and> data_keys s'
    \<and> \<Union> (set ` set (block_hashXs sha (length T) txs vss)) \<subseteq> touched s'
    \<and> (\<forall>v \<in> set (concat vss). length v = 56)"
proof -
  let ?T = "T @ map snd txs" and ?X = "block_hashXs sha (length T) txs vss"
  let ?s0 = "s\<lparr>tx_hashes := tx_hashes s @ [concat (map snd txs)]\<rparr>"
  let ?blk = "\<lparr>undo_info = [], ref_loc_undo = [], analytics_spends = [], analytics_adds = [], hashXs_by_tx = [], mints = {}\<rparr>"
  have inv: "utxo_inv T F s U" "F \<le> length T" "data_keys s" "history_ok (db_history (bp_db s))"
    using assms(2) by (simp_all add: chain_inv_def)
  have n: "tx_count s = int (length T)" "tx_counts (bp_db s) = Some tcs" using assms(8) by (simp_all add: counts_ok_def)
  from assms(1) obtain s1 blk1 m s2 h tcs2 where st:
      "foldM (advance_tx sha ov) (?s0, ?blk, int (length T)) txs = Inr (s1, blk1, m)"
      "only_overlays s1 s2" "add_unflushed (db_history (bp_db s2)) (hashXs_by_tx blk1) (tx_count s2) = Inr h"
      "counts (bp_db s2) = Inr tcs2" "0 \<le> m"
      "s' = s2\<lparr>bp_db := (bp_db s2)\<lparr>db_history := h, tx_counts := Some (tcs2 @ [nat m])\<rparr>, tx_count := m\<rparr>"
      "undo = undo_info blk1"
    unfolding advance_txs_def Let_def by (auto simp: rbind_eq_Inr n(1) split: if_splits dest!: run_analytics_same)
  have "utxo_inv T F ?s0 U" using inv(1) utxo_inv_cong [of ?s0 s T F U] by simp
  then have inv0: "utxo_inv ?T F ?s0 U" using inv(2) by (rule utxo_inv_more)
  have "length ?T \<le> 2 ^ 40" using assms(7) by simp
  from advance_tx_loop [OF st(1) inv0 assms(3-5) refl refl assms(6) utxo_inv_known [OF inv(1)] this]
  have loop: "utxo_inv ?T F s1 U'" "same_block ?s0 s1" "m = int (length ?T)" "undo_info blk1 = concat vss"
    "hashXs_by_tx blk1 = ?X" "\<Union> (set ` set ?X) \<subseteq> touched s1" "\<forall>v \<in> set (concat vss). length v = 56"
    by simp_all
  have su: "same_utxos s1 s2" using only_overlays_utxos [OF st(2)] .
  have sb: "same_block ?s0 s2" using loop(2) su same_block_trans unfolding same_utxos_def by blast
  then obtain c where c: "bp_db s2 = (bp_db s)\<lparr>tx_hash_cache := c\<rparr>" by (auto simp: same_block_def)
  have inv2: "utxo_inv ?T F s2 U'" using loop(1) same_utxos_inv [OF su] by blast
  have tcs2: "tcs2 = tcs" "m = int (length T + length txs)" using st(4) n(2) loop(3) by (simp_all add: c counts_def)
  have nm: "nat m = length T + length txs" unfolding tcs2(2) by (rule nat_int)
  have tc2: "tx_count s2 = int (length T)" using sb n(1) by (simp add: same_block_def)
  have len: "length ?X = length txs" using length_block_hashXs [OF apply_txs_length [OF assms(3)]] .
  have X11: "\<forall>hashXs \<in> set ?X. \<forall>hX \<in> set hashXs. length hX = 11"
    using length11_block_hashXs [OF loop(7) assms(5)] by blast
  have hist: "history_ok h" "flush_count h = flush_count (db_history (bp_db s))" "\<And>hX. history_of h hX = history_of (db_history (bp_db s)) hX @ touching hX ?X (length T)"
    using add_unflushed_spec [OF st(3) [unfolded loop(5) tc2] _ X11] inv(4) len assms(7) by (simp_all add: c)
  have inv': "utxo_inv ?T F s' U'"
  proof -
    from inv2 obtain D R where r: "utxo_rep ?T F s2 D R" "U' = merged D R (map_of (utxo_cache s2))"
      by (auto simp: utxo_inv_def)
    have "sorted (tcs @ [length T + length txs])"
      using counts_ok_le [OF assms(8)] assms(8) by (auto simp: counts_ok_def sorted_append intro: trans_le_add1)
    then have "hash_ok (bp_db s') (take F ?T)"
      using hash_ok_counts [of "(bp_db s2)" F ?T tcs "[length T + length txs]"] utxo_repD(2) [OF r(1)] inv(2) n(2)
      by (simp add: st(6) tcs2(1) nm c hash_ok_def)
    then have "utxo_rep ?T F s' D R" using r(1) by (simp add: utxo_rep_def st(6))
    then show ?thesis using r(2) unfolding utxo_inv_def by (intro exI [of _ D] exI [of _ R]) (simp add: st(6))
  qed
  have "data_keys s2" using sb inv(3) by (simp add: same_block_def data_keys_def)
  then have "data_keys s'" by (simp add: st(6) data_keys_def)
  moreover have "bp_db s' = (bp_db s)\<lparr>tx_hash_cache := c, db_history := h, tx_counts := Some (tcs @ [length T + length txs])\<rparr>"
    by (simp add: st(6) tcs2(1) nm c)
  moreover have "touched s1 \<subseteq> touched s2" using su by (simp add: same_utxos_def same_block_def)
  ultimately show ?thesis
    using inv' hist loop(4,6,7) sb st(6,7) tcs2
    by (intro exI [of _ h] exI [of _ c]) (auto simp: same_block_def)
qed

text \<open>A block that may follow: its transactions are well formed and new, and spend unspent outputs.\<close>

definition block_ok :: "(bytes \<Rightarrow> bytes) \<Rightarrow> bytes list \<Rightarrow> (Tx \<times> bytes) list \<Rightarrow> bool" where
  "block_ok sha T txs \<longleftrightarrow> digest32 sha \<and> (\<forall>txh \<in> set txs. tx_ok txh) \<and> distinct (T @ map snd txs)
     \<and> length T + length txs \<le> 2 ^ 40"

lemma advance_block_rep:
  assumes "advance_block sha H ov cached_height blk s = Inr s'" and "chain_inv T F s U" and "counts_ok T s tcs"
    and "apply_txs sha (length T) (transactions blk) U = Some (U', vss)" and "block_ok sha T (transactions blk)"
  shows "\<exists>h c rb ru. chain_inv (T @ map snd (transactions blk)) F s' U'
    \<and> bp_db s' = (bp_db s)\<lparr>tx_hash_cache := c, db_history := h,
        tx_counts := Some (tcs @ [length T + length (transactions blk)]), raw_blocks := rb\<rparr>
    \<and> counts_ok (T @ map snd (transactions blk)) s' (tcs @ [length T + length (transactions blk)])
    \<and> (\<forall>hX. history_of h hX = history_of (db_history (bp_db s)) hX
        @ touching hX (block_hashXs sha (length T) (transactions blk) vss) (length T))
    \<and> height s' = height s + 1 \<and> tip s' = H (header blk) \<and> headers s' = headers s @ [header blk]
    \<and> tx_hashes s' = tx_hashes s @ [concat (map snd (transactions blk))]
    \<and> (min_undo_height (bp_db s) cached_height \<le> height s + 1 \<longrightarrow>
        undo_infos s' = undo_infos s @ [(concat vss, height s + 1)]
        \<and> ref_loc_undo_infos s' = ref_loc_undo_infos s @ [(ru, height s + 1)])
    \<and> touched s \<subseteq> touched s'
    \<and> \<Union> (set ` set (block_hashXs sha (length T) (transactions blk) vss)) \<subseteq> touched s'
    \<and> (\<forall>v \<in> set (concat vss). length v = 56) \<and> flush_count h = flush_count (db_history (bp_db s))
    \<and> (min_undo_height (bp_db s) cached_height \<le> height s + 1 \<longrightarrow>
        rb = raw_blocks (write_raw_block (bp_db s) (raw blk) (height s + 1)))"
proof -
  let ?txs = "transactions blk" and ?T = "T @ map snd (transactions blk)"
  have bo: "digest32 sha" "\<forall>txh \<in> set ?txs. tx_ok txh" "distinct ?T" "length T + length ?txs \<le> 2 ^ 40"
    using assms(5) by (simp_all add: block_ok_def)
  from assms(1) obtain s1 undo ref_undo where st: "advance_txs sha ov ?txs s = Inr (s1, undo, ref_undo)"
      "s' = (if min_undo_height (bp_db s) cached_height \<le> height s + 1
             then s1\<lparr>undo_infos := undo_infos s1 @ [(undo, height s + 1)],
                     ref_loc_undo_infos := ref_loc_undo_infos s1 @ [(ref_undo, height s + 1)],
                     bp_db := write_raw_block (bp_db s1) (raw blk) (height s + 1)\<rparr>
             else s1)\<lparr>height := height s + 1, headers := headers s1 @ [header blk], tip := H (header blk)\<rparr>"
    by (auto simp: advance_block_def rbind_eq_Inr Let_def split: if_splits)
  obtain h c where r: "utxo_inv ?T F s1 U'" "undo = concat vss"
      "bp_db s1 = (bp_db s)\<lparr>tx_hash_cache := c, db_history := h, tx_counts := Some (tcs @ [length T + length ?txs])\<rparr>"
      "history_ok h" "\<forall>hX. history_of h hX
          = history_of (db_history (bp_db s)) hX @ touching hX (block_hashXs sha (length T) ?txs vss) (length T)"
      "height s1 = height s" "tx_count s1 = int (length T + length ?txs)" "headers s1 = headers s"
      "tx_hashes s1 = tx_hashes s @ [concat (map snd ?txs)]" "undo_infos s1 = undo_infos s"
      "ref_loc_undo_infos s1 = ref_loc_undo_infos s" "touched s \<subseteq> touched s1" "data_keys s1"
      "\<Union> (set ` set (block_hashXs sha (length T) ?txs vss)) \<subseteq> touched s1" "\<forall>v \<in> set (concat vss). length v = 56"
      "flush_count h = flush_count (db_history (bp_db s))"
    using advance_txs_rep [OF st(1) assms(2,4) bo(2,1,3,4) assms(3)] by blast
  define rb where "rb = (if min_undo_height (bp_db s) cached_height \<le> height s + 1
      then raw_blocks (write_raw_block (bp_db s1) (raw blk) (height s + 1)) else raw_blocks (bp_db s1))"
  have db: "bp_db s' = (bp_db s1)\<lparr>raw_blocks := rb\<rparr>" by (simp add: st(2) rb_def write_raw_block_def)
  have keep: "utxo_cache s' = utxo_cache s1" "db_deletes s' = db_deletes s1" "data_cache s' = data_cache s1"
    "tx_count s' = tx_count s1" "touched s' = touched s1" "tx_hashes s' = tx_hashes s1"
    by (simp_all add: st(2))
  have inv': "utxo_inv ?T F s' U'"
  proof -
    from r(1) obtain D R where u: "utxo_rep ?T F s1 D R" "U' = merged D R (map_of (utxo_cache s1))"
      by (auto simp: utxo_inv_def)
    then have "utxo_rep ?T F s' D R" by (simp add: utxo_rep_def keep db)
    then show ?thesis using u(2) unfolding utxo_inv_def by (intro exI [of _ D] exI [of _ R]) (simp add: keep)
  qed
  have ht: "height s' = height s + 1" by (simp add: st(2))
  have tc: "counts_ok ?T s' (tcs @ [length T + length ?txs])"
    using counts_ok_le [OF assms(3)] assms(3) r(7)
    by (auto simp: counts_ok_def keep db r(3) ht sorted_append intro: trans_le_add1)
  have "F \<le> length T" using assms(2) by (simp add: chain_inv_def)
  then have "chain_inv ?T F s' U'"
    using inv' tc bo(3) r(4,13) unfolding chain_inv_def
    by (intro conjI exI [of _ "tcs @ [length T + length ?txs]"]) (simp_all add: data_keys_def keep db r(3))
  moreover have "min_undo_height (bp_db s) cached_height \<le> height s + 1 \<longrightarrow>
        undo_infos s' = undo_infos s @ [(concat vss, height s + 1)]
        \<and> ref_loc_undo_infos s' = ref_loc_undo_infos s @ [(ref_undo, height s + 1)]"
    by (simp add: st(2) r)
  moreover have "bp_db s' = (bp_db s)\<lparr>tx_hash_cache := c, db_history := h,
        tx_counts := Some (tcs @ [length T + length ?txs]), raw_blocks := rb\<rparr>"
    by (simp add: db r(3))
  moreover have "height s' = height s + 1" "tip s' = H (header blk)" "headers s' = headers s @ [header blk]"
    using r(8) by (simp_all add: st(2))
  moreover have "min_undo_height (bp_db s) cached_height \<le> height s + 1 \<longrightarrow>
        rb = raw_blocks (write_raw_block (bp_db s) (raw blk) (height s + 1))"
    by (simp add: rb_def write_raw_block_def min_undo_height_def r(3))
  ultimately show ?thesis using tc r(5,9,12,14-16) keep(5,6)
    by (intro exI [of _ h] exI [of _ c] exI [of _ rb] exI [of _ ref_undo]) simp
qed

end
