(* ===== verification/Flushing.thy ===== *)
theory Flushing
  imports Advance
begin

text \<open>
  Flushing: the UTXO set in memory becomes the one on disk, the undo entries of the block are
  written, and every transaction number finds its hash in the files.
\<close>

section \<open>The batch of a flush\<close>

text \<open>Operations of the indexes that leave the core's tables alone: they never write a UTXO row or
  an undo entry, and do not delete the reference undo entry of the given height.\<close>

definition core_safe :: "int \<Rightarrow> batch_op list \<Rightarrow> bool" where
  "core_safe ht ops \<longleftrightarrow> (\<forall>op \<in> set ops. \<not> utxo_key (op_key op) \<and> (\<forall>r. op_key op \<noteq> 85 # r))
     \<and> Delete (82 # 85 # be_enc 4 (nat ht)) \<notin> set ops"

text \<open>What the indexes can see of the database when their flush or backup is called: the store as it was
  before the batch, the height the batch brings or undoes, and the settings.\<close>

definition index_view :: "db \<Rightarrow> int \<Rightarrow> db \<Rightarrow> bool" where
  "index_view d0 ht d \<longleftrightarrow> utxo_db d = utxo_db d0 \<and> db_height d = ht \<and> reorg_limit d = reorg_limit d0 \<and> coin_of d = coin_of d0"

text \<open>Flushing the indexes in this state does not raise and what they flush leaves the core's tables alone.\<close>

definition safe_flush :: "('o, 'e) overlays \<Rightarrow> 'o bp \<Rightarrow> bool" where
  "safe_flush ov s \<longleftrightarrow> (\<forall>d. index_view (bp_db s) (height s) d \<longrightarrow>
     (\<exists>ops o'. index_flush ov d (overlay_state s) = Inr (ops, o') \<and> core_safe (height s) ops))"

lemma safe_flushD: "safe_flush ov s \<Longrightarrow> index_view (bp_db s) (height s) d \<Longrightarrow>
    index_flush ov d (overlay_state s) = Inr (ops, o') \<Longrightarrow> core_safe (height s) ops"
  unfolding safe_flush_def by (metis Inr_inject prod.inject)

lemma fold_op_append: "fold op_map (xs @ ys) m = fold op_map ys (fold op_map xs m)"
  by simp

definition other_ops :: "flush_data \<Rightarrow> batch_op list \<Rightarrow> batch_op list \<Rightarrow> batch_op list" where
  "other_ops f undos ref_undos = table_puts [114, 105] (fd_ref_adds f) @ table_puts [114, 109] (fd_ref_mints f)
     @ table_puts [114, 108] (fd_ref_locs f) @ table_puts [] (fd_data_adds f) @ undos @ ref_undos"

lemma undo_ops_keys:
  "flush_undo_infos infos = Inr ops \<Longrightarrow> op \<in> set ops \<Longrightarrow> \<exists>r v. op = Put (85 # r) v"
  by (induction infos arbitrary: ops)
    (auto simp: flush_undo_infos_def undo_key_def rbind_eq_Inr)

lemma ref_undo_ops_keys:
  "flush_ref_loc_undo_infos infos = Inr ops \<Longrightarrow> op \<in> set ops \<Longrightarrow> \<exists>r v. op = Put (82 # 85 # r) v"
  by (induction infos arbitrary: ops)
    (auto simp: flush_ref_loc_undo_infos_def ref_loc_undo_key_def rbind_eq_Inr)

lemma table_puts_keys: "op \<in> set (table_puts p d) \<Longrightarrow> \<exists>k \<in> set (dict_keys d). \<exists>v. op = Put (p @ k) v"
  by (force simp: table_puts_def dict_keys_def)

lemma other_ops_keys:
  assumes "op \<in> set (other_ops f undos ref_undos)"
    and "flush_undo_infos ui = Inr undos" and "flush_ref_loc_undo_infos ri = Inr ref_undos"
    and "\<forall>k \<in> set (dict_keys (fd_data_adds f)). \<exists>r. k = 114 # 98 # r"
  shows "\<exists>r v. op = Put (114 # r) v \<or> op = Put (85 # r) v \<or> op = Put (82 # 85 # r) v"
proof -
  from assms(1) consider "op \<in> set (table_puts [114, 105] (fd_ref_adds f))"
    | "op \<in> set (table_puts [114, 109] (fd_ref_mints f))" | "op \<in> set (table_puts [114, 108] (fd_ref_locs f))"
    | "op \<in> set (table_puts [] (fd_data_adds f))" | "op \<in> set undos" | "op \<in> set ref_undos"
    by (auto simp: other_ops_def)
  then show ?thesis
  proof cases
    case 4
    with assms(4) table_puts_keys [OF 4] show ?thesis by force
  next
    case 5
    with undo_ops_keys [OF assms(2)] show ?thesis by blast
  next
    case 6
    with ref_undo_ops_keys [OF assms(3)] show ?thesis by blast
  qed (auto dest!: table_puts_keys)
qed

lemma flush_utxo_db_eq:
  assumes "flush_utxo_db d f = Inr (ops, d', f')"
  shows "\<exists>undos ref_undos. flush_undo_infos (fd_undo_infos f) = Inr undos
    \<and> flush_ref_loc_undo_infos (fd_ref_loc_undo_infos f) = Inr ref_undos
    \<and> ops = map Delete (sort (fd_deletes f)) @ utxo_puts (fd_adds f) @ other_ops f undos ref_undos
    \<and> d' = d\<lparr>utxo_flush_count := flush_count (db_history d), db_height := fd_height f,
              db_tx_count := fd_tx_count f, db_tip := fd_tip f\<rparr>
    \<and> f' = f\<lparr>fd_deletes := [], fd_adds := [], fd_ref_adds := [], fd_ref_mints := [], fd_ref_locs := [],
              fd_data_adds := [], fd_undo_infos := [], fd_ref_loc_undo_infos := []\<rparr>"
  using assms unfolding flush_utxo_db_def other_ops_def rbind_eq_Inr by (elim exE conjE) auto

text \<open>What the batch does to a UTXO row.\<close>

lemma utxo_rows_after:
  assumes "\<And>op. op \<in> set rest \<Longrightarrow> \<not> utxo_key (op_key op)" and "utxo_key k"
  shows "fold op_map (map Delete (sort dels) @ utxo_puts adds @ rest) m k
    = (m |` (- set dels) ++ map_of (rev (concat (map utxo_rows adds)))) k"
proof -
  have "k \<notin> op_key ` set rest" using assms by auto
  then have "fold op_map rest (fold op_map (utxo_puts adds) (fold op_map (map Delete (sort dels)) m)) k
      = fold op_map (utxo_puts adds) (fold op_map (map Delete (sort dels)) m) k"
    by (rule fold_op_other)
  then show ?thesis by (simp only: fold_op_append fold_deletes utxo_puts_rows fold_puts set_sort)
qed

lemma flush_rep:
  assumes "utxo_inv T F s U" and "flush_utxo_db d (flush_data_of s) = Inr (ops, d', f')"
    and "data_keys s" and "\<And>op. op \<in> set index_ops \<Longrightarrow> \<not> utxo_key (op_key op)"
    and "kv = apply_batch (ops @ index_ops) (utxo_db (bp_db s)) \<or> kv = apply_batch (index_ops @ ops) (utxo_db (bp_db s))"
    and "\<And>op val. U op = Some val \<Longrightarrow> entry_ok T' op val"
  shows "disk_rep T' kv U"
proof -
  from assms(1) obtain D R where rep: "utxo_rep T F s D R" and U: "U = merged D R (map_of (utxo_cache s))"
    by (auto simp: utxo_inv_def)
  note r = utxo_repD [OF rep]
  from flush_utxo_db_eq [OF assms(2)] obtain undos ref_undos where f:
      "flush_undo_infos (undo_infos s) = Inr undos" "flush_ref_loc_undo_infos (ref_loc_undo_infos s) = Inr ref_undos"
      "ops = map Delete (sort (db_deletes s)) @ utxo_puts (utxo_cache s) @ other_ops (flush_data_of s) undos ref_undos"
    by (auto simp: flush_data_of_def)
  have other: "\<not> utxo_key (op_key op)" if "op \<in> set (other_ops (flush_data_of s) undos ref_undos)" for op
    using other_ops_keys [OF that f(1,2)] assms(3) by (auto simp: flush_data_of_def data_keys_def)
  have ok: "kv_ok (utxo_db (bp_db s))" using disk_repD(1) [OF r(1)] .
  let ?rows = "kv_get (utxo_db (bp_db s)) |` (- set (db_deletes s)) ++ map_of (rev (concat (map utxo_rows (utxo_cache s))))"
  have get: "kv_get kv k = ?rows k" if "utxo_key k" for k
  proof -
    from assms(5) show ?thesis
    proof
      assume kv: "kv = apply_batch (ops @ index_ops) (utxo_db (bp_db s))"
      have "ops @ index_ops = map Delete (sort (db_deletes s)) @ utxo_puts (utxo_cache s)
          @ (other_ops (flush_data_of s) undos ref_undos @ index_ops)" by (simp add: f(3))
      then show ?thesis unfolding kv kv_get_apply_batch [OF ok]
        using utxo_rows_after [OF _ that] other assms(4) by (metis Un_iff set_append)
    next
      assume kv: "kv = apply_batch (index_ops @ ops) (utxo_db (bp_db s))"
      have "k \<notin> op_key ` set index_ops" using assms(4) that by auto
      then have "fold op_map index_ops (kv_get (utxo_db (bp_db s))) k = kv_get (utxo_db (bp_db s)) k" by (rule fold_op_other)
      then have "fold op_map ops (fold op_map index_ops (kv_get (utxo_db (bp_db s)))) k
          = fold op_map ops (kv_get (utxo_db (bp_db s))) k" by (rule fold_op_cong)
      then show ?thesis unfolding kv kv_get_apply_batch [OF ok] fold_op_append f(3)
        using utxo_rows_after [OF other that] by simp
    qed
  qed
  show ?thesis unfolding U
  proof (rule disk_rep_flush [OF r(1) r(3) r(4) _ r(5) r(6) r(7)])
    show "kv_ok kv" using assms(5) ok by auto
    show "entry_ok T op val" if "D op = Some val" for op val
      using entry_ok_take disk_repD(2) [OF r(1) that] by blast
    show "kv_get kv k = ?rows k" if "utxo_key k" for k using get [OF that] .
    show "entry_ok T' op val" if "merged D R (map_of (utxo_cache s)) op = Some val" for op val
      using assms(6) that U by simp
  qed
qed

section \<open>The hash file\<close>

definition hashes_stored :: "logical_file \<Rightarrow> bytes list \<Rightarrow> bool" where
  "hashes_stored f T \<longleftrightarrow> (\<forall>h \<in> set T. length h = 32)
     \<and> (\<exists>c. lf_rep f c \<and> length T * 32 \<le> length c \<and> take (length T * 32) c = concat T)"

lemma length_concat32: "\<forall>h \<in> set T. length h = 32 \<Longrightarrow> length (concat T) = length T * 32"
  by (induction T) simp_all

lemma slice_concat32: "\<forall>h \<in> set T. length h = 32 \<Longrightarrow> n < length T \<Longrightarrow> slice (n * 32) (n * 32 + 32) (concat T) = T ! n"
proof (induction T arbitrary: n)
  case (Cons h T)
  then show ?case by (cases n) (simp_all add: slice_append_left slice_append_right slice_def)
qed simp

lemma hashes_stored_read:
  assumes "hashes_stored f T" and "n < length T"
  shows "lf_read f (n * 32) (Some 32) = T ! n"
proof -
  from assms(1) obtain c where c: "\<forall>h \<in> set T. length h = 32" "lf_rep f c" "take (length T * 32) c = concat T"
    by (auto simp: hashes_stored_def)
  have "slice (n * 32) (n * 32 + 32) c = slice (n * 32) (n * 32 + 32) (take (length T * 32) c)"
    using assms(2) by (simp add: slice_alt min_def)
  also have "\<dots> = T ! n" unfolding c(3) by (rule slice_concat32 [OF c(1) assms(2)])
  finally show ?thesis unfolding lf_read_rep [OF c(2)] .
qed

lemma hashes_stored_write:
  assumes "hashes_stored f T" and "\<forall>h \<in> set new. length h = 32"
  shows "hashes_stored (lf_write f (length T * 32) (concat new)) (T @ new)"
proof -
  from assms(1) obtain c where c: "\<forall>h \<in> set T. length h = 32" "lf_rep f c" "length T * 32 \<le> length c"
      "take (length T * 32) c = concat T"
    by (auto simp: hashes_stored_def)
  let ?c = "overwrite c (length T * 32) (concat new)"
  have "lf_rep (lf_write f (length T * 32) (concat new)) ?c" by (rule lf_write_rep [OF c(2,3)])
  moreover have "length (concat new) = length new * 32" using length_concat32 [OF assms(2)] .
  moreover have "length (concat T) = length T * 32" using length_concat32 [OF c(1)] .
  ultimately show ?thesis unfolding hashes_stored_def
    using assms(2) c(1,3,4) by (intro conjI exI [of _ ?c]) (auto simp: overwrite_def add_mult_distrib)
qed

section \<open>A flushed state\<close>

text \<open>Everything is on disk and the transaction number cache holds nothing beyond it.\<close>

definition flushed :: "bytes list \<Rightarrow> 'o bp \<Rightarrow> utxo_map \<Rightarrow> nat list \<Rightarrow> bool" where
  "flushed T s U tcs \<longleftrightarrow> chain_inv T (length T) s U \<and> counts_ok T s tcs
     \<and> headers s = [] \<and> tx_hashes s = [] \<and> undo_infos s = [] \<and> ref_loc_undo_infos s = []
     \<and> utxo_cache s = [] \<and> ref_cache s = [] \<and> ref_mint_cache s = [] \<and> ref_loc_cache s = [] \<and> data_cache s = []
     \<and> db_deletes s = [] \<and> unflushed (db_history (bp_db s)) = []
     \<and> fs_height (bp_db s) = height s \<and> db_height (bp_db s) = height s
     \<and> fs_tx_count (bp_db s) = tx_count s \<and> db_tx_count (bp_db s) = tx_count s \<and> db_tip (bp_db s) = tip s
     \<and> hashes_stored (hashes_file (bp_db s)) T \<and> -1 \<le> height s"

lemma flushed_assert: "flushed T s U tcs \<Longrightarrow> db_assert_flushed (bp_db s) (flush_data_of s) = Inr ()"
  by (simp add: flushed_def db_assert_flushed_def py_assert_def flush_data_of_def assert_flushed_def)

lemma merged_empty [simp]: "merged D {} Map.empty = D"
  by (simp add: merged_def restrict_map_def)

lemma row_keys_empty:
  assumes "row_keys D R = {}" and "R \<subseteq> dom D"
  shows "R = {}"
proof (rule ccontr)
  assume "R \<noteq> {}"
  then obtain op val where "op \<in> R" "D op = Some val" using assms(2) by blast
  then have "fst (h_row op val) \<in> row_keys D R" by (auto simp: row_keys_def)
  with assms(1) show False by simp
qed

text \<open>The map of a flushed state is the one on disk.\<close>

lemma flushed_disk:
  assumes "flushed T s U tcs"
  shows "disk_rep T (utxo_db (bp_db s)) U" "hash_ok (bp_db s) T"
proof -
  from assms obtain D R where r: "utxo_rep T (length T) s D R" and U: "U = merged D R (map_of (utxo_cache s))"
      and e: "utxo_cache s = []" "db_deletes s = []"
    by (auto simp: flushed_def chain_inv_def utxo_inv_def)
  have "row_keys D R = {}" using utxo_repD(7) [OF r] e(2) by simp
  moreover have "R \<subseteq> dom D" using utxo_repD(5) [OF r] .
  ultimately have "R = {}" by (rule row_keys_empty)
  then have "U = D" using U e(1) by simp
  then show "disk_rep T (utxo_db (bp_db s)) U" using utxo_repD(1) [OF r] by simp
  show "hash_ok (bp_db s) T" using utxo_repD(2) [OF r] by simp
qed

lemma utxo_inv_disk:
  assumes "disk_rep T (utxo_db (bp_db s)) U" and "hash_ok (bp_db s) T" and "utxo_cache s = []" and "db_deletes s = []"
  shows "utxo_inv T (length T) s U"
  using assms unfolding utxo_inv_def
  by (intro exI [of _ U] exI [of _ "{}"]) (simp add: utxo_rep_def row_keys_def)

lemma hash_ok_cached: "hash_ok d T \<Longrightarrow> n < length T \<Longrightarrow> tx_hash_cache d n = Some r \<Longrightarrow> fst r = Some (T ! n)"
  unfolding hash_ok_def by blast

text \<open>The counts and the hash file give every flushed number its hash.\<close>

lemma hash_okI:
  assumes "tx_counts d = Some tcs" and "sorted tcs" and "(if tcs = [] then 0 else last tcs) = length T"
    and "int (length tcs) = db_height d + 1"
    and "hashes_stored (hashes_file d) T"
    and "\<And>n r. n < length T \<Longrightarrow> tx_hash_cache d n = Some r \<Longrightarrow> fst r = Some (T ! n)"
    and "\<And>n. length T \<le> n \<Longrightarrow> tx_hash_cache d n = None"
  shows "hash_ok d T"
proof -
  have "int (bisect_right tcs n) \<le> db_height d" if "n < length T" for n
  proof -
    from that assms(3) have ne: "tcs \<noteq> []" and l: "last tcs = length T" by (auto split: if_splits)
    have "filter (\<lambda>y. y \<le> n) (butlast tcs @ [last tcs]) = filter (\<lambda>y. y \<le> n) (butlast tcs)"
      using that l by simp
    then have "filter (\<lambda>y. y \<le> n) tcs = filter (\<lambda>y. y \<le> n) (butlast tcs)" using ne by simp
    then have "length (filter (\<lambda>y. y \<le> n) tcs) \<le> length tcs - 1"
      using length_filter_le [of "\<lambda>y. y \<le> n" "butlast tcs"] by simp
    then show ?thesis using bisect_right_filter [OF assms(2)] assms(4) ne by (cases tcs) auto
  qed
  with assms(1,6,7) hashes_stored_read [OF assms(5)] show ?thesis by (auto simp: hash_ok_def)
qed

section \<open>Flushing\<close>

lemma py_assert_Inr: "py_assert c r = Inr x \<longleftrightarrow> c \<and> r = Inr x"
  by (simp add: py_assert_def)

lemma flush_fs_eq:
  assumes "flush_fs d f = Inr (d', f')" and "tx_counts d = Some tcs"
  shows "\<exists>prior. (if fs_height d \<ge> 0 then py_index tcs (fs_height d) else Inr 0) = Inr prior
    \<and> fd_height f = fs_height d + int (length (fd_headers f))
    \<and> f' = f\<lparr>fd_headers := [], fd_block_tx_hashes := []\<rparr>
    \<and> (\<exists>hf cf. d' = d\<lparr>headers_file := hf, tx_counts_file := cf,
         hashes_file := lf_write (hashes_file d) (prior * 32) (concat (fd_block_tx_hashes f)),
         fs_height := fd_height f, fs_tx_count := fd_tx_count f\<rparr>)"
proof -
  let ?P = "if fs_height d \<ge> 0 then py_index tcs (fs_height d) else Inr 0"
  from assms obtain prior where p: "?P = Inr prior"
    by (cases ?P) (simp_all add: flush_fs_def counts_def)
  from assms have "d' = d\<lparr>headers_file := lf_write (headers_file d) (nat (fs_height d + 1) * 80) (concat (fd_headers f)),
      tx_counts_file := lf_write (tx_counts_file d) (nat (fs_height d + 1) * 8) (tobytes (drop (nat (fs_height d + 1)) tcs)),
      hashes_file := lf_write (hashes_file d) (prior * 32) (concat (fd_block_tx_hashes f)),
      fs_height := fd_height f, fs_tx_count := fd_tx_count f\<rparr>
    \<and> fd_height f = fs_height d + int (length (fd_headers f)) \<and> f' = f\<lparr>fd_headers := [], fd_block_tx_hashes := []\<rparr>"
    by (clarsimp simp: flush_fs_def counts_def p py_assert_Inr Let_def)
  with p show ?thesis by blast
qed

lemma flush_dbs_eq:
  assumes "flush_dbs now now ixf f True d = Inr (d', f', ox)" and "fd_height f \<noteq> db_height d"
  shows "\<exists>d1 f1 h bops d2 ops o'. flush_fs d f = Inr (d1, f1) \<and> flush (db_history d1) = Inr h
    \<and> flush_utxo_db (d1\<lparr>db_history := h\<rparr>) f1 = Inr (bops, d2, f') \<and> ixf d2 = Inr (ops, o') \<and> ox = Some o'
    \<and> d' = flush_state now ((flush_state now d2)\<lparr>utxo_db := apply_batch (bops @ ops) (utxo_db d2)\<rparr>)"
  using assms unfolding flush_dbs_def by (auto simp: rbind_eq_Inr Let_def flush_state_def write_utxo_state_def)

text \<open>What \<open>flush_state\<close> leaves alone.\<close>

lemma flush_state_simps [simp]:
  "utxo_db (flush_state now d) = utxo_db d" "db_history (flush_state now d) = db_history d"
  "tx_counts (flush_state now d) = tx_counts d" "hashes_file (flush_state now d) = hashes_file d"
  "headers_file (flush_state now d) = headers_file d" "header_mc (flush_state now d) = header_mc d"
  "fs_height (flush_state now d) = fs_height d" "fs_tx_count (flush_state now d) = fs_tx_count d"
  "db_height (flush_state now d) = db_height d" "db_tx_count (flush_state now d) = db_tx_count d"
  "db_tip (flush_state now d) = db_tip d" "tx_hash_cache (flush_state now d) = tx_hash_cache d"
  "raw_blocks (flush_state now d) = raw_blocks d"
  by (simp_all add: flush_state_def write_utxo_state_def)

lemma invalidate_simps [simp]:
  "utxo_db (invalidate_balance_cache d X) = utxo_db d" "db_history (invalidate_balance_cache d X) = db_history d"
  "tx_counts (invalidate_balance_cache d X) = tx_counts d" "hashes_file (invalidate_balance_cache d X) = hashes_file d"
  "header_mc (invalidate_balance_cache d X) = header_mc d"
  "fs_height (invalidate_balance_cache d X) = fs_height d" "fs_tx_count (invalidate_balance_cache d X) = fs_tx_count d"
  "db_height (invalidate_balance_cache d X) = db_height d" "db_tx_count (invalidate_balance_cache d X) = db_tx_count d"
  "db_tip (invalidate_balance_cache d X) = db_tip d" "tx_hash_cache (invalidate_balance_cache d X) = tx_hash_cache d"
  "raw_blocks (invalidate_balance_cache d X) = raw_blocks d"
  by (simp_all add: invalidate_balance_cache_def)

text \<open>What a state ahead of the database needs to be flushed correctly.\<close>

definition pending :: "bytes list \<Rightarrow> nat \<Rightarrow> 'o bp \<Rightarrow> utxo_map \<Rightarrow> nat list \<Rightarrow> bool" where
  "pending T F s U tcs \<longleftrightarrow> chain_inv T F s U \<and> counts_ok T s tcs \<and> (\<forall>h \<in> set T. length h = 32)
     \<and> fs_height (bp_db s) = db_height (bp_db s) \<and> db_height (bp_db s) < height s \<and> -1 \<le> db_height (bp_db s)
     \<and> (if 0 \<le> db_height (bp_db s) then tcs ! nat (db_height (bp_db s)) = F else F = 0)
     \<and> hashes_stored (hashes_file (bp_db s)) (take F T) \<and> concat (tx_hashes s) = concat (drop F T)"

text \<open>The undo entries a flushed batch contains.\<close>

lemma undo_written:
  assumes "flush_utxo_db d (flush_data_of s) = Inr (ops, d', f')"
    and "undo_infos s = [(u, ht)]" and "ref_loc_undo_infos s = [(ru, ht)]" and "data_keys s"
    and "core_safe ht index_ops" and "kv_ok kv"
  shows "read_undo_info (d\<lparr>utxo_db := apply_batch (ops @ index_ops) kv\<rparr>) ht = Inr (Some (concat u))
    \<and> (\<exists>v. read_ref_loc_undo_info (d\<lparr>utxo_db := apply_batch (ops @ index_ops) kv\<rparr>) ht = Inr (Some v))"
proof -
  from flush_utxo_db_eq [OF assms(1)] obtain undos ref_undos where f:
      "flush_undo_infos (undo_infos s) = Inr undos" "flush_ref_loc_undo_infos (ref_loc_undo_infos s) = Inr ref_undos"
      "ops = map Delete (sort (db_deletes s)) @ utxo_puts (utxo_cache s) @ other_ops (flush_data_of s) undos ref_undos"
    by (auto simp: flush_data_of_def)
  from f(1) assms(2) obtain b where b: "pack_be_uint32 ht = Inr b" "undos = [Put (85 # b) (concat u)]"
    by (auto simp: flush_undo_infos_def undo_key_def rbind_eq_Inr)
  from f(2) assms(3) b(1) have ref_undos: "ref_undos = [Put (82 # 85 # b) (concat ru)]"
    by (auto simp: flush_ref_loc_undo_infos_def ref_loc_undo_key_def)
  have bb: "b = be_enc 4 (nat ht)" using b(1) by (simp add: pack_be_uint32_Inr)
  define pre where "pre = map Delete (sort (db_deletes s)) @ utxo_puts (utxo_cache s)
      @ table_puts [114, 105] (ref_cache s) @ table_puts [114, 109] (ref_mint_cache s)
      @ table_puts [114, 108] (ref_loc_cache s) @ table_puts [] (data_cache s)"
  have ops: "ops = pre @ [Put (85 # b) (concat u), Put (82 # 85 # b) (concat ru)]"
    by (simp add: f(3) pre_def other_ops_def flush_data_of_def b(2) ref_undos)
  have get: "kv_get (apply_batch (ops @ index_ops) kv) k
      = fold op_map index_ops ((fold op_map pre (kv_get kv))(85 # b \<mapsto> concat u, 82 # 85 # b \<mapsto> concat ru)) k" for k
    unfolding kv_get_apply_batch [OF assms(6)] by (simp add: ops)
  have "85 # b \<notin> op_key ` set index_ops" using assms(5) unfolding core_safe_def by (metis imageE)
  then have U: "kv_get (apply_batch (ops @ index_ops) kv) (85 # b) = Some (concat u)"
    unfolding get by (simp add: fold_op_other)
  have keep: "fold op_map xs m k \<noteq> None" if "m k \<noteq> None" "Delete k \<notin> set xs" for xs m k
    using that
  proof (induction xs arbitrary: m)
    case (Cons x xs)
    have "op_map x m k \<noteq> None" using Cons.prems by (cases x) auto
    with Cons show ?case by simp
  qed simp
  have "kv_get (apply_batch (ops @ index_ops) kv) (82 # 85 # b) \<noteq> None"
    unfolding get using assms(5) by (intro keep) (auto simp: core_safe_def bb)
  with U b(1) show ?thesis
    by (auto simp: read_undo_info_def undo_key_def read_ref_loc_undo_info_def ref_loc_undo_key_def)
qed

lemma flush_unflushed: "flush h = Inr h' \<Longrightarrow> unflushed h' = []"
  by (rule flush_eq)

lemma bp_flush_rep:
  assumes "bp_flush ov now True s = Inr s'" and "pending T F s U tcs"
    and "safe_flush ov s"
  shows "flushed T s' U tcs \<and> height s' = height s \<and> tip s' = tip s \<and> touched s' = touched s
    \<and> raw_blocks (bp_db s') = raw_blocks (bp_db s)
    \<and> (\<forall>hX. length hX = 11 \<longrightarrow> history_of (db_history (bp_db s')) hX = history_of (db_history (bp_db s)) hX)
    \<and> (\<forall>u ru ht. ht = height s \<and> undo_infos s = [(u, ht)] \<and> ref_loc_undo_infos s = [(ru, ht)] \<longrightarrow>
        read_undo_info (bp_db s') ht = Inr (Some (concat u)) \<and> (\<exists>v. read_ref_loc_undo_info (bp_db s') ht = Inr (Some v)))"
proof -
  let ?d = "bp_db s" and ?f = "flush_data_of s"
  have p: "chain_inv T F s U" "counts_ok T s tcs" "\<forall>h \<in> set T. length h = 32" "fs_height ?d = db_height ?d"
    "db_height ?d < height s" "-1 \<le> db_height ?d" "if 0 \<le> db_height ?d then tcs ! nat (db_height ?d) = F else F = 0"
    "hashes_stored (hashes_file ?d) (take F T)" "concat (tx_hashes s) = concat (drop F T)"
    using assms(2) by (simp_all add: pending_def)
  have ci: "utxo_inv T F s U" "distinct T" "F \<le> length T" "data_keys s" "history_ok (db_history ?d)"
    using p(1) by (simp_all add: chain_inv_def)
  have co: "tx_counts ?d = Some tcs" "sorted tcs" "int (length tcs) = height s + 1" "tx_count s = int (length T)"
    "(if tcs = [] then 0 else last tcs) = length T"
    using p(2) by (simp_all add: counts_ok_def)
  from assms(1) obtain d' f' ox where
      fl: "flush_dbs now now (\<lambda>d. index_flush ov d (overlay_state s)) ?f True ?d = Inr (d', f', ox)"
      and s': "s' = (let t = after_flush s (d', f');
            t = (case ox of None \<Rightarrow> t | Some o' \<Rightarrow> t\<lparr>overlay_state := o'\<rparr>);
            t = (if touched t \<noteq> {} then t\<lparr>bp_db := invalidate_balance_cache (bp_db t) (touched t)\<rparr> else t)
        in t\<lparr>next_cache_check := now + 30\<rparr>)"
    by (auto simp: bp_flush_def rbind_eq_Inr Let_def)
  have ne: "fd_height ?f \<noteq> db_height ?d" using p(5) by (simp add: flush_data_of_def)
  from flush_dbs_eq [OF fl ne] obtain d1 f1 h bops d2 iops o' where st:
      "flush_fs ?d ?f = Inr (d1, f1)" "flush (db_history d1) = Inr h"
      "flush_utxo_db (d1\<lparr>db_history := h\<rparr>) f1 = Inr (bops, d2, f')"
      "d' = flush_state now ((flush_state now d2)\<lparr>utxo_db := apply_batch (bops @ iops) (utxo_db d2)\<rparr>)"
      and io: "index_flush ov d2 (overlay_state s) = Inr (iops, o')" and ox: "ox = Some o'"
    by blast
  from flush_fs_eq [OF st(1) co(1)] obtain prior hf cf where fs:
      "(if fs_height ?d \<ge> 0 then py_index tcs (fs_height ?d) else Inr 0) = Inr prior"
      "f1 = ?f\<lparr>fd_headers := [], fd_block_tx_hashes := []\<rparr>"
      "d1 = ?d\<lparr>headers_file := hf, tx_counts_file := cf,
         hashes_file := lf_write (hashes_file ?d) (prior * 32) (concat (tx_hashes s)),
         fs_height := height s, fs_tx_count := tx_count s\<rparr>"
    by (auto simp: flush_data_of_def)
  have "prior = F"
  proof (cases "0 \<le> db_height ?d")
    case True
    then have "nat (db_height ?d) < length tcs" using co(3) p(5) by linarith
    with True fs(1) p(4,7) show ?thesis by (simp add: py_index_def index_def)
  qed (use fs(1) p(4,7) in simp)
  have f1: "f1 = flush_data_of (s\<lparr>headers := [], tx_hashes := []\<rparr>)" by (simp add: fs(2) flush_data_of_def)
  let ?s1 = "s\<lparr>headers := [], tx_hashes := []\<rparr>"
  from flush_utxo_db_eq [OF st(3)] have d2: "d2 = d1\<lparr>db_history := h, utxo_flush_count := flush_count h,
        db_height := fd_height f1, db_tx_count := fd_tx_count f1, db_tip := fd_tip f1\<rparr>"
      and f': "f' = f1\<lparr>fd_deletes := [], fd_adds := [], fd_ref_adds := [], fd_ref_mints := [], fd_ref_locs := [],
              fd_data_adds := [], fd_undo_infos := [], fd_ref_loc_undo_infos := []\<rparr>"
    by auto
  have kv: "utxo_db d' = apply_batch (bops @ iops) (utxo_db ?d)" by (simp add: st(4) d2 fs(3))
  have "index_view ?d (height s) d2" by (simp add: index_view_def d2 fs(3) f1 flush_data_of_def)
  then have safe: "core_safe (height s) iops" using safe_flushD [OF assms(3)] io by blast
  have d': "tx_counts d' = Some tcs" "db_height d' = height s" "fs_height d' = height s" "db_tx_count d' = tx_count s"
      "fs_tx_count d' = tx_count s" "db_tip d' = tip s" "db_history d' = h"
      "hashes_file d' = lf_write (hashes_file ?d) (F * 32) (concat (drop F T))" "tx_hash_cache d' = tx_hash_cache ?d"
      "raw_blocks d' = raw_blocks ?d"
    using co(1) p(9) by (simp_all add: st(4) d2 fs(3) f1 flush_data_of_def \<open>prior = F\<close>)
  have b: "bp_db s' = d' \<or> bp_db s' = invalidate_balance_cache d' (touched s)"
    by (simp add: s' ox Let_def after_flush_def)
  have keep: "height s' = height s" "tip s' = tip s" "touched s' = touched s" "tx_count s' = tx_count s"
      "headers s' = []" "tx_hashes s' = []" "undo_infos s' = []" "ref_loc_undo_infos s' = []" "utxo_cache s' = []"
      "ref_cache s' = []" "ref_mint_cache s' = []" "ref_loc_cache s' = []" "data_cache s' = []" "db_deletes s' = []"
    by (simp_all add: s' ox Let_def after_flush_def f' f1 flush_data_of_def)
  have stored: "hashes_stored (hashes_file d') T"
    using hashes_stored_write [OF p(8), of "drop F T"] p(3) ci(3) in_set_dropD [of _ F T] by (auto simp: d'(8) min.absorb2)
  have beyond: "tx_hash_cache ?d n = None" if "F \<le> n" for n
  proof -
    obtain D R where "utxo_rep T F s D R" using ci(1) by (auto simp: utxo_inv_def)
    then have "hash_ok ?d (take F T)" by (rule utxo_repD)
    then show ?thesis using that ci(3) by (simp add: hash_ok_def)
  qed
  have cache: "fst r = Some (T ! n)" if "n < length T" "tx_hash_cache d' n = Some r" for n r
  proof -
    have "n < F" using that(2) beyond d'(9) by (metis linorder_not_less option.distinct(1))
    moreover obtain D R where "utxo_rep T F s D R" using ci(1) by (auto simp: utxo_inv_def)
    then have "hash_ok ?d (take F T)" by (rule utxo_repD)
    moreover have "n < length (take F T)" using \<open>n < F\<close> that(1) by simp
    moreover have "tx_hash_cache ?d n = Some r" using that(2) d'(9) by simp
    ultimately have "fst r = Some (take F T ! n)" using hash_ok_cached by blast
    with \<open>n < F\<close> show ?thesis by simp
  qed
  have hok: "hash_ok d' T"
  proof (rule hash_okI [OF d'(1) co(2,5) _ stored])
    show "int (length tcs) = db_height d' + 1" unfolding d'(2) by (rule co(3))
    show "tx_hash_cache d' n = None" if "length T \<le> n" for n using beyond ci(3) that d'(9) by simp
  qed (rule cache)
  have disk: "disk_rep T (utxo_db d') U"
  proof (rule flush_rep [of T F ?s1 U _ bops d2 f' iops])
    show "utxo_inv T F ?s1 U" using ci(1) utxo_inv_cong [of ?s1 s T F U] by simp
    show "flush_utxo_db (d1\<lparr>db_history := h\<rparr>) (flush_data_of ?s1) = Inr (bops, d2, f')" using st(3) f1 by simp
    show "data_keys ?s1" using ci(4) by (simp add: data_keys_def)
    show "\<not> utxo_key (op_key op)" if "op \<in> set iops" for op using safe that by (simp add: core_safe_def)
    show "utxo_db d' = apply_batch (bops @ iops) (utxo_db (bp_db ?s1)) \<or>
        utxo_db d' = apply_batch (iops @ bops) (utxo_db (bp_db ?s1))" using kv by simp
    show "entry_ok T op val" if "U op = Some val" for op val using utxo_inv_entry [OF ci(1) that] .
  qed
  have inv: "utxo_inv T (length T) s' U"
    using b disk hok by (intro utxo_inv_disk) (auto simp: keep hash_ok_def invalidate_balance_cache_def)
  have hist: "flush (db_history ?d) = Inr h" using st(2) by (simp add: fs(3))
  have bp: "tx_counts (bp_db s') = Some tcs" "db_height (bp_db s') = height s" "fs_height (bp_db s') = height s"
      "db_tx_count (bp_db s') = tx_count s" "fs_tx_count (bp_db s') = tx_count s" "db_tip (bp_db s') = tip s"
      "db_history (bp_db s') = h" "hashes_file (bp_db s') = hashes_file d'" "tx_hash_cache (bp_db s') = tx_hash_cache ?d"
      "utxo_db (bp_db s') = utxo_db d'" "raw_blocks (bp_db s') = raw_blocks ?d"
    using b d' by auto
  have cnt: "counts_ok T s' tcs" using co by (simp add: counts_ok_def bp keep)
  have "flushed T s' U tcs"
    using inv cnt ci(2) flush_ok [OF ci(5) hist] flush_unflushed [OF hist] stored p(5,6) ci(3)
    by (auto simp: flushed_def chain_inv_def keep bp data_keys_def dict_keys_def)
  moreover have "history_of (db_history (bp_db s')) hX = history_of (db_history ?d) hX" if "length hX = 11" for hX
    using flush_history(2) [OF ci(5) hist that] by (simp add: bp)
  moreover have "read_undo_info (bp_db s') ht = Inr (Some (concat u)) \<and> (\<exists>v. read_ref_loc_undo_info (bp_db s') ht = Inr (Some v))"
    if "ht = height s" "undo_infos s = [(u, ht)]" "ref_loc_undo_infos s = [(ru, ht)]" for u ru ht
  proof -
    obtain D R where r: "utxo_rep T F s D R" using ci(1) by (auto simp: utxo_inv_def)
    have "kv_ok (utxo_db ?d)" using disk_repD(1) [OF utxo_repD(1) [OF r]] .
    moreover have "core_safe ht iops" using safe that(1) by simp
    ultimately show ?thesis
      using undo_written [of _ ?s1 bops d2 f' u ht ru iops "utxo_db ?d"] st(3) f1 that(2,3) ci(4)
      by (simp add: read_undo_info_def read_ref_loc_undo_info_def bp(10) kv data_keys_def)
  qed
  ultimately show ?thesis using keep(1-3) bp(11) by auto
qed

end
