(* ===== verification/Reorg.thy ===== *)
theory Reorg
  imports Flushing
begin

text \<open>
  Backing up. From a flushed state, the last block is undone: the UTXO set, the counters and the
  histories are restored as they were before it.
\<close>

section \<open>Backing up the outputs\<close>

lemma restrict_UNIV [simp]: "m |` UNIV = m"
  by (simp add: restrict_map_def)

lemma same_block_touch [simp]: "same_block s (s\<lparr>touched := insert x (touched s)\<rparr>)"
  using same_block_update(7) [of s "{x}"] by simp

text \<open>While a block is backed up the reference caches stay as the flush left them: empty.\<close>

definition backing :: "'o bp \<Rightarrow> bool" where
  "backing s \<longleftrightarrow> ref_cache s = [] \<and> ref_mint_cache s = [] \<and> ref_loc_cache s = [] \<and> data_cache s = []"

definition touched_ok :: "'o bp \<Rightarrow> bool" where
  "touched_ok s \<longleftrightarrow> finite (touched s) \<and> (\<forall>x \<in> touched s. length x = 11)"

lemma touched_ok_insert: "touched_ok s \<Longrightarrow> length x = 11 \<Longrightarrow> touched s' = insert x (touched s) \<Longrightarrow> touched_ok s'"
  by (simp add: touched_ok_def)

definition back_step :: "'o bp \<Rightarrow> 'o bp \<Rightarrow> bool" where
  "back_step s s' \<longleftrightarrow> same_block s s' \<and> backing s' \<and> overlay_state s' = overlay_state s \<and> (touched_ok s \<longrightarrow> touched_ok s')"

lemma back_step_trans [trans]: "back_step s s' \<Longrightarrow> back_step s' s'' \<Longrightarrow> back_step s s''"
  unfolding back_step_def using same_block_trans by (metis (no_types, lifting))

lemma back_step_refl: "backing s \<Longrightarrow> back_step s s"
  by (simp add: back_step_def)

lemma backup_ref_rep:
  assumes "backing s" and "digest32 sha"
  shows "\<exists>s'. backup_ref sha spent s ref = Inr s' \<and> back_step s s'
    \<and> (\<forall>T F U. utxo_inv T F s' U \<longleftrightarrow> utxo_inv T F s U)"
proof -
  let ?key = "\<lambda>b. 114 # b # ref"
  define b where "b = (if ref \<in> spent then 109 else 108 :: byte)"
  define dd where "dd = db_deletes s @ (if truthy (kv_get (utxo_db (bp_db s)) (?key b)) \<noteq> None then [?key b] else [])"
  let ?s = "s\<lparr>touched := touched s \<union> {hashX_from_script sha ref}, db_deletes := dd\<rparr>"
  have truthy: "truthy None = None" by (simp add: truthy_def)
  have "backup_ref sha spent s ref = Inr ?s"
    using assms by (simp add: backup_ref_def backing_def truthy dict_del_def dd_def b_def Let_def)
  moreover have "back_step s ?s"
  proof -
    have "same_block s (s\<lparr>touched := touched s \<union> {hashX_from_script sha ref}\<rparr>)" by simp
    also have "same_block (s\<lparr>touched := touched s \<union> {hashX_from_script sha ref}\<rparr>) ?s"
      using same_block_update(2) [of "s\<lparr>touched := touched s \<union> {hashX_from_script sha ref}\<rparr>" dd] by simp
    finally have "same_block s ?s" .
    moreover have "touched_ok s \<Longrightarrow> touched_ok ?s"
      by (rule touched_ok_insert) (use assms(2) in \<open>simp_all add: hashX_from_script_def HASHX_LEN_def\<close>)
    ultimately show ?thesis using assms by (simp add: back_step_def backing_def)
  qed
  moreover have "utxo_inv T F ?s U \<longleftrightarrow> utxo_inv T F s U" for T F U
    by (rule utxo_inv_cong) (auto simp: dd_def b_def)
  ultimately show ?thesis by blast
qed

lemma backup_refs_rep:
  assumes "backing s" and "digest32 sha"
  shows "\<exists>s'. foldM (backup_ref sha spent) s rfs = Inr s' \<and> back_step s s'
    \<and> (\<forall>T F U. utxo_inv T F s' U \<longleftrightarrow> utxo_inv T F s U)"
  using assms(1)
proof (induction rfs arbitrary: s)
  case Nil
  then show ?case by (simp add: back_step_refl)
next
  case (Cons ref rfs)
  from backup_ref_rep [OF Cons.prems assms(2)] obtain s1 where s1: "backup_ref sha spent s ref = Inr s1" "back_step s s1"
      "\<forall>T F U. utxo_inv T F s1 U \<longleftrightarrow> utxo_inv T F s U" by blast
  have "backing s1" using s1(2) by (simp add: back_step_def)
  from Cons.IH [OF this] obtain s2 where "foldM (backup_ref sha spent) s1 rfs = Inr s2" "back_step s1 s2"
      "\<forall>T F U. utxo_inv T F s2 U \<longleftrightarrow> utxo_inv T F s1 U" by blast
  with s1 back_step_trans show ?case by (intro exI [of _ s2]) auto
qed

lemma delete_potential_refs_rep:
  assumes "backing s" and "idx < 2 ^ 32"
  shows "\<exists>s'. delete_potential_refs tx_hash idx s = Inr s' \<and> back_step s s'
    \<and> (\<forall>T F U. utxo_inv T F s' U \<longleftrightarrow> utxo_inv T F s U)"
proof -
  let ?o = "tx_hash @ le_enc 4 idx"
  let ?s = "s\<lparr>db_deletes := db_deletes s @ [114 # 105 # ?o, 114 # 98 # ?o]\<rparr>"
  have "delete_potential_refs tx_hash idx s = Inr ?s"
    using assms by (simp add: delete_potential_refs_def pack_idx backing_def dict_del_def Let_def)
  moreover have "back_step s ?s" using assms(1) by (simp add: back_step_def backing_def touched_ok_def)
  moreover have "utxo_inv T F ?s U \<longleftrightarrow> utxo_inv T F s U" for T F U by (rule utxo_inv_cong) auto
  ultimately show ?thesis by blast
qed

lemma get_push_input_refs_error: "get_push_input_refs script = Inl e \<Longrightarrow> e = ScriptError"
  by (cases "script_tokens script 0") (auto simp: get_push_input_refs_tokens)

text \<open>An output of the block is spent again, whatever references it carries.\<close>

lemma backup_output_rep:
  assumes "utxo_inv T F s U" and "backing s" and "length tx_hash = 32" and "idx < 2 ^ 32"
    and "\<And>op val. (op, val) \<in> set (out_entries sha tx_hash numb (idx, txout)) \<Longrightarrow> U op = Some val"
    and "digest32 sha"
  shows "\<exists>s'. backup_output sha tx_hash spent s (idx, txout) = Inr s' \<and> back_step s s'
    \<and> utxo_inv T F s' (U |` (- fst ` set (out_entries sha tx_hash numb (idx, txout))))
    \<and> (\<lambda>e. take 11 (snd e)) ` set (out_entries sha tx_hash numb (idx, txout)) \<subseteq> touched s'"
proof (cases "output_indexable (pk_script txout) = Inr True")
  case False
  then have "out_entries sha tx_hash numb (idx, txout) = []" by (simp add: out_entries_eq)
  moreover have "backup_output sha tx_hash spent s (idx, txout) = Inr s"
    using False by (simp add: backup_output_def output_indexable_eq)
  ultimately show ?thesis using assms(1,2) by (simp add: back_step_refl)
next
  case True
  then obtain val where es: "out_entries sha tx_hash numb (idx, txout) = [(tx_hash @ le_enc 4 idx, val)]"
    by (simp add: out_entries_eq)
  then have U: "U (tx_hash @ le_enc 4 idx) = Some val" using assms(5) by simp
  obtain uc dd c where sp: "spend_utxo tx_hash idx s
       = Inr (s\<lparr>utxo_cache := uc, db_deletes := dd, bp_db := (bp_db s)\<lparr>tx_hash_cache := c\<rparr>\<rparr>, val)"
     and inv: "utxo_inv T F (s\<lparr>utxo_cache := uc, db_deletes := dd, bp_db := (bp_db s)\<lparr>tx_hash_cache := c\<rparr>\<rparr>)
         (U(tx_hash @ le_enc 4 idx := None))"
    using spend_utxo_rep [OF assms(1) U assms(3,4)] by blast
  let ?s = "s\<lparr>utxo_cache := uc, db_deletes := dd, bp_db := (bp_db s)\<lparr>tx_hash_cache := c\<rparr>\<rparr>"
  let ?t = "?s\<lparr>touched := touched ?s \<union> {take HASHX_LEN val}\<rparr>"
  have "backing ?t" using assms(2) by (simp add: backing_def)
  from delete_potential_refs_rep [OF this assms(4), of tx_hash]
  obtain s2 where s2: "delete_potential_refs tx_hash idx ?t = Inr s2" "back_step ?t s2"
      "\<forall>T F U. utxo_inv T F s2 U \<longleftrightarrow> utxo_inv T F ?t U" by blast
  have "utxo_inv T F ?t U' \<longleftrightarrow> utxo_inv T F ?s U'" for U' by (rule utxo_inv_cong) simp_all
  with inv s2(3) have inv2: "utxo_inv T F s2 (U(tx_hash @ le_enc 4 idx := None))" by blast
  have "same_block s ?s" by simp
  moreover have "same_block ?s ?t" using same_block_update(7) [of ?s "{take HASHX_LEN val}"] by simp
  ultimately have "same_block s s2" using s2(2) same_block_trans unfolding back_step_def by blast
  moreover have "touched_ok s \<Longrightarrow> touched_ok ?t"
    by (rule touched_ok_insert [where x = "take HASHX_LEN val"])
      (use entry_okD(2) [OF utxo_inv_entry [OF assms(1) U]] in \<open>simp_all add: HASHX_LEN_def touched_ok_def\<close>)
  ultimately have step: "back_step s s2" using s2(2) by (simp add: back_step_def)
  have t11: "take 11 val \<in> touched s2" using s2(2) by (auto simp: back_step_def same_block_def HASHX_LEN_def)
  have "\<exists>s'. backup_output sha tx_hash spent s (idx, txout) = Inr s' \<and> back_step s2 s'
      \<and> (\<forall>T F U. utxo_inv T F s' U \<longleftrightarrow> utxo_inv T F s2 U)"
  proof (cases "get_push_input_refs (pk_script txout)")
    case (Inl e)
    then have "backup_output sha tx_hash spent s (idx, txout) = Inr s2"
      using True sp s2(1) get_push_input_refs_error [OF Inl]
      by (simp add: backup_output_def script_parse_errors_def)
    then show ?thesis using step by (simp add: back_step_def)
  next
    case (Inr p)
    obtain all_refs n1 n2 where p: "p = (all_refs, n1, n2)" by (cases p)
    have "backing s2" using step by (simp add: back_step_def)
    from backup_refs_rep [OF this assms(6), of spent "dict_keys (dedup_refs all_refs)"] obtain s3
      where "foldM (backup_ref sha spent) s2 (dict_keys (dedup_refs all_refs)) = Inr s3" "back_step s2 s3"
        "\<forall>T F U. utxo_inv T F s3 U \<longleftrightarrow> utxo_inv T F s2 U" by blast
    then show ?thesis using True sp s2(1) Inr by (simp add: backup_output_def p)
  qed
  then obtain s3 where s3: "backup_output sha tx_hash spent s (idx, txout) = Inr s3" "back_step s2 s3"
      "\<forall>T F U. utxo_inv T F s3 U \<longleftrightarrow> utxo_inv T F s2 U" by blast
  have "U(tx_hash @ le_enc 4 idx := None) = U |` (- {tx_hash @ le_enc 4 idx})"
    by (auto simp: restrict_map_def)
  with inv2 s3(3) have "utxo_inv T F s3 (U |` (- {tx_hash @ le_enc 4 idx}))" by simp
  moreover have "take 11 val \<in> touched s3" using t11 s3(2) by (auto simp: back_step_def same_block_def)
  ultimately show ?thesis using s3(1) back_step_trans [OF step s3(2)] by (simp add: es)
qed

lemma back_stepD: "back_step s s' \<Longrightarrow> backing s' \<and> touched s \<subseteq> touched s'"
  by (simp add: back_step_def same_block_def)

lemma backup_outputs_rep:
  assumes "utxo_inv T F s U" and "backing s" and "length tx_hash = 32" and "i + length outs \<le> 2 ^ 32"
    and "\<And>op val. (op, val) \<in> set (concat (map (out_entries sha tx_hash numb) (enumerate i outs))) \<Longrightarrow> U op = Some val"
    and "digest32 sha"
  shows "\<exists>s'. foldM (backup_output sha tx_hash spent) s (enumerate i outs) = Inr s' \<and> back_step s s'
    \<and> utxo_inv T F s' (U |` (- fst ` set (concat (map (out_entries sha tx_hash numb) (enumerate i outs)))))
    \<and> (\<lambda>e. take 11 (snd e)) ` set (concat (map (out_entries sha tx_hash numb) (enumerate i outs))) \<subseteq> touched s'"
  using assms(1-5)
proof (induction outs arbitrary: i s U)
  case Nil
  then show ?case by (simp add: back_step_refl)
next
  case (Cons out outs)
  let ?e = "out_entries sha tx_hash numb (i, out)"
  let ?es = "concat (map (out_entries sha tx_hash numb) (enumerate (Suc i) outs))"
  have i: "i < 2 ^ 32" using Cons.prems(4) by simp
  obtain s1 where s1: "backup_output sha tx_hash spent s (i, out) = Inr s1" "back_step s s1"
      "utxo_inv T F s1 (U |` (- fst ` set ?e))" "(\<lambda>e. take 11 (snd e)) ` set ?e \<subseteq> touched s1"
    using backup_output_rep [OF Cons.prems(1-3) i _ assms(6), of numb out spent] Cons.prems(5) by auto
  have dis: "fst ` set ?e \<inter> fst ` set ?es = {}"
  proof -
    have "op = tx_hash @ le_enc 4 i" if "op \<in> fst ` set ?e" for op using out_entries_keys [OF that] .
    moreover have "op \<noteq> tx_hash @ le_enc 4 i" if "op \<in> fst ` set ?es" for op
    proof -
      from that have "op \<in> set (map fst ?es)" by simp
      then obtain j where j: "op = tx_hash @ le_enc 4 j" "Suc i \<le> j" "j < Suc i + length outs"
        unfolding entries_keys by auto
      then have "j < 2 ^ 32" using Cons.prems(4) by simp
      with j i le_enc_inj [of j 4 i] show ?thesis by simp
    qed
    ultimately show ?thesis by blast
  qed
  have rest: "(U |` (- fst ` set ?e)) op = Some val" if "(op, val) \<in> set ?es" for op val
  proof -
    from that have "op \<in> fst ` set ?es" by force
    with dis have "op \<notin> fst ` set ?e" by blast
    moreover have "U op = Some val" using Cons.prems(5) that by simp
    ultimately show ?thesis by simp
  qed
  have "backing s1" "Suc i + length outs \<le> 2 ^ 32" using back_stepD [OF s1(2)] Cons.prems(4) by simp_all
  from Cons.IH [OF s1(3) this(1) Cons.prems(3) this(2) rest] obtain s2
    where s2: "foldM (backup_output sha tx_hash spent) s1 (enumerate (Suc i) outs) = Inr s2" "back_step s1 s2"
      "utxo_inv T F s2 ((U |` (- fst ` set ?e)) |` (- fst ` set ?es))" "(\<lambda>e. take 11 (snd e)) ` set ?es \<subseteq> touched s2"
    by blast
  have un: "(U |` (- fst ` set ?e)) |` (- fst ` set ?es) = U |` (- fst ` set (?e @ ?es))"
    unfolding restrict_restrict by (rule arg_cong [where f = "restrict_map U"]) auto
  show ?case
  proof (intro exI [of _ s2] conjI)
    show "foldM (backup_output sha tx_hash spent) s (enumerate i (out # outs)) = Inr s2" using s1(1) s2(1) by simp
    show "back_step s s2" using back_step_trans [OF s1(2) s2(2)] .
    show "utxo_inv T F s2 (U |` (- fst ` set (concat (map (out_entries sha tx_hash numb) (enumerate i (out # outs))))))"
      using s2(3) un by simp
    have "touched s1 \<subseteq> touched s2" using back_stepD [OF s2(2)] by simp
    then show "(\<lambda>e. take 11 (snd e)) ` set (concat (map (out_entries sha tx_hash numb) (enumerate i (out # outs)))) \<subseteq> touched s2"
      using s1(4) s2(4) by (auto simp: image_Un)
  qed
qed

section \<open>Restoring the inputs\<close>

lemma slice_concat:
  assumes "\<forall>v \<in> set pre. length v = k" and "length v = k"
  shows "slice (k * length pre) (k * length pre + k) (concat (pre @ v # post)) = v"
proof -
  have "length (concat pre) = k * length pre" using assms(1) by (rule length_concat_const)
  then show ?thesis using assms(2) by (simp add: slice_def)
qed

lemma undo_item:
  assumes "undo = concat (pre @ v # post)" and "\<forall>v \<in> set pre. length v = 56" and "length v = 56"
  shows "py_slice (int (56 * length pre)) (int (56 * length pre) + undo_entry_len) undo = v"
proof -
  define m where "m = int (56 * length pre)"
  have "nat m = 56 * length pre" unfolding m_def by (rule nat_int)
  moreover have "nat (m + undo_entry_len) = 56 * length pre + 56"
    unfolding m_def by (simp add: undo_entry_len_def HASHX_LEN_def)
  moreover have "\<not> m < 0" "\<not> m + undo_entry_len < 0" by (simp_all add: m_def undo_entry_len_def)
  ultimately have "py_slice m (m + undo_entry_len) undo = slice (56 * length pre) (56 * length pre + 56) undo"
    by (simp add: py_slice_def)
  then have "py_slice (int (56 * length pre)) (int (56 * length pre) + undo_entry_len) undo
      = slice (56 * length pre) (56 * length pre + 56) undo" unfolding m_def .
  then show ?thesis unfolding assms(1) slice_concat [OF assms(2,3)] .
qed

lemma backup_input_generation: "is_generation i \<Longrightarrow> backup_input undo st i = Inr st"
  by (cases st) (simp add: backup_input_def)

lemma backup_inputs_rep:
  assumes "utxo_inv T F s U" and "backing s"
    and "undo = concat (pre @ vs @ post)" and "\<forall>v \<in> set (pre @ vs). length v = 56"
    and "ops = map outpoint (filter (\<lambda>i. \<not> is_generation i) ins)" and "length vs = length ops" and "distinct ops"
    and "\<forall>op \<in> set ops. U op = None" and "\<forall>(op, v) \<in> set (zip ops vs). entry_ok T op v"
    and "\<forall>i \<in> set ins. prev_idx i < 2 ^ 32"
  shows "\<exists>s'. foldM (backup_input undo) (s, int (56 * (length pre + length vs))) (rev ins) = Inr (s', int (56 * length pre))
    \<and> back_step s s' \<and> utxo_inv T F s' (U ++ map_of (zip ops vs)) \<and> take 11 ` set vs \<subseteq> touched s'"
  using assms(3-10)
proof (induction ins arbitrary: pre vs ops)
  case Nil
  then show ?case using assms(1,2) by (simp add: back_step_refl)
next
  case (Cons i ins)
  show ?case
  proof (cases "is_generation i")
    case True
    then obtain s' where "foldM (backup_input undo) (s, int (56 * (length pre + length vs))) (rev ins) = Inr (s', int (56 * length pre))
    \<and> back_step s s' \<and> utxo_inv T F s' (U ++ map_of (zip ops vs)) \<and> take 11 ` set vs \<subseteq> touched s'"
      using Cons.IH [of pre vs ops] Cons.prems by auto
    with True show ?thesis
      by (intro exI [of _ s']) (simp add: foldM_append backup_input_generation del: of_nat_mult of_nat_add)
  next
    case False
    with Cons.prems(3,4) obtain op ops' v vs' where o: "ops = op # ops'" "vs = v # vs'" "op = outpoint i"
        "ops' = map outpoint (filter (\<lambda>i. \<not> is_generation i) ins)" by (cases vs) auto
    have "\<exists>s'. foldM (backup_input undo) (s, int (56 * (length (pre @ [v]) + length vs'))) (rev ins) = Inr (s', int (56 * length (pre @ [v])))
      \<and> back_step s s' \<and> utxo_inv T F s' (U ++ map_of (zip ops' vs')) \<and> take 11 ` set vs' \<subseteq> touched s'"
    proof (rule Cons.IH)
      show "undo = concat ((pre @ [v]) @ vs' @ post)" using Cons.prems(1) o(2) by simp
      show "\<forall>v \<in> set ((pre @ [v]) @ vs'). length v = 56" using Cons.prems(2) o(2) by simp
      show "length vs' = length ops'" "distinct ops'" "\<forall>op \<in> set ops'. U op = None"
        "\<forall>(op, v) \<in> set (zip ops' vs'). entry_ok T op v"
        using Cons.prems(4-7) o(1,2) by simp_all
      show "\<forall>i \<in> set ins. prev_idx i < 2 ^ 32" using Cons.prems(8) by simp
    qed (rule o(4))
    then obtain s1 where s1: "foldM (backup_input undo) (s, int (56 * (length pre + length vs))) (rev ins)
          = Inr (s1, int (56 * length (pre @ [v])))" "back_step s s1" "utxo_inv T F s1 (U ++ map_of (zip ops' vs'))"
        "take 11 ` set vs' \<subseteq> touched s1"
      using o(2) by auto
    have n: "int (56 * length (pre @ [v])) - undo_entry_len = int (56 * length pre)"
      by (simp add: undo_entry_len_def HASHX_LEN_def)
    have idx: "prev_idx i < 2 ^ 32" using Cons.prems(8) by simp
    have item: "py_slice (int (56 * length pre)) (int (56 * length pre) + undo_entry_len) undo = v"
      by (rule undo_item [where post = "vs' @ post"]) (use Cons.prems(1,2) o(2) in auto)
    let ?s1 = "s1\<lparr>utxo_cache := dict_set op v (utxo_cache s1)\<rparr>"
    let ?s2 = "?s1\<lparr>touched := insert (take HASHX_LEN v) (touched ?s1)\<rparr>"
    have st: "backup_input undo (s1, int (56 * length (pre @ [v]))) i = Inr (?s2, int (56 * length pre))"
      using False item unfolding backup_input_def n prod.case
      by (simp add: pack_idx [OF idx] o(3) outpoint_def Let_def n)
    have "(U ++ map_of (zip ops' vs')) op = None"
      using Cons.prems(4,5,6) o by (auto simp: map_add_None map_of_zip_is_None)
    moreover have "entry_ok T op v" using Cons.prems(7) o by simp
    ultimately have "utxo_inv T F ?s1 ((U ++ map_of (zip ops' vs'))(op \<mapsto> v))" using put_utxo_rep [OF s1(3)] by blast
    then have inv: "utxo_inv T F ?s2 ((U ++ map_of (zip ops' vs'))(op \<mapsto> v))"
      using utxo_inv_cong [of ?s2 ?s1 T F] by simp
    have m: "(U ++ map_of (zip ops' vs'))(op \<mapsto> v) = U ++ map_of (zip ops vs)" unfolding o(1,2) by simp
    have "same_block s1 ?s1" by simp
    moreover have "same_block ?s1 ?s2" using same_block_touch [of ?s1 "take HASHX_LEN v"] by simp
    moreover have "touched_ok s1 \<Longrightarrow> touched_ok ?s2"
      by (rule touched_ok_insert [where x = "take HASHX_LEN v"])
        (use Cons.prems(2) o(2) in \<open>simp_all add: HASHX_LEN_def touched_ok_def\<close>)
    ultimately have "back_step s1 ?s2" using s1(2) same_block_trans [of s1 ?s1 ?s2] by (auto simp: back_step_def backing_def)
    then have "back_step s ?s2" using s1(2) back_step_trans by blast
    moreover have "take 11 ` set vs \<subseteq> touched ?s2" using s1(4) by (auto simp: o(2) HASHX_LEN_def)
    moreover have "foldM (backup_input undo) (s, int (56 * (length pre + length vs))) (rev (i # ins)) = Inr (?s2, int (56 * length pre))"
      using s1(1) st by (simp add: foldM_append)
    ultimately show ?thesis using inv m by (intro exI [of _ ?s2]) simp
  qed
qed

section \<open>A transaction and a block\<close>

lemma add_all_get: "distinct (map fst es) \<Longrightarrow> (op, v) \<in> set es \<Longrightarrow> add_all U es op = Some v"
proof (induction es arbitrary: U)
  case (Cons e es)
  show ?case
  proof (cases "e = (op, v)")
    case True
    then have "op \<notin> fst ` set es" using Cons.prems(1) by simp
    with True show ?thesis by (simp add: add_all_other)
  next
    case False
    then have "add_all (U(fst e \<mapsto> snd e)) es op = Some v" using Cons.prems by (intro Cons.IH) auto
    then show ?thesis by (cases e) simp
  qed
qed simp

lemma add_all_drop: "fst ` set es \<inter> dom U = {} \<Longrightarrow> add_all U es |` (- fst ` set es) = U"
proof
  fix op assume "fst ` set es \<inter> dom U = {}"
  then have "op \<in> fst ` set es \<Longrightarrow> U op = None" by blast
  then show "(add_all U es |` (- fst ` set es)) op = U op"
    by (cases "op \<in> fst ` set es") (simp_all add: add_all_other restrict_map_def)
qed

lemma spent_outpoints_ok: "\<forall>i \<in> set (tx_inputs tx). prev_idx i < 2 ^ 32 \<Longrightarrow> \<exists>S. spent_outpoints tx = Inr S"
proof -
  assume "\<forall>i \<in> set (tx_inputs tx). prev_idx i < 2 ^ 32"
  then have "mapM (\<lambda>txin. rbind (pack_le_uint32 (int (prev_idx txin))) (\<lambda>i. Inr (prev_hash txin @ i)))
      (filter (\<lambda>txin. \<not> is_generation txin) (tx_inputs tx))
    = Inr (map outpoint (filter (\<lambda>txin. \<not> is_generation txin) (tx_inputs tx)))"
    by (intro mapM_Inr) (auto simp: pack_idx outpoint_def)
  then show ?thesis by (simp add: spent_outpoints_def)
qed

lemma backup_tx_rep:
  assumes "utxo_inv T F s U'" and "backing s" and "apply_tx sha n (tx, h) U = Some (U', vs)" and "tx_ok (tx, h)"
    and "\<And>op. op \<in> dom U \<Longrightarrow> take 32 op \<noteq> h" and "\<And>op val. U op = Some val \<Longrightarrow> entry_ok T op val"
    and "undo = concat (pre @ vs @ post)" and "\<forall>v \<in> set pre. length v = 56" and "digest32 sha"
  shows "\<exists>s'. backup_tx sha undo (s, int (56 * (length pre + length vs))) (tx, h) = Inr (s', int (56 * length pre))
    \<and> back_step s s' \<and> utxo_inv T F s' U \<and> set (tx_hashXs sha n (tx, h) vs) \<subseteq> touched s'"
proof -
  let ?ops = "map outpoint (spent_inputs tx)" and ?es = "tx_entries sha n (tx, h)"
  from assms(3) obtain U1 where U1: "spend_all U ?ops = Some (U1, vs)" and U': "U' = add_all U1 ?es"
    by (auto simp: apply_tx_def)
  from spend_all_spec [OF U1] have sp: "distinct ?ops" "length vs = length ?ops" "set ?ops \<subseteq> dom U"
      "U1 = U |` (- set ?ops)" "\<forall>(op, v) \<in> set (zip ?ops vs). U op = Some v" by blast+
  have tx: "length h = 32" "length (tx_outputs tx) \<le> 2 ^ 32"
      "\<forall>i \<in> set (tx_inputs tx). length (prev_hash i) = 32 \<and> prev_idx i < 2 ^ 32"
    using assms(4) by (simp_all add: tx_ok_def)
  obtain S where S: "spent_outpoints tx = Inr S" using spent_outpoints_ok tx(3) by blast
  have es: "?es = concat (map (out_entries sha h (le_enc 5 n)) (enumerate 0 (tx_outputs tx)))" by (simp add: tx_entries_def)
  have dis: "fst ` set ?es \<inter> dom U1 = {}"
  proof -
    have "dom U1 \<subseteq> dom U" using sp(4) by auto
    moreover have "take 32 op = h" if "op \<in> fst ` set ?es" for op using entry_hash [OF that tx(1)] .
    ultimately show ?thesis using assms(5) by blast
  qed
  have got: "U' op = Some val" if "(op, val) \<in> set (concat (map (out_entries sha h (le_enc 5 n)) (enumerate 0 (tx_outputs tx))))" for op val
    unfolding U' es by (rule add_all_get [OF distinct_entries [OF tx(2)] that])
  have "0 + length (tx_outputs tx) \<le> 2 ^ 32" using tx(2) by simp
  from backup_outputs_rep [OF assms(1,2) tx(1) this got assms(9), where spent = S] obtain s1
    where s1: "foldM (backup_output sha h S) s (enumerate 0 (tx_outputs tx)) = Inr s1" "back_step s s1"
      "utxo_inv T F s1 (U' |` (- fst ` set ?es))" "(\<lambda>e. take 11 (snd e)) ` set ?es \<subseteq> touched s1"
    unfolding es by blast
  have U1': "U' |` (- fst ` set ?es) = U1" unfolding U' by (rule add_all_drop [OF dis])
  have v56: "\<forall>v \<in> set (pre @ vs). length v = 56"
  proof -
    have "length v = 56" if "v \<in> set vs" for v
      using apply_tx_values [OF assms(3)] that assms(6) entry_okD(2) by (fastforce simp: ran_def)
    with assms(8) show ?thesis by auto
  qed
  have none: "\<forall>op \<in> set ?ops. U1 op = None" unfolding sp(4) by simp
  have eok: "\<forall>(op, v) \<in> set (zip ?ops vs). entry_ok T op v" using sp(5) assms(6) by blast
  have ops: "?ops = map outpoint (filter (\<lambda>i. \<not> is_generation i) (tx_inputs tx))" by (simp add: spent_inputs_def)
  have idx: "\<forall>i \<in> set (tx_inputs tx). prev_idx i < 2 ^ 32" using tx(3) by blast
  have "backing s1" using back_stepD [OF s1(2)] by simp
  from backup_inputs_rep [OF s1(3) [unfolded U1'] this assms(7) v56 ops sp(2,1) none eok idx] obtain s2
    where s2: "foldM (backup_input undo) (s1, int (56 * (length pre + length vs))) (rev (tx_inputs tx)) = Inr (s2, int (56 * length pre))"
      "back_step s1 s2" "utxo_inv T F s2 (U1 ++ map_of (zip ?ops vs))" "take 11 ` set vs \<subseteq> touched s2" by blast
  have "backup_tx sha undo (s, int (56 * (length pre + length vs))) (tx, h) = Inr (s2, int (56 * length pre))"
    unfolding backup_tx_def prod.case S s1(1) rbind_simps by (rule s2(1))
  moreover have "utxo_inv T F s2 U" using s2(3) unfolding spend_all_restore [OF U1] .
  moreover have "set (tx_hashXs sha n (tx, h) vs) \<subseteq> touched s2"
    using s1(4) s2(4) back_stepD [OF s2(2)] unfolding tx_hashXs_def by auto
  ultimately show ?thesis using back_step_trans [OF s1(2) s2(2)] by blast
qed

text \<open>The entries of the set stay well formed through a transaction.\<close>

lemma apply_tx_entries:
  assumes "apply_tx sha n (tx, h) U = Some (U', vs)" and "\<And>op val. U op = Some val \<Longrightarrow> entry_ok T op val"
    and "digest32 sha" and "length h = 32" and "n < length T" and "T ! n = h" and "n < 2 ^ 40" and "U' op = Some val"
  shows "entry_ok T op val"
proof -
  from assms(1) obtain U1 where U1: "spend_all U (map outpoint (spent_inputs tx)) = Some (U1, vs)"
      and U': "U' = add_all U1 (tx_entries sha n (tx, h))" by (auto simp: apply_tx_def)
  have sub: "U1 = U |` (- set (map outpoint (spent_inputs tx)))" using spend_all_spec [OF U1] by blast
  have "U1 op = Some val \<Longrightarrow> entry_ok T op val" for op val
    using assms(2) [of op val] by (simp add: sub restrict_map_def split: if_splits)
  moreover have "entry_ok T op val" if "(op, val) \<in> set (tx_entries sha n (tx, h))" for op val
    using that entry_ok_new(1) [OF assms(3-7)] by (auto simp: tx_entries_def)
  moreover have "add_all U1 es op = Some val \<Longrightarrow> U1 op = Some val \<or> (op, val) \<in> set es" for es
  proof (induction es arbitrary: U1)
    case (Cons e es)
    then show ?case by (cases e) (fastforce split: if_splits)
  qed simp
  ultimately show ?thesis using assms(8) U' by blast
qed

lemma backup_txs_rep:
  assumes "utxo_inv T F s U'" and "backing s" and "apply_txs sha n txs U = Some (U', vss)"
    and "\<forall>txh \<in> set txs. tx_ok txh" and "digest32 sha"
    and "T = pret @ map snd txs" and "length pret = n" and "distinct T" and "known U pret" and "length T \<le> 2 ^ 40"
    and "\<And>op val. U op = Some val \<Longrightarrow> entry_ok T op val"
    and "undo = concat (pre @ concat vss @ post)" and "\<forall>v \<in> set pre. length v = 56"
  shows "\<exists>s'. foldM (backup_tx sha undo) (s, int (56 * (length pre + length (concat vss)))) (rev txs) = Inr (s', int (56 * length pre))
    \<and> back_step s s' \<and> utxo_inv T F s' U \<and> \<Union> (set ` set (block_hashXs sha n txs vss)) \<subseteq> touched s'"
  using assms(3,4,6-9,11-13)
proof (induction txs arbitrary: n U vss pret pre)
  case Nil
  then show ?case using assms(1,2) by (simp add: back_step_refl)
next
  case (Cons txh txs)
  obtain tx h where txh: "txh = (tx, h)" by (cases txh)
  from Cons.prems(1) obtain U1 vs wss where ap: "apply_tx sha n (tx, h) U = Some (U1, vs)"
      "apply_txs sha (n + 1) txs U1 = Some (U', wss)" and vss: "vss = vs # wss"
    by (auto simp: txh split: option.splits)
  have ok: "tx_ok (tx, h)" using Cons.prems(2) txh by simp
  have T: "T ! n = h" "n < length T" "h \<notin> set pret"
    using Cons.prems(3,4,5) by (auto simp: txh nth_append)
  have n40: "n < 2 ^ 40" using T(2) assms(10) by simp
  have h32: "length h = 32" using ok by (simp add: tx_ok_def)
  have e1: "entry_ok T op val" if "U1 op = Some val" for op val
    using apply_tx_entries [OF ap(1) Cons.prems(7) assms(5) h32 T(2,1) n40 that] by blast
  have v56: "\<forall>v \<in> set (pre @ vs). length v = 56"
    using apply_tx_values [OF ap(1)] Cons.prems(7,9) entry_okD(2) by (fastforce simp: ran_def)
  have "known U1 (pret @ [h])" using known_apply_tx [OF ap(1) Cons.prems(6)] h32 by simp
  then have "\<exists>s'. foldM (backup_tx sha undo) (s, int (56 * (length (pre @ vs) + length (concat wss)))) (rev txs) = Inr (s', int (56 * length (pre @ vs)))
    \<and> back_step s s' \<and> utxo_inv T F s' U1 \<and> \<Union> (set ` set (block_hashXs sha (n + 1) txs wss)) \<subseteq> touched s'"
    using ap(2) Cons.prems(2-5,8) v56 e1 vss
    by (intro Cons.IH [of "n + 1" U1 wss "pret @ [h]" "pre @ vs"]) (simp_all add: txh)
  then obtain s1 where s1: "foldM (backup_tx sha undo) (s, int (56 * (length pre + length (concat vss)))) (rev txs)
        = Inr (s1, int (56 * (length pre + length vs)))" "back_step s s1" "utxo_inv T F s1 U1"
      "\<Union> (set ` set (block_hashXs sha (n + 1) txs wss)) \<subseteq> touched s1"
    by (auto simp: vss add.assoc)
  have fresh: "take 32 op \<noteq> h" if "op \<in> dom U" for op using Cons.prems(6) T(3) that by (auto simp: known_def)
  have "undo = concat (pre @ vs @ (concat wss @ post))" using Cons.prems(8) vss by simp
  from backup_tx_rep [OF s1(3) _ ap(1) ok fresh Cons.prems(7) this Cons.prems(9) assms(5)] obtain s2
    where s2: "backup_tx sha undo (s1, int (56 * (length pre + length vs))) (tx, h) = Inr (s2, int (56 * length pre))"
      "back_step s1 s2" "utxo_inv T F s2 U" "set (tx_hashXs sha n (tx, h) vs) \<subseteq> touched s2"
    using back_stepD [OF s1(2)] by blast
  have "foldM (backup_tx sha undo) (s, int (56 * (length pre + length (concat vss)))) (rev (txh # txs)) = Inr (s2, int (56 * length pre))"
    unfolding rev.simps foldM_append s1(1) rbind_simps using s2(1) by (simp add: txh del: of_nat_mult of_nat_add)
  moreover have "\<Union> (set ` set (block_hashXs sha n (txh # txs) vss)) \<subseteq> touched s2"
    using s1(4) s2(4) back_stepD [OF s2(2)] by (auto simp: vss txh)
  ultimately show ?case using s2(3) back_step_trans [OF s1(2) s2(2)] by blast
qed

lemma restore_ref_locs_eq: "\<exists>rl. restore_ref_locs u s = s\<lparr>ref_loc_cache := rl\<rparr>"
proof -
  let ?f = "\<lambda>s chunk. s\<lparr>ref_loc_cache := dict_set (take 36 chunk) (drop 36 chunk) (ref_loc_cache s)\<rparr>"
  have "\<exists>rl. foldl ?f s cs = s\<lparr>ref_loc_cache := rl\<rparr>" for cs and s :: "'o bp"
  proof (induction cs arbitrary: s)
    case Nil
    have "foldl ?f s [] = s\<lparr>ref_loc_cache := ref_loc_cache s\<rparr>" by simp
    then show ?case by blast
  next
    case (Cons c cs)
    from Cons [of "?f s c"] obtain rl where "foldl ?f (?f s c) cs = (?f s c)\<lparr>ref_loc_cache := rl\<rparr>" by blast
    then have "foldl ?f s (c # cs) = s\<lparr>ref_loc_cache := rl\<rparr>" by simp
    then show ?case by blast
  qed
  then show ?thesis unfolding restore_ref_locs_def .
qed

text \<open>What remains when the block's transactions have been undone.\<close>

lemma backup_txs_total:
  assumes "utxo_inv T' F s U'" and "backing s" and "apply_txs sha n txs U = Some (U', vss)"
    and "\<forall>txh \<in> set txs. tx_ok txh" and "digest32 sha"
    and "T' = T @ map snd txs" and "length T = n" and "distinct T'" and "length T' \<le> 2 ^ 40"
    and "\<And>op val. U op = Some val \<Longrightarrow> entry_ok T op val" and "\<forall>v \<in> set (concat vss). length v = 56"
    and "read_undo_info (bp_db s) (height s) = Inr (Some (concat (concat vss)))"
    and "read_ref_loc_undo_info (bp_db s) (height s) = Inr (Some ru)"
  shows "\<exists>s2 rl. backup_txs sha txs s = Inr (s2\<lparr>ref_loc_cache := rl, tx_count := tx_count s - int (length txs)\<rparr>)
    \<and> back_step s s2 \<and> utxo_inv T' F s2 U \<and> \<Union> (set ` set (block_hashXs sha n txs vss)) \<subseteq> touched s2"
proof -
  have e: "entry_ok T' op val" if "U op = Some val" for op val
    using entry_ok_more [OF assms(10) [OF that]] assms(6) by simp
  have "take 32 op \<in> set T" if "U op = Some val" for op val
    using entry_okD(3,4) [OF assms(10) [OF that]] nth_mem by metis
  then have k: "known U T" by (auto simp: known_def)
  have "\<forall>v \<in> set ([] :: bytes list). length v = 56" by simp
  from backup_txs_rep [OF assms(1-6,7,8) k assms(9) e _ this, of "concat (concat vss)" "[]"] obtain s2
    where s2: "foldM (backup_tx sha (concat (concat vss))) (s, int (56 * length (concat vss))) (rev txs) = Inr (s2, 0)"
      "back_step s s2" "utxo_inv T' F s2 U" "\<Union> (set ` set (block_hashXs sha n txs vss)) \<subseteq> touched s2"
    by auto
  have "length (concat (concat vss)) = 56 * length (concat vss)" using assms(11) by (rule length_concat_const)
  then have len: "int (length (concat (concat vss))) = int (56 * length (concat vss))" by presburger
  obtain rl where rl: "restore_ref_locs ru s2 = s2\<lparr>ref_loc_cache := rl\<rparr>" using restore_ref_locs_eq by blast
  have tc: "tx_count s2 = tx_count s" using s2(2) by (simp add: back_step_def same_block_def)
  have "backup_txs sha txs s = Inr (s2\<lparr>ref_loc_cache := rl, tx_count := tx_count s - int (length txs)\<rparr>)"
    unfolding backup_txs_def assms(12,13) rbind_simps option.case prod.case len s2(1)
    by (simp add: rl tc py_assert_def)
  with s2 show ?thesis by blast
qed

lemma hash_ok_butlast:
  assumes "hash_ok d T" and "tx_counts d = Some tcs" and "sorted tcs"
  shows "hash_ok (d\<lparr>tx_counts := Some (butlast tcs)\<rparr>) T"
proof -
  have le: "bisect_right (butlast tcs) n \<le> bisect_right tcs n" for n
  proof -
    have "sorted (butlast tcs)" using assms(3) by (metis butlast_conv_take sorted_wrt_take)
    moreover have "length (filter (\<lambda>y. y \<le> n) (butlast tcs)) \<le> length (filter (\<lambda>y. y \<le> n) tcs)"
    proof (cases tcs rule: rev_cases)
      case (snoc ys y)
      then show ?thesis by simp
    qed simp
    ultimately show ?thesis using bisect_right_filter assms(3) by simp
  qed
  have "int (bisect_right (butlast tcs) n) \<le> db_height d" if "n < length T" for n
  proof -
    have "int (bisect_right tcs n) \<le> db_height d" using assms(1,2) that by (simp add: hash_ok_def)
    with le [of n] show ?thesis by linarith
  qed
  then show ?thesis using assms(1) by (simp add: hash_ok_def)
qed

lemma utxo_inv_db:
  assumes "utxo_inv T F s U" and "hash_ok (bp_db s') (take F T)" and "utxo_db (bp_db s') = utxo_db (bp_db s)"
    and "utxo_cache s' = utxo_cache s" and "db_deletes s' = db_deletes s"
  shows "utxo_inv T F s' U"
  using assms unfolding utxo_inv_def utxo_rep_def by auto

text \<open>Undoing the last block of a flushed chain. The counters are those before the block; the database
  still lists its transactions.\<close>

definition undone :: "bytes list \<Rightarrow> bytes list \<Rightarrow> 'o bp \<Rightarrow> utxo_map \<Rightarrow> nat list \<Rightarrow> bool" where
  "undone T' T s U tcs \<longleftrightarrow> utxo_inv T' (length T') s U \<and> tx_count s = int (length T)
     \<and> headers s = [] \<and> tx_hashes s = [] \<and> undo_infos s = [] \<and> ref_loc_undo_infos s = [] \<and> data_keys s \<and> touched_ok s
     \<and> tx_counts (bp_db s) = Some tcs"

lemma backup_block_rep:
  assumes "flushed T' s U' (tcs @ [c])" and "T' = T @ map snd (transactions blk)"
    and "apply_txs sha (length T) (transactions blk) U = Some (U', vss)" and "block_ok sha T (transactions blk)"
    and "\<And>op val. U op = Some val \<Longrightarrow> entry_ok T op val" and "\<forall>v \<in> set (concat vss). length v = 56"
    and "read_block sha raw_block = Inr blk" and "H (header blk) = tip s" and "0 < height s"
    and "read_undo_info (bp_db s) (height s) = Inr (Some (concat (concat vss)))"
    and "read_ref_loc_undo_info (bp_db s) (height s) = Inr (Some ru)" and "touched_ok s"
  shows "\<exists>s' e. backup_block sha H raw_block s = Inr s' \<and> undone T' T s' U tcs
    \<and> height s' = height s - 1 \<and> tip s' = header_prevhash (header blk)
    \<and> bp_db s' = (bp_db s)\<lparr>tx_hash_cache := e, tx_counts := Some tcs\<rparr> \<and> overlay_state s' = overlay_state s
    \<and> \<Union> (set ` set (block_hashXs sha (length T) (transactions blk) vss)) \<subseteq> touched s'"
proof -
  let ?txs = "transactions blk" and ?s = "s\<lparr>tip := header_prevhash (header blk)\<rparr>"
  have f: "chain_inv T' (length T') s U'" "counts_ok T' s (tcs @ [c])" "headers s = []" "tx_hashes s = []"
      "undo_infos s = []" "ref_loc_undo_infos s = []" "ref_cache s = []" "ref_mint_cache s = []" "ref_loc_cache s = []"
      "data_cache s = []"
    using assms(1) by (simp_all add: flushed_def)
  have inv: "utxo_inv T' (length T') ?s U'" using f(1) utxo_inv_cong [of ?s s] by (simp add: chain_inv_def)
  have co: "tx_counts (bp_db s) = Some (tcs @ [c])" "sorted (tcs @ [c])" "tx_count s = int (length T')"
    using f(2) unfolding counts_ok_def by blast+
  have b: "\<forall>txh \<in> set ?txs. tx_ok txh" "digest32 sha" "distinct T'" "length T' \<le> 2 ^ 40"
    using assms(4) by (simp_all add: block_ok_def assms(2))
  have "backing ?s" using f(7-10) by (simp add: backing_def)
  from backup_txs_total [OF inv this assms(3) b(1,2) assms(2) refl b(3,4) assms(5,6), of ru] assms(10,11)
  obtain s2 rl where s2: "backup_txs sha ?txs ?s = Inr (s2\<lparr>ref_loc_cache := rl, tx_count := tx_count s - int (length ?txs)\<rparr>)"
      "back_step ?s s2" "utxo_inv T' (length T') s2 U"
      "\<Union> (set ` set (block_hashXs sha (length T) ?txs vss)) \<subseteq> touched s2"
    by auto
  from s2(2) obtain e where sb: "bp_db s2 = (bp_db s)\<lparr>tx_hash_cache := e\<rparr>" "height s2 = height s"
      "tip s2 = header_prevhash (header blk)" "headers s2 = []" "tx_hashes s2 = []" "undo_infos s2 = []" "ref_loc_undo_infos s2 = []"
      "data_cache s2 = []" "overlay_state s2 = overlay_state s"
    using f(3-6) by (auto simp: back_step_def same_block_def backing_def)
  have tok: "touched_ok s2" using s2(2) assms(12) by (simp add: back_step_def touched_ok_def)
  let ?s3 = "s2\<lparr>ref_loc_cache := rl, tx_count := tx_count s - int (length ?txs)\<rparr>"
  let ?s4 = "?s3\<lparr>height := height ?s3 - 1, bp_db := (bp_db ?s3)\<lparr>tx_counts := Some (butlast (tcs @ [c]))\<rparr>\<rparr>"
  have "backup_block sha H raw_block s = Inr ?s4"
    unfolding backup_block_def flushed_assert [OF assms(1)] assms(7) rbind_simps
    using assms(8,9) s2(1) by (simp add: py_assert_def counts_def sb(1) co(1))
  moreover have "undone T' T ?s4 U tcs"
    unfolding undone_def
  proof (intro conjI)
    from s2(3) obtain D R where "utxo_rep T' (length T') s2 D R" by (auto simp: utxo_inv_def)
    then have "hash_ok (bp_db s2) (take (length T') T')" by (rule utxo_repD)
    moreover have "tx_counts (bp_db s2) = Some (tcs @ [c])" by (simp add: sb(1) co(1))
    ultimately have "hash_ok ((bp_db s2)\<lparr>tx_counts := Some (butlast (tcs @ [c]))\<rparr>) (take (length T') T')"
      using hash_ok_butlast co(2) by blast
    then show "utxo_inv T' (length T') ?s4 U" by (intro utxo_inv_db [OF s2(3)]) simp_all
    show "tx_count ?s4 = int (length T)" using co(3) assms(2) by simp
  qed (use sb tok in \<open>simp_all add: data_keys_def dict_keys_def touched_ok_def\<close>)
  ultimately show ?thesis using s2(4) sb
    by (intro exI [of _ ?s4] exI [of _ e]) simp
qed

lemma flush_utxo_db_total:
  assumes "fd_undo_infos f = []" and "fd_ref_loc_undo_infos f = []"
  shows "\<exists>ops d' f'. flush_utxo_db d f = Inr (ops, d', f')"
  using assms by (simp add: flush_utxo_db_def flush_undo_infos_def flush_ref_loc_undo_infos_def)

lemma hashes_stored_prefix: "hashes_stored f (T @ X) \<Longrightarrow> hashes_stored f T"
proof -
  assume "hashes_stored f (T @ X)"
  then obtain c where c: "\<forall>h \<in> set (T @ X). length h = 32" "lf_rep f c" "length (T @ X) * 32 \<le> length c"
      "take (length (T @ X) * 32) c = concat (T @ X)" by (auto simp: hashes_stored_def)
  have l: "length (concat T) = length T * 32" using c(1) by (intro length_concat32) simp
  have "take (length T * 32) c = take (length T * 32) (take (length (T @ X) * 32) c)" by (simp add: min_def)
  also have "\<dots> = concat T" unfolding c(4) using l by simp
  finally show ?thesis using c(1-3) unfolding hashes_stored_def by auto
qed

text \<open>The histories after backing up to the first \<open>n\<close> transactions.\<close>

lemma backup_histories:
  assumes "history_ok h" and "unflushed h = []" and "below h m" and "touched_ok s"
    and "\<And>hX. length hX = 11 \<Longrightarrow> history_of h hX = old hX @ touching hX xs n"
    and "\<And>hX k. length hX = 11 \<Longrightarrow> k \<in> set (old hX) \<Longrightarrow> k < n"
    and "\<Union> (set ` set xs) \<subseteq> touched s"
  shows "\<exists>h'. backup h (sorted_list_of_set (touched s)) (int n) = Inr h' \<and> history_ok h' \<and> unflushed h' = []
    \<and> (\<forall>hX. length hX = 11 \<longrightarrow> history_of h' hX = old hX)"
proof -
  let ?ts = "sorted_list_of_set (touched s)"
  have ts: "set ?ts = touched s" "distinct ?ts" "\<forall>hX \<in> set ?ts. length hX = 11"
    using assms(4) by (simp_all add: touched_ok_def)
  from backup_spec [OF assms(1-3) ts(2,3), of "int n"] obtain h' where h': "backup h ?ts (int n) = Inr h'"
      "history_ok h'" "unflushed h' = []"
      "\<And>hX. length hX = 11 \<Longrightarrow> history_of h' hX =
        (if hX \<in> set ?ts then filter (\<lambda>k. int k < int n) (history_of h hX) else history_of h hX)" by blast
  have "history_of h' hX = old hX" if l: "length hX = 11" for hX
  proof (cases "hX \<in> touched s")
    case True
    have "filter (\<lambda>k. int k < int n) (old hX) = old hX" using assms(6) [OF l] by (simp add: filter_id_conv)
    moreover have "filter (\<lambda>k. int k < int n) (touching hX xs n) = []"
      using set_touching [of _ hX xs n] by (fastforce simp: filter_empty_conv)
    ultimately show ?thesis using True h'(4) [OF l] assms(5) [OF l] ts(1) by simp
  next
    case False
    then have "\<forall>ys \<in> set xs. hX \<notin> set ys" using assms(7) by auto
    then have "touching hX xs n = []" by (rule touching_unknown)
    with False show ?thesis using h'(4) [OF l] assms(5) [OF l] ts(1) by simp
  qed
  with h' show ?thesis by blast
qed

definition cold :: "'o bp \<Rightarrow> 'o bp" where
  "cold s = s\<lparr>bp_db := invalidate_all_balances (bp_db s)\<rparr>"

text \<open>Backing up the indexes to undo the last block of this state does not raise and does not touch the UTXO
  table.\<close>

definition backup_safe_at :: "('o, 'e) overlays \<Rightarrow> db \<Rightarrow> int \<Rightarrow> 'o \<Rightarrow> bool" where
  "backup_safe_at ov d0 ht o' \<longleftrightarrow> (\<forall>d. index_view d0 ht d \<longrightarrow>
     (\<exists>ops o''. index_backup ov d ht o' = Inr (ops, o'') \<and> (\<forall>op \<in> set ops. \<not> utxo_key (op_key op))))"

definition safe_backup :: "('o, 'e) overlays \<Rightarrow> 'o bp \<Rightarrow> bool" where
  "safe_backup ov s \<longleftrightarrow> backup_safe_at ov (bp_db s) (height s) (overlay_state s)"

lemma bp_flush_backup_rep:
  assumes "undone (T @ X) T s U tcs" and "0 \<le> height s" and "height s < db_height (bp_db s)"
    and "sorted tcs" and "int (length tcs) = height s + 1" and "(if tcs = [] then 0 else last tcs) = length T"
    and "hashes_stored (hashes_file (bp_db s)) (T @ X)" and "distinct (T @ X)"
    and "\<And>op val. U op = Some val \<Longrightarrow> entry_ok T op val"
    and "backup_safe_at ov (bp_db s) (height s + 1) (overlay_state s)" and "db_height (bp_db s) = height s + 1"
    and "unflushed (db_history (bp_db s)) = []"
    and "backup (db_history (bp_db s)) (sorted_list_of_set (touched s)) (int (length T)) = Inr h" and "history_ok h"
    and "unflushed h = []"
  shows "\<exists>s'. bp_flush_backup ov now s = Inr s' \<and> flushed T (cold s') U tcs \<and> height s' = height s \<and> tip s' = tip s
    \<and> touched s' = touched s \<and> db_history (bp_db s') = h"
proof -
  let ?d = "bp_db s" and ?f = "flush_data_of s"
  have u: "utxo_inv (T @ X) (length (T @ X)) s U" "tx_count s = int (length T)" "headers s = []" "tx_hashes s = []"
      "undo_infos s = []" "ref_loc_undo_infos s = []" "data_keys s" "tx_counts ?d = Some tcs"
    using assms(1) by (simp_all add: undone_def)
  have "\<exists>mc. mc_truncate (header_mc ?d) (nat (height s + 1)) = Inr mc"
    using assms(2) by (simp add: mc_truncate_def Let_def)
  then obtain mc where mc: "mc_truncate (header_mc ?d) (nat (height s + 1)) = Inr mc" ..
  let ?d1 = "?d\<lparr>fs_height := height s, fs_tx_count := tx_count s, header_mc := mc, db_history := h\<rparr>"
  obtain iops o' where io: "index_backup ov ?d1 (height s + 1) (overlay_state s) = Inr (iops, o')"
      "\<forall>op \<in> set iops. \<not> utxo_key (op_key op)"
    using assms(10) [unfolded backup_safe_at_def, rule_format, of ?d1] assms(11) by (auto simp: index_view_def)
  from flush_utxo_db_total [of ?f ?d1] u(5,6) obtain bops d2 f' where fu: "flush_utxo_db ?d1 ?f = Inr (bops, d2, f')"
    by (auto simp: flush_data_of_def)
  from flush_utxo_db_eq [OF fu] have d2: "d2 = ?d1\<lparr>utxo_flush_count := flush_count h, db_height := height s,
        db_tx_count := tx_count s, db_tip := tip s\<rparr>"
      and f': "f' = ?f\<lparr>fd_deletes := [], fd_adds := [], fd_ref_adds := [], fd_ref_mints := [], fd_ref_locs := [],
              fd_data_adds := [], fd_undo_infos := [], fd_ref_loc_undo_infos := []\<rparr>"
    by (auto simp: flush_data_of_def)
  let ?d3 = "(flush_state now d2)\<lparr>utxo_db := apply_batch (iops @ bops) (utxo_db (flush_state now d2))\<rparr>"
  let ?s' = "(after_flush s (?d3, f'))\<lparr>overlay_state := o'\<rparr>"
  have fd: "fd_height ?f = height s" "fd_tx_count ?f = tx_count s" "fd_headers ?f = []" "fd_block_tx_hashes ?f = []"
    using u(3,4) by (simp_all add: flush_data_of_def)
  have "flush_backup now (\<lambda>d. index_backup ov d (height s + 1) (overlay_state s)) ?f (sorted_list_of_set (touched s)) ?d
      = Inr (?d3, f', o')"
    unfolding flush_backup_def fd py_assert_def assert_flushed_def assms(12) backup_fs_def rbind_simps
    using mc assms(2,3,13) fu io(1) by (simp add: u(2) Let_def)
  then have run: "bp_flush_backup ov now s = Inr ?s'" by (simp add: bp_flush_backup_def)
  have disk: "disk_rep T (utxo_db ?d3) U"
  proof (rule flush_rep [OF u(1) fu u(7), where index_ops = iops])
    show "\<not> utxo_key (op_key op)" if "op \<in> set iops" for op using io(2) that by blast
  qed (use assms(9) in \<open>simp_all add: d2\<close>)
  have fields: "tx_counts ?d3 = Some tcs" "db_height ?d3 = height s" "fs_height ?d3 = height s" "db_tx_count ?d3 = tx_count s"
      "fs_tx_count ?d3 = tx_count s" "db_tip ?d3 = tip s" "db_history ?d3 = h" "hashes_file ?d3 = hashes_file ?d"
    by (simp_all add: d2 u(8))
  have stored: "hashes_stored (hashes_file ?d3) T" using hashes_stored_prefix assms(7) fields(8) by simp
  define c where "c = cold ?s'"
  have keep: "height c = height s" "tip c = tip s" "tx_count c = tx_count s" "headers c = []" "tx_hashes c = []"
      "undo_infos c = []" "ref_loc_undo_infos c = []" "utxo_cache c = []" "ref_cache c = []" "ref_mint_cache c = []"
      "ref_loc_cache c = []" "data_cache c = []" "db_deletes c = []" "bp_db c = invalidate_all_balances ?d3"
    using u(3,4) by (simp_all add: c_def cold_def after_flush_def f' flush_data_of_def)
  have cd: "tx_counts (bp_db c) = Some tcs" "db_height (bp_db c) = height s" "hashes_file (bp_db c) = hashes_file ?d3"
      "tx_hash_cache (bp_db c) = Map.empty" "utxo_db (bp_db c) = utxo_db ?d3" "fs_height (bp_db c) = height s"
      "db_tx_count (bp_db c) = tx_count s" "fs_tx_count (bp_db c) = tx_count s" "db_tip (bp_db c) = tip s"
      "db_history (bp_db c) = h"
    unfolding keep(14) using fields by (simp_all add: invalidate_all_balances_def)
  have hok: "hash_ok (bp_db c) T"
    by (rule hash_okI [OF cd(1) assms(4,6)]) (use cd stored assms(5) in simp_all)
  have inv: "utxo_inv T (length T) c U"
    by (rule utxo_inv_disk) (use disk hok in \<open>simp_all only: cd(5) keep(8,13)\<close>)
  have cnt: "counts_ok T c tcs" unfolding counts_ok_def cd keep(1,3) using assms(4-6) u(2) by blast
  have "data_keys c" by (simp add: data_keys_def dict_keys_def keep)
  then have "chain_inv T (length T) c U"
    unfolding chain_inv_def cd(10) using inv cnt assms(8,14) by auto
  then have "flushed T c U tcs"
    unfolding flushed_def keep(1-13) cd using cnt stored assms(2,15) by auto
  then have "flushed T (cold ?s') U tcs" unfolding c_def .
  moreover have "height ?s' = height s" "tip ?s' = tip s" "touched ?s' = touched s" "db_history (bp_db ?s') = h"
    using fields(7) by (simp_all add: after_flush_def)
  ultimately show ?thesis using run by (intro exI [of _ ?s']) blast
qed

section \<open>The round trip\<close>

text \<open>A block taken from a flushed state is ready to be flushed.\<close>

lemma advance_pending:
  assumes "advance_block sha H ov cached_height blk s = Inr s1" and "flushed T s U tcs"
    and "apply_txs sha (length T) (transactions blk) U = Some (U', vss)" and "block_ok sha T (transactions blk)"
  shows "pending (T @ map snd (transactions blk)) (length T) s1 U' (tcs @ [length T + length (transactions blk)])"
proof -
  have f: "chain_inv T (length T) s U" "counts_ok T s tcs" "tx_hashes s = []" "fs_height (bp_db s) = height s"
      "db_height (bp_db s) = height s" "hashes_stored (hashes_file (bp_db s)) T" "-1 \<le> height s"
    using assms(2) by (simp_all add: flushed_def)
  from advance_block_rep [OF assms(1) f(1,2) assms(3,4)] obtain h c rb where
      a: "chain_inv (T @ map snd (transactions blk)) (length T) s1 U'"
        "bp_db s1 = (bp_db s)\<lparr>tx_hash_cache := c, db_history := h,
          tx_counts := Some (tcs @ [length T + length (transactions blk)]), raw_blocks := rb\<rparr>"
        "counts_ok (T @ map snd (transactions blk)) s1 (tcs @ [length T + length (transactions blk)])"
        "height s1 = height s + 1" "tx_hashes s1 = tx_hashes s @ [concat (map snd (transactions blk))]"
    by (elim exE conjE) (rule that, assumption+)
  have l32: "length h = 32" if "h \<in> set (T @ map snd (transactions blk))" for h
    using that f(6) assms(4) by (auto simp: hashes_stored_def block_ok_def tx_ok_def)
  have cnt: "if 0 \<le> height s then (tcs @ [length T + length (transactions blk)]) ! nat (height s) = length T
      else length T = 0"
  proof (cases tcs rule: rev_cases)
    case Nil
    then show ?thesis using f(2) by (simp add: counts_ok_def)
  next
    case (snoc ys y)
    with f(2) have "height s = int (length ys)" "y = length T" by (simp_all add: counts_ok_def)
    with snoc show ?thesis by (simp add: nth_append)
  qed
  show ?thesis unfolding pending_def
  proof (intro conjI)
    show "fs_height (bp_db s1) = db_height (bp_db s1)" "db_height (bp_db s1) < height s1" "-1 \<le> db_height (bp_db s1)"
      using f(4,5,7) by (simp_all add: a(2,4))
    show "if 0 \<le> db_height (bp_db s1) then (tcs @ [length T + length (transactions blk)]) ! nat (db_height (bp_db s1)) = length T
        else length T = 0"
    proof -
      have "db_height (bp_db s1) = height s" by (simp add: a(2) f(5))
      with cnt show ?thesis by simp
    qed
    show "hashes_stored (hashes_file (bp_db s1)) (take (length T) (T @ map snd (transactions blk)))" using f(6) by (simp add: a(2))
    show "concat (tx_hashes s1) = concat (drop (length T) (T @ map snd (transactions blk)))" using f(3) by (simp add: a(5))
  qed (use a(1,3) l32 in blast)+
qed

text \<open>What the state must give to undo its last block \<open>raw_block\<close>, taken at \<open>T\<close>, \<open>U\<close>, \<open>tcs\<close> and \<open>hist\<close>.\<close>

definition undoable ::
    "(bytes \<Rightarrow> bytes) \<Rightarrow> (bytes \<Rightarrow> bytes) \<Rightarrow> bytes \<Rightarrow> bytes list \<Rightarrow> utxo_map \<Rightarrow> nat list \<Rightarrow> (bytes \<Rightarrow> nat list) \<Rightarrow> 'o bp \<Rightarrow> bool" where
  "undoable sha H raw_block T U tcs hist s \<longleftrightarrow> (\<exists>blk U' vss ru.
     read_block sha raw_block = Inr blk \<and> block_ok sha T (transactions blk) \<and> H (header blk) = tip s
     \<and> apply_txs sha (length T) (transactions blk) U = Some (U', vss)
     \<and> flushed (T @ map snd (transactions blk)) s U' (tcs @ [length T + length (transactions blk)])
     \<and> (\<forall>op val. U op = Some val \<longrightarrow> entry_ok T op val) \<and> (\<forall>v \<in> set (concat vss). length v = 56)
     \<and> (if tcs = [] then 0 else last tcs) = length T
     \<and> read_undo_info (bp_db s) (height s) = Inr (Some (concat (concat vss)))
     \<and> read_ref_loc_undo_info (bp_db s) (height s) = Inr (Some ru)
     \<and> (\<forall>hX. length hX = 11 \<longrightarrow> history_of (db_history (bp_db s)) hX
         = hist hX @ touching hX (block_hashXs sha (length T) (transactions blk) vss) (length T)
         \<and> sorted_wrt (<) (hist hX) \<and> (\<forall>k \<in> set (hist hX). k < length T)))"

lemma undoable_below:
  assumes "sorted_wrt (<) old" and "\<forall>k \<in> set old. k < n"
  shows "sorted_wrt (<) (old @ touching hX xs n) \<and> (\<forall>k \<in> set (old @ touching hX xs n). k < n + length xs)"
  using assms set_touching [of _ hX xs n] sorted_touching [of hX xs n]
  by (auto simp: sorted_wrt_append intro: less_le_trans trans_less_add1)

text \<open>Undoing it gives back the state before it, whatever the overlays put into the batch beside the
  UTXO table.\<close>

lemma back_up_block:
  assumes "undoable sha H raw_block T U tcs hist s" and "0 < height s" and "touched_ok s"
    and "get_raw_block daemon_block hex_hash ht s = Inr raw_block"
    and "safe_backup ov s"
  shows "\<exists>s' blk. back_up_blocks sha H ov now daemon_block (hex_hash # rest) ht s
      = back_up_blocks sha H ov now daemon_block rest (ht - 1) s'
    \<and> flushed T s' U tcs \<and> height s' = height s - 1 \<and> read_block sha raw_block = Inr blk
    \<and> tip s' = header_prevhash (header blk) \<and> touched_ok s'
    \<and> (\<forall>hX. length hX = 11 \<longrightarrow> history_of (db_history (bp_db s')) hX = hist hX)"
proof -
  from assms(1) obtain blk U' vss ru where u: "read_block sha raw_block = Inr blk" "block_ok sha T (transactions blk)"
      "H (header blk) = tip s" "apply_txs sha (length T) (transactions blk) U = Some (U', vss)"
      "flushed (T @ map snd (transactions blk)) s U' (tcs @ [length T + length (transactions blk)])"
      "\<And>op val. U op = Some val \<Longrightarrow> entry_ok T op val" "\<forall>v \<in> set (concat vss). length v = 56"
      "(if tcs = [] then 0 else last tcs) = length T"
      "read_undo_info (bp_db s) (height s) = Inr (Some (concat (concat vss)))"
      "read_ref_loc_undo_info (bp_db s) (height s) = Inr (Some ru)"
      "\<And>hX. length hX = 11 \<Longrightarrow> history_of (db_history (bp_db s)) hX
         = hist hX @ touching hX (block_hashXs sha (length T) (transactions blk) vss) (length T)"
      "\<And>hX. length hX = 11 \<Longrightarrow> sorted_wrt (<) (hist hX) \<and> (\<forall>k \<in> set (hist hX). k < length T)"
    unfolding undoable_def by blast
  let ?xs = "block_hashXs sha (length T) (transactions blk) vss" and ?X = "map snd (transactions blk)"
  have "\<exists>s1 e. backup_block sha H raw_block s = Inr s1 \<and> undone (T @ ?X) T s1 U tcs
      \<and> height s1 = height s - 1 \<and> tip s1 = header_prevhash (header blk)
      \<and> bp_db s1 = (bp_db s)\<lparr>tx_hash_cache := e, tx_counts := Some tcs\<rparr> \<and> overlay_state s1 = overlay_state s
      \<and> \<Union> (set ` set ?xs) \<subseteq> touched s1"
    by (rule backup_block_rep [where ru = ru and c = "length T + length (transactions blk)"]; (rule u refl assms)?)
  then obtain s1 e where s1: "backup_block sha H raw_block s = Inr s1" "undone (T @ ?X) T s1 U tcs" "height s1 = height s - 1"
      "tip s1 = header_prevhash (header blk)" "bp_db s1 = (bp_db s)\<lparr>tx_hash_cache := e, tx_counts := Some tcs\<rparr>" "overlay_state s1 = overlay_state s"
      "\<Union> (set ` set ?xs) \<subseteq> touched s1" by blast
  have f: "chain_inv (T @ ?X) (length (T @ ?X)) s U'" "unflushed (db_history (bp_db s)) = []" "db_height (bp_db s) = height s"
      "hashes_stored (hashes_file (bp_db s)) (T @ ?X)"
      "counts_ok (T @ ?X) s (tcs @ [length T + length (transactions blk)])"
    using u(5) by (simp_all add: flushed_def)
  have co: "sorted tcs" "int (length tcs) = height s1 + 1"
    using f(5) by (simp_all add: counts_ok_def sorted_append s1(3))
  have hok: "history_ok (db_history (bp_db s))" "distinct (T @ ?X)" using f(1) unfolding chain_inv_def by blast+
  have "below (db_history (bp_db s)) (int (length T + length ?xs))"
    unfolding below_def
  proof (intro allI impI)
    fix hX :: bytes assume l: "length hX = 11"
    from undoable_below [of "hist hX" "length T" hX ?xs] u(12) [OF l]
    show "sorted_wrt (<) (history_of (db_history (bp_db s)) hX)
        \<and> (\<forall>n \<in> set (history_of (db_history (bp_db s)) hX). int n < int (length T + length ?xs))"
      unfolding u(11) [OF l] of_nat_less_iff by blast
  qed
  from backup_histories [OF hok(1) f(2) this, of s1 hist ?xs "length T"] s1(2,7) u(11,12)
  obtain h where h: "backup (db_history (bp_db s)) (sorted_list_of_set (touched s1)) (int (length T)) = Inr h"
      "history_ok h" "unflushed h = []" "\<forall>hX. length hX = 11 \<longrightarrow> history_of h hX = hist hX"
    by (auto simp: undone_def)
  have "\<exists>s2. bp_flush_backup ov now s1 = Inr s2 \<and> flushed T (cold s2) U tcs \<and> height s2 = height s1 \<and> tip s2 = tip s1
      \<and> touched s2 = touched s1 \<and> db_history (bp_db s2) = h"
  proof (rule bp_flush_backup_rep [OF s1(2) _ _ co u(8) _ hok(2) u(6)])
    show "backup_safe_at ov (bp_db s1) (height s1 + 1) (overlay_state s1)"
      using assms(5) by (simp add: safe_backup_def backup_safe_at_def index_view_def s1(3,5,6))
    show "db_height (bp_db s1) = height s1 + 1" using f(3) by (simp add: s1(3,5))
    show "0 \<le> height s1" "height s1 < db_height (bp_db s1)" using assms(2) f(3) by (simp_all add: s1(3,5))
  qed (use f(2,4) h in \<open>simp_all add: s1(5)\<close>)
  then obtain s2 where s2: "bp_flush_backup ov now s1 = Inr s2" "flushed T (cold s2) U tcs" "height s2 = height s1"
      "tip s2 = tip s1" "touched s2 = touched s1" "db_history (bp_db s2) = h" by blast
  have "back_up_blocks sha H ov now daemon_block (hex_hash # rest) ht s
      = back_up_blocks sha H ov now daemon_block rest (ht - 1) (cold s2)"
    by (simp add: assms(4) s1(1) s2(1) cold_def)
  moreover have "touched_ok (cold s2)" using s1(2) s2(5) by (simp add: undone_def touched_ok_def cold_def)
  moreover have "db_history (bp_db (cold s2)) = h" using s2(6) by (simp add: cold_def invalidate_all_balances_def)
  ultimately show ?thesis using s1(3,4) s2(2-4) h(4) u(1)
    by (intro exI [of _ "cold s2"] exI [of _ blk]) (simp add: cold_def)
qed

lemma advance_undoable:
  assumes "flushed T s U tcs" and "below (db_history (bp_db s)) (int (length T))"
    and "read_block sha raw_block = Inr blk" and "header_prevhash (header blk) = tip s"
    and "block_ok sha T (transactions blk)" and "apply_txs sha (length T) (transactions blk) U = Some (U', vss)"
    and "1 \<le> reorg_limit (bp_db s)"
    and "\<And>a. advance_block sha H ov (height s + 1) blk s = Inr a \<Longrightarrow> safe_flush ov a"
    and "advance_blocks sha H ov (height s + 1) cache_MB now [raw_block] s = Inr s1"
  shows "undoable sha H raw_block T U tcs (history_of (db_history (bp_db s))) s1 \<and> height s1 = height s + 1 \<and> touched s1 = {}
    \<and> read_raw_block (bp_db s1) (height s1) = Inr raw_block"
proof -
  let ?txs = "transactions blk"
  have f: "chain_inv T (length T) s U" "counts_ok T s tcs" "undo_infos s = []" "ref_loc_undo_infos s = []"
    using assms(1) by (simp_all add: flushed_def)
  obtain a where a: "advance_block sha H ov (height s + 1) blk s = Inr a"
    using assms(3,4,9) by (cases "advance_block sha H ov (height s + 1) blk s") (simp_all add: advance_blocks_def)
  have mh: "min_undo_height (bp_db s) (height s + 1) \<le> height s + 1" using assms(7) by (simp add: min_undo_height_def)
  from advance_block_rep [OF a f(1,2) assms(6,5)] obtain h c rb ru where
      b: "chain_inv (T @ map snd ?txs) (length T) a U'"
        "bp_db a = (bp_db s)\<lparr>tx_hash_cache := c, db_history := h, tx_counts := Some (tcs @ [length T + length ?txs]), raw_blocks := rb\<rparr>"
        "\<forall>hX. history_of h hX = history_of (db_history (bp_db s)) hX @ touching hX (block_hashXs sha (length T) ?txs vss) (length T)"
        "height a = height s + 1" "tip a = H (header blk)"
        "min_undo_height (bp_db s) (height s + 1) \<le> height s + 1 \<longrightarrow> undo_infos a = undo_infos s @ [(concat vss, height s + 1)]
          \<and> ref_loc_undo_infos a = ref_loc_undo_infos s @ [(ru, height s + 1)]"
        "\<forall>v \<in> set (concat vss). length v = 56" "flush_count h = flush_count (db_history (bp_db s))"
        "min_undo_height (bp_db s) (height s + 1) \<le> height s + 1 \<longrightarrow>
          rb = raw_blocks (write_raw_block (bp_db s) (raw blk) (height s + 1))"
    by (elim exE conjE) (rule that, assumption+)
  have undo: "undo_infos a = [(concat vss, height s + 1)]" "ref_loc_undo_infos a = [(ru, height s + 1)]"
    using b(6) mh f(3,4) by simp_all
  from assms(9) obtain a' where fl: "bp_flush ov now True a = Inr a'" and s1: "s1 = a'\<lparr>touched := {}\<rparr>"
    by (auto simp: advance_blocks_def assms(3,4) a b(4) rbind_eq_Inr)
  note rep = bp_flush_rep [OF fl advance_pending [OF a assms(1,6,5)] assms(8) [OF a]]
  then have
      r: "flushed (T @ map snd ?txs) a' U' (tcs @ [length T + length ?txs])" "height a' = height a" "tip a' = tip a"
        "\<forall>hX. length hX = 11 \<longrightarrow> history_of (db_history (bp_db a')) hX = history_of (db_history (bp_db a)) hX"
        "raw_blocks (bp_db a') = raw_blocks (bp_db a)"
    by blast+
  from rep have "\<forall>u ru ht. ht = height a \<and> undo_infos a = [(u, ht)] \<and> ref_loc_undo_infos a = [(ru, ht)] \<longrightarrow>
        read_undo_info (bp_db a') ht = Inr (Some (concat u)) \<and> (\<exists>v. read_ref_loc_undo_info (bp_db a') ht = Inr (Some v))"
    by (elim conjE)
  from this [rule_format, of "height s + 1" "concat vss" ru] undo b(4) obtain v where
      v: "read_undo_info (bp_db a') (height s + 1) = Inr (Some (concat (concat vss)))"
        "read_ref_loc_undo_info (bp_db a') (height s + 1) = Inr (Some v)" by (simp only:) blast
  have keep: "bp_db s1 = bp_db a'" "height s1 = height a'" "tip s1 = tip a'" by (simp_all add: s1)
  have "utxo_inv T (length T) s U" using f(1) by (simp add: chain_inv_def)
  then have e: "entry_ok T op val" if "U op = Some val" for op val using utxo_inv_entry that by blast
  have fl1: "flushed (T @ map snd ?txs) s1 U' (tcs @ [length T + length ?txs])"
  proof -
    have "utxo_inv T' F (a'\<lparr>touched := {}\<rparr>) U'' = utxo_inv T' F a' U''" for T' F U'' by (rule utxo_inv_cong) simp_all
    then show ?thesis using r(1) unfolding s1 flushed_def chain_inv_def counts_ok_def data_keys_def by simp
  qed
  have last: "(if tcs = [] then 0 else last tcs) = length T" using f(2) by (simp add: counts_ok_def)
  have hist: "history_of (db_history (bp_db a')) hX = history_of (db_history (bp_db s)) hX
         @ touching hX (block_hashXs sha (length T) ?txs vss) (length T)
       \<and> sorted_wrt (<) (history_of (db_history (bp_db s)) hX) \<and> (\<forall>k \<in> set (history_of (db_history (bp_db s)) hX). k < length T)"
    if "length hX = 11" for hX
    using r(4) b(2,3) assms(2) that by (simp add: below_def)
  have ht: "height a' = height s + 1" using r(2) b(4) by simp
  have "undoable sha H raw_block T U tcs (history_of (db_history (bp_db s))) s1"
    unfolding undoable_def keep ht
    by (rule exI [of _ blk], rule exI [of _ U'], rule exI [of _ vss], rule exI [of _ v])
      (intro conjI allI impI assms(3,5,6) fl1 e b(7) last v, use r(3) b(5) hist in simp_all)
  moreover have "raw blk = raw_block" using assms(3) by (auto simp: read_block_def rbind_eq_Inr Let_def)
  then have "read_raw_block (bp_db s1) (height s + 1) = Inr raw_block"
    using r(5) b(9) mh assms(7)
    by (simp add: keep b(2) read_raw_block_def write_raw_block_def min_undo_height_def map_of_dict_del map_of_dict_set)
  ultimately show ?thesis using ht by (simp add: s1)
qed

end
