(* ===== verification/Progress.thy ===== *)
theory Progress
  imports Reorg
begin

text \<open>
  Nothing raises while a valid block is taken: the inputs find the outputs they spend, the guards of
  the reference block and of the overlays catch what they are meant to catch, and the assertions of
  the flush hold.
\<close>

section \<open>Returning\<close>

definition returns :: "'a res \<Rightarrow> bool" where
  "returns r \<longleftrightarrow> (case r of Inl e \<Rightarrow> False | Inr x \<Rightarrow> True)"

lemma returns_simps [simp]: "returns (Inr x)" "\<not> returns (Inl e)"
  by (simp_all add: returns_def)

lemma returns_Inr: "returns r \<longleftrightarrow> (\<exists>x. r = Inr x)"
  by (cases r) simp_all

lemma returns_rbind: "returns r \<Longrightarrow> (\<And>x. r = Inr x \<Longrightarrow> returns (f x)) \<Longrightarrow> returns (rbind r f)"
  by (cases r) simp_all

section \<open>Inputs and outputs\<close>

lemma advance_input_total:
  assumes "utxo_inv T F s U" and "\<not> is_generation txin \<Longrightarrow> \<exists>val. U (outpoint txin) = Some val"
    and "length (prev_hash txin) = 32" and "prev_idx txin < 2 ^ 32"
  shows "returns (advance_input ov (s, blk, acc) txin)"
proof (cases "is_generation txin")
  case True
  then show ?thesis by (simp add: advance_input_def)
next
  case False
  with assms(2) obtain val where val: "U (outpoint txin) = Some val" by blast
  from spend_utxo_rep [OF assms(1) val [unfolded outpoint_def] assms(3,4)] obtain s1
    where s1: "spend_utxo (prev_hash txin) (prev_idx txin) s = Inr (s1, val)" by blast
  have "8 \<le> length val" using entry_okD(2) [OF utxo_inv_entry [OF assms(1) val]] by simp
  from unpack_last8 [OF this] obtain n where "unpack_le_uint64 (takelast 8 val) = Inr n" ..
  with False s1 show ?thesis
    by (cases "analytics_index ov = None"; cases "if glyph_index ov \<noteq> None
          then truthy (py_or (map_of (ref_cache s) (prev_hash txin @ le_enc 4 (prev_idx txin)))
            (kv_get (utxo_db (bp_db s)) (114 # 105 # prev_hash txin @ le_enc 4 (prev_idx txin)))) else None")
      (simp_all add: advance_input_def pack_idx [OF assms(4)] Let_def)
qed

lemma advance_inputs_total:
  assumes "utxo_inv T F s U" and "spend_all U (map outpoint (filter (\<lambda>i. \<not> is_generation i) ins)) \<noteq> None"
    and "\<forall>i \<in> set ins. length (prev_hash i) = 32 \<and> prev_idx i < 2 ^ 32"
  shows "returns (foldM (advance_input ov) (s, blk, acc) ins)"
  using assms
proof (induction ins arbitrary: s blk acc U)
  case (Cons txin ins)
  have "\<exists>val. U (outpoint txin) = Some val" if "\<not> is_generation txin"
    using Cons.prems(2) that by (auto split: option.splits)
  then obtain s1 blk1 acc1 where st: "advance_input ov (s, blk, acc) txin = Inr (s1, blk1, acc1)"
    using advance_input_total [OF Cons.prems(1), of txin ov blk acc] Cons.prems(3) by (auto simp: returns_Inr)
  have "returns (foldM (advance_input ov) (s1, blk1, acc1) ins)"
  proof (cases "is_generation txin")
    case True
    then have "s1 = s" using st by (simp add: advance_input_def)
    then show ?thesis using Cons.IH [of s U blk1 acc1] Cons.prems True by simp
  next
    case False
    with Cons.prems(2) obtain val where v: "U (outpoint txin) = Some val"
        "spend_all (U(outpoint txin := None)) (map outpoint (filter (\<lambda>i. \<not> is_generation i) ins)) \<noteq> None"
      by (auto split: option.splits)
    have "utxo_inv T F s1 (U(outpoint txin := None))"
      using advance_input_rep [OF st Cons.prems(1) False v(1)] Cons.prems(3) by simp
    then show ?thesis using v(2) Cons.prems(3) by (intro Cons.IH [of s1 "U(outpoint txin := None)"]) (simp_all del: fun_upd_apply)
  qed
  with st show ?case by simp
qed simp

lemma refs_value_error: "refs_value normal single keys = Inl e \<Longrightarrow> e = AssertionError"
  by (induction keys arbitrary: e) (auto simp: rbind_eq_Inl split: if_splits)

lemma advance_refs_total: "returns (advance_refs sha ov tx_hash spent cache_key idx txout st)"
proof (cases "get_push_input_refs (pk_script txout)")
  case (Inl e)
  then show ?thesis using get_push_input_refs_error [OF Inl] by (simp add: advance_refs_def script_parse_errors_def)
next
  case (Inr p)
  obtain a n g where p: "p = (a, n, g)" by (cases p)
  show ?thesis
  proof (cases "refs_value (dedup_refs n) (dedup_refs g) (dict_keys (dedup_refs a))")
    case (Inl e)
    then show ?thesis using refs_value_error [OF Inl] Inr by (simp add: p advance_refs_def script_parse_errors_def Let_def)
  next
    case (Inr v)
    then show ?thesis using \<open>get_push_input_refs (pk_script txout) = Inr p\<close> by (simp add: p advance_refs_def Let_def)
  qed
qed

text \<open>An output's value must fit the unsigned 64-bit field, unless the output is not indexed.\<close>

definition value_ok :: "TxOutput \<Rightarrow> bool" where
  "value_ok out \<longleftrightarrow> 0 \<le> out_value out \<and> out_value out < 2 ^ 64"

lemma advance_output_total:
  assumes "idx < 2 ^ 32" and "value_ok txout"
  shows "returns (advance_output sha ov tx_hash numb spent (s, blk, acc) (idx, txout))"
proof (cases "output_indexable (pk_script txout) = Inr True")
  case False
  then show ?thesis by (simp add: advance_output_def output_indexable_eq)
next
  case True
  then obtain zr where zr: "zero_refs (pk_script txout) = Inr zr" by (auto simp: output_indexable_eq)
  obtain i where csh: "codeScriptHash_from_script sha (pk_script txout) = Inr (sha (drop i (pk_script txout)))"
    using zero_refs_csh [OF zr] by blast
  have "pack_le_uint64 (out_value txout) = Inr (le_enc 8 (nat (out_value txout)))"
    using assms(2) by (simp add: value_ok_def pack_le_uint64_def pack_uint_def)
  then show ?thesis using True zr csh
    by (simp add: advance_output_def pack_idx [OF assms(1)] Let_def advance_refs_total)
qed

lemma advance_outputs_total:
  assumes "i + length outs \<le> 2 ^ 32" and "\<forall>out \<in> set outs. value_ok out"
  shows "returns (foldM (advance_output sha ov tx_hash numb spent) (s, blk, acc) (enumerate i outs))"
  using assms
proof (induction outs arbitrary: i s blk acc)
  case (Cons out outs)
  then have "i < 2 ^ 32" by simp
  with Cons.prems(2) obtain s1 blk1 acc1
    where "advance_output sha ov tx_hash numb spent (s, blk, acc) (i, out) = Inr (s1, blk1, acc1)"
    using advance_output_total [of i out sha ov tx_hash numb spent s blk acc] by (auto simp: returns_Inr)
  moreover have "Suc i + length outs \<le> 2 ^ 32" "\<forall>out \<in> set outs. value_ok out" using Cons.prems by simp_all
  ultimately show ?case using Cons.IH [of "Suc i" s1 blk1 acc1] by simp
qed simp

section \<open>Overlays\<close>

text \<open>The overlays may raise anything but \<open>MemoryError\<close>, which is raised again.\<close>

definition calm :: "('o \<times> 'a res) \<Rightarrow> bool" where
  "calm call \<longleftrightarrow> snd call \<noteq> Inl MemoryError"

definition calm_overlay :: "('o, 'e) overlay option \<Rightarrow> bool" where
  "calm_overlay overlay \<longleftrightarrow> (\<forall>f d ctx env o'. overlay = Some f \<longrightarrow> calm (f d ctx env o'))"

definition calm_overlays :: "('o, 'e) overlays \<Rightarrow> bool" where
  "calm_overlays ov \<longleftrightarrow> (\<forall>f d ctx o'. glyph_index ov = Some f \<longrightarrow> calm (f d ctx o'))
     \<and> (\<forall>d h ds cs o'. calm (glyph_balances ov d h ds cs o'))
     \<and> calm_overlay (wave_index ov) \<and> calm_overlay (realm_index ov) \<and> calm_overlay (swap_index ov)
     \<and> calm_overlay (predict_index ov) \<and> calm_overlay (royalty_index ov)
     \<and> (\<forall>f d h ss as o'. analytics_index ov = Some f \<longrightarrow> calm (f d h ss as o'))"

lemma guarded_total: "calm call \<Longrightarrow> returns (guarded s call dflt)"
  by (cases call; cases "snd call") (auto simp: guarded_def calm_def Let_def)

lemma run_overlay_total: "calm_overlay overlay \<Longrightarrow> returns (run_overlay overlay wanted ctx env s)"
  by (auto simp: run_overlay_def calm_overlay_def split: option.split intro!: returns_rbind guarded_total)

lemma run_overlays_total:
  assumes "calm_overlays ov"
  shows "returns (run_overlays ov ctx acc s)"
proof (cases "glyph_index ov")
  case (Some glyph)
  note c = assms [unfolded calm_overlays_def]
  have g: "returns (guarded s (glyph (bp_db s) ctx (overlay_state s)) None)" using c Some by (intro guarded_total) blast
  have b: "returns (if balance_debits acc \<noteq> [] \<or> balance_credits acc \<noteq> []
      then rbind (guarded s (glyph_balances ov (bp_db s) (height s + 1) (balance_debits acc) (balance_credits acc)
               (overlay_state s)) ()) (\<lambda>(s, _). Inr s)
      else Inr s)" for s
    using c by (auto intro!: returns_rbind guarded_total)
  show ?thesis unfolding run_overlays_def Some option.case
    by (rule returns_rbind [OF g], clarify, intro returns_rbind run_overlay_total) (use c b in blast)+
qed (simp add: run_overlays_def)

lemma run_analytics_total: "calm_overlays ov \<Longrightarrow> returns (run_analytics ov blk s)"
  by (auto simp: run_analytics_def calm_overlays_def split: option.split intro!: returns_rbind guarded_total)

section \<open>Transactions and blocks\<close>

definition tx_values_ok :: "Tx \<times> bytes \<Rightarrow> bool" where
  "tx_values_ok txh \<longleftrightarrow> (\<forall>out \<in> set (tx_outputs (fst txh)). value_ok out)"

lemma advance_tx_total:
  assumes "utxo_inv T F s U" and "apply_tx sha n (tx, tx_hash) U \<noteq> None" and "tx_ok (tx, tx_hash)"
    and "tx_values_ok (tx, tx_hash)" and "calm_overlays ov" and "n < 2 ^ 64"
  shows "returns (advance_tx sha ov (s, blk, int n) (tx, tx_hash))"
proof -
  have tx: "length (tx_outputs tx) \<le> 2 ^ 32" "\<forall>i \<in> set (tx_inputs tx). length (prev_hash i) = 32 \<and> prev_idx i < 2 ^ 32"
    using assms(3) by (simp_all add: tx_ok_def)
  obtain b where b: "pack_le_uint64 (int n) = Inr b" using assms(6) by (simp add: pack_le_uint64_def pack_uint_def)
  obtain S where S: "spent_outpoints tx = Inr S" using spent_outpoints_ok tx(2) by blast
  have "spend_all U (map outpoint (filter (\<lambda>i. \<not> is_generation i) (tx_inputs tx))) \<noteq> None"
    using assms(2) by (auto simp: apply_tx_def spent_inputs_def)
  note ins = advance_inputs_total [OF assms(1) this tx(2)]
  have outs: "returns (foldM (advance_output sha ov tx_hash numb S) st (enumerate 0 (tx_outputs tx)))" for numb st
    using advance_outputs_total [of 0 "tx_outputs tx"] tx(1) assms(4) by (cases st) (simp add: tx_values_ok_def)
  show ?thesis unfolding advance_tx_def prod.case b S rbind_simps Let_def
    by (intro returns_rbind ins) (auto intro!: returns_rbind outs run_overlays_total assms(5))
qed

lemma advance_tx_loop_total:
  assumes "utxo_inv T F s U" and "apply_txs sha n txs U \<noteq> None"
    and "\<forall>txh \<in> set txs. tx_ok txh \<and> tx_values_ok txh" and "digest32 sha" and "calm_overlays ov"
    and "T = pre @ map snd txs" and "length pre = n" and "distinct T" and "known U pre" and "length T \<le> 2 ^ 40"
  shows "returns (foldM (advance_tx sha ov) (s, blk, int n) txs)"
  using assms(1-3,6,7,9)
proof (induction txs arbitrary: n s blk U pre)
  case (Cons txh txs)
  obtain tx h where txh: "txh = (tx, h)" by (cases txh)
  from Cons.prems(2) obtain U1 vs where ap: "apply_tx sha n (tx, h) U = Some (U1, vs)" "apply_txs sha (n + 1) txs U1 \<noteq> None"
    by (auto simp: txh split: option.splits)
  have ok: "tx_ok (tx, h)" "tx_values_ok (tx, h)" using Cons.prems(3) txh by simp_all
  have T: "T ! n = h" "n < length T" "h \<notin> set pre"
    using Cons.prems(4,5) assms(8) by (auto simp: txh nth_append)
  have n40: "n < 2 ^ 40" using T(2) assms(10) by simp
  have fresh: "take 32 op \<noteq> h" if "op \<in> dom U" for op using Cons.prems(6) T(3) that by (auto simp: known_def)
  have "returns (advance_tx sha ov (s, blk, int n) (tx, h))"
    using advance_tx_total [OF Cons.prems(1) _ ok assms(5), where sha = sha and n = n and blk = blk] ap(1) n40 by simp
  then obtain s1 blk1 m where st: "advance_tx sha ov (s, blk, int n) (tx, h) = Inr (s1, blk1, m)"
    by (auto simp: returns_Inr)
  have one: "utxo_inv T F s1 U1" "m = int (n + 1)"
    using advance_tx_rep [OF st Cons.prems(1) ap(1) ok(1) fresh assms(4) T(2,1) n40] by blast+
  have "length h = 32" using ok(1) by (simp add: tx_ok_def)
  then have "known U1 (pre @ [h])" using known_apply_tx [OF ap(1) Cons.prems(6)] by simp
  then have "returns (foldM (advance_tx sha ov) (s1, blk1, int (n + 1)) txs)"
    using ap(2) Cons.prems(3-5) one(1) by (intro Cons.IH [of s1 U1 "n + 1" "pre @ [h]"]) (simp_all add: txh)
  then show ?case using st one(2) by (simp add: txh)
qed simp

lemma advance_txs_total:
  assumes "chain_inv T F s U" and "apply_txs sha (length T) txs U \<noteq> None"
    and "\<forall>txh \<in> set txs. tx_ok txh \<and> tx_values_ok txh" and "digest32 sha" and "calm_overlays ov"
    and "distinct (T @ map snd txs)" and "length T + length txs \<le> 2 ^ 40" and "counts_ok T s tcs"
  shows "returns (advance_txs sha ov txs s)"
proof -
  let ?T = "T @ map snd txs"
  let ?s0 = "s\<lparr>tx_hashes := tx_hashes s @ [concat (map snd txs)]\<rparr>"
  let ?blk = "\<lparr>undo_info = [], ref_loc_undo = [], analytics_spends = [], analytics_adds = [], hashXs_by_tx = [], mints = {}\<rparr>"
  have inv: "utxo_inv T F s U" "F \<le> length T" using assms(1) by (simp_all add: chain_inv_def)
  have n: "tx_count s = int (length T)" "tx_counts (bp_db s) = Some tcs" using assms(8) by (simp_all add: counts_ok_def)
  have "utxo_inv T F ?s0 U" using inv(1) utxo_inv_cong [of ?s0 s T F U] by simp
  then have inv0: "utxo_inv ?T F ?s0 U" using inv(2) by (rule utxo_inv_more)
  have l: "length ?T \<le> 2 ^ 40" using assms(7) by simp
  have "returns (foldM (advance_tx sha ov) (?s0, ?blk, int (length T)) txs)"
    by (rule advance_tx_loop_total [OF inv0 assms(2-5) refl refl assms(6) utxo_inv_known [OF inv(1)] l])
  then obtain s1 blk1 m where st: "foldM (advance_tx sha ov) (?s0, ?blk, int (length T)) txs = Inr (s1, blk1, m)"
    by (auto simp: returns_Inr)
  obtain U' vss where ap: "apply_txs sha (length T) txs U = Some (U', vss)" using assms(2) by auto
  have "\<forall>txh \<in> set txs. tx_ok txh" using assms(3) by blast
  from advance_tx_loop [OF st inv0 ap this assms(4) refl refl assms(6) utxo_inv_known [OF inv(1)] l]
  have loop: "same_block ?s0 s1" "m = int (length T + length txs)"
      "hashXs_by_tx blk1 = block_hashXs sha (length T) txs vss"
    by simp_all
  have len: "length (hashXs_by_tx blk1) = length txs"
    unfolding loop(3) by (rule length_block_hashXs [OF apply_txs_length [OF ap]])
  obtain s2 where s2: "run_analytics ov blk1 s1 = Inr s2"
    using run_analytics_total [OF assms(5), of blk1 s1] by (auto simp: returns_Inr)
  have same: "same_block ?s0 s2"
    using only_overlays_utxos [OF run_analytics_same [OF s2]] loop(1) same_block_trans unfolding same_utxos_def by blast
  then obtain c where c: "bp_db s2 = (bp_db s)\<lparr>tx_hash_cache := c\<rparr>" by (auto simp: same_block_def)
  have tc: "tx_count s2 = int (length T)" using same n(1) by (simp add: same_block_def)
  obtain h where h: "add_unflushed (db_history (bp_db s2)) (hashXs_by_tx blk1) (int (length T)) = Inr h"
    using add_unflushed_total [of "length T" "hashXs_by_tx blk1"] len assms(7) unfolding add_unflushed_def by fastforce
  have "0 \<le> m \<and> m < 2 ^ 64" using assms(7) unfolding loop(2) by simp
  then show ?thesis
    by (simp add: advance_txs_def Let_def n st s2 tc h c [symmetric] counts_def) (simp add: c n(2))
qed

lemma advance_block_total:
  assumes "chain_inv T F s U" and "counts_ok T s tcs" and "apply_txs sha (length T) (transactions blk) U \<noteq> None"
    and "block_ok sha T (transactions blk)" and "\<forall>txh \<in> set (transactions blk). tx_values_ok txh" and "calm_overlays ov"
  shows "returns (advance_block sha H ov cached_height blk s)"
proof -
  have "returns (advance_txs sha ov (transactions blk) s)"
    using assms(4,5) by (intro advance_txs_total [OF assms(1,3) _ _ assms(6) _ _ assms(2)]) (auto simp: block_ok_def)
  then show ?thesis by (auto simp: advance_block_def Let_def returns_Inr)
qed

section \<open>The flush\<close>

text \<open>Heights and flush numbers must fit their 4-byte fields.\<close>

lemma flush_fs_total:
  assumes "tx_counts d = Some tcs" and "if 0 \<le> fs_height d then nat (fs_height d) < length tcs \<and> tcs ! nat (fs_height d) = F else F = 0"
    and "length (fd_block_tx_hashes f) = length (fd_headers f)" and "fd_height f = fs_height d + int (length (fd_headers f))"
    and "fd_tx_count f = (if tcs = [] then 0 else int (last tcs))" and "int (length tcs) = fd_height f + 1"
    and "length (concat (fd_block_tx_hashes f)) = 32 * k" and "fd_tx_count f = int F + int k"
  shows "returns (flush_fs d f)"
proof -
  have "(if fs_height d \<ge> 0 then py_index tcs (fs_height d) else Inr 0) = Inr F"
    using assms(2) by (simp add: py_index_def index_def split: if_splits)
  then show ?thesis using assms(1,3-8) by (simp add: flush_fs_def counts_def py_assert_def Let_def)
qed

lemma flush_returns: "0 \<le> flush_count h + 1 \<Longrightarrow> flush_count h + 1 < 2 ^ 32 \<Longrightarrow> returns (flush h)"
  by (simp add: flush_def pack_be_uint32_def pack_uint_def returns_Inr Let_def commit_def)

lemma undo_infos_total:
  assumes "0 \<le> ht" and "ht < 2 ^ 32" and "fd_undo_infos f = [(u, ht)]" and "fd_ref_loc_undo_infos f = [(ru, ht)]"
  shows "returns (flush_utxo_db d f)"
  using assms by (simp add: flush_utxo_db_def flush_undo_infos_def flush_ref_loc_undo_infos_def undo_key_def
      ref_loc_undo_key_def pack_be_uint32_def pack_uint_def)

lemma bp_flush_total:
  assumes "advance_block sha H ov cached_height blk s = Inr s1" and "flushed T s U tcs"
    and "apply_txs sha (length T) (transactions blk) U = Some (U', vss)" and "block_ok sha T (transactions blk)"
    and "min_undo_height (bp_db s) cached_height \<le> height s + 1" and "0 \<le> height s + 1" and "height s + 1 < 2 ^ 32"
    and "0 \<le> flush_count (db_history (bp_db s)) + 1" and "flush_count (db_history (bp_db s)) + 1 < 2 ^ 32"
    and "safe_flush ov s1"
  shows "returns (bp_flush ov now True s1)"
proof -
  let ?txs = "transactions blk" and ?f = "flush_data_of s1" and ?tcs = "tcs @ [length T + length (transactions blk)]"
  have fl: "chain_inv T (length T) s U" "counts_ok T s tcs" "headers s = []" "tx_hashes s = []" "undo_infos s = []"
      "ref_loc_undo_infos s = []" "fs_height (bp_db s) = height s" "db_height (bp_db s) = height s"
    using assms(2) by (simp_all add: flushed_def)
  from advance_block_rep [OF assms(1) fl(1,2) assms(3,4)] obtain h c rb ru where
      a: "bp_db s1 = (bp_db s)\<lparr>tx_hash_cache := c, db_history := h, tx_counts := Some ?tcs, raw_blocks := rb\<rparr>"
        "counts_ok (T @ map snd ?txs) s1 ?tcs"
        "height s1 = height s + 1" "headers s1 = headers s @ [header blk]" "tx_hashes s1 = tx_hashes s @ [concat (map snd ?txs)]"
        "min_undo_height (bp_db s) cached_height \<le> height s + 1 \<longrightarrow> undo_infos s1 = undo_infos s @ [(concat vss, height s + 1)]
          \<and> ref_loc_undo_infos s1 = ref_loc_undo_infos s @ [(ru, height s + 1)]"
        "flush_count h = flush_count (db_history (bp_db s))"
    by (elim exE conjE) (rule that, assumption+)
  have "pending (T @ map snd ?txs) (length T) s1 U' ?tcs" by (rule advance_pending [OF assms(1-4)])
  then have nth: "if 0 \<le> db_height (bp_db s1) then ?tcs ! nat (db_height (bp_db s1)) = length T else length T = 0"
    unfolding pending_def by (elim conjE) assumption
  have db: "db_height (bp_db s1) = height s" "fs_height (bp_db s1) = height s" "tx_counts (bp_db s1) = Some ?tcs"
      "db_history (bp_db s1) = h"
    using fl(7,8) by (simp_all add: a(1))
  have l32: "\<forall>h \<in> set (map snd ?txs). length h = 32" using assms(4) by (auto simp: block_ok_def tx_ok_def)
  have hl: "length (concat (tx_hashes s1)) = 32 * length ?txs"
    using length_concat32 [OF l32] fl(4) by (simp add: a(5))
  have lt: "int (length tcs) = height s + 1" "tx_count s1 = int (length T + length ?txs)"
    using fl(2) a(2) by (simp_all add: counts_ok_def)
  have "returns (flush_fs (bp_db s1) ?f)"
  proof (rule flush_fs_total [where tcs = ?tcs and F = "length T" and k = "length ?txs"])
    show "if 0 \<le> fs_height (bp_db s1) then nat (fs_height (bp_db s1)) < length ?tcs \<and> ?tcs ! nat (fs_height (bp_db s1)) = length T
        else length T = 0"
      using nth lt(1) unfolding db by auto
  qed (use db hl lt a(3-5) fl(3,4) in \<open>simp_all add: flush_data_of_def\<close>)
  then obtain d1 f1 where f1: "flush_fs (bp_db s1) ?f = Inr (d1, f1)" by (auto simp: returns_Inr)
  from flush_fs_eq [OF f1 db(3)] have d1: "db_history d1 = h" "f1 = ?f\<lparr>fd_headers := [], fd_block_tx_hashes := []\<rparr>"
      "utxo_db d1 = utxo_db (bp_db s1)" "reorg_limit d1 = reorg_limit (bp_db s1)" "coin_of d1 = coin_of (bp_db s1)"
    using db(4) by auto
  have "returns (flush (db_history d1))" using flush_returns assms(8,9) a(7) d1(1) by simp
  then obtain h' where h': "flush (db_history d1) = Inr h'" by (auto simp: returns_Inr)
  have "returns (flush_utxo_db (d1\<lparr>db_history := h'\<rparr>) f1)"
    using assms(5-7) a(6) fl(5,6) by (intro undo_infos_total [of "height s + 1" f1 "concat vss" ru]) (simp_all add: d1(2) flush_data_of_def)
  then obtain bops d2 f2 where f2: "flush_utxo_db (d1\<lparr>db_history := h'\<rparr>) f1 = Inr (bops, d2, f2)" by (auto simp: returns_Inr)
  have "fd_height ?f \<noteq> db_height (bp_db s1)" using a(3) db(1) by (simp add: flush_data_of_def)
  moreover have "index_view (bp_db s1) (height s1) d2"
    using flush_utxo_db_eq [OF f2] d1 by (auto simp: index_view_def flush_data_of_def)
  then obtain iops o' where "index_flush ov d2 (overlay_state s1) = Inr (iops, o')"
    using assms(10) unfolding safe_flush_def by blast
  ultimately show ?thesis by (simp add: bp_flush_def flush_dbs_def f1 h' f2 Let_def returns_Inr)
qed

section \<open>A valid block\<close>

text \<open>A raw block that extends the chain \<open>T\<close> with unspent outputs \<open>U\<close>: it parses, names the tip, its
  transactions are new and well formed, spend outputs of the set and pay representable values.\<close>

definition extends :: "(bytes \<Rightarrow> bytes) \<Rightarrow> bytes list \<Rightarrow> utxo_map \<Rightarrow> bytes \<Rightarrow> bytes \<Rightarrow> block \<Rightarrow> bool" where
  "extends sha T U tip_hash raw_block blk \<longleftrightarrow> read_block sha raw_block = Inr blk \<and> header_prevhash (header blk) = tip_hash
     \<and> block_ok sha T (transactions blk) \<and> (\<forall>txh \<in> set (transactions blk). tx_values_ok txh)
     \<and> apply_txs sha (length T) (transactions blk) U \<noteq> None"

text \<open>The state has room for another block, and keeps undo information.\<close>

definition room :: "'o bp \<Rightarrow> bool" where
  "room s \<longleftrightarrow> 0 \<le> height s + 1 \<and> height s + 1 < 2 ^ 32 \<and> 1 \<le> reorg_limit (bp_db s)
     \<and> 0 \<le> flush_count (db_history (bp_db s)) + 1 \<and> flush_count (db_history (bp_db s)) + 1 < 2 ^ 32"

lemma advance_blocks_total:
  assumes "flushed T s U tcs" and "extends sha T U (tip s) raw_block blk" and "calm_overlays ov" and "room s"
    and "\<And>a. advance_block sha H ov (height s + 1) blk s = Inr a \<Longrightarrow> safe_flush ov a"
  shows "returns (advance_blocks sha H ov (height s + 1) cache_MB now [raw_block] s)"
proof -
  have e: "read_block sha raw_block = Inr blk" "header_prevhash (header blk) = tip s" "block_ok sha T (transactions blk)"
      "\<forall>txh \<in> set (transactions blk). tx_values_ok txh" "apply_txs sha (length T) (transactions blk) U \<noteq> None"
    using assms(2) by (simp_all add: extends_def)
  have f: "chain_inv T (length T) s U" "counts_ok T s tcs" using assms(1) by (simp_all add: flushed_def)
  have "returns (advance_block sha H ov (height s + 1) blk s)" by (rule advance_block_total [OF f e(5,3,4) assms(3)])
  then obtain a where a: "advance_block sha H ov (height s + 1) blk s = Inr a" by (auto simp: returns_Inr)
  obtain U' vss where ap: "apply_txs sha (length T) (transactions blk) U = Some (U', vss)" using e(5) by auto
  have ht: "height a = height s + 1" using advance_block_rep [OF a f ap e(3)] by blast
  have "returns (bp_flush ov now True a)"
    using assms(4) by (intro bp_flush_total [OF a assms(1) ap e(3) _ _ _ _ _ assms(5) [OF a]]) (simp_all add: room_def min_undo_height_def)
  then show ?thesis by (auto simp: advance_blocks_def e(1,2) a ht returns_Inr)
qed

text \<open>The block is taken and flushed, and the ledger says what the database then holds.\<close>

lemma block_taken:
  assumes "flushed T s U tcs" and "extends sha T U (tip s) raw_block blk" and "calm_overlays ov" and "room s"
    and "apply_txs sha (length T) (transactions blk) U = Some (U', vss)"
    and "\<And>a. advance_block sha H ov (height s + 1) blk s = Inr a \<Longrightarrow> safe_flush ov a"
    and "below (db_history (bp_db s)) (int (length T))"
  shows "\<exists>s'. advance_blocks sha H ov (height s + 1) cache_MB now [raw_block] s = Inr s'
    \<and> undoable sha H raw_block T U tcs (history_of (db_history (bp_db s))) s' \<and> touched_ok s'
    \<and> read_raw_block (bp_db s') (height s + 1) = Inr raw_block
    \<and> flushed (T @ map snd (transactions blk)) s' U' (tcs @ [length T + length (transactions blk)])
    \<and> height s' = height s + 1 \<and> tip s' = H (header blk)
    \<and> (\<forall>hX. length hX = 11 \<longrightarrow> history_of (db_history (bp_db s')) hX = history_of (db_history (bp_db s)) hX
        @ touching hX (block_hashXs sha (length T) (transactions blk) vss) (length T))"
proof -
  have "returns (advance_blocks sha H ov (height s + 1) cache_MB now [raw_block] s)" by (rule advance_blocks_total [OF assms(1-4,6)])
  then obtain s' where s': "advance_blocks sha H ov (height s + 1) cache_MB now [raw_block] s = Inr s'"
    by (auto simp: returns_Inr)
  have e: "read_block sha raw_block = Inr blk" "header_prevhash (header blk) = tip s" "block_ok sha T (transactions blk)"
    using assms(2) by (simp_all add: extends_def)
  have rl: "1 \<le> reorg_limit (bp_db s)" using assms(4) by (simp add: room_def)
  have u: "undoable sha H raw_block T U tcs (history_of (db_history (bp_db s))) s'" "height s' = height s + 1" "touched s' = {}"
      "read_raw_block (bp_db s') (height s') = Inr raw_block"
    using advance_undoable [OF assms(1,7) e assms(5) rl assms(6) s'] by blast+
  from u(1) obtain blk2 U2 vss2 where v: "read_block sha raw_block = Inr blk2"
      "apply_txs sha (length T) (transactions blk2) U = Some (U2, vss2)" "H (header blk2) = tip s'"
      "flushed (T @ map snd (transactions blk2)) s' U2 (tcs @ [length T + length (transactions blk2)])"
      "\<forall>hX. length hX = 11 \<longrightarrow> history_of (db_history (bp_db s')) hX
         = history_of (db_history (bp_db s)) hX @ touching hX (block_hashXs sha (length T) (transactions blk2) vss2) (length T)"
    unfolding undoable_def by blast
  have "blk2 = blk" "U2 = U'" "vss2 = vss" using v(1,2) e(1) assms(5) by auto
  with s' u v show ?thesis by (intro exI [of _ s']) (simp add: touched_ok_def)
qed

end
