(* ===== verification/Queries.thy ===== *)
theory Queries
  imports Flushing
begin

text \<open>
  The queries the sessions make of the flushed database: the unspent outputs of a script hash and its
  confirmed history. They answer with what the ledger holds; a transaction number looked up before
  its block was flushed makes them wait, and the number's entry in the LRU cache decides for how long.
\<close>

section \<open>Unspent outputs\<close>

lemma u_table_row:
  assumes "disk_rep T kv D"
  shows "kv_get kv (117 # k) = Some v \<longleftrightarrow> (\<exists>op val. D op = Some val \<and> (117 # k, v) = u_row op val)"
  using disk_repD(3) [OF assms, of "117 # k" v] by (auto simp: rows_of_def h_row_def)

text \<open>The rows of a script hash.\<close>

lemma u_rows_of_hashX:
  assumes "disk_rep T kv D" and "length hashX = 11"
  shows "(k, v) \<in> set (kv_iter kv (117 # hashX) False) \<longleftrightarrow>
    (\<exists>op val. D op = Some val \<and> (k, v) = u_row op val \<and> take 11 val = hashX)"
    (is "_ \<longleftrightarrow> ?R")
proof -
  have ok: "kv_ok kv" using assms(1) by (rule disk_repD)
  have sw: "starts_with (117 # hashX) (fst (u_row op val)) \<longleftrightarrow> take 11 val = hashX" if "D op = Some val" for op val
  proof -
    have e: "entry_ok T op val" using disk_repD(2) [OF assms(1) that] .
    then have "length (take 11 val) = 11" using entry_okD(2) by simp
    then have "starts_with hashX (take 11 val @ drop 32 op @ entry_num val) \<longleftrightarrow> take 11 val = hashX"
      using assms(2) by (auto simp: starts_with_def)
    then show ?thesis using u_row_entry [OF e] by (simp add: starts_with_Cons)
  qed
  have "(k, v) \<in> set (kv_iter kv (117 # hashX) False) \<longleftrightarrow> starts_with (117 # hashX) k \<and> kv_get kv k = Some v"
    by (rule kv_iter_mem [OF ok])
  also have "\<dots> \<longleftrightarrow> ?R"
  proof
    assume l: "starts_with (117 # hashX) k \<and> kv_get kv k = Some v"
    then obtain r where k: "k = 117 # r" by (auto simp: starts_with_Cons)
    with l obtain op val where r: "D op = Some val" "(k, v) = u_row op val" using u_table_row [OF assms(1)] by auto
    then have "fst (u_row op val) = k" by (metis fst_conv)
    with l sw [OF r(1)] r show ?R by blast
  next
    assume ?R
    then obtain op val where r: "D op = Some val" "(k, v) = u_row op val" "take 11 val = hashX" by blast
    then have "fst (u_row op val) = k" "snd (u_row op val) = v" by (metis fst_conv, metis snd_conv)
    with r(3) sw [OF r(1)] kv_get_rows(2) [OF assms(1) r(1)]
    show "starts_with (117 # hashX) k \<and> kv_get kv k = Some v" by simp
  qed
  finally show ?thesis .
qed

text \<open>What a session is told of an output: its transaction, position and value.\<close>

definition output_of :: "bytes \<Rightarrow> bytes \<Rightarrow> bytes option \<times> nat \<times> nat" where
  "output_of op val = (Some (take 32 op), le_dec (drop 32 op), le_dec (takelast 8 val))"

definition told :: "utxo \<Rightarrow> bytes option \<times> nat \<times> nat" where
  "told u = (utxo_tx_hash u, utxo_tx_pos u, utxo_value u)"

lemma read_utxo_row:
  assumes "hash_ok d T" and "entry_ok T op val"
  shows "\<exists>c u. read_utxo (d, us) (u_row op val) = Inr (d\<lparr>tx_hash_cache := c\<rparr>, us @ [u])
    \<and> hash_ok (d\<lparr>tx_hash_cache := c\<rparr>) T \<and> told u = output_of op val"
proof -
  note e = entry_okD [OF assms(2)]
  from fs_tx_hash_ok [OF assms(1) e(3)] obtain c ht where
      f: "fs_tx_hash d (le_dec (entry_num val)) = Inr (d\<lparr>tx_hash_cache := c\<rparr>, Some (take 32 op), ht)"
        "hash_ok (d\<lparr>tx_hash_cache := c\<rparr>) T"
    unfolding e(4) by blast
  have "takelast 9 (117 # take 11 val @ drop 32 op @ entry_num val) = drop 32 op @ entry_num val"
    "takelast 5 (117 # take 11 val @ drop 32 op @ entry_num val) = entry_num val"
    using e(1,2,5) by (simp_all add: takelast_def)
  moreover have "unpack_le_uint32 (drop 32 op) = Inr (le_dec (drop 32 op))"
    using e(1) by (simp add: unpack_le_uint32_def)
  moreover have "unpack_le_uint64 (takelast 8 val) = Inr (le_dec (takelast 8 val))"
    using e(2) by (simp add: unpack_le_uint64_def)
  ultimately show ?thesis
    using f unpack_num [OF e(5)] u_row_entry [OF assms(2)] e(1,5)
    by (intro exI [of _ c] exI [of _ "\<lparr>utxo_tx_num = le_dec (entry_num val), utxo_tx_pos = le_dec (drop 32 op),
        utxo_tx_hash = Some (take 32 op), utxo_height = ht, utxo_value = le_dec (takelast 8 val)\<rparr>"])
      (simp add: read_utxo_def droplast_append told_def output_of_def)
qed

lemma read_utxo_rows:
  assumes "hash_ok d T" and "list_all2 (\<lambda>r (op, val). entry_ok T op val \<and> r = u_row op val) rows es"
  shows "\<exists>c us'. foldM read_utxo (d, us) rows = Inr (d\<lparr>tx_hash_cache := c\<rparr>, us @ us')
    \<and> hash_ok (d\<lparr>tx_hash_cache := c\<rparr>) T \<and> map told us' = map (\<lambda>(op, val). output_of op val) es"
  using assms
proof (induction rows arbitrary: d us es)
  case Nil
  have "d = d\<lparr>tx_hash_cache := tx_hash_cache d\<rparr>" by simp
  with Nil show ?case by (intro exI [of _ "tx_hash_cache d"] exI [of _ "[]"]) simp
next
  case (Cons r rows)
  from Cons.prems(2) obtain op val es' where es: "es = (op, val) # es'" "entry_ok T op val" "r = u_row op val"
      "list_all2 (\<lambda>r (op, val). entry_ok T op val \<and> r = u_row op val) rows es'"
    by (auto simp: list_all2_Cons1)
  from read_utxo_row [OF Cons.prems(1) es(2)] obtain c u where
      one: "read_utxo (d, us) r = Inr (d\<lparr>tx_hash_cache := c\<rparr>, us @ [u])" "hash_ok (d\<lparr>tx_hash_cache := c\<rparr>) T"
        "told u = output_of op val"
    unfolding es(3) by blast
  from Cons.IH [OF one(2) es(4), of "us @ [u]"] one(1,3) show ?case
    by (auto simp: es(1) intro: exI [of _ "_ # _"])
qed

text \<open>The outpoints of a script hash, in the order of their rows.\<close>

definition paid_to :: "utxo_map \<Rightarrow> bytes \<Rightarrow> bytes set" where
  "paid_to U hashX = {op. \<exists>val. U op = Some val \<and> take 11 val = hashX}"

lemma rows_paid_to:
  assumes "disk_rep T kv U" and "length hashX = 11"
  shows "\<exists>ops. distinct ops \<and> set ops = paid_to U hashX
    \<and> kv_iter kv (117 # hashX) False = map (\<lambda>op. u_row op (the (U op))) ops"
proof -
  let ?rows = "kv_iter kv (117 # hashX) False"
  have "\<exists>op. op \<in> paid_to U hashX \<and> r = u_row op (the (U op))" if "r \<in> set ?rows" for r
  proof -
    obtain k v where r: "r = (k, v)" by (cases r)
    with that u_rows_of_hashX [OF assms, of k v] obtain op val where
        "U op = Some val" "r = u_row op val" "take 11 val = hashX" by auto
    then show ?thesis by (intro exI [of _ op]) (auto simp: paid_to_def)
  qed
  then obtain f where f: "\<And>r. r \<in> set ?rows \<Longrightarrow> f r \<in> paid_to U hashX \<and> r = u_row (f r) (the (U (f r)))" by metis
  have "map (\<lambda>r. u_row (f r) (the (U (f r)))) ?rows = ?rows" by (rule map_idI) (use f in simp)
  then have rows: "?rows = map (\<lambda>op. u_row op (the (U op))) (map f ?rows)" by (simp add: comp_def)
  have "sorted_wrt (<) (map fst ?rows)" using kv_iter_sorted [OF disk_repD(1) [OF assms(1)]] by (simp add: sorted_wrt_map)
  then have "distinct (map fst ?rows)" by (simp add: strict_sorted_iff)
  then have "distinct ?rows" by (simp add: distinct_map)
  moreover have "inj_on f (set ?rows)"
  proof (rule inj_onI)
    fix r r' assume m: "r \<in> set ?rows" "r' \<in> set ?rows" and eq: "f r = f r'"
    from f [OF m(1)] f [OF m(2)] eq show "r = r'" by simp
  qed
  ultimately have "distinct (map f ?rows)" by (simp add: distinct_map)
  moreover have "set (map f ?rows) = paid_to U hashX"
  proof
    show "set (map f ?rows) \<subseteq> paid_to U hashX" using f by auto
    show "paid_to U hashX \<subseteq> set (map f ?rows)"
    proof
      fix op assume "op \<in> paid_to U hashX"
      then obtain val where v: "U op = Some val" "take 11 val = hashX" by (auto simp: paid_to_def)
      obtain k v' where kv: "u_row op val = (k, v')" by (cases "u_row op val")
      with v u_rows_of_hashX [OF assms, of k v'] have m: "(k, v') \<in> set ?rows" by metis
      from f [OF m] kv have "u_row op val = u_row (f (k, v')) (the (U (f (k, v'))))" by simp
      moreover obtain val' where v': "U (f (k, v')) = Some val'" using f [OF m] by (auto simp: paid_to_def)
      ultimately have "fst (u_row op val) = fst (u_row (f (k, v')) val')" by simp
      then have "op = f (k, v')" using u_row_inj disk_repD(2) [OF assms(1)] v(1) v' by blast
      with m show "op \<in> set (map f ?rows)" by (auto simp del: set_map simp: set_map image_iff intro: bexI [of _ "(k, v')"])
    qed
  qed
  ultimately show ?thesis using rows by blast
qed

lemma all_utxos_exact_rep:
  assumes "disk_rep T (utxo_db d) U" and "hash_ok d T" and "length hashX = 11" and "utxo_list_cache d hashX = None"
  shows "\<exists>d' us ops. all_utxos (Suc fuel) sleep d hashX = Inr (Some (d', us))
    \<and> distinct ops \<and> set ops = paid_to U hashX \<and> map told us = map (\<lambda>op. output_of op (the (U op))) ops
    \<and> utxo_list_cache d' hashX = Some us"
proof -
  from rows_paid_to [OF assms(1,3)] obtain ops where ops: "distinct ops" "set ops = paid_to U hashX"
      "kv_iter (utxo_db d) (117 # hashX) False = map (\<lambda>op. u_row op (the (U op))) ops" by blast
  let ?es = "map (\<lambda>op. (op, the (U op))) ops"
  have "entry_ok T op (the (U op))" if "op \<in> set ops" for op
    using that ops(2) disk_repD(2) [OF assms(1)] by (auto simp: paid_to_def)
  then have "list_all2 (\<lambda>r (op, val). entry_ok T op val \<and> r = u_row op val)
      (kv_iter (utxo_db d) (117 # hashX) False) ?es"
    unfolding ops(3) by (simp add: list_all2_map1 list_all2_map2 list.rel_refl_strong)
  from read_utxo_rows [OF assms(2) this, of "[]"] obtain c us where
      us: "foldM read_utxo (d, []) (kv_iter (utxo_db d) (117 # hashX) False) = Inr (d\<lparr>tx_hash_cache := c\<rparr>, us)"
        "map told us = map (\<lambda>op. output_of op (the (U op))) ops"
    by (auto simp: comp_def)
  have "utxo_tx_hash u \<noteq> None" if "u \<in> set us" for u
  proof -
    have "told u \<in> set (map (\<lambda>op. output_of op (the (U op))) ops)" using that us(2) by (metis imageI list.set_map)
    then show ?thesis by (auto simp: told_def output_of_def)
  qed
  then have "utxos_loop (Suc fuel) sleep d (117 # hashX) = Inr (Some (d\<lparr>tx_hash_cache := c\<rparr>, us))"
    using us(1) by simp
  then have "all_utxos (Suc fuel) sleep d hashX
      = Inr (Some (d\<lparr>tx_hash_cache := c, utxo_list_cache := (utxo_list_cache d)(hashX \<mapsto> us)\<rparr>, us))"
    using assms(4) by (simp add: all_utxos_def)
  with us(2) ops(1,2) show ?thesis
    by (intro exI [of _ "d\<lparr>tx_hash_cache := c, utxo_list_cache := (utxo_list_cache d)(hashX \<mapsto> us)\<rparr>"] exI [of _ us]
        exI [of _ ops]) simp
qed

text \<open>C3: On a flushed database the unspent outputs reported for a script hash are exactly those of the
  ledger's set that pay it, each once, with its transaction hash, position and value; the answer comes
  at the first reading, and it is what the list cache then holds.\<close>
theorem all_utxos_exact:
  assumes "flushed T s U tcs" and "length hashX = 11" and "utxo_list_cache (bp_db s) hashX = None"
  shows "\<exists>d' us ops. all_utxos (Suc fuel) sleep (bp_db s) hashX = Inr (Some (d', us))
    \<and> distinct ops \<and> set ops = {op. \<exists>val. U op = Some val \<and> take 11 val = hashX}
    \<and> map (\<lambda>u. (utxo_tx_hash u, utxo_tx_pos u, utxo_value u)) us
        = map (\<lambda>op. (Some (take 32 op), le_dec (drop 32 op), le_dec (takelast 8 (the (U op))))) ops
    \<and> utxo_list_cache d' hashX = Some us"
  using all_utxos_exact_rep [OF flushed_disk [OF assms(1)] assms(2,3), of fuel sleep]
  unfolding paid_to_def told_def output_of_def .

section \<open>Histories\<close>

lemma read_history_loop:
  assumes "hash_ok d T" and "\<forall>n \<in> set nums. n < length T"
  shows "\<exists>c rs. foldM (\<lambda>(d, acc) tx_num. rbind (fs_tx_hash d tx_num) (\<lambda>(d, r). Inr (d, acc @ [r]))) (d, acc) nums
      = Inr (d\<lparr>tx_hash_cache := c\<rparr>, acc @ rs) \<and> hash_ok (d\<lparr>tx_hash_cache := c\<rparr>) T
    \<and> map fst rs = map (\<lambda>n. Some (T ! n)) nums"
  using assms
proof (induction nums arbitrary: d acc)
  case Nil
  have "d = d\<lparr>tx_hash_cache := tx_hash_cache d\<rparr>" by simp
  with Nil show ?case by (intro exI [of _ "tx_hash_cache d"] exI [of _ "[]"]) simp
next
  case (Cons n nums)
  then have "n < length T" by simp
  from fs_tx_hash_ok [OF Cons.prems(1) this] obtain c ht where
      f: "fs_tx_hash d n = Inr (d\<lparr>tx_hash_cache := c\<rparr>, Some (T ! n), ht)" "hash_ok (d\<lparr>tx_hash_cache := c\<rparr>) T" by blast
  from Cons.IH [OF f(2), of "acc @ [(Some (T ! n), ht)]"] Cons.prems(2) obtain c' rs where
      "foldM (\<lambda>(d, acc) tx_num. rbind (fs_tx_hash d tx_num) (\<lambda>(d, r). Inr (d, acc @ [r])))
          (d\<lparr>tx_hash_cache := c\<rparr>, acc @ [(Some (T ! n), ht)]) nums
        = Inr (d\<lparr>tx_hash_cache := c'\<rparr>, acc @ (Some (T ! n), ht) # rs)"
      "hash_ok (d\<lparr>tx_hash_cache := c'\<rparr>) T" "map fst rs = map (\<lambda>n. Some (T ! n)) nums"
    by auto
  with f(1) show ?case by (intro exI [of _ c'] exI [of _ "(Some (T ! n), ht) # rs"]) simp
qed

text \<open>The part of a history a request asks for.\<close>

definition requested :: "nat list \<Rightarrow> int option \<Rightarrow> bool \<Rightarrow> nat list" where
  "requested hist limit reverse =
     (let txs = (if reverse then rev else id) hist
      in case limit of None \<Rightarrow> txs | Some l \<Rightarrow> if l < 0 then txs else take (nat l) txs)"

lemma set_requested: "set (requested hist limit reverse) \<subseteq> set hist"
  by (auto simp: requested_def Let_def split: option.splits if_splits dest: in_set_takeD)

text \<open>C4: On a flushed database the history reported for a script hash is the requested part of its
  confirmed history, each transaction under its hash, and the answer comes at the first reading.\<close>
theorem limited_history_exact:
  assumes "flushed T s U tcs" and "length hashX = 11" and "below (db_history (bp_db s)) (int (length T))"
  shows "\<exists>d' rs. limited_history (Suc fuel) sleep (bp_db s) hashX limit reverse = Inr (Some (d', rs))
    \<and> map fst rs = map (\<lambda>n. Some (T ! n)) (requested (history_of (db_history (bp_db s)) hashX) limit reverse)"
proof -
  let ?h = "db_history (bp_db s)"
  let ?nums = "requested (history_of ?h hashX) limit reverse"
  have f: "history_ok ?h" "unflushed ?h = []" "hash_ok (bp_db s) T"
    using assms(1) flushed_disk(2) by (simp_all add: flushed_def chain_inv_def)
  have "history_of ?h hashX = stored_history (hist_db ?h) hashX"
    using f(2) by (simp add: history_of_def pending_history_def)
  moreover have "rows_ok (flush_count ?h) (hist_db ?h)" using f(1) by (simp add: history_ok_def)
  ultimately have nums: "get_txnums ?h hashX limit reverse = Inr ?nums"
    using get_txnums_spec assms(2) by (simp add: requested_def)
  have "\<forall>n \<in> set ?nums. n < length T"
    using set_requested assms(2,3) by (fastforce simp: below_def)
  from read_history_loop [OF f(3) this, of "[]"] obtain c rs where
      rs: "read_history (bp_db s) hashX limit reverse = Inr ((bp_db s)\<lparr>tx_hash_cache := c\<rparr>, rs)"
        "map fst rs = map (\<lambda>n. Some (T ! n)) ?nums"
    by (auto simp: read_history_def nums)
  have "tx_hash \<noteq> None" if "(tx_hash, ht) \<in> set rs" for tx_hash ht
  proof -
    have "tx_hash \<in> set (map fst rs)" using that by force
    then show ?thesis unfolding rs(2) by auto
  qed
  then have "limited_history (Suc fuel) sleep (bp_db s) hashX limit reverse = Inr (Some ((bp_db s)\<lparr>tx_hash_cache := c\<rparr>, rs))"
    using rs(1) by auto
  with rs(2) show ?thesis by blast
qed

section \<open>A number looked up too early\<close>

text \<open>The number is in the history, and its block is not yet below the flushed height.\<close>

definition too_early :: "db \<Rightarrow> nat \<Rightarrow> bool" where
  "too_early d n \<longleftrightarrow> (case tx_hash_cache d n of Some r \<Rightarrow> fst r = None
     | None \<Rightarrow> \<exists>tcs. tx_counts d = Some tcs \<and> db_height d < int (bisect_right tcs n))"

definition poisoned :: "db \<Rightarrow> nat \<Rightarrow> bool" where
  "poisoned d n \<longleftrightarrow> (\<exists>r. tx_hash_cache d n = Some r \<and> fst r = None)"

lemma poisoned_too_early: "poisoned d n \<Longrightarrow> too_early d n"
  by (auto simp: poisoned_def too_early_def)

lemma fs_tx_hash_keeps:
  assumes "fs_tx_hash d m = Inr (d', r)" and "\<And>c. n \<notin> tx_hash_evict d c"
  shows "\<exists>c. d' = d\<lparr>tx_hash_cache := c\<rparr> \<and> (m \<noteq> n \<longrightarrow> c n = tx_hash_cache d n)
    \<and> (m = n \<and> too_early d n \<longrightarrow> fst r = None \<and> poisoned d' n)"
proof (cases "tx_hash_cache d m")
  case (Some x)
  with assms(1) have "d' = d" "r = x" by (simp_all add: fs_tx_hash_def)
  then show ?thesis using Some
    by (intro exI [of _ "tx_hash_cache d"]) (cases x, auto simp: too_early_def poisoned_def)
next
  case None
  with assms(1) obtain tcs where tc: "tx_counts d = Some tcs" by (cases "tx_counts d") (simp_all add: fs_tx_hash_def counts_def)
  let ?r = "(if db_height d < int (bisect_right tcs m) then None else Some (lf_read (hashes_file d) (m * 32) (Some 32)),
      bisect_right tcs m)"
  have "(cache_tx_hash d m ?r, ?r) = (d', r)"
    using assms(1) None tc unfolding fs_tx_hash_def counts_def by (simp only: option.case rbind_simps Let_def sum.inject)
  then have t: "tx_counts d = Some tcs" "d' = cache_tx_hash d m r" "r = ?r" using tc unfolding prod.inject by blast+
  define c where "c = ((tx_hash_cache d)(m \<mapsto> r)) |` (- (tx_hash_evict d ((tx_hash_cache d)(m \<mapsto> r)) - {m}))"
  have d': "d' = d\<lparr>tx_hash_cache := c\<rparr>" by (simp add: t(2) cache_tx_hash_def Let_def c_def)
  have other: "m \<noteq> n \<Longrightarrow> c n = tx_hash_cache d n" using assms(2) by (simp add: restrict_map_def c_def)
  have "fst r = None \<and> poisoned d' n" if "m = n" "too_early d n"
  proof -
    have "db_height d < int (bisect_right tcs m)" using that None t(1) by (simp add: too_early_def)
    then have "fst r = None" by (simp add: t(3))
    moreover have "c n = Some r" using that(1) by (simp add: c_def restrict_map_def)
    ultimately show ?thesis by (simp add: d' poisoned_def)
  qed
  with d' other show ?thesis by blast
qed

lemma read_loop_poisons:
  assumes "foldM (\<lambda>(d, acc) tx_num. rbind (fs_tx_hash d tx_num) (\<lambda>(d, r). Inr (d, acc @ [r]))) (d, acc) nums = Inr (d', rs)"
    and "\<And>c. n \<notin> tx_hash_evict d c"
  shows "\<exists>c. d' = d\<lparr>tx_hash_cache := c\<rparr> \<and> set acc \<subseteq> set rs \<and> (poisoned d n \<longrightarrow> poisoned d' n)
    \<and> (n \<in> set nums \<and> too_early d n \<longrightarrow> poisoned d' n \<and> (\<exists>ht. (None, ht) \<in> set rs))"
  using assms
proof (induction nums arbitrary: d acc)
  case Nil
  then show ?case by (intro exI [of _ "tx_hash_cache d"]) auto
next
  case (Cons m nums)
  from Cons.prems(1) obtain d1 r where st: "fs_tx_hash d m = Inr (d1, r)"
      "foldM (\<lambda>(d, acc) tx_num. rbind (fs_tx_hash d tx_num) (\<lambda>(d, r). Inr (d, acc @ [r]))) (d1, acc @ [r]) nums = Inr (d', rs)"
    by (auto simp: rbind_eq_Inr)
  from fs_tx_hash_keeps [OF st(1) Cons.prems(2)] obtain c where c: "d1 = d\<lparr>tx_hash_cache := c\<rparr>"
      "m \<noteq> n \<longrightarrow> c n = tx_hash_cache d n" "m = n \<and> too_early d n \<longrightarrow> fst r = None \<and> poisoned d1 n" by blast
  have ev: "n \<notin> tx_hash_evict d1 x" for x using Cons.prems(2) by (simp add: c(1))
  from Cons.IH [OF st(2) ev] obtain c' where c': "d' = d1\<lparr>tx_hash_cache := c'\<rparr>" "set (acc @ [r]) \<subseteq> set rs"
      "poisoned d1 n \<longrightarrow> poisoned d' n" "n \<in> set nums \<and> too_early d1 n \<longrightarrow> poisoned d' n \<and> (\<exists>ht. (None, ht) \<in> set rs)"
    by blast
  have keep: "m \<noteq> n \<Longrightarrow> too_early d1 n = too_early d n \<and> poisoned d1 n = poisoned d n"
    using c(1,2) by (simp add: too_early_def poisoned_def cong: option.case_cong)
  have "poisoned d n \<Longrightarrow> poisoned d' n" using keep c(3) c'(3) poisoned_too_early by (cases "m = n") blast+
  moreover have "poisoned d' n \<and> (\<exists>ht. (None, ht) \<in> set rs)" if "n \<in> set (m # nums)" "too_early d n"
  proof (cases "m = n")
    case True
    then have r: "fst r = None" "poisoned d1 n" using c(3) that(2) by blast+
    moreover have "(None, snd r) \<in> set rs" using c'(2) r(1) by (cases r) simp
    ultimately show ?thesis using c'(3) by blast
  next
    case False
    with keep that c'(4) show ?thesis by simp
  qed
  ultimately show ?case using c(1) c'(1,2) by (intro exI [of _ c']) auto
qed

text \<open>C27: A history that is read while one of its transactions is already in the history database but
  not yet at the flushed height is never answered: the lookup stores "no hash" in the LRU cache, the
  cache is asked before the height, and each retry finds the stored entry again. The heights, the
  counts, the files, the tables and the histories may all change while the task sleeps, so the block
  may well be flushed then. Two things must not: the history read must go on naming the transaction
  (a reorganisation or, with a limit, newer transactions could end that), and the LRU cache must keep
  its entry (it is neither evicted by a reader nor replaced).\<close>
theorem early_history_never_answers:
  assumes "get_txnums (db_history d) hashX limit reverse = Inr nums" and "n \<in> set nums" and "too_early d n"
    and "\<And>c. n \<notin> tx_hash_evict d c"
    and "\<And>k d. tx_hash_cache (sleep k d) n = tx_hash_cache d n \<and> tx_hash_evict (sleep k d) = tx_hash_evict d"
    and "\<And>k d ms ms'. get_txnums (db_history d) hashX limit reverse = Inr ms \<Longrightarrow> n \<in> set ms
      \<Longrightarrow> get_txnums (db_history (sleep k d)) hashX limit reverse = Inr ms' \<Longrightarrow> n \<in> set ms'"
  shows "limited_history fuel sleep d hashX limit reverse \<noteq> Inr (Some r)"
  using assms(1-4)
proof (induction fuel arbitrary: d nums)
  case (Suc fuel)
  show ?case
  proof (cases "read_history d hashX limit reverse")
    case (Inr p)
    obtain d1 rs where p: "p = (d1, rs)" by (cases p)
    have "foldM (\<lambda>(d, acc) tx_num. rbind (fs_tx_hash d tx_num) (\<lambda>(d, r). Inr (d, acc @ [r]))) (d, []) nums = Inr (d1, rs)"
      using Inr Suc.prems(1) by (simp add: read_history_def p)
    from read_loop_poisons [OF this Suc.prems(4)] Suc.prems(2,3) obtain c ht where
        c: "d1 = d\<lparr>tx_hash_cache := c\<rparr>" "poisoned d1 n" "(None, ht) \<in> set rs" by blast
    have hist: "get_txnums (db_history d1) hashX limit reverse = Inr nums" using Suc.prems(1) by (simp add: c(1))
    have "limited_history fuel sleep (sleep fuel d1) hashX limit reverse \<noteq> Inr (Some r)"
    proof (cases "get_txnums (db_history (sleep fuel d1)) hashX limit reverse")
      case (Inl e)
      then show ?thesis by (cases fuel) (simp_all add: read_history_def)
    next
      case (Inr ms)
      have "poisoned (sleep fuel d1) n" using c(2) assms(5) by (simp add: poisoned_def)
      moreover have "n \<in> set ms" using assms(6) [OF hist Suc.prems(2) Inr] .
      moreover have "n \<notin> tx_hash_evict (sleep fuel d1) x" for x using Suc.prems(4) assms(5) by (simp add: c(1))
      ultimately show ?thesis using Inr by (intro Suc.IH poisoned_too_early)
    qed
    moreover have no: "(\<forall>(tx_hash, ht) \<in> set rs. tx_hash \<noteq> None) = False" using c(3) by blast
    ultimately show ?thesis by (simp only: limited_history.simps Inr p rbind_simps prod.case no if_False) simp
  qed simp
qed simp

end
