(* ===== verification/Chain.thy ===== *)
theory Chain
  imports Progress Queries
begin

text \<open>
  What the indexer promises of a chain of blocks: a valid block is taken and the ledger says what the
  database then holds; undone, it leaves the indexer where it was. Each with a concrete instance on a
  chain of one block.
\<close>

section \<open>A sample chain\<close>

text \<open>A digest that keeps the first 32 bytes; no overlay; an empty database at height 0; and a block
  with one generation transaction that pays one output.\<close>

definition sample_sha :: "bytes \<Rightarrow> bytes" where
  "sample_sha x = take 32 (x @ replicate 32 0)"

definition no_overlays :: "(unit, unit) overlays" where
  "no_overlays = \<lparr>glyph_index = None, glyph_balances = (\<lambda>d h ds cs o'. (o', Inr ())), wave_index = None, realm_index = None,
     swap_index = None, predict_index = None, royalty_index = None, analytics_index = None,
     index_flush = (\<lambda>d o'. Inr ([], o')), index_backup = (\<lambda>d h o'. Inr ([], o')), index_memory = (\<lambda>o'. 0)\<rparr>"

definition sample_db :: db where
  "sample_db = \<lparr>coin_of = Radiant, reorg_limit = 10, utxo_db = [], state_entry = None, db_history = init_history,
     header_mc = \<lparr>mc_length = 0, mc_level = [], mc_depth_higher = 0\<rparr>, headers_file = \<lparr>file_size = 16000000, files = []\<rparr>,
     tx_counts_file = \<lparr>file_size = 16000000, files = []\<rparr>, hashes_file = \<lparr>file_size = 16000000, files = []\<rparr>, raw_blocks = [], tx_counts = Some [0],
     utxo_flush_count = 0, fs_height = 0, fs_tx_count = 0, db_height = 0, db_tx_count = 0, db_tip = replicate 32 0,
     last_flush = 0, last_flush_tx_count = 0, wall_time = 0, first_sync = False, db_version = 9,
     tx_hash_cache = Map.empty, tx_hash_evict = (\<lambda>m. {}), balance_cache = Map.empty, utxo_list_cache = Map.empty\<rparr>"

definition sample_chain :: "'o \<Rightarrow> 'o bp" where
  "sample_chain o' = \<lparr>bp_db = sample_db, height = 0, tip = replicate 32 0, tx_count = 0, touched = {}, reorg_count = None,
     next_cache_check = 0, headers = [], tx_hashes = [], undo_infos = [], ref_loc_undo_infos = [], utxo_cache = [],
     ref_cache = [], ref_mint_cache = [], ref_loc_cache = [], data_cache = [], db_deletes = [], overlay_state = o'\<rparr>"

abbreviation sample_bp :: "unit bp" where
  "sample_bp \<equiv> sample_chain ()"

definition one_raw_tx :: bytes where
  "one_raw_tx = [1, 0, 0, 0] @ [1] @ replicate 32 0 @ replicate 4 255 @ [0] @ replicate 4 255
     @ [1] @ [5, 0, 0, 0, 0, 0, 0, 0] @ [1, 81] @ replicate 4 0"

definition sample_raw_block :: bytes where
  "sample_raw_block = replicate 80 0 @ [1] @ one_raw_tx"

definition one_tx :: Tx where
  "one_tx = \<lparr>tx_version = 1, tx_inputs = [\<lparr>prev_hash = replicate 32 0, prev_idx = 4294967295, in_script = [], in_sequence = 4294967295\<rparr>],
    tx_outputs = [\<lparr>out_value = 5, pk_script = [81]\<rparr>], tx_locktime = 0\<rparr>"


lemma digest32_sample [simp]: "digest32 sample_sha"
  by (auto simp: digest32_def sample_sha_def)

lemma calm_no_overlays [simp]: "calm_overlays no_overlays"
  by (simp add: calm_overlays_def calm_overlay_def calm_def no_overlays_def)

lemma safe_no_overlays [simp]: "safe_flush no_overlays s" "safe_backup no_overlays s"
  by (simp_all add: safe_flush_def safe_backup_def backup_safe_at_def core_safe_def no_overlays_def)

lemma replicate_4: "replicate 4 x = [x, x, x, x]"
  by (simp add: numeral_eq_Suc)

lemma one_tx_parses: "parses read_tx one_raw_tx one_tx"
proof -
  have "serialize_tx one_tx = Inr one_raw_tx"
    by (simp add: serialize_tx_def one_tx_def one_raw_tx_def packer_defs pack_varint_def pack_uint_def
        pack_sint_def serialize_output_def serialize_input_def pack_varbytes_def le_enc_numeral replicate_4)
  moreover have "fits_tx one_tx" by (simp add: one_tx_def fits_tx_def fits_output_def fits_input_def)
  ultimately show ?thesis by (rule tx.dec_enc [rotated])
qed

lemma sample_block: "read_block sample_sha sample_raw_block
  = Inr \<lparr>raw = sample_raw_block, header = replicate 80 0, transactions = [(one_tx, take 32 one_raw_tx)]\<rparr>"
proof -
  have raw: "sample_raw_block = (replicate 80 0 @ [1]) @ one_raw_tx @ []" by (simp add: sample_raw_block_def)
  have l: "length (replicate 80 (0 :: byte) @ [1]) = 81" by simp
  have "read_varint sample_raw_block 80 = Inr (1, 81)"
    unfolding raw by (simp add: read_varint_def rd_bind_def read_byte_def index_def rd_return_def nth_append)
  moreover have "read_tx sample_raw_block 81 = Inr (one_tx, 81 + length one_raw_tx)"
    using parsesD [OF one_tx_parses, of "replicate 80 0 @ [1]" "[]"] unfolding raw l .
  moreover have "slice 81 (81 + length one_raw_tx) sample_raw_block = one_raw_tx"
    by (simp add: raw slice_def)
  moreover have "double_hash sample_sha one_raw_tx = take 32 one_raw_tx"
    by (simp add: double_hash_def sample_sha_def one_raw_tx_def)
  moreover have "tx_version one_tx \<noteq> 3" by (simp add: one_tx_def)
  moreover have "take 80 sample_raw_block = replicate 80 0" by (simp add: raw)
  ultimately show ?thesis
    by (simp add: read_block_def read_tx_block_def rd_bind_def rd_return_def read_tx_and_hash_def)
qed

lemma sample_flushed: "flushed [] (sample_chain o') Map.empty [0]"
proof -
  have k: "disk_rep [] (utxo_db (bp_db (sample_chain o'))) Map.empty"
    by (simp add: disk_rep_def sample_chain_def sample_db_def kv_ok_def kv_get_def rows_of_def)
  have h: "hash_ok (bp_db (sample_chain o')) []" by (simp add: hash_ok_def sample_chain_def sample_db_def)
  have "utxo_inv [] (length ([] :: bytes list)) (sample_chain o') Map.empty"
    using utxo_inv_disk [of "[]" "sample_chain o'" Map.empty] k h by (simp add: sample_chain_def)
  moreover have "history_ok init_history"
    by (simp add: history_ok_def rows_ok_def pending_ok_def init_history_def kv_ok_def kv_get_def)
  moreover have "hashes_stored (hashes_file (bp_db (sample_chain o'))) []"
    unfolding hashes_stored_def by (intro conjI exI [of _ "[]"]) (simp_all add: lf_rep_def sample_chain_def sample_db_def)
  moreover have co: "counts_ok [] (sample_chain o') [0]" by (simp add: counts_ok_def sample_chain_def sample_db_def)
  moreover have "\<exists>tcs. counts_ok [] (sample_chain o') tcs" using co ..
  ultimately show ?thesis
    by (simp add: flushed_def chain_inv_def data_keys_def dict_keys_def)
      (simp add: sample_chain_def sample_db_def init_history_def)
qed

lemma sample_extends: "extends sample_sha [] Map.empty (tip (sample_chain o')) sample_raw_block
  \<lparr>raw = sample_raw_block, header = replicate 80 0, transactions = [(one_tx, take 32 one_raw_tx)]\<rparr>"
  unfolding extends_def
  by (simp add: sample_block header_prevhash_def slice_def block_ok_def tx_ok_def tx_values_ok_def value_ok_def apply_tx_def
      spent_inputs_def is_generation_def) (simp add: one_tx_def one_raw_tx_def sample_chain_def MINUS_1_def ZERO_def zero_bytes_def)

lemma sample_room: "room (sample_chain o')"
  by (simp add: room_def sample_chain_def sample_db_def init_history_def)

lemma sample_below: "below (db_history (bp_db (sample_chain o'))) 0"
  by (simp add: below_def history_of_def stored_history_def pending_history_def sample_chain_def sample_db_def init_history_def
      kv_iter_def scan_def Let_def)

section \<open>Properties\<close>

text \<open>C1: A valid block that extends a flushed chain is taken and flushed without raising, whatever
  the overlays raise on its transactions (\<open>MemoryError\<close> apart), provided that flushing the overlay
  indexes in the state the block leads to does not raise, writes no row of the UTXO tables or of the
  undo table and does not delete the reference undo row of the block (\<open>safe_flush\<close>). Then the
  database is that of the extended chain: its UTXO set is what the ledger makes of the old one, its
  counters, tip and files are those of the new height, and every script hash has exactly the block's
  transactions that touch it added to its history.\<close>
theorem block_is_taken:
  assumes "flushed T s U tcs" and "extends sha T U (tip s) raw_block blk" and "calm_overlays ov" and "room s"
    and "apply_txs sha (length T) (transactions blk) U = Some (U', vss)"
    and "\<And>a. advance_block sha H ov (height s + 1) blk s = Inr a \<Longrightarrow> safe_flush ov a"
    and "below (db_history (bp_db s)) (int (length T))"
  shows "\<exists>s'. advance_blocks sha H ov (height s + 1) cache_MB now [raw_block] s = Inr s'
    \<and> flushed (T @ map snd (transactions blk)) s' U' (tcs @ [length T + length (transactions blk)])
    \<and> height s' = height s + 1 \<and> tip s' = H (header blk)
    \<and> (\<forall>hX. length hX = 11 \<longrightarrow> history_of (db_history (bp_db s')) hX = history_of (db_history (bp_db s)) hX
        @ touching hX (block_hashXs sha (length T) (transactions blk) vss) (length T))"
  using block_taken [OF assms] by blast

theorem block_is_taken_witness:
  "\<exists>s' U' vss. advance_blocks sample_sha sample_sha no_overlays (height sample_bp + 1) 1000 0 [sample_raw_block] sample_bp = Inr s'
    \<and> flushed ([] @ [take 32 one_raw_tx]) s' U' ([0] @ [1]) \<and> height s' = 1"
proof -
  let ?blk = "\<lparr>raw = sample_raw_block, header = replicate 80 0, transactions = [(one_tx, take 32 one_raw_tx)]\<rparr>"
  obtain U' vss where ap: "apply_txs sample_sha (length ([] :: bytes list)) (transactions ?blk) Map.empty = Some (U', vss)"
    using sample_extends [of "()"] by (auto simp: extends_def)
  have "\<exists>s'. advance_blocks sample_sha sample_sha no_overlays (height sample_bp + 1) 1000 0 [sample_raw_block] sample_bp = Inr s'
    \<and> flushed ([] @ map snd (transactions ?blk)) s' U' ([0] @ [length ([] :: bytes list) + length (transactions ?blk)])
    \<and> height s' = height sample_bp + 1 \<and> tip s' = sample_sha (header ?blk)
    \<and> (\<forall>hX. length hX = 11 \<longrightarrow> history_of (db_history (bp_db s')) hX = history_of (db_history (bp_db sample_bp)) hX
        @ touching hX (block_hashXs sample_sha (length ([] :: bytes list)) (transactions ?blk) vss) (length ([] :: bytes list)))"
    by (rule block_is_taken [OF sample_flushed [of "()"] sample_extends calm_no_overlays sample_room ap])
      (simp_all add: sample_below)
  then show ?thesis by (auto simp: sample_chain_def)
qed

text \<open>C2: A block taken and flushed, then undone and flushed, leaves the core of the indexer where it
  was: the same UTXO set on disk and nothing pending, the same height, tip, counts and transaction hash
  file, and for every script hash the history it had. The raw block and the undo entries stored on the
  way suffice and no step raises. This is provided the overlay indexes behave on this block: flushing
  them in the state the block leads to does not raise and leaves the UTXO and undo rows alone
  (\<open>safe_flush\<close>), and backing them up in the state after that flush does not raise and writes or
  deletes no row of the UTXO tables (\<open>safe_backup\<close>). The second condition can fail for the realm index,
  which restores whatever keys the row \<open>b'RU' + height\<close> spells and shares that row with the core.\<close>
theorem block_reorg_roundtrip:
  assumes "flushed T s U tcs" and "0 \<le> height s" and "extends sha T U (tip s) raw_block blk"
    and "calm_overlays ov" and "room s" and "below (db_history (bp_db s)) (int (length T))"
    and "\<And>a. advance_block sha H ov (height s + 1) blk s = Inr a \<Longrightarrow> safe_flush ov a"
    and "\<And>s1. advance_blocks sha H ov (height s + 1) cache_MB now [raw_block] s = Inr s1 \<Longrightarrow> safe_backup ov s1"
  shows "\<exists>s1 s2. advance_blocks sha H ov (height s + 1) cache_MB now [raw_block] s = Inr s1
    \<and> back_up_blocks sha H ov now' daemon_block [hex_hash] (height s + 1) s1 = Inr s2
    \<and> flushed T s2 U tcs \<and> height s2 = height s \<and> tip s2 = tip s
    \<and> (\<forall>hX. length hX = 11 \<longrightarrow> history_of (db_history (bp_db s2)) hX = history_of (db_history (bp_db s)) hX)"
proof -
  obtain U' vss where ap: "apply_txs sha (length T) (transactions blk) U = Some (U', vss)"
    using assms(3) by (auto simp: extends_def)
  from block_taken [OF assms(1,3-5) ap assms(7,6)] obtain s1
    where s1: "advance_blocks sha H ov (height s + 1) cache_MB now [raw_block] s = Inr s1"
      "undoable sha H raw_block T U tcs (history_of (db_history (bp_db s))) s1" "touched_ok s1" "height s1 = height s + 1"
      "read_raw_block (bp_db s1) (height s + 1) = Inr raw_block"
    by blast
  have rb: "read_block sha raw_block = Inr blk" "header_prevhash (header blk) = tip s" using assms(3) by (simp_all add: extends_def)
  have "0 < height s1" using s1(4) assms(2) by simp
  moreover have "get_raw_block daemon_block hex_hash (height s + 1) s1 = Inr raw_block" using s1(5) by (simp add: get_raw_block_def)
  ultimately obtain s2 blk' where s2: "back_up_blocks sha H ov now' daemon_block [hex_hash] (height s + 1) s1 = Inr s2"
      "flushed T s2 U tcs" "height s2 = height s1 - 1" "read_block sha raw_block = Inr blk'" "tip s2 = header_prevhash (header blk')"
      "\<forall>hX. length hX = 11 \<longrightarrow> history_of (db_history (bp_db s2)) hX = history_of (db_history (bp_db s)) hX"
    using back_up_block [OF s1(2) _ s1(3), of daemon_block hex_hash "height s + 1" ov now' "[]"] assms(8) [OF s1(1)]
    by (metis back_up_blocks.simps(1))
  with rb s1(1,4) show ?thesis by (intro exI [of _ s1] exI [of _ s2]) simp
qed

section \<open>Queries on the sample chain\<close>

text \<open>The state after the block, with the caches of the session queries empty.\<close>

definition uncached :: "'o bp \<Rightarrow> 'o bp" where
  "uncached s = s\<lparr>bp_db := (bp_db s)\<lparr>utxo_list_cache := Map.empty\<rparr>\<rparr>"

lemma flushed_uncached: "flushed T s U tcs \<Longrightarrow> flushed T (uncached s) U tcs"
proof -
  assume f: "flushed T s U tcs"
  have e: "utxo_cache (uncached s) = []" "db_deletes (uncached s) = []"
    using f by (simp_all add: flushed_def uncached_def)
  have "disk_rep T (utxo_db (bp_db (uncached s))) U" "hash_ok (bp_db (uncached s)) T"
    using flushed_disk [OF f] by (simp_all add: uncached_def hash_ok_def)
  from utxo_inv_disk [OF this e] f show ?thesis
    by (auto simp: flushed_def chain_inv_def counts_ok_def data_keys_def uncached_def)
qed

definition one_outpoint :: bytes where
  "one_outpoint = take 32 one_raw_tx @ le_enc 4 0"

definition one_entry :: bytes where
  "one_entry = take 11 (sample_sha [81]) @ sample_sha [81] @ le_enc 5 0 @ le_enc 8 5"

lemma sample_applied: "apply_txs sample_sha (length ([] :: bytes list)) [(one_tx, take 32 one_raw_tx)] Map.empty
  = Some ([one_outpoint \<mapsto> one_entry], [[]])"
proof -
  have z: "zero_refs [81] = Inr [81]" by code_simp
  have c: "codeScriptHash_from_script sample_sha [81] = Inr (sample_sha [81])" by code_simp
  have u: "\<not> is_unspendable_legacy [81]" by code_simp
  have g: "spent_inputs one_tx = []"
    by (simp add: spent_inputs_def one_tx_def is_generation_def MINUS_1_def ZERO_def zero_bytes_def)
  show ?thesis
    by (simp add: apply_tx_def g tx_entries_def out_entries_def one_outpoint_def one_entry_def hashX_from_script_def HASHX_LEN_def
        add_all_def) (simp add: one_tx_def out_entries_def z c u hashX_from_script_def HASHX_LEN_def)
qed

text \<open>The state after the block.\<close>

lemma sample_after: "\<exists>s' :: unit bp. flushed [take 32 one_raw_tx] s' [one_outpoint \<mapsto> one_entry] [0, 1]
  \<and> utxo_list_cache (bp_db s') = Map.empty \<and> below (db_history (bp_db s')) 1"
proof -
  let ?blk = "\<lparr>raw = sample_raw_block, header = replicate 80 0, transactions = [(one_tx, take 32 one_raw_tx)]\<rparr>"
  have "apply_txs sample_sha (length ([] :: bytes list)) (transactions ?blk) Map.empty = Some ([one_outpoint \<mapsto> one_entry], [[]])"
    using sample_applied by simp
  note t = block_taken [OF sample_flushed [of "()"] sample_extends calm_no_overlays sample_room this, of sample_sha 1000 0]
  have "below (db_history (bp_db sample_bp)) (int (length ([] :: bytes list)))" using sample_below by simp
  from t [OF safe_no_overlays(1) this] obtain s' :: "unit bp" where s': "flushed ([] @ map snd (transactions ?blk)) s' [one_outpoint \<mapsto> one_entry]
        ([0] @ [length ([] :: bytes list) + length (transactions ?blk)])"
      "\<forall>hX. length hX = 11 \<longrightarrow> history_of (db_history (bp_db s')) hX = history_of (db_history (bp_db sample_bp)) hX
        @ touching hX (block_hashXs sample_sha (length ([] :: bytes list)) (transactions ?blk) [[]]) (length ([] :: bytes list))"
    by (elim exE conjE) (rule that, assumption+)
  have e: "history_of (db_history (bp_db sample_bp)) hX = []" if "length hX = 11" for hX
    using sample_below [of "()"] that by (auto simp: below_def)
  have "below (db_history (bp_db s')) 1"
    unfolding below_def using s'(2) e by (auto simp: sorted_wrt_append)
  moreover have "flushed [take 32 one_raw_tx] s' [one_outpoint \<mapsto> one_entry] [0, 1]" using s'(1) by simp
  ultimately show ?thesis
    using flushed_uncached by (intro exI [of _ "uncached s'"]) (simp add: uncached_def)
qed

theorem all_utxos_exact_witness:
  "\<exists>s d' u. all_utxos 1 (\<lambda>k d. d) (bp_db (s :: unit bp)) (take 11 (sample_sha [81])) = Inr (Some (d', [u]))
    \<and> utxo_tx_hash u = Some (take 32 one_raw_tx) \<and> utxo_tx_pos u = 0 \<and> utxo_value u = 5"
proof -
  obtain s :: "unit bp" where s: "flushed [take 32 one_raw_tx] s [one_outpoint \<mapsto> one_entry] [0, 1]"
      "utxo_list_cache (bp_db s) = Map.empty"
    using sample_after by blast
  have l: "length (take 11 (sample_sha [81])) = 11" by (simp add: sample_sha_def)
  obtain d' us ops where q: "all_utxos (Suc 0) (\<lambda>k d. d) (bp_db s) (take 11 (sample_sha [81])) = Inr (Some (d', us))"
      "distinct ops" "set ops = {op. \<exists>val. [one_outpoint \<mapsto> one_entry] op = Some val \<and> take 11 val = take 11 (sample_sha [81])}"
      "map (\<lambda>u. (utxo_tx_hash u, utxo_tx_pos u, utxo_value u)) us
        = map (\<lambda>op. (Some (take 32 op), le_dec (drop 32 op), le_dec (takelast 8 (the ([one_outpoint \<mapsto> one_entry] op))))) ops"
    using all_utxos_exact [OF s(1) l, of 0 "\<lambda>k d. d"] s(2) by auto
  have v: "take 11 one_entry = take 11 (sample_sha [81])" "le_dec (takelast 8 one_entry) = 5"
      "take 32 one_outpoint = take 32 one_raw_tx" "le_dec (drop 32 one_outpoint) = 0"
    by (simp_all add: one_entry_def one_outpoint_def one_raw_tx_def sample_sha_def takelast_def)
  have "set ops = {one_outpoint}" using q(3) v(1) by auto
  with q(2) have "ops = [one_outpoint]" by (cases ops) (auto simp: subset_singleton_iff)
  with q(4) v have "\<exists>u. us = [u] \<and> utxo_tx_hash u = Some (take 32 one_raw_tx) \<and> utxo_tx_pos u = 0 \<and> utxo_value u = 5"
    by (cases us) auto
  with q(1) show ?thesis by auto
qed

theorem limited_history_exact_witness:
  "\<exists>s d' rs. limited_history 1 (\<lambda>k d. d) (bp_db (s :: unit bp)) (take 11 (sample_sha [81])) (Some 1000) False = Inr (Some (d', rs))
    \<and> map fst rs = map (\<lambda>n. Some ([take 32 one_raw_tx] ! n))
        (requested (history_of (db_history (bp_db s)) (take 11 (sample_sha [81]))) (Some 1000) False)"
proof -
  obtain s :: "unit bp" where s: "flushed [take 32 one_raw_tx] s [one_outpoint \<mapsto> one_entry] [0, 1]"
      "below (db_history (bp_db s)) 1"
    using sample_after by blast
  have l: "length (take 11 (sample_sha [81])) = 11" by (simp add: sample_sha_def)
  from limited_history_exact [OF s(1) l, of 0 "\<lambda>k d. d" "Some 1000" False] s(2) show ?thesis by auto
qed

text \<open>A transaction of block 1 is asked for when only block 0 is flushed; the block, and one more that
  pays the script hash again, arrive while the task sleeps.\<close>

definition later_history :: history where
  "later_history = sample_history\<lparr>hist_db := [(replicate 11 7 @ [0, 0, 0, 1], le_enc 5 3 @ le_enc 5 8),
     (replicate 11 7 @ [0, 0, 0, 2], le_enc 5 9)], flush_count := 2\<rparr>"

lemma later_txnums: "get_txnums later_history (replicate 11 7) None False = Inr [3, 8, 9]"
  by code_simp

theorem early_history_never_answers_witness:
  "\<forall>r. limited_history 100 (\<lambda>k d. d\<lparr>db_height := 2, tx_counts := Some [0, 9, 10], db_history := later_history\<rparr>)
     (sample_db\<lparr>db_history := sample_history, tx_counts := Some [0]\<rparr>) (replicate 11 7) None False \<noteq> Inr (Some r)"
proof (rule allI, rule early_history_never_answers [where nums = "[3, 8]" and n = 8])
  have "rows_ok 1 (hist_db sample_history)" using sample_history_ok(1) by (simp add: history_ok_def sample_history_def)
  moreover have "stored_history (hist_db sample_history) (replicate 11 7) = [3, 8]" by code_simp
  ultimately show "get_txnums (db_history (sample_db\<lparr>db_history := sample_history, tx_counts := Some [0]\<rparr>)) (replicate 11 7) None False
      = Inr [3, 8]"
    using get_txnums_spec by simp
  show "too_early (sample_db\<lparr>db_history := sample_history, tx_counts := Some [0]\<rparr>) 8"
    by (simp add: too_early_def sample_db_def bisect_right_filter)
qed (auto simp: sample_db_def later_txnums)

end
