(* ===== verification/ReorgRange.thy ===== *)
theory ReorgRange
  imports Chain
begin

text \<open>
  The search for the start of a reorganisation (\<open>_calc_reorg_range\<close> in
  \<open>electrumx/server/block_processor.py\<close>): it ends whatever the daemon answers, and it finds the fork
  unless the fork lies below the last window it looks at.
\<close>

section \<open>The search ends\<close>

text \<open>An answer that starts at an offset into the window moves the search start by at most the window.\<close>

lemma diff_pos_le: "diff_pos xs ys \<le> length xs"
  by (induction xs ys rule: diff_pos.induct) auto

definition answers :: "(int \<Rightarrow> int \<Rightarrow> string list res) \<Rightarrow> int \<Rightarrow> bool" where
  "answers ours limit \<longleftrightarrow> (\<forall>start count. 0 \<le> start \<and> 0 \<le> count \<and> start + count \<le> limit \<longrightarrow>
     (\<exists>hashes. ours start count = Inr hashes \<and> int (length hashes) = count))"

lemma reorg_search_bounds:
  assumes "answers ours limit" and "\<forall>start count. \<exists>hashes. theirs start count = Inr hashes"
    and "0 \<le> start" and "0 < count" and "start + count \<le> limit"
  shows "\<exists>n. reorg_search ours theirs start count = Inr n \<and> 0 \<le> n \<and> n \<le> limit"
  using assms
proof (induction ours theirs start count rule: reorg_search.induct)
  case (1 ours theirs start count)
  show ?case
  proof (cases "0 < start")
    case True
    from "1.prems"(1,3-) obtain hashes where h: "ours start count = Inr hashes" "int (length hashes) = count"
      unfolding answers_def by (metis order_less_imp_le)
    from "1.prems"(2) obtain theirs' where t: "theirs start count = Inr theirs'" by blast
    have le: "int (diff_pos hashes theirs') \<le> count" using diff_pos_le [of hashes theirs'] h(2) by simp
    show ?thesis
    proof (cases "0 < diff_pos hashes theirs'")
      case True
      then show ?thesis using h t le \<open>0 < start\<close> "1.prems" by (subst reorg_search.simps) (simp add: Let_def)
    next
      case False
      with "1.IH" [OF _ h(1) t refl, of "min (count * 2) start"] True "1.prems"
      show ?thesis by (subst reorg_search.simps) (simp add: Let_def h t)
    qed
  qed (use "1.prems" in \<open>simp add: reorg_search.simps\<close>)
qed

section \<open>What it finds\<close>

text \<open>Two chains that agree exactly below the fork.\<close>

definition chain_of :: "string list \<Rightarrow> int \<Rightarrow> int \<Rightarrow> string list res" where
  "chain_of hs start count = Inr (take (nat count) (drop (nat start) hs))"

lemma diff_pos_chains:
  assumes "\<forall>i < t. hs ! i = ks ! i \<longleftrightarrow> i < f" and "t \<le> length hs" and "t \<le> length ks" and "s + n \<le> t"
  shows "diff_pos (take n (drop s hs)) (take n (drop s ks)) = (if s + n \<le> f then n else f - s)"
  using assms(4)
proof (induction n arbitrary: s)
  case (Suc n)
  from Suc.prems assms(2,3) have "take (Suc n) (drop s hs) = hs ! s # take n (drop (Suc s) hs)"
    "take (Suc n) (drop s ks) = ks ! s # take n (drop (Suc s) ks)" by (simp_all add: take_Suc_conv_app_nth Cons_nth_drop_Suc flip: Cons_nth_drop_Suc)
  moreover have "hs ! s = ks ! s \<longleftrightarrow> s < f" using assms(1) Suc.prems by simp
  ultimately show ?case using Suc.IH [of "Suc s"] Suc.prems by auto
qed simp

lemma reorg_search_step:
  "0 < s \<Longrightarrow> 0 < c \<Longrightarrow> reorg_search (chain_of hs) (chain_of ks) (int s) (int c)
     = (let n = diff_pos (take c (drop s hs)) (take c (drop s ks)) in
        if 0 < n then Inr (int s + int n)
        else reorg_search (chain_of hs) (chain_of ks) (int s - min (int c * 2) (int s)) (min (int c * 2) (int s)))"
  by (subst reorg_search.simps) (simp add: chain_of_def Let_def)

lemma reorg_search_finds:
  assumes "\<forall>i < t. hs ! i = ks ! i \<longleftrightarrow> i < f" and "t \<le> length hs" and "t \<le> length ks" and "f \<le> t"
    and "2 ^ (k + 1) \<le> t" and "f \<le> t + 1 - 2 ^ k" and "2 ^ m \<le> t" and "t < 2 ^ (m + 1)"
  shows "reorg_search (chain_of hs) (chain_of ks) (int (t + 1 - 2 ^ (k + 1))) (2 ^ k)
     = Inr (if t + 1 - 2 ^ m < f then int f else 0)"
  using assms(5,6)
proof (induction "m - k" arbitrary: k)
  case 0
  have "(2 :: nat) ^ (k + 1) < 2 ^ (m + 1)" using "0.prems"(1) assms(8) by linarith
  then have "k < m" by simp
  with 0 show ?case by simp
next
  case (Suc j)
  let ?s = "t + 1 - 2 ^ (k + 1)" and ?c = "2 ^ k :: nat"
  have sum: "?s + ?c = t + 1 - ?c" using Suc.prems(1) by simp
  have n: "diff_pos (take ?c (drop ?s hs)) (take ?c (drop ?s ks)) = f - ?s"
  proof -
    have "1 \<le> ?c" by simp
    then have "?s + ?c \<le> t" using sum by linarith
    from diff_pos_chains [OF assms(1-3) this] show ?thesis using sum Suc.prems(2) by (simp only: split: if_split) linarith
  qed
  have 2: "(2 :: int) ^ k = int ?c" by simp
  have step: "reorg_search (chain_of hs) (chain_of ks) (int ?s) (2 ^ k)
     = (if 0 < f - ?s then Inr (int ?s + int (f - ?s))
        else reorg_search (chain_of hs) (chain_of ks) (int ?s - min (2 ^ k * 2) (int ?s)) (min (2 ^ k * 2) (int ?s)))"
    using reorg_search_step [of ?s ?c hs ks] Suc.prems(1) unfolding n 2 Let_def by simp
  show ?case
  proof (cases "?s < f")
    case True
    have "k + 1 \<le> m"
    proof (rule ccontr)
      assume "\<not> k + 1 \<le> m"
      then have "(2 :: nat) ^ (m + 1) \<le> 2 ^ (k + 1)" by (intro power_increasing) auto
      with Suc.prems(1) assms(8) show False by linarith
    qed
    then have "(2 :: nat) ^ (k + 1) \<le> 2 ^ m" by (intro power_increasing) auto
    with True step show ?thesis by simp
  next
    case False
    show ?thesis
    proof (cases "2 ^ (k + 2) \<le> t")
      case True
      have "k + 1 \<le> m" using Suc.hyps(2) by simp
      have le: "2 * ?c \<le> ?s" using True by simp
      have "int ?s - int (2 * ?c) = int (t + 1 - 2 ^ (k + 1 + 1))" by (subst of_nat_diff [OF le, symmetric]) simp
      moreover have "min (2 ^ k * 2) (int ?s) = 2 ^ (k + 1)" using of_nat_mono [OF le, where 'a = int] by simp
      ultimately have "int ?s - min (2 ^ k * 2) (int ?s) = int (t + 1 - 2 ^ (k + 1 + 1))" "min (2 ^ k * 2) (int ?s) = 2 ^ (k + 1)"
        by simp_all
      with Suc.hyps(1) [of "k + 1"] Suc.hyps(2) True False step show ?thesis by simp
    next
      case f2: False
      have km: "k + 1 = m"
      proof (rule antisym)
        show "k + 1 \<le> m" using Suc.hyps(2) by simp
        have "(2 :: nat) ^ m < 2 ^ (k + 2)" using f2 assms(7) by linarith
        then show "m \<le> k + 1" by (simp only: power_strict_increasing_iff)
      qed
      have "?s \<le> 2 * ?c" using f2 by simp
      then have "min (2 ^ k * 2) (int ?s) = int ?s" using of_nat_mono [of ?s "2 * ?c", where 'a = int] by simp
      with km show ?thesis using step False by (simp add: reorg_search.simps [of _ _ 0])
    qed
  qed
qed

section \<open>The range\<close>

text \<open>The hashes of the database are those of its headers, 80 bytes each.\<close>

definition db_headers :: "db \<Rightarrow> bytes list \<Rightarrow> bool" where
  "db_headers d hdrs \<longleftrightarrow> lf_rep (headers_file d) (concat hdrs) \<and> (\<forall>hdr \<in> set hdrs. length hdr = 80)
     \<and> db_height d + 1 = int (length hdrs)"

lemma slice_headers:
  assumes "\<forall>hdr \<in> set hdrs. length hdr = 80" and "i < length hdrs"
  shows "slice (i * 80) (i * 80 + 80) (concat hdrs) = hdrs ! i"
  using assms
proof (induction hdrs arbitrary: i)
  case (Cons hdr hdrs)
  then show ?case by (cases i) (auto simp: slice_def)
qed simp

lemma fs_block_hashes_headers:
  assumes "db_headers d hdrs" and "0 \<le> start" and "0 \<le> count" and "start + count \<le> int (length hdrs)"
  shows "fs_block_hashes H d start count = Inr (take (nat count) (drop (nat start) (map H hdrs)))"
proof -
  let ?s = "nat start" and ?c = "nat count"
  have d: "lf_rep (headers_file d) (concat hdrs)" "\<forall>hdr \<in> set hdrs. length hdr = 80" "db_height d + 1 = int (length hdrs)"
    using assms(1) by (simp_all add: db_headers_def)
  have hdr: "slice (i * 80) (i * 80 + 80) (slice (nat (start * 80)) (nat (start * 80) + nat (count * 80)) (concat hdrs)) = hdrs ! (?s + i)"
    if "i < ?c" for i
  proof -
    have "nat (start * 80) = ?s * 80" "nat (count * 80) = ?c * 80" using assms(2,3) by (simp_all add: nat_mult_distrib)
    then have "slice (i * 80) (i * 80 + 80) (slice (nat (start * 80)) (nat (start * 80) + nat (count * 80)) (concat hdrs))
        = slice ((?s + i) * 80) ((?s + i) * 80 + 80) (concat hdrs)"
      using that by (simp add: slice_def drop_take min_def algebra_simps)
    also have "\<dots> = hdrs ! (?s + i)" using that assms(2-4) by (intro slice_headers [OF d(2)]) linarith
    finally show ?thesis .
  qed
  have "read_headers d start count = Inr (slice (nat (start * 80)) (nat (start * 80) + nat (count * 80)) (concat hdrs), count)"
    using assms(2-4) d(3) by (auto simp: read_headers_def lf_read_rep [OF d(1)] slice_def Let_def)
  moreover have "map (\<lambda>i. H (slice (i * 80) (i * 80 + 80)
      (slice (nat (start * 80)) (nat (start * 80) + nat (count * 80)) (concat hdrs)))) [0..<?c]
      = take ?c (drop ?s (map H hdrs))"
    using assms(2-4) hdr by (intro nth_equalityI) auto
  ultimately show ?thesis by (simp add: fs_block_hashes_def)
qed

lemma our_hashes_headers:
  assumes "db_headers d hdrs" and "0 \<le> start" and "0 \<le> count" and "start + count \<le> int (length hdrs)"
  shows "our_hashes H d start count = chain_of (map (hash_to_hex_str \<circ> H) hdrs) start count"
  by (simp add: our_hashes_def fs_block_hashes_headers [OF assms] chain_of_def take_map drop_map)

text \<open>The search asks for ranges below the top only, so it may be run on the lists instead.\<close>

lemma reorg_search_ours:
  assumes "\<And>s c. 0 \<le> s \<Longrightarrow> 0 \<le> c \<Longrightarrow> s + c \<le> limit \<Longrightarrow> ours s c = ours' s c"
    and "start + count \<le> limit"
  shows "reorg_search ours theirs start count = reorg_search ours' theirs start count"
  using assms
proof (induction ours theirs start count rule: reorg_search.induct)
  case (1 ours theirs start count)
  show ?case
  proof (cases "0 < start \<and> 0 < count")
    case True
    from True "1.prems" have same: "ours start count = ours' start count" by simp
    show ?thesis
    proof (subst (1 2) reorg_search.simps, simp only: True simp_thms if_True same, intro rbind_cong refl)
      fix hs ks assume h: "ours' start count = Inr hs" "theirs start count = Inr ks"
      have "reorg_search ours theirs (start - min (count * 2) start) (min (count * 2) start)
          = reorg_search ours' theirs (start - min (count * 2) start) (min (count * 2) start)" if "diff_pos hs ks = 0"
        using True that h "1.prems" by (intro "1.IH" [of hs ks "diff_pos hs ks"]) (auto simp: same)
      then show "(let n = diff_pos hs ks in if 0 < n then Inr (start + int n)
            else let count = min (count * 2) start in reorg_search ours theirs (start - count) count)
          = (let n = diff_pos hs ks in if 0 < n then Inr (start + int n)
            else let count = min (count * 2) start in reorg_search ours' theirs (start - count) count)"
        by (simp add: Let_def)
    qed
  next
    case False
    show ?thesis by (subst (1 2) reorg_search.simps, simp only: False if_False)
  qed
qed

text \<open>The database at the height of the block processor, after a flush.\<close>

definition at_tip :: "'o bp \<Rightarrow> bytes list \<Rightarrow> bool" where
  "at_tip s hdrs \<longleftrightarrow> db_headers (bp_db s) hdrs \<and> height s = db_height (bp_db s)"

lemma reorg_hashes_eq:
  assumes "at_tip s hdrs" and "0 < height s" and "n < 0"
    and "reorg_search (chain_of (map (hash_to_hex_str \<circ> H) hdrs)) theirs (height s - 1) 1 = Inr start"
    and "0 \<le> start" and "start \<le> height s"
  shows "reorg_hashes H theirs n s = Inr (start, height s, map H (drop (nat start) hdrs))"
proof -
  have t: "db_headers (bp_db s) hdrs" "height s + 1 = int (length hdrs)" using assms(1) by (simp_all add: at_tip_def db_headers_def)
  have "reorg_search (our_hashes H (bp_db s)) theirs (height s - 1) 1
      = reorg_search (chain_of (map (hash_to_hex_str \<circ> H) hdrs)) theirs (height s - 1) 1"
    by (rule reorg_search_ours [where limit = "height s"]) (use our_hashes_headers [OF t(1)] t(2) in auto)
  then have r: "calc_reorg_range (our_hashes H (bp_db s)) theirs (height s) n = Inr (start, height s - start + 1)"
    using assms(3,4) by (simp add: calc_reorg_range_def)
  have "fs_block_hashes H (bp_db s) start (height s - start + 1) = Inr (map H (drop (nat start) hdrs))"
    using fs_block_hashes_headers [OF t(1), of start "height s - start + 1" H] assms(5,6) t(2) by (simp add: drop_map)
  then show ?thesis by (simp add: reorg_hashes_def r)
qed

text \<open>C24: In a reorganisation the search for its start ends whatever chain the daemon answers with, however long
  or short its answers: the blocks to back up are those from some height up to the tip.\<close>
theorem reorg_search_ends:
  assumes "at_tip s hdrs" and "0 < height s" and "n < 0" and "\<forall>start count. \<exists>hashes. theirs start count = Inr hashes"
  shows "\<exists>start. 0 \<le> start \<and> start \<le> height s
    \<and> reorg_hashes H theirs n s = Inr (start, height s, map H (drop (nat start) hdrs))"
proof -
  have "answers (chain_of (map (hash_to_hex_str \<circ> H) hdrs)) (height s)"
    using assms(1) by (auto simp: answers_def chain_of_def at_tip_def db_headers_def)
  from reorg_search_bounds [OF this assms(4), of "height s - 1" 1] assms(2) obtain start where
    "reorg_search (chain_of (map (hash_to_hex_str \<circ> H) hdrs)) theirs (height s - 1) 1 = Inr start" "0 \<le> start" "start \<le> height s"
    by auto
  from reorg_hashes_eq [OF assms(1-3) this] this(2,3) show ?thesis by blast
qed

text \<open>C22: When the daemon's chain differs from the indexed one from some height on, the blocks to back up are
  exactly those from the first differing height to the tip, provided that height is above the last window
  of the search (which covers at least the upper half of the chain); below it the range reaches
  down to the genesis block.\<close>
theorem reorg_range_exact:
  assumes "at_tip s hdrs" and "height s = int t" and "n < 0" and "t \<le> length ks"
    and "\<forall>i < t. hash_to_hex_str (H (hdrs ! i)) = ks ! i \<longleftrightarrow> i < f" and "f \<le> t"
    and "2 ^ m \<le> t" and "t < 2 ^ (m + 1)"
  shows "reorg_hashes H (chain_of ks) n s
    = (let start = (if t + 1 - 2 ^ m < f then f else 0) in Inr (int start, height s, map H (drop start hdrs)))
    \<and> t + 1 - 2 ^ m \<le> (t + 1) div 2"
proof -
  let ?hs = "map (hash_to_hex_str \<circ> H) hdrs" and ?start = "if t + 1 - 2 ^ m < f then f else 0"
  have len: "length hdrs = t + 1" using assms(1,2) by (simp add: at_tip_def db_headers_def)
  have pos: "0 < t" using assms(7) by (metis gr0I le_zero_eq power_not_zero zero_neq_numeral)
  have agree: "\<forall>i < t. ?hs ! i = ks ! i \<longleftrightarrow> i < f" using assms(5) len by simp
  have "reorg_search (chain_of ?hs) (chain_of ks) (height s - 1) 1 = Inr (int ?start)"
  proof (cases "t = 1")
    case True
    then have "m = 0" using assms(7) power_increasing [of 1 m "2 :: nat"] by (cases "m = 0") auto
    then show ?thesis using True assms(2,6) by (simp add: reorg_search.simps)
  next
    case False
    then have "2 ^ (0 + 1) \<le> t" using pos by simp
    from reorg_search_finds [OF agree _ assms(4,6) this _ assms(7,8)] show ?thesis using len assms(2,6) pos by (simp add: of_nat_diff)
  qed
  from reorg_hashes_eq [OF assms(1) _ assms(3) this] pos assms(2,6) have
    "reorg_hashes H (chain_of ks) n s = Inr (int ?start, height s, map H (drop ?start hdrs))" by simp
  moreover have "t + 1 - 2 ^ m \<le> (t + 1) div 2" using assms(8) by simp
  ultimately show ?thesis by (simp add: Let_def)
qed

definition three_headers :: "bytes list" where
  "three_headers = [replicate 80 1, replicate 80 2, replicate 80 3]"

definition sample_tip :: "unit bp" where
  "sample_tip = sample_bp\<lparr>height := 2, bp_db := sample_db\<lparr>db_height := 2,
     headers_file := \<lparr>file_size = 16000000, files = [(0, concat three_headers)]\<rparr>\<rparr>\<rparr>"

lemma sample_at_tip: "at_tip sample_tip three_headers"
proof -
  have "length (concat three_headers) = 240" by (simp add: three_headers_def)
  then have "lf_rep \<lparr>file_size = 16000000, files = [(0, concat three_headers)]\<rparr> (concat three_headers)"
    by (auto simp: lf_rep_def slice_def) (subgoal_tac "n = 0", simp_all)
  then show ?thesis by (simp add: at_tip_def db_headers_def sample_tip_def three_headers_def)
qed

lemma sample_tip_height: "height sample_tip = 2"
  by (simp add: sample_tip_def)

theorem reorg_search_ends_witness:
  "\<exists>start. 0 \<le> start \<and> start \<le> height sample_tip
    \<and> reorg_hashes (take 1) (\<lambda>_ _. Inr []) (-1) sample_tip = Inr (start, height sample_tip, map (take 1) (drop (nat start) three_headers))"
  by (rule reorg_search_ends [OF sample_at_tip]) (simp_all add: sample_tip_height)

theorem reorg_range_exact_witness:
  "reorg_hashes (take 1) (chain_of [''01'', ''02'', ''ff'']) (-1) sample_tip = Inr (2, 2, [[3]])"
proof -
  have h: "hash_to_hex_str [1] = ''01''" "hash_to_hex_str [2] = ''02''" by code_simp+
  have "\<forall>i < 2. hash_to_hex_str (take 1 (three_headers ! i)) = [''01'', ''02'', ''ff''] ! i \<longleftrightarrow> i < 2"
    using h by (auto simp: three_headers_def less_2_cases_iff)
  from reorg_range_exact [OF sample_at_tip _ _ _ this, of "-1" 1] show ?thesis
    by (simp add: sample_tip_height three_headers_def)
qed

end
