(* ===== verification/UndoLog.thy ===== *)
theory UndoLog
  imports Db HistoryFacts
begin

text \<open>
  The undo log of the side indexes (\<open>server/glyph_index.py\<close>, \<open>wave_index.py\<close>, \<open>realm_index.py\<close>,
  \<open>swap_index.py\<close>, \<open>predict_index.py\<close>, \<open>royalty_index.py\<close>, \<open>analytics_index.py\<close>): each keeps, per height,
  the previous value of every key it writes, puts these entries into the batch of its flush, and
  writes them back when the block at that height is undone. The indexes carry their own copies of this
  code; what they share is stated here once, as a locale they interpret.
\<close>

section \<open>Recording, pruning and reverting\<close>

text \<open>\<open>_undo_cache\<close> and \<open>_undo_seen\<close>, the latter as pairs of a height and a key.\<close>

record undo_log =
  undo_cache :: "(int, (bytes \<times> bytes option) list) dict"
  undo_seen :: "(int \<times> bytes) set"

definition no_undo :: undo_log where
  "no_undo = \<lparr>undo_cache = [], undo_seen = {}\<rparr>"

definition undo_at :: "undo_log \<Rightarrow> int \<Rightarrow> (bytes \<times> bytes option) list" where
  "undo_at log ht = (case map_of (undo_cache log) ht of None \<Rightarrow> [] | Some es \<Rightarrow> es)"

definition record_undo :: "kv \<Rightarrow> int \<Rightarrow> bytes \<Rightarrow> undo_log \<Rightarrow> undo_log" where
  "record_undo kv ht key log =
     (if (ht, key) \<in> undo_seen log then log
      else log\<lparr>undo_seen := insert (ht, key) (undo_seen log),
        undo_cache := dict_set ht (undo_at log ht @ [(key, kv_get kv key)]) (undo_cache log)\<rparr>)"

definition height_key :: "bytes \<Rightarrow> int \<Rightarrow> bytes res" where
  "height_key prefix ht = rbind (pack_be_uint32 ht) (\<lambda>b. Inr (prefix @ b))"

text \<open>\<open>_prune_old_undo_keys\<close>: the deletions and the new \<open>_last_undo_pruned\<close>.\<close>

definition prune_undo :: "bytes \<Rightarrow> db \<Rightarrow> int \<Rightarrow> (batch_op list \<times> int) res" where
  "prune_undo prefix d last_pruned =
     (if reorg_limit d = 0 then Inr ([], last_pruned)
      else let prune_to = max 0 (db_height d - reorg_limit d + 1) - 1 in
        if prune_to \<le> last_pruned then Inr ([], last_pruned)
        else rbind (mapM (\<lambda>ht. rbind (height_key prefix ht) (\<lambda>k. Inr (Delete k))) [last_pruned + 1..prune_to])
               (\<lambda>ops. Inr (ops, prune_to)))"

text \<open>The loop over \<open>sorted(self._undo_cache.items())\<close>; the heights are distinct, so the entries are
  never compared.\<close>

definition undo_puts :: "bytes \<Rightarrow> undo_log \<Rightarrow> batch_op list res" where
  "undo_puts prefix log =
     mapM (\<lambda>(ht, entries). rbind (height_key prefix ht) (\<lambda>k. rbind (encode_undo entries) (\<lambda>v. Inr (Put k v))))
       (sort_key fst (undo_cache log))"

definition restore_op :: "bytes \<times> bytes option \<Rightarrow> batch_op" where
  "restore_op e = (case e of (key, None) \<Rightarrow> Delete key | (key, Some prev) \<Rightarrow> Put key prev)"

definition revert_undo :: "bytes \<Rightarrow> kv \<Rightarrow> int \<Rightarrow> batch_op list res" where
  "revert_undo prefix kv ht =
     rbind (height_key prefix ht) (\<lambda>k.
       case kv_get kv k of
         Some (b # bs) \<Rightarrow> Inr (map restore_op (decode_undo (b # bs)) @ [Delete k])
       | _ \<Rightarrow> Inr [])"

section \<open>What the log holds\<close>

text \<open>An index's flush is a list of operations, each recorded under a height before it is put into
  the batch, or not recorded at all.\<close>

type_synonym planned = "(int option \<times> batch_op) list"

definition log_plan :: "kv \<Rightarrow> planned \<Rightarrow> undo_log \<Rightarrow> undo_log" where
  "log_plan kv plan log =
     fold (\<lambda>(ht, op) log. case ht of None \<Rightarrow> log | Some ht \<Rightarrow> record_undo kv ht (op_key op) log) plan log"

definition logged :: "undo_log \<Rightarrow> int \<Rightarrow> bytes set" where
  "logged log ht = fst ` set (undo_at log ht)"

text \<open>The invariant of a log over a store: what has been seen is what is recorded, with the value the
  store holds; heights fit their key field, and the entries their length fields.\<close>

definition undo_ok :: "kv \<Rightarrow> undo_log \<Rightarrow> bool" where
  "undo_ok kv log \<longleftrightarrow> dict_ok (undo_cache log) \<and> undo_seen log = {(ht, k). k \<in> logged log ht}
     \<and> (\<forall>(ht, es) \<in> set (undo_cache log). 0 \<le> ht \<and> ht < 2 ^ 32 \<and> es \<noteq> []
          \<and> (\<forall>e \<in> set es. snd e = kv_get kv (fst e) \<and> undo_entry_fits e))"

definition plan_fits :: "kv \<Rightarrow> planned \<Rightarrow> bool" where
  "plan_fits kv plan \<longleftrightarrow> (\<forall>(ht, op) \<in> set plan. \<forall>h. ht = Some h \<longrightarrow> 0 \<le> h \<and> h < 2 ^ 32
     \<and> undo_entry_fits (op_key op, kv_get kv (op_key op)))"

lemma no_undo_ok [simp]: "undo_ok kv no_undo"
  by (simp add: undo_ok_def no_undo_def logged_def undo_at_def)

lemma logged_no_undo [simp]: "logged no_undo ht = {}"
  by (simp add: logged_def undo_at_def no_undo_def)

lemma undo_at_mem: "dict_ok (undo_cache log) \<Longrightarrow> (ht, es) \<in> set (undo_cache log) \<Longrightarrow> undo_at log ht = es"
  by (simp add: undo_at_def map_of_eq_iff_mem [symmetric])

lemma undo_at_record: "undo_at (record_undo kv h k log) ht =
    (if ht = h \<and> (h, k) \<notin> undo_seen log then undo_at log h @ [(k, kv_get kv k)] else undo_at log ht)"
  by (simp add: record_undo_def undo_at_def)

lemma logged_record: "undo_ok kv log \<Longrightarrow> logged (record_undo kv h k log) ht = (if ht = h then insert k (logged log h) else logged log ht)"
  by (auto simp: logged_def undo_at_record undo_ok_def)

lemma dict_set_mem: "e \<in> set (dict_set k v d) \<Longrightarrow> e = (k, v) \<or> e \<in> set d"
  by (induction k v d rule: dict_set.induct) (auto split: if_splits)

lemma undo_ok_at: "undo_ok kv log \<Longrightarrow> e \<in> set (undo_at log ht) \<Longrightarrow> snd e = kv_get kv (fst e) \<and> undo_entry_fits e"
proof -
  assume ok: "undo_ok kv log" and e: "e \<in> set (undo_at log ht)"
  obtain es where "map_of (undo_cache log) ht = Some es" "e \<in> set es"
    using e by (cases "map_of (undo_cache log) ht") (simp_all add: undo_at_def)
  with ok show ?thesis unfolding undo_ok_def by (blast dest: map_of_SomeD)
qed

lemma undo_ok_record:
  assumes "undo_ok kv log" and "0 \<le> h" and "h < 2 ^ 32" and "undo_entry_fits (k, kv_get kv k)"
  shows "undo_ok kv (record_undo kv h k log)"
proof (cases "(h, k) \<in> undo_seen log")
  case True
  then show ?thesis using assms(1) by (simp add: record_undo_def)
next
  case False
  let ?r = "record_undo kv h k log"
  have "dict_ok (undo_cache ?r)" using assms(1) False by (simp add: record_undo_def undo_ok_def)
  moreover have "undo_seen ?r = {(ht, k). k \<in> logged ?r ht}"
    using assms(1) False unfolding logged_record [OF assms(1)] by (auto simp: record_undo_def undo_ok_def split: if_splits)
  moreover have "0 \<le> ht \<and> ht < 2 ^ 32 \<and> es \<noteq> [] \<and> (\<forall>e \<in> set es. snd e = kv_get kv (fst e) \<and> undo_entry_fits e)"
    if m: "(ht, es) \<in> set (undo_cache ?r)" for ht es
  proof -
    from m False have "(ht, es) = (h, undo_at log h @ [(k, kv_get kv k)]) \<or> (ht, es) \<in> set (undo_cache log)"
      by (auto simp: record_undo_def dest: dict_set_mem)
    then show ?thesis
    proof
      assume e: "(ht, es) = (h, undo_at log h @ [(k, kv_get kv k)])"
      then show ?thesis using undo_ok_at [OF assms(1)] assms(2-4) by auto
    next
      assume e: "(ht, es) \<in> set (undo_cache log)"
      with assms(1) show ?thesis unfolding undo_ok_def by blast
    qed
  qed
  ultimately show ?thesis unfolding undo_ok_def by blast
qed

lemma log_plan_append: "log_plan kv (a @ b) log = log_plan kv b (log_plan kv a log)"
  by (simp add: log_plan_def)

lemma plan_fits_append [simp]: "plan_fits kv (a @ b) \<longleftrightarrow> plan_fits kv a \<and> plan_fits kv b"
  by (auto simp: plan_fits_def)

text \<open>Stored values are shorter than the sentinel of the undo format.\<close>

definition values_fit :: "kv \<Rightarrow> bool" where
  "values_fit kv \<longleftrightarrow> (\<forall>k v. kv_get kv k = Some v \<longrightarrow> length v < UNDO_NONE_SENTINEL)"

lemma log_plan_ok:
  assumes "undo_ok kv log" and "plan_fits kv plan"
  shows "undo_ok kv (log_plan kv plan log)
    \<and> logged (log_plan kv plan log) ht = logged log ht \<union> {op_key op | op. (Some ht, op) \<in> set plan}"
  using assms
proof (induction plan arbitrary: log)
  case Nil
  then show ?case by (simp add: log_plan_def)
next
  case (Cons p plan)
  obtain h op where p: "p = (h, op)" by (cases p)
  let ?log = "case h of None \<Rightarrow> log | Some h \<Rightarrow> record_undo kv h (op_key op) log"
  have step: "log_plan kv (p # plan) log = log_plan kv plan ?log" by (simp add: log_plan_def p)
  have "undo_ok kv ?log" using Cons.prems by (auto simp: p plan_fits_def intro: undo_ok_record split: option.split)
  moreover have "plan_fits kv plan" using Cons.prems(2) by (simp add: plan_fits_def)
  ultimately have "undo_ok kv (log_plan kv plan ?log)
      \<and> logged (log_plan kv plan ?log) ht = logged ?log ht \<union> {op_key op | op. (Some ht, op) \<in> set plan}"
    by (rule Cons.IH)
  moreover have "logged ?log ht = (if h = Some ht then insert (op_key op) (logged log ht) else logged log ht)"
    using logged_record [OF Cons.prems(1)] by (auto split: option.split)
  ultimately show ?case unfolding step by (auto simp: p)
qed

section \<open>Writing the log and reverting a height\<close>

lemma height_key_fits: "0 \<le> ht \<Longrightarrow> ht < 2 ^ 32 \<Longrightarrow> height_key p ht = Inr (p @ be_enc 4 (nat ht))"
  using pack_be_uint32_nat [of "nat ht"] by (simp add: height_key_def)

lemma height_key_Inr: "height_key p ht = Inr k \<Longrightarrow> 0 \<le> ht \<and> ht < 2 ^ 32 \<and> k = p @ be_enc 4 (nat ht)"
  by (auto simp: height_key_def rbind_eq_Inr pack_be_uint32_Inr)

lemma be_enc_height_inj:
  "0 \<le> h \<Longrightarrow> h < 2 ^ 32 \<Longrightarrow> 0 \<le> h' \<Longrightarrow> h' < 2 ^ 32 \<Longrightarrow> be_enc 4 (nat h) = be_enc 4 (nat h') \<longleftrightarrow> h = h'"
  using be_enc_inj [of "nat h" 4 "nat h'"] by (simp add: nat_less_iff eq_nat_nat_iff)

lemma height_key_inj: "height_key p h = Inr k \<Longrightarrow> height_key p h' = Inr k \<Longrightarrow> h = h'"
  using be_enc_height_inj [of h h'] by (auto dest!: height_key_Inr)

lemma encode_undo_nonempty: "encode_undo es = Inr blob \<Longrightarrow> es \<noteq> [] \<Longrightarrow> \<forall>e \<in> set es. undo_entry_fits e \<Longrightarrow> blob \<noteq> []"
  using undo_codec [of es] by (auto simp: decode_undo_def decode_undo_loop.simps)

text \<open>Every logged height is written, and no other key.\<close>

lemma undo_puts_ok:
  assumes "undo_ok kv log"
  shows "\<exists>ops. undo_puts p log = Inr ops
    \<and> (\<forall>op \<in> set ops. \<exists>(ht, es) \<in> set (undo_cache log). \<exists>blob. op = Put (p @ be_enc 4 (nat ht)) blob \<and> encode_undo es = Inr blob)
    \<and> (\<forall>(ht, es) \<in> set (undo_cache log). \<exists>blob. Put (p @ be_enc 4 (nat ht)) blob \<in> set ops \<and> encode_undo es = Inr blob)"
proof -
  define f where "f = (\<lambda>(ht :: int, es). Put (p @ be_enc 4 (nat ht)) (projr (encode_undo es)))"
  have each: "rbind (height_key p ht) (\<lambda>k. rbind (encode_undo es) (\<lambda>v. Inr (Put k v))) = Inr (f (ht, es))"
      "\<exists>blob. encode_undo es = Inr blob \<and> f (ht, es) = Put (p @ be_enc 4 (nat ht)) blob"
    if "(ht, es) \<in> set (undo_cache log)" for ht es
  proof -
    from assms that have h: "0 \<le> ht" "ht < 2 ^ 32" "\<forall>e \<in> set es. undo_entry_fits e" by (auto simp: undo_ok_def)
    from undo_codec [OF h(3)] obtain blob where "encode_undo es = Inr blob" by blast
    then show "rbind (height_key p ht) (\<lambda>k. rbind (encode_undo es) (\<lambda>v. Inr (Put k v))) = Inr (f (ht, es))"
      "\<exists>blob. encode_undo es = Inr blob \<and> f (ht, es) = Put (p @ be_enc 4 (nat ht)) blob"
      using height_key_fits [OF h(1,2), of p] by (simp_all add: f_def)
  qed
  have "undo_puts p log = Inr (map f (sort_key fst (undo_cache log)))"
    unfolding undo_puts_def
  proof (rule mapM_Inr)
    fix x assume "x \<in> set (sort_key fst (undo_cache log))"
    then have "(fst x, snd x) \<in> set (undo_cache log)" by simp
    from each(1) [OF this] show "(case x of (ht, entries) \<Rightarrow> rbind (height_key p ht) (\<lambda>k. rbind (encode_undo entries) (\<lambda>v. Inr (Put k v))))
        = Inr (f x)" by (simp add: split_beta)
  qed
  moreover have "\<exists>(ht, es) \<in> set (undo_cache log). \<exists>blob. op = Put (p @ be_enc 4 (nat ht)) blob \<and> encode_undo es = Inr blob"
    if "op \<in> f ` set (undo_cache log)" for op
    using that each(2) by fast
  moreover have "\<exists>blob. Put (p @ be_enc 4 (nat ht)) blob \<in> f ` set (undo_cache log) \<and> encode_undo es = Inr blob"
    if "(ht, es) \<in> set (undo_cache log)" for ht es
    using each(2) [OF that] that by (metis image_eqI)
  ultimately show ?thesis by auto
qed

lemma fold_op_unchanged: "\<forall>op \<in> set ops. op_key op \<noteq> k \<Longrightarrow> fold op_map ops m k = m k"
proof (induction ops arbitrary: m)
  case (Cons op ops)
  then show ?case by (cases op) auto
qed simp

lemma fold_op_written:
  assumes "Put k v \<in> set ops" and "\<forall>op \<in> set ops. op_key op = k \<longrightarrow> op = Put k v"
  shows "fold op_map ops m k = Some v"
  using assms
proof (induction ops rule: rev_induct)
  case (snoc op ops)
  show ?case
  proof (cases "op_key op = k")
    case True
    then have "op = Put k v" by (rule snoc.prems(2) [rule_format, rotated]) simp
    then show ?thesis by simp
  next
    case False
    then have "op_map op m' k = m' k" for m' by (cases op) auto
    moreover have "Put k v \<in> set ops" using snoc.prems(1) False by auto
    then have "fold op_map ops m k = Some v" by (rule snoc.IH) (use snoc.prems(2) in \<open>unfold set_append, blast\<close>)
    ultimately show ?thesis by simp
  qed
qed simp

text \<open>Reverting a height puts back the recorded value of every key logged under it.\<close>

lemma fold_restore:
  assumes "\<forall>e \<in> set es. snd e = kv_get kv (fst e)"
  shows "fold op_map (map restore_op es) m k = (if k \<in> fst ` set es then kv_get kv k else m k)"
  using assms
proof (induction es arbitrary: m)
  case (Cons e es)
  obtain key prev where e: "e = (key, prev)" by (cases e)
  then have "op_map (restore_op e) m = m(key := kv_get kv key)"
    using Cons.prems by (cases "kv_get kv key") (simp_all add: restore_op_def)
  with Cons show ?case by (auto simp: e)
qed simp

text \<open>The log is in the batch, in some order: not every index sorts its heights, and as these are
  distinct, the order does not matter.\<close>

definition undo_written :: "bytes \<Rightarrow> undo_log \<Rightarrow> batch_op list \<Rightarrow> bool" where
  "undo_written p log puts \<longleftrightarrow> (\<exists>sorted. undo_puts p log = Inr sorted \<and> set puts = set sorted)"

lemma undo_writtenI [intro]: "undo_puts p log = Inr puts \<Longrightarrow> undo_written p log puts"
  by (auto simp: undo_written_def)

lemma flush_writes_log:
  assumes "undo_ok kv log" and "undo_written p log puts" and "kv_ok kv'"
    and "\<forall>op \<in> set ops. op_key op = p @ be_enc 4 (nat ht) \<longrightarrow> False" and "0 \<le> ht" and "ht < 2 ^ 32"
  shows "kv_get (apply_batch (ops @ puts) kv') (p @ be_enc 4 (nat ht)) =
    (if undo_at log ht = [] then kv_get kv' (p @ be_enc 4 (nat ht)) else Some (projr (encode_undo (undo_at log ht))))
    \<and> (undo_at log ht \<noteq> [] \<longrightarrow> (\<exists>blob. encode_undo (undo_at log ht) = Inr blob))"
proof -
  let ?k = "p @ be_enc 4 (nat ht)"
  obtain sorted where sorted: "undo_puts p log = Inr sorted" "set puts = set sorted"
    using assms(2) by (auto simp: undo_written_def)
  from undo_puts_ok [OF assms(1), of p] sorted(1) have
      from_log: "\<forall>op \<in> set puts. \<exists>(ht, es) \<in> set (undo_cache log). \<exists>blob. op = Put (p @ be_enc 4 (nat ht)) blob \<and> encode_undo es = Inr blob"
      and to_log: "\<forall>(ht, es) \<in> set (undo_cache log). \<exists>blob. Put (p @ be_enc 4 (nat ht)) blob \<in> set puts \<and> encode_undo es = Inr blob"
    unfolding sorted(2) by auto
  have d: "dict_ok (undo_cache log)" using assms(1) by (simp add: undo_ok_def)
  have here: "es = undo_at log ht" if "(h, es) \<in> set (undo_cache log)" "be_enc 4 (nat h) = be_enc 4 (nat ht)" for h es
  proof -
    have "0 \<le> h \<and> h < 2 ^ 32" using assms(1) that(1) by (auto simp: undo_ok_def)
    with that(2) assms(5,6) have "h = ht" using be_enc_height_inj by blast
    with undo_at_mem [OF d that(1)] show ?thesis by simp
  qed
  have get: "kv_get (apply_batch (ops @ puts) kv') ?k = fold op_map puts (fold op_map ops (kv_get kv')) ?k"
    by (simp add: kv_get_apply_batch [OF assms(3)])
  have before: "fold op_map ops (kv_get kv') ?k = kv_get kv' ?k" using assms(4) by (intro fold_op_unchanged) blast
  show ?thesis
  proof (cases "undo_at log ht = []")
    case True
    have "op_key op \<noteq> ?k" if "op \<in> set puts" for op
    proof
      assume "op_key op = ?k"
      with from_log that obtain h es where m: "(h, es) \<in> set (undo_cache log)" "be_enc 4 (nat h) = be_enc 4 (nat ht)" by fastforce
      from here [OF m] True have "es = []" by simp
      with assms(1) m(1) show False by (auto simp: undo_ok_def)
    qed
    then have "\<forall>op \<in> set puts. op_key op \<noteq> ?k" by blast
    from fold_op_unchanged [OF this] True before show ?thesis unfolding get by simp
  next
    case False
    then have m: "(ht, undo_at log ht) \<in> set (undo_cache log)"
      by (auto simp: undo_at_def split: option.splits dest: map_of_SomeD)
    from bspec [OF to_log m] obtain blob where blob: "Put ?k blob \<in> set puts" "encode_undo (undo_at log ht) = Inr blob" by auto
    have "fold op_map puts (fold op_map ops (kv_get kv')) ?k = Some blob"
    proof (rule fold_op_written [OF blob(1)])
      show "\<forall>op \<in> set puts. op_key op = ?k \<longrightarrow> op = Put ?k blob"
      proof (intro ballI impI)
        fix op assume "op \<in> set puts" and k: "op_key op = ?k"
        with from_log obtain h es b where m: "(h, es) \<in> set (undo_cache log)" "op = Put (p @ be_enc 4 (nat h)) b" "encode_undo es = Inr b"
          by fastforce
        with here [OF m(1)] k blob(2) show "op = Put ?k blob" by simp
      qed
    qed
    with False blob(2) show ?thesis unfolding get by simp
  qed
qed

text \<open>Pruning deletes entries of heights below the reorganisation window.\<close>

lemma prune_undo_below:
  assumes "prune_undo p d n = Inr old" and "db_height d - reorg_limit d < ht \<or> reorg_limit d = 0" and "0 \<le> ht" and "ht < 2 ^ 32"
  shows "\<forall>op \<in> set (fst old). op_key op \<noteq> p @ be_enc 4 (nat ht)"
proof (cases "fst old = []")
  case False
  let ?to = "max 0 (db_height d - reorg_limit d + 1) - 1"
  from assms(1) False have lim: "reorg_limit d \<noteq> 0"
      and m: "mapM (\<lambda>ht. rbind (height_key p ht) (\<lambda>k. Inr (Delete k))) [n + 1..?to] = Inr (fst old)"
    by (auto simp: prune_undo_def Let_def rbind_eq_Inr split: if_splits)
  have "\<exists>h \<in> set hs. height_key p h = Inr (op_key op)"
    if "mapM (\<lambda>ht. rbind (height_key p ht) (\<lambda>k. Inr (Delete k))) hs = Inr ops" "op \<in> set ops" for hs ops op
    using that by (induction hs arbitrary: ops) (auto simp: rbind_eq_Inr)
  with m have "\<forall>op \<in> set (fst old). \<exists>h \<in> set [n + 1..?to]. height_key p h = Inr (op_key op)" by blast
  moreover have "?to < ht" using assms(2,3) lim by auto
  moreover have "height_key p ht = Inr (p @ be_enc 4 (nat ht))" by (rule height_key_fits [OF assms(3,4)])
  ultimately show ?thesis using height_key_inj by fastforce
qed simp

text \<open>Everything the log adds to a batch is under its prefix.\<close>

lemma height_key_prefix: "height_key p ht = Inr k \<Longrightarrow> starts_with p k"
  by (auto simp: height_key_def rbind_eq_Inr starts_with_def)

lemma prune_undo_keys:
  assumes "prune_undo p d n = Inr old"
  shows "\<forall>op \<in> set (fst old). starts_with p (op_key op)"
proof -
  have "\<exists>h. height_key p h = Inr (op_key op)"
    if "mapM (\<lambda>ht. rbind (height_key p ht) (\<lambda>k. Inr (Delete k))) hs = Inr ops" "op \<in> set ops" for hs ops op
    using that by (induction hs arbitrary: ops) (auto simp: rbind_eq_Inr, metis)
  then have "\<forall>op \<in> set (fst old). \<exists>h. height_key p h = Inr (op_key op)"
    using assms by (auto simp: prune_undo_def Let_def rbind_eq_Inr split: if_splits)
  then show ?thesis using height_key_prefix by blast
qed

lemma undo_puts_keys:
  assumes "undo_puts p log = Inr ops"
  shows "\<forall>op \<in> set ops. starts_with p (op_key op)"
proof -
  have "\<exists>h. height_key p h = Inr (op_key op)"
    if "mapM (\<lambda>(ht, entries). rbind (height_key p ht) (\<lambda>k. rbind (encode_undo entries) (\<lambda>v. Inr (Put k v)))) es = Inr os" "op \<in> set os"
    for es os op
    using that by (induction es arbitrary: os) (auto simp: rbind_eq_Inr, metis)
  with assms show ?thesis unfolding undo_puts_def using height_key_prefix by blast
qed

lemma undo_written_keys: "undo_written p log ops \<Longrightarrow> \<forall>op \<in> set ops. starts_with p (op_key op)"
  using undo_puts_keys by (auto simp: undo_written_def)

section \<open>The contract of an index with an undo log\<close>

lemma prune_undo_total:
  assumes "-1 \<le> n" and "db_height d < 2 ^ 32" and "0 \<le> reorg_limit d"
  shows "\<exists>old. prune_undo p d n = Inr old \<and> -1 \<le> snd old"
proof -
  have "mapM (\<lambda>ht. rbind (height_key p ht) (\<lambda>k. Inr (Delete k))) [n + 1..to]
      = Inr (map (\<lambda>ht. Delete (p @ be_enc 4 (nat ht))) [n + 1..to])" if "to < 2 ^ 32" for to
    by (rule mapM_Inr) (use assms(1) that height_key_fits [of _ p] in simp)
  moreover have "max 0 (db_height d - reorg_limit d + 1) - 1 < 2 ^ 32" using assms(2,3) by simp
  ultimately show ?thesis using assms(1) by (auto simp: prune_undo_def Let_def)
qed

lemma revert_undo_total: "0 \<le> ht \<Longrightarrow> ht < 2 ^ 32 \<Longrightarrow> \<exists>ops. revert_undo p kv ht = Inr ops"
  by (auto simp: revert_undo_def height_key_fits split: option.split list.split)

text \<open>\<open>plan\<close> is what the caches of a state make its flush write and \<open>log_of\<close> what has been recorded
  before the flush; the flush logs its plan and writes the log behind it, having dropped old entries
  first, and the backup reverts one height.\<close>

locale undo_logged =
  fixes prefix :: bytes
    and plan :: "db \<Rightarrow> 's \<Rightarrow> planned"
    and log_of :: "'s \<Rightarrow> undo_log"
    and on :: "'s \<Rightarrow> bool"
    and index_flush :: "db \<Rightarrow> 's \<Rightarrow> (batch_op list \<times> 's) res"
    and index_backup :: "db \<Rightarrow> int \<Rightarrow> 's \<Rightarrow> (batch_op list \<times> 's) res"
  assumes flush_plan: "on s \<Longrightarrow> index_flush d s = Inr (ops, s') \<Longrightarrow> \<exists>old n puts.
      prune_undo prefix d n = Inr old \<and> undo_written prefix (log_plan (utxo_db d) (plan d s) (log_of s)) puts
      \<and> ops = fst old @ map snd (plan d s) @ puts"
    and backup_reverts: "on s \<Longrightarrow> index_backup d ht s = Inr (ops, s') \<Longrightarrow> revert_undo prefix (utxo_db d) ht = Inr ops"
    and plan_keys: "on s \<Longrightarrow> (h, op) \<in> set (plan d s) \<Longrightarrow> \<not> starts_with prefix (op_key op)"
begin

text \<open>Reverting a height after a flush: every key logged under it has the value it had before the
  flush, and every other key keeps what the flush gave it.\<close>

lemma backup_after_flush:
  assumes "on s" and "on s'" and "index_flush d s = Inr (ops, s1)" and "kv_ok (utxo_db d)"
    and "undo_ok (utxo_db d) (log_of s)" and "plan_fits (utxo_db d) (plan d s)"
    and "\<forall>ht k. k \<in> logged (log_of s) ht \<longrightarrow> \<not> starts_with prefix k"
    and "db_height d - reorg_limit d < ht \<or> reorg_limit d = 0" and "0 \<le> ht" and "ht < 2 ^ 32"
    and "utxo_db d' = apply_batch ops (utxo_db d)"
    and "index_backup d' ht s' = Inr (ops', s2)"
    and "kv_get (utxo_db d) (prefix @ be_enc 4 (nat ht)) = None"
    and "\<not> starts_with prefix k"
  shows "kv_get (apply_batch ops' (utxo_db d')) k =
    (if k \<in> logged (log_plan (utxo_db d) (plan d s) (log_of s)) ht then kv_get (utxo_db d) k else kv_get (utxo_db d') k)"
proof -
  let ?kv = "utxo_db d" and ?log = "log_plan (utxo_db d) (plan d s) (log_of s)" and ?uk = "prefix @ be_enc 4 (nat ht)"
  obtain old n puts where f: "prune_undo prefix d n = Inr old" "undo_written prefix ?log puts"
      "ops = (fst old @ map snd (plan d s)) @ puts"
    using flush_plan [OF assms(1,3)] by auto
  have log: "undo_ok ?kv ?log" and keys: "logged ?log ht = logged (log_of s) ht \<union> {op_key op | op. (Some ht, op) \<in> set (plan d s)}"
    using log_plan_ok [OF assms(5,6)] by auto
  have "op_key op = ?uk \<longrightarrow> False" if "op \<in> set (fst old @ map snd (plan d s))" for op
  proof
    assume k: "op_key op = ?uk"
    then have "starts_with prefix (op_key op)" by (simp add: starts_with_def)
    with that plan_keys [OF assms(1)] have "op \<in> set (fst old)" by auto
    with prune_undo_below [OF f(1) assms(8-10)] k show False by blast
  qed
  then have w: "kv_get (utxo_db d') ?uk = (if undo_at ?log ht = [] then kv_get ?kv ?uk else Some (projr (encode_undo (undo_at ?log ht))))
      \<and> (undo_at ?log ht \<noteq> [] \<longrightarrow> (\<exists>blob. encode_undo (undo_at ?log ht) = Inr blob))"
    unfolding assms(11) f(3) by (intro flush_writes_log [OF log f(2) assms(4) _ assms(9,10)]) blast
  have ok': "kv_ok (utxo_db d')" unfolding assms(11) by (rule kv_ok_apply_batch [OF assms(4)])
  have r: "revert_undo prefix (utxo_db d') ht = Inr ops'" by (rule backup_reverts [OF assms(2,12)])
  show ?thesis
  proof (cases "undo_at ?log ht = []")
    case True
    then have "ops' = []" using r w assms(13) by (simp add: revert_undo_def height_key_fits [OF assms(9,10)])
    with True show ?thesis by (simp add: logged_def apply_batch_def)
  next
    case False
    then obtain blob where blob: "encode_undo (undo_at ?log ht) = Inr blob" using w by blast
    have fits: "\<forall>e \<in> set (undo_at ?log ht). undo_entry_fits e" using undo_ok_at [OF log] by blast
    then have "decode_undo blob = undo_at ?log ht" using undo_codec [OF fits] blob by auto
    moreover obtain b bs where "blob = b # bs" using encode_undo_nonempty [OF blob False fits] by (cases blob) auto
    ultimately have ops': "ops' = map restore_op (undo_at ?log ht) @ [Delete ?uk]"
      using r w False blob by (auto simp: revert_undo_def height_key_fits [OF assms(9,10)])
    have "starts_with prefix ?uk" by (simp add: starts_with_def)
    then have "k \<noteq> ?uk" using assms(14) by blast
    have "kv_get (apply_batch ops' (utxo_db d')) k = fold op_map (map restore_op (undo_at ?log ht)) (kv_get (utxo_db d')) k"
      using \<open>k \<noteq> ?uk\<close> by (simp add: kv_get_apply_batch [OF ok'] ops')
    also have "\<dots> = (if k \<in> fst ` set (undo_at ?log ht) then kv_get ?kv k else kv_get (utxo_db d') k)"
      using undo_ok_at [OF log] by (intro fold_restore) blast
    finally show ?thesis by (simp add: logged_def)
  qed
qed

end

end
