(* ===== verification/PyData.thy ===== *)
theory PyData
  imports Prelude
begin

text \<open>
  Python values as a CBOR payload decodes to them, and unicode strings. The side indexes read the
  payloads of token reveals, whose shape anyone can choose.
\<close>

section \<open>Strings\<close>

text \<open>A \<open>str\<close> is the list of its code points; \<open>codes\<close> writes one as a literal.\<close>

type_synonym pystr = "nat list"

definition codes :: "string \<Rightarrow> pystr" where
  "codes s = map of_char s"

definition lower_ascii :: "pystr \<Rightarrow> pystr" where
  "lower_ascii s = map (\<lambda>c. if 65 \<le> c \<and> c \<le> 90 then c + 32 else c) s"

definition encode_ascii :: "pystr \<Rightarrow> bytes" where
  "encode_ascii s = map of_nat s"

section \<open>Values\<close>

text \<open>\<open>POther\<close> is any other object (a float, a tag, a date) with its truth value.\<close>

datatype pyval =
    PNone
  | PBool bool
  | PInt int
  | PStr pystr
  | PBytes bytes
  | PList "pyval list"
  | PTuple "pyval list"
  | PDict "(pyval \<times> pyval) list"
  | POther bool

fun py_true :: "pyval \<Rightarrow> bool" where
  "py_true PNone = False"
| "py_true (PBool b) = b"
| "py_true (PInt i) = (i \<noteq> 0)"
| "py_true (PStr s) = (s \<noteq> [])"
| "py_true (PBytes b) = (b \<noteq> [])"
| "py_true (PList xs) = (xs \<noteq> [])"
| "py_true (PTuple xs) = (xs \<noteq> [])"
| "py_true (PDict d) = (d \<noteq> [])"
| "py_true (POther b) = b"

text \<open>\<open>d.get(key)\<close> of a dictionary with a string key.\<close>

definition py_get :: "(pyval \<times> pyval) list \<Rightarrow> string \<Rightarrow> pyval" where
  "py_get d key = (case map_of d (PStr (codes key)) of Some v \<Rightarrow> v | None \<Rightarrow> PNone)"

text \<open>\<open>isinstance\<close> tests as partial projections. A Boolean is an \<open>int\<close> too, which the code excludes
  where it matters.\<close>

fun as_dict :: "pyval \<Rightarrow> (pyval \<times> pyval) list option" where
  "as_dict (PDict d) = Some d"
| "as_dict _ = None"

fun as_str :: "pyval \<Rightarrow> pystr option" where
  "as_str (PStr s) = Some s"
| "as_str _ = None"

fun as_int :: "pyval \<Rightarrow> int option" where
  "as_int (PInt i) = Some i"
| "as_int _ = None"

fun as_sequence :: "pyval \<Rightarrow> pyval list option" where
  "as_sequence (PList xs) = Some xs"
| "as_sequence (PTuple xs) = Some xs"
| "as_sequence _ = None"

lemma as_str_Some: "as_str v = Some s \<longleftrightarrow> v = PStr s"
  by (cases v) simp_all

lemma as_int_Some: "as_int v = Some i \<longleftrightarrow> v = PInt i"
  by (cases v) simp_all

lemma as_dict_Some: "as_dict v = Some d \<longleftrightarrow> v = PDict d"
  by (cases v) simp_all

end
