(* ===== verification/Realm.thy ===== *)
theory Realm
  imports UndoLog PyData Chain
begin

text \<open>
  \<open>electrumx/server/realm_index.py\<close>: the realm directory. A realm is registered by the reveal of a
  token whose payload is a well-formed \<open>realm_v1\<close> record; the first registration of an identifier
  wins. Its rows and the undo entries that remove them are written at the next flush.
\<close>

section \<open>The payload\<close>

definition REALM_SCHEMA :: pystr where "REALM_SCHEMA = codes ''realm_v1''"
definition REALM_NAMESPACE :: pystr where "REALM_NAMESPACE = codes ''rxd.game''"

definition REALM_KINDS :: "pystr list" where
  "REALM_KINDS = map codes [''world'', ''arena'', ''experience'']"

definition MAX_REALM_ID_LEN :: nat where "MAX_REALM_ID_LEN = 48"
definition MAX_REALM_NAME_LEN :: nat where "MAX_REALM_NAME_LEN = 64"
definition MAX_REALM_DESC_LEN :: nat where "MAX_REALM_DESC_LEN = 280"
definition MAX_ROYALTY_BPS :: int where "MAX_ROYALTY_BPS = 5000"

definition REALM :: bytes where "REALM = [82, 77]"
definition SINGLETON :: bytes where "SINGLETON = [82, 83]"
definition REALM_UNDO :: bytes where "REALM_UNDO = [82, 85]"

definition slug_start :: "nat \<Rightarrow> bool" where
  "slug_start c \<longleftrightarrow> 97 \<le> c \<and> c \<le> 122 \<or> 48 \<le> c \<and> c \<le> 57"

definition slug_char :: "nat \<Rightarrow> bool" where
  "slug_char c \<longleftrightarrow> slug_start c \<or> c = 95 \<or> c = 45"

text \<open>\<open>_REALM_ID_RE.match\<close>; the \<open>$\<close> of a Python pattern also matches before a newline that ends the
  string.\<close>

definition realm_id_match :: "pystr \<Rightarrow> bool" where
  "realm_id_match s = (let body = (if s \<noteq> [] \<and> last s = 10 then butlast s else s)
     in body \<noteq> [] \<and> slug_start (hd body) \<and> list_all slug_char (tl body))"

definition is_valid_realm_id :: "pyval \<Rightarrow> bool" where
  "is_valid_realm_id v = (case as_str v of None \<Rightarrow> False
     | Some s \<Rightarrow> 2 \<le> length s \<and> length s \<le> MAX_REALM_ID_LEN \<and> realm_id_match s)"

text \<open>For the identifiers the index accepts, which are ASCII.\<close>

definition realm_id_hash :: "(bytes \<Rightarrow> bytes) \<Rightarrow> pystr \<Rightarrow> bytes" where
  "realm_id_hash sha s = take 16 (sha (encode_ascii (lower_ascii s)))"

definition clean_str :: "pyval \<Rightarrow> nat \<Rightarrow> pystr option" where
  "clean_str v max_len = (case as_str v of None \<Rightarrow> None
     | Some s \<Rightarrow> let s = filter (\<lambda>ch. 32 \<le> ch \<and> ch \<noteq> 127) s in if s \<noteq> [] then Some (take max_len s) else None)"

record realm_fields =
  rf_id :: pystr
  rf_name :: pystr
  rf_kind :: pystr
  rf_seed :: int
  rf_spawn :: "int list"
  rf_owner :: pystr
  rf_desc :: "pystr option"
  rf_creator :: "pystr option"
  rf_royalty_bps :: "int option"

definition or_else :: "pystr option \<Rightarrow> pystr option \<Rightarrow> pystr option" where
  "or_else a b = (case a of Some (c # cs) \<Rightarrow> a | _ \<Rightarrow> b)"

text \<open>The optional fields, once the required ones are there.\<close>

definition realm_optional :: "(pyval \<times> pyval) list \<Rightarrow> (pyval \<times> pyval) list \<Rightarrow> realm_fields \<Rightarrow> realm_fields" where
  "realm_optional realm base out = out\<lparr>
     rf_desc := clean_str (py_get realm ''desc'') MAX_REALM_DESC_LEN,
     rf_creator := (case as_str (py_get base ''creator'') of Some (c # cs) \<Rightarrow> Some (c # cs) | _ \<Rightarrow> None),
     rf_royalty_bps := (case as_int (py_get base ''royalty_bps'') of
        Some r \<Rightarrow> if 0 \<le> r \<and> r \<le> MAX_ROYALTY_BPS then Some r else None | None \<Rightarrow> None)\<rparr>"

definition realm_required :: "(pyval \<times> pyval) list \<Rightarrow> (pyval \<times> pyval) list \<Rightarrow> realm_fields option" where
  "realm_required metadata realm =
     (let realm_id = py_get realm ''id''; kind = py_get realm ''kind'' in
      if \<not> is_valid_realm_id realm_id then None
      else if kind \<notin> set (map PStr REALM_KINDS) then None
      else case as_int (py_get realm ''seed'') of None \<Rightarrow> None | Some seed \<Rightarrow>
        if seed < 0 \<or> seed > 4294967295 then None
        else case as_sequence (py_get realm ''spawn'') of None \<Rightarrow> None | Some spawn \<Rightarrow>
          if length spawn \<noteq> 3 \<or> \<not> list_all (\<lambda>n. as_int n \<noteq> None) spawn then None
          else case as_str (py_get realm ''owner'') of None \<Rightarrow> None | Some owner \<Rightarrow>
            if owner = [] then None
            else Some \<lparr>rf_id = the (as_str realm_id),
              rf_name = the (or_else (or_else (clean_str (py_get realm ''name'') MAX_REALM_NAME_LEN)
                 (clean_str (py_get metadata ''name'') MAX_REALM_NAME_LEN)) (as_str realm_id)),
              rf_kind = the (as_str kind), rf_seed = seed, rf_spawn = map (the \<circ> as_int) spawn, rf_owner = owner,
              rf_desc = None, rf_creator = None, rf_royalty_bps = None\<rparr>)"

definition extract_realm_fields :: "pyval \<Rightarrow> realm_fields option" where
  "extract_realm_fields metadata =
     (case as_dict metadata of None \<Rightarrow> None | Some metadata \<Rightarrow>
      case as_dict (py_get metadata ''app'') of None \<Rightarrow> None | Some app \<Rightarrow>
        if py_get app ''schema'' \<noteq> PStr REALM_SCHEMA then None
        else let ns = py_get app ''namespace'' in
          if ns \<noteq> PNone \<and> ns \<noteq> PStr REALM_NAMESPACE then None
          else case as_dict (py_get app ''data'') of None \<Rightarrow> None | Some data \<Rightarrow>
            let base = (case as_dict (py_get data ''base'') of Some b \<Rightarrow> b | None \<Rightarrow> []) in
            case as_dict (py_get data ''realm'') of None \<Rightarrow> None
            | Some realm \<Rightarrow> map_option (realm_optional realm base) (realm_required metadata realm))"

section \<open>The index\<close>

record realm =
  rl_enabled :: bool
  realm_cache :: "(bytes, bytes) dict"
  realm_height :: "(bytes, int) dict"
  singleton_cache :: "(bytes, bytes) dict"
  singleton_height :: "(bytes, int) dict"
  realm_log :: undo_log
  realm_pruned :: int

definition new_realm_index :: "bool \<Rightarrow> db \<Rightarrow> realm" where
  "new_realm_index enabled d =
     \<lparr>rl_enabled = enabled, realm_cache = [], realm_height = [], singleton_cache = [], singleton_height = [],
      realm_log = no_undo,
      realm_pruned = (if reorg_limit d \<noteq> 0 then max 0 (db_height d - reorg_limit d + 1) else 0) - 1\<rparr>"

definition first_singleton :: "(bytes \<times> nat) list \<Rightarrow> bytes option" where
  "first_singleton rs = map_option fst (find (\<lambda>r. snd r = 1) rs)"

definition pick_singleton :: "(nat, (bytes \<times> nat) list) dict \<Rightarrow> bytes option" where
  "pick_singleton output_refs =
     (case first_singleton (case map_of output_refs 0 of Some rs \<Rightarrow> rs | None \<Rightarrow> []) of
        Some ref_bytes \<Rightarrow> Some ref_bytes
      | None \<Rightarrow> first_singleton (concat (map (\<lambda>vout. the (map_of output_refs vout)) (sort (dict_keys output_refs)))))"

text \<open>The record stored for a realm, as the dictionary given to \<open>cbor2.dumps\<close>.\<close>

definition realm_record :: "realm_fields \<Rightarrow> bytes \<Rightarrow> int \<Rightarrow> pyval" where
  "realm_record f ref ht =
     (let entry = (\<lambda>k v. (PStr (codes k), v));
          optional = (\<lambda>k v. case v of None \<Rightarrow> [] | Some v \<Rightarrow> [entry k v])
      in PDict ([entry ''id'' (PStr (rf_id f)), entry ''name'' (PStr (rf_name f)), entry ''kind'' (PStr (rf_kind f)),
           entry ''seed'' (PInt (rf_seed f)), entry ''spawn'' (PList (map PInt (rf_spawn f))),
           entry ''owner'' (PStr (rf_owner f)), entry ''ref'' (PBytes ref), entry ''height'' (PInt ht)]
         @ optional ''desc'' (map_option PStr (rf_desc f)) @ optional ''creator'' (map_option PStr (rf_creator f))
         @ optional ''royalty_bps'' (map_option PInt (rf_royalty_bps f))))"

text \<open>\<open>dumps\<close> is \<open>cbor2.dumps\<close>, or \<open>None\<close> when the package is missing. The envelope is the dictionary the
  token index returns for a reveal.\<close>

definition realm_process_tx ::
    "(bytes \<Rightarrow> bytes) \<Rightarrow> (pyval \<Rightarrow> bytes res) option \<Rightarrow> (realm, (pyval \<times> pyval) list) overlay" where
  "realm_process_tx sha dumps d ctx envelope s =
     (if \<not> rl_enabled s \<or> envelope \<in> {None, Some []} then (s, Inr ())
      else
        let metadata = py_get (the envelope) ''metadata'' in
        case extract_realm_fields (if py_true metadata then metadata else PDict []) of
          None \<Rightarrow> (s, Inr ())
        | Some f \<Rightarrow>
          let id_hash = realm_id_hash sha (rf_id f); ht = ctx_height ctx in
          if map_of (realm_cache s) id_hash \<noteq> None \<or> kv_get (utxo_db d) (REALM @ id_hash) \<noteq> None then (s, Inr ())
          else
            let ref = (case pick_singleton (ctx_output_refs ctx) of Some r \<Rightarrow> r | None \<Rightarrow> []) in
            case dumps of None \<Rightarrow> (s, Inr ()) | Some dumps \<Rightarrow>
            case dumps (realm_record f ref ht) of Inl e \<Rightarrow> (s, Inl e)
            | Inr blob \<Rightarrow>
              let s = s\<lparr>realm_cache := dict_set id_hash blob (realm_cache s),
                        realm_height := dict_set id_hash ht (realm_height s)\<rparr> in
              (if ref \<noteq> [] \<and> map_of (singleton_cache s) ref = None \<and> kv_get (utxo_db d) (SINGLETON @ ref) = None
               then s\<lparr>singleton_cache := dict_set ref id_hash (singleton_cache s),
                      singleton_height := dict_set ref ht (singleton_height s)\<rparr>
               else s, Inr ()))"

text \<open>One loop of the flush: record and put every entry of a cache.\<close>

definition flush_cache ::
    "kv \<Rightarrow> bytes \<Rightarrow> (bytes, int) dict \<Rightarrow> (bytes, bytes) dict \<Rightarrow> batch_op list \<times> undo_log \<Rightarrow> batch_op list \<times> undo_log" where
  "flush_cache kv prefix heights cache acc =
     fold (\<lambda>(name, val) (ops, log).
       let key = prefix @ name;
           log = (case map_of heights name of Some ht \<Rightarrow> record_undo kv ht key log | None \<Rightarrow> log)
       in (ops @ [Put key val], log)) cache acc"

definition realm_flush :: "db \<Rightarrow> realm \<Rightarrow> (batch_op list \<times> realm) res" where
  "realm_flush d s =
     (if \<not> rl_enabled s then Inr ([], s)
      else
        rbind (prune_undo REALM_UNDO d (realm_pruned s)) (\<lambda>(old, pruned).
        let (ops, log) = flush_cache (utxo_db d) SINGLETON (singleton_height s) (singleton_cache s)
              (flush_cache (utxo_db d) REALM (realm_height s) (realm_cache s) (old, realm_log s)) in
        rbind (undo_puts REALM_UNDO log) (\<lambda>undos.
          Inr (ops @ undos, s\<lparr>realm_cache := [], realm_height := [], singleton_cache := [], singleton_height := [],
            realm_log := no_undo, realm_pruned := pruned\<rparr>))))"

definition realm_backup :: "db \<Rightarrow> int \<Rightarrow> realm \<Rightarrow> (batch_op list \<times> realm) res" where
  "realm_backup d ht s =
     (if \<not> rl_enabled s then Inr ([], s)
      else rbind (revert_undo REALM_UNDO (utxo_db d) ht) (\<lambda>ops. Inr (ops, s)))"

definition realm_memory_estimate :: "realm \<Rightarrow> int" where
  "realm_memory_estimate s =
     (if \<not> rl_enabled s then 0
      else int (length (realm_cache s)) * 600 + int (length (realm_height s)) * 140
         + int (length (singleton_cache s)) * 190 + int (length (singleton_height s)) * 140
         + int (sum_list (map (length \<circ> snd) (undo_cache (realm_log s)))) * 120)"

section \<open>The identifiers\<close>

text \<open>The pattern accepts the slugs, and a slug followed by a newline.\<close>

lemma valid_realm_id_iff:
  "is_valid_realm_id (PStr s) \<longleftrightarrow> (\<exists>c cs nl. s = c # cs @ nl \<and> nl \<in> {[], [10]} \<and> slug_start c \<and> list_all slug_char cs
     \<and> 2 \<le> length s \<and> length s \<le> MAX_REALM_ID_LEN)"
proof
  assume v: "is_valid_realm_id (PStr s)"
  let ?body = "if s \<noteq> [] \<and> last s = 10 then butlast s else s"
  have b: "?body \<noteq> []" "slug_start (hd ?body)" "list_all slug_char (tl ?body)"
    using v unfolding is_valid_realm_id_def realm_id_match_def Let_def as_str.simps option.case by blast+
  have l: "2 \<le> length s" "length s \<le> MAX_REALM_ID_LEN"
    using v unfolding is_valid_realm_id_def as_str.simps option.case by blast+
  have "s = ?body @ (if s \<noteq> [] \<and> last s = 10 then [10] else [])"
  proof (cases "s \<noteq> [] \<and> last s = 10")
    case True
    then have "butlast s @ [10] = s" using append_butlast_last_id [of s] by simp
    then show ?thesis unfolding if_P [OF True] by (rule sym)
  next
    case False
    show ?thesis unfolding if_not_P [OF False] by simp
  qed
  moreover obtain c cs where body: "?body = c # cs" using b(1) by (cases ?body) blast+
  ultimately have "s = c # cs @ (if s \<noteq> [] \<and> last s = 10 then [10] else [])" unfolding body by simp
  moreover have "slug_start c" "list_all slug_char cs" using b(2,3) unfolding body by simp_all
  ultimately show "\<exists>c cs nl. s = c # cs @ nl \<and> nl \<in> {[], [10]} \<and> slug_start c \<and> list_all slug_char cs
     \<and> 2 \<le> length s \<and> length s \<le> MAX_REALM_ID_LEN"
  proof (intro exI conjI)
    show "(if s \<noteq> [] \<and> last s = 10 then [10] else []) \<in> {[], [10 :: nat]}" by simp
  qed (rule l | assumption)+
next
  assume "\<exists>c cs nl. s = c # cs @ nl \<and> nl \<in> {[], [10]} \<and> slug_start c \<and> list_all slug_char cs
     \<and> 2 \<le> length s \<and> length s \<le> MAX_REALM_ID_LEN"
  then obtain c cs nl where s: "s = c # cs @ nl" "nl \<in> {[], [10]}" "slug_start c" "list_all slug_char cs"
      "2 \<le> length s" "length s \<le> MAX_REALM_ID_LEN" by blast
  have "slug_char x \<Longrightarrow> x \<noteq> 10" for x by (auto simp: slug_char_def slug_start_def)
  moreover have "slug_char c" using s(3) by (simp add: slug_char_def)
  ultimately have "last (c # cs) \<noteq> 10" using s(4) last_in_set [of "c # cs"] by (auto simp: list_all_iff split: if_splits)
  then have "realm_id_match s" using s(2-4) by (auto simp: s(1) realm_id_match_def Let_def butlast_append split: if_splits)
  with s(5,6) show "is_valid_realm_id (PStr s)" by (simp add: is_valid_realm_id_def)
qed

section \<open>Flushing and backing up\<close>

definition cache_plan :: "bytes \<Rightarrow> (bytes, int) dict \<Rightarrow> (bytes, bytes) dict \<Rightarrow> planned" where
  "cache_plan p heights cache = map (\<lambda>(name, val). (map_of heights name, Put (p @ name) val)) cache"

definition realm_plan :: "realm \<Rightarrow> planned" where
  "realm_plan s = cache_plan REALM (realm_height s) (realm_cache s) @ cache_plan SINGLETON (singleton_height s) (singleton_cache s)"

lemma flush_cache_plan:
  "flush_cache kv p heights cache (ops, log)
   = (ops @ map snd (cache_plan p heights cache), log_plan kv (cache_plan p heights cache) log)"
proof (induction cache arbitrary: ops log)
  case Nil
  show ?case by (simp add: flush_cache_def cache_plan_def log_plan_def)
next
  case (Cons e cache)
  obtain name val where e: "e = (name, val)" by (cases e)
  let ?log = "case map_of heights name of Some ht \<Rightarrow> record_undo kv ht (p @ name) log | None \<Rightarrow> log"
  have "flush_cache kv p heights (e # cache) (ops, log) = flush_cache kv p heights cache (ops @ [Put (p @ name) val], ?log)"
    by (simp add: flush_cache_def e Let_def)
  moreover have "log_plan kv (cache_plan p heights (e # cache)) log = log_plan kv (cache_plan p heights cache) ?log"
    by (simp add: cache_plan_def log_plan_def e split: option.split)
  ultimately show ?case by (simp add: Cons.IH cache_plan_def e)
qed

lemma realm_flush_eq: "rl_enabled s \<Longrightarrow> realm_flush d s =
   rbind (prune_undo REALM_UNDO d (realm_pruned s)) (\<lambda>(old, pruned).
   rbind (undo_puts REALM_UNDO (log_plan (utxo_db d) (realm_plan s) (realm_log s))) (\<lambda>undos.
     Inr (old @ map snd (realm_plan s) @ undos, s\<lparr>realm_cache := [], realm_height := [], singleton_cache := [],
       singleton_height := [], realm_log := no_undo, realm_pruned := pruned\<rparr>)))"
  by (simp add: realm_flush_def flush_cache_plan realm_plan_def log_plan_append)

lemma realm_plan_keys: "(h, op) \<in> set (realm_plan s) \<Longrightarrow> \<not> starts_with REALM_UNDO (op_key op)"
  by (auto simp: realm_plan_def cache_plan_def starts_with_def REALM_UNDO_def REALM_def SINGLETON_def)

interpretation realm_undo: undo_logged REALM_UNDO "\<lambda>d. realm_plan" realm_log rl_enabled realm_flush realm_backup
proof
  fix d s ops s'
  assume "rl_enabled s" "realm_flush d s = Inr (ops, s')"
  then show "\<exists>old n puts. prune_undo REALM_UNDO d n = Inr old
      \<and> undo_written REALM_UNDO (log_plan (utxo_db d) (realm_plan s) (realm_log s)) puts
      \<and> ops = fst old @ map snd (realm_plan s) @ puts"
    by (fastforce simp: realm_flush_eq rbind_eq_Inr)
next
  fix d ht s ops s'
  assume "rl_enabled s" "realm_backup d ht s = Inr (ops, s')"
  then show "revert_undo REALM_UNDO (utxo_db d) ht = Inr ops" by (auto simp: realm_backup_def rbind_eq_Inr)
qed (rule realm_plan_keys)

section \<open>What the caches hold\<close>

text \<open>A pending cache: every entry has the height it was made at, its key fits, and the table had no
  such row.\<close>

definition pending_rows :: "kv \<Rightarrow> bytes \<Rightarrow> (bytes, int) dict \<Rightarrow> (bytes, bytes) dict \<Rightarrow> bool" where
  "pending_rows kv p heights cache \<longleftrightarrow> dict_ok cache \<and> dom (map_of heights) = dom (map_of cache)
     \<and> (\<forall>name ht. map_of heights name = Some ht \<longrightarrow> 0 \<le> ht \<and> ht < 2 ^ 32 \<and> length (p @ name) < 65536 \<and> kv_get kv (p @ name) = None)"

definition realm_ok :: "db \<Rightarrow> realm \<Rightarrow> bool" where
  "realm_ok d s \<longleftrightarrow> pending_rows (utxo_db d) REALM (realm_height s) (realm_cache s)
     \<and> pending_rows (utxo_db d) SINGLETON (singleton_height s) (singleton_cache s)
     \<and> realm_log s = no_undo \<and> -1 \<le> realm_pruned s"

lemma pending_rows_Nil [simp]: "pending_rows kv p [] []"
  by (simp add: pending_rows_def)

lemma pending_rows_set:
  "pending_rows kv p heights cache \<Longrightarrow> kv_get kv (p @ name) = None \<Longrightarrow> 0 \<le> ht \<Longrightarrow> ht < 2 ^ 32 \<Longrightarrow> length (p @ name) < 65536 \<Longrightarrow>
   pending_rows kv p (dict_set name ht heights) (dict_set name val cache)"
  by (auto simp: pending_rows_def)

text \<open>The references the block processor hands over are 36 bytes long.\<close>

definition ctx_ok :: "tx_ctx \<Rightarrow> bool" where
  "ctx_ok ctx \<longleftrightarrow> 0 \<le> ctx_height ctx \<and> ctx_height ctx < 2 ^ 32
     \<and> (\<forall>(vout, rs) \<in> set (ctx_output_refs ctx). \<forall>r \<in> set rs. length (fst r) = 36)"

lemma first_singleton_mem: "first_singleton rs = Some r \<Longrightarrow> \<exists>t. (r, t) \<in> set rs"
  by (auto simp: first_singleton_def find_Some_iff) (metis nth_mem prod.collapse)

lemma pick_singleton_length: "ctx_ok ctx \<Longrightarrow> pick_singleton (ctx_output_refs ctx) = Some r \<Longrightarrow> length r = 36"
proof -
  let ?o = "ctx_output_refs ctx"
  assume ok: "ctx_ok ctx" and p: "pick_singleton ?o = Some r"
  have "\<exists>vout rs t. (vout, rs) \<in> set ?o \<and> (r, t) \<in> set rs"
  proof (cases "first_singleton (case map_of ?o 0 of Some rs \<Rightarrow> rs | None \<Rightarrow> [])")
    case (Some a)
    with p have "first_singleton (case map_of ?o 0 of Some rs \<Rightarrow> rs | None \<Rightarrow> []) = Some r" by (simp add: pick_singleton_def)
    then show ?thesis by (cases "map_of ?o 0") (auto dest!: first_singleton_mem map_of_SomeD)
  next
    case None
    with p have "first_singleton (concat (map (\<lambda>vout. the (map_of ?o vout)) (sort (dict_keys ?o)))) = Some r"
      by (simp add: pick_singleton_def)
    then obtain t vout where "vout \<in> set (dict_keys ?o)" "(r, t) \<in> set (the (map_of ?o vout))"
      by (auto dest!: first_singleton_mem)
    moreover from this(1) obtain rs where "map_of ?o vout = Some rs" by (auto simp: set_dict_keys)
    ultimately show ?thesis by (auto dest: map_of_SomeD)
  qed
  with ok show ?thesis by (fastforce simp: ctx_ok_def)
qed

lemma realm_process_tx_cases:
  assumes False: "fst (realm_process_tx sha dumps d ctx env s) \<noteq> s"
  shows "\<exists>(f :: realm_fields) blob s1. map_of (realm_cache s) (realm_id_hash sha (rf_id f)) = None
    \<and> kv_get (utxo_db d) (REALM @ realm_id_hash sha (rf_id f)) = None
    \<and> s1 = s\<lparr>realm_cache := dict_set (realm_id_hash sha (rf_id f)) blob (realm_cache s),
            realm_height := dict_set (realm_id_hash sha (rf_id f)) (ctx_height ctx) (realm_height s)\<rparr>
    \<and> (fst (realm_process_tx sha dumps d ctx env s) = s1 \<or> (\<exists>r. pick_singleton (ctx_output_refs ctx) = Some r
       \<and> kv_get (utxo_db d) (SINGLETON @ r) = None
       \<and> fst (realm_process_tx sha dumps d ctx env s)
         = s1\<lparr>singleton_cache := dict_set r (realm_id_hash sha (rf_id f)) (singleton_cache s1),
              singleton_height := dict_set r (ctx_height ctx) (singleton_height s1)\<rparr>))"
proof -
  have "\<not> (\<not> rl_enabled s \<or> env \<in> {None, Some []})"
  proof
    assume "\<not> rl_enabled s \<or> env \<in> {None, Some []}"
    then have "realm_process_tx sha dumps d ctx env s = (s, Inr ())" unfolding realm_process_tx_def by (rule if_P)
    with False show False by simp
  qed
  then obtain e where on: "rl_enabled s" "env = Some e" "e \<noteq> []" by auto
  let ?meta = "py_get e ''metadata''"
  obtain f where f: "extract_realm_fields (if py_true ?meta then ?meta else PDict []) = Some f"
    using False on by (cases "extract_realm_fields (if py_true ?meta then ?meta else PDict [])") (simp_all add: realm_process_tx_def Let_def)
  let ?id = "realm_id_hash sha (rf_id f)"
  have new: "map_of (realm_cache s) ?id = None" "kv_get (utxo_db d) (REALM @ ?id) = None"
    using False on f unfolding realm_process_tx_def by (simp_all add: Let_def split: if_splits)
  let ?ref = "case pick_singleton (ctx_output_refs ctx) of Some r \<Rightarrow> r | None \<Rightarrow> []"
  obtain dump where dump: "dumps = Some dump" using False on f new by (cases dumps) (auto simp: realm_process_tx_def Let_def)
  obtain blob where blob: "dump (realm_record f ?ref (ctx_height ctx)) = Inr blob"
    using False on f new dump by (cases "dump (realm_record f ?ref (ctx_height ctx))") (simp_all add: realm_process_tx_def Let_def)
  let ?s1 = "s\<lparr>realm_cache := dict_set ?id blob (realm_cache s), realm_height := dict_set ?id (ctx_height ctx) (realm_height s)\<rparr>"
  have run: "fst (realm_process_tx sha dumps d ctx env s) =
      (if ?ref \<noteq> [] \<and> map_of (singleton_cache ?s1) ?ref = None \<and> kv_get (utxo_db d) (SINGLETON @ ?ref) = None
       then ?s1\<lparr>singleton_cache := dict_set ?ref ?id (singleton_cache ?s1),
              singleton_height := dict_set ?ref (ctx_height ctx) (singleton_height ?s1)\<rparr> else ?s1)"
    using on f new dump blob unfolding realm_process_tx_def
    by (cases "pick_singleton (ctx_output_refs ctx)") (simp_all add: Let_def)
  have final: "fst (realm_process_tx sha dumps d ctx env s) = ?s1 \<or> (\<exists>r. pick_singleton (ctx_output_refs ctx) = Some r
       \<and> kv_get (utxo_db d) (SINGLETON @ r) = None \<and> fst (realm_process_tx sha dumps d ctx env s)
         = ?s1\<lparr>singleton_cache := dict_set r ?id (singleton_cache ?s1), singleton_height := dict_set r (ctx_height ctx) (singleton_height ?s1)\<rparr>)"
    unfolding run by (cases "pick_singleton (ctx_output_refs ctx)") auto
  show ?thesis by (rule exI [of _ f], rule exI [of _ blob], rule exI [of _ ?s1]) (intro conjI new refl final)
qed

lemma realm_process_tx_ok:
  assumes "realm_ok d s" and "ctx_ok ctx"
  shows "realm_ok d (fst (realm_process_tx sha dumps d ctx env s))"
proof (cases "fst (realm_process_tx sha dumps d ctx env s) = s")
  case True
  then show ?thesis using assms(1) by simp
next
  case False
  from realm_process_tx_cases [OF this] obtain f :: realm_fields and blob s1 where
      2: "map_of (realm_cache s) (realm_id_hash sha (rf_id f)) = None"
    "kv_get (utxo_db d) (REALM @ realm_id_hash sha (rf_id f)) = None"
    "s1 = s\<lparr>realm_cache := dict_set (realm_id_hash sha (rf_id f)) blob (realm_cache s),
            realm_height := dict_set (realm_id_hash sha (rf_id f)) (ctx_height ctx) (realm_height s)\<rparr>"
    "fst (realm_process_tx sha dumps d ctx env s) = s1 \<or> (\<exists>r. pick_singleton (ctx_output_refs ctx) = Some r
       \<and> kv_get (utxo_db d) (SINGLETON @ r) = None
       \<and> fst (realm_process_tx sha dumps d ctx env s)
         = s1\<lparr>singleton_cache := dict_set r (realm_id_hash sha (rf_id f)) (singleton_cache s1),
              singleton_height := dict_set r (ctx_height ctx) (singleton_height s1)\<rparr>)"
    by (elim exE conjE) (rule that, assumption+)
  have h: "0 \<le> ctx_height ctx" "ctx_height ctx < 2 ^ 32" using assms(2) by (simp_all add: ctx_ok_def)
  have "length (REALM @ realm_id_hash sha (rf_id f)) < 65536"
    using le_less_trans [of "length (realm_id_hash sha (rf_id f))" 16 65534] by (simp add: REALM_def realm_id_hash_def)
  then have s1: "realm_ok d s1" using assms(1) 2(2) h unfolding 2(3) by (simp add: realm_ok_def pending_rows_set)
  from 2(4) show ?thesis
  proof (elim disjE exE conjE)
    fix r assume r: "pick_singleton (ctx_output_refs ctx) = Some r" "kv_get (utxo_db d) (SINGLETON @ r) = None"
      "fst (realm_process_tx sha dumps d ctx env s)
         = s1\<lparr>singleton_cache := dict_set r (realm_id_hash sha (rf_id f)) (singleton_cache s1),
              singleton_height := dict_set r (ctx_height ctx) (singleton_height s1)\<rparr>"
    have "length (SINGLETON @ r) < 65536" using pick_singleton_length [OF assms(2) r(1)] by (simp add: SINGLETON_def)
    then show ?thesis using s1 h r(2) unfolding r(3) by (simp add: realm_ok_def pending_rows_set)
  qed (use s1 in simp)
qed

definition realm_index_txs ::
    "(bytes \<Rightarrow> bytes) \<Rightarrow> (pyval \<Rightarrow> bytes res) option \<Rightarrow> db \<Rightarrow> (tx_ctx \<times> (pyval \<times> pyval) list option) list \<Rightarrow> realm \<Rightarrow> realm" where
  "realm_index_txs sha dumps d txs s = foldl (\<lambda>s (ctx, env). fst (realm_process_tx sha dumps d ctx env s)) s txs"

lemma realm_process_tx_enabled [simp]: "rl_enabled (fst (realm_process_tx sha dumps d ctx env s)) = rl_enabled s"
  by (simp add: realm_process_tx_def Let_def split: option.split sum.split)

lemma realm_index_txs_ok:
  assumes "realm_ok d s" and "\<forall>(ctx, env) \<in> set txs. ctx_ok ctx"
  shows "realm_ok d (realm_index_txs sha dumps d txs s) \<and> rl_enabled (realm_index_txs sha dumps d txs s) = rl_enabled s"
  using assms
proof (induction txs arbitrary: s)
  case (Cons t txs)
  then show ?case by (cases t) (auto simp: realm_index_txs_def realm_process_tx_ok)
qed (simp add: realm_index_txs_def)

lemma new_realm_index_ok [simp]: "realm_ok d (new_realm_index e d)" "rl_enabled (new_realm_index e d) = e"
  by (auto simp: realm_ok_def new_realm_index_def max_def)

lemma pending_rows_fits: "pending_rows kv p heights cache \<Longrightarrow> plan_fits kv (cache_plan p heights cache)"
  by (auto simp: plan_fits_def cache_plan_def pending_rows_def undo_entry_fits_def)

lemma realm_plan_fits: "realm_ok d s \<Longrightarrow> plan_fits (utxo_db d) (realm_plan s)"
  by (simp add: realm_plan_def realm_ok_def pending_rows_fits)

text \<open>The rows of the blocks at one height.\<close>

definition realm_rows :: "realm \<Rightarrow> int \<Rightarrow> bytes set" where
  "realm_rows s ht = {REALM @ name | name. map_of (realm_height s) name = Some ht}
     \<union> {SINGLETON @ name | name. map_of (singleton_height s) name = Some ht}"

lemma cache_plan_keys:
  "pending_rows kv p heights cache \<Longrightarrow>
   {op_key op | op. (Some ht, op) \<in> set (cache_plan p heights cache)} = {p @ name | name. map_of heights name = Some ht}"
proof (intro set_eqI iffI)
  fix k assume ok: "pending_rows kv p heights cache" and "k \<in> {p @ name | name. map_of heights name = Some ht}"
  then obtain name where n: "k = p @ name" "map_of heights name = Some ht" by blast
  then have "name \<in> dom (map_of cache)" using ok by (auto simp: pending_rows_def)
  then obtain val where "(name, val) \<in> set cache" by (auto dest: map_of_SomeD)
  then have "(Some ht, Put (p @ name) val) \<in> set (cache_plan p heights cache)" using n(2) by (force simp: cache_plan_def)
  with n(1) show "k \<in> {op_key op | op. (Some ht, op) \<in> set (cache_plan p heights cache)}" by force
qed (auto simp: cache_plan_def)

lemma realm_logged:
  assumes "realm_ok d s"
  shows "undo_ok (utxo_db d) (log_plan (utxo_db d) (realm_plan s) (realm_log s))
    \<and> logged (log_plan (utxo_db d) (realm_plan s) (realm_log s)) ht = realm_rows s ht"
proof -
  have p: "pending_rows (utxo_db d) REALM (realm_height s) (realm_cache s)"
      "pending_rows (utxo_db d) SINGLETON (singleton_height s) (singleton_cache s)" "realm_log s = no_undo"
    using assms by (simp_all add: realm_ok_def)
  have "{op_key op | op. (Some ht, op) \<in> set (realm_plan s)} = realm_rows s ht"
    unfolding realm_rows_def cache_plan_keys [OF p(1), symmetric] cache_plan_keys [OF p(2), symmetric] realm_plan_def
    by auto
  with log_plan_ok [OF no_undo_ok realm_plan_fits [OF assms], of ht] p(3) show ?thesis by simp
qed

lemma realm_flush_total:
  assumes "realm_ok d s" and "rl_enabled s" and "db_height d < 2 ^ 32" and "0 \<le> reorg_limit d"
  shows "\<exists>ops s'. realm_flush d s = Inr (ops, s') \<and> rl_enabled s' \<and> realm_ok d s'"
proof -
  have "-1 \<le> realm_pruned s" using assms(1) by (simp add: realm_ok_def)
  from prune_undo_total [OF this assms(3,4), of REALM_UNDO] obtain old pruned where o': "prune_undo REALM_UNDO d (realm_pruned s) = Inr (old, pruned)"
      "-1 \<le> pruned" by auto
  from realm_logged [OF assms(1)] obtain undos where
      "undo_puts REALM_UNDO (log_plan (utxo_db d) (realm_plan s) (realm_log s)) = Inr undos"
    using undo_puts_ok by blast
  with o' show ?thesis by (simp add: realm_flush_eq [OF assms(2)] realm_ok_def assms(2))
qed

section \<open>Properties\<close>

lemma realm_rows_new: "realm_ok d s \<Longrightarrow> k \<in> realm_rows s ht \<Longrightarrow> kv_get (utxo_db d) k = None"
  by (auto simp: realm_rows_def realm_ok_def pending_rows_def)

text \<open>The state after the transactions of any blocks, flushed and with one of the blocks undone.\<close>

lemma realm_flush_backup:
  assumes ok: "realm_ok d s" "rl_enabled s" and "kv_ok (utxo_db d)"
    and "db_height d < 2 ^ 32" and "0 \<le> reorg_limit d" and "0 \<le> ht" and "ht < 2 ^ 32"
    and "db_height d - reorg_limit d < ht \<or> reorg_limit d = 0"
    and "kv_get (utxo_db d) (REALM_UNDO @ be_enc 4 (nat ht)) = None"
  shows "\<exists>ops s1 d1 ops' s2. realm_flush d s = Inr (ops, s1) \<and> d1 = d\<lparr>utxo_db := apply_batch ops (utxo_db d)\<rparr>
    \<and> realm_backup d1 ht s1 = Inr (ops', s2)
    \<and> (\<forall>k. \<not> starts_with REALM_UNDO k \<longrightarrow> kv_get (apply_batch ops' (utxo_db d1)) k
          = (if k \<in> realm_rows s ht then None else kv_get (utxo_db d1) k))"
proof -
  from realm_flush_total [OF ok assms(4,5)] obtain ops s1 where f: "realm_flush d s = Inr (ops, s1)" "rl_enabled s1" by blast
  let ?d1 = "d\<lparr>utxo_db := apply_batch ops (utxo_db d)\<rparr>"
  from revert_undo_total [OF assms(6,7)] obtain ops' where "revert_undo REALM_UNDO (utxo_db ?d1) ht = Inr ops'" by blast
  then have b: "realm_backup ?d1 ht s1 = Inr (ops', s1)" using f(2) by (simp add: realm_backup_def)
  have log: "undo_ok (utxo_db d) (realm_log s)" "\<forall>ht k. k \<in> logged (realm_log s) ht \<longrightarrow> \<not> starts_with REALM_UNDO k"
    using ok(1) by (simp_all add: realm_ok_def)
  have "kv_get (apply_batch ops' (utxo_db ?d1)) k = (if k \<in> realm_rows s ht then None else kv_get (utxo_db ?d1) k)"
    if "\<not> starts_with REALM_UNDO k" for k
    using realm_undo.backup_after_flush [OF ok(2) f(2,1) assms(3) log(1) realm_plan_fits [OF ok(1)] log(2) assms(8,6,7) _ b assms(9) that]
      realm_logged [OF ok(1), of ht] realm_rows_new [OF ok(1), of k ht] by simp
  with f b show ?thesis by (intro exI [of _ ops] exI [of _ s1] exI [of _ ?d1] exI [of _ ops'] exI) simp
qed

text \<open>C7: The realms of several blocks are registered and flushed together, and one of the blocks is
  undone: exactly the rows its transactions made disappear, and the rows of the other blocks and all
  older ones stay, whatever the payloads are and whichever blocks shared the flush. Neither the flush
  nor the backup raises. This needs the undo row of the height to be free before the flush.\<close>
theorem realm_undo_exact:
  assumes "\<forall>(ctx, env) \<in> set txs. ctx_ok ctx" and "kv_ok (utxo_db d)"
    and "db_height d < 2 ^ 32" and "0 \<le> reorg_limit d" and "0 \<le> ht" and "ht < 2 ^ 32"
    and "db_height d - reorg_limit d < ht \<or> reorg_limit d = 0"
    and "kv_get (utxo_db d) (REALM_UNDO @ be_enc 4 (nat ht)) = None"
    and "s = realm_index_txs sha dumps d txs (new_realm_index True d)"
  shows "\<exists>ops s1 d1 ops' s2. realm_flush d s = Inr (ops, s1) \<and> d1 = d\<lparr>utxo_db := apply_batch ops (utxo_db d)\<rparr>
    \<and> realm_backup d1 ht s1 = Inr (ops', s2)
    \<and> (\<forall>k. \<not> starts_with REALM_UNDO k \<longrightarrow> kv_get (apply_batch ops' (utxo_db d1)) k
          = (if k \<in> realm_rows s ht then None else kv_get (utxo_db d1) k))"
proof -
  have "realm_ok d s" "rl_enabled s"
    using realm_index_txs_ok [OF new_realm_index_ok(1) assms(1)] unfolding assms(9) by simp_all
  then show ?thesis by (rule realm_flush_backup [OF _ _ assms(2-8)])
qed

text \<open>The loop that restores reference locations stores the first chunk whatever it is given.\<close>

lemma restore_ref_locs_first:
  assumes "info \<noteq> []"
  shows "map_of (ref_loc_cache (restore_ref_locs info t)) (take 36 info) \<noteq> None"
proof -
  have keep: "map_of (ref_loc_cache (foldl (\<lambda>s chunk. s\<lparr>ref_loc_cache := dict_set (take 36 chunk) (drop 36 chunk) (ref_loc_cache s)\<rparr>) t cs)) k \<noteq> None"
    if "map_of (ref_loc_cache t) k \<noteq> None" for cs k and t :: "'a bp"
    using that by (induction cs arbitrary: t) simp_all
  have "chunks_list 68 info = take 68 info # chunks_list 68 (drop 68 info)"
    using assms by (simp add: chunks_list_step)
  moreover have "take 36 (take 68 info) = take 36 info" by (simp add: min_def)
  ultimately show ?thesis unfolding restore_ref_locs_def by (simp only: foldl.simps) (rule keep, simp)
qed

text \<open>C9: The realm index keeps its undo entries in the rows the core keeps its reference-location undo
  in (both are \<open>b'RU'\<close> and the height), and is flushed later in the same batch. When a realm was
  registered at a height, whatever the core put into the batch, its reference undo of that height now
  reads as the realm's entries, and undoing the block restores a reference location made up of them.\<close>
theorem realm_flush_overwrites_ref_undo:
  assumes "realm_ok d s" and "rl_enabled s" and "kv_ok (utxo_db d)" and "realm_flush d s = Inr (ops, s1)"
    and "map_of (realm_height s) id_hash = Some ht"
    and "db_height d - reorg_limit d < ht \<or> reorg_limit d = 0"
  shows "\<exists>info. read_ref_loc_undo_info (d\<lparr>utxo_db := apply_batch (core_ops @ ops) (utxo_db d)\<rparr>) ht = Inr (Some info)
    \<and> (REALM @ id_hash, None) \<in> set (decode_undo info)
    \<and> map_of (ref_loc_cache (restore_ref_locs info t)) (take 36 info) \<noteq> None"
proof -
  let ?kv = "utxo_db d" and ?log = "log_plan (utxo_db d) (realm_plan s) (realm_log s)"
  let ?uk = "REALM_UNDO @ be_enc 4 (nat ht)"
  have p: "pending_rows ?kv REALM (realm_height s) (realm_cache s)" using assms(1) by (simp add: realm_ok_def)
  with assms(5) have ht: "0 \<le> ht" "ht < 2 ^ 32" by (auto simp: pending_rows_def)
  from realm_logged [OF assms(1), of ht] have log: "undo_ok ?kv ?log" "logged ?log ht = realm_rows s ht" by blast+
  from realm_undo.flush_plan [OF assms(2,4)] obtain old n puts where f: "prune_undo REALM_UNDO d n = Inr old"
      "undo_written REALM_UNDO ?log puts" "ops = fst old @ map snd (realm_plan s) @ puts" by blast
  have ok: "kv_ok (apply_batch core_ops ?kv)" by (rule kv_ok_apply_batch [OF assms(3)])
  have mem: "REALM @ id_hash \<in> fst ` set (undo_at ?log ht)" using log(2) assms(5) by (auto simp: logged_def realm_rows_def)
  then have ne: "undo_at ?log ht \<noteq> []" by auto
  have "op_key op = ?uk \<longrightarrow> False" if "op \<in> set (fst old @ map snd (realm_plan s))" for op
  proof
    assume k: "op_key op = ?uk"
    then have "starts_with REALM_UNDO (op_key op)" by (simp add: starts_with_def)
    with that realm_plan_keys have "op \<in> set (fst old)" by auto
    with prune_undo_below [OF f(1) assms(6) ht] k show False by blast
  qed
  then have "\<forall>op \<in> set (fst old @ map snd (realm_plan s)). op_key op = ?uk \<longrightarrow> False" by blast
  from flush_writes_log [OF log(1) f(2) ok this ht] ne obtain info where
      info: "encode_undo (undo_at ?log ht) = Inr info"
        "kv_get (apply_batch ((fst old @ map snd (realm_plan s)) @ puts) (apply_batch core_ops ?kv)) ?uk = Some info" by auto
  have fits: "\<forall>e \<in> set (undo_at ?log ht). undo_entry_fits e" using undo_ok_at [OF log(1)] by blast
  have dec: "decode_undo info = undo_at ?log ht" using undo_codec [OF fits] info(1) by auto
  have "apply_batch (core_ops @ ops) ?kv = apply_batch ((fst old @ map snd (realm_plan s)) @ puts) (apply_batch core_ops ?kv)"
    by (simp add: apply_batch_def f(3))
  moreover have "ref_loc_undo_key ht = Inr ?uk"
    using height_key_fits [OF ht, of REALM_UNDO] by (simp add: ref_loc_undo_key_def height_key_def REALM_UNDO_def)
  ultimately have "read_ref_loc_undo_info (d\<lparr>utxo_db := apply_batch (core_ops @ ops) ?kv\<rparr>) ht = Inr (Some info)"
    using info(2) by (simp add: read_ref_loc_undo_info_def)
  moreover have "(REALM @ id_hash, None) \<in> set (decode_undo info)"
  proof -
    from mem obtain prev where e: "(REALM @ id_hash, prev) \<in> set (undo_at ?log ht)" by auto
    from undo_ok_at [OF log(1) e] p assms(5) have "prev = None" by (auto simp: pending_rows_def)
    with e dec show ?thesis by simp
  qed
  moreover have "info \<noteq> []" by (rule encode_undo_nonempty [OF info(1) ne fits])
  ultimately show ?thesis using restore_ref_locs_first [of info t] by blast
qed

section \<open>A sample registration\<close>

definition sample_envelope :: "string \<Rightarrow> (pyval \<times> pyval) list" where
  "sample_envelope ident =
     (let entry = (\<lambda>k v. (PStr (codes k), v)) in
      [entry ''metadata'' (PDict [entry ''app'' (PDict [entry ''schema'' (PStr REALM_SCHEMA),
         entry ''data'' (PDict [entry ''realm'' (PDict [entry ''id'' (PStr (codes ident)), entry ''kind'' (PStr (codes ''world'')),
           entry ''seed'' (PInt 7), entry ''spawn'' (PList [PInt 0, PInt 1, PInt 2]), entry ''owner'' (PStr (codes ''me''))])])])])])"

definition sample_ctx :: "int \<Rightarrow> byte \<Rightarrow> tx_ctx" where
  "sample_ctx ht b = \<lparr>ctx_tx_hash = replicate 32 b, ctx_tx = one_tx, ctx_height = ht, ctx_tx_idx = 0,
     ctx_output_refs = [(0, [(replicate 36 b, 1)])], ctx_spent_singletons = None, ctx_spent_outpoints = {}\<rparr>"

definition sample_realm_txs :: "(tx_ctx \<times> (pyval \<times> pyval) list option) list" where
  "sample_realm_txs = [(sample_ctx 1 1, Some (sample_envelope ''ab'')), (sample_ctx 2 2, Some (sample_envelope ''cd'')),
     (sample_ctx 2 3, Some (sample_envelope ''ab''))]"

definition sample_realms :: realm where
  "sample_realms = realm_index_txs sample_sha (Some (\<lambda>v. Inr [1])) sample_db sample_realm_txs (new_realm_index True sample_db)"

lemma sample_ctx_ok [simp]: "0 \<le> ht \<Longrightarrow> ht < 4294967296 \<Longrightarrow> ctx_ok (sample_ctx ht b)"
  by (simp add: ctx_ok_def sample_ctx_def)

lemma sample_id_hash: "realm_id_hash sample_sha (codes ''ab'') = [97, 98] @ replicate 14 0"
  "realm_id_hash sample_sha (codes ''cd'') = [99, 100] @ replicate 14 0"
  by code_simp+

definition sample_fields :: "string \<Rightarrow> realm_fields" where
  "sample_fields ident = \<lparr>rf_id = codes ident, rf_name = codes ident, rf_kind = codes ''world'', rf_seed = 7, rf_spawn = [0, 1, 2],
     rf_owner = codes ''me'', rf_desc = None, rf_creator = None, rf_royalty_bps = None\<rparr>"

lemma sample_extract: "extract_realm_fields (py_get (sample_envelope ''ab'') ''metadata'') = Some (sample_fields ''ab'')"
  by code_simp

lemma sample_extract2: "extract_realm_fields (py_get (sample_envelope ''cd'') ''metadata'') = Some (sample_fields ''cd'')"
  by code_simp

lemma sample_envelope_true: "py_true (py_get (sample_envelope x) ''metadata'')" "sample_envelope x \<noteq> []"
  by (simp_all add: sample_envelope_def py_get_def Let_def)

lemma sample_step:
  assumes "extract_realm_fields (py_get (sample_envelope x) ''metadata'') = Some (sample_fields x)"
    and "realm_id_hash sample_sha (codes x) = h" and "rl_enabled s"
  shows "fst (realm_process_tx sample_sha (Some (\<lambda>v. Inr [1])) sample_db (sample_ctx ht b) (Some (sample_envelope x)) s) =
    (if map_of (realm_cache s) h \<noteq> None then s
     else let s1 = s\<lparr>realm_cache := dict_set h [1] (realm_cache s), realm_height := dict_set h ht (realm_height s)\<rparr> in
       if map_of (singleton_cache s) (replicate 36 b) = None
       then s1\<lparr>singleton_cache := dict_set (replicate 36 b) h (singleton_cache s),
               singleton_height := dict_set (replicate 36 b) ht (singleton_height s)\<rparr> else s1)"
proof -
  have pick: "pick_singleton (ctx_output_refs (sample_ctx ht b)) = Some (replicate 36 b)"
    by (simp add: pick_singleton_def sample_ctx_def first_singleton_def)
  have id: "rf_id (sample_fields x) = codes x" by (simp add: sample_fields_def)
  have db: "kv_get (utxo_db sample_db) k = None" for k by (simp add: sample_db_def kv_get_def)
  show ?thesis
    using sample_envelope_true [of x] assms
    by (simp add: realm_process_tx_def Let_def pick id db) (simp add: sample_ctx_def)
qed

lemma sample_realms_eq: "realm_height sample_realms = [([97, 98] @ replicate 14 0, 1), ([99, 100] @ replicate 14 0, 2)]"
  by (simp add: sample_realms_def realm_index_txs_def sample_realm_txs_def new_realm_index_def
      sample_step [OF sample_extract sample_id_hash(1)] sample_step [OF sample_extract2 sample_id_hash(2)] Let_def)

theorem realm_undo_exact_witness:
  "REALM @ [99, 100] @ replicate 14 0 \<in> realm_rows sample_realms 2 \<and> REALM @ [97, 98] @ replicate 14 0 \<notin> realm_rows sample_realms 2
   \<and> (\<exists>ops s1 d1 ops' s2. realm_flush sample_db sample_realms = Inr (ops, s1)
    \<and> d1 = sample_db\<lparr>utxo_db := apply_batch ops (utxo_db sample_db)\<rparr> \<and> realm_backup d1 2 s1 = Inr (ops', s2)
    \<and> (\<forall>k. \<not> starts_with REALM_UNDO k \<longrightarrow> kv_get (apply_batch ops' (utxo_db d1)) k
          = (if k \<in> realm_rows sample_realms 2 then None else kv_get (utxo_db d1) k)))"
proof (intro conjI)
  show "REALM @ [99, 100] @ replicate 14 0 \<in> realm_rows sample_realms 2" by (simp add: realm_rows_def sample_realms_eq)
  show "REALM @ [97, 98] @ replicate 14 0 \<notin> realm_rows sample_realms 2"
    by (simp add: realm_rows_def sample_realms_eq REALM_def SINGLETON_def)
  show "\<exists>ops s1 d1 ops' s2. realm_flush sample_db sample_realms = Inr (ops, s1)
    \<and> d1 = sample_db\<lparr>utxo_db := apply_batch ops (utxo_db sample_db)\<rparr> \<and> realm_backup d1 2 s1 = Inr (ops', s2)
    \<and> (\<forall>k. \<not> starts_with REALM_UNDO k \<longrightarrow> kv_get (apply_batch ops' (utxo_db d1)) k
          = (if k \<in> realm_rows sample_realms 2 then None else kv_get (utxo_db d1) k))"
    by (rule realm_undo_exact [of sample_realm_txs sample_db 2])
      (auto simp: sample_realm_txs_def sample_realms_def, simp_all add: sample_db_def kv_get_def)
qed

theorem realm_flush_overwrites_ref_undo_witness:
  "\<exists>ops s1 info. realm_flush sample_db sample_realms = Inr (ops, s1)
    \<and> read_ref_loc_undo_info (sample_db\<lparr>utxo_db := apply_batch ([Put [82, 85, 0, 0, 0, 2] (replicate 68 5)] @ ops) (utxo_db sample_db)\<rparr>) 2
        = Inr (Some info)
    \<and> (REALM @ [99, 100] @ replicate 14 0, None) \<in> set (decode_undo info)
    \<and> map_of (ref_loc_cache (restore_ref_locs info sample_bp)) (take 36 info) \<noteq> None"
proof -
  have ok: "realm_ok sample_db sample_realms" "rl_enabled sample_realms"
    using realm_index_txs_ok [OF new_realm_index_ok(1), of sample_realm_txs sample_db sample_sha "Some (\<lambda>v. Inr [1])" True]
    by (simp_all add: sample_realms_def sample_realm_txs_def)
  then obtain ops s1 where f: "realm_flush sample_db sample_realms = Inr (ops, s1)"
    using realm_flush_total [of sample_db sample_realms] by (auto simp: sample_db_def)
  have h: "map_of (realm_height sample_realms) ([99, 100] @ replicate 14 0) = Some 2" by (simp add: sample_realms_eq)
  show ?thesis
    using realm_flush_overwrites_ref_undo [OF ok _ f h, of "[Put [82, 85, 0, 0, 0, 2] (replicate 68 5)]" sample_bp] f
    by (simp add: sample_db_def)
qed

end
