(* ===== verification/TokenBalances.thy ===== *)
theory TokenBalances
  imports UndoLog Chain
begin

text \<open>
  The token balances of \<open>electrumx/server/glyph_index.py\<close>: what a transaction's spent and new outputs
  do to the balance of each address in each token, the two tables the balances are kept in (by address
  and by token), and their flush and undo. The other tables of the token index are not part of the
  model. The flush below is the balance and owner part of \<open>GlyphIndex.flush\<close>: it empties the set of
  tokens not yet written, as the code does, but the rows of those tokens are written by the rest of the
  flush, which is left out.
\<close>

section \<open>Keys\<close>

definition BALANCE :: bytes where "BALANCE = [71, 66]"
definition HOLDER_BY_REF :: bytes where "HOLDER_BY_REF = [71, 82]"
definition OWNER :: bytes where "OWNER = [71, 79]"
definition TOKEN :: bytes where "TOKEN = [71, 84]"
definition GLYPH_UNDO :: bytes where "GLYPH_UNDO = [71, 88, 85]"

definition pack_balance_key :: "bytes \<Rightarrow> bytes \<Rightarrow> bytes" where
  "pack_balance_key scripthash ref = BALANCE @ scripthash @ ref"

definition pack_holder_key :: "bytes \<Rightarrow> bytes \<Rightarrow> bytes" where
  "pack_holder_key ref scripthash = HOLDER_BY_REF @ ref @ scripthash"

definition pack_owner_key :: "bytes \<Rightarrow> bytes" where
  "pack_owner_key hashX = OWNER @ hashX"

definition pack_token_key :: "bytes \<Rightarrow> bytes" where
  "pack_token_key ref = TOKEN @ ref"

section \<open>State\<close>

text \<open>\<open>token_refs\<close> are the keys of the cache of unflushed tokens.\<close>

record tokens =
  tk_enabled :: bool
  bal_cache :: "(bytes, int) dict"
  bal_height :: "(bytes, int) dict"
  bal_deletes :: "bytes set"
  owner_cache :: "(bytes, bytes) dict"
  known_refs :: "bytes set"
  token_refs :: "bytes set"
  tk_log :: undo_log
  tk_pruned :: int

section \<open>Updates\<close>

definition is_known_token :: "db \<Rightarrow> bytes \<Rightarrow> tokens \<Rightarrow> tokens \<times> bool" where
  "is_known_token d ref s =
     (if ref \<in> known_refs s then (s, True)
      else if ref \<in> token_refs s \<or> kv_get (utxo_db d) (pack_token_key ref) \<noteq> None
      then (s\<lparr>known_refs := insert ref (known_refs s)\<rparr>, True)
      else (s, False))"

text \<open>The balance the update starts from: the cache, then the deletions of this cycle, then the
  table, whose rows count when they are eight bytes long.\<close>

definition current_balance :: "db \<Rightarrow> bytes \<Rightarrow> tokens \<Rightarrow> int" where
  "current_balance d key s =
     (case map_of (bal_cache s) key of
        Some amount \<Rightarrow> amount
      | None \<Rightarrow> if key \<in> bal_deletes s then 0
          else (case kv_get (utxo_db d) key of Some val \<Rightarrow> if length val = 8 then int (le_dec val) else 0 | None \<Rightarrow> 0))"

definition update_balance :: "db \<Rightarrow> int \<Rightarrow> bytes \<Rightarrow> bytes \<Rightarrow> int \<Rightarrow> tokens \<Rightarrow> tokens" where
  "update_balance d ht scripthash ref delta s =
     (if \<not> tk_enabled s then s
      else
        let key = pack_balance_key scripthash ref; holder_key = pack_holder_key ref scripthash;
            s = s\<lparr>tk_log := record_undo (utxo_db d) ht holder_key (record_undo (utxo_db d) ht key (tk_log s))\<rparr>;
            new_balance = max 0 (current_balance d key s + delta)
        in if new_balance > 0
           then s\<lparr>bal_cache := dict_set key new_balance (bal_cache s), bal_height := dict_set key ht (bal_height s),
                  bal_deletes := bal_deletes s - {key}\<rparr>
           else s\<lparr>bal_cache := dict_del key (bal_cache s), bal_height := dict_del key (bal_height s),
                  bal_deletes := insert key (bal_deletes s)\<rparr>)"

text \<open>A debit is an address, a value and its references with their type bytes; the last entry may be
  cut short.\<close>

definition REF_ENTRY_SIZE :: nat where "REF_ENTRY_SIZE = 37"

definition debit_balance :: "db \<Rightarrow> int \<Rightarrow> tokens \<Rightarrow> debit \<Rightarrow> tokens" where
  "debit_balance d ht s debit = (case debit of (hashX, val, refs_data) \<Rightarrow>
     foldl (\<lambda>s entry.
       let ref = take 36 entry in
       if length ref = 36 then
         (case is_known_token d ref s of (s, has) \<Rightarrow> if has then update_balance d ht hashX ref (- int val) s else s)
       else s) s (chunks_list REF_ENTRY_SIZE refs_data))"

definition credit_balance :: "db \<Rightarrow> int \<Rightarrow> tokens \<Rightarrow> credit \<Rightarrow> tokens" where
  "credit_balance d ht s credit = (case credit of (hashX, val, ref_keys, base_script) \<Rightarrow>
     let (s, credited) = foldl (\<lambda>(s, credited) ref.
         if length ref = 36 then
           (case is_known_token d ref s of (s, has) \<Rightarrow>
              if has then (update_balance d ht hashX ref val s, True) else (s, credited))
         else (s, credited)) (s, False) ref_keys
     in if credited \<and> base_script \<noteq> [] \<and> map_of (owner_cache s) hashX = None
        then s\<lparr>owner_cache := dict_set hashX base_script (owner_cache s)\<rparr> else s)"

definition process_balance_changes :: "db \<Rightarrow> int \<Rightarrow> debit list \<Rightarrow> credit list \<Rightarrow> tokens \<Rightarrow> tokens" where
  "process_balance_changes d ht debits credits s =
     (if \<not> tk_enabled s then s
      else foldl (credit_balance d ht) (foldl (debit_balance d ht) s debits) credits)"

section \<open>Flush and backup\<close>

definition hx_off :: nat where "hx_off = 2 + HASHX_LEN"

definition holder_of :: "bytes \<Rightarrow> bytes" where
  "holder_of key = pack_holder_key (slice hx_off (hx_off + 36) key) (slice 2 hx_off key)"

text \<open>The rows of the cached balances; \<open>struct.pack\<close> raises on a balance that does not fit.\<close>

definition balance_puts :: "(bytes, int) dict \<Rightarrow> (bytes, int) dict \<Rightarrow> batch_op list res" where
  "balance_puts heights cache =
     rbind (mapM (\<lambda>(key, amount).
       if map_of heights key = None then Inr []
       else rbind (pack_le_uint64 amount) (\<lambda>packed. Inr [Put key packed, Put (holder_of key) packed])) cache)
     (\<lambda>ops. Inr (concat ops))"

text \<open>The rows of the emptied balances, whose order (that of a set) does not matter.\<close>

definition balance_dels :: "db \<Rightarrow> (bytes, int) dict \<Rightarrow> bytes set \<Rightarrow> undo_log \<Rightarrow> batch_op list \<times> undo_log" where
  "balance_dels d heights deletes log =
     fold (\<lambda>key (ops, log).
       let ht = (case map_of heights key of Some ht \<Rightarrow> ht | None \<Rightarrow> db_height d)
       in (ops @ [Delete key, Delete (holder_of key)],
           record_undo (utxo_db d) ht (holder_of key) (record_undo (utxo_db d) ht key log)))
       (sorted_list_of_set deletes) ([], log)"

definition glyph_flush :: "db \<Rightarrow> tokens \<Rightarrow> (batch_op list \<times> tokens) res" where
  "glyph_flush d s =
     (if \<not> tk_enabled s then Inr ([], s)
      else
        rbind (prune_undo GLYPH_UNDO d (tk_pruned s)) (\<lambda>(old, pruned).
        rbind (balance_puts (bal_height s) (bal_cache s)) (\<lambda>puts.
        let owners = map (\<lambda>(hashX, base_script). Put (pack_owner_key hashX) base_script) (owner_cache s);
            (dels, log) = balance_dels d (bal_height s) (bal_deletes s) (tk_log s) in
        rbind (undo_puts GLYPH_UNDO log) (\<lambda>undos.
          Inr (old @ puts @ owners @ dels @ undos,
            s\<lparr>bal_cache := [], bal_height := [], bal_deletes := {}, owner_cache := [], known_refs := {}, token_refs := {},
              tk_log := no_undo, tk_pruned := pruned\<rparr>)))))"

definition glyph_backup :: "db \<Rightarrow> int \<Rightarrow> tokens \<Rightarrow> (batch_op list \<times> tokens) res" where
  "glyph_backup d ht s =
     (if \<not> tk_enabled s then Inr ([], s)
      else rbind (revert_undo GLYPH_UNDO (utxo_db d) ht) (\<lambda>ops. Inr (ops, s\<lparr>known_refs := {}\<rparr>)))"

section \<open>Queries\<close>

definition scripthash_to_hashX :: "bytes \<Rightarrow> bytes" where
  "scripthash_to_hashX scripthash =
     (if length scripthash = 32 then take HASHX_LEN (rev scripthash) else take HASHX_LEN scripthash)"

definition get_balance :: "db \<Rightarrow> tokens \<Rightarrow> bytes \<Rightarrow> bytes \<Rightarrow> int res" where
  "get_balance d s scripthash ref =
     (let key = pack_balance_key (scripthash_to_hashX scripthash) ref in
      case map_of (bal_cache s) key of
        Some amount \<Rightarrow> Inr amount
      | None \<Rightarrow> (case kv_get (utxo_db d) key of
          Some (b # bs) \<Rightarrow> rbind (unpack_le_uint64 (b # bs)) (\<lambda>n. Inr (int n))
        | _ \<Rightarrow> Inr 0))"

section \<open>What a transaction does to a balance\<close>

text \<open>The reference: the amounts a transaction takes from and gives to one address in one token, in
  order, added with a floor of zero.\<close>

definition debits_of :: "bytes \<Rightarrow> bytes \<Rightarrow> debit list \<Rightarrow> int list" where
  "debits_of hX ref debits = concat (map (\<lambda>(hashX, val, refs_data).
     if hashX = hX then map (\<lambda>e. - int val) (filter (\<lambda>e. take 36 e = ref) (chunks_list REF_ENTRY_SIZE refs_data)) else []) debits)"

definition credits_of :: "bytes \<Rightarrow> bytes \<Rightarrow> credit list \<Rightarrow> int list" where
  "credits_of hX ref credits = concat (map (\<lambda>(hashX, val, ref_keys, script).
     if hashX = hX then map (\<lambda>r. val) (filter (\<lambda>r. r = ref) ref_keys) else []) credits)"

definition add_floor :: "int \<Rightarrow> int \<Rightarrow> int" where
  "add_floor bal delta = max 0 (bal + delta)"

definition knows :: "db \<Rightarrow> tokens \<Rightarrow> bytes \<Rightarrow> bool" where
  "knows d s ref \<longleftrightarrow> ref \<in> known_refs s \<or> ref \<in> token_refs s \<or> kv_get (utxo_db d) (pack_token_key ref) \<noteq> None"

lemma is_known_token_eq: "is_known_token d ref s = (s', has) \<Longrightarrow>
    has = knows d s ref \<and> knows d s' r = knows d s r \<and> current_balance d k s' = current_balance d k s \<and> tk_log s' = tk_log s
    \<and> tk_enabled s' = tk_enabled s"
  by (auto simp: is_known_token_def knows_def current_balance_def split: if_splits)

lemma balance_key_inj: "length hX = 11 \<Longrightarrow> length hX' = 11 \<Longrightarrow>
    pack_balance_key hX ref = pack_balance_key hX' ref' \<longleftrightarrow> hX = hX' \<and> ref = ref'"
  by (simp add: pack_balance_key_def)

lemma balance_holder_key: "pack_balance_key a b \<noteq> pack_holder_key r x" "pack_holder_key r x \<noteq> pack_balance_key a b"
  by (simp_all add: pack_balance_key_def pack_holder_key_def BALANCE_def HOLDER_BY_REF_def)

lemma current_balance_log [simp]: "current_balance d k (s\<lparr>tk_log := l\<rparr>) = current_balance d k s"
  by (simp add: current_balance_def)

lemma update_balance_current: "tk_enabled s \<Longrightarrow> current_balance d k (update_balance d ht hX ref delta s) =
    (if k = pack_balance_key hX ref then add_floor (current_balance d k s) delta else current_balance d k s)"
  by (simp add: update_balance_def Let_def add_floor_def) (auto simp: current_balance_def)

lemma update_balance_knows [simp]: "knows d (update_balance d ht hX ref delta s) r = knows d s r"
  "tk_enabled (update_balance d ht hX ref delta s) = tk_enabled s"
  by (simp_all add: update_balance_def knows_def Let_def)

text \<open>The rows of the two tables are eight bytes long. The caches hold positive balances of well-formed
  keys, no key is both cached and deleted, and the undo log is one of this table.\<close>

definition row_key :: "bytes \<Rightarrow> bool" where
  "row_key k \<longleftrightarrow> (\<exists>hX ref. length hX = 11 \<and> length ref = 36 \<and> k = pack_balance_key hX ref)"

definition holder_key :: "bytes \<Rightarrow> bool" where
  "holder_key k \<longleftrightarrow> (\<exists>hX ref. length hX = 11 \<and> length ref = 36 \<and> k = pack_holder_key ref hX)"

definition rows_ok :: "kv \<Rightarrow> bool" where
  "rows_ok kv \<longleftrightarrow> (\<forall>k v. (row_key k \<or> holder_key k) \<and> kv_get kv k = Some v \<longrightarrow> length v = 8)"

definition tokens_ok :: "db \<Rightarrow> tokens \<Rightarrow> bool" where
  "tokens_ok d s \<longleftrightarrow> dict_ok (bal_cache s) \<and> dom (map_of (bal_height s)) = dom (map_of (bal_cache s))
     \<and> finite (bal_deletes s) \<and> bal_deletes s \<inter> dom (map_of (bal_cache s)) = {}
     \<and> (\<forall>k \<in> dom (map_of (bal_cache s)) \<union> bal_deletes s. row_key k) \<and> (\<forall>k a. map_of (bal_cache s) k = Some a \<longrightarrow> 0 < a)
     \<and> undo_ok (utxo_db d) (tk_log s) \<and> (\<forall>ht k. k \<in> logged (tk_log s) ht \<longrightarrow> row_key k \<or> holder_key k) \<and> -1 \<le> tk_pruned s
     \<and> (\<forall>ht hX ref. length hX = 11 \<and> length ref = 36 \<longrightarrow>
          (pack_holder_key ref hX \<in> logged (tk_log s) ht \<longleftrightarrow> pack_balance_key hX ref \<in> logged (tk_log s) ht))"

lemma row_keyI [simp, intro]: "length hX = 11 \<Longrightarrow> length ref = 36 \<Longrightarrow> row_key (pack_balance_key hX ref)"
  by (auto simp: row_key_def)

lemma holder_keyI [simp, intro]: "length hX = 11 \<Longrightarrow> length ref = 36 \<Longrightarrow> holder_key (pack_holder_key ref hX)"
  by (auto simp: holder_key_def)

lemma row_key_length: "row_key k \<or> holder_key k \<Longrightarrow> length k = 49"
  by (auto simp: row_key_def holder_key_def pack_balance_key_def pack_holder_key_def BALANCE_def HOLDER_BY_REF_def)

lemma row_fits: "rows_ok kv \<Longrightarrow> row_key k \<or> holder_key k \<Longrightarrow> undo_entry_fits (k, kv_get kv k)"
  using row_key_length [of k] by (auto simp: rows_ok_def undo_entry_fits_def UNDO_NONE_SENTINEL_def split: option.split)

lemma update_balance_ok:
  assumes "tokens_ok d s" and "rows_ok (utxo_db d)" and "0 \<le> ht" and "ht < 2 ^ 32" and "length hX = 11" and "length r = 36"
  shows "tokens_ok d (update_balance d ht hX r delta s)
    \<and> (\<forall>k h. k \<in> logged (tk_log (update_balance d ht hX r delta s)) h \<longleftrightarrow> k \<in> logged (tk_log s) h
        \<or> tk_enabled s \<and> h = ht \<and> (k = pack_balance_key hX r \<or> k = pack_holder_key r hX))"
proof (cases "tk_enabled s")
  case True
  let ?k = "pack_balance_key hX r" and ?hk = "pack_holder_key r hX" and ?kv = "utxo_db d"
  let ?l1 = "record_undo ?kv ht ?k (tk_log s)" and ?n = "max 0 (current_balance d (pack_balance_key hX r) s + delta)"
  let ?l2 = "record_undo ?kv ht ?hk ?l1"
  have u: "undo_ok ?kv (tk_log s)" using assms(1) by (simp add: tokens_ok_def)
  have u1: "undo_ok ?kv ?l1" using assms by (intro undo_ok_record u row_fits) simp_all
  have u2: "undo_ok ?kv ?l2" using assms by (intro undo_ok_record u1 row_fits) simp_all
  have l: "k \<in> logged ?l2 h \<longleftrightarrow> k \<in> logged (tk_log s) h \<or> h = ht \<and> (k = ?k \<or> k = ?hk)" for k h
    using logged_record [OF u1, of ht ?hk h] logged_record [OF u, of ht ?k h] logged_record [OF u, of ht ?k ht] by auto
  have up: "update_balance d ht hX r delta s = (if ?n > 0
       then s\<lparr>tk_log := ?l2, bal_cache := dict_set ?k ?n (bal_cache s), bal_height := dict_set ?k ht (bal_height s),
              bal_deletes := bal_deletes s - {?k}\<rparr>
       else s\<lparr>tk_log := ?l2, bal_cache := dict_del ?k (bal_cache s), bal_height := dict_del ?k (bal_height s),
              bal_deletes := insert ?k (bal_deletes s)\<rparr>)"
    using True by (simp add: update_balance_def Let_def)
  have lk: "\<forall>h k. k \<in> logged ?l2 h \<longrightarrow> row_key k \<or> holder_key k"
    using assms(1,5,6) unfolding l tokens_ok_def by blast
  have pair: "\<forall>h hX' ref. length hX' = 11 \<and> length ref = 36 \<longrightarrow>
      (pack_holder_key ref hX' \<in> logged ?l2 h \<longleftrightarrow> pack_balance_key hX' ref \<in> logged ?l2 h)"
  proof (intro allI impI)
    fix h and hX' ref :: bytes assume len: "length hX' = 11 \<and> length ref = 36"
    have "pack_holder_key ref hX' \<in> logged (tk_log s) h \<longleftrightarrow> pack_balance_key hX' ref \<in> logged (tk_log s) h"
      using assms(1) len unfolding tokens_ok_def by blast
    moreover have "pack_holder_key ref hX' = ?hk \<longleftrightarrow> pack_balance_key hX' ref = ?k"
      using len assms(5,6) by (auto simp: pack_holder_key_def pack_balance_key_def)
    ultimately show "pack_holder_key ref hX' \<in> logged ?l2 h \<longleftrightarrow> pack_balance_key hX' ref \<in> logged ?l2 h"
      unfolding l using balance_holder_key by metis
  qed
  have "tokens_ok d (update_balance d ht hX r delta s)"
    using assms(1,5,6) u2 lk pair unfolding up tokens_ok_def by (auto split: if_splits)
  moreover have "tk_log (update_balance d ht hX r delta s) = ?l2" by (simp add: up)
  ultimately show ?thesis using l True by simp
next
  case False
  then show ?thesis using assms(1) by (simp add: update_balance_def)
qed

text \<open>A fold whose steps each add one amount to one balance, or none.\<close>

definition steps_ok :: "db \<Rightarrow> int \<Rightarrow> tokens \<Rightarrow> tokens \<Rightarrow> bytes \<Rightarrow> bytes \<Rightarrow> int list \<Rightarrow> bool" where
  "steps_ok d ht s s' hX ref deltas \<longleftrightarrow> (\<forall>r. knows d s' r = knows d s r) \<and> tk_enabled s' = tk_enabled s
     \<and> current_balance d (pack_balance_key hX ref) s'
         = (if knows d s ref then foldl add_floor (current_balance d (pack_balance_key hX ref) s) deltas
            else current_balance d (pack_balance_key hX ref) s)
     \<and> (tokens_ok d s \<and> rows_ok (utxo_db d) \<and> 0 \<le> ht \<and> ht < 2 ^ 32 \<longrightarrow> tokens_ok d s'
         \<and> (\<forall>h. pack_balance_key hX ref \<in> logged (tk_log s') h \<longleftrightarrow>
              pack_balance_key hX ref \<in> logged (tk_log s) h \<or> h = ht \<and> knows d s ref \<and> deltas \<noteq> []))"

lemma steps_ok_refl: "steps_ok d ht s s hX ref []"
  by (simp add: steps_ok_def)

lemma steps_ok_trans: "steps_ok d ht s s' hX ref a \<Longrightarrow> steps_ok d ht s' s'' hX ref b \<Longrightarrow> steps_ok d ht s s'' hX ref (a @ b)"
proof -
  assume 1: "steps_ok d ht s s' hX ref a" and 2: "steps_ok d ht s' s'' hX ref b"
  let ?k = "pack_balance_key hX ref"
  have kn: "knows d s'' r = knows d s r" "knows d s' r = knows d s r" for r using 1 2 by (simp_all add: steps_ok_def)
  have en: "tk_enabled s'' = tk_enabled s" using 1 2 by (simp add: steps_ok_def)
  have cur: "current_balance d ?k s'' = (if knows d s ref then foldl add_floor (current_balance d ?k s) (a @ b) else current_balance d ?k s)"
    using 1 2 kn by (simp add: steps_ok_def)
  have log: "tokens_ok d s'' \<and> (\<forall>h. ?k \<in> logged (tk_log s'') h \<longleftrightarrow> ?k \<in> logged (tk_log s) h \<or> h = ht \<and> knows d s ref \<and> a @ b \<noteq> [])"
    if ok: "tokens_ok d s \<and> rows_ok (utxo_db d) \<and> 0 \<le> ht \<and> ht < 2 ^ 32"
  proof -
    have s': "tokens_ok d s'" "\<And>h. ?k \<in> logged (tk_log s') h \<longleftrightarrow> ?k \<in> logged (tk_log s) h \<or> h = ht \<and> knows d s ref \<and> a \<noteq> []"
      using 1 ok unfolding steps_ok_def by blast+
    have "tokens_ok d s''" "\<And>h. ?k \<in> logged (tk_log s'') h \<longleftrightarrow> ?k \<in> logged (tk_log s') h \<or> h = ht \<and> knows d s' ref \<and> b \<noteq> []"
      using 2 ok s'(1) unfolding steps_ok_def by blast+
    with s'(2) kn(2) show ?thesis by auto
  qed
  show ?thesis unfolding steps_ok_def using kn(1) en cur log by blast
qed

lemma is_known_token_ok: "is_known_token d r s = (s', has) \<Longrightarrow> tokens_ok d s' = tokens_ok d s"
proof -
  assume "is_known_token d r s = (s', has)"
  then have "\<exists>x. s' = s\<lparr>known_refs := x\<rparr>"
    by (cases "r \<in> known_refs s") (auto simp: is_known_token_def split: if_splits intro: exI [of _ "known_refs s"])
  then show ?thesis by (elim exE) (simp add: tokens_ok_def)
qed

lemma steps_ok_update:
  assumes "is_known_token d r s = (s', has)" and "tk_enabled s" and "length hX = 11" and "length hashX = 11" and "length r = 36"
  shows "steps_ok d ht s (if has then update_balance d ht hashX r delta s' else s') hX ref (if hashX = hX \<and> r = ref then [delta] else [])"
proof -
  note k = is_known_token_eq [OF assms(1)] and ok = is_known_token_ok [OF assms(1)]
  note up = update_balance_ok [of d s' ht hashX r delta, OF _ _ _ _ assms(4,5)]
  show ?thesis
  proof (cases has)
    case True
    then have kn: "knows d s r" using k by blast
    have cur: "current_balance d (pack_balance_key hX ref) (update_balance d ht hashX r delta s')
        = (if hashX = hX \<and> r = ref then add_floor (current_balance d (pack_balance_key hX ref) s) delta
           else current_balance d (pack_balance_key hX ref) s)"
      using k assms(2) update_balance_current [of s' d "pack_balance_key hX ref" ht hashX r delta]
        balance_key_inj [OF assms(3,4), of ref r] by auto
    have log: "tokens_ok d (update_balance d ht hashX r delta s')
         \<and> (pack_balance_key hX ref \<in> logged (tk_log (update_balance d ht hashX r delta s')) h \<longleftrightarrow>
              pack_balance_key hX ref \<in> logged (tk_log s) h \<or> h = ht \<and> hashX = hX \<and> r = ref)"
      if "tokens_ok d s" "rows_ok (utxo_db d)" "0 \<le> ht" "ht < 2 ^ 32" for h
      using up that ok k assms(2) balance_key_inj [OF assms(3,4), of ref r] balance_holder_key(1) [of hX ref r hashX] by auto
    show ?thesis using True kn k cur log unfolding steps_ok_def by auto
  next
    case False
    then have "\<not> knows d s r" using k by blast
    then show ?thesis using k False ok by (auto simp: steps_ok_def)
  qed
qed

lemma debit_steps:
  assumes "tk_enabled s" and "length hX = 11" and "length (fst debit) = 11" and "length ref = 36"
  shows "steps_ok d ht s (debit_balance d ht s debit) hX ref (debits_of hX ref [debit])"
proof -
  obtain hashX val refs_data where db: "debit = (hashX, val, refs_data)" by (cases debit)
  let ?f = "\<lambda>s entry. let ref = take 36 entry in if length ref = 36 then
         (case is_known_token d ref s of (s, has) \<Rightarrow> if has then update_balance d ht hashX ref (- int val) s else s) else s"
  have "steps_ok d ht s (foldl ?f s es) hX ref
      (if hashX = hX then map (\<lambda>e. - int val) (filter (\<lambda>e. take 36 e = ref) es) else [])"
    if "tk_enabled s" for es and s :: tokens
    using that
  proof (induction es arbitrary: s)
    case Nil
    show ?case by (simp add: steps_ok_refl)
  next
    case (Cons e es)
    have step: "steps_ok d ht s (?f s e) hX ref (if hashX = hX \<and> take 36 e = ref then [- int val] else [])"
    proof (cases "length (take 36 e) = 36")
      case True
      obtain s' has where k: "is_known_token d (take 36 e) s = (s', has)" by (cases "is_known_token d (take 36 e) s")
      show ?thesis using steps_ok_update [OF k Cons.prems assms(2), of hashX ht "- int val" ref] assms(3) True
        by (simp add: k db)
    next
      case False
      then have "?f s e = s" by (simp only: Let_def if_False)
      moreover have "take 36 e \<noteq> ref" using False assms(4) by auto
      ultimately show ?thesis by (simp only: if_False simp_thms steps_ok_refl)
    qed
    moreover have "tk_enabled (?f s e)" using step Cons.prems by (simp add: steps_ok_def)
    ultimately have "steps_ok d ht s (foldl ?f (?f s e) es) hX ref ((if hashX = hX \<and> take 36 e = ref then [- int val] else [])
        @ (if hashX = hX then map (\<lambda>e. - int val) (filter (\<lambda>e. take 36 e = ref) es) else []))"
      using Cons.IH steps_ok_trans by blast
    moreover have "(if hashX = hX \<and> take 36 e = ref then [- int val] else [])
        @ (if hashX = hX then map (\<lambda>e. - int val) (filter (\<lambda>e. take 36 e = ref) es) else [])
        = (if hashX = hX then map (\<lambda>e. - int val) (filter (\<lambda>e. take 36 e = ref) (e # es)) else [])" by simp
    ultimately show ?case by (simp only: foldl.simps)
  qed
  from this [OF assms(1)] show ?thesis by (simp add: debit_balance_def db debits_of_def)
qed

lemma credit_steps:
  assumes "tk_enabled s" and "length hX = 11" and "length (fst credit) = 11" and "length ref = 36"
  shows "steps_ok d ht s (credit_balance d ht s credit) hX ref (credits_of hX ref [credit])"
proof -
  obtain hashX val ref_keys script where cr: "credit = (hashX, val, ref_keys, script)" by (cases credit)
  let ?f = "\<lambda>(s, credited) r. if length r = 36 then (case is_known_token d r s of (s, has) \<Rightarrow>
              if has then (update_balance d ht hashX r val s, True) else (s, credited)) else (s, credited)"
  have "steps_ok d ht s (fst (foldl ?f (s, c) rs)) hX ref (if hashX = hX then map (\<lambda>r. val) (filter (\<lambda>r. r = ref) rs) else [])"
    if "tk_enabled s" for rs c and s :: tokens
    using that
  proof (induction rs arbitrary: s c)
    case Nil
    show ?case by (simp add: steps_ok_refl)
  next
    case (Cons r rs)
    obtain s1 c1 where s1: "?f (s, c) r = (s1, c1)" by (cases "?f (s, c) r")
    have step: "steps_ok d ht s s1 hX ref (if hashX = hX \<and> r = ref then [val] else [])"
    proof (cases "length r = 36")
      case True
      obtain s' has where k: "is_known_token d r s = (s', has)" by (cases "is_known_token d r s")
      have "s1 = (if has then update_balance d ht hashX r val s' else s')" using s1 True k by (auto split: if_splits)
      with steps_ok_update [OF k Cons.prems assms(2), of hashX ht val ref] assms(3) True show ?thesis by (simp add: cr)
    next
      case False
      then have "s1 = s" using s1 by simp
      moreover have "r \<noteq> ref" using False assms(4) by auto
      ultimately show ?thesis by (simp add: steps_ok_refl)
    qed
    moreover have "tk_enabled s1" using step Cons.prems by (simp add: steps_ok_def)
    ultimately have "steps_ok d ht s (fst (foldl ?f (s1, c1) rs)) hX ref ((if hashX = hX \<and> r = ref then [val] else [])
        @ (if hashX = hX then map (\<lambda>r. val) (filter (\<lambda>r. r = ref) rs) else []))"
      using Cons.IH steps_ok_trans by blast
    moreover have "(if hashX = hX \<and> r = ref then [val] else [])
        @ (if hashX = hX then map (\<lambda>r. val) (filter (\<lambda>r. r = ref) rs) else [])
        = (if hashX = hX then map (\<lambda>r. val) (filter (\<lambda>r. r = ref) (r # rs)) else [])" by simp
    ultimately show ?case by (simp only: foldl.simps s1)
  qed
  from this [OF assms(1), of False ref_keys]
  have "steps_ok d ht s (fst (foldl ?f (s, False) ref_keys)) hX ref (credits_of hX ref [credit])"
    by (simp add: cr credits_of_def)
  moreover have "steps_ok d ht s (s'\<lparr>owner_cache := oc\<rparr>) hX ref ds = steps_ok d ht s s' hX ref ds" for s' oc ds
    by (simp add: steps_ok_def knows_def current_balance_def tokens_ok_def)
  ultimately show ?thesis
    by (cases "foldl ?f (s, False) ref_keys") (simp add: credit_balance_def cr Let_def)
qed

definition changes_ok :: "debit list \<Rightarrow> credit list \<Rightarrow> bool" where
  "changes_ok debits credits \<longleftrightarrow> (\<forall>x \<in> set debits. length (fst x) = 11) \<and> (\<forall>x \<in> set credits. length (fst x) = 11)"

lemma process_steps:
  assumes "tk_enabled s" and "length hX = 11" and "length ref = 36" and "changes_ok debits credits"
  shows "steps_ok d ht s (process_balance_changes d ht debits credits s) hX ref (debits_of hX ref debits @ credits_of hX ref credits)"
proof -
  have db: "steps_ok d ht s (foldl (debit_balance d ht) s debits) hX ref (debits_of hX ref debits)"
    if "tk_enabled s" "\<forall>x \<in> set debits. length (fst x) = 11" for debits s
    using that
  proof (induction debits arbitrary: s)
    case (Cons b bs)
    have step: "steps_ok d ht s (debit_balance d ht s b) hX ref (debits_of hX ref [b])"
      using Cons.prems by (intro debit_steps assms(2,3)) simp_all
    then have "tk_enabled (debit_balance d ht s b)" using Cons.prems by (simp add: steps_ok_def)
    with Cons have "steps_ok d ht (debit_balance d ht s b) (foldl (debit_balance d ht) (debit_balance d ht s b) bs) hX ref (debits_of hX ref bs)"
      by simp
    from steps_ok_trans [OF step this] show ?case by (simp add: debits_of_def)
  qed (simp add: steps_ok_refl debits_of_def)
  have cr: "steps_ok d ht s (foldl (credit_balance d ht) s credits) hX ref (credits_of hX ref credits)"
    if "tk_enabled s" "\<forall>x \<in> set credits. length (fst x) = 11" for credits s
    using that
  proof (induction credits arbitrary: s)
    case (Cons b bs)
    have step: "steps_ok d ht s (credit_balance d ht s b) hX ref (credits_of hX ref [b])"
      using Cons.prems by (intro credit_steps assms(2,3)) simp_all
    then have "tk_enabled (credit_balance d ht s b)" using Cons.prems by (simp add: steps_ok_def)
    with Cons have "steps_ok d ht (credit_balance d ht s b) (foldl (credit_balance d ht) (credit_balance d ht s b) bs) hX ref (credits_of hX ref bs)"
      by simp
    from steps_ok_trans [OF step this] show ?case by (simp add: credits_of_def)
  qed (simp add: steps_ok_refl credits_of_def)
  have "steps_ok d ht s (foldl (debit_balance d ht) s debits) hX ref (debits_of hX ref debits)"
    using assms(4) by (intro db assms(1)) (simp add: changes_ok_def)
  moreover from this have "tk_enabled (foldl (debit_balance d ht) s debits)" using assms(1) by (simp add: steps_ok_def)
  ultimately show ?thesis using steps_ok_trans cr assms(4) by (simp add: process_balance_changes_def assms(1) changes_ok_def)
qed

text \<open>C11: Whatever its references, outputs and the other tokens involved, a transaction changes the balance
  of an address in a known token by exactly the amounts its spent and new outputs carry, taken in order
  and never below zero; in a token that is not known it changes nothing. When the address can pay the
  debits, the balance moves by credits minus debits.\<close>
theorem balance_changes_exact:
  assumes "tk_enabled s" and "length hX = 11" and "length ref = 36" and "changes_ok debits credits"
  shows "current_balance d (pack_balance_key hX ref) (process_balance_changes d ht debits credits s)
      = (if knows d s ref then foldl add_floor (current_balance d (pack_balance_key hX ref) s) (debits_of hX ref debits @ credits_of hX ref credits)
         else current_balance d (pack_balance_key hX ref) s)
    \<and> (knows d s ref \<and> 0 \<le> current_balance d (pack_balance_key hX ref) s + sum_list (debits_of hX ref debits)
        \<and> (\<forall>x \<in> set (credits_of hX ref credits). 0 \<le> x) \<longrightarrow>
       current_balance d (pack_balance_key hX ref) (process_balance_changes d ht debits credits s)
        = current_balance d (pack_balance_key hX ref) s + sum_list (debits_of hX ref debits) + sum_list (credits_of hX ref credits))"
proof -
  have neg: "foldl add_floor b xs = b + sum_list xs" if "\<forall>x \<in> set xs. x \<le> 0" "0 \<le> b + sum_list xs" for b xs
    using that
  proof (induction xs arbitrary: b)
    case (Cons x xs)
    have "sum_list xs \<le> 0" using Cons.prems(1) by (intro sum_list_nonpos) simp
    then have "add_floor b x = b + x" using Cons.prems(2) by (simp add: add_floor_def)
    with Cons show ?case by (simp add: add.assoc)
  qed simp
  have pos: "foldl add_floor b xs = b + sum_list xs" if "\<forall>x \<in> set xs. 0 \<le> x" "0 \<le> b" for b xs
    using that by (induction xs arbitrary: b) (simp_all add: add_floor_def add.assoc)
  have le: "\<forall>x \<in> set (debits_of hX ref debits). x \<le> 0" by (auto simp: debits_of_def split: if_splits)
  show ?thesis
    using process_steps [OF assms, of d ht] neg [OF le, of "current_balance d (pack_balance_key hX ref) s"]
      pos [of "credits_of hX ref credits"]
    by (auto simp: steps_ok_def)
qed

section \<open>The flush as a plan\<close>

definition dels_plan :: "db \<Rightarrow> (bytes, int) dict \<Rightarrow> bytes list \<Rightarrow> planned" where
  "dels_plan d heights keys = concat (map (\<lambda>key.
     let ht = (case map_of heights key of Some ht \<Rightarrow> ht | None \<Rightarrow> db_height d)
     in [(Some ht, Delete key), (Some ht, Delete (holder_of key))]) keys)"

definition ok_puts :: "(bytes, int) dict \<Rightarrow> (bytes, int) dict \<Rightarrow> batch_op list" where
  "ok_puts heights cache = (case balance_puts heights cache of Inr ops \<Rightarrow> ops | Inl e \<Rightarrow> [])"

definition owner_puts :: "(bytes, bytes) dict \<Rightarrow> batch_op list" where
  "owner_puts owners = map (\<lambda>(hashX, base_script). Put (pack_owner_key hashX) base_script) owners"

definition glyph_plan :: "db \<Rightarrow> tokens \<Rightarrow> planned" where
  "glyph_plan d s = map (Pair None) (ok_puts (bal_height s) (bal_cache s) @ owner_puts (owner_cache s))
     @ dels_plan d (bal_height s) (sorted_list_of_set (bal_deletes s))"

definition glyph_on :: "tokens \<Rightarrow> bool" where
  "glyph_on s \<longleftrightarrow> tk_enabled s \<and> finite (bal_deletes s) \<and> (\<forall>k \<in> dom (map_of (bal_cache s)) \<union> bal_deletes s. starts_with BALANCE k)"

lemma balance_dels_plan: "balance_dels d heights deletes log
  = (map snd (dels_plan d heights (sorted_list_of_set deletes)), log_plan (utxo_db d) (dels_plan d heights (sorted_list_of_set deletes)) log)"
proof -
  have "fold (\<lambda>key (ops, log).
       let ht = (case map_of heights key of Some ht \<Rightarrow> ht | None \<Rightarrow> db_height d)
       in (ops @ [Delete key, Delete (holder_of key)], record_undo (utxo_db d) ht (holder_of key) (record_undo (utxo_db d) ht key log)))
     keys (ops, log) = (ops @ map snd (dels_plan d heights keys), log_plan (utxo_db d) (dels_plan d heights keys) log)" for keys ops log
    by (induction keys arbitrary: ops log) (simp_all add: dels_plan_def log_plan_def Let_def)
  from this [of "sorted_list_of_set deletes" "[]" log] show ?thesis unfolding balance_dels_def by simp
qed

lemma log_plan_None: "log_plan kv (map (Pair None) ops @ plan) log = log_plan kv plan log"
  by (induction ops) (simp_all add: log_plan_def)

lemma map_snd_None: "map snd (map (Pair None) ops) = ops"
  by (induction ops) simp_all

lemma glyph_flush_eq: "tk_enabled s \<Longrightarrow> glyph_flush d s =
   rbind (prune_undo GLYPH_UNDO d (tk_pruned s)) (\<lambda>(old, pruned).
   rbind (balance_puts (bal_height s) (bal_cache s)) (\<lambda>puts.
   rbind (undo_puts GLYPH_UNDO (log_plan (utxo_db d) (glyph_plan d s) (tk_log s))) (\<lambda>undos.
     Inr (old @ map snd (glyph_plan d s) @ undos,
       s\<lparr>bal_cache := [], bal_height := [], bal_deletes := {}, owner_cache := [], known_refs := {}, token_refs := {},
         tk_log := no_undo, tk_pruned := pruned\<rparr>))))"
  unfolding glyph_flush_def
  by (cases "balance_puts (bal_height s) (bal_cache s)")
    (simp_all add: balance_dels_plan glyph_plan_def log_plan_None ok_puts_def owner_puts_def map_snd_None del: map_map map_append, simp add: map_snd_None del: map_map)

lemma ok_puts_keys: "op \<in> set (ok_puts heights cache) \<Longrightarrow>
    \<exists>k \<in> dom (map_of cache). op_key op = k \<or> op_key op = holder_of k"
proof -
  have "\<exists>k \<in> dom (map_of cache). op_key op = k \<or> op_key op = holder_of k"
    if "mapM (\<lambda>(key, amount). if map_of heights key = None then Inr []
       else rbind (pack_le_uint64 amount) (\<lambda>packed. Inr [Put key packed, Put (holder_of key) packed])) c = Inr os" "op \<in> set (concat os)"
      "set c \<subseteq> set cache" for c os
    using that
  proof (induction c arbitrary: os)
    case (Cons e c)
    obtain key amount where e: "e = (key, amount)" by (cases e)
    then have "(key, amount) \<in> set cache" using Cons.prems(3) by simp
    then have "key \<in> dom (map_of cache)" unfolding dom_map_of_conv_image_fst by force
    moreover from Cons.prems(1) obtain x xs where x: "os = x # xs"
        "(if map_of heights key = None then Inr []
          else rbind (pack_le_uint64 amount) (\<lambda>packed. Inr [Put key packed, Put (holder_of key) packed])) = Inr x"
        "mapM (\<lambda>(key, amount). if map_of heights key = None then Inr []
          else rbind (pack_le_uint64 amount) (\<lambda>packed. Inr [Put key packed, Put (holder_of key) packed])) c = Inr xs"
      by (auto simp: e rbind_eq_Inr)
    moreover have "op_key op = key \<or> op_key op = holder_of key" if "op \<in> set x"
      using x(2) that by (auto simp: rbind_eq_Inr split: if_splits)
    moreover have "op \<in> set x \<or> op \<in> set (concat xs)" using Cons.prems(2) x(1) by simp
    moreover have "set c \<subseteq> set cache" using Cons.prems(3) by simp
    ultimately show ?case using Cons.IH [OF x(3)] by blast
  qed simp
  moreover assume "op \<in> set (ok_puts heights cache)"
  then obtain ops where "balance_puts heights cache = Inr ops" "op \<in> set ops"
    by (cases "balance_puts heights cache") (simp_all add: ok_puts_def)
  then obtain os where "mapM (\<lambda>(key, amount). if map_of heights key = None then Inr []
       else rbind (pack_le_uint64 amount) (\<lambda>packed. Inr [Put key packed, Put (holder_of key) packed])) cache = Inr os" "op \<in> set (concat os)"
    by (auto simp: balance_puts_def rbind_eq_Inr)
  ultimately show "\<exists>k \<in> dom (map_of cache). op_key op = k \<or> op_key op = holder_of k" by blast
qed

lemma glyph_plan_keys:
  assumes "glyph_on s" and "(h, op) \<in> set (glyph_plan d s)"
  shows "\<not> starts_with GLYPH_UNDO (op_key op)"
proof -
  have hold: "\<not> starts_with GLYPH_UNDO (holder_of k)" for k
    by (simp add: starts_with_def GLYPH_UNDO_def holder_of_def pack_holder_key_def HOLDER_BY_REF_def)
  have bal: "\<not> starts_with GLYPH_UNDO k" if "k \<in> dom (map_of (bal_cache s)) \<union> bal_deletes s" for k
  proof -
    from that assms(1) have "starts_with BALANCE k" by (simp add: glyph_on_def)
    then obtain r where "k = BALANCE @ r" by (metis append_take_drop_id starts_with_def)
    then show ?thesis by (simp add: starts_with_def GLYPH_UNDO_def BALANCE_def)
  qed
  from assms(2) have "op \<in> set (ok_puts (bal_height s) (bal_cache s)) \<or> op \<in> set (owner_puts (owner_cache s))
      \<or> (\<exists>k \<in> bal_deletes s. op_key op = k \<or> op_key op = holder_of k)"
    using assms(1) by (auto simp: glyph_plan_def dels_plan_def glyph_on_def Let_def)
  then show ?thesis
  proof (elim disjE) 
    assume "op \<in> set (ok_puts (bal_height s) (bal_cache s))"
    from ok_puts_keys [OF this] obtain k where k: "k \<in> dom (map_of (bal_cache s))" "op_key op = k \<or> op_key op = holder_of k"
      by blast
    have "\<not> starts_with GLYPH_UNDO k" by (rule bal) (use k(1) in blast)
    with hold k(2) show ?thesis by auto
  next
    assume "op \<in> set (owner_puts (owner_cache s))"
    then show ?thesis by (auto simp: owner_puts_def starts_with_def GLYPH_UNDO_def pack_owner_key_def OWNER_def)
  next
    assume "\<exists>k \<in> bal_deletes s. op_key op = k \<or> op_key op = holder_of k"
    then obtain k where "k \<in> bal_deletes s" "op_key op = k \<or> op_key op = holder_of k" by blast
    then show ?thesis using hold bal [of k] by auto
  qed
qed

interpretation glyph_undo: undo_logged GLYPH_UNDO glyph_plan tk_log glyph_on glyph_flush glyph_backup
proof
  fix d s ops s'
  assume "glyph_on s" "glyph_flush d s = Inr (ops, s')"
  moreover have "tk_enabled s" using calculation(1) by (simp add: glyph_on_def)
  ultimately show "\<exists>old n puts. prune_undo GLYPH_UNDO d n = Inr old
      \<and> undo_written GLYPH_UNDO (log_plan (utxo_db d) (glyph_plan d s) (tk_log s)) puts
      \<and> ops = fst old @ map snd (glyph_plan d s) @ puts"
    by (fastforce simp: glyph_flush_eq rbind_eq_Inr)
next
  fix d ht s ops s'
  assume "glyph_on s" "glyph_backup d ht s = Inr (ops, s')"
  then show "revert_undo GLYPH_UNDO (utxo_db d) ht = Inr ops" by (auto simp: glyph_backup_def glyph_on_def rbind_eq_Inr)
qed (rule glyph_plan_keys)

section \<open>What a flush writes\<close>

lemma row_key_starts: "row_key k \<Longrightarrow> starts_with BALANCE k"
  by (auto simp: row_key_def pack_balance_key_def starts_with_def BALANCE_def)

lemma tokens_ok_on: "tokens_ok d s \<Longrightarrow> tk_enabled s \<Longrightarrow> glyph_on s"
  unfolding tokens_ok_def glyph_on_def by (blast intro: row_key_starts)

lemma holder_of_row [simp]: "length hX = 11 \<Longrightarrow> length ref = 36 \<Longrightarrow> holder_of (pack_balance_key hX ref) = pack_holder_key ref hX"
  by (simp add: holder_of_def pack_balance_key_def hx_off_def HASHX_LEN_def BALANCE_def slice_def)

lemma holder_of_inj: "row_key k \<Longrightarrow> row_key k' \<Longrightarrow> holder_of k = holder_of k' \<longleftrightarrow> k = k'"
  by (auto simp: row_key_def pack_holder_key_def)

lemma holder_of_not_row: "row_key k \<Longrightarrow> row_key k' \<Longrightarrow> k \<noteq> holder_of k'"
  by (auto simp: row_key_def balance_holder_key)

text \<open>Writing or deleting both rows of some balances.\<close>

definition pair_ops :: "(bytes \<times> bytes option) list \<Rightarrow> batch_op list" where
  "pair_ops ws = concat (map (\<lambda>(k, v). [restore_op (k, v), restore_op (holder_of k, v)]) ws)"

lemma op_map_restore: "op_map (restore_op (k, v)) m = m(k := v)"
  by (cases v) (simp_all add: restore_op_def)

lemma fold_pair_ops:
  assumes "\<forall>(k, v) \<in> set ws. row_key k" and "distinct (map fst ws)" and "row_key k"
  shows "fold op_map (pair_ops ws) m k = (case map_of ws k of Some v \<Rightarrow> v | None \<Rightarrow> m k)
    \<and> fold op_map (pair_ops ws) m (holder_of k) = (case map_of ws k of Some v \<Rightarrow> v | None \<Rightarrow> m (holder_of k))"
  using assms
proof (induction ws arbitrary: m)
  case (Cons w ws)
  obtain k' v' where w: "w = (k', v')" by (cases w)
  have k': "row_key k'" "k' \<notin> fst ` set ws" using Cons.prems by (simp_all add: w)
  define m' where "m' = (m(k' := v'))(holder_of k' := v')"
  have "fold op_map (pair_ops (w # ws)) m = fold op_map (pair_ops ws) m'" by (simp add: pair_ops_def w op_map_restore m'_def)
  moreover have "m' k = (if k = k' then v' else m k)" "m' (holder_of k) = (if k = k' then v' else m (holder_of k))"
    using holder_of_not_row [OF Cons.prems(3) k'(1)] holder_of_not_row [OF k'(1) Cons.prems(3)] holder_of_inj [OF Cons.prems(3) k'(1)]
    by (auto simp: m'_def)
  moreover have "map_of ws k' = None" using k'(2) by (simp add: map_of_eq_None_iff)
  ultimately show ?case using Cons.IH [of m'] Cons.prems by (auto simp: w split: option.split)
qed (simp add: pair_ops_def)

definition cached_rows :: "tokens \<Rightarrow> (bytes \<times> bytes option) list" where
  "cached_rows s = map (\<lambda>(k, a). (k, Some (le_enc 8 (nat a)))) (bal_cache s) @ map (\<lambda>k. (k, None)) (sorted_list_of_set (bal_deletes s))"

lemma balance_puts_pair:
  assumes "balance_puts heights cache = Inr puts" and "dom (map_of cache) \<subseteq> dom (map_of heights)"
  shows "puts = pair_ops (map (\<lambda>(k, a). (k, Some (le_enc 8 (nat a)))) cache)"
proof -
  have "concat os = pair_ops (map (\<lambda>(k, a). (k, Some (le_enc 8 (nat a)))) c)"
    if "mapM (\<lambda>(key, amount). if map_of heights key = None then Inr []
       else rbind (pack_le_uint64 amount) (\<lambda>packed. Inr [Put key packed, Put (holder_of key) packed])) c = Inr os"
      "\<forall>(k, a) \<in> set c. map_of heights k \<noteq> None" for c os
    using that
  proof (induction c arbitrary: os)
    case (Cons e c)
    obtain key amount where e: "e = (key, amount)" by (cases e)
    then have "map_of heights key \<noteq> None" using Cons.prems(2) by simp
    moreover from Cons.prems(1) this obtain packed xs where x: "os = [Put key packed, Put (holder_of key) packed] # xs"
        "pack_le_uint64 amount = Inr packed"
        "mapM (\<lambda>(key, amount). if map_of heights key = None then Inr []
          else rbind (pack_le_uint64 amount) (\<lambda>packed. Inr [Put key packed, Put (holder_of key) packed])) c = Inr xs"
      by (auto simp: e rbind_eq_Inr)
    moreover have "packed = le_enc 8 (nat amount)" using x(2) by (auto simp: pack_le_uint64_def pack_uint_def split: if_splits)
    ultimately show ?case using Cons.IH [OF x(3)] Cons.prems(2) by (simp add: e pair_ops_def restore_op_def)
  qed (simp add: pair_ops_def)
  moreover have "\<forall>(k, a) \<in> set cache. map_of heights k \<noteq> None"
    using assms(2) unfolding dom_map_of_conv_image_fst [of cache] by (force simp: dom_def)
  ultimately show ?thesis using assms(1) by (auto simp: balance_puts_def rbind_eq_Inr)
qed

lemma row_value_map: "dict_ok cache \<Longrightarrow> map_of (map (\<lambda>(k, a). (k, f a)) cache) k = map_option f (map_of cache k)"
  by (induction cache) (auto simp: dict_ok_def dict_keys_def)

lemma map_of_map_None: "map_of (map (\<lambda>k. (k, v)) xs) k = (if k \<in> set xs then Some v else None)"
  by (induction xs) auto

lemma mapM_mem: "mapM f xs = Inr ys \<Longrightarrow> x \<in> set xs \<Longrightarrow> \<exists>y. f x = Inr y"
  by (induction xs arbitrary: ys) (auto simp: rbind_eq_Inr)

lemma glyph_flush_rows:
  assumes "tokens_ok d s" and "tk_enabled s" and "kv_ok (utxo_db d)" and "glyph_flush d s = Inr (ops, s1)" and "row_key k"
  shows "kv_get (apply_batch ops (utxo_db d)) k = (case map_of (cached_rows s) k of Some v \<Rightarrow> v | None \<Rightarrow> kv_get (utxo_db d) k)
    \<and> kv_get (apply_batch ops (utxo_db d)) (holder_of k)
        = (case map_of (cached_rows s) k of Some v \<Rightarrow> v | None \<Rightarrow> kv_get (utxo_db d) (holder_of k))"
proof -
  let ?dels = "map (\<lambda>k. (k, None :: bytes option)) (sorted_list_of_set (bal_deletes s))" and ?cached = "map (\<lambda>(k, a). (k, Some (le_enc 8 (nat a)))) (bal_cache s)"
  have ok: "dict_ok (bal_cache s)" "dom (map_of (bal_height s)) = dom (map_of (bal_cache s))" "finite (bal_deletes s)"
      "bal_deletes s \<inter> dom (map_of (bal_cache s)) = {}" "\<And>k. k \<in> dom (map_of (bal_cache s)) \<union> bal_deletes s \<Longrightarrow> row_key k"
    using assms(1) by (auto simp: tokens_ok_def)
  obtain old n undos where f: "prune_undo GLYPH_UNDO d n = Inr old" "undo_written GLYPH_UNDO (log_plan (utxo_db d) (glyph_plan d s) (tk_log s)) undos"
      "ops = fst old @ map snd (glyph_plan d s) @ undos"
    using glyph_undo.flush_plan [OF tokens_ok_on [OF assms(1,2)] assms(4)] by blast
  have "\<exists>puts. balance_puts (bal_height s) (bal_cache s) = Inr puts"
    using assms(4) glyph_flush_eq [OF assms(2), of d] by (auto simp: rbind_eq_Inr)
  then obtain puts where puts: "balance_puts (bal_height s) (bal_cache s) = Inr puts" ..
  have pl: "map snd (glyph_plan d s) = pair_ops ?cached @ owner_puts (owner_cache s) @ pair_ops ?dels"
    using balance_puts_pair [OF puts] ok(2)
    by (simp add: glyph_plan_def map_snd_None ok_puts_def puts del: map_map)
      (simp add: dels_plan_def pair_ops_def restore_op_def map_concat comp_def Let_def)
  have ne: "\<not> starts_with GLYPH_UNDO x \<and> \<not> starts_with OWNER x" if "x = k \<or> x = holder_of k" for x
    using that assms(5) by (auto simp: row_key_def starts_with_def GLYPH_UNDO_def OWNER_def pack_balance_key_def BALANCE_def holder_of_def pack_holder_key_def HOLDER_BY_REF_def)
  have own: "\<forall>op \<in> set (owner_puts (owner_cache s)). starts_with OWNER (op_key op)"
    by (auto simp: owner_puts_def pack_owner_key_def starts_with_def)
  have same: "fold op_map ops' m x = m x" if "x = k \<or> x = holder_of k" "ops' = fst old \<or> ops' = undos \<or> ops' = owner_puts (owner_cache s)" for ops' m x
    using that(2) ne [OF that(1)] prune_undo_keys [OF f(1)] undo_written_keys [OF f(2)] own by (intro fold_op_unchanged) blast
  have rows: "\<forall>(k, v) \<in> set ?cached. row_key k" "\<forall>(k, v) \<in> set ?dels. row_key k"
    using ok(3,5) by (force simp: dom_map_of_conv_image_fst) (use ok(3,5) in auto)
  have dist: "distinct (map fst ?cached)" "distinct (map fst ?dels)"
    using ok(1) by (simp_all add: dict_ok_def dict_keys_def comp_def split_beta)
  note a = fold_pair_ops [OF rows(1) dist(1) assms(5)] and b = fold_pair_ops [OF rows(2) dist(2) assms(5)]
  have "kv_get (apply_batch ops (utxo_db d)) x = fold op_map (pair_ops ?dels) (fold op_map (owner_puts (owner_cache s))
      (fold op_map (pair_ops ?cached) (fold op_map (fst old) (kv_get (utxo_db d))))) x" if "x = k \<or> x = holder_of k" for x
    using same [OF that] by (simp add: kv_get_apply_batch [OF assms(3)] f(3) pl)
  moreover have "map_of (cached_rows s) k = (case map_of ?dels k of Some v \<Rightarrow> Some v | None \<Rightarrow> map_of ?cached k)"
  proof (cases "k \<in> bal_deletes s")
    case True
    then have "map_of (bal_cache s) k = None" using ok(4) by blast
    then show ?thesis by (simp add: cached_rows_def map_add_def row_value_map [OF ok(1)] split: option.split)
  next
    case False
    then have "map_of ?dels k = None" using ok(3) by (auto simp: map_of_eq_None_iff)
    then show ?thesis by (simp add: cached_rows_def map_add_def split: option.split)
  qed
  ultimately show ?thesis using a b same by (simp split: option.split)
qed

section \<open>Blocks\<close>

text \<open>Transactions with the height of their block.\<close>

type_synonym change = "int \<times> debit list \<times> credit list"

definition process_changes :: "db \<Rightarrow> change list \<Rightarrow> tokens \<Rightarrow> tokens" where
  "process_changes d txs s = foldl (\<lambda>s (ht, debits, credits). process_balance_changes d ht debits credits s) s txs"

definition fresh_tokens :: "tokens \<Rightarrow> bool" where
  "fresh_tokens s \<longleftrightarrow> tk_enabled s \<and> bal_cache s = [] \<and> bal_height s = [] \<and> bal_deletes s = {} \<and> tk_log s = no_undo \<and> -1 \<le> tk_pruned s"

definition change_ok :: "change \<Rightarrow> bool" where
  "change_ok tx \<longleftrightarrow> (case tx of (ht, debits, credits) \<Rightarrow> 0 \<le> ht \<and> ht < 2 ^ 32 \<and> changes_ok debits credits)"

text \<open>The transaction moves the balance of the address in the token.\<close>

definition moves :: "bytes \<Rightarrow> bytes \<Rightarrow> change \<Rightarrow> bool" where
  "moves hX ref tx \<longleftrightarrow> (case tx of (ht, debits, credits) \<Rightarrow> debits_of hX ref debits @ credits_of hX ref credits \<noteq> [])"

lemma fresh_ok: "fresh_tokens s \<Longrightarrow> tokens_ok d s"
  by (simp add: fresh_tokens_def tokens_ok_def)

lemma process_changes_log:
  assumes "tokens_ok d s" and "tk_enabled s" and "rows_ok (utxo_db d)" and "\<forall>tx \<in> set txs. change_ok tx"
    and "length hX = 11" and "length ref = 36"
  shows "tokens_ok d (process_changes d txs s) \<and> tk_enabled (process_changes d txs s)
    \<and> (pack_balance_key hX ref \<in> logged (tk_log (process_changes d txs s)) h \<longleftrightarrow>
        pack_balance_key hX ref \<in> logged (tk_log s) h \<or> (\<exists>tx \<in> set txs. fst tx = h \<and> knows d s ref \<and> moves hX ref tx))"
  using assms
proof (induction txs arbitrary: s)
  case Nil
  then show ?case by (simp add: process_changes_def)
next
  case (Cons tx txs)
  obtain ht deb cred where tx: "tx = (ht, deb, cred)" by (cases tx)
  let ?s = "process_balance_changes d ht deb cred s"
  have ok: "0 \<le> ht" "ht < 2 ^ 32" "changes_ok deb cred" using Cons.prems(4) by (simp_all add: tx change_ok_def)
  from process_steps [OF Cons.prems(2,5,6) ok(3), of d ht] Cons.prems(1,3) ok(1,2) have s: "tk_enabled ?s" "tokens_ok d ?s"
      "knows d ?s ref = knows d s ref" "\<And>h. pack_balance_key hX ref \<in> logged (tk_log ?s) h \<longleftrightarrow>
              pack_balance_key hX ref \<in> logged (tk_log s) h \<or> h = ht \<and> knows d s ref \<and> debits_of hX ref deb @ credits_of hX ref cred \<noteq> []"
    unfolding steps_ok_def using Cons.prems(2) by blast+
  have step: "process_changes d (tx # txs) s = process_changes d txs ?s" by (simp add: process_changes_def tx)
  have mv: "moves hX ref tx \<longleftrightarrow> debits_of hX ref deb @ credits_of hX ref cred \<noteq> []" by (simp add: moves_def tx)
  have "\<forall>tx \<in> set txs. change_ok tx" using Cons.prems(4) by simp
  from Cons.IH [OF s(2,1) Cons.prems(3) this Cons.prems(5,6)] show ?case
    unfolding step s(3,4) mv [symmetric] by (auto simp: tx)
qed

lemma dels_plan_mem: "(Some h, op) \<in> set (dels_plan d heights keys) \<longleftrightarrow>
    (\<exists>k \<in> set keys. (op = Delete k \<or> op = Delete (holder_of k)) \<and> h = (case map_of heights k of Some ht \<Rightarrow> ht | None \<Rightarrow> db_height d))"
  by (auto simp: dels_plan_def Let_def)

lemma glyph_plan_fits:
  assumes "tokens_ok d s" and "rows_ok (utxo_db d)" and "0 \<le> db_height d" and "db_height d < 2 ^ 32"
  shows "plan_fits (utxo_db d) (glyph_plan d s)"
    and "{op_key op | op. (Some ht, op) \<in> set (glyph_plan d s)}
      = (if ht = db_height d then bal_deletes s \<union> holder_of ` bal_deletes s else {})"
proof -
  have ok: "dom (map_of (bal_height s)) = dom (map_of (bal_cache s))" "finite (bal_deletes s)"
      "bal_deletes s \<inter> dom (map_of (bal_cache s)) = {}" "\<And>k. k \<in> bal_deletes s \<Longrightarrow> row_key k"
    using assms(1) by (auto simp: tokens_ok_def)
  have ht: "map_of (bal_height s) k = None" if "k \<in> bal_deletes s" for k using ok(1,3) that by blast
  have p: "(Some h, op) \<in> set (glyph_plan d s) \<longleftrightarrow> h = db_height d \<and> (\<exists>k \<in> bal_deletes s. op = Delete k \<or> op = Delete (holder_of k))" for h op
    using ok(2) ht by (auto simp: glyph_plan_def dels_plan_mem)
  have "holder_key (holder_of k)" if "k \<in> bal_deletes s" for k using ok(4) [OF that] by (auto simp: row_key_def)
  then show "plan_fits (utxo_db d) (glyph_plan d s)"
    using assms(3,4) ok(4) row_fits [OF assms(2)] unfolding plan_fits_def by (fastforce simp: p)
  show "{op_key op | op. (Some ht, op) \<in> set (glyph_plan d s)}
      = (if ht = db_height d then bal_deletes s \<union> holder_of ` bal_deletes s else {})"
    unfolding p by (auto intro: exI [of _ "Delete _"])
qed

section \<open>Properties of the flush and the undo\<close>

definition mirrored :: "kv \<Rightarrow> bool" where
  "mirrored kv \<longleftrightarrow> (\<forall>hX ref. length hX = 11 \<and> length ref = 36 \<longrightarrow>
     kv_get kv (pack_holder_key ref hX) = kv_get kv (pack_balance_key hX ref))"

lemma glyph_backup_rows:
  assumes "fresh_tokens s0" and "\<forall>tx \<in> set txs. change_ok tx" and "rows_ok (utxo_db d)" and "kv_ok (utxo_db d)"
    and "0 \<le> db_height d" and "db_height d < 2 ^ 32"
    and "glyph_flush d (process_changes d txs s0) = Inr (ops, s1)" and "glyph_backup d1 ht s1 = Inr (ops', s2)"
    and "utxo_db d1 = apply_batch ops (utxo_db d)"
    and "db_height d - reorg_limit d < ht \<or> reorg_limit d = 0" and "0 \<le> ht" and "ht < 2 ^ 32"
    and "kv_get (utxo_db d) (GLYPH_UNDO @ be_enc 4 (nat ht)) = None" and "row_key k \<or> holder_key k"
  shows "kv_get (apply_batch ops' (utxo_db d1)) k =
    (if k \<in> logged (tk_log (process_changes d txs s0)) ht
        \<or> ht = db_height d \<and> k \<in> bal_deletes (process_changes d txs s0) \<union> holder_of ` bal_deletes (process_changes d txs s0)
     then kv_get (utxo_db d) k else kv_get (utxo_db d1) k)"
proof -
  let ?s = "process_changes d txs s0"
  have "tk_enabled s0" using assms(1) by (simp add: fresh_tokens_def)
  from process_changes_log [OF fresh_ok [OF assms(1)] this assms(3,2), of "replicate 11 0" "replicate 36 0"]
  have ok: "tokens_ok d ?s" "tk_enabled ?s" by simp_all
  have "glyph_on s1" using assms(7) glyph_flush_eq [OF ok(2), of d] ok(2) by (auto simp: rbind_eq_Inr glyph_on_def)
  have log: "undo_ok (utxo_db d) (tk_log ?s)" "\<forall>ht k. k \<in> logged (tk_log ?s) ht \<longrightarrow> row_key k \<or> holder_key k"
    using ok(1) unfolding tokens_ok_def by blast+
  have ns: "\<not> starts_with GLYPH_UNDO k" if "row_key k \<or> holder_key k" for k
    using that by (auto simp: row_key_def holder_key_def starts_with_def GLYPH_UNDO_def pack_balance_key_def BALANCE_def pack_holder_key_def HOLDER_BY_REF_def)
  have out: "\<forall>ht k. k \<in> logged (tk_log ?s) ht \<longrightarrow> \<not> starts_with GLYPH_UNDO k" using log(2) ns by blast
  note fits = glyph_plan_fits [OF ok(1) assms(3,5,6)]
  have "kv_get (apply_batch ops' (utxo_db d1)) k = (if k \<in> logged (log_plan (utxo_db d) (glyph_plan d ?s) (tk_log ?s)) ht
      then kv_get (utxo_db d) k else kv_get (utxo_db d1) k)"
    by (rule glyph_undo.backup_after_flush [OF tokens_ok_on [OF ok] \<open>glyph_on s1\<close> assms(7,4) log(1) fits(1) out assms(10-12,9,8,13) ns [OF assms(14)]])
  moreover have "logged (log_plan (utxo_db d) (glyph_plan d ?s) (tk_log ?s)) ht = logged (tk_log ?s) ht
      \<union> (if ht = db_height d then bal_deletes ?s \<union> holder_of ` bal_deletes ?s else {})"
    using log_plan_ok [OF log(1) fits(1), of ht] fits(2) by simp
  ultimately show ?thesis by simp
qed

text \<open>C12: The flush writes the balances it was given and the table by token always mirrors the table by
  address: every balance reads the same after the flush as before, and for every address and token
  the two rows agree, after the flush and after any block of it has been undone.\<close>
theorem token_tables_mirror:
  assumes "fresh_tokens s0" and "\<forall>tx \<in> set txs. change_ok tx" and "rows_ok (utxo_db d)" and "kv_ok (utxo_db d)"
    and "mirrored (utxo_db d)" and "0 \<le> db_height d" and "db_height d < 2 ^ 32"
    and "glyph_flush d (process_changes d txs s0) = Inr (ops, s1)" and "d1 = d\<lparr>utxo_db := apply_batch ops (utxo_db d)\<rparr>"
    and "db_height d - reorg_limit d < ht \<or> reorg_limit d = 0" and "0 \<le> ht" and "ht < 2 ^ 32"
    and "kv_get (utxo_db d) (GLYPH_UNDO @ be_enc 4 (nat ht)) = None" and "glyph_backup d1 ht s1 = Inr (ops', s2)"
  shows "mirrored (utxo_db d1) \<and> mirrored (apply_batch ops' (utxo_db d1))
    \<and> (\<forall>k. row_key k \<longrightarrow> current_balance d1 k s1 = current_balance d k (process_changes d txs s0))"
proof -
  let ?s = "process_changes d txs s0"
  have "tk_enabled s0" using assms(1) by (simp add: fresh_tokens_def)
  from process_changes_log [OF fresh_ok [OF assms(1)] this assms(3,2), of "replicate 11 0" "replicate 36 0"]
  have ok: "tokens_ok d ?s" "tk_enabled ?s" by simp_all
  note rows = glyph_flush_rows [OF ok assms(4,8)]
  have m1: "kv_get (utxo_db d1) (pack_holder_key ref hX) = kv_get (utxo_db d1) (pack_balance_key hX ref)"
    if "length hX = 11" "length ref = 36" for hX ref
    using rows [of "pack_balance_key hX ref"] that assms(5) by (simp add: assms(9) mirrored_def split: option.split)
  have m2: "kv_get (apply_batch ops' (utxo_db d1)) (pack_holder_key ref hX) = kv_get (apply_batch ops' (utxo_db d1)) (pack_balance_key hX ref)"
    if l: "length hX = 11" "length ref = 36" for hX ref
  proof -
    let ?k = "pack_balance_key hX ref" and ?h = "pack_holder_key ref hX"
    note b = glyph_backup_rows [OF assms(1-4,6-8,14) _ assms(10-13)]
    have "utxo_db d1 = apply_batch ops (utxo_db d)" by (simp add: assms(9))
    from b [OF this, of ?k] b [OF this, of ?h] l have
      "kv_get (apply_batch ops' (utxo_db d1)) ?k = (if ?k \<in> logged (tk_log ?s) ht
          \<or> ht = db_height d \<and> ?k \<in> bal_deletes ?s \<union> holder_of ` bal_deletes ?s then kv_get (utxo_db d) ?k else kv_get (utxo_db d1) ?k)"
      "kv_get (apply_batch ops' (utxo_db d1)) ?h = (if ?h \<in> logged (tk_log ?s) ht
          \<or> ht = db_height d \<and> ?h \<in> bal_deletes ?s \<union> holder_of ` bal_deletes ?s then kv_get (utxo_db d) ?h else kv_get (utxo_db d1) ?h)"
      by blast+
    moreover have "?h \<in> logged (tk_log ?s) ht \<longleftrightarrow> ?k \<in> logged (tk_log ?s) ht" using ok(1) l unfolding tokens_ok_def by blast
    moreover have "?h \<in> bal_deletes ?s \<union> holder_of ` bal_deletes ?s \<longleftrightarrow> ?k \<in> bal_deletes ?s \<union> holder_of ` bal_deletes ?s"
    proof -
      have rk: "row_key x" if "x \<in> bal_deletes ?s" for x using ok(1) that unfolding tokens_ok_def by blast
      have "?h \<notin> bal_deletes ?s" using rk [of ?h] by (auto simp: row_key_def balance_holder_key)
      moreover have "?h \<in> holder_of ` bal_deletes ?s \<longleftrightarrow> ?k \<in> bal_deletes ?s"
        using rk holder_of_inj [of ?k] l holder_of_row [OF l] by (metis (no_types, lifting) imageE imageI row_keyI)
      moreover have "?k \<notin> holder_of ` bal_deletes ?s" using rk holder_of_not_row [of ?k] l by blast
      ultimately show ?thesis by blast
    qed
    moreover have "kv_get (utxo_db d) ?h = kv_get (utxo_db d) ?k" using assms(5) l by (simp add: mirrored_def)
    ultimately show ?thesis using m1 [OF l] by presburger
  qed
  have "current_balance d1 k s1 = current_balance d k ?s" if k: "row_key k" for k
  proof -
    have s1: "bal_cache s1 = []" "bal_deletes s1 = {}" "\<exists>puts. balance_puts (bal_height ?s) (bal_cache ?s) = Inr puts"
      using assms(8) glyph_flush_eq [OF ok(2), of d] by (auto simp: rbind_eq_Inr)
    have dok: "dict_ok (bal_cache ?s)" "dom (map_of (bal_height ?s)) = dom (map_of (bal_cache ?s))" "finite (bal_deletes ?s)"
        "bal_deletes ?s \<inter> dom (map_of (bal_cache ?s)) = {}"
      using ok(1) by (simp_all add: tokens_ok_def)
    have get: "kv_get (utxo_db d1) k = (case map_of (cached_rows ?s) k of Some v \<Rightarrow> v | None \<Rightarrow> kv_get (utxo_db d) k)"
      using rows [OF k] by (simp add: assms(9))
    have fit: "0 \<le> a \<and> a < 2 ^ 64" if "map_of (bal_cache ?s) k = Some a" for a
    proof -
      from s1(3) obtain os where "mapM (\<lambda>(key, amount). if map_of (bal_height ?s) key = None then Inr []
          else rbind (pack_le_uint64 amount) (\<lambda>packed. Inr [Put key packed, Put (holder_of key) packed])) (bal_cache ?s) = Inr os"
        by (auto simp: balance_puts_def rbind_eq_Inr)
      from mapM_mem [OF this map_of_SomeD [OF that]] have "\<exists>y. (if map_of (bal_height ?s) k = None then Inr []
          else rbind (pack_le_uint64 a) (\<lambda>packed. Inr [Put k packed, Put (holder_of k) packed])) = Inr y" by simp
      moreover have "map_of (bal_height ?s) k \<noteq> None" using dok(2) that by blast
      ultimately show ?thesis by (auto simp: rbind_eq_Inr pack_le_uint64_def pack_uint_def split: if_splits)
    qed
    show ?thesis
    proof (cases "map_of (bal_cache ?s) k")
      case (Some a)
      then have "k \<notin> bal_deletes ?s" using dok(4) by blast
      then have "map_of (cached_rows ?s) k = Some (Some (le_enc 8 (nat a)))"
        using Some dok(3) by (simp add: cached_rows_def map_add_def row_value_map [OF dok(1)] map_of_map_None split: option.split)
      then show ?thesis using Some fit [OF Some] by (simp add: current_balance_def s1(1,2) get nat_less_iff)
    next
      case None
      then have "map_of (cached_rows ?s) k = (if k \<in> bal_deletes ?s then Some None else None)"
        using dok(3) by (simp add: cached_rows_def map_add_def row_value_map [OF dok(1)] map_of_map_None split: option.split)
      then show ?thesis using None by (simp add: current_balance_def s1(1,2) get)
    qed
  qed
  with m1 m2 show ?thesis by (simp add: mirrored_def)
qed

text \<open>C14: Undoing the block at a height takes a balance back to what it was at the last flush, not to what it
  was before the block: when the block moves the balance, whatever earlier blocks of the same flush did
  to it is gone as well, and the balance reads as it did before all of them.\<close>
theorem token_undo_reverts_to_flush:
  assumes "fresh_tokens s0" and "\<forall>tx \<in> set txs. change_ok tx" and "rows_ok (utxo_db d)" and "kv_ok (utxo_db d)"
    and "0 \<le> db_height d" and "db_height d < 2 ^ 32"
    and "glyph_flush d (process_changes d txs s0) = Inr (ops, s1)" and "d1 = d\<lparr>utxo_db := apply_batch ops (utxo_db d)\<rparr>"
    and "db_height d - reorg_limit d < ht \<or> reorg_limit d = 0" and "0 \<le> ht" and "ht < 2 ^ 32"
    and "kv_get (utxo_db d) (GLYPH_UNDO @ be_enc 4 (nat ht)) = None" and "glyph_backup d1 ht s1 = Inr (ops', s2)"
    and "length hX = 11" and "length ref = 36" and "tx \<in> set txs" and "fst tx = ht" and "knows d s0 ref" and "moves hX ref tx"
  shows "current_balance (d1\<lparr>utxo_db := apply_batch ops' (utxo_db d1)\<rparr>) (pack_balance_key hX ref) s2
    = current_balance d (pack_balance_key hX ref) s0"
proof -
  let ?s = "process_changes d txs s0" and ?k = "pack_balance_key hX ref"
  have en: "tk_enabled s0" using assms(1) by (simp add: fresh_tokens_def)
  from process_changes_log [OF fresh_ok [OF assms(1)] en assms(3,2,14,15)]
  have ok: "tokens_ok d ?s" "tk_enabled ?s" and log: "?k \<in> logged (tk_log ?s) ht" using assms(16-19) by blast+
  have s1: "bal_cache s1 = []" "bal_deletes s1 = {}" "tk_enabled s1"
    using assms(7) glyph_flush_eq [OF ok(2), of d] ok(2) by (auto simp: rbind_eq_Inr)
  then have s2: "bal_cache s2 = []" "bal_deletes s2 = {}" using assms(13) by (auto simp: glyph_backup_def rbind_eq_Inr)
  have s0: "bal_cache s0 = []" "bal_deletes s0 = {}" using assms(1) by (simp_all add: fresh_tokens_def)
  have "utxo_db d1 = apply_batch ops (utxo_db d)" by (simp add: assms(8))
  from glyph_backup_rows [OF assms(1-7,13) this assms(9-12), of ?k] log assms(14,15)
  have "kv_get (apply_batch ops' (utxo_db d1)) ?k = kv_get (utxo_db d) ?k" by simp
  then show ?thesis by (simp add: current_balance_def s2 s0)
qed

lemma glyph_flush_total:
  assumes "tokens_ok d s" and "tk_enabled s" and "rows_ok (utxo_db d)" and "0 \<le> db_height d" and "db_height d < 2 ^ 32"
    and "0 \<le> reorg_limit d" and "\<forall>(k, a) \<in> set (bal_cache s). a < 2 ^ 64"
  shows "\<exists>ops s1. glyph_flush d s = Inr (ops, s1) \<and> tk_enabled s1"
proof -
  have ok: "-1 \<le> tk_pruned s" "undo_ok (utxo_db d) (tk_log s)" "\<And>k a. map_of (bal_cache s) k = Some a \<Longrightarrow> 0 < a" "dict_ok (bal_cache s)"
    using assms(1) by (auto simp: tokens_ok_def)
  from prune_undo_total [OF ok(1) assms(5,6), of GLYPH_UNDO] obtain old pruned where "prune_undo GLYPH_UNDO d (tk_pruned s) = Inr (old, pruned)" by auto
  moreover have "\<exists>puts. balance_puts (bal_height s) (bal_cache s) = Inr puts"
  proof -
    let ?g = "\<lambda>(k, a). if map_of (bal_height s) k = None then [] else [Put k (le_enc 8 (nat a)), Put (holder_of k) (le_enc 8 (nat a))]"
    have "mapM (\<lambda>(key, amount). if map_of (bal_height s) key = None then Inr []
          else rbind (pack_le_uint64 amount) (\<lambda>packed. Inr [Put key packed, Put (holder_of key) packed])) (bal_cache s) = Inr (map ?g (bal_cache s))"
    proof (rule mapM_Inr)
      fix x assume x: "x \<in> set (bal_cache s)"
      obtain k a where ka: "x = (k, a)" by (cases x)
      with x ok(3,4) have "0 < a" by (metis map_of_eq_iff_mem)
      moreover have "a < 2 ^ 64" using assms(7) x ka by auto
      ultimately have "pack_le_uint64 a = Inr (le_enc 8 (nat a))" by (simp add: pack_le_uint64_def pack_uint_def)
      then show "(case x of (key, amount) \<Rightarrow> if map_of (bal_height s) key = None then Inr []
          else rbind (pack_le_uint64 amount) (\<lambda>packed. Inr [Put key packed, Put (holder_of key) packed])) = Inr (?g x)"
        by (simp add: ka)
    qed
    then show ?thesis by (simp add: balance_puts_def)
  qed
  moreover have "undo_ok (utxo_db d) (log_plan (utxo_db d) (glyph_plan d s) (tk_log s))"
    using log_plan_ok [OF ok(2) glyph_plan_fits(1) [OF assms(1,3-5)]] by blast
  then obtain undos where "undo_puts GLYPH_UNDO (log_plan (utxo_db d) (glyph_plan d s) (tk_log s)) = Inr undos"
    using undo_puts_ok by blast
  ultimately show ?thesis by (auto simp: glyph_flush_eq [OF assms(2)] assms(2))
qed

section \<open>A sample token\<close>

definition sample_ref :: bytes where "sample_ref = replicate 36 1"
definition sample_holder :: bytes where "sample_holder = replicate 11 2"

definition sample_tokens :: tokens where
  "sample_tokens = \<lparr>tk_enabled = True, bal_cache = [], bal_height = [], bal_deletes = {}, owner_cache = [], known_refs = {},
     token_refs = {sample_ref}, tk_log = no_undo, tk_pruned = -1\<rparr>"

definition sample_tip :: db where "sample_tip = sample_db\<lparr>db_height := 2\<rparr>"

text \<open>Two blocks: the first pays 5 to the holder, the second 3.\<close>

definition sample_changes :: "change list" where
  "sample_changes = [(1, [], [(sample_holder, 5, [sample_ref], [])]), (2, [], [(sample_holder, 3, [sample_ref], [])])]"

lemma sample_changes_ok: "\<forall>tx \<in> set sample_changes. change_ok tx"
  by (simp add: sample_changes_def change_ok_def changes_ok_def sample_holder_def)

lemma sample_tokens_fresh [simp]: "fresh_tokens sample_tokens" "tk_enabled sample_tokens"
  by (simp_all add: fresh_tokens_def sample_tokens_def)

lemma sample_tip_simps [simp]: "utxo_db sample_tip = []" "db_height sample_tip = 2" "reorg_limit sample_tip = 10"
  by (simp_all add: sample_tip_def sample_db_def)

lemma empty_rows [simp]: "rows_ok []" "mirrored []" "kv_get [] k = None"
  by (simp_all add: rows_ok_def mirrored_def kv_get_def)

lemma sample_balance_steps:
  "bal_cache (process_changes sample_tip sample_changes sample_tokens) = [(pack_balance_key sample_holder sample_ref, 8)]"
  "current_balance sample_tip (pack_balance_key sample_holder sample_ref) (process_changes sample_tip (take 1 sample_changes) sample_tokens) = 5"
  by (simp_all add: process_changes_def sample_changes_def process_balance_changes_def credit_balance_def sample_tokens_def
      is_known_token_def update_balance_def current_balance_def sample_ref_def Let_def)

lemma sample_flushes: "\<exists>ops s1 ops' s2. glyph_flush sample_tip (process_changes sample_tip sample_changes sample_tokens) = Inr (ops, s1)
   \<and> glyph_backup (sample_tip\<lparr>utxo_db := apply_batch ops []\<rparr>) 2 s1 = Inr (ops', s2)"
proof -
  have r: "rows_ok (utxo_db sample_tip)" by simp
  have l: "length sample_holder = 11" "length sample_ref = 36" by (simp_all add: sample_holder_def sample_ref_def)
  from process_changes_log [OF fresh_ok [OF sample_tokens_fresh(1)] sample_tokens_fresh(2) r sample_changes_ok l]
  have ok: "tokens_ok sample_tip (process_changes sample_tip sample_changes sample_tokens)"
      "tk_enabled (process_changes sample_tip sample_changes sample_tokens)" by blast+
  from glyph_flush_total [OF ok r] obtain ops s1 where
      f: "glyph_flush sample_tip (process_changes sample_tip sample_changes sample_tokens) = Inr (ops, s1)" "tk_enabled s1"
    by (auto simp: sample_balance_steps)
  have "(0 :: int) \<le> 2" "(2 :: int) < 2 ^ 32" by simp_all
  from revert_undo_total [OF this, of GLYPH_UNDO "apply_batch ops []"] obtain ops' where
    "revert_undo GLYPH_UNDO (apply_batch ops []) 2 = Inr ops'" by blast
  with f show ?thesis by (simp add: glyph_backup_def)
qed

theorem balance_changes_exact_witness:
  "current_balance sample_tip (pack_balance_key sample_holder sample_ref)
     (process_balance_changes sample_tip 1 [] [(sample_holder, 5, [sample_ref], [])] sample_tokens) = 5"
proof -
  have "length sample_holder = 11" "length sample_ref = 36" "changes_ok [] [(sample_holder, 5, [sample_ref], [])]"
    by (simp_all add: sample_holder_def sample_ref_def changes_ok_def)
  from balance_changes_exact [OF sample_tokens_fresh(2) this, of sample_tip 1] show ?thesis
    by (simp add: knows_def sample_tokens_def debits_of_def credits_of_def add_floor_def current_balance_def)
qed

theorem token_tables_mirror_witness:
  "\<exists>ops s1 ops' s2. glyph_flush sample_tip (process_changes sample_tip sample_changes sample_tokens) = Inr (ops, s1)
   \<and> mirrored (apply_batch ops []) \<and> mirrored (apply_batch ops' (apply_batch ops []))
   \<and> glyph_backup (sample_tip\<lparr>utxo_db := apply_batch ops []\<rparr>) 2 s1 = Inr (ops', s2)"
proof -
  obtain ops s1 ops' s2 where f: "glyph_flush sample_tip (process_changes sample_tip sample_changes sample_tokens) = Inr (ops, s1)"
      "glyph_backup (sample_tip\<lparr>utxo_db := apply_batch ops []\<rparr>) 2 s1 = Inr (ops', s2)" using sample_flushes by blast
  from token_tables_mirror [OF sample_tokens_fresh(1) sample_changes_ok _ _ _ _ _ f(1), of "sample_tip\<lparr>utxo_db := apply_batch ops []\<rparr>" 2 ops' s2] f
  show ?thesis by auto
qed

theorem token_undo_reverts_to_flush_witness:
  "current_balance sample_tip (pack_balance_key sample_holder sample_ref) (process_changes sample_tip (take 1 sample_changes) sample_tokens) = 5
   \<and> (\<exists>ops s1 ops' s2. glyph_flush sample_tip (process_changes sample_tip sample_changes sample_tokens) = Inr (ops, s1)
    \<and> glyph_backup (sample_tip\<lparr>utxo_db := apply_batch ops []\<rparr>) 2 s1 = Inr (ops', s2)
    \<and> current_balance (sample_tip\<lparr>utxo_db := apply_batch ops' (apply_batch ops [])\<rparr>) (pack_balance_key sample_holder sample_ref) s2 = 0)"
proof -
  obtain ops s1 ops' s2 where f: "glyph_flush sample_tip (process_changes sample_tip sample_changes sample_tokens) = Inr (ops, s1)"
      "glyph_backup (sample_tip\<lparr>utxo_db := apply_batch ops []\<rparr>) 2 s1 = Inr (ops', s2)" using sample_flushes by blast
  have l: "length sample_holder = 11" "length sample_ref = 36" by (simp_all add: sample_holder_def sample_ref_def)
  have "moves sample_holder sample_ref (2, [], [(sample_holder, 3, [sample_ref], [])])" by (simp add: moves_def debits_of_def credits_of_def)
  moreover have "(2, [], [(sample_holder, 3, [sample_ref], [])]) \<in> set sample_changes" by (simp add: sample_changes_def)
  moreover have "knows sample_tip sample_tokens sample_ref" by (simp add: knows_def sample_tokens_def)
  ultimately have "current_balance (sample_tip\<lparr>utxo_db := apply_batch ops' (apply_batch ops [])\<rparr>) (pack_balance_key sample_holder sample_ref) s2
      = current_balance sample_tip (pack_balance_key sample_holder sample_ref) sample_tokens"
    using token_undo_reverts_to_flush [OF sample_tokens_fresh(1) sample_changes_ok _ _ _ _ f(1), of "sample_tip\<lparr>utxo_db := apply_batch ops []\<rparr>" 2
        ops' s2 sample_holder sample_ref "(2, [], [(sample_holder, 3, [sample_ref], [])])"] f(2) l by auto
  then show ?thesis using f sample_balance_steps(2) by (auto simp: current_balance_def sample_tokens_def)
qed

end
