(* ===== verification/Utf8.thy ===== *)
theory Utf8
  imports PyData
begin

text \<open>
  Python's UTF-8 codec as the indexes use it: \<open>str.encode('utf-8')\<close>, and \<open>bytes.decode('utf-8')\<close> with
  the error handlers \<open>strict\<close> and \<open>replace\<close>. A decoding error covers the longest prefix of a
  well-formed sequence, as in CPython.
\<close>

section \<open>Encoding\<close>

definition scalar_value :: "nat \<Rightarrow> bool" where
  "scalar_value c \<longleftrightarrow> c < 55296 \<or> 57344 \<le> c \<and> c < 1114112"

definition utf8_char :: "nat \<Rightarrow> bytes" where
  "utf8_char c =
     (if c < 128 then [of_nat c]
      else if c < 2048 then [of_nat (192 + c div 64), of_nat (128 + c mod 64)]
      else if c < 65536 then [of_nat (224 + c div 4096), of_nat (128 + c div 64 mod 64), of_nat (128 + c mod 64)]
      else [of_nat (240 + c div 262144), of_nat (128 + c div 4096 mod 64), of_nat (128 + c div 64 mod 64), of_nat (128 + c mod 64)])"

text \<open>A lone surrogate raises \<open>UnicodeEncodeError\<close>, a \<open>ValueError\<close>.\<close>

definition utf8_encode :: "pystr \<Rightarrow> bytes res" where
  "utf8_encode s = (if list_all scalar_value s then Inr (concat (map utf8_char s)) else Inl ValueError)"

section \<open>Decoding\<close>

text \<open>The number of continuation bytes a first byte asks for, the range of the first of them, and the
  bits the first byte contributes.\<close>

definition utf8_need :: "nat \<Rightarrow> nat option" where
  "utf8_need b =
     (if b < 128 then Some 0 else if 194 \<le> b \<and> b \<le> 223 then Some 1 else if 224 \<le> b \<and> b \<le> 239 then Some 2
      else if 240 \<le> b \<and> b \<le> 244 then Some 3 else None)"

definition utf8_second :: "nat \<Rightarrow> nat \<Rightarrow> bool" where
  "utf8_second b c \<longleftrightarrow> 128 \<le> c \<and> c < 192 \<and> (b = 224 \<longrightarrow> 160 \<le> c) \<and> (b = 237 \<longrightarrow> c < 160)
     \<and> (b = 240 \<longrightarrow> 144 \<le> c) \<and> (b = 244 \<longrightarrow> c < 144)"

definition utf8_lead :: "nat \<Rightarrow> nat" where
  "utf8_lead b = (if b < 128 then b else if b < 224 then b - 192 else if b < 240 then b - 224 else b - 240)"

definition utf8_value :: "nat \<Rightarrow> nat list \<Rightarrow> nat" where
  "utf8_value b cs = foldl (\<lambda>acc c. acc * 64 + (c - 128)) (utf8_lead b) cs"

text \<open>The bytes after the first one that continue it, as far as they are wanted.\<close>

definition utf8_tail :: "nat \<Rightarrow> nat \<Rightarrow> nat list \<Rightarrow> nat list" where
  "utf8_tail b need cs =
     (case take need cs of [] \<Rightarrow> []
      | c # r \<Rightarrow> if utf8_second b c then c # takeWhile (\<lambda>c. 128 \<le> c \<and> c < 192) r else [])"

text \<open>One character or one error from the front.\<close>

definition utf8_next :: "nat \<Rightarrow> nat list \<Rightarrow> nat option \<times> nat list" where
  "utf8_next b cs =
     (case utf8_need b of None \<Rightarrow> (None, cs)
      | Some need \<Rightarrow> let t = utf8_tail b need cs in
          (if length t = need then Some (utf8_value b t) else None, drop (length t) cs))"

function utf8_scan :: "nat list \<Rightarrow> nat option list" where
  "utf8_scan [] = []"
| "utf8_scan (b # cs) = fst (utf8_next b cs) # utf8_scan (snd (utf8_next b cs))"
  by pat_completeness auto
termination
  by (relation "measure length") (auto simp: utf8_next_def Let_def split: option.split)

definition utf8_strict :: "bytes \<Rightarrow> pystr res" where
  "utf8_strict bs = (let cs = utf8_scan (map unat bs) in if None \<in> set cs then Inl ValueError else Inr (map the cs))"

definition utf8_replace :: "bytes \<Rightarrow> pystr" where
  "utf8_replace bs = map (\<lambda>c. case c of Some c \<Rightarrow> c | None \<Rightarrow> 65533) (utf8_scan (map unat bs))"

section \<open>What is encoded decodes back\<close>

text \<open>The bytes of a character as numbers, case by case.\<close>

lemma utf8_char_nats:
  "c < 128 \<Longrightarrow> map unat (utf8_char c) = [c]"
  "128 \<le> c \<Longrightarrow> c < 2048 \<Longrightarrow> map unat (utf8_char c) = [192 + c div 64, 128 + c mod 64]"
  "2048 \<le> c \<Longrightarrow> c < 65536 \<Longrightarrow> map unat (utf8_char c) = [224 + c div 4096, 128 + c div 64 mod 64, 128 + c mod 64]"
  "65536 \<le> c \<Longrightarrow> c < 1114112 \<Longrightarrow>
     map unat (utf8_char c) = [240 + c div 262144, 128 + c div 4096 mod 64, 128 + c div 64 mod 64, 128 + c mod 64]"
proof -
  have m: "c mod 64 < 64" "c div 64 mod 64 < 64" "c div 4096 mod 64 < 64" by simp_all
  show "c < 128 \<Longrightarrow> map unat (utf8_char c) = [c]" by (simp add: utf8_char_def)
  show "map unat (utf8_char c) = [192 + c div 64, 128 + c mod 64]" if "128 \<le> c" "c < 2048"
  proof -
    have "c div 64 < 32" using that by simp
    with that m show ?thesis by (simp add: utf8_char_def del: of_nat_add of_nat_numeral)
  qed
  show "map unat (utf8_char c) = [224 + c div 4096, 128 + c div 64 mod 64, 128 + c mod 64]" if "2048 \<le> c" "c < 65536"
  proof -
    have "c div 4096 < 16" using that by simp
    with that m show ?thesis by (simp add: utf8_char_def del: of_nat_add of_nat_numeral)
  qed
  show "map unat (utf8_char c) = [240 + c div 262144, 128 + c div 4096 mod 64, 128 + c div 64 mod 64, 128 + c mod 64]"
    if "65536 \<le> c" "c < 1114112"
  proof -
    have "c div 262144 < 5" using that by simp
    with that m show ?thesis by (simp add: utf8_char_def del: of_nat_add of_nat_numeral)
  qed
qed

lemma utf8_next_char:
  assumes "scalar_value c"
  shows "\<exists>b cs. map unat (utf8_char c) = b # cs \<and> utf8_next b (cs @ rest) = (Some c, rest)"
proof -
  define x y z w where "x = c mod 64" and "y = c div 64 mod 64" and "z = c div 4096 mod 64" and "w = c div 262144"
  have d: "c = x + 64 * (c div 64)" "c div 64 = y + 64 * (c div 4096)" "c div 4096 = z + 64 * w"
    unfolding x_def y_def z_def w_def
    using mod_mult_div_eq [of c 64] mod_mult_div_eq [of "c div 64" 64] mod_mult_div_eq [of "c div 4096" 64]
    by (simp_all flip: div_mult2_eq)
  have m: "x < 64" "y < 64" "z < 64" by (simp_all add: x_def y_def z_def)
  note defs = utf8_next_def utf8_need_def utf8_tail_def utf8_value_def utf8_lead_def utf8_second_def Let_def
  consider "c < 128" | "128 \<le> c" "c < 2048" | "2048 \<le> c" "c < 65536" | "65536 \<le> c" "c < 1114112"
    using assms by (fastforce simp: scalar_value_def)
  then show ?thesis
  proof cases
    case 1
    then show ?thesis by (simp add: utf8_char_nats(1) defs)
  next
    case 2
    define q where "q = c div 64"
    have "2 \<le> q" "q < 32" using 2 by (simp_all add: q_def)
    with m d(1) show ?thesis unfolding utf8_char_nats(2) [OF 2] x_def [symmetric] q_def [symmetric] by (simp add: defs)
  next
    case 3
    define q where "q = c div 4096"
    have "q < 16" using 3 by (simp add: q_def)
    moreover have e: "c = x + 64 * (y + 64 * q)" using d(1,2) by (simp add: q_def)
    moreover have "32 \<le> y" if "q = 0" using 3(1) m(1) unfolding e that by presburger
    moreover have "y < 32" if "q = 13"
    proof -
      have "c < 57344" using m(1,2) unfolding e that by presburger
      with assms have "c < 55296" unfolding scalar_value_def by linarith
      then show ?thesis unfolding e that by presburger
    qed
    ultimately show ?thesis
      using m unfolding utf8_char_nats(3) [OF 3] x_def [symmetric] y_def [symmetric] q_def [symmetric] by (simp add: defs)
  next
    case 4
    have "w < 5" using 4 by (simp add: w_def)
    moreover have e: "c = x + 64 * (y + 64 * (z + 64 * w))" using d by simp
    moreover have "16 \<le> c div 4096" "c div 4096 < 272" using 4 by (simp_all add: less_eq_div_iff_mult_less_eq div_less_iff_less_mult)
    then have "w = 0 \<Longrightarrow> 16 \<le> z" "w = 4 \<Longrightarrow> z < 16" using d(3) by simp_all
    ultimately show ?thesis
      using m unfolding utf8_char_nats(4) [OF 4] x_def [symmetric] y_def [symmetric] z_def [symmetric] w_def [symmetric]
      by (simp add: defs)
  qed
qed

lemma utf8_scan_char:
  assumes "scalar_value c"
  shows "utf8_scan (map unat (utf8_char c) @ rest) = Some c # utf8_scan rest"
proof -
  from utf8_next_char [OF assms, of rest] obtain b cs where
      "map unat (utf8_char c) = b # cs" "utf8_next b (cs @ rest) = (Some c, rest)"
    by (elim exE conjE)
  then show ?thesis by (simp add: utf8_scan.simps)
qed

lemma utf8_scan_encoded: "list_all scalar_value s \<Longrightarrow> utf8_scan (map unat (concat (map utf8_char s))) = map Some s"
  by (induction s) (simp_all add: utf8_scan_char del: utf8_scan.simps(2))

lemma utf8_encode_decode:
  assumes "utf8_encode s = Inr bs"
  shows "utf8_strict bs = Inr s" and "utf8_replace bs = s"
  using assms utf8_scan_encoded [of s]
  by (auto simp: utf8_encode_def utf8_strict_def utf8_replace_def comp_def split: if_splits)

section \<open>What decodes encodes back\<close>

lemma utf8_tail_full:
  assumes "length (utf8_tail b need cs) = need"
  shows "need \<le> length cs \<and> utf8_tail b need cs = take need cs
    \<and> (\<forall>c r. take need cs = c # r \<longrightarrow> utf8_second b c \<and> (\<forall>x \<in> set r. 128 \<le> x \<and> x < 192))"
proof (cases "take need cs")
  case Nil
  then have "utf8_tail b need cs = []" by (simp only: utf8_tail_def list.case)
  with assms have "need = 0" by simp
  then show ?thesis using Nil by (simp add: utf8_tail_def)
next
  case (Cons c r)
  let ?w = "takeWhile (\<lambda>c. 128 \<le> c \<and> c < 192) r"
  have n: "need = Suc (length r)" if "length ?w = length r"
    using assms Cons that by (simp add: utf8_tail_def split: if_splits)
  have le: "Suc (length r) \<le> need" using Cons by (metis length_Cons length_take min.cobounded2)
  have ok: "utf8_second b c" "Suc (length ?w) = need" using assms Cons le by (auto simp: utf8_tail_def split: if_splits)
  have "length ?w \<le> length r" by (rule length_takeWhile_le)
  with ok(2) le have l: "length ?w = length r" by simp
  then have w: "?w = r" by (metis takeWhile_eq_take take_all order_refl)
  have "length (take need cs) = need" using Cons n [OF l] by simp
  then have "need \<le> length cs" by simp
  moreover have "\<forall>x \<in> set r. 128 \<le> x \<and> x < 192" using w by (metis set_takeWhileD)
  ultimately show ?thesis using Cons ok(1) w by (simp add: utf8_tail_def)
qed

lemma digit_64: "d < 64 \<Longrightarrow> (a * 64 + d) div 64 = a" "d < 64 \<Longrightarrow> (a * 64 + d) mod 64 = d" for a d :: nat
  by simp_all

text \<open>A decoded character is a scalar value, and the bytes consumed are its encoding.\<close>

lemma utf8_next_Some:
  assumes "utf8_next b cs = (Some c, rest)" and "b < 256"
  shows "scalar_value c \<and> b # cs = map unat (utf8_char c) @ rest"
proof -
  from assms(1) obtain need where need: "utf8_need b = Some need" and t: "length (utf8_tail b need cs) = need"
      "c = utf8_value b (utf8_tail b need cs)" "rest = drop need cs"
    by (auto simp: utf8_next_def Let_def split: option.splits if_splits)
  note full = utf8_tail_full [OF t(1)]
  have c: "c = utf8_value b (take need cs)" using full t(2) by simp
  have cs: "cs = take need cs @ rest" using t(3) by simp
  consider "need = 0" "b < 128" | "need = 1" "194 \<le> b" "b \<le> 223" | "need = 2" "224 \<le> b" "b \<le> 239" | "need = 3" "240 \<le> b" "b \<le> 244"
    using need by (auto simp: utf8_need_def split: if_splits)
  then show ?thesis
  proof cases
    case 1
    then show ?thesis using c cs by (simp add: utf8_value_def utf8_lead_def utf8_char_nats(1) scalar_value_def)
  next
    case 2
    then obtain x where x: "take need cs = [x]" using full by (cases cs) auto
    with full have b: "128 \<le> x" "x < 192" by (auto simp: utf8_second_def)
    have e: "c = (b - 192) * 64 + (x - 128)" using c x 2 by (simp add: utf8_value_def utf8_lead_def)
    have "x - 128 < 64" using b by simp
    then have "c div 64 = b - 192" "c mod 64 = x - 128" unfolding e by (rule digit_64)+
    moreover have "128 \<le> c" "c < 2048" using b 2 unfolding e by presburger+
    ultimately show ?thesis using cs x b 2 by (simp add: utf8_char_nats(2) scalar_value_def)
  next
    case 3
    then obtain x y where x: "take need cs = [x, y]" using full by (cases cs; cases "tl cs") (auto simp: numeral_2_eq_2)
    with full have b: "utf8_second b x" "128 \<le> x" "x < 192" "128 \<le> y" "y < 192" by (auto simp: utf8_second_def)
    have e: "c = ((b - 224) * 64 + (x - 128)) * 64 + (y - 128)" using c x 3 by (simp add: utf8_value_def utf8_lead_def)
    have d: "c div 64 = (b - 224) * 64 + (x - 128)" "c mod 64 = y - 128"
      unfolding e by (rule digit_64, use b in simp)+
    have "c div 4096 = c div 64 div 64" by (simp flip: div_mult2_eq)
    then have d2: "c div 4096 = b - 224" "c div 64 mod 64 = x - 128"
      unfolding d using b digit_64 [of "x - 128" "b - 224"] by simp_all
    have "32 \<le> c div 64" "c div 4096 < 16" "c div 64 < 864 \<or> 14 \<le> c div 4096"
      using b 3 unfolding d d2 utf8_second_def by presburger+
    then have r: "2048 \<le> c" "c < 65536" "c < 55296 \<or> 57344 \<le> c"
      by (simp_all add: less_eq_div_iff_mult_less_eq div_less_iff_less_mult)
    show ?thesis unfolding utf8_char_nats(3) [OF r(1,2)] using cs x b 3 d d2 r by (simp add: scalar_value_def)
  next
    case 4
    then obtain x y z where x: "take need cs = [x, y, z]"
      using full by (cases cs; cases "tl cs"; cases "tl (tl cs)") (auto simp: numeral_3_eq_3)
    with full have b: "utf8_second b x" "128 \<le> x" "x < 192" "128 \<le> y" "y < 192" "128 \<le> z" "z < 192" by (auto simp: utf8_second_def)
    have e: "c = (((b - 240) * 64 + (x - 128)) * 64 + (y - 128)) * 64 + (z - 128)" using c x 4 by (simp add: utf8_value_def utf8_lead_def)
    have d: "c div 64 = ((b - 240) * 64 + (x - 128)) * 64 + (y - 128)" "c mod 64 = z - 128"
      unfolding e by (rule digit_64, use b in simp)+
    have "c div 4096 = c div 64 div 64" by (simp flip: div_mult2_eq)
    then have d2: "c div 4096 = (b - 240) * 64 + (x - 128)" "c div 64 mod 64 = y - 128"
      unfolding d using b digit_64 [of "y - 128" "(b - 240) * 64 + (x - 128)"] by simp_all
    have "c div 262144 = c div 4096 div 64" by (simp flip: div_mult2_eq)
    then have d3: "c div 262144 = b - 240" "c div 4096 mod 64 = x - 128"
      unfolding d2 using b digit_64 [of "x - 128" "b - 240"] by simp_all
    have "16 \<le> c div 4096" "c div 4096 < 272" using b 4 unfolding d2 utf8_second_def by presburger+
    then have r: "65536 \<le> c" "c < 1114112" by (simp_all add: less_eq_div_iff_mult_less_eq div_less_iff_less_mult)
    show ?thesis unfolding utf8_char_nats(4) [OF r] using cs x b 4 d d2 d3 r by (simp add: scalar_value_def)
  qed
qed

lemma utf8_scan_Some:
  "\<forall>b \<in> set bs. b < 256 \<Longrightarrow> None \<notin> set (utf8_scan bs) \<Longrightarrow>
   list_all scalar_value (map the (utf8_scan bs)) \<and> bs = map unat (concat (map utf8_char (map the (utf8_scan bs))))"
proof (induction bs rule: utf8_scan.induct)
  case (2 b cs)
  obtain c rest where n: "utf8_next b cs = (Some c, rest)"
    using 2(3) by (cases "utf8_next b cs"; cases "fst (utf8_next b cs)") auto
  from utf8_next_Some [OF n] 2(2) have s: "scalar_value c" "b # cs = map unat (utf8_char c) @ rest" by simp_all
  have "set rest \<subseteq> set (b # cs)" unfolding s(2) by simp
  then have "\<forall>b \<in> set rest. b < 256" using 2(2) by blast
  with 2(1,3) n have "list_all scalar_value (map the (utf8_scan rest)) \<and> rest = map unat (concat (map utf8_char (map the (utf8_scan rest))))"
    by simp
  moreover have "utf8_scan (b # cs) = Some c # utf8_scan rest" using n by simp
  ultimately show ?case using s by (simp del: utf8_scan.simps)
qed simp

lemma utf8_strict_encode: "utf8_strict bs = Inr s \<Longrightarrow> utf8_encode s = Inr bs"
proof -
  assume s: "utf8_strict bs = Inr s"
  then have n: "None \<notin> set (utf8_scan (map unat bs))" and s': "s = map the (utf8_scan (map unat bs))"
    by (auto simp: utf8_strict_def Let_def split: if_splits)
  have "\<forall>b \<in> set (map unat bs). b < 256" by auto
  from utf8_scan_Some [OF this n] have "list_all scalar_value s" "map unat bs = map unat (concat (map utf8_char s))"
    unfolding s' by blast+
  moreover have "inj (unat :: byte \<Rightarrow> nat)" by (rule injI) (rule word_unat_eq_iff [THEN iffD2])
  ultimately show ?thesis by (simp add: utf8_encode_def inj_map_eq_map)
qed

end
