(* ===== verification/PushChunks.thy ===== *)
theory PushChunks
  imports Prelude
begin

text \<open>
  The reading of an \<open>OP_RETURN\<close> script as a list of chunks, as \<open>_parse_script_chunks\<close> of
  \<open>server/predict_index.py\<close> and of \<open>server/swap_index.py\<close> do it.
\<close>

section \<open>Chunks of a script\<close>

text \<open>The operand of a push opcode (1 to 78): its length and what follows, or \<open>None\<close> when the length
  field is cut off.\<close>

definition chunk_operand :: "nat \<Rightarrow> bytes \<Rightarrow> (nat \<times> bytes) option" where
  "chunk_operand op rest =
     (if op \<le> 75 then Some (op, rest)
      else if op = 76 then (case rest of [] \<Rightarrow> None | len # r \<Rightarrow> Some (unat len, r))
      else let w = (if op = 77 then 2 else 4) in
        if length rest < w then None else Some (le_dec (take w rest), drop w rest))"

lemma chunk_operand_shrinks: "chunk_operand op rest = Some (n, r) \<Longrightarrow> length r \<le> length rest"
  by (auto simp: chunk_operand_def Let_def split: if_splits list.splits)

text \<open>The loops of \<open>predict_index\<close> and \<open>swap_index\<close> differ in the chunk they make of a bare opcode.\<close>

function script_chunks :: "(byte \<Rightarrow> bytes) \<Rightarrow> bytes \<Rightarrow> bytes list" where
  "script_chunks bare [] = []"
| "script_chunks bare (b # rest) =
     (let op = unat b in
      if op = 106 \<or> op = 0 then [b] # script_chunks bare rest
      else if op \<le> 78 then
        (case chunk_operand op rest of None \<Rightarrow> []
         | Some (len, r) \<Rightarrow> if len \<le> length r then take len r # script_chunks bare (drop len r) else [])
      else bare b # script_chunks bare rest)"
  by pat_completeness auto
termination
  by (relation "measure (\<lambda>(bare, s). length s)") (auto dest: chunk_operand_shrinks)

text \<open>An output of pushes only is read back as its data.\<close>

lemma script_chunks_push:
  assumes "1 \<le> length data" and "length data \<le> 75"
  shows "script_chunks bare (of_nat (length data) # data @ rest) = data # script_chunks bare rest"
proof -
  have "unat (of_nat (length data) :: byte) = length data" using assms by simp
  moreover have "data \<noteq> []" using assms(1) by auto
  ultimately show ?thesis using assms by (simp add: chunk_operand_def Let_def)
qed

end
