(* ===== verification/Markets.thy ===== *)
theory Markets
  imports UndoLog Utf8 PushChunks Chain
begin

text \<open>
  \<open>electrumx/server/predict_index.py\<close>: the directory of prediction markets. A transaction announces a
  market in an output anyone can write; the index believes it only when the transaction spends the
  outpoint the market is named after and its first three outputs are the market and its two anchors.
\<close>

section \<open>The beacon\<close>

definition market_chunks :: "bytes \<Rightarrow> bytes list" where
  "market_chunks script = script_chunks (\<lambda>b. [b]) script"

definition OP_RETURN :: nat where "OP_RETURN = 106"
definition OP_STATESEPARATOR :: nat where "OP_STATESEPARATOR = 189"
definition SINGLETON_PUSH :: bytes where "SINGLETON_PUSH = [216]"
definition RMKT_MAGIC :: bytes where "RMKT_MAGIC = [82, 77, 75, 84]"
definition RMKT_VERSION :: nat where "RMKT_VERSION = 1"
definition STATE_LEN :: nat where "STATE_LEN = 42"
definition STATE_LEN_OPT :: nat where "STATE_LEN_OPT = 102"
definition QUESTION_MAX_BYTES :: nat where "QUESTION_MAX_BYTES = 1024"

record beacon =
  b_market_ref :: bytes
  b_yes_ref :: bytes
  b_no_ref :: bytes
  b_expiry :: nat
  b_grace :: nat
  b_oracle :: bytes
  b_question :: pystr

text \<open>A question that is not UTF-8 raises inside the \<open>try\<close>.\<close>

definition parse_market_beacon :: "bytes \<Rightarrow> beacon option" where
  "parse_market_beacon script =
     (if script = [] \<or> unat (hd script) \<noteq> OP_RETURN then None
      else let c = market_chunks script in
        if length c < 10 \<or> c ! 1 \<noteq> RMKT_MAGIC then None
        else if length (c ! 2) \<noteq> 1 \<or> unat (c ! 2 ! 0) \<noteq> RMKT_VERSION then None
        else if length (c ! 3) \<noteq> 36 \<or> length (c ! 4) \<noteq> 36 \<or> length (c ! 5) \<noteq> 36 then None
        else if length (c ! 6) \<noteq> 4 \<or> length (c ! 7) \<noteq> 4 \<or> length (c ! 8) \<noteq> 33 then None
        else if QUESTION_MAX_BYTES < length (c ! 9) then None
        else case utf8_strict (c ! 9) of Inl _ \<Rightarrow> None
        | Inr question \<Rightarrow>
          if question = [] then None
          else Some \<lparr>b_market_ref = c ! 3, b_yes_ref = c ! 4, b_no_ref = c ! 5, b_expiry = le_dec (c ! 6),
                     b_grace = le_dec (c ! 7), b_oracle = c ! 8, b_question = question\<rparr>)"

section \<open>The outputs\<close>

definition MARKER :: bytes where "MARKER = zero_bytes 20"

text \<open>The length of the first push and where its data starts.\<close>

definition stateful_push :: "bytes \<Rightarrow> (nat \<times> nat) option" where
  "stateful_push script =
     (let op = unat (script ! 0) in
      if 1 \<le> op \<and> op \<le> 75 then Some (op, 1)
      else if op = 76 then Some (unat (script ! 1), 2)
      else if op = 77 then if length script < 3 then None else Some (le_dec (slice 1 3 script), 3)
      else None)"

definition parse_stateful :: "bytes \<Rightarrow> (bytes \<times> bytes) option" where
  "parse_stateful script =
     (if length script < 2 then None
      else case stateful_push script of None \<Rightarrow> None
      | Some (len, pos) \<Rightarrow>
        if length script \<le> pos + len \<or> unat (script ! (pos + len)) \<noteq> OP_STATESEPARATOR then None
        else Some (slice pos (pos + len) script, drop (pos + len + 1) script))"

record market_state =
  ms_status :: nat
  ms_expiry :: nat
  ms_grace :: nat
  ms_oracle :: bytes
  ms_optimistic :: bool
  ms_code :: bytes

definition parse_singleton_state :: "bytes \<Rightarrow> market_state option" where
  "parse_singleton_state script =
     (case parse_stateful script of None \<Rightarrow> None
      | Some (state, code) \<Rightarrow>
        if length state \<noteq> STATE_LEN \<and> length state \<noteq> STATE_LEN_OPT then None
        else Some \<lparr>ms_status = unat (state ! 0), ms_expiry = le_dec (slice 1 5 state), ms_grace = le_dec (slice 5 9 state),
                   ms_oracle = slice 9 42 state, ms_optimistic = (length state = STATE_LEN_OPT), ms_code = code\<rparr>)"

text \<open>\<open>sub in b\<close> of byte strings.\<close>

fun contains :: "bytes \<Rightarrow> bytes \<Rightarrow> bool" where
  "contains sub [] \<longleftrightarrow> sub = []"
| "contains sub (x # xs) \<longleftrightarrow> starts_with sub (x # xs) \<or> contains sub xs"

definition is_anchor_for :: "bytes \<Rightarrow> bytes \<Rightarrow> bytes \<Rightarrow> bool" where
  "is_anchor_for script share_ref market_ref =
     (case parse_stateful script of None \<Rightarrow> False
      | Some (state, code) \<Rightarrow> state = MARKER \<and> contains share_ref code \<and> contains market_ref code)"

section \<open>Market records\<close>

record market_record =
  market_ref :: bytes
  yes_ref :: bytes
  no_ref :: bytes
  expiry :: int
  grace :: int
  market_oracle :: bytes
  market_status :: int
  optimistic :: bool
  question :: "pystr option"
  beacon_params_match :: bool
  create_txid :: bytes
  create_height :: int

definition flag :: "bool \<Rightarrow> int" where
  "flag b = (if b then 1 else 0)"

definition market_to_bytes :: "market_record \<Rightarrow> bytes res" where
  "market_to_bytes r =
     rbind (utf8_encode (case question r of None \<Rightarrow> [] | Some q \<Rightarrow> q)) (\<lambda>encoded.
     let q = take QUESTION_MAX_BYTES encoded in
     rbind (pack_le_uint32 (expiry r)) (\<lambda>expiry_bytes.
     rbind (pack_le_uint32 (grace r)) (\<lambda>grace_bytes.
     rbind (pack_byte (market_status r)) (\<lambda>status_byte.
     rbind (pack_byte (flag (optimistic r))) (\<lambda>optimistic_byte.
     rbind (pack_byte (flag (beacon_params_match r))) (\<lambda>match_byte.
     rbind (pack_be_uint32 (create_height r)) (\<lambda>height_bytes.
     rbind (pack_le_uint16 (int (length q))) (\<lambda>length_bytes.
       Inr (market_ref r @ yes_ref r @ no_ref r @ expiry_bytes @ grace_bytes @ status_byte @ optimistic_byte @ match_byte
         @ market_oracle r @ create_txid r @ height_bytes @ length_bytes @ q)))))))))"

text \<open>\<open>struct.unpack('<IIBBB', b[o:o + 11])\<close> wants the slice complete; the slices of the other fields
  may be short.\<close>

definition market_from_bytes :: "bytes \<Rightarrow> market_record res" where
  "market_from_bytes b =
     (if length b < 119 then Inl StructError
      else rbind (unpack_be_uint32 (slice 184 188 b)) (\<lambda>ht.
        if length (slice 188 190 b) \<noteq> 2 then Inl StructError
        else let qlen = le_dec (slice 188 190 b) in
          Inr \<lparr>market_ref = slice 0 36 b, yes_ref = slice 36 72 b, no_ref = slice 72 108 b,
               expiry = int (le_dec (slice 108 112 b)), grace = int (le_dec (slice 112 116 b)),
               market_oracle = slice 119 152 b, market_status = int (unat (b ! 116)), optimistic = (b ! 117 \<noteq> 0),
               question = (if qlen \<noteq> 0 then Some (utf8_replace (slice 190 (190 + qlen) b)) else None),
               beacon_params_match = (b ! 118 \<noteq> 0), create_txid = slice 152 184 b, create_height = int ht\<rparr>))"

text \<open>What the API shows of a record; references are shown as a reversed hash and an output number.\<close>

definition ref_hex :: "bytes \<Rightarrow> string res" where
  "ref_hex r = rbind (unpack_le_uint32 (slice 32 36 r)) (\<lambda>num. Inr (hash_to_hex_str (take 32 r) @ CHR ''_'' # digits num))"

record market_dict =
  md_market_ref :: string
  md_yes_ref :: string
  md_no_ref :: string
  md_expiry :: int
  md_grace :: int
  md_oracle :: string
  md_optimistic :: bool
  md_status_at_creation :: int
  md_question :: "pystr option"
  md_beacon_params_match :: bool
  md_create_txid :: string
  md_create_height :: int

definition market_to_dict :: "market_record \<Rightarrow> market_dict res" where
  "market_to_dict r =
     rbind (ref_hex (market_ref r)) (\<lambda>market.
     rbind (ref_hex (yes_ref r)) (\<lambda>yes.
     rbind (ref_hex (no_ref r)) (\<lambda>no.
       Inr \<lparr>md_market_ref = market, md_yes_ref = yes, md_no_ref = no, md_expiry = expiry r, md_grace = grace r,
            md_oracle = bytes_hex (market_oracle r), md_optimistic = optimistic r, md_status_at_creation = market_status r,
            md_question = question r, md_beacon_params_match = beacon_params_match r,
            md_create_txid = hash_to_hex_str (create_txid r), md_create_height = create_height r\<rparr>)))"

section \<open>The index\<close>

definition MARKET :: bytes where "MARKET = [80, 77, 109]"
definition BY_HEIGHT :: bytes where "BY_HEIGHT = [80, 77, 104]"
definition MARKET_UNDO :: bytes where "MARKET_UNDO = [80, 77, 117]"

record markets =
  mk_enabled :: bool
  market_cache :: "(bytes, market_record) dict"
  market_log :: undo_log
  market_pruned :: int

definition new_market_index :: "bool \<Rightarrow> db \<Rightarrow> markets" where
  "new_market_index enabled d =
     \<lparr>mk_enabled = enabled, market_cache = [], market_log = no_undo,
      market_pruned = (if reorg_limit d \<noteq> 0 then max 0 (db_height d - reorg_limit d + 1) - 1 else -1)\<rparr>"

fun first_beacon :: "TxOutput list \<Rightarrow> beacon option" where
  "first_beacon [] = None"
| "first_beacon (out # outs) = (case parse_market_beacon (pk_script out) of Some b \<Rightarrow> Some b | None \<Rightarrow> first_beacon outs)"

definition market_process_tx :: "(markets, 'e) overlay" where
  "market_process_tx d ctx envelope s =
     (if \<not> mk_enabled s then (s, Inr ())
      else case first_beacon (tx_outputs (ctx_tx ctx)) of None \<Rightarrow> (s, Inr ())
      | Some b \<Rightarrow>
        let ref = b_market_ref b; outs = tx_outputs (ctx_tx ctx) in
        if ref \<notin> ctx_spent_outpoints ctx then (s, Inr ())
        else if length outs < 3 then (s, Inr ())
        else case parse_singleton_state (pk_script (outs ! 0)) of None \<Rightarrow> (s, Inr ())
        | Some s0 \<Rightarrow>
          if \<not> (contains (SINGLETON_PUSH @ ref) (ms_code s0) \<and> contains (b_yes_ref b) (ms_code s0)
                 \<and> contains (b_no_ref b) (ms_code s0)) then (s, Inr ())
          else if \<not> (is_anchor_for (pk_script (outs ! 1)) (b_yes_ref b) ref
                      \<and> is_anchor_for (pk_script (outs ! 2)) (b_no_ref b) ref) then (s, Inr ())
          else
            let params_match = (b_expiry b = ms_expiry s0 \<and> b_grace b = ms_grace s0 \<and> b_oracle b = ms_oracle s0);
                rec = \<lparr>market_ref = ref, yes_ref = b_yes_ref b, no_ref = b_no_ref b, expiry = int (ms_expiry s0),
                  grace = int (ms_grace s0), market_oracle = ms_oracle s0, market_status = int (ms_status s0),
                  optimistic = ms_optimistic s0, question = Some (b_question b), beacon_params_match = params_match,
                  create_txid = ctx_tx_hash ctx, create_height = ctx_height ctx\<rparr>
            in (s\<lparr>market_cache := dict_set ref rec (market_cache s)\<rparr>, Inr ()))"

text \<open>A record that cannot be serialised is left out; a height that does not fit its key field raises
  outside the \<open>try\<close>.\<close>

definition flush_market ::
    "kv \<Rightarrow> batch_op list \<times> undo_log \<Rightarrow> bytes \<times> market_record \<Rightarrow> (batch_op list \<times> undo_log) res" where
  "flush_market kv acc entry =
     (case acc of (ops, log) \<Rightarrow> case entry of (ref, rec) \<Rightarrow>
      case market_to_bytes rec of Inl _ \<Rightarrow> Inr (ops, log)
      | Inr value \<Rightarrow>
        let mkey = MARKET @ ref in
        rbind (pack_be_uint32 (create_height rec)) (\<lambda>h.
        let hkey = BY_HEIGHT @ h @ ref in
        Inr (ops @ [Put mkey value, Put hkey []],
             record_undo kv (create_height rec) hkey (record_undo kv (create_height rec) mkey log))))"

definition market_undo_puts :: "undo_log \<Rightarrow> batch_op list res" where
  "market_undo_puts log =
     mapM (\<lambda>(ht, entries). rbind (height_key MARKET_UNDO ht) (\<lambda>k. rbind (encode_undo entries) (\<lambda>v. Inr (Put k v))))
       (filter (\<lambda>(ht, entries). entries \<noteq> []) (undo_cache log))"

definition market_flush :: "db \<Rightarrow> markets \<Rightarrow> (batch_op list \<times> markets) res" where
  "market_flush d s =
     (if \<not> mk_enabled s then Inr ([], s)
      else
        rbind (prune_undo MARKET_UNDO d (market_pruned s)) (\<lambda>(old, pruned).
        rbind (foldM (flush_market (utxo_db d)) (old, market_log s) (market_cache s)) (\<lambda>(ops, log).
        rbind (market_undo_puts log) (\<lambda>undos.
          Inr (ops @ undos, s\<lparr>market_cache := [], market_log := no_undo, market_pruned := pruned\<rparr>)))))"

definition market_backup :: "db \<Rightarrow> int \<Rightarrow> markets \<Rightarrow> (batch_op list \<times> markets) res" where
  "market_backup d ht s =
     (if \<not> mk_enabled s then Inr ([], s)
      else rbind (revert_undo MARKET_UNDO (utxo_db d) ht) (\<lambda>ops. Inr (ops, s)))"

definition market_memory_estimate :: "markets \<Rightarrow> int" where
  "market_memory_estimate s =
     (if \<not> mk_enabled s then 0
      else int (length (market_cache s)) * 260 + int (sum_list (map (length \<circ> snd) (undo_cache (market_log s)))) * 100)"

section \<open>Queries\<close>

definition get_market :: "db \<Rightarrow> markets \<Rightarrow> bytes \<Rightarrow> market_dict option res" where
  "get_market d s ref =
     (case map_of (market_cache s) ref of
        Some rec \<Rightarrow> rbind (market_to_dict rec) (\<lambda>m. Inr (Some m))
      | None \<Rightarrow>
        (case kv_get (utxo_db d) (MARKET @ ref) of
           Some (b # bs) \<Rightarrow> rbind (market_from_bytes (b # bs)) (\<lambda>rec. rbind (market_to_dict rec) (\<lambda>m. Inr (Some m)))
         | _ \<Rightarrow> Inr None))"

fun list_markets_loop :: "kv \<Rightarrow> int \<Rightarrow> int \<Rightarrow> int \<Rightarrow> market_dict list \<Rightarrow> kv \<Rightarrow> market_dict list res" where
  "list_markets_loop kv limit offset skipped out [] = Inr out"
| "list_markets_loop kv limit offset skipped out ((key, _) # rows) =
     (if skipped < offset then list_markets_loop kv limit offset (skipped + 1) out rows
      else
        rbind (case kv_get kv (MARKET @ drop (length BY_HEIGHT + 4) key) of
                 Some (b # bs) \<Rightarrow> rbind (market_from_bytes (b # bs)) (\<lambda>rec. rbind (market_to_dict rec) (\<lambda>m. Inr (out @ [m])))
               | _ \<Rightarrow> Inr out) (\<lambda>out.
        if limit \<le> int (length out) then Inr out else list_markets_loop kv limit offset skipped out rows))"

definition list_markets :: "db \<Rightarrow> int \<Rightarrow> int \<Rightarrow> market_dict list res" where
  "list_markets d limit offset =
     (let limit = max 1 (min limit 200); offset = max 0 offset in
      list_markets_loop (utxo_db d) limit offset 0 [] (kv_iter (utxo_db d) BY_HEIGHT True))"

section \<open>The record codec\<close>

definition record_ok :: "market_record \<Rightarrow> bool" where
  "record_ok r \<longleftrightarrow> length (market_ref r) = 36 \<and> length (yes_ref r) = 36 \<and> length (no_ref r) = 36
     \<and> 0 \<le> expiry r \<and> expiry r < 2 ^ 32 \<and> 0 \<le> grace r \<and> grace r < 2 ^ 32 \<and> length (market_oracle r) = 33
     \<and> 0 \<le> market_status r \<and> market_status r < 256 \<and> length (create_txid r) = 32
     \<and> 0 \<le> create_height r \<and> create_height r < 2 ^ 32
     \<and> (\<exists>q e. question r = Some q \<and> utf8_encode q = Inr e \<and> e \<noteq> [] \<and> length e \<le> QUESTION_MAX_BYTES)"

lemma pack_uint_fits: "0 \<le> n \<Longrightarrow> n < 256 ^ k \<Longrightarrow> pack_uint k n = Inr (le_enc k (nat n))"
  by (simp add: pack_uint_def)

lemma slice_full: "length xs = n \<Longrightarrow> slice 0 n xs = xs"
  by (auto simp: slice_def)

lemma slice_Cons: "0 < i \<Longrightarrow> slice i j (x # xs) = slice (i - 1) (j - 1) xs"
  by (cases i) (auto simp: slice_def)

lemma market_codec:
  assumes "record_ok r"
  shows "\<exists>v. market_to_bytes r = Inr v \<and> v \<noteq> [] \<and> market_from_bytes v = Inr r"
proof -
  from assms obtain q e where q: "question r = Some q" "utf8_encode q = Inr e" "e \<noteq> []" "length e \<le> 1024"
    by (auto simp: record_ok_def QUESTION_MAX_BYTES_def)
  note ok = assms [unfolded record_ok_def]
  let ?v = "market_ref r @ yes_ref r @ no_ref r @ le_enc 4 (nat (expiry r)) @ le_enc 4 (nat (grace r))
      @ [of_nat (nat (market_status r))] @ [of_nat (nat (flag (optimistic r)))] @ [of_nat (nat (flag (beacon_params_match r)))]
      @ market_oracle r @ create_txid r @ be_enc 4 (nat (create_height r)) @ le_enc 2 (length e) @ e"
  have b: "pack_byte n = Inr [of_nat (nat n)]" if "0 \<le> n" "n < 256" for n
    using that by (simp add: pack_byte_def pack_uint_fits)
  have "pack_byte (market_status r) = Inr [of_nat (nat (market_status r))]"
      "pack_byte (flag (optimistic r)) = Inr [of_nat (nat (flag (optimistic r)))]"
      "pack_byte (flag (beacon_params_match r)) = Inr [of_nat (nat (flag (beacon_params_match r)))]"
    using ok by (intro b; simp add: flag_def)+
  moreover have "pack_le_uint32 (expiry r) = Inr (le_enc 4 (nat (expiry r)))" "pack_le_uint32 (grace r) = Inr (le_enc 4 (nat (grace r)))"
      "pack_le_uint16 (int (length e)) = Inr (le_enc 2 (length e))"
      "pack_be_uint32 (create_height r) = Inr (be_enc 4 (nat (create_height r)))"
    using ok q(4) by (simp_all add: pack_le_uint32_def pack_le_uint16_def pack_be_uint32_def pack_uint_fits be_enc_def)
  moreover have "take QUESTION_MAX_BYTES e = e" using q(4) by (simp add: QUESTION_MAX_BYTES_def)
  ultimately have to: "market_to_bytes r = Inr ?v" by (simp add: market_to_bytes_def q)
  have len: "length ?v = 190 + length e" using ok by simp
  have flags: "(of_nat (nat (flag f)) :: byte) \<noteq> 0 \<longleftrightarrow> f" for f by (simp add: flag_def)
  have "be_dec (be_enc 4 (nat (create_height r))) = nat (create_height r)" "le_dec (le_enc 2 (length e)) = length e"
      "le_dec (le_enc 4 (nat (expiry r))) = nat (expiry r)" "le_dec (le_enc 4 (nat (grace r))) = nat (grace r)"
    using ok q(4) by (simp_all add: nat_less_iff)
  moreover have "slice 0 36 ?v = market_ref r" "slice 36 72 ?v = yes_ref r" "slice 72 108 ?v = no_ref r"
      "slice 108 112 ?v = le_enc 4 (nat (expiry r))" "slice 112 116 ?v = le_enc 4 (nat (grace r))"
      "slice 119 152 ?v = market_oracle r" "slice 152 184 ?v = create_txid r" "slice 184 188 ?v = be_enc 4 (nat (create_height r))"
      "slice 188 190 ?v = le_enc 2 (length e)" "slice 190 (190 + length e) ?v = e"
    using ok by (simp_all add: slice_append_right slice_full slice_Cons)
  moreover have "?v ! 116 = of_nat (nat (market_status r))" "?v ! 117 = of_nat (nat (flag (optimistic r)))"
      "?v ! 118 = of_nat (nat (flag (beacon_params_match r)))"
    using ok by (simp_all add: nth_append)
  moreover have "unat (of_nat (nat (market_status r)) :: byte) = nat (market_status r)"
    using ok unfolding unat_of_nat_byte by (simp add: nat_less_iff)
  ultimately have "market_from_bytes ?v = Inr r"
    unfolding market_from_bytes_def using ok q flags len utf8_encode_decode(2) [OF q(2)]
    by (simp add: unpack_be_uint32_def Let_def)
  with to len show ?thesis by (intro exI [of _ ?v]) auto
qed

section \<open>Flushing and backing up\<close>

definition market_rows :: "bytes \<times> market_record \<Rightarrow> planned" where
  "market_rows entry =
     (case entry of (ref, rec) \<Rightarrow>
      case (market_to_bytes rec, pack_be_uint32 (create_height rec)) of
        (Inr value, Inr h) \<Rightarrow>
          [(Some (create_height rec), Put (MARKET @ ref) value), (Some (create_height rec), Put (BY_HEIGHT @ h @ ref) [])]
      | _ \<Rightarrow> [])"

definition market_plan :: "markets \<Rightarrow> planned" where
  "market_plan s = concat (map market_rows (market_cache s))"

lemma flush_markets_plan:
  "foldM (flush_market kv) (ops, log) cache = Inr (ops', log') \<Longrightarrow>
   ops' = ops @ map snd (concat (map market_rows cache)) \<and> log' = log_plan kv (concat (map market_rows cache)) log"
proof (induction cache arbitrary: ops log)
  case Nil
  then show ?case by (simp add: log_plan_def)
next
  case (Cons e cache)
  obtain ref rec where e: "e = (ref, rec)" by (cases e)
  from Cons.prems obtain ops1 log1 where 1: "flush_market kv (ops, log) e = Inr (ops1, log1)"
      "foldM (flush_market kv) (ops1, log1) cache = Inr (ops', log')"
    by (auto simp: rbind_eq_Inr)
  have "ops1 = ops @ map snd (market_rows e) \<and> log1 = log_plan kv (market_rows e) log"
    using 1(1) by (cases "market_to_bytes rec") (auto simp: e flush_market_def market_rows_def log_plan_def Let_def rbind_eq_Inr)
  with Cons.IH [OF 1(2)] show ?case by (simp add: log_plan_def)
qed

definition no_empty_entry :: "undo_log \<Rightarrow> bool" where
  "no_empty_entry log \<longleftrightarrow> (\<forall>e \<in> set (undo_cache log). snd e \<noteq> [])"

lemma no_empty_record: "no_empty_entry log \<Longrightarrow> no_empty_entry (record_undo kv ht k log)"
  by (auto simp: no_empty_entry_def record_undo_def dest: dict_set_mem)

lemma no_empty_plan: "no_empty_entry log \<Longrightarrow> no_empty_entry (log_plan kv plan log)"
  unfolding log_plan_def by (induction plan arbitrary: log) (auto simp: no_empty_record split: option.split)

lemma mapM_same_set:
  assumes "mapM f xs = Inr ys" and "set xs = set zs"
  shows "\<exists>ws. mapM f zs = Inr ws \<and> set ws = set ys"
proof -
  have all: "mapM f as = Inr bs \<Longrightarrow> (\<forall>a \<in> set as. \<exists>b. f a = Inr b) \<and> bs = map (projr \<circ> f) as" for as bs
    by (induction as arbitrary: bs) (auto simp: rbind_eq_Inr)
  from all [OF assms(1)] have "\<forall>a \<in> set zs. f a = Inr ((projr \<circ> f) a)" unfolding assms(2) [symmetric] by auto
  then have "mapM f zs = Inr (map (projr \<circ> f) zs)" by (intro mapM_Inr) simp
  moreover have "set (map (projr \<circ> f) zs) = set ys" using all [OF assms(1)] assms(2) by simp
  ultimately show ?thesis by blast
qed

lemma market_undo_written:
  assumes "market_undo_puts log = Inr puts" and "no_empty_entry log"
  shows "undo_written MARKET_UNDO log puts"
proof -
  have "filter (\<lambda>(ht, entries). entries \<noteq> []) (undo_cache log) = undo_cache log"
    using assms(2) by (intro filter_True) (auto simp: no_empty_entry_def)
  with assms(1) have "mapM (\<lambda>(ht, entries). rbind (height_key MARKET_UNDO ht) (\<lambda>k. rbind (encode_undo entries) (\<lambda>v. Inr (Put k v))))
      (undo_cache log) = Inr puts" by (simp add: market_undo_puts_def)
  from mapM_same_set [OF this, of "sort_key fst (undo_cache log)"] show ?thesis
    by (auto simp: undo_written_def undo_puts_def)
qed

definition market_on :: "markets \<Rightarrow> bool" where
  "market_on s \<longleftrightarrow> mk_enabled s \<and> no_empty_entry (market_log s)"

lemma market_plan_keys: "(h, op) \<in> set (market_plan s) \<Longrightarrow> \<not> starts_with MARKET_UNDO (op_key op)"
  by (auto simp: market_plan_def market_rows_def starts_with_def MARKET_UNDO_def MARKET_def BY_HEIGHT_def split: sum.splits)

interpretation market_undo: undo_logged MARKET_UNDO "\<lambda>d. market_plan" market_log market_on market_flush market_backup
proof
  fix d s ops s'
  assume on: "market_on s" and "market_flush d s = Inr (ops, s')"
  then obtain old n ops1 log puts where f: "prune_undo MARKET_UNDO d (market_pruned s) = Inr (old, n)"
      "foldM (flush_market (utxo_db d)) (old, market_log s) (market_cache s) = Inr (ops1, log)"
      "market_undo_puts log = Inr puts" "ops = ops1 @ puts"
    by (auto simp: market_on_def market_flush_def rbind_eq_Inr)
  from flush_markets_plan [OF f(2)] have p: "ops1 = old @ map snd (market_plan s)" "log = log_plan (utxo_db d) (market_plan s) (market_log s)"
    by (simp_all add: market_plan_def)
  have "undo_written MARKET_UNDO log puts"
    using on unfolding market_on_def p(2) by (intro market_undo_written no_empty_plan) (use f(3) p(2) in simp_all)
  with f(1,4) p show "\<exists>old n puts. prune_undo MARKET_UNDO d n = Inr old
      \<and> undo_written MARKET_UNDO (log_plan (utxo_db d) (market_plan s) (market_log s)) puts
      \<and> ops = fst old @ map snd (market_plan s) @ puts" by fastforce
next
  fix d ht s ops s'
  assume "market_on s" "market_backup d ht s = Inr (ops, s')"
  then show "revert_undo MARKET_UNDO (utxo_db d) ht = Inr ops" by (auto simp: market_on_def market_backup_def rbind_eq_Inr)
qed (rule market_plan_keys)

section \<open>What is recorded\<close>

lemma parse_stateful_split:
  assumes "parse_stateful script = Some (state, code)"
  shows "\<exists>push. script = push @ state @ of_nat OP_STATESEPARATOR # code \<and> length push \<le> 3"
proof -
  from assms obtain len pos where h: "stateful_push script = Some (len, pos)" and p: "pos + len < length script"
      "unat (script ! (pos + len)) = OP_STATESEPARATOR" "state = slice pos (pos + len) script" "code = drop (pos + len + 1) script"
    by (auto simp: parse_stateful_def split: if_splits option.splits)
  have pos: "pos \<le> 3" using h by (auto simp: stateful_push_def Let_def split: if_splits)
  have "script ! (pos + len) = of_nat OP_STATESEPARATOR" unfolding p(2) [symmetric] by simp
  then have "drop (pos + len) script = of_nat OP_STATESEPARATOR # code" using p(1,4) by (simp add: Cons_nth_drop_Suc [symmetric])
  moreover have "script = take pos script @ state @ drop (pos + len) script"
    unfolding p(3) slice_def by (metis append_take_drop_id drop_drop add.commute add_diff_cancel_left')
  ultimately have "script = take pos script @ state @ of_nat OP_STATESEPARATOR # code" by simp
  moreover have "length (take pos script) \<le> 3" using pos by simp
  ultimately show ?thesis by (intro exI [of _ "take pos script"] conjI)
qed

lemma beacon_fields:
  assumes "parse_market_beacon script = Some b"
  shows "length (b_market_ref b) = 36 \<and> length (b_yes_ref b) = 36 \<and> length (b_no_ref b) = 36
    \<and> (\<exists>e. utf8_encode (b_question b) = Inr e \<and> e \<noteq> [] \<and> length e \<le> QUESTION_MAX_BYTES)"
proof -
  let ?c = "market_chunks script"
  from assms obtain q where q: "utf8_strict (?c ! 9) = Inr q" "q \<noteq> []" "length (?c ! 9) \<le> QUESTION_MAX_BYTES"
      "length (?c ! 3) = 36" "length (?c ! 4) = 36" "length (?c ! 5) = 36"
      "b_question b = q" "b_market_ref b = ?c ! 3" "b_yes_ref b = ?c ! 4" "b_no_ref b = ?c ! 5"
    unfolding parse_market_beacon_def Let_def by (auto split: if_splits sum.splits)
  have "utf8_encode q = Inr (?c ! 9)" by (rule utf8_strict_encode [OF q(1)])
  moreover have "?c ! 9 \<noteq> []" using q(1,2) by (auto simp: utf8_strict_def)
  ultimately show ?thesis using q by auto
qed

lemma first_beacon_parsed: "first_beacon outs = Some b \<Longrightarrow> \<exists>out \<in> set outs. parse_market_beacon (pk_script out) = Some b"
  by (induction outs) (auto split: option.splits)

lemma singleton_state_fields:
  assumes "parse_singleton_state script = Some st"
  shows "ms_expiry st < 2 ^ 32 \<and> ms_grace st < 2 ^ 32 \<and> length (ms_oracle st) = 33 \<and> ms_status st < 256"
proof -
  from assms obtain state code where "parse_stateful script = Some (state, code)"
    by (auto simp: parse_singleton_state_def split: option.splits)
  with assms have s: "42 \<le> length state" "ms_expiry st = le_dec (slice 1 5 state)" "ms_grace st = le_dec (slice 5 9 state)"
      "ms_oracle st = slice 9 42 state" "ms_status st = unat (state ! 0)"
    by (auto simp: parse_singleton_state_def STATE_LEN_def STATE_LEN_OPT_def split: if_splits)
  have "length (slice 1 5 state) = 4" "length (slice 5 9 state) = 4" using s(1) by simp_all
  with le_dec_bound [of "slice 1 5 state"] le_dec_bound [of "slice 5 9 state"] s show ?thesis by simp
qed

text \<open>A recorded market: its outpoint is spent by the transaction, the first output is a state followed
  by code that names the three references, the next two are anchors, and what is stored of its terms is
  that state.\<close>

definition genuine_market :: "tx_ctx \<Rightarrow> market_record \<Rightarrow> bool" where
  "genuine_market ctx rec \<longleftrightarrow> market_ref rec \<in> ctx_spent_outpoints ctx \<and> create_txid rec = ctx_tx_hash ctx
     \<and> create_height rec = ctx_height ctx
     \<and> (\<exists>out0 out1 out2 outs push state code st. tx_outputs (ctx_tx ctx) = out0 # out1 # out2 # outs
        \<and> pk_script out0 = push @ state @ of_nat OP_STATESEPARATOR # code \<and> length push \<le> 3
        \<and> parse_singleton_state (pk_script out0) = Some st
        \<and> expiry rec = int (ms_expiry st) \<and> grace rec = int (ms_grace st) \<and> market_oracle rec = ms_oracle st
        \<and> market_status rec = int (ms_status st) \<and> optimistic rec = ms_optimistic st
        \<and> contains (SINGLETON_PUSH @ market_ref rec) code \<and> contains (yes_ref rec) code \<and> contains (no_ref rec) code
        \<and> is_anchor_for (pk_script out1) (yes_ref rec) (market_ref rec)
        \<and> is_anchor_for (pk_script out2) (no_ref rec) (market_ref rec))"

definition market_ctx_ok :: "tx_ctx \<Rightarrow> bool" where
  "market_ctx_ok ctx \<longleftrightarrow> 0 \<le> ctx_height ctx \<and> ctx_height ctx < 2 ^ 32 \<and> length (ctx_tx_hash ctx) = 32"

lemma market_process_tx_cases:
  "market_process_tx d ctx env s = (s, Inr ())
   \<or> (\<exists>rec. market_process_tx d ctx env s = (s\<lparr>market_cache := dict_set (market_ref rec) rec (market_cache s)\<rparr>, Inr ())
        \<and> genuine_market ctx rec \<and> (market_ctx_ok ctx \<longrightarrow> record_ok rec))"
proof (cases "fst (market_process_tx d ctx env s) = s")
  case True
  then show ?thesis
    by (cases "market_process_tx d ctx env s") (auto simp: market_process_tx_def Let_def split: if_splits option.splits)
next
  case False
  let ?outs = "tx_outputs (ctx_tx ctx)"
  from False have on: "mk_enabled s" by (cases "mk_enabled s") (simp_all add: market_process_tx_def)
  then obtain b where b: "first_beacon ?outs = Some b" using False by (cases "first_beacon ?outs") (simp_all add: market_process_tx_def)
  let ?ref = "b_market_ref b"
  obtain st where st: "parse_singleton_state (pk_script (?outs ! 0)) = Some st"
    using False on b by (cases "parse_singleton_state (pk_script (?outs ! 0))") (simp_all add: market_process_tx_def Let_def)
  have g: "?ref \<in> ctx_spent_outpoints ctx" "3 \<le> length ?outs"
      "contains (SINGLETON_PUSH @ ?ref) (ms_code st)" "contains (b_yes_ref b) (ms_code st)" "contains (b_no_ref b) (ms_code st)"
      "is_anchor_for (pk_script (?outs ! 1)) (b_yes_ref b) ?ref" "is_anchor_for (pk_script (?outs ! 2)) (b_no_ref b) ?ref"
    using False on b st by (simp_all add: market_process_tx_def Let_def split: if_splits)
  let ?rec = "\<lparr>market_ref = ?ref, yes_ref = b_yes_ref b, no_ref = b_no_ref b, expiry = int (ms_expiry st),
      grace = int (ms_grace st), market_oracle = ms_oracle st, market_status = int (ms_status st),
      optimistic = ms_optimistic st, question = Some (b_question b),
      beacon_params_match = (b_expiry b = ms_expiry st \<and> b_grace b = ms_grace st \<and> b_oracle b = ms_oracle st),
      create_txid = ctx_tx_hash ctx, create_height = ctx_height ctx\<rparr>"
  have run: "market_process_tx d ctx env s = (s\<lparr>market_cache := dict_set ?ref ?rec (market_cache s)\<rparr>, Inr ())"
    using on b st g by (simp add: market_process_tx_def Let_def)
  obtain out0 out1 out2 outs where outs: "?outs = out0 # out1 # out2 # outs"
    using g(2) by (cases ?outs; cases "tl ?outs"; cases "tl (tl ?outs)") auto
  from st obtain state where ps: "parse_stateful (pk_script out0) = Some (state, ms_code st)"
    by (auto simp: outs parse_singleton_state_def split: option.splits if_splits)
  from parse_stateful_split [OF ps] obtain push where
      "pk_script out0 = push @ state @ of_nat OP_STATESEPARATOR # ms_code st" "length push \<le> 3" by blast
  then have "genuine_market ctx ?rec"
    unfolding genuine_market_def using g st outs by (simp add: outs) blast
  moreover have "record_ok ?rec" if "market_ctx_ok ctx"
  proof -
    from first_beacon_parsed [OF b] beacon_fields have "length ?ref = 36" "length (b_yes_ref b) = 36" "length (b_no_ref b) = 36"
        "\<exists>e. utf8_encode (b_question b) = Inr e \<and> e \<noteq> [] \<and> length e \<le> QUESTION_MAX_BYTES" by blast+
    with singleton_state_fields [OF st] that show ?thesis by (simp add: record_ok_def market_ctx_ok_def)
  qed
  ultimately show ?thesis using run by (intro disjI2 exI [of _ ?rec]) simp
qed

section \<open>The state of the index\<close>

definition markets_ok :: "markets \<Rightarrow> bool" where
  "markets_ok s \<longleftrightarrow> mk_enabled s \<and> dict_ok (market_cache s) \<and> market_log s = no_undo \<and> -1 \<le> market_pruned s
     \<and> (\<forall>(ref, rec) \<in> set (market_cache s). market_ref rec = ref \<and> record_ok rec)"

definition market_index_txs :: "db \<Rightarrow> (tx_ctx \<times> 'e option) list \<Rightarrow> markets \<Rightarrow> markets" where
  "market_index_txs d txs s = foldl (\<lambda>s (ctx, env). fst (market_process_tx d ctx env s)) s txs"

lemma new_market_index_ok [simp]: "markets_ok (new_market_index True d)"
  by (auto simp: markets_ok_def new_market_index_def max_def)

lemma markets_ok_set:
  assumes "markets_ok s" and "record_ok rec"
  shows "markets_ok (s\<lparr>market_cache := dict_set (market_ref rec) rec (market_cache s)\<rparr>)"
  using assms by (auto simp: markets_ok_def dest!: dict_set_mem)

lemma market_index_txs_ok:
  assumes "markets_ok s" and "\<forall>(ctx, env) \<in> set txs. market_ctx_ok ctx"
  shows "markets_ok (market_index_txs d txs s)
    \<and> (\<forall>(ref, rec) \<in> set (market_cache (market_index_txs d txs s)).
         (ref, rec) \<in> set (market_cache s) \<or> market_ref rec = ref \<and> (\<exists>(ctx, env) \<in> set txs. genuine_market ctx rec))"
  using assms
proof (induction txs arbitrary: s)
  case Nil
  then show ?case by (auto simp: market_index_txs_def)
next
  case (Cons t txs)
  obtain ctx env where t: "t = (ctx, env)" by (cases t)
  let ?s = "fst (market_process_tx d ctx env s)"
  have step: "market_index_txs d (t # txs) s = market_index_txs d txs ?s" by (simp add: market_index_txs_def t)
  have cases: "?s = s \<or> (\<exists>rec. ?s = s\<lparr>market_cache := dict_set (market_ref rec) rec (market_cache s)\<rparr> \<and> genuine_market ctx rec \<and> record_ok rec)"
    using market_process_tx_cases [of d ctx env s] Cons.prems(2) by (auto simp: t)
  have ok: "markets_ok ?s" using cases Cons.prems(1) markets_ok_set by auto
  have old: "(ref, rec) \<in> set (market_cache s) \<or> market_ref rec = ref \<and> genuine_market ctx rec"
    if "(ref, rec) \<in> set (market_cache ?s)" for ref rec
    using cases that by (auto dest: dict_set_mem)
  from Cons.IH [OF ok] Cons.prems(2) have "markets_ok (market_index_txs d txs ?s)"
    "\<forall>(ref, rec) \<in> set (market_cache (market_index_txs d txs ?s)).
         (ref, rec) \<in> set (market_cache ?s) \<or> market_ref rec = ref \<and> (\<exists>(ctx, env) \<in> set txs. genuine_market ctx rec)" by auto
  then show ?case unfolding step using old by (auto simp: t) blast+
qed

text \<open>The rows of one record.\<close>

lemma market_rows_ok:
  assumes "record_ok rec"
  shows "\<exists>v. market_to_bytes rec = Inr v \<and> v \<noteq> [] \<and> market_from_bytes v = Inr rec
    \<and> market_rows (ref, rec) = [(Some (create_height rec), Put (MARKET @ ref) v),
         (Some (create_height rec), Put (BY_HEIGHT @ be_enc 4 (nat (create_height rec)) @ ref) [])]"
proof -
  from market_codec [OF assms] obtain v where v: "market_to_bytes rec = Inr v" "v \<noteq> []" "market_from_bytes v = Inr rec" by blast
  have "pack_be_uint32 (create_height rec) = Inr (be_enc 4 (nat (create_height rec)))"
    using assms by (simp add: record_ok_def pack_be_uint32_def pack_uint_fits be_enc_def)
  with v show ?thesis by (simp add: market_rows_def)
qed

lemma market_plan_mem:
  assumes "markets_ok s"
  shows "(h, op) \<in> set (market_plan s) \<longleftrightarrow> (\<exists>(ref, rec) \<in> set (market_cache s). h = Some (create_height rec)
    \<and> (op = Put (MARKET @ ref) (projr (market_to_bytes rec)) \<or> op = Put (BY_HEIGHT @ be_enc 4 (nat (create_height rec)) @ ref) []))"
proof -
  have "(h, op) \<in> set (market_rows e) \<longleftrightarrow> (case e of (ref, rec) \<Rightarrow> h = Some (create_height rec)
      \<and> (op = Put (MARKET @ ref) (projr (market_to_bytes rec)) \<or> op = Put (BY_HEIGHT @ be_enc 4 (nat (create_height rec)) @ ref) []))"
    if "e \<in> set (market_cache s)" for e
  proof -
    obtain ref rec where e: "e = (ref, rec)" by (cases e)
    then have "record_ok rec" using assms that by (auto simp: markets_ok_def)
    from market_rows_ok [OF this, of ref] show ?thesis by (auto simp: e)
  qed
  then show ?thesis unfolding market_plan_def set_concat set_map by blast
qed

lemma cache_record_ok: "markets_ok s \<Longrightarrow> (ref, rec) \<in> set (market_cache s) \<Longrightarrow> market_ref rec = ref \<and> record_ok rec"
  by (auto simp: markets_ok_def)

lemma market_plan_fits:
  assumes "markets_ok s" and "values_fit kv"
  shows "plan_fits kv (market_plan s)"
  unfolding plan_fits_def
proof clarify
  fix op h
  assume "(Some h, op) \<in> set (market_plan s)"
  then obtain ref rec where m: "(ref, rec) \<in> set (market_cache s)" "h = create_height rec"
      "op_key op = MARKET @ ref \<or> op_key op = BY_HEIGHT @ be_enc 4 (nat (create_height rec)) @ ref"
    unfolding market_plan_mem [OF assms(1)] by auto
  from cache_record_ok [OF assms(1) m(1)] have ok: "record_ok rec" "length ref = 36" by (auto simp: record_ok_def)
  then have "length (op_key op) < 65536" using m(3) by (auto simp: MARKET_def BY_HEIGHT_def)
  then have "undo_entry_fits (op_key op, kv_get kv (op_key op))"
    using assms(2) by (auto simp: undo_entry_fits_def values_fit_def split: option.split)
  then show "0 \<le> h \<and> h < 2 ^ 32 \<and> undo_entry_fits (op_key op, kv_get kv (op_key op))"
    using ok(1) m(2) by (simp add: record_ok_def)
qed

text \<open>The rows made at one height.\<close>

definition market_keys :: "markets \<Rightarrow> int \<Rightarrow> bytes set" where
  "market_keys s ht = {MARKET @ ref | ref rec. (ref, rec) \<in> set (market_cache s) \<and> create_height rec = ht}
     \<union> {BY_HEIGHT @ be_enc 4 (nat ht) @ ref | ref rec. (ref, rec) \<in> set (market_cache s) \<and> create_height rec = ht}"

lemma market_logged:
  assumes "markets_ok s" and "values_fit kv"
  shows "undo_ok kv (log_plan kv (market_plan s) (market_log s))
    \<and> logged (log_plan kv (market_plan s) (market_log s)) ht = market_keys s ht"
proof -
  have log: "market_log s = no_undo" using assms(1) by (simp add: markets_ok_def)
  have "{op_key op | op. (Some ht, op) \<in> set (market_plan s)} = market_keys s ht"
    unfolding market_keys_def market_plan_mem [OF assms(1)] by force
  with log_plan_ok [OF no_undo_ok market_plan_fits [OF assms], of ht] show ?thesis unfolding log by simp
qed

lemma flush_market_total:
  assumes "record_ok rec"
  shows "\<exists>acc'. flush_market kv acc (ref, rec) = Inr acc'"
  using market_rows_ok [OF assms, of ref] assms
  by (cases acc) (auto simp: flush_market_def Let_def record_ok_def pack_be_uint32_def pack_uint_fits)

lemma flush_markets_total:
  "\<forall>(ref, rec) \<in> set cache. record_ok rec \<Longrightarrow> \<exists>acc'. foldM (flush_market kv) acc cache = Inr acc'"
proof (induction cache arbitrary: acc)
  case (Cons e cache)
  obtain ref rec where e: "e = (ref, rec)" by (cases e)
  with Cons.prems obtain acc1 where "flush_market kv acc e = Inr acc1" using flush_market_total [of rec kv acc ref] by auto
  with Cons show ?case by simp
qed simp

lemma market_flush_total:
  assumes "markets_ok s" and "values_fit (utxo_db d)" and "db_height d < 2 ^ 32" and "0 \<le> reorg_limit d"
  shows "\<exists>ops pruned. market_flush d s = Inr (ops, s\<lparr>market_cache := [], market_log := no_undo, market_pruned := pruned\<rparr>) \<and> -1 \<le> pruned"
proof -
  have ok: "mk_enabled s" "-1 \<le> market_pruned s" "market_log s = no_undo" "\<forall>(ref, rec) \<in> set (market_cache s). record_ok rec"
    using assms(1) by (auto simp: markets_ok_def)
  from prune_undo_total [OF ok(2) assms(3,4), of MARKET_UNDO] obtain old pruned where
      o': "prune_undo MARKET_UNDO d (market_pruned s) = Inr (old, pruned)" "-1 \<le> pruned" by auto
  from flush_markets_total [OF ok(4)] obtain ops log where
      f: "foldM (flush_market (utxo_db d)) (old, market_log s) (market_cache s) = Inr (ops, log)" by (metis surj_pair)
  from flush_markets_plan [OF f] have log: "log = log_plan (utxo_db d) (market_plan s) (market_log s)" by (simp add: market_plan_def)
  from market_logged [OF assms(1,2)] have "undo_ok (utxo_db d) log" unfolding log by blast
  from undo_puts_ok [OF this, of MARKET_UNDO] obtain sorted where "undo_puts MARKET_UNDO log = Inr sorted" by blast
  from mapM_same_set [OF this [unfolded undo_puts_def], of "undo_cache log"] obtain puts where
      "mapM (\<lambda>(ht, entries). rbind (height_key MARKET_UNDO ht) (\<lambda>k. rbind (encode_undo entries) (\<lambda>v. Inr (Put k v))))
        (undo_cache log) = Inr puts"
    by auto
  moreover have "filter (\<lambda>(ht, entries). entries \<noteq> []) (undo_cache log) = undo_cache log"
    using no_empty_plan [of no_undo "utxo_db d" "market_plan s"] ok(3)
    by (intro filter_True) (auto simp: log no_empty_entry_def no_undo_def)
  ultimately have "market_undo_puts log = Inr puts" by (simp add: market_undo_puts_def)
  with o' f ok(1) have "market_flush d s = Inr (ops @ puts, s\<lparr>market_cache := [], market_log := no_undo, market_pruned := pruned\<rparr>)"
    by (simp add: market_flush_def)
  with o'(2) show ?thesis by blast
qed

lemma market_key_other: "starts_with MARKET_UNDO k \<or> starts_with BY_HEIGHT k \<Longrightarrow> k \<noteq> MARKET @ ref"
  by (auto simp: starts_with_def MARKET_UNDO_def MARKET_def BY_HEIGHT_def)

lemma flushed_market:
  assumes ok: "markets_ok s" and "values_fit (utxo_db d)" and "kv_ok (utxo_db d)" and "market_flush d s = Inr (ops, s1)"
  shows "kv_get (apply_batch ops (utxo_db d)) (MARKET @ ref) =
    (case map_of (market_cache s) ref of None \<Rightarrow> kv_get (utxo_db d) (MARKET @ ref) | Some rec \<Rightarrow> Some (projr (market_to_bytes rec)))"
proof -
  let ?k = "MARKET @ ref" and ?log = "log_plan (utxo_db d) (market_plan s) (market_log s)"
  have on: "market_on s" using ok by (auto simp: markets_ok_def market_on_def no_empty_entry_def no_undo_def)
  from market_undo.flush_plan [OF on assms(4)] obtain old n puts where f: "prune_undo MARKET_UNDO d n = Inr old"
      "undo_written MARKET_UNDO ?log puts" "ops = fst old @ map snd (market_plan s) @ puts" by blast
  have puts: "\<forall>op \<in> set puts. op_key op \<noteq> ?k" using undo_written_keys [OF f(2)] market_key_other by blast
  have old: "\<forall>op \<in> set (fst old). op_key op \<noteq> ?k" using prune_undo_keys [OF f(1)] market_key_other by blast
  have "kv_get (apply_batch ops (utxo_db d)) ?k = fold op_map (map snd (market_plan s)) (fold op_map (fst old) (kv_get (utxo_db d))) ?k"
    by (simp add: kv_get_apply_batch [OF assms(3)] f(3) fold_op_unchanged [OF puts])
  also have "\<dots> = (case map_of (market_cache s) ref of None \<Rightarrow> kv_get (utxo_db d) ?k | Some rec \<Rightarrow> Some (projr (market_to_bytes rec)))"
  proof -
    have mem: "op \<in> set (map snd (market_plan s)) \<and> op_key op = ?k \<longleftrightarrow>
        (\<exists>rec. map_of (market_cache s) ref = Some rec \<and> op = Put ?k (projr (market_to_bytes rec)))" for op
    proof -
      have in_plan: "op \<in> set (map snd (market_plan s)) \<longleftrightarrow> (\<exists>h. (h, op) \<in> set (market_plan s))" by force
      have cached: "(ref, rec) \<in> set (market_cache s) \<longleftrightarrow> map_of (market_cache s) ref = Some rec" for rec
        using ok by (simp add: markets_ok_def map_of_eq_iff_mem)
      have ne: "BY_HEIGHT @ x \<noteq> ?k" for x by (simp add: BY_HEIGHT_def MARKET_def)
      show ?thesis
      proof (intro iffI; elim conjE exE)
        assume "op \<in> set (map snd (market_plan s))" and k: "op_key op = ?k"
        then obtain ref' rec where m: "(ref', rec) \<in> set (market_cache s)" "op = Put (MARKET @ ref') (projr (market_to_bytes rec))
            \<or> op = Put (BY_HEIGHT @ be_enc 4 (nat (create_height rec)) @ ref') []"
          unfolding in_plan market_plan_mem [OF ok] by auto
        from m(2) k ne have "ref' = ref" "op = Put ?k (projr (market_to_bytes rec))" by auto
        with m(1) cached show "\<exists>rec. map_of (market_cache s) ref = Some rec \<and> op = Put ?k (projr (market_to_bytes rec))" by blast
      next
        fix rec assume "map_of (market_cache s) ref = Some rec" and op: "op = Put ?k (projr (market_to_bytes rec))"
        then have "(Some (create_height rec), op) \<in> set (market_plan s)"
          unfolding market_plan_mem [OF ok] cached [symmetric] by blast
        then show "op \<in> set (map snd (market_plan s)) \<and> op_key op = ?k" unfolding in_plan using op by auto
      qed
    qed
    show ?thesis
    proof (cases "map_of (market_cache s) ref")
      case None
      then have "\<forall>op \<in> set (map snd (market_plan s)). op_key op \<noteq> ?k" using mem by auto
      from fold_op_unchanged [OF this] fold_op_unchanged [OF old] None show ?thesis by simp
    next
      case (Some rec)
      then have "Put ?k (projr (market_to_bytes rec)) \<in> set (map snd (market_plan s))" using mem by auto
      moreover have "\<forall>op \<in> set (map snd (market_plan s)). op_key op = ?k \<longrightarrow> op = Put ?k (projr (market_to_bytes rec))"
        using mem Some by auto
      ultimately show ?thesis using Some by (simp add: fold_op_written)
    qed
  qed
  finally show ?thesis .
qed

section \<open>Properties\<close>

text \<open>C15: The markets of any transactions are recorded and flushed. Every record the index has made is
  of a transaction that spends the outpoint the market is named after and whose first three outputs are
  the market and its anchors, with the terms of the first output and not those of the announcement; the
  flush never raises and leaves no record out; and \<open>get_market\<close> answers for every reference from the
  database as it answered from the cache before.\<close>
theorem market_survives_flush:
  assumes "\<forall>(ctx, env) \<in> set txs. market_ctx_ok ctx" and "kv_ok (utxo_db d)" and "values_fit (utxo_db d)"
    and "db_height d < 2 ^ 32" and "0 \<le> reorg_limit d"
    and "s = market_index_txs d txs (new_market_index True d)"
  shows "(\<forall>(ref, rec) \<in> set (market_cache s). market_ref rec = ref \<and> (\<exists>(ctx, env) \<in> set txs. genuine_market ctx rec))
    \<and> (\<exists>ops s1. market_flush d s = Inr (ops, s1)
         \<and> (\<forall>ref. get_market (d\<lparr>utxo_db := apply_batch ops (utxo_db d)\<rparr>) s1 ref = get_market d s ref))"
proof (intro conjI)
  from market_index_txs_ok [OF new_market_index_ok assms(1), of d] have ok: "markets_ok s"
    and from_txs: "\<forall>(ref, rec) \<in> set (market_cache s). (ref, rec) \<in> set (market_cache (new_market_index True d))
        \<or> market_ref rec = ref \<and> (\<exists>(ctx, env) \<in> set txs. genuine_market ctx rec)"
    unfolding assms(6) by blast+
  then show "\<forall>(ref, rec) \<in> set (market_cache s). market_ref rec = ref \<and> (\<exists>(ctx, env) \<in> set txs. genuine_market ctx rec)"
    by (simp add: new_market_index_def)
  from market_flush_total [OF ok assms(3-5)] obtain ops pruned where
      f: "market_flush d s = Inr (ops, s\<lparr>market_cache := [], market_log := no_undo, market_pruned := pruned\<rparr>)" by blast
  have "get_market (d\<lparr>utxo_db := apply_batch ops (utxo_db d)\<rparr>) (s\<lparr>market_cache := [], market_log := no_undo, market_pruned := pruned\<rparr>) ref
      = get_market d s ref" for ref
  proof (cases "map_of (market_cache s) ref")
    case None
    then show ?thesis using flushed_market [OF ok assms(3,2) f, of ref] by (simp add: get_market_def)
  next
    case (Some rec)
    then have "record_ok rec" using cache_record_ok [OF ok] by (auto dest: map_of_SomeD)
    from market_codec [OF this] obtain v where v: "market_to_bytes rec = Inr v" "v \<noteq> []" "market_from_bytes v = Inr rec" by blast
    then show ?thesis using flushed_market [OF ok assms(3,2) f, of ref] Some
      by (cases v) (simp_all add: get_market_def)
  qed
  with f show "\<exists>ops s1. market_flush d s = Inr (ops, s1)
         \<and> (\<forall>ref. get_market (d\<lparr>utxo_db := apply_batch ops (utxo_db d)\<rparr>) s1 ref = get_market d s ref)" by blast
qed

text \<open>C31: The markets of several blocks are flushed together and one of the blocks is undone: exactly
  the rows of the markets its transactions announced go back to what they were before the flush, and
  every other row stays as the flush left it. This needs the undo row of the height to be free.\<close>
theorem market_undo_exact:
  assumes "\<forall>(ctx, env) \<in> set txs. market_ctx_ok ctx" and "kv_ok (utxo_db d)" and "values_fit (utxo_db d)"
    and "db_height d < 2 ^ 32" and "0 \<le> reorg_limit d" and "0 \<le> ht" and "ht < 2 ^ 32"
    and "db_height d - reorg_limit d < ht \<or> reorg_limit d = 0"
    and "kv_get (utxo_db d) (MARKET_UNDO @ be_enc 4 (nat ht)) = None"
    and "s = market_index_txs d txs (new_market_index True d)"
  shows "\<exists>ops s1 d1 ops' s2. market_flush d s = Inr (ops, s1) \<and> d1 = d\<lparr>utxo_db := apply_batch ops (utxo_db d)\<rparr>
    \<and> market_backup d1 ht s1 = Inr (ops', s2)
    \<and> (\<forall>k. \<not> starts_with MARKET_UNDO k \<longrightarrow> kv_get (apply_batch ops' (utxo_db d1)) k
          = (if k \<in> market_keys s ht then kv_get (utxo_db d) k else kv_get (utxo_db d1) k))"
proof -
  have ok: "markets_ok s" using market_index_txs_ok [OF new_market_index_ok assms(1), of d] unfolding assms(10) by blast
  then have log: "market_log s = no_undo" and on: "market_on s"
    by (auto simp: markets_ok_def market_on_def no_empty_entry_def no_undo_def)
  from market_flush_total [OF ok assms(3-5)] obtain ops pruned where
      f: "market_flush d s = Inr (ops, s\<lparr>market_cache := [], market_log := no_undo, market_pruned := pruned\<rparr>)" by blast
  let ?s1 = "s\<lparr>market_cache := [], market_log := no_undo, market_pruned := pruned\<rparr>" and ?d1 = "d\<lparr>utxo_db := apply_batch ops (utxo_db d)\<rparr>"
  have on1: "market_on ?s1" using on by (simp add: market_on_def no_empty_entry_def no_undo_def)
  from revert_undo_total [OF assms(6,7)] obtain ops' where "revert_undo MARKET_UNDO (utxo_db ?d1) ht = Inr ops'" by blast
  then have b: "market_backup ?d1 ht ?s1 = Inr (ops', ?s1)" using on1 by (simp add: market_backup_def market_on_def)
  have l: "undo_ok (utxo_db d) (market_log s)" "\<forall>ht k. k \<in> logged (market_log s) ht \<longrightarrow> \<not> starts_with MARKET_UNDO k" by (simp_all add: log)
  have "kv_get (apply_batch ops' (utxo_db ?d1)) k = (if k \<in> market_keys s ht then kv_get (utxo_db d) k else kv_get (utxo_db ?d1) k)"
    if "\<not> starts_with MARKET_UNDO k" for k
    using market_undo.backup_after_flush [OF on on1 f assms(2) l(1) market_plan_fits [OF ok assms(3)] l(2) assms(8,6,7) _ b assms(9) that]
      market_logged [OF ok assms(3), of ht] by simp
  with f b show ?thesis by (intro exI [of _ ops] exI [of _ ?s1] exI [of _ ?d1] exI [of _ ops'] exI) simp
qed

section \<open>A sample market\<close>

definition push_bytes :: "bytes \<Rightarrow> bytes" where
  "push_bytes data = of_nat (length data) # data"

definition market_outpoint :: bytes where "market_outpoint = replicate 36 1"
definition yes_outpoint :: bytes where "yes_outpoint = replicate 36 2"
definition no_outpoint :: bytes where "no_outpoint = replicate 36 3"

text \<open>The references of this market stand in data pushes only.\<close>

definition quoted_market_scripts :: "bytes list" where
  "quoted_market_scripts =
     [push_bytes (7 # le_enc 4 900 @ le_enc 4 10 @ replicate 33 9) @ [189, 76, 109, 216] @ market_outpoint @ yes_outpoint @ no_outpoint,
      push_bytes (replicate 20 0) @ [189, 72] @ yes_outpoint @ market_outpoint,
      push_bytes (replicate 20 0) @ [189, 72] @ no_outpoint @ market_outpoint,
      [106] @ push_bytes RMKT_MAGIC @ push_bytes [1] @ push_bytes market_outpoint @ push_bytes yes_outpoint @ push_bytes no_outpoint
        @ push_bytes (le_enc 4 900) @ push_bytes (le_enc 4 11) @ push_bytes (replicate 33 9) @ push_bytes [82, 63]]"

definition market_ctx :: "bytes list \<Rightarrow> int \<Rightarrow> tx_ctx" where
  "market_ctx scripts ht = \<lparr>ctx_tx_hash = replicate 32 5,
     ctx_tx = one_tx\<lparr>tx_outputs := map (\<lambda>s. \<lparr>out_value = 0, pk_script = s\<rparr>) scripts\<rparr>,
     ctx_height = ht, ctx_tx_idx = 1, ctx_output_refs = [], ctx_spent_singletons = None, ctx_spent_outpoints = {market_outpoint}\<rparr>"

definition quoted_market :: "int \<Rightarrow> market_record" where
  "quoted_market ht = \<lparr>market_ref = market_outpoint, yes_ref = yes_outpoint, no_ref = no_outpoint, expiry = 900, grace = 10,
     market_oracle = replicate 33 9, market_status = 7, optimistic = False, question = Some [82, 63], beacon_params_match = False,
     create_txid = replicate 32 5, create_height = ht\<rparr>"

lemma quoted_beacon: "first_beacon (map (\<lambda>s. \<lparr>out_value = 0, pk_script = s\<rparr>) quoted_market_scripts) = Some
    \<lparr>b_market_ref = market_outpoint, b_yes_ref = yes_outpoint, b_no_ref = no_outpoint, b_expiry = 900, b_grace = 11,
     b_oracle = replicate 33 9, b_question = [82, 63]\<rparr>"
  by code_simp

lemma quoted_state: "parse_singleton_state (quoted_market_scripts ! 0) = Some
    \<lparr>ms_status = 7, ms_expiry = 900, ms_grace = 10, ms_oracle = replicate 33 9, ms_optimistic = False,
     ms_code = [76, 109, 216] @ market_outpoint @ yes_outpoint @ no_outpoint\<rparr>"
  by code_simp

lemma quoted_checks:
  "contains (SINGLETON_PUSH @ market_outpoint) ([76, 109, 216] @ market_outpoint @ yes_outpoint @ no_outpoint)
   \<and> contains yes_outpoint ([76, 109, 216] @ market_outpoint @ yes_outpoint @ no_outpoint)
   \<and> contains no_outpoint ([76, 109, 216] @ market_outpoint @ yes_outpoint @ no_outpoint)
   \<and> is_anchor_for (quoted_market_scripts ! 1) yes_outpoint market_outpoint
   \<and> is_anchor_for (quoted_market_scripts ! 2) no_outpoint market_outpoint"
  by code_simp

lemma quoted_no_refs: "list_all (\<lambda>s. get_push_input_refs s = Inr ([], [], [])) quoted_market_scripts"
  by code_simp

lemma market_ctx_simps [simp]:
  "ctx_spent_outpoints (market_ctx scripts ht) = {market_outpoint}" "ctx_height (market_ctx scripts ht) = ht"
  "ctx_tx_hash (market_ctx scripts ht) = replicate 32 5"
  "tx_outputs (ctx_tx (market_ctx scripts ht)) = map (\<lambda>s. \<lparr>out_value = 0, pk_script = s\<rparr>) scripts"
  by (simp_all add: market_ctx_def)

lemma quoted_accepted:
  assumes "mk_enabled s"
  shows "market_process_tx d (market_ctx quoted_market_scripts ht) env s
    = (s\<lparr>market_cache := dict_set market_outpoint (quoted_market ht) (market_cache s)\<rparr>, Inr ())"
proof -
  let ?outs = "map (\<lambda>s. \<lparr>out_value = 0, pk_script = s\<rparr>) quoted_market_scripts"
  have n: "length quoted_market_scripts = 4" by (simp add: quoted_market_scripts_def)
  then have "pk_script (?outs ! i) = quoted_market_scripts ! i" if "i < 4" for i using that by simp
  from this [of 0] this [of 1] this [of 2] show ?thesis
    using quoted_beacon quoted_state quoted_checks assms n
    by (simp add: market_process_tx_def Let_def quoted_market_def)
qed

theorem market_survives_flush_witness:
  "map_of (market_cache (market_index_txs sample_db [(market_ctx quoted_market_scripts 3, None :: unit option)] (new_market_index True sample_db)))
      market_outpoint = Some (quoted_market 3)
   \<and> (\<exists>ops s1. market_flush sample_db (market_index_txs sample_db [(market_ctx quoted_market_scripts 3, None :: unit option)]
          (new_market_index True sample_db)) = Inr (ops, s1)
       \<and> (\<forall>ref. get_market (sample_db\<lparr>utxo_db := apply_batch ops (utxo_db sample_db)\<rparr>) s1 ref
            = get_market sample_db (market_index_txs sample_db [(market_ctx quoted_market_scripts 3, None :: unit option)]
                (new_market_index True sample_db)) ref))"
proof -
  let ?txs = "[(market_ctx quoted_market_scripts 3, None :: unit option)]"
  have "\<forall>(ctx, env) \<in> set ?txs. market_ctx_ok ctx" by (simp add: market_ctx_ok_def)
  moreover have "kv_ok (utxo_db sample_db)" "values_fit (utxo_db sample_db)" "db_height sample_db < 2 ^ 32" "0 \<le> reorg_limit sample_db"
    by (simp_all add: sample_db_def values_fit_def kv_get_def)
  moreover have "map_of (market_cache (market_index_txs sample_db ?txs (new_market_index True sample_db))) market_outpoint = Some (quoted_market 3)"
    by (simp add: market_index_txs_def quoted_accepted new_market_index_def)
  ultimately show ?thesis using market_survives_flush [OF _ _ _ _ _ refl, of ?txs sample_db] by blast
qed

theorem market_undo_exact_witness:
  "MARKET @ market_outpoint \<in> market_keys (market_index_txs sample_db [(market_ctx quoted_market_scripts 2, None :: unit option)]
       (new_market_index True sample_db)) 2
   \<and> (\<exists>ops s1 d1 ops' s2. market_flush sample_db (market_index_txs sample_db [(market_ctx quoted_market_scripts 2, None :: unit option)]
          (new_market_index True sample_db)) = Inr (ops, s1)
       \<and> d1 = sample_db\<lparr>utxo_db := apply_batch ops (utxo_db sample_db)\<rparr> \<and> market_backup d1 2 s1 = Inr (ops', s2)
       \<and> kv_get (apply_batch ops' (utxo_db d1)) (MARKET @ market_outpoint) = None)"
proof -
  let ?txs = "[(market_ctx quoted_market_scripts 2, None :: unit option)]" and ?k = "MARKET @ market_outpoint"
  let ?s = "market_index_txs sample_db ?txs (new_market_index True sample_db)"
  have mem: "?k \<in> market_keys ?s 2"
    by (simp add: market_keys_def market_index_txs_def quoted_accepted new_market_index_def quoted_market_def)
  moreover have "\<forall>(ctx, env) \<in> set ?txs. market_ctx_ok ctx" by (simp add: market_ctx_ok_def)
  moreover have "kv_ok (utxo_db sample_db)" "values_fit (utxo_db sample_db)" "db_height sample_db < 2 ^ 32" "0 \<le> reorg_limit sample_db"
      "db_height sample_db - reorg_limit sample_db < 2 \<or> reorg_limit sample_db = 0" "kv_get (utxo_db sample_db) k = None" for k
    by (simp_all add: sample_db_def values_fit_def kv_get_def)
  moreover have "\<not> starts_with MARKET_UNDO ?k" by (simp add: starts_with_def MARKET_UNDO_def MARKET_def)
  ultimately show ?thesis using market_undo_exact [OF _ _ _ _ _ _ _ _ _ refl, of ?txs sample_db 2] by force
qed

text \<open>C32: The index accepts a market none of whose outputs carries a reference: it looks for the bytes of
  the singleton opcode and operand anywhere in the code of the first output, and data pushed by that
  code counts, so a transaction that pushes no reference at all registers a market.\<close>
theorem market_without_singleton:
  "\<exists>ctx rec. market_ctx_ok ctx
     \<and> list_all (\<lambda>out. get_push_input_refs (pk_script out) = Inr ([], [], [])) (tx_outputs (ctx_tx ctx))
     \<and> market_process_tx d ctx env (new_market_index True d)
         = ((new_market_index True d)\<lparr>market_cache := [(market_ref rec, rec)]\<rparr>, Inr ())"
proof (intro exI conjI)
  let ?ctx = "market_ctx quoted_market_scripts 7"
  show "market_ctx_ok ?ctx" by (simp add: market_ctx_ok_def)
  show "list_all (\<lambda>out. get_push_input_refs (pk_script out) = Inr ([], [], [])) (tx_outputs (ctx_tx ?ctx))"
    using quoted_no_refs by (simp add: list_all_iff)
  show "market_process_tx d ?ctx env (new_market_index True d)
      = ((new_market_index True d)\<lparr>market_cache := [(market_ref (quoted_market 7), quoted_market 7)]\<rparr>, Inr ())"
    by (simp add: quoted_accepted new_market_index_def quoted_market_def)
qed

end
