(* ===== verification/MarketChain.thy ===== *)
theory MarketChain
  imports Markets
begin

text \<open>
  The chain with a real index beside it. The block processor asks of its overlays that flushing and
  backing them up does not raise and leaves the core's rows alone (\<open>safe_flush\<close>, \<open>safe_backup\<close>); here
  the market index is shown to do so for any block on any flushed chain whose undo row for the new
  height is free, so that a block and its undoing go through with it.
\<close>

section \<open>What the overlays have done to their state\<close>

text \<open>Every overlay call on a context that satisfies \<open>Q\<close> keeps \<open>P\<close>.\<close>

definition overlay_keeps :: "('o \<Rightarrow> bool) \<Rightarrow> (tx_ctx \<Rightarrow> bool) \<Rightarrow> ('o, 'e) overlay option \<Rightarrow> bool" where
  "overlay_keeps P Q overlay \<longleftrightarrow> (\<forall>f d ctx env o'. overlay = Some f \<longrightarrow> Q ctx \<longrightarrow> P o' \<longrightarrow> P (fst (f d ctx env o')))"

definition overlays_keep :: "('o \<Rightarrow> bool) \<Rightarrow> (tx_ctx \<Rightarrow> bool) \<Rightarrow> ('o, 'e) overlays \<Rightarrow> bool" where
  "overlays_keep P Q ov \<longleftrightarrow> (\<forall>f d ctx o'. glyph_index ov = Some f \<longrightarrow> Q ctx \<longrightarrow> P o' \<longrightarrow> P (fst (f d ctx o')))
     \<and> (\<forall>d h ds cs o'. P o' \<longrightarrow> P (fst (glyph_balances ov d h ds cs o')))
     \<and> overlay_keeps P Q (wave_index ov) \<and> overlay_keeps P Q (realm_index ov) \<and> overlay_keeps P Q (swap_index ov)
     \<and> overlay_keeps P Q (predict_index ov) \<and> overlay_keeps P Q (royalty_index ov)
     \<and> (\<forall>f d h ss as o'. analytics_index ov = Some f \<longrightarrow> P o' \<longrightarrow> P (fst (f d h ss as o')))"

lemma guarded_keeps: "guarded s call dflt = Inr (s', x) \<Longrightarrow> P (fst call) \<Longrightarrow> P (overlay_state s') \<and> height s' = height s"
  by (auto simp: guarded_def Let_def split: prod.splits sum.splits if_splits)

lemma run_overlay_keeps:
  assumes "run_overlay f wanted ctx env s = Inr s'" and "overlay_keeps P Q f" and "Q ctx" and "P (overlay_state s)"
  shows "P (overlay_state s') \<and> height s' = height s"
  using assms
  by (fastforce simp: run_overlay_def overlay_keeps_def rbind_eq_Inr split: option.splits if_splits
      dest: guarded_keeps [where P = P])

lemma run_overlays_keep:
  assumes "run_overlays ov ctx acc s = Inr s'" and "overlays_keep P Q ov" and "Q ctx" and "P (overlay_state s)"
  shows "P (overlay_state s') \<and> height s' = height s"
proof (cases "glyph_index ov")
  case None
  with assms show ?thesis by (simp add: run_overlays_def)
next
  case (Some glyph)
  have k: "P (fst (glyph (bp_db s) ctx (overlay_state s)))" "\<And>d h ds cs o'. P o' \<Longrightarrow> P (fst (glyph_balances ov d h ds cs o'))"
      "overlay_keeps P Q (wave_index ov)" "overlay_keeps P Q (realm_index ov)" "overlay_keeps P Q (swap_index ov)"
      "overlay_keeps P Q (predict_index ov)" "overlay_keeps P Q (royalty_index ov)"
    using assms(2-4) Some by (simp_all add: overlays_keep_def)
  from assms(1) Some obtain s1 env w s2 s3 s4 s5 s6 where r: "guarded s (glyph (bp_db s) ctx (overlay_state s)) None = Inr (s1, env)"
      "run_overlay (wave_index ov) w ctx env s1 = Inr s2" "run_overlay (realm_index ov) (env \<noteq> None) ctx env s2 = Inr s3"
      "run_overlay (swap_index ov) True ctx env s3 = Inr s4" "run_overlay (predict_index ov) True ctx env s4 = Inr s5"
      "run_overlay (royalty_index ov) True ctx env s5 = Inr s6"
      and last: "(if balance_debits acc \<noteq> [] \<or> balance_credits acc \<noteq> []
        then rbind (guarded s6 (glyph_balances ov (bp_db s6) (height s6 + 1) (balance_debits acc) (balance_credits acc)
               (overlay_state s6)) ()) (\<lambda>(s, _). Inr s)
        else Inr s6) = Inr s'"
    unfolding run_overlays_def by (auto simp: rbind_eq_Inr)
  note 1 = guarded_keeps [where P = P, OF r(1) k(1)]
  note 2 = run_overlay_keeps [where P = P, OF r(2) k(3) assms(3) 1 [THEN conjunct1]]
  note 3 = run_overlay_keeps [where P = P, OF r(3) k(4) assms(3) 2 [THEN conjunct1]]
  note 4 = run_overlay_keeps [where P = P, OF r(4) k(5) assms(3) 3 [THEN conjunct1]]
  note 5 = run_overlay_keeps [where P = P, OF r(5) k(6) assms(3) 4 [THEN conjunct1]]
  note 6 = run_overlay_keeps [where P = P, OF r(6) k(7) assms(3) 5 [THEN conjunct1]]
  have "P (overlay_state s') \<and> height s' = height s6"
    using last guarded_keeps [where P = P, OF _ k(2) [OF 6 [THEN conjunct1]]] 6 by (fastforce simp: rbind_eq_Inr split: if_splits)
  with 1 2 3 4 5 6 show ?thesis by simp
qed

text \<open>The core's own steps of a transaction leave it alone.\<close>

definition same_overlay :: "'o bp \<Rightarrow> 'o bp \<Rightarrow> bool" where
  "same_overlay s s' \<longleftrightarrow> overlay_state s' = overlay_state s \<and> height s' = height s"

lemma same_overlay_refl [simp]: "same_overlay s s"
  by (simp add: same_overlay_def)

lemma same_overlay_trans: "same_overlay s s' \<Longrightarrow> same_overlay s' s'' \<Longrightarrow> same_overlay s s''"
  by (simp add: same_overlay_def)

lemma spend_from_db_overlay: "spend_from_db many tx_hash rows s = Inr (s', v) \<Longrightarrow> same_overlay s s'"
proof (induction rows arbitrary: s)
  case (Cons row rows)
  obtain k r where row: "row = (k, r)" by (cases row)
  let ?key = "\<lambda>k r. 117 # take HASHX_LEN r @ takelast 9 k"
  from Cons.prems obtain x where
      x: "(if many then rbind (unpack_le_uint64 (takelast 5 k @ zero_bytes 3)) (\<lambda>tx_num.
               rbind (fs_tx_hash (bp_db s) tx_num) (\<lambda>(d, fs_hash, _).
                 if fs_hash \<noteq> Some tx_hash
                 then (if fs_hash = None then Inl AssertionError else Inr (s\<lparr>bp_db := d\<rparr>, False))
                 else Inr (s\<lparr>bp_db := d\<rparr>, True)))
             else Inr (s, True)) = Inr x"
      and rest: "(case x of (s1, mine) \<Rightarrow> if \<not> mine then spend_from_db many tx_hash rows s1
        else case kv_get (utxo_db (bp_db s1)) (?key k r) of
            Some (b # bs) \<Rightarrow> Inr (s1\<lparr>db_deletes := db_deletes s1 @ [k, ?key k r]\<rparr>,
              take HASHX_LEN r @ drop HASHX_LEN r @ takelast 5 k @ b # bs)
          | _ \<Rightarrow> spend_from_db many tx_hash rows s1) = Inr (s', v)"
    unfolding row spend_from_db.simps Let_def rbind_eq_Inr by blast
  obtain s1 mine where x': "x = (s1, mine)" by (cases x)
  have s: "same_overlay s s1" using x unfolding x' by (auto simp: rbind_eq_Inr same_overlay_def split: if_splits)
  have "same_overlay s1 s'"
  proof (cases "mine \<and> truthy (kv_get (utxo_db (bp_db s1)) (?key k r)) \<noteq> None")
    case True
    then obtain b bs where "kv_get (utxo_db (bp_db s1)) (?key k r) = Some (b # bs)"
      by (auto simp: truthy_def split: option.splits list.splits)
    with rest True x' show ?thesis by (auto simp: same_overlay_def)
  next
    case False
    then have "spend_from_db many tx_hash rows s1 = Inr (s', v)"
      using rest x' by (auto simp: truthy_def split: if_splits option.splits list.splits)
    then show ?thesis by (rule Cons.IH)
  qed
  with s show ?case by (rule same_overlay_trans)
qed simp

lemma spend_utxo_overlay: assumes "spend_utxo tx_hash i s = Inr (s', v)" shows "same_overlay s s'"
proof -
  from assms obtain idx where idx: "pack_le_uint32 (int i) = Inr idx" by (auto simp: spend_utxo_def rbind_eq_Inr)
  let ?s = "s\<lparr>utxo_cache := dict_del (tx_hash @ idx) (utxo_cache s)\<rparr>"
  have s: "same_overlay s ?s" by (simp add: same_overlay_def)
  show ?thesis
  proof (cases "truthy (map_of (utxo_cache s) (tx_hash @ idx))")
    case None
    then obtain many rows where "spend_from_db many tx_hash rows ?s = Inr (s', v)"
      using assms idx by (auto simp: spend_utxo_def Let_def truthy_def split: option.splits list.splits)
    from same_overlay_trans [OF s spend_from_db_overlay [OF this]] show ?thesis .
  next
    case (Some w)
    then show ?thesis using assms idx s by (auto simp: spend_utxo_def Let_def truthy_def split: option.splits list.splits)
  qed
qed

lemma advance_input_overlay: "advance_input ov (s, blk, tx) txin = Inr (s', blk', tx') \<Longrightarrow> same_overlay s s'"
  by (auto simp: advance_input_def Let_def rbind_eq_Inr split: if_splits option.splits dest: spend_utxo_overlay)

lemma track_singleton_overlay: "track_singleton tx_hash spent (s, rest) ref = (s', rest') \<Longrightarrow> same_overlay s s'"
  by (auto simp: track_singleton_def Let_def same_overlay_def split: prod.splits if_splits option.splits)

lemma track_normal_overlay: "track_normal tx_hash spent (s, rest) ref = (s', rest') \<Longrightarrow> same_overlay s s'"
  by (auto simp: track_normal_def same_overlay_def split: prod.splits if_splits)

lemma foldl_overlay:
  assumes "\<And>s rest x s' rest'. step (s, rest) x = (s', rest') \<Longrightarrow> same_overlay s s'"
  shows "foldl step (s, rest) xs = (s', rest') \<Longrightarrow> same_overlay s s'"
proof (induction xs arbitrary: s rest)
  case (Cons x xs)
  obtain s1 rest1 where 1: "step (s, rest) x = (s1, rest1)" by fastforce
  with Cons.prems have "same_overlay s1 s'" by (intro Cons.IH) simp
  with assms [OF 1] show ?case by (rule same_overlay_trans)
qed simp

lemma foldM_overlay:
  assumes "\<And>s rest x s' rest'. step (s, rest) x = Inr (s', rest') \<Longrightarrow> same_overlay s s'"
  shows "foldM step (s, rest) xs = Inr (s', rest') \<Longrightarrow> same_overlay s s'"
proof (induction xs arbitrary: s rest)
  case (Cons x xs)
  from Cons.prems obtain s1 rest1 where 1: "step (s, rest) x = Inr (s1, rest1)" "foldM step (s1, rest1) xs = Inr (s', rest')"
    by (auto simp: rbind_eq_Inr)
  from assms [OF 1(1)] Cons.IH [OF 1(2)] show ?case by (rule same_overlay_trans)
qed simp

lemma advance_refs_overlay:
  assumes "advance_refs sha ov tx_hash spent cache_key idx txout (s, rest) = Inr (s', rest')"
  shows "same_overlay s s'"
proof -
  have credit: "same_overlay x y" if "credit_output sha ov cache_key txout keys (x, r) = (y, r')" for keys x y r r'
    using that by (auto simp: credit_output_def Let_def same_overlay_def split: prod.splits if_splits)
  have put: "same_overlay (fst st) (fst (put_refs cache_key val st))" for val and st :: "'a adv"
    by (cases st) (simp add: put_refs_def same_overlay_def)
  have collect: "fst (collect_output_refs idx keys n d (s, rest)) = s" for keys n d
    by (cases rest) (simp add: collect_output_refs_def)
  have fold: "same_overlay (fst st) (fst (foldl (track_normal tx_hash spent) (foldl (track_singleton tx_hash spent) st xs) ys))"
    for st xs ys
  proof -
    obtain a b c d e f where r: "st = (a, b)" "foldl (track_singleton tx_hash spent) st xs = (c, d)"
        "foldl (track_normal tx_hash spent) (c, d) ys = (e, f)" by (metis surj_pair)
    have "same_overlay a c" by (rule foldl_overlay [OF _ r(2) [unfolded r(1)]]) (rule track_singleton_overlay)
    moreover have "same_overlay c e" by (rule foldl_overlay [OF _ r(3)]) (rule track_normal_overlay)
    ultimately have "same_overlay a e" by (rule same_overlay_trans)
    then show ?thesis using r by simp
  qed
  show ?thesis
  proof (cases "get_push_input_refs (pk_script txout)")
    case (Inl e)
    with assms show ?thesis by (auto simp: advance_refs_def split: if_splits)
  next
    case (Inr r)
    obtain a n d where r: "r = (a, n, d)" by (cases r) blast
    let ?st = "collect_output_refs idx (dict_keys (dedup_refs a)) (dedup_refs n) (dedup_refs d) (s, rest)"
    show ?thesis
    proof (cases "refs_value (dedup_refs n) (dedup_refs d) (dict_keys (dedup_refs a))")
      case (Inl e)
      with assms Inr r collect [of "dict_keys (dedup_refs a)" "dedup_refs n" "dedup_refs d"] show ?thesis
        by (auto simp: advance_refs_def Let_def split: if_splits)
    next
      case val: (Inr val)
      let ?st1 = "foldl (track_normal tx_hash spent) (foldl (track_singleton tx_hash spent) (put_refs cache_key val ?st)
          (dict_keys (dedup_refs d))) (dict_keys (dedup_refs n))"
      have "credit_output sha ov cache_key txout (dict_keys (dedup_refs a)) ?st1 = (s', rest')"
        using assms Inr r val by (simp add: advance_refs_def Let_def)
      then have "same_overlay (fst ?st1) s'" using credit by (metis prod.collapse)
      moreover have "same_overlay s (fst (put_refs cache_key val ?st))"
        using put [of ?st val] by (simp add: collect)
      ultimately show ?thesis using fold same_overlay_trans by blast
    qed
  qed
qed

lemma advance_output_overlay:
  "advance_output sha ov tx_hash numb spent (s, rest) out = Inr (s', rest') \<Longrightarrow> same_overlay s s'"
  by (auto simp: advance_output_def Let_def rbind_eq_Inr same_overlay_def split: prod.splits if_splits sum.splits
      dest!: advance_refs_overlay)

lemma advance_tx_keeps:
  assumes "advance_tx sha ov (s, blk, n) (tx, tx_hash) = Inr (s', blk', m)" and "overlays_keep P Q ov"
    and "\<And>ctx. ctx_height ctx = height s + 1 \<Longrightarrow> ctx_tx_hash ctx = tx_hash \<Longrightarrow> Q ctx" and "P (overlay_state s)"
  shows "P (overlay_state s') \<and> height s' = height s"
proof -
  let ?acc = "\<lparr>hashXs = [], refs = [], output_refs_by_vout = [], balance_debits = [], balance_credits = [],
           spent_singleton_refs = (if glyph_index ov \<noteq> None then Some {} else None)\<rparr>"
  from assms(1) obtain b s1 blk1 acc1 spent s2 blk2 acc2 ctx where st:
      "foldM (advance_input ov) (s, blk, ?acc) (tx_inputs tx) = Inr (s1, blk1, acc1)"
      "foldM (advance_output sha ov tx_hash b spent) (s1, blk1, acc1) (enumerate 0 (tx_outputs tx)) = Inr (s2, blk2, acc2)"
      "run_overlays ov ctx acc2 (s2\<lparr>touched := touched s2 \<union> set (hashXs acc2) \<union> set (refs acc2)\<rparr>) = Inr s'"
      "ctx_height ctx = height s2 + 1" "ctx_tx_hash ctx = tx_hash"
    unfolding advance_tx_def by (clarsimp simp: rbind_eq_Inr Let_def)
  have "same_overlay s s1" by (rule foldM_overlay [OF _ st(1)]) (metis advance_input_overlay surj_pair)
  moreover have "same_overlay s1 s2" by (rule foldM_overlay [OF advance_output_overlay st(2)])
  ultimately have s2: "same_overlay s s2" by (rule same_overlay_trans)
  then have "Q ctx" using assms(3) st(4,5) by (simp add: same_overlay_def)
  from run_overlays_keep [OF st(3) assms(2) this] s2 assms(4) show ?thesis by (simp add: same_overlay_def)
qed

lemma advance_txs_keep:
  assumes "foldM (advance_tx sha ov) (s, blk, n) txs = Inr (s', blk', m)" and "overlays_keep P Q ov"
    and "\<And>ctx. ctx_height ctx = height s + 1 \<Longrightarrow> ctx_tx_hash ctx \<in> snd ` set txs \<Longrightarrow> Q ctx" and "P (overlay_state s)"
  shows "P (overlay_state s') \<and> height s' = height s"
  using assms(1,3,4)
proof (induction txs arbitrary: s blk n)
  case (Cons txh txs)
  obtain tx h where txh: "txh = (tx, h)" by (cases txh)
  from Cons.prems(1) obtain s1 blk1 n1 where st: "advance_tx sha ov (s, blk, n) (tx, h) = Inr (s1, blk1, n1)"
      "foldM (advance_tx sha ov) (s1, blk1, n1) txs = Inr (s', blk', m)"
    by (auto simp: rbind_eq_Inr txh)
  from advance_tx_keeps [OF st(1) assms(2) _ Cons.prems(3)] Cons.prems(2) have
      1: "P (overlay_state s1) \<and> height s1 = height s" by (simp add: txh)
  with Cons.IH [OF st(2)] Cons.prems(2) show ?case by simp
qed simp

lemma advance_block_keeps:
  assumes "advance_block sha H ov ch blk s = Inr s'" and "overlays_keep P Q ov"
    and "\<And>ctx. ctx_height ctx = height s + 1 \<Longrightarrow> ctx_tx_hash ctx \<in> snd ` set (transactions blk) \<Longrightarrow> Q ctx"
    and "P (overlay_state s)"
  shows "P (overlay_state s')"
proof -
  let ?b = "\<lparr>undo_info = [], ref_loc_undo = [], analytics_spends = [], analytics_adds = [], hashXs_by_tx = [], mints = {}\<rparr>"
  from assms(1) obtain s1 b1 n1 s2 where
      st: "foldM (advance_tx sha ov) (s\<lparr>tx_hashes := tx_hashes s @ [concat (map snd (transactions blk))]\<rparr>, ?b, tx_count s)
        (transactions blk) = Inr (s1, b1, n1)" "run_analytics ov b1 s1 = Inr s2" "overlay_state s' = overlay_state s2"
    by (auto simp: advance_block_def advance_txs_def Let_def rbind_eq_Inr split: if_splits)
  from advance_txs_keep [OF st(1) assms(2)] assms(3,4) have "P (overlay_state s1)" by simp
  with st(2) assms(2) have "P (overlay_state s2)"
    by (fastforce simp: run_analytics_def overlays_keep_def rbind_eq_Inr split: option.splits if_splits
        dest: guarded_keeps [where P = P])
  with st(3) show ?thesis by simp
qed

section \<open>The market index beside the chain\<close>

text \<open>The token index comes first in the code and is a parameter here: it leaves the markets alone.\<close>

definition market_overlays :: "(db \<Rightarrow> tx_ctx \<Rightarrow> 'e option res) \<Rightarrow> (markets, 'e) overlays" where
  "market_overlays glyph = \<lparr>glyph_index = Some (\<lambda>d ctx o'. (o', glyph d ctx)), glyph_balances = (\<lambda>d h ds cs o'. (o', Inr ())),
     wave_index = None, realm_index = None, swap_index = None, predict_index = Some market_process_tx, royalty_index = None,
     analytics_index = None, index_flush = market_flush, index_backup = market_backup, index_memory = market_memory_estimate\<rparr>"

lemma market_process_keeps: "market_ctx_ok ctx \<Longrightarrow> markets_ok s \<Longrightarrow> markets_ok (fst (market_process_tx d ctx env s))"
  using market_process_tx_cases [of d ctx env s] markets_ok_set by auto

lemma market_process_calm: "snd (market_process_tx d ctx env s) = Inr ()"
  using market_process_tx_cases [of d ctx env s] by auto

lemma market_overlays_keep: "overlays_keep markets_ok market_ctx_ok (market_overlays glyph)"
  by (simp add: overlays_keep_def overlay_keeps_def market_overlays_def market_process_keeps)

lemma market_overlays_calm: "(\<And>d ctx. glyph d ctx \<noteq> Inl MemoryError) \<Longrightarrow> calm_overlays (market_overlays glyph)"
  by (simp add: calm_overlays_def calm_overlay_def calm_def market_overlays_def market_process_calm)

text \<open>A key of the index.\<close>

definition market_key :: "bytes \<Rightarrow> bool" where
  "market_key k \<longleftrightarrow> (\<exists>r. k = 80 # r)"

lemma market_keys_market: "k \<in> market_keys s ht \<Longrightarrow> market_key k"
  by (auto simp: market_keys_def market_key_def MARKET_def BY_HEIGHT_def)

lemma undo_key_market: "starts_with MARKET_UNDO k \<Longrightarrow> market_key k"
  by (auto simp: starts_with_def market_key_def MARKET_UNDO_def take_Cons' split: if_splits)
    (metis append_Cons append_take_drop_id)

lemma market_ops_keys:
  assumes "markets_ok s" and "market_flush d s = Inr (ops, s')" and "op \<in> set ops"
  shows "market_key (op_key op)"
proof -
  have on: "market_on s" using assms(1) by (auto simp: markets_ok_def market_on_def no_empty_entry_def no_undo_def)
  from market_undo.flush_plan [OF on assms(2)] obtain old n puts where f: "prune_undo MARKET_UNDO d n = Inr old"
      "undo_written MARKET_UNDO (log_plan (utxo_db d) (market_plan s) (market_log s)) puts"
      "ops = fst old @ map snd (market_plan s) @ puts" by blast
  consider "op \<in> set (fst old)" | h where "(h, op) \<in> set (market_plan s)" | "op \<in> set puts" using assms(3) f(3) by auto
  then show ?thesis
  proof cases
    case 1
    with prune_undo_keys [OF f(1)] show ?thesis using undo_key_market by blast
  next
    case (2 h)
    then show ?thesis unfolding market_plan_mem [OF assms(1)] by (auto simp: market_key_def MARKET_def BY_HEIGHT_def)
  next
    case 3
    with undo_written_keys [OF f(2)] show ?thesis using undo_key_market by blast
  qed
qed

lemma market_flush_enabled: "market_flush d s = Inr (ops, s') \<Longrightarrow> mk_enabled s' = mk_enabled s"
  by (auto simp: market_flush_def rbind_eq_Inr split: if_splits)

lemma market_safe_flush:
  assumes "markets_ok (overlay_state s)" and "values_fit (utxo_db (bp_db s))" and "height s < 2 ^ 32"
    and "0 \<le> reorg_limit (bp_db s)"
  shows "safe_flush (market_overlays glyph) s"
  unfolding safe_flush_def
proof (intro allI impI)
  fix d assume "index_view (bp_db s) (height s) d"
  then have d: "values_fit (utxo_db d)" "db_height d < 2 ^ 32" "0 \<le> reorg_limit d" using assms by (simp_all add: index_view_def)
  from market_flush_total [OF assms(1) d] obtain ops o' where f: "market_flush d (overlay_state s) = Inr (ops, o')" by blast
  have "core_safe (height s) ops"
    using market_ops_keys [OF assms(1) f] by (fastforce simp: core_safe_def market_key_def)
  with f show "\<exists>ops o'. index_flush (market_overlays glyph) d (overlay_state s) = Inr (ops, o') \<and> core_safe (height s) ops"
    by (auto simp: market_overlays_def)
qed

text \<open>What the core puts into a batch never creates a row of the index.\<close>

lemma fold_op_deletes:
  assumes "\<And>op. op \<in> set ops \<Longrightarrow> op_key op = k \<Longrightarrow> op = Delete k" and "m k = None"
  shows "fold op_map ops m k = None"
  using assms
proof (induction ops arbitrary: m)
  case (Cons op ops)
  have "op_map op m k = None" using Cons.prems(1) [of op] Cons.prems(2) by (cases op) auto
  then show ?case using Cons by simp
qed simp

lemma core_ops_keys:
  assumes "flush_utxo_db d f = Inr (bops, d', f')" and "\<forall>k \<in> set (dict_keys (fd_data_adds f)). \<exists>r. k = 114 # 98 # r"
    and "op \<in> set bops" and "market_key (op_key op)"
  shows "op = Delete (op_key op)"
proof -
  from flush_utxo_db_eq [OF assms(1)] obtain undos ref_undos where
      b: "flush_undo_infos (fd_undo_infos f) = Inr undos" "flush_ref_loc_undo_infos (fd_ref_loc_undo_infos f) = Inr ref_undos"
      "bops = map Delete (sort (fd_deletes f)) @ utxo_puts (fd_adds f) @ other_ops f undos ref_undos" by blast
  have "\<not> market_key (op_key op)" if "op \<in> set (utxo_puts (fd_adds f))"
    using that by (auto simp: utxo_puts_rows utxo_rows_def h_row_def u_row_def market_key_def)
  moreover have "\<not> market_key (op_key op)" if "op \<in> set (other_ops f undos ref_undos)"
    using that assms(2) undo_ops_keys [OF b(1)] ref_undo_ops_keys [OF b(2)]
    by (fastforce simp: other_ops_def table_puts_def market_key_def dict_keys_def)
  ultimately show ?thesis using assms(3,4) b(3) by auto
qed

lemma bp_flush_store:
  assumes "bp_flush ov now True s = Inr s'" and "height s \<noteq> db_height (bp_db s)" and "tx_counts (bp_db s) = Some tcs"
    and "data_keys s"
  shows "\<exists>d bops iops. index_flush ov d (overlay_state s) = Inr (iops, overlay_state s') \<and> index_view (bp_db s) (height s) d
    \<and> utxo_db (bp_db s') = apply_batch (bops @ iops) (utxo_db (bp_db s)) \<and> reorg_limit (bp_db s') = reorg_limit (bp_db s)
    \<and> (\<forall>op \<in> set bops. market_key (op_key op) \<longrightarrow> op = Delete (op_key op))"
proof -
  let ?d = "bp_db s" and ?f = "flush_data_of s"
  from assms(1) obtain d' f' ox where
      fl: "flush_dbs now now (\<lambda>d. index_flush ov d (overlay_state s)) ?f True ?d = Inr (d', f', ox)"
      and s': "s' = (let t = after_flush s (d', f');
            t = (case ox of None \<Rightarrow> t | Some o' \<Rightarrow> t\<lparr>overlay_state := o'\<rparr>);
            t = (if touched t \<noteq> {} then t\<lparr>bp_db := invalidate_balance_cache (bp_db t) (touched t)\<rparr> else t)
        in t\<lparr>next_cache_check := now + 30\<rparr>)"
    by (auto simp: bp_flush_def rbind_eq_Inr Let_def)
  have "fd_height ?f \<noteq> db_height ?d" using assms(2) by (simp add: flush_data_of_def)
  from flush_dbs_eq [OF fl this] obtain d1 f1 h bops d2 iops o' where st: "flush_fs ?d ?f = Inr (d1, f1)"
      "flush_utxo_db (d1\<lparr>db_history := h\<rparr>) f1 = Inr (bops, d2, f')"
      "d' = flush_state now ((flush_state now d2)\<lparr>utxo_db := apply_batch (bops @ iops) (utxo_db d2)\<rparr>)"
      "index_flush ov d2 (overlay_state s) = Inr (iops, o')" "ox = Some o'" by blast
  from flush_fs_eq [OF st(1) assms(3)] obtain hf cf tf where fs: "f1 = ?f\<lparr>fd_headers := [], fd_block_tx_hashes := []\<rparr>"
      "d1 = ?d\<lparr>headers_file := hf, tx_counts_file := cf, hashes_file := tf, fs_height := height s, fs_tx_count := tx_count s\<rparr>"
    by (auto simp: flush_data_of_def)
  from flush_utxo_db_eq [OF st(2)] have d2: "d2 = d1\<lparr>db_history := h, utxo_flush_count := flush_count h,
        db_height := fd_height f1, db_tx_count := fd_tx_count f1, db_tip := fd_tip f1\<rparr>" by auto
  have "index_view ?d (height s) d2" by (simp add: index_view_def d2 fs flush_data_of_def)
  moreover have "overlay_state s' = o'" "utxo_db (bp_db s') = apply_batch (bops @ iops) (utxo_db ?d)"
      "reorg_limit (bp_db s') = reorg_limit ?d"
    by (simp_all add: s' st(3,5) d2 fs(2) Let_def after_flush_def flush_state_def write_utxo_state_def invalidate_balance_cache_def)
  moreover have "\<forall>k \<in> set (dict_keys (fd_data_adds f1)). \<exists>r. k = 114 # 98 # r"
    using assms(4) by (simp add: fs(1) flush_data_of_def data_keys_def)
  ultimately show ?thesis using st(4) core_ops_keys [OF st(2)] by blast
qed

text \<open>What the index reverts after a flush of its own: its own keys only.\<close>

lemma market_reverts:
  assumes "markets_ok s" and "values_fit (utxo_db d)" and "market_flush d s = Inr (ops, s1)" and "kv_ok kv"
    and "db_height d - reorg_limit d < ht \<or> reorg_limit d = 0" and "0 \<le> ht" and "ht < 2 ^ 32"
    and "kv_get kv (MARKET_UNDO @ be_enc 4 (nat ht)) = None"
  shows "\<exists>ops'. revert_undo MARKET_UNDO (apply_batch ops kv) ht = Inr ops' \<and> (\<forall>op \<in> set ops'. market_key (op_key op))"
proof -
  let ?log = "log_plan (utxo_db d) (market_plan s) (market_log s)" and ?uk = "MARKET_UNDO @ be_enc 4 (nat ht)"
  have on: "market_on s" using assms(1) by (auto simp: markets_ok_def market_on_def no_empty_entry_def no_undo_def)
  from market_undo.flush_plan [OF on assms(3)] obtain old n puts where f: "prune_undo MARKET_UNDO d n = Inr old"
      "undo_written MARKET_UNDO ?log puts" "ops = (fst old @ map snd (market_plan s)) @ puts" by auto
  note log = market_logged [OF assms(1,2), of ht]
  have "op_key op \<noteq> ?uk" if "op \<in> set (fst old @ map snd (market_plan s))" for op
    using that prune_undo_below [OF f(1) assms(5-7)] market_undo.plan_keys [OF on, of _ op] by (auto simp: starts_with_def)
  then have w: "kv_get (apply_batch ops kv) ?uk = (if undo_at ?log ht = [] then None else Some (projr (encode_undo (undo_at ?log ht))))
      \<and> (undo_at ?log ht \<noteq> [] \<longrightarrow> (\<exists>blob. encode_undo (undo_at ?log ht) = Inr blob))"
    using flush_writes_log [OF log [THEN conjunct1] f(2) assms(4) _ assms(6,7), of "fst old @ map snd (market_plan s)"] assms(8)
    by (auto simp: f(3))
  show ?thesis
  proof (cases "undo_at ?log ht = []")
    case True
    then show ?thesis using w by (simp add: revert_undo_def height_key_fits [OF assms(6,7)])
  next
    case False
    then obtain blob where blob: "encode_undo (undo_at ?log ht) = Inr blob" using w by blast
    have fits: "\<forall>e \<in> set (undo_at ?log ht). undo_entry_fits e" using undo_ok_at [OF log [THEN conjunct1]] by blast
    then have dec: "decode_undo blob = undo_at ?log ht" using undo_codec [OF fits] blob by auto
    have ne: "blob \<noteq> []" using encode_undo_nonempty [OF blob False fits] .
    have "revert_undo MARKET_UNDO (apply_batch ops kv) ht = Inr (map restore_op (undo_at ?log ht) @ [Delete ?uk])"
      using w False blob dec ne by (cases blob) (simp_all add: revert_undo_def height_key_fits [OF assms(6,7)])
    moreover have "market_key (op_key op)" if "op \<in> set (map restore_op (undo_at ?log ht) @ [Delete ?uk])" for op
    proof -
      have "market_key (op_key (restore_op e))" if "e \<in> set (undo_at ?log ht)" for e
      proof -
        have "op_key (restore_op e) = fst e" by (cases e; cases "snd e") (simp_all add: restore_op_def)
        moreover have "fst e \<in> market_keys s ht" using that log unfolding logged_def by blast
        ultimately show ?thesis using market_keys_market by simp
      qed
      with that show ?thesis by (auto simp: market_key_def MARKET_UNDO_def)
    qed
    ultimately show ?thesis by blast
  qed
qed

lemma market_safe_backup:
  assumes "bp_flush (market_overlays glyph) now True a = Inr s1" and "height a \<noteq> db_height (bp_db a)"
    and "tx_counts (bp_db a) = Some tcs" and "data_keys a" and "markets_ok (overlay_state a)"
    and "kv_ok (utxo_db (bp_db a))" and "values_fit (utxo_db (bp_db a))" and "0 \<le> height a" and "height a < 2 ^ 32"
    and "0 \<le> reorg_limit (bp_db a)" and "kv_get (utxo_db (bp_db a)) (MARKET_UNDO @ be_enc 4 (nat (height a))) = None"
    and "height s2 = height a" and "utxo_db (bp_db s2) = utxo_db (bp_db s1)" and "overlay_state s2 = overlay_state s1"
  shows "safe_backup (market_overlays glyph) s2"
proof -
  let ?kv = "utxo_db (bp_db a)" and ?uk = "MARKET_UNDO @ be_enc 4 (nat (height a))"
  from bp_flush_store [OF assms(1-4)] obtain d bops iops where
      f: "market_flush d (overlay_state a) = Inr (iops, overlay_state s1)" "index_view (bp_db a) (height a) d"
      "utxo_db (bp_db s1) = apply_batch iops (apply_batch bops ?kv)"
      "\<forall>op \<in> set bops. market_key (op_key op) \<longrightarrow> op = Delete (op_key op)"
    by (auto simp: market_overlays_def apply_batch_def)
  have d: "values_fit (utxo_db d)" "db_height d - reorg_limit d < height a \<or> reorg_limit d = 0"
    using f(2) assms(7,10) by (auto simp: index_view_def)
  have "market_key ?uk" by (simp add: market_key_def MARKET_UNDO_def)
  then have "kv_get (apply_batch bops ?kv) ?uk = None"
    unfolding kv_get_apply_batch [OF assms(6)] using f(4) assms(11) by (intro fold_op_deletes) auto
  from market_reverts [OF assms(5) d(1) f(1) _ d(2) assms(8,9) this] assms(6) obtain ops' where
      r: "revert_undo MARKET_UNDO (utxo_db (bp_db s1)) (height a) = Inr ops'" "\<forall>op \<in> set ops'. market_key (op_key op)"
    unfolding f(3) by auto
  have "mk_enabled (overlay_state s1)" using market_flush_enabled [OF f(1)] assms(5) by (simp add: markets_ok_def)
  then have "index_backup (market_overlays glyph) d' (height s2) (overlay_state s2) = Inr (ops', overlay_state s2)"
    if "index_view (bp_db s2) (height s2) d'" for d'
    using that r(1) assms(12-14) by (simp add: market_overlays_def market_backup_def index_view_def)
  moreover have "\<forall>op \<in> set ops'. \<not> utxo_key (op_key op)" using r(2) by (fastforce simp: market_key_def)
  ultimately show ?thesis unfolding safe_backup_def backup_safe_at_def by blast
qed

text \<open>Any block on any flushed chain, with the undo row of its height free.\<close>

lemma market_block_taken:
  assumes "flushed T s U tcs" and "extends sha T U (tip s) raw_block blk" and "room s" and "markets_ok (overlay_state s)"
    and "values_fit (utxo_db (bp_db s))" and "advance_block sha H (market_overlays glyph) (height s + 1) blk s = Inr a"
  shows "safe_flush (market_overlays glyph) a \<and> markets_ok (overlay_state a)"
proof -
  have e: "block_ok sha T (transactions blk)" using assms(2) by (simp add: extends_def)
  obtain U' vss where ap: "apply_txs sha (length T) (transactions blk) U = Some (U', vss)"
    using assms(2) by (auto simp: extends_def)
  have f: "chain_inv T (length T) s U" "counts_ok T s tcs" using assms(1) by (simp_all add: flushed_def)
  from advance_block_rep [OF assms(6) f ap e] obtain h c rb where
      a: "height a = height s + 1" "bp_db a = (bp_db s)\<lparr>tx_hash_cache := c, db_history := h,
          tx_counts := Some (tcs @ [length T + length (transactions blk)]), raw_blocks := rb\<rparr>"
    by (elim exE conjE) (rule that, assumption+)
  have r: "0 \<le> height a" "height a < 2 ^ 32" "0 \<le> reorg_limit (bp_db a)" using assms(3) by (simp_all add: room_def a)
  have ok: "markets_ok (overlay_state a)"
  proof (rule advance_block_keeps [OF assms(6) market_overlays_keep])
    fix ctx :: tx_ctx
    assume "ctx_height ctx = height s + 1" "ctx_tx_hash ctx \<in> snd ` set (transactions blk)"
    moreover have "\<forall>txh \<in> set (transactions blk). length (snd txh) = 32" using e by (simp add: block_ok_def tx_ok_def)
    ultimately show "market_ctx_ok ctx" using r by (auto simp: market_ctx_ok_def a(1))
  qed (rule assms(4))
  have "safe_flush (market_overlays glyph) a"
    by (rule market_safe_flush [OF ok]) (use assms(5) r in \<open>simp_all add: a(2)\<close>)
  with ok show ?thesis by blast
qed

lemma market_block_flushed:
  assumes "flushed T s U tcs" and "extends sha T U (tip s) raw_block blk" and "room s" and "markets_ok (overlay_state s)"
    and "values_fit (utxo_db (bp_db s))" and "kv_get (utxo_db (bp_db s)) (MARKET_UNDO @ be_enc 4 (nat (height s + 1))) = None"
    and "advance_blocks sha H (market_overlays glyph) (height s + 1) cache_MB now [raw_block] s = Inr s1"
  shows "safe_backup (market_overlays glyph) s1"
proof -
  have e: "read_block sha raw_block = Inr blk" "header_prevhash (header blk) = tip s" "block_ok sha T (transactions blk)"
    using assms(2) by (simp_all add: extends_def)
  obtain U' vss where ap: "apply_txs sha (length T) (transactions blk) U = Some (U', vss)"
    using assms(2) by (auto simp: extends_def)
  have f: "chain_inv T (length T) s U" "counts_ok T s tcs" "db_height (bp_db s) = height s" "kv_ok (utxo_db (bp_db s))"
    using assms(1) flushed_disk [OF assms(1)] by (simp_all add: flushed_def disk_rep_def)
  obtain a where run: "advance_block sha H (market_overlays glyph) (height s + 1) blk s = Inr a"
    using assms(7) by (auto simp: advance_blocks_def e(1,2) rbind_eq_Inr)
  from advance_block_rep [OF run f(1,2) ap e(3)] obtain h c rb where
      a: "chain_inv (T @ map snd (transactions blk)) (length T) a U'" "height a = height s + 1"
        "bp_db a = (bp_db s)\<lparr>tx_hash_cache := c, db_history := h,
          tx_counts := Some (tcs @ [length T + length (transactions blk)]), raw_blocks := rb\<rparr>"
    by (elim exE conjE) (rule that, assumption+)
  note ok = market_block_taken [OF assms(1-5) run]
  from assms(7) obtain a' where fl: "bp_flush (market_overlays glyph) now True a = Inr a'" and s1: "s1 = a'\<lparr>touched := {}\<rparr>"
    by (auto simp: advance_blocks_def e(1,2) run a(2) rbind_eq_Inr)
  have keep: "height a' = height a"
    using bp_flush_rep [OF fl advance_pending [OF run assms(1) ap e(3)] ok [THEN conjunct1]] by blast
  have free: "kv_get (utxo_db (bp_db a)) (MARKET_UNDO @ be_enc 4 (nat (height a))) = None" using assms(6) by (simp add: a(2,3))
  have "data_keys a" using a(1) by (simp add: chain_inv_def)
  from market_safe_backup [OF fl _ _ this ok [THEN conjunct2] _ _ _ _ _ free, of _ s1] assms(3,5) f(3,4) keep show ?thesis
    by (simp add: room_def a(2,3) s1)
qed

text \<open>The sample block is taken and undone with the index on.\<close>

theorem block_reorg_roundtrip_witness:
  "\<exists>s1 s2. advance_blocks sample_sha sample_sha (market_overlays (\<lambda>d ctx. Inr (None :: unit option))) 1 1000 0 [sample_raw_block]
        (sample_chain (new_market_index True sample_db)) = Inr s1
    \<and> back_up_blocks sample_sha sample_sha (market_overlays (\<lambda>d ctx. Inr (None :: unit option))) 0 (\<lambda>h. Inl RuntimeError) [''00''] 1 s1
      = Inr s2
    \<and> flushed [] s2 Map.empty [0] \<and> height s2 = 0 \<and> tip s2 = replicate 32 0
    \<and> (\<forall>hX. length hX = 11 \<longrightarrow> history_of (db_history (bp_db s2)) hX = [])"
proof -
  let ?s = "sample_chain (new_market_index True sample_db)" and ?ov = "market_overlays (\<lambda>d ctx. Inr (None :: unit option))"
  have s: "height ?s = 0" "tip ?s = replicate 32 0" "overlay_state ?s = new_market_index True sample_db" "bp_db ?s = sample_db"
      "utxo_db sample_db = []"
    by (simp_all add: sample_chain_def sample_db_def)
  have ok: "markets_ok (overlay_state ?s)" by (simp add: s)
  have fits: "values_fit (utxo_db (bp_db ?s))" by (simp add: s values_fit_def kv_get_def)
  have free: "kv_get (utxo_db (bp_db ?s)) (MARKET_UNDO @ be_enc 4 (nat (height ?s + 1))) = None" by (simp add: s kv_get_def)
  have hist: "history_of (db_history (bp_db ?s)) hX = []" if "length hX = 11" for hX
    using sample_below [of "new_market_index True sample_db"] that by (auto simp: below_def)
  have "\<exists>s1 s2. advance_blocks sample_sha sample_sha ?ov (height ?s + 1) 1000 0 [sample_raw_block] ?s = Inr s1
      \<and> back_up_blocks sample_sha sample_sha ?ov 0 (\<lambda>h. Inl RuntimeError) [''00''] (height ?s + 1) s1 = Inr s2
      \<and> flushed [] s2 Map.empty [0] \<and> height s2 = height ?s \<and> tip s2 = tip ?s
      \<and> (\<forall>hX. length hX = 11 \<longrightarrow> history_of (db_history (bp_db s2)) hX = history_of (db_history (bp_db ?s)) hX)"
  proof (rule block_reorg_roundtrip [OF sample_flushed _ sample_extends market_overlays_calm sample_room])
    show "safe_flush ?ov a"
      if "advance_block sample_sha sample_sha ?ov (height ?s + 1) \<lparr>raw = sample_raw_block, header = replicate 80 0,
          transactions = [(one_tx, take 32 one_raw_tx)]\<rparr> ?s = Inr a" for a
      using market_block_taken [OF sample_flushed sample_extends sample_room ok fits that] by blast
    show "safe_backup ?ov s1"
      if "advance_blocks sample_sha sample_sha ?ov (height ?s + 1) 1000 0 [sample_raw_block] ?s = Inr s1" for s1
      by (rule market_block_flushed [OF sample_flushed sample_extends sample_room ok fits free that])
  qed (simp_all add: s(1) sample_below)
  then show ?thesis using s hist by simp
qed

end
