(* ===== verification/Mempool.thy ===== *)
theory Mempool
  imports Chain "HOL-Library.Multiset"
begin

text \<open>
  The view of the daemon's mempool (\<open>electrumx/server/mempool.py\<close>): accepting transactions whose
  inputs are known, deferring the others, removing those that have gone, and the queries on addresses.
  The daemon's answers, the lookups in the database and the order in which the concurrent fetches
  complete are arguments; the token view of the mempool is a pair of functions on its own state, whose
  exceptions the code catches.
\<close>

section \<open>State\<close>

type_synonym prevout = "bytes \<times> nat"
type_synonym pair = "bytes \<times> int"

text \<open>\<open>in_pairs\<close> is \<open>None\<close> in the code until the transaction is accepted; it is empty here.\<close>

record mempool_tx =
  prevouts :: "prevout list"
  in_pairs :: "pair list"
  out_pairs :: "pair list"
  tx_fee :: int
  tx_vsize :: nat
  out_srefs :: "bytes list list"
  idx_to_script :: "bytes list"

record 'g glyph_view =
  process_mempool_tx :: "bytes \<Rightarrow> mempool_tx \<Rightarrow> 'g \<Rightarrow> 'g"
  remove_mempool_tx :: "bytes \<Rightarrow> 'g \<Rightarrow> 'g"

record 'g mempool =
  txs :: "(bytes, mempool_tx) dict"
  hashXs :: "bytes \<Rightarrow> bytes set option"
  srefs :: "bytes \<Rightarrow> bytes list option"
  outpoint_refs :: "bytes \<Rightarrow> bytes option"
  glyph_mempool :: 'g

definition empty_mempool :: "'g \<Rightarrow> 'g mempool" where
  "empty_mempool g = \<lparr>txs = [], hashXs = Map.empty, srefs = Map.empty, outpoint_refs = Map.empty, glyph_mempool = g\<rparr>"

text \<open>A \<open>defaultdict\<close>: a missing entry reads as empty.\<close>

definition entry :: "'a \<Rightarrow> ('k \<Rightarrow> 'a option) \<Rightarrow> 'k \<Rightarrow> 'a" where
  "entry x m k = (case m k of None \<Rightarrow> x | Some y \<Rightarrow> y)"

section \<open>Accepting transactions\<close>

definition find_utxo :: "(prevout \<Rightarrow> pair option option) \<Rightarrow> (bytes, mempool_tx) dict \<Rightarrow> prevout \<Rightarrow> pair res" where
  "find_utxo utxo_map all prevout =
     (case utxo_map prevout of
        Some (Some utxo) \<Rightarrow> Inr utxo
      | _ \<Rightarrow> (case map_of all (fst prevout) of
          None \<Rightarrow> Inl KeyError
        | Some tx \<Rightarrow> index (out_pairs tx) (snd prevout)))"

definition index_hashX :: "bytes \<Rightarrow> 'g mempool \<Rightarrow> bytes \<Rightarrow> 'g mempool" where
  "index_hashX tx_hash m hashX = m\<lparr>hashXs := (hashXs m)(hashX \<mapsto> insert tx_hash (entry {} (hashXs m) hashX))\<rparr>"

definition index_sref :: "bytes \<Rightarrow> 'g mempool \<Rightarrow> bytes \<Rightarrow> 'g mempool" where
  "index_sref tx_hash m ref_hash =
     (let m = index_hashX tx_hash m ref_hash; hs = entry [] (srefs m) ref_hash in
      m\<lparr>srefs := (srefs m)(ref_hash \<mapsto> if tx_hash \<in> set hs then hs else hs @ [tx_hash])\<rparr>)"

definition output_refs :: "bytes \<Rightarrow> bytes res" where
  "output_refs script =
     rbind (get_push_input_refs script) (\<lambda>(all_refs, normal_refs, singleton_refs).
       refs_value (dedup_refs normal_refs) (dedup_refs singleton_refs) (dict_keys (dedup_refs all_refs)))"

definition index_outpoint :: "bytes \<Rightarrow> 'g mempool \<Rightarrow> nat \<times> bytes \<Rightarrow> 'g mempool res" where
  "index_outpoint tx_hash m out = (case out of (out_idx, script) \<Rightarrow>
     rbind (output_refs script) (\<lambda>val.
       if val = [] then Inr m
       else rbind (pack_le_uint32 (int out_idx)) (\<lambda>i.
         Inr (m\<lparr>outpoint_refs := (outpoint_refs m)(tx_hash @ i \<mapsto> val)\<rparr>))))"

definition touches :: "mempool_tx \<Rightarrow> bytes list" where
  "touches tx = map fst (in_pairs tx) @ map fst (out_pairs tx) @ concat (out_srefs tx)"

definition sum_values :: "pair list \<Rightarrow> int" where
  "sum_values ps = sum_list (map snd ps)"

text \<open>The fee is not negative even when inputs are missing, as in generation-like transactions.\<close>

definition with_inputs :: "mempool_tx \<Rightarrow> pair list \<Rightarrow> mempool_tx" where
  "with_inputs tx pairs = tx\<lparr>in_pairs := pairs, tx_fee := max 0 (sum_values pairs - sum_values (out_pairs tx))\<rparr>"

definition accept_tx :: "'g glyph_view \<Rightarrow> bytes \<Rightarrow> mempool_tx \<Rightarrow> 'g mempool \<Rightarrow> 'g mempool res" where
  "accept_tx gv tx_hash tx m =
     (let m = m\<lparr>txs := dict_set tx_hash tx (txs m),
                glyph_mempool := process_mempool_tx gv tx_hash tx (glyph_mempool m)\<rparr>;
          m = foldl (index_hashX tx_hash) m (map fst (in_pairs tx @ out_pairs tx));
          m = foldl (index_sref tx_hash) m (concat (out_srefs tx))
      in foldM (index_outpoint tx_hash) m (enumerate 0 (idx_to_script tx)))"

text \<open>The state of the loop: the deferred transactions, the outpoints spent so far, the addresses
  touched and the mempool.\<close>

type_synonym 'g accepting = "(bytes, mempool_tx) dict \<times> prevout set \<times> bytes set \<times> 'g mempool"

definition try_accept ::
    "'g glyph_view \<Rightarrow> (prevout \<Rightarrow> pair option option) \<Rightarrow> 'g accepting \<Rightarrow> bytes \<times> mempool_tx \<Rightarrow> 'g accepting res" where
  "try_accept gv utxo_map st item = (case (st, item) of ((deferred, spent, moved, m), (tx_hash, tx)) \<Rightarrow>
     case mapM (find_utxo utxo_map (txs m)) (prevouts tx) of
       Inl KeyError \<Rightarrow> Inr (dict_set tx_hash tx deferred, spent, moved, m)
     | Inl e \<Rightarrow> Inl e
     | Inr pairs \<Rightarrow>
         let tx = with_inputs tx pairs in
         rbind (accept_tx gv tx_hash tx m) (\<lambda>m.
           Inr (deferred, spent \<union> set (prevouts tx), moved \<union> set (touches tx), m)))"

definition accept_transactions ::
    "'g glyph_view \<Rightarrow> (bytes, mempool_tx) dict \<Rightarrow> (prevout \<Rightarrow> pair option option) \<Rightarrow> bytes set \<Rightarrow> 'g mempool
      \<Rightarrow> ((bytes, mempool_tx) dict \<times> (prevout \<Rightarrow> pair option option) \<times> bytes set \<times> 'g mempool) res" where
  "accept_transactions gv tx_map utxo_map moved m =
     rbind (foldM (try_accept gv utxo_map) ([], {}, moved, m) tx_map) (\<lambda>(deferred, spent, moved, m).
       Inr (deferred, utxo_map |` (- spent), moved, m))"

section \<open>Synchronising\<close>

text \<open>\<open>hashXs[hashX].remove(tx_hash)\<close> raises when the hash is not in the set; emptied entries go.\<close>

definition unindex_hashX :: "bytes \<Rightarrow> 'g mempool \<Rightarrow> bytes \<Rightarrow> 'g mempool res" where
  "unindex_hashX tx_hash m hashX =
     (let S = entry {} (hashXs m) hashX; R = entry [] (srefs m) hashX in
      if tx_hash \<notin> S then Inl KeyError
      else
        let S = S - {tx_hash}; R = (if tx_hash \<in> set R then remove1 tx_hash R else R) in
        Inr (m\<lparr>hashXs := (hashXs m)(hashX := if S = {} then None else Some S),
               srefs := (srefs m)(hashX := if R = [] then None else Some R)\<rparr>))"

definition drop_outpoint :: "bytes \<Rightarrow> 'g mempool \<Rightarrow> nat \<Rightarrow> 'g mempool res" where
  "drop_outpoint tx_hash m out_idx =
     rbind (pack_le_uint32 (int out_idx)) (\<lambda>i. Inr (m\<lparr>outpoint_refs := (outpoint_refs m)(tx_hash @ i := None)\<rparr>))"

definition remove_tx :: "'g glyph_view \<Rightarrow> bytes set \<times> 'g mempool \<Rightarrow> bytes \<Rightarrow> (bytes set \<times> 'g mempool) res" where
  "remove_tx gv st tx_hash = (case st of (moved, m) \<Rightarrow>
     case map_of (txs m) tx_hash of
       None \<Rightarrow> Inl KeyError
     | Some tx \<Rightarrow>
         let m = m\<lparr>txs := dict_del tx_hash (txs m), glyph_mempool := remove_mempool_tx gv tx_hash (glyph_mempool m)\<rparr> in
         rbind (foldM (unindex_hashX tx_hash) m (sorted_list_of_set (set (touches tx)))) (\<lambda>m.
         rbind (foldM (drop_outpoint tx_hash) m [0..<length (idx_to_script tx)]) (\<lambda>m.
           Inr (moved \<union> set (touches tx), m))))"

text \<open>Deserialising what the daemon answered for a batch of hashes.\<close>

definition out_pair :: "(bytes \<Rightarrow> bytes) \<Rightarrow> TxOutput \<Rightarrow> pair res" where
  "out_pair sha txout = rbind (zero_refs (pk_script txout)) (\<lambda>script. Inr (hashX_from_script sha script, out_value txout))"

text \<open>\<open>normal_mints\<close>: of the first three normal references, those whose outpoint an input spends, once
  per such input.\<close>

definition normal_mints :: "TxInput list \<Rightarrow> bytes list \<Rightarrow> bytes list res" where
  "normal_mints ins normal_refs =
     rbind (mapM (\<lambda>ref. rbind (mapM (\<lambda>txin.
         if prev_hash txin = take 32 ref
         then rbind (pack_le_uint32 (int (prev_idx txin))) (\<lambda>i. Inr (if i = drop 32 ref then [ref] else []))
         else Inr []) ins) (\<lambda>rs. Inr (concat rs))) (take 3 normal_refs)) (\<lambda>rs. Inr (concat rs))"

definition output_srefs :: "(bytes \<Rightarrow> bytes) \<Rightarrow> TxInput list \<Rightarrow> TxOutput \<Rightarrow> bytes list res" where
  "output_srefs sha ins txout =
     rbind (get_push_input_refs (pk_script txout)) (\<lambda>(_, normal_refs, singleton_refs).
     rbind (normal_mints ins normal_refs) (\<lambda>mints. Inr (map (hashX_from_script sha) (mints @ singleton_refs))))"

definition deserialize_tx :: "(bytes \<Rightarrow> bytes) \<Rightarrow> bytes \<Rightarrow> mempool_tx res" where
  "deserialize_tx sha raw_tx =
     rbind (read_tx_and_vsize raw_tx 0) (\<lambda>((tx, sz), _).
     rbind (mapM (out_pair sha) (tx_outputs tx)) (\<lambda>pairs.
     rbind (mapM (output_srefs sha (tx_inputs tx)) (tx_outputs tx)) (\<lambda>refs.
       Inr \<lparr>prevouts = map (\<lambda>i. (prev_hash i, prev_idx i)) (filter (\<lambda>i. \<not> is_generation i) (tx_inputs tx)),
            in_pairs = [], out_pairs = pairs, tx_fee = 0, tx_vsize = sz, out_srefs = refs,
            idx_to_script = map pk_script (tx_outputs tx)\<rparr>)))"

text \<open>A missing transaction is answered with \<open>None\<close>.\<close>

fun deserialize_txs :: "(bytes \<Rightarrow> bytes) \<Rightarrow> (bytes \<times> bytes option) list \<Rightarrow> (bytes, mempool_tx) dict \<Rightarrow> (bytes, mempool_tx) dict res" where
  "deserialize_txs sha [] acc = Inr acc"
| "deserialize_txs sha ((tx_hash, raw_tx) # rest) acc =
     (case truthy raw_tx of
        None \<Rightarrow> deserialize_txs sha rest acc
      | Some b \<Rightarrow> rbind (deserialize_tx sha b) (\<lambda>tx. deserialize_txs sha rest (dict_set tx_hash tx acc)))"

text \<open>\<open>raw_transactions\<close> are the daemon's answers for the hashes of a batch, \<open>lookup\<close> those of the
  database for a list of outpoints.\<close>

definition fetch_and_accept ::
    "(bytes \<Rightarrow> bytes) \<Rightarrow> 'g glyph_view \<Rightarrow> (string list \<Rightarrow> bytes option list) \<Rightarrow> (prevout list \<Rightarrow> pair option list res)
      \<Rightarrow> bytes set \<Rightarrow> bytes list \<Rightarrow> bytes set \<Rightarrow> 'g mempool
      \<Rightarrow> ((bytes, mempool_tx) dict \<times> (prevout \<Rightarrow> pair option option) \<times> bytes set \<times> 'g mempool) res" where
  "fetch_and_accept sha gv raw_transactions lookup all_hashes hashes moved m =
     rbind (deserialize_txs sha (zip hashes (raw_transactions (map hash_to_hex_str hashes))) []) (\<lambda>tx_map.
     let outpoints = filter (\<lambda>p. fst p \<notin> all_hashes) (concat (map (prevouts \<circ> snd) tx_map)) in
     rbind (lookup outpoints) (\<lambda>utxos.
       accept_transactions gv tx_map (map_of (rev (zip outpoints utxos))) moved m))"

definition dict_update :: "('k, 'v) dict \<Rightarrow> ('k, 'v) dict \<Rightarrow> ('k, 'v) dict" where
  "dict_update d new = foldl (\<lambda>d (k, v). dict_set k v d) d new"

text \<open>The batches in the order in which their fetches complete; what each leaves is added to what the
  others left.\<close>

definition fetch_batch ::
    "(bytes \<Rightarrow> bytes) \<Rightarrow> 'g glyph_view \<Rightarrow> (string list \<Rightarrow> bytes option list) \<Rightarrow> (prevout list \<Rightarrow> pair option list res)
      \<Rightarrow> bytes set \<Rightarrow> (bytes, mempool_tx) dict \<times> (prevout \<Rightarrow> pair option option) \<times> bytes set \<times> 'g mempool \<Rightarrow> bytes list
      \<Rightarrow> ((bytes, mempool_tx) dict \<times> (prevout \<Rightarrow> pair option option) \<times> bytes set \<times> 'g mempool) res" where
  "fetch_batch sha gv raw_transactions lookup all_hashes st hashes = (case st of (tx_map, utxo_map, moved, m) \<Rightarrow>
     rbind (fetch_and_accept sha gv raw_transactions lookup all_hashes hashes moved m)
       (\<lambda>(deferred, unspent, moved, m). Inr (dict_update tx_map deferred, utxo_map ++ unspent, moved, m)))"

definition fetch_batches ::
    "(bytes \<Rightarrow> bytes) \<Rightarrow> 'g glyph_view \<Rightarrow> (string list \<Rightarrow> bytes option list) \<Rightarrow> (prevout list \<Rightarrow> pair option list res)
      \<Rightarrow> bytes set \<Rightarrow> bytes list list \<Rightarrow> bytes set \<Rightarrow> 'g mempool
      \<Rightarrow> ((bytes, mempool_tx) dict \<times> (prevout \<Rightarrow> pair option option) \<times> bytes set \<times> 'g mempool) res" where
  "fetch_batches sha gv raw_transactions lookup all_hashes batches moved m =
     foldM (fetch_batch sha gv raw_transactions lookup all_hashes) ([], Map.empty, moved, m) batches"

lemma length_dict_set: "length (dict_set k v d) \<le> Suc (length d)"
  by (induction d) auto

lemma try_accept_deferred: "try_accept gv u st item = Inr st' \<Longrightarrow> length (fst st') \<le> Suc (length (fst st))"
  using length_dict_set [of "fst item" "snd item" "fst st"]
  by (auto simp: try_accept_def Let_def rbind_eq_Inr split: prod.splits sum.splits py_exc.splits)

lemma accept_transactions_length:
  assumes "accept_transactions gv tx_map u moved m = Inr (deferred, u', moved', m')"
  shows "length deferred \<le> length tx_map"
proof -
  have "foldM (try_accept gv u) st tx_map = Inr st' \<Longrightarrow> length (fst st') \<le> length (fst st) + length tx_map" for st st'
  proof (induction tx_map arbitrary: st)
    case (Cons item tx_map)
    then obtain st1 where 1: "try_accept gv u st item = Inr st1" "foldM (try_accept gv u) st1 tx_map = Inr st'"
      by (auto simp: rbind_eq_Inr)
    from Cons.IH [OF 1(2)] try_accept_deferred [OF 1(1)] show ?case by simp
  qed simp
  from this [of "([], {}, moved, m)"] assms show ?thesis by (auto simp: accept_transactions_def rbind_eq_Inr)
qed

text \<open>The loop over the deferred transactions, which runs again while it gets shorter.\<close>

function retry_deferred ::
    "'g glyph_view \<Rightarrow> nat \<Rightarrow> (bytes, mempool_tx) dict \<times> (prevout \<Rightarrow> pair option option) \<times> bytes set \<times> 'g mempool
      \<Rightarrow> ((bytes, mempool_tx) dict \<times> (prevout \<Rightarrow> pair option option) \<times> bytes set \<times> 'g mempool) res" where
  "retry_deferred gv prior_count st = (case st of (tx_map, utxo_map, moved, m) \<Rightarrow>
     if tx_map \<noteq> [] \<and> length tx_map \<noteq> prior_count
     then rbind (accept_transactions gv tx_map utxo_map moved m) (retry_deferred gv (length tx_map))
     else Inr st)"
  by pat_completeness auto
termination
proof (relation "measure (\<lambda>(gv, prior_count, st). 2 * length (fst st) + (if length (fst st) = prior_count then 0 else 1))", simp)
  fix gv :: "'g glyph_view" and prior_count st y x2 y' x2' y'' x2'' x
  assume "(y, x2) = st" "(y', x2') = x2" "(y'', x2'') = x2'" "y \<noteq> [] \<and> length y \<noteq> prior_count"
    "accept_transactions gv y y' y'' x2'' = Inr x"
  then show "((gv, length y, x), gv, prior_count, st)
      \<in> measure (\<lambda>(gv, prior_count, st). 2 * length (fst st) + (if length (fst st) = prior_count then 0 else 1))"
    using accept_transactions_length [of gv y y' y'' x2''] by (cases x) force
qed

declare retry_deferred.simps [simp del]

text \<open>\<open>schedule\<close> is the order in which the fetches of the batches complete.\<close>

definition process_mempool ::
    "(bytes \<Rightarrow> bytes) \<Rightarrow> 'g glyph_view \<Rightarrow> (string list \<Rightarrow> bytes option list) \<Rightarrow> (prevout list \<Rightarrow> pair option list res)
      \<Rightarrow> (bytes list list \<Rightarrow> bytes list list) \<Rightarrow> int \<Rightarrow> bytes set \<Rightarrow> bytes set \<Rightarrow> int \<Rightarrow> 'g mempool
      \<Rightarrow> ((bytes, mempool_tx) dict \<times> bytes set \<times> 'g mempool) res" where
  "process_mempool sha gv raw_transactions lookup schedule db_ht all_hashes moved mempool_ht m =
     (if mempool_ht \<noteq> db_ht then Inl DBSyncError
      else
        rbind (foldM (remove_tx gv) (moved, m) (sorted_list_of_set (set (dict_keys (txs m)) - all_hashes))) (\<lambda>(moved, m).
        let new_hashes = sorted_list_of_set (all_hashes - set (dict_keys (txs m))) in
        if new_hashes = [] then Inr ([], moved, m)
        else
          rbind (chunks new_hashes 500 False) (\<lambda>batches.
          rbind (fetch_batches sha gv raw_transactions lookup all_hashes (schedule batches) moved m) (\<lambda>st.
          rbind (retry_deferred gv 0 st) (\<lambda>(dropped, _, moved, m). Inr (dropped, moved, m))))))"

text \<open>One turn of \<open>_refresh_hashes\<close>: nothing when the daemon has moved on, a later retry when the database is
  behind, otherwise a notification of what was touched. Any other exception ends the synchronisation.\<close>

definition refresh_hashes ::
    "(bytes \<Rightarrow> bytes) \<Rightarrow> 'g glyph_view \<Rightarrow> (string list \<Rightarrow> bytes option list) \<Rightarrow> (prevout list \<Rightarrow> pair option list res)
      \<Rightarrow> (bytes list list \<Rightarrow> bytes list list) \<Rightarrow> int \<Rightarrow> int \<Rightarrow> string list \<Rightarrow> int \<Rightarrow> bytes set \<times> 'g mempool
      \<Rightarrow> ((bytes set \<times> int) option \<times> bytes set \<times> 'g mempool) res" where
  "refresh_hashes sha gv raw_transactions lookup schedule cached_ht db_ht hex_hashes daemon_ht st = (case st of (moved, m) \<Rightarrow>
     if cached_ht \<noteq> daemon_ht then Inr (None, moved, m)
     else rbind (mapM hex_str_to_hash hex_hashes) (\<lambda>hashes.
       case process_mempool sha gv raw_transactions lookup schedule db_ht (set hashes) moved cached_ht m of
         Inl DBSyncError \<Rightarrow> Inr (None, moved, m)
       | Inl e \<Rightarrow> Inl e
       | Inr (_, moved, m) \<Rightarrow> Inr (Some (moved, cached_ht), {}, m)))"

section \<open>Queries\<close>

text \<open>The queries go over the set of an address in some order; here it is the order of the hashes.\<close>

definition txs_touching :: "'g mempool \<Rightarrow> bytes \<Rightarrow> bytes list" where
  "txs_touching m hashX = sorted_list_of_set (entry {} (hashXs m) hashX)"

definition tx_of :: "'g mempool \<Rightarrow> bytes \<Rightarrow> mempool_tx res" where
  "tx_of m tx_hash = (case map_of (txs m) tx_hash of None \<Rightarrow> Inl KeyError | Some tx \<Rightarrow> Inr tx)"

definition paid :: "bytes \<Rightarrow> pair list \<Rightarrow> int" where
  "paid hashX ps = sum_values (filter (\<lambda>p. fst p = hashX) ps)"

definition balance_delta :: "'g mempool \<Rightarrow> bytes \<Rightarrow> int res" where
  "balance_delta m hashX =
     foldM (\<lambda>val tx_hash. rbind (tx_of m tx_hash) (\<lambda>tx.
       Inr (val - paid hashX (in_pairs tx) + paid hashX (out_pairs tx)))) 0 (txs_touching m hashX)"

definition potential_spends :: "'g mempool \<Rightarrow> bytes \<Rightarrow> prevout set res" where
  "potential_spends m hashX =
     foldM (\<lambda>result tx_hash. rbind (tx_of m tx_hash) (\<lambda>tx. Inr (result \<union> set (prevouts tx)))) {} (txs_touching m hashX)"

text \<open>An unconfirmed output: its position, its transaction and its value.\<close>

type_synonym mempool_utxo = "nat \<times> bytes \<times> int"

definition utxos_of :: "bytes \<Rightarrow> bytes \<Rightarrow> mempool_tx \<Rightarrow> mempool_utxo list" where
  "utxos_of hashX tx_hash tx =
     concat (map (\<lambda>(pos, hX, val). if hX = hashX then [(pos, tx_hash, val)] else []) (enumerate 0 (out_pairs tx)))"

definition unordered_UTXOs :: "'g mempool \<Rightarrow> bytes \<Rightarrow> mempool_utxo list res" where
  "unordered_UTXOs m hashX =
     foldM (\<lambda>utxos tx_hash. case map_of (txs m) tx_hash of
         None \<Rightarrow> Inl AttributeError
       | Some tx \<Rightarrow> Inr (utxos @ utxos_of hashX tx_hash tx)) [] (txs_touching m hashX)"

definition combined_mempool_state :: "'g mempool \<Rightarrow> bytes \<Rightarrow> (mempool_utxo list \<times> prevout set \<times> int) res" where
  "combined_mempool_state m hashX =
     foldM (\<lambda>(utxos, spends, delta) tx_hash. rbind (tx_of m tx_hash) (\<lambda>tx.
       Inr (utxos @ utxos_of hashX tx_hash tx, spends \<union> set (prevouts tx),
            delta - paid hashX (in_pairs tx) + paid hashX (out_pairs tx)))) ([], {}, 0) (txs_touching m hashX)"

text \<open>The hash, the fee and whether an input is unconfirmed.\<close>

definition tx_summary :: "'g mempool \<Rightarrow> bytes \<Rightarrow> (bytes \<times> int \<times> bool) res" where
  "tx_summary m tx_hash = rbind (tx_of m tx_hash) (\<lambda>tx.
     Inr (tx_hash, tx_fee tx, \<exists>p \<in> set (prevouts tx). map_of (txs m) (fst p) \<noteq> None))"

definition transaction_summaries :: "'g mempool \<Rightarrow> bytes \<Rightarrow> (bytes \<times> int \<times> bool) list res" where
  "transaction_summaries m hashX = mapM (tx_summary m) (txs_touching m hashX)"

definition first_last_summaries :: "'g mempool \<Rightarrow> bytes \<Rightarrow> (bytes \<times> int \<times> bool) list res" where
  "first_last_summaries m hashX =
     (case entry [] (srefs m) hashX of
        [] \<Rightarrow> Inr []
      | h # hs \<Rightarrow> mapM (tx_summary m) (if last (h # hs) = h then [h] else [h, last (h # hs)]))"

definition mempool_refs_by_outpoint :: "'g mempool \<Rightarrow> bytes \<Rightarrow> (string \<times> string) list res" where
  "mempool_refs_by_outpoint m outp =
     (case outpoint_refs m outp of
        Some (b # bs) \<Rightarrow>
          mapM (\<lambda>e. rbind (outpoint_to_str (take 36 e)) (\<lambda>ref_id.
              if drop 36 e = [0] then Inr (ref_id, ''normal'')
              else if drop 36 e = [1] then Inr (ref_id, ''single'')
              else Inl IndexError))
            (chunks_list 37 (b # bs))
      | _ \<Rightarrow> Inr [])"

text \<open>A script whose separator cannot be found is skipped.\<close>

definition has_code_hash :: "(bytes \<Rightarrow> bytes) \<Rightarrow> bytes \<Rightarrow> bytes \<Rightarrow> bool" where
  "has_code_hash sha code_hash script = (codeScriptHash_from_script sha script = Inr code_hash)"

definition codescripthash_unordered_UTXOs :: "(bytes \<Rightarrow> bytes) \<Rightarrow> 'g mempool \<Rightarrow> bytes \<Rightarrow> mempool_utxo list" where
  "codescripthash_unordered_UTXOs sha m code_hash =
     concat (map (\<lambda>(tx_hash, tx). concat (map (\<lambda>(pos, script).
         if has_code_hash sha code_hash script \<and> pos < length (out_pairs tx)
         then [(pos, tx_hash, snd (out_pairs tx ! pos))] else []) (enumerate 0 (idx_to_script tx)))) (txs m))"

definition codescripthash_potential_spends :: "(bytes \<Rightarrow> bytes) \<Rightarrow> 'g mempool \<Rightarrow> bytes \<Rightarrow> prevout set" where
  "codescripthash_potential_spends sha m code_hash =
     \<Union> ((\<lambda>(tx_hash, tx).
         (if \<exists>script \<in> set (idx_to_script tx). has_code_hash sha code_hash script then set (prevouts tx) else {})
         \<union> {p \<in> set (prevouts tx). case map_of (txs m) (fst p) of None \<Rightarrow> False
              | Some prev_tx \<Rightarrow> snd p < length (idx_to_script prev_tx)
                  \<and> has_code_hash sha code_hash (idx_to_script prev_tx ! snd p)}) ` set (txs m))"

end
