(* ===== verification/MempoolFacts.thy ===== *)
theory MempoolFacts
  imports Mempool
begin

text \<open>
  What the view of the mempool promises: the indexes are exact, a refresh accepts every transaction
  that can be accepted whatever the order of the fetches, the queries agree with a scan of the whole
  mempool, and what stops the synchronisation.
\<close>

section \<open>What the indexes hold\<close>

definition touching_txs :: "(bytes, mempool_tx) dict \<Rightarrow> bytes \<Rightarrow> bytes set" where
  "touching_txs all hashX = {t. \<exists>tx. map_of all t = Some tx \<and> hashX \<in> set (touches tx)}"

definition sref_txs :: "(bytes, mempool_tx) dict \<Rightarrow> bytes \<Rightarrow> bytes set" where
  "sref_txs all ref_hash = {t. \<exists>tx. map_of all t = Some tx \<and> ref_hash \<in> set (concat (out_srefs tx))}"

definition refs_of_output :: "(bytes, mempool_tx) dict \<Rightarrow> bytes \<Rightarrow> bytes option" where
  "refs_of_output all op =
     (case map_of all (take 32 op) of
        None \<Rightarrow> None
      | Some tx \<Rightarrow> if length op = 36 \<and> le_dec (drop 32 op) < length (idx_to_script tx)
          then (case output_refs (idx_to_script tx ! le_dec (drop 32 op)) of Inr (b # bs) \<Rightarrow> Some (b # bs) | _ \<Rightarrow> None)
          else None)"

definition mempool_ok :: "'g mempool \<Rightarrow> bool" where
  "mempool_ok m \<longleftrightarrow> dict_ok (txs m) \<and> (\<forall>t \<in> dom (map_of (txs m)). length t = 32)
     \<and> (\<forall>h. hashXs m h = (if touching_txs (txs m) h = {} then None else Some (touching_txs (txs m) h)))
     \<and> (\<forall>h. case srefs m h of None \<Rightarrow> sref_txs (txs m) h = {}
          | Some R \<Rightarrow> R \<noteq> [] \<and> distinct R \<and> set R = sref_txs (txs m) h)
     \<and> (\<forall>op. outpoint_refs m op = refs_of_output (txs m) op)"

lemma entry_simps [simp]: "entry x Map.empty k = x"
  "entry x (m(k := y)) k' = (if k' = k then (case y of None \<Rightarrow> x | Some v \<Rightarrow> v) else entry x m k')"
  by (simp_all add: entry_def)

lemma index_hashXs: "foldl (index_hashX t) m hs = m\<lparr>hashXs := (\<lambda>h. if h \<in> set hs then Some (insert t (entry {} (hashXs m) h)) else hashXs m h)\<rparr>"
proof (induction hs arbitrary: m)
  case (Cons h hs)
  show ?case by (simp only: foldl_Cons Cons) (auto simp: index_hashX_def entry_def fun_eq_iff)
qed simp

lemma index_sref_eq: "index_sref t m h = m\<lparr>hashXs := (hashXs m)(h \<mapsto> insert t (entry {} (hashXs m) h)),
    srefs := (srefs m)(h \<mapsto> if t \<in> set (entry [] (srefs m) h) then entry [] (srefs m) h else entry [] (srefs m) h @ [t])\<rparr>"
  by (simp add: index_sref_def index_hashX_def Let_def)

lemma index_srefs: "foldl (index_sref t) m hs = m\<lparr>hashXs := (\<lambda>h. if h \<in> set hs then Some (insert t (entry {} (hashXs m) h)) else hashXs m h),
    srefs := (\<lambda>h. if h \<in> set hs then Some (if t \<in> set (entry [] (srefs m) h) then entry [] (srefs m) h else entry [] (srefs m) h @ [t]) else srefs m h)\<rparr>"
proof (induction hs arbitrary: m)
  case (Cons h hs)
  show ?case unfolding foldl_Cons Cons by (rule mempool.equality) (auto simp: index_sref_eq fun_eq_iff)
qed simp

lemma outpoint_key:
  assumes "length t = 32" and "n < 2 ^ 32"
  shows "op = t @ le_enc 4 n \<longleftrightarrow> take 32 op = t \<and> length op = 36 \<and> le_dec (drop 32 op) = n"
proof
  assume "op = t @ le_enc 4 n"
  then show "take 32 op = t \<and> length op = 36 \<and> le_dec (drop 32 op) = n" using assms by simp
next
  assume *: "take 32 op = t \<and> length op = 36 \<and> le_dec (drop 32 op) = n"
  then have "drop 32 op = le_enc 4 n" using le_enc_dec [of "drop 32 op"] by simp
  with * show "op = t @ le_enc 4 n" using append_take_drop_id [of 32 op] by metis
qed

lemma index_outpoints:
  assumes "foldM (index_outpoint t) m (enumerate n scripts) = Inr m'" and "length t = 32"
  shows "\<exists>f. m' = m\<lparr>outpoint_refs := f\<rparr> \<and> (\<forall>op. f op =
    (if take 32 op = t \<and> length op = 36 \<and> n \<le> le_dec (drop 32 op) \<and> le_dec (drop 32 op) < n + length scripts
        \<and> (\<exists>b bs. output_refs (scripts ! (le_dec (drop 32 op) - n)) = Inr (b # bs))
     then Some (projr (output_refs (scripts ! (le_dec (drop 32 op) - n)))) else outpoint_refs m op))
    \<and> (\<forall>script \<in> set scripts. \<exists>v. output_refs script = Inr v)"
  using assms(1)
proof (induction scripts arbitrary: n m)
  case Nil
  then show ?case by (intro exI [of _ "outpoint_refs m"]) auto
next
  case (Cons script scripts)
  then obtain m1 where 1: "index_outpoint t m (n, script) = Inr m1" "foldM (index_outpoint t) m1 (enumerate (Suc n) scripts) = Inr m'"
    by (auto simp: rbind_eq_Inr)
  from 1(1) obtain v where v: "output_refs script = Inr v" by (auto simp: index_outpoint_def rbind_eq_Inr)
  from Cons.IH [OF 1(2)] obtain f where f: "m' = m1\<lparr>outpoint_refs := f\<rparr>" "\<forall>op. f op =
    (if take 32 op = t \<and> length op = 36 \<and> Suc n \<le> le_dec (drop 32 op) \<and> le_dec (drop 32 op) < Suc n + length scripts
        \<and> (\<exists>b bs. output_refs (scripts ! (le_dec (drop 32 op) - Suc n)) = Inr (b # bs))
     then Some (projr (output_refs (scripts ! (le_dec (drop 32 op) - Suc n)))) else outpoint_refs m1 op)"
    "\<forall>script \<in> set scripts. \<exists>v. output_refs script = Inr v" by blast
  note key = outpoint_key [OF assms(2)]
  from 1(1) v have "v = [] \<and> m1 = m \<or> v \<noteq> [] \<and> n < 2 ^ 32 \<and> m1 = m\<lparr>outpoint_refs := (outpoint_refs m)(t @ le_enc 4 n \<mapsto> v)\<rparr>"
    by (auto simp: index_outpoint_def rbind_eq_Inr pack_le_uint32_def pack_uint_def split: if_splits)
  then have m1: "m1 = m\<lparr>outpoint_refs := outpoint_refs m1\<rparr>" and o1: "outpoint_refs m1 op =
      (if v \<noteq> [] \<and> take 32 op = t \<and> length op = 36 \<and> le_dec (drop 32 op) = n then Some v else outpoint_refs m op)" for op
    using key [of n op] by auto
  show ?case
  proof (intro exI [of _ f] conjI allI)
    show "m' = m\<lparr>outpoint_refs := f\<rparr>" using f(1) m1 by (metis (no_types, lifting) mempool.surjective mempool.update_convs(4))
    show "\<forall>script \<in> set (script # scripts). \<exists>v. output_refs script = Inr v" using f(3) v by simp
  next
    fix op
    let ?i = "le_dec (drop 32 op)"
    consider "?i = n" | "Suc n \<le> ?i" | "?i < n" by linarith
    then show "f op = (if take 32 op = t \<and> length op = 36 \<and> n \<le> ?i \<and> ?i < n + length (script # scripts)
        \<and> (\<exists>b bs. output_refs ((script # scripts) ! (?i - n)) = Inr (b # bs))
      then Some (projr (output_refs ((script # scripts) ! (?i - n)))) else outpoint_refs m op)"
    proof cases
      case 1
      then show ?thesis using f(2) [rule_format, of op] o1 [of op] v by (cases v) auto
    next
      case 2
      then have "?i - n = Suc (?i - Suc n)" by simp
      then show ?thesis using f(2) [rule_format, of op] o1 [of op] 2 by auto
    next
      case 3
      then show ?thesis using f(2) [rule_format, of op] o1 [of op] by auto
    qed
  qed
qed

lemma mempool_okD:
  assumes "mempool_ok m"
  shows "dict_ok (txs m)" "map_of (txs m) t = Some tx \<Longrightarrow> length t = 32"
    "hashXs m h = (if touching_txs (txs m) h = {} then None else Some (touching_txs (txs m) h))"
    "entry {} (hashXs m) h = touching_txs (txs m) h"
    "srefs m h = None \<Longrightarrow> sref_txs (txs m) h = {}" "srefs m h = Some R \<Longrightarrow> R \<noteq> [] \<and> distinct R \<and> set R = sref_txs (txs m) h"
    "set (entry [] (srefs m) h) = sref_txs (txs m) h" "distinct (entry [] (srefs m) h)"
    "outpoint_refs m op = refs_of_output (txs m) op"
proof -
  show "dict_ok (txs m)" "map_of (txs m) t = Some tx \<Longrightarrow> length t = 32"
      "outpoint_refs m op = refs_of_output (txs m) op"
    and h: "hashXs m h = (if touching_txs (txs m) h = {} then None else Some (touching_txs (txs m) h))"
    using assms unfolding mempool_ok_def by blast+
  from h show "entry {} (hashXs m) h = touching_txs (txs m) h" by (simp add: entry_def)
  have s: "case srefs m h of None \<Rightarrow> sref_txs (txs m) h = {} | Some R \<Rightarrow> R \<noteq> [] \<and> distinct R \<and> set R = sref_txs (txs m) h"
    using assms unfolding mempool_ok_def by blast
  then show "srefs m h = None \<Longrightarrow> sref_txs (txs m) h = {}" "srefs m h = Some R \<Longrightarrow> R \<noteq> [] \<and> distinct R \<and> set R = sref_txs (txs m) h"
    by simp_all
  show "set (entry [] (srefs m) h) = sref_txs (txs m) h" "distinct (entry [] (srefs m) h)"
    using s by (cases "srefs m h"; simp add: entry_def)+
qed

lemma touching_add: "map_of all t = None \<Longrightarrow> touching_txs (dict_set t tx all) h = (if h \<in> set (touches tx) then insert t (touching_txs all h) else touching_txs all h)"
  by (auto simp: touching_txs_def split: if_splits)

lemma sref_add: "map_of all t = None \<Longrightarrow> sref_txs (dict_set t tx all) h = (if h \<in> set (concat (out_srefs tx)) then insert t (sref_txs all h) else sref_txs all h)"
  by (auto simp: sref_txs_def split: if_splits)

lemma accept_tx_ok:
  assumes "mempool_ok m" and "map_of (txs m) t = None" and "length t = 32" and "accept_tx gv t tx m = Inr m'"
  shows "mempool_ok m'" and "txs m' = txs m @ [(t, tx)]" and "\<forall>script \<in> set (idx_to_script tx). \<exists>v. output_refs script = Inr v"
proof -
  let ?m0 = "m\<lparr>txs := dict_set t tx (txs m), glyph_mempool := process_mempool_tx gv t tx (glyph_mempool m)\<rparr>"
  define m1 where "m1 = foldl (index_sref t) (foldl (index_hashX t) ?m0 (map fst (in_pairs tx @ out_pairs tx))) (concat (out_srefs tx))"
  have "foldM (index_outpoint t) m1 (enumerate 0 (idx_to_script tx)) = Inr m'"
    using assms(4) unfolding accept_tx_def Let_def m1_def .
  from index_outpoints [OF this assms(3), simplified add_0 diff_zero le0 simp_thms] obtain f where m': "m' = m1\<lparr>outpoint_refs := f\<rparr>"
    and f: "\<forall>op. f op = (if take 32 op = t \<and> length op = 36 \<and> le_dec (drop 32 op) < length (idx_to_script tx)
        \<and> (\<exists>b bs. output_refs (idx_to_script tx ! le_dec (drop 32 op)) = Inr (b # bs))
      then Some (projr (output_refs (idx_to_script tx ! le_dec (drop 32 op)))) else outpoint_refs m1 op)"
    and scripts: "\<forall>script \<in> set (idx_to_script tx). \<exists>v. output_refs script = Inr v" by blast
  note eqs = m1_def index_srefs index_hashXs
  have txs': "txs m' = dict_set t tx (txs m)" by (simp add: m' eqs)
  have h: "hashXs m' h = (if touching_txs (txs m') h = {} then None else Some (touching_txs (txs m') h))" for h
    using mempool_okD(3,4) [OF assms(1), of h] assms(2)
    by (auto simp: m' eqs touching_add touches_def entry_def)
  have t: "t \<notin> sref_txs (txs m) h" for h using assms(2) by (simp add: sref_txs_def)
  have s: "case srefs m' h of None \<Rightarrow> sref_txs (txs m') h = {} | Some R \<Rightarrow> R \<noteq> [] \<and> distinct R \<and> set R = sref_txs (txs m') h" for h
    using mempool_okD(5-8) [OF assms(1), of h] assms(2) t [of h]
    by (auto simp: m' eqs sref_add split: option.splits)
  have o: "outpoint_refs m' op = refs_of_output (txs m') op" for op
  proof (cases "take 32 op = t")
    case True
    then have "refs_of_output (txs m) op = None" using assms(2) by (simp add: refs_of_output_def)
    then show ?thesis using True f scripts mempool_okD(9) [OF assms(1), of op]
      by (auto simp: m' eqs refs_of_output_def split: list.split sum.split dest!: nth_mem)
  next
    case False
    then show ?thesis using f mempool_okD(9) [OF assms(1), of op] by (simp add: m' eqs refs_of_output_def)
  qed
  show "mempool_ok m'" using h s o assms(1,3) by (auto simp: mempool_ok_def txs')
  show "txs m' = txs m @ [(t, tx)]" using assms(2) by (simp add: txs' dict_set_new)
  show "\<forall>script \<in> set (idx_to_script tx). \<exists>v. output_refs script = Inr v" by (rule scripts)
qed

lemma unindex_hashXs:
  assumes "distinct hs" and "\<forall>h \<in> set hs. t \<in> entry {} (hashXs m) h"
  shows "foldM (unindex_hashX t) m hs = Inr (m\<lparr>
    hashXs := (\<lambda>h. if h \<in> set hs then (if entry {} (hashXs m) h - {t} = {} then None else Some (entry {} (hashXs m) h - {t})) else hashXs m h),
    srefs := (\<lambda>h. if h \<in> set hs then (if remove1 t (entry [] (srefs m) h) = [] then None else Some (remove1 t (entry [] (srefs m) h))) else srefs m h)\<rparr>)"
  using assms
proof (induction hs arbitrary: m)
  case (Cons h hs)
  let ?m1 = "m\<lparr>hashXs := (hashXs m)(h := if entry {} (hashXs m) h - {t} = {} then None else Some (entry {} (hashXs m) h - {t})),
      srefs := (srefs m)(h := if remove1 t (entry [] (srefs m) h) = [] then None else Some (remove1 t (entry [] (srefs m) h)))\<rparr>"
  have 1: "unindex_hashX t m h = Inr ?m1" using Cons.prems by (simp add: unindex_hashX_def Let_def remove1_idem)
  have "\<forall>k \<in> set hs. t \<in> entry {} (hashXs ?m1) k" using Cons.prems(1) Cons.prems(2) by (auto simp: entry_def)
  then have 2: "foldM (unindex_hashX t) ?m1 hs = Inr (?m1\<lparr>
    hashXs := (\<lambda>h. if h \<in> set hs then (if entry {} (hashXs ?m1) h - {t} = {} then None else Some (entry {} (hashXs ?m1) h - {t})) else hashXs ?m1 h),
    srefs := (\<lambda>h. if h \<in> set hs then (if remove1 t (entry [] (srefs ?m1) h) = [] then None else Some (remove1 t (entry [] (srefs ?m1) h))) else srefs ?m1 h)\<rparr>)"
    by (rule Cons.IH [rotated]) (use Cons.prems(1) in simp)
  have "h \<notin> set hs" using Cons.prems(1) by simp
  then show ?case unfolding foldM.simps 1 rbind_simps 2
    by (intro arg_cong [where f = Inr] mempool.equality) (auto simp: fun_eq_iff)
qed simp

lemma drop_outpoints:
  assumes "\<forall>i \<in> set is. i < 2 ^ 32"
  shows "foldM (drop_outpoint t) m is = Inr (m\<lparr>outpoint_refs := (\<lambda>op. if \<exists>i \<in> set is. op = t @ le_enc 4 i then None else outpoint_refs m op)\<rparr>)"
  using assms
proof (induction "is" arbitrary: m)
  case (Cons i "is")
  have 1: "drop_outpoint t m i = Inr (m\<lparr>outpoint_refs := (outpoint_refs m)(t @ le_enc 4 i := None)\<rparr>)"
    using Cons.prems by (simp add: drop_outpoint_def pack_le_uint32_def pack_uint_def)
  show ?case using Cons.prems unfolding foldM.simps 1 rbind_simps
    by (subst Cons.IH) (auto intro!: mempool.equality)
qed simp

lemma drop_outpoints_some: "foldM (drop_outpoint t) m is = Inr m' \<Longrightarrow> \<forall>i \<in> set is. i < 2 ^ 32"
proof (induction "is" arbitrary: m)
  case (Cons i "is")
  then show ?case by (auto simp: rbind_eq_Inr drop_outpoint_def pack_le_uint32_def pack_uint_def split: if_splits)
qed simp

lemma touching_del: "touching_txs (dict_del t all) h = touching_txs all h - {t}"
  by (auto simp: touching_txs_def)

lemma sref_del: "sref_txs (dict_del t all) h = sref_txs all h - {t}"
  by (auto simp: sref_txs_def)

lemma remove_tx_ok:
  assumes "mempool_ok m" and "map_of (txs m) t = Some tx" and "remove_tx gv (moved, m) t = Inr (moved', m')"
  shows "mempool_ok m' \<and> txs m' = dict_del t (txs m) \<and> moved' = moved \<union> set (touches tx)"
proof -
  define m0 where "m0 = m\<lparr>txs := dict_del t (txs m), glyph_mempool := remove_mempool_tx gv t (glyph_mempool m)\<rparr>"
  let ?hs = "sorted_list_of_set (set (touches tx))"
  have "\<forall>h \<in> set ?hs. t \<in> entry {} (hashXs m0) h"
    using assms(2) mempool_okD(4) [OF assms(1)] by (auto simp: m0_def touching_txs_def)
  from unindex_hashXs [OF _ this] have u: "foldM (unindex_hashX t) m0 ?hs = Inr (m0\<lparr>
    hashXs := (\<lambda>h. if h \<in> set ?hs then (if entry {} (hashXs m0) h - {t} = {} then None else Some (entry {} (hashXs m0) h - {t})) else hashXs m0 h),
    srefs := (\<lambda>h. if h \<in> set ?hs then (if remove1 t (entry [] (srefs m0) h) = [] then None else Some (remove1 t (entry [] (srefs m0) h))) else srefs m0 h)\<rparr>)"
    (is "_ = Inr ?m1") by simp
  have d: "foldM (drop_outpoint t) ?m1 [0..<length (idx_to_script tx)] = Inr m'" and mv: "moved' = moved \<union> set (touches tx)"
    using assms(3) u unfolding remove_tx_def by (auto simp: assms(2) rbind_eq_Inr m0_def [symmetric])
  have "?m1\<lparr>outpoint_refs := (\<lambda>op. if \<exists>i \<in> set [0..<length (idx_to_script tx)]. op = t @ le_enc 4 i then None else outpoint_refs ?m1 op)\<rparr> = m'"
    using d unfolding drop_outpoints [OF drop_outpoints_some [OF d]] by (simp only: sum.inject)
  note m' = this [symmetric, unfolded m0_def]
  have txs': "txs m' = dict_del t (txs m)" by (simp add: m')
  have len: "length t = 32" by (rule mempool_okD(2) [OF assms(1,2)])
  have h: "hashXs m' h = (if touching_txs (txs m') h = {} then None else Some (touching_txs (txs m') h))" for h
  proof (cases "h \<in> set (touches tx)")
    case False
    then have "t \<notin> touching_txs (txs m) h" using assms(2) by (simp add: touching_txs_def)
    then show ?thesis using False mempool_okD(3) [OF assms(1), of h] by (simp add: m' touching_del)
  qed (use mempool_okD(4) [OF assms(1), of h] in \<open>simp add: m' touching_del\<close>)
  have s: "case srefs m' h of None \<Rightarrow> sref_txs (txs m') h = {} | Some R \<Rightarrow> R \<noteq> [] \<and> distinct R \<and> set R = sref_txs (txs m') h" for h
  proof (cases "h \<in> set (touches tx)")
    case True
    let ?R = "remove1 t (entry [] (srefs m) h)"
    have R: "set ?R = sref_txs (txs m') h" "distinct ?R"
      using mempool_okD(7,8) [OF assms(1), of h] by (simp_all add: set_remove1_eq txs' sref_del)
    have "srefs m' h = (if ?R = [] then None else Some ?R)" by (simp add: m' True)
    then show ?thesis using R by (cases "?R = []") auto
  next
    case False
    then have "t \<notin> sref_txs (txs m) h" using assms(2) by (auto simp: sref_txs_def touches_def)
    then show ?thesis using False mempool_okD(5,6) [OF assms(1), of h] by (auto simp: m' sref_del split: option.split)
  qed
  have drop: "outpoint_refs m' op = (if \<exists>i < length (idx_to_script tx). op = t @ le_enc 4 i then None else outpoint_refs m op)" for op
    unfolding m' by (auto simp: Bex_def)
  have o: "outpoint_refs m' op = refs_of_output (txs m') op" for op
  proof (cases "take 32 op = t")
    case True
    have "outpoint_refs m op = None" if "\<not> (\<exists>i < length (idx_to_script tx). op = t @ le_enc 4 i)"
    proof -
      have "\<not> (length op = 36 \<and> le_dec (drop 32 op) < length (idx_to_script tx))"
      proof
        assume *: "length op = 36 \<and> le_dec (drop 32 op) < length (idx_to_script tx)"
        then have "le_dec (drop 32 op) < 2 ^ 32" using le_dec_bound [of "drop 32 op"] by simp
        from outpoint_key [OF len this, of op] True * that show False by blast
      qed
      then show ?thesis using True assms(2) mempool_okD(9) [OF assms(1), of op] by (auto simp: refs_of_output_def)
    qed
    then show ?thesis using True drop by (simp add: txs' refs_of_output_def)
  next
    case False
    then have "\<not> (\<exists>i. op = t @ le_enc 4 i)" using len by auto
    then show ?thesis using False drop mempool_okD(9) [OF assms(1), of op] by (simp add: txs' refs_of_output_def)
  qed
  have "dict_ok (txs m') \<and> (\<forall>t \<in> dom (map_of (txs m')). length t = 32)"
    using assms(1) by (auto simp: txs' mempool_ok_def split: if_splits)
  with h s o txs' mv show ?thesis unfolding mempool_ok_def by blast
qed

section \<open>What a pass accepts\<close>

text \<open>\<open>stuck\<close>: every transaction has an input that is neither a known output of the database nor one of an
  accepted transaction.\<close>

definition missing :: "(prevout \<Rightarrow> pair option option) \<Rightarrow> (bytes, mempool_tx) dict \<Rightarrow> prevout \<Rightarrow> bool" where
  "missing u all p \<longleftrightarrow> (\<forall>x. u p \<noteq> Some (Some x)) \<and> map_of all (fst p) = None"

definition resolves :: "(prevout \<Rightarrow> pair option option) \<Rightarrow> (bytes, mempool_tx) dict \<Rightarrow> prevout \<Rightarrow> pair \<Rightarrow> bool" where
  "resolves u all p x \<longleftrightarrow> u p = Some (Some x)
     \<or> (\<exists>tx. map_of all (fst p) = Some tx \<and> snd p < length (out_pairs tx) \<and> x = out_pairs tx ! snd p)"

definition stuck :: "(prevout \<Rightarrow> pair option option) \<Rightarrow> (bytes, mempool_tx) dict \<Rightarrow> (bytes, mempool_tx) dict \<Rightarrow> bool" where
  "stuck u all tx_map \<longleftrightarrow> (\<forall>(t, tx) \<in> set tx_map. \<exists>p \<in> set (prevouts tx). missing u all p)"

definition fresh_txs :: "(bytes, mempool_tx) dict \<Rightarrow> 'g mempool \<Rightarrow> bool" where
  "fresh_txs tx_map m \<longleftrightarrow> dict_ok tx_map \<and> (\<forall>t \<in> fst ` set tx_map. length t = 32 \<and> map_of (txs m) t = None)"

text \<open>A set of hashes is closed when it has every transaction all of whose inputs are known or from it.\<close>

definition closed_under :: "(prevout \<Rightarrow> pair option option) \<Rightarrow> (bytes, mempool_tx) dict \<Rightarrow> bytes set \<Rightarrow> bool" where
  "closed_under u tx_map Q \<longleftrightarrow> (\<forall>(t, tx) \<in> set tx_map.
     (\<forall>p \<in> set (prevouts tx). (\<exists>x. u p = Some (Some x)) \<or> fst p \<in> Q) \<longrightarrow> t \<in> Q)"

definition spends :: "(bytes, mempool_tx) dict \<Rightarrow> prevout set" where
  "spends all = (\<Union>(t, tx) \<in> set all. set (prevouts tx))"

definition touched_by :: "(bytes, mempool_tx) dict \<Rightarrow> bytes set" where
  "touched_by all = (\<Union>(t, tx) \<in> set all. set (touches tx))"

lemma spends_simps [simp]: "spends [] = {}" "spends ((t, tx) # all) = set (prevouts tx) \<union> spends all" "spends (xs @ ys) = spends xs \<union> spends ys"
  by (simp_all add: spends_def)

lemma touched_by_simps [simp]: "touched_by [] = {}" "touched_by ((t, tx) # all) = set (touches tx) \<union> touched_by all"
  "touched_by (xs @ ys) = touched_by xs \<union> touched_by ys"
  by (simp_all add: touched_by_def)

lemma with_inputs_simps [simp]: "prevouts (with_inputs tx pairs) = prevouts tx" "out_pairs (with_inputs tx pairs) = out_pairs tx"
  "idx_to_script (with_inputs tx pairs) = idx_to_script tx"
  by (simp_all add: with_inputs_def)

lemma mapM_Inl: "mapM f xs = Inl e \<Longrightarrow> \<exists>x \<in> set xs. f x = Inl e"
  by (induction xs) (auto simp: rbind_eq_Inl)

lemma find_utxo_resolves: "find_utxo u all p = Inr x \<Longrightarrow> resolves u all p x"
  by (auto simp: find_utxo_def resolves_def index_def split: option.splits if_splits)

lemma mapM_resolves: "mapM (find_utxo u all) ps = Inr pairs \<Longrightarrow> list_all2 (resolves u all) ps pairs"
  by (induction ps arbitrary: pairs) (auto simp: rbind_eq_Inr find_utxo_resolves)

lemma map_leD: "f \<subseteq>\<^sub>m g \<Longrightarrow> f a = Some b \<Longrightarrow> g a = Some b"
  by (metis domI map_le_def)

lemma resolves_mono: "list_all2 (resolves u all) ps pairs \<Longrightarrow> u \<subseteq>\<^sub>m u' \<Longrightarrow> list_all2 (resolves u' (all @ later)) ps pairs"
  by (erule list_all2_mono) (auto simp: resolves_def map_add_def dest: map_leD)

lemma find_utxo_missing: "find_utxo u all p = Inl KeyError \<Longrightarrow> missing u all p"
  by (auto simp: find_utxo_def missing_def index_def split: option.splits if_splits)

lemma find_utxo_found: "find_utxo u all p = Inr x \<Longrightarrow> \<not> missing u all p"
  by (auto simp: find_utxo_def missing_def split: option.splits)

lemma mapM_found: "mapM (find_utxo u all) ps = Inr pairs \<Longrightarrow> p \<in> set ps \<Longrightarrow> \<not> missing u all p"
  by (induction ps arbitrary: pairs) (auto simp: rbind_eq_Inr dest: find_utxo_found)

lemma try_accept_cases:
  assumes "try_accept gv u (deferred, spent, moved, m) (t, tx) = Inr st"
  obtains (waits) p where "st = (dict_set t tx deferred, spent, moved, m)" and "p \<in> set (prevouts tx)" and "missing u (txs m) p"
  | (accepts) pairs m' where "mapM (find_utxo u (txs m)) (prevouts tx) = Inr pairs" and "accept_tx gv t (with_inputs tx pairs) m = Inr m'"
      and "st = (deferred, spent \<union> set (prevouts tx), moved \<union> set (touches (with_inputs tx pairs)), m')"
proof (cases "mapM (find_utxo u (txs m)) (prevouts tx)")
  case (Inl e)
  with assms have "e = KeyError \<and> st = (dict_set t tx deferred, spent, moved, m)"
    by (cases e) (simp_all add: try_accept_def)
  with mapM_Inl [OF Inl] find_utxo_missing show ?thesis by (metis waits)
next
  case (Inr pairs)
  with assms accepts show ?thesis by (auto simp: try_accept_def Let_def rbind_eq_Inr)
qed

lemma accept_pass:
  assumes "foldM (try_accept gv u) (deferred, spent, moved, m) items = Inr (deferred', spent', moved', m')"
    and "mempool_ok m" and "fresh_txs items m" and "\<forall>t \<in> fst ` set items. map_of deferred t = None"
  shows "mempool_ok m' \<and> (\<exists>new. txs m' = txs m @ new \<and> set (dict_keys new) \<subseteq> set (dict_keys items)
    \<and> deferred' = deferred @ filter (\<lambda>(t, tx). t \<notin> set (dict_keys new)) items
    \<and> spent' = spent \<union> spends new \<and> moved' = moved \<union> touched_by new
    \<and> (new = [] \<longrightarrow> stuck u (txs m) items)
    \<and> (\<forall>t tx'. (t, tx') \<in> set new \<longrightarrow> (\<exists>tx pairs. (t, tx) \<in> set items \<and> tx' = with_inputs tx pairs \<and> list_all2 (resolves u (txs m')) (prevouts tx) pairs))
    \<and> (\<forall>Q. closed_under u items Q \<and> set (dict_keys (txs m)) \<subseteq> Q \<longrightarrow> set (dict_keys new) \<subseteq> Q))"
  using assms
proof (induction items arbitrary: deferred spent moved m)
  case Nil
  then show ?case by (auto simp: stuck_def dict_keys_def)
next
  case (Cons item items)
  obtain t tx where item: "item = (t, tx)" by (cases item)
  from Cons.prems(1) obtain st where st: "try_accept gv u (deferred, spent, moved, m) (t, tx) = Inr st"
    and rest: "foldM (try_accept gv u) st items = Inr (deferred', spent', moved', m')"
    by (auto simp: item rbind_eq_Inr)
  have t: "map_of (txs m) t = None" "length t = 32" "t \<notin> set (dict_keys items)" "map_of deferred t = None"
    using Cons.prems(3,4) by (auto simp: item fresh_txs_def dict_ok_def dict_keys_def)
  have fresh: "fresh_txs items m" using Cons.prems(3) by (auto simp: fresh_txs_def dict_ok_def dict_keys_def)
  from st show ?case
  proof (cases rule: try_accept_cases)
    case (waits p)
    have "\<forall>t' \<in> fst ` set items. map_of (dict_set t tx deferred) t' = None"
      using Cons.prems(4) t(3) by (auto simp: dict_keys_def)
    from Cons.IH [OF rest [unfolded waits(1)] Cons.prems(2) fresh this] obtain new where
      new: "mempool_ok m'" "txs m' = txs m @ new" "set (dict_keys new) \<subseteq> set (dict_keys items)"
        "deferred' = dict_set t tx deferred @ filter (\<lambda>(t, tx). t \<notin> set (dict_keys new)) items"
        "spent' = spent \<union> spends new" "moved' = moved \<union> touched_by new" "new = [] \<longrightarrow> stuck u (txs m) items"
        "\<forall>t tx'. (t, tx') \<in> set new \<longrightarrow> (\<exists>tx pairs. (t, tx) \<in> set items \<and> tx' = with_inputs tx pairs \<and> list_all2 (resolves u (txs m')) (prevouts tx) pairs)"
        "\<forall>Q. closed_under u items Q \<and> set (dict_keys (txs m)) \<subseteq> Q \<longrightarrow> set (dict_keys new) \<subseteq> Q"
      by (elim conjE exE) (rule that; assumption)
    have "t \<notin> set (dict_keys new)" using new(3) t(3) by blast
    show ?thesis
    proof (intro conjI exI [of _ new])
      show "deferred' = deferred @ filter (\<lambda>(t, tx). t \<notin> set (dict_keys new)) (item # items)"
        using new(4) t(4) \<open>t \<notin> set (dict_keys new)\<close> by (simp add: item dict_set_new)
      show "new = [] \<longrightarrow> stuck u (txs m) (item # items)" using new(7) waits(2,3) by (auto simp: stuck_def item)
      show "\<forall>Q. closed_under u (item # items) Q \<and> set (dict_keys (txs m)) \<subseteq> Q \<longrightarrow> set (dict_keys new) \<subseteq> Q"
        using new(9) by (auto simp: closed_under_def)
      show "\<forall>t tx'. (t, tx') \<in> set new \<longrightarrow> (\<exists>tx pairs. (t, tx) \<in> set (item # items) \<and> tx' = with_inputs tx pairs \<and> list_all2 (resolves u (txs m')) (prevouts tx) pairs)"
        using new(8) by (auto, blast+)
      show "set (dict_keys new) \<subseteq> set (dict_keys (item # items))" using new(3) by (auto simp: dict_keys_def)
    qed (use new in simp_all)
  next
    case (accepts pairs m1)
    let ?tx = "with_inputs tx pairs"
    note a = accept_tx_ok [OF Cons.prems(2) t(1,2) accepts(2)]
    have fresh1: "fresh_txs items m1" using fresh t(3) by (auto simp: fresh_txs_def a(2) map_add_def dict_keys_def)
    have "\<forall>t' \<in> fst ` set items. map_of deferred t' = None" using Cons.prems(4) by simp
    from Cons.IH [OF rest [unfolded accepts(3)] a(1) fresh1 this] obtain new where
      new: "mempool_ok m'" "txs m' = txs m1 @ new" "set (dict_keys new) \<subseteq> set (dict_keys items)"
        "deferred' = deferred @ filter (\<lambda>(t, tx). t \<notin> set (dict_keys new)) items"
        "spent' = spent \<union> set (prevouts tx) \<union> spends new" "moved' = moved \<union> set (touches ?tx) \<union> touched_by new"
        "\<forall>t tx'. (t, tx') \<in> set new \<longrightarrow> (\<exists>tx pairs. (t, tx) \<in> set items \<and> tx' = with_inputs tx pairs \<and> list_all2 (resolves u (txs m')) (prevouts tx) pairs)"
        "\<forall>Q. closed_under u items Q \<and> set (dict_keys (txs m1)) \<subseteq> Q \<longrightarrow> set (dict_keys new) \<subseteq> Q"
      by (elim conjE exE) (rule that; assumption)
    have found: "\<not> missing u (txs m) p" if "p \<in> set (prevouts tx)" for p
      by (rule mapM_found [OF accepts(1) that])
    have res: "list_all2 (resolves u (txs m')) (prevouts tx) pairs"
      using resolves_mono [OF mapM_resolves [OF accepts(1)] map_le_refl, of "(t, ?tx) # new"] by (simp add: new(2) a(2))
    show ?thesis
    proof (intro conjI exI [of _ "(t, ?tx) # new"])
      have "filter (\<lambda>(t', tx). t' \<notin> set (dict_keys ((t, ?tx) # new))) items = filter (\<lambda>(t, tx). t \<notin> set (dict_keys new)) items"
        using t(3) by (intro filter_cong) (auto simp: dict_keys_def rev_image_eqI)
      then show "deferred' = deferred @ filter (\<lambda>(t', tx). t' \<notin> set (dict_keys ((t, ?tx) # new))) (item # items)"
        using new(4) by (simp add: item dict_keys_def)
      show "\<forall>Q. closed_under u (item # items) Q \<and> set (dict_keys (txs m)) \<subseteq> Q \<longrightarrow> set (dict_keys ((t, ?tx) # new)) \<subseteq> Q"
      proof (intro allI impI)
        fix Q assume Q: "closed_under u (item # items) Q \<and> set (dict_keys (txs m)) \<subseteq> Q"
        have "(\<exists>x. u p = Some (Some x)) \<or> fst p \<in> Q" if "p \<in> set (prevouts tx)" for p
          using found [OF that] Q by (auto simp: missing_def set_dict_keys)
        with Q have "t \<in> Q" by (auto simp: closed_under_def item)
        with Q new(8) show "set (dict_keys ((t, ?tx) # new)) \<subseteq> Q" by (auto simp: a(2) closed_under_def dict_keys_def)
      qed
      show "\<forall>t' tx'. (t', tx') \<in> set ((t, ?tx) # new) \<longrightarrow> (\<exists>tx pairs. (t', tx) \<in> set (item # items) \<and> tx' = with_inputs tx pairs \<and> list_all2 (resolves u (txs m')) (prevouts tx) pairs)"
        using new(7) res by (auto simp: item, blast+)
      show "set (dict_keys ((t, ?tx) # new)) \<subseteq> set (dict_keys (item # items))" using new(3) by (auto simp: dict_keys_def item)
    qed (use new in \<open>simp_all add: a(2) Un_assoc\<close>)
  qed
qed

text \<open>What a pass, several passes and several batches do, in one predicate: \<open>news\<close> are the accepted
  transactions, \<open>old\<close> the candidates.\<close>

definition accepted ::
    "(prevout \<Rightarrow> pair option option) \<Rightarrow> (bytes, mempool_tx) dict \<Rightarrow> bytes set \<Rightarrow> 'g mempool
      \<Rightarrow> (bytes, mempool_tx) dict \<Rightarrow> bytes set \<Rightarrow> 'g mempool \<Rightarrow> (bytes, mempool_tx) dict \<Rightarrow> bool" where
  "accepted u tx_map moved m deferred moved' m' new \<longleftrightarrow> mempool_ok m' \<and> txs m' = txs m @ new
     \<and> set (dict_keys new) \<subseteq> set (dict_keys tx_map)
     \<and> deferred = filter (\<lambda>(t, tx). t \<notin> set (dict_keys new)) tx_map \<and> moved' = moved \<union> touched_by new
     \<and> (\<forall>t tx'. (t, tx') \<in> set new \<longrightarrow> (\<exists>tx pairs. (t, tx) \<in> set tx_map \<and> tx' = with_inputs tx pairs
          \<and> list_all2 (resolves u (txs m')) (prevouts tx) pairs))
     \<and> (\<forall>Q. closed_under u tx_map Q \<and> set (dict_keys (txs m)) \<subseteq> Q \<longrightarrow> set (dict_keys new) \<subseteq> Q)"

lemma acceptedD:
  assumes "accepted u tx_map moved m deferred moved' m' new"
  shows "mempool_ok m'" "txs m' = txs m @ new" "set (dict_keys new) \<subseteq> set (dict_keys tx_map)"
    "deferred = filter (\<lambda>(t, tx). t \<notin> set (dict_keys new)) tx_map" "moved' = moved \<union> touched_by new"
    "(t, tx') \<in> set new \<Longrightarrow> \<exists>tx pairs. (t, tx) \<in> set tx_map \<and> tx' = with_inputs tx pairs
      \<and> list_all2 (resolves u (txs m')) (prevouts tx) pairs"
    "closed_under u tx_map Q \<Longrightarrow> set (dict_keys (txs m)) \<subseteq> Q \<Longrightarrow> set (dict_keys new) \<subseteq> Q"
  using assms unfolding accepted_def by blast+

lemma accept_transactions_accepted:
  assumes "accept_transactions gv tx_map u moved m = Inr (deferred, u', moved', m')" and "mempool_ok m" and "fresh_txs tx_map m"
  shows "\<exists>new. accepted u tx_map moved m deferred moved' m' new \<and> u' = u |` (- spends new)
    \<and> (new = [] \<longrightarrow> stuck u (txs m) tx_map)"
proof -
  from assms(1) obtain spent where f: "foldM (try_accept gv u) ([], {}, moved, m) tx_map = Inr (deferred, spent, moved', m')"
    and u': "u' = u |` (- spent)" by (auto simp: accept_transactions_def rbind_eq_Inr)
  from accept_pass [OF f assms(2,3)] u' show ?thesis by (auto simp: accepted_def)
qed

lemma fresh_deferred:
  assumes "fresh_txs tx_map m" and "accepted u tx_map moved m deferred moved' m' new"
  shows "fresh_txs deferred m'"
proof -
  note a = acceptedD [OF assms(2)]
  have "dict_ok deferred" using assms(1) by (simp add: a(4) fresh_txs_def dict_ok_def dict_keys_def distinct_map_filter)
  moreover have "length t = 32 \<and> map_of (txs m') t = None" if "t \<in> fst ` set deferred" for t
  proof -
    from that have "t \<in> fst ` set tx_map" "t \<notin> set (dict_keys new)" by (auto simp: a(4))
    moreover from this(1) assms(1) have "length t = 32" "map_of (txs m) t = None" by (auto simp: fresh_txs_def)
    ultimately show ?thesis by (simp add: a(2) map_add_def set_dict_keys domIff)
  qed
  ultimately show ?thesis by (simp add: fresh_txs_def)
qed

lemma closed_less:
  assumes "closed_under u tx_map Q" and "u' \<subseteq>\<^sub>m u" and "set items \<subseteq> set tx_map"
  shows "closed_under u' items Q"
proof -
  have "u p = Some (Some x)" if "u' p = Some (Some x)" for p x using assms(2) that by (metis domI map_le_def)
  with assms(1,3) show ?thesis unfolding closed_under_def by blast
qed

lemma accepted_trans:
  assumes "accepted u tx_map moved m deferred moved1 m1 new" and "accepted u' deferred moved1 m1 deferred' moved2 m2 new'" and "u' \<subseteq>\<^sub>m u"
  shows "accepted u tx_map moved m deferred' moved2 m2 (new @ new')"
proof -
  note a = acceptedD [OF assms(1)] and b = acceptedD [OF assms(2)]
  have sub: "set deferred \<subseteq> set tx_map" by (simp add: a(4))
  have "set (dict_keys (new @ new')) \<subseteq> Q" if "closed_under u tx_map Q" "set (dict_keys (txs m)) \<subseteq> Q" for Q
    using a(7) [OF that] b(7) [OF closed_less [OF that(1) assms(3) sub]] that(2) by (auto simp: a(2) dict_keys_def)
  moreover have "set (dict_keys deferred) \<subseteq> set (dict_keys tx_map)" using sub by (auto simp: dict_keys_def)
  then have "set (dict_keys (new @ new')) \<subseteq> set (dict_keys tx_map)" using a(3) b(3) by (auto simp: dict_keys_def)
  moreover have "deferred' = filter (\<lambda>(t, tx). t \<notin> set (dict_keys (new @ new'))) tx_map"
    unfolding b(4) a(4) filter_filter by (rule filter_cong) (auto simp: dict_keys_def)
  moreover have "\<forall>t tx'. (t, tx') \<in> set (new @ new') \<longrightarrow> (\<exists>tx pairs. (t, tx) \<in> set tx_map \<and> tx' = with_inputs tx pairs
      \<and> list_all2 (resolves u (txs m2)) (prevouts tx) pairs)"
  proof (intro allI impI)
    fix t tx' assume "(t, tx') \<in> set (new @ new')"
    then consider (1) "(t, tx') \<in> set new" | (2) "(t, tx') \<in> set new'" by auto
    then show "\<exists>tx pairs. (t, tx) \<in> set tx_map \<and> tx' = with_inputs tx pairs \<and> list_all2 (resolves u (txs m2)) (prevouts tx) pairs"
    proof cases
      case 1
      with a(6) [OF 1] resolves_mono [OF _ map_le_refl, of u "txs m1" _ _ new'] show ?thesis unfolding b(2) by blast
    next
      case 2
      with b(6) [OF 2] resolves_mono [OF _ assms(3), of "txs m2" _ _ "[]"] sub show ?thesis by fastforce
    qed
  qed
  ultimately show ?thesis unfolding accepted_def using a(2,5) b(1,2,5) by (simp add: Un_assoc)
qed

lemma accepted_refl: "mempool_ok m \<Longrightarrow> accepted u tx_map moved m tx_map moved m []"
  by (auto simp: accepted_def dict_keys_def)

lemma restrict_le: "u |` A \<subseteq>\<^sub>m u"
  by (auto simp: map_le_def restrict_map_def)

lemma retry_accepted:
  assumes "retry_deferred gv n (tx_map, u, moved, m) = Inr (deferred, u', moved', m')" and "mempool_ok m" and "fresh_txs tx_map m"
    and "length tx_map = n \<longrightarrow> stuck u (txs m) tx_map"
  shows "\<exists>new. accepted u tx_map moved m deferred moved' m' new \<and> u' = u |` (- spends new) \<and> stuck u' (txs m') deferred"
  using assms
proof (induction gv n "(tx_map, u, moved, m)" arbitrary: tx_map u moved m rule: retry_deferred.induct)
  case (1 gv n)
  show ?case
  proof (cases "tx_map \<noteq> [] \<and> length tx_map \<noteq> n")
    case True
    with "1.prems"(1) obtain tx_map1 u1 moved1 m1 where
      acc: "accept_transactions gv tx_map u moved m = Inr (tx_map1, u1, moved1, m1)"
      and rest: "retry_deferred gv (length tx_map) (tx_map1, u1, moved1, m1) = Inr (deferred, u', moved', m')"
      by (subst (asm) retry_deferred.simps) (auto simp: rbind_eq_Inr)
    from accept_transactions_accepted [OF acc "1.prems"(2,3)] obtain new where
      a: "accepted u tx_map moved m tx_map1 moved1 m1 new" and u1: "u1 = u |` (- spends new)"
      and s: "new = [] \<longrightarrow> stuck u (txs m) tx_map" by blast
    have st: "length tx_map1 = length tx_map \<longrightarrow> stuck u1 (txs m1) tx_map1"
    proof
      assume "length tx_map1 = length tx_map"
      then have "\<forall>(t, tx) \<in> set tx_map. t \<notin> set (dict_keys new)"
        unfolding acceptedD(4) [OF a] by (metis (mono_tags, lifting) length_filter_less less_irrefl)
      then have "new = []" using acceptedD(3) [OF a] by (cases new) (auto simp: dict_keys_def)
      then show "stuck u1 (txs m1) tx_map1" using s acceptedD(2,4) [OF a] u1 by (simp add: dict_keys_def case_prod_beta)
    qed
    from "1.hyps" [OF refl refl refl True acc rest acceptedD(1) [OF a] fresh_deferred [OF "1.prems"(3) a] st]
    obtain new' where b: "accepted u1 tx_map1 moved1 m1 deferred moved' m' new'" "u' = u1 |` (- spends new')" "stuck u' (txs m') deferred"
      by blast
    have "accepted u tx_map moved m deferred moved' m' (new @ new')"
      by (rule accepted_trans [OF a b(1)]) (simp add: u1 restrict_le)
    then show ?thesis using b(2,3) by (auto simp: u1 intro!: exI [of _ "new @ new'"])
  next
    case False
    with "1.prems"(1) have "deferred = tx_map" "u' = u" "moved' = moved" "m' = m"
      by (subst (asm) retry_deferred.simps, auto)+
    moreover have "stuck u (txs m) tx_map" using False "1.prems"(4) by (auto simp: stuck_def)
    ultimately show ?thesis using accepted_refl [OF "1.prems"(2), of u tx_map moved] by (intro exI [of _ "[]"]) simp
  qed
qed

section \<open>What a refresh does\<close>

definition fetched :: "(bytes \<Rightarrow> bytes) \<Rightarrow> (string \<Rightarrow> bytes option) \<Rightarrow> bytes \<Rightarrow> mempool_tx option" where
  "fetched sha answer t =
     (case truthy (answer (hash_to_hex_str t)) of
        None \<Rightarrow> None
      | Some b \<Rightarrow> (case deserialize_tx sha b of Inl _ \<Rightarrow> None | Inr tx \<Rightarrow> Some tx))"

definition fetched_txs :: "(bytes \<Rightarrow> bytes) \<Rightarrow> (string \<Rightarrow> bytes option) \<Rightarrow> bytes list \<Rightarrow> (bytes, mempool_tx) dict" where
  "fetched_txs sha answer hs = concat (map (\<lambda>t. case fetched sha answer t of None \<Rightarrow> [] | Some tx \<Rightarrow> [(t, tx)]) hs)"

lemma in_fetched_txs: "(t, tx) \<in> set (fetched_txs sha answer hs) \<longleftrightarrow> t \<in> set hs \<and> fetched sha answer t = Some tx"
  by (auto simp: fetched_txs_def split: option.splits)

lemma fetched_append: "fetched_txs sha answer (xs @ ys) = fetched_txs sha answer xs @ fetched_txs sha answer ys"
  by (simp add: fetched_txs_def)

lemma fetched_keys: "set (dict_keys (fetched_txs sha answer hs)) \<subseteq> set hs"
  by (auto simp: dict_keys_def in_fetched_txs)

lemma fetched_ok: "distinct hs \<Longrightarrow> dict_ok (fetched_txs sha answer hs)"
proof (induction hs)
  case (Cons t hs)
  then have "t \<notin> set (dict_keys (fetched_txs sha answer hs))" using fetched_keys by fastforce
  with Cons show ?case by (simp add: fetched_txs_def dict_ok_def dict_keys_def split: option.split)
qed (simp add: fetched_txs_def)

lemma deserialize_fetched:
  assumes "deserialize_txs sha (zip hs (map answer (map hash_to_hex_str hs))) acc = Inr d" and "distinct hs" and "\<forall>t \<in> set hs. map_of acc t = None"
  shows "d = acc @ fetched_txs sha answer hs"
  using assms
proof (induction hs arbitrary: acc)
  case (Cons t hs)
  show ?case
  proof (cases "truthy (answer (hash_to_hex_str t))")
    case None
    with Cons show ?thesis by (simp add: fetched_txs_def fetched_def)
  next
    case (Some b)
    with Cons.prems(1) obtain tx where tx: "deserialize_tx sha b = Inr tx"
      and rest: "deserialize_txs sha (zip hs (map answer (map hash_to_hex_str hs))) (dict_set t tx acc) = Inr d"
      by (auto simp: rbind_eq_Inr)
    have "\<forall>t' \<in> set hs. map_of (dict_set t tx acc) t' = None" using Cons.prems(2,3) by auto
    from Cons.IH [OF rest _ this] Cons.prems(2,3) show ?thesis by (simp add: fetched_txs_def fetched_def Some tx dict_set_new)
  qed
qed (simp add: fetched_txs_def)

text \<open>What the database knows of the outpoints that are looked up.\<close>

definition confirmed :: "(prevout \<Rightarrow> pair option) \<Rightarrow> bytes set \<Rightarrow> prevout \<Rightarrow> pair option option" where
  "confirmed look all_hashes p = (if fst p \<in> all_hashes then None else Some (look p))"

lemma in_dict_keys: "(k, v) \<in> set d \<Longrightarrow> k \<in> set (dict_keys d)"
  by (force simp: dict_keys_def)

lemma dict_keys_append [simp]: "dict_keys (d @ e) = dict_keys d @ dict_keys e"
  by (simp add: dict_keys_def)

lemma accepted_mono:
  assumes "accepted u tx_map moved m deferred moved' m' new" and "u \<subseteq>\<^sub>m u'"
  shows "accepted u' tx_map moved m deferred moved' m' new"
proof -
  note a = acceptedD [OF assms(1)]
  have "\<exists>tx pairs. (t, tx) \<in> set tx_map \<and> tx' = with_inputs tx pairs \<and> list_all2 (resolves u' (txs m')) (prevouts tx) pairs"
    if "(t, tx') \<in> set new" for t tx'
    using a(6) [OF that] resolves_mono [OF _ assms(2), of "txs m'" _ _ "[]"] by fastforce
  then show ?thesis using a(1-5) a(7) [OF closed_less [OF _ assms(2) subset_refl]] unfolding accepted_def by blast
qed

lemma accepted_union:
  assumes "accepted u A moved m D moved1 m1 new" and "accepted u B moved1 m1 D' moved2 m2 new'"
    and "set (dict_keys A) \<inter> set (dict_keys B) = {}"
  shows "accepted u (A @ B) moved m (D @ D') moved2 m2 (new @ new')"
proof -
  note a = acceptedD [OF assms(1)] and b = acceptedD [OF assms(2)]
  have keys: "set (dict_keys (new @ new')) \<subseteq> Q" if "closed_under u (A @ B) Q" "set (dict_keys (txs m)) \<subseteq> Q" for Q
  proof -
    have "closed_under u A Q" "closed_under u B Q" using that(1) by (auto simp: closed_under_def)
    with a(7) [of Q] b(7) [of Q] that(2) show ?thesis by (auto simp: a(2) dict_keys_def)
  qed
  have dis: "set (dict_keys new') \<inter> set (dict_keys A) = {}" "set (dict_keys new) \<inter> set (dict_keys B) = {}"
    using a(3) b(3) assms(3) by blast+
  have "D = filter (\<lambda>(t, tx). t \<notin> set (dict_keys (new @ new'))) A"
    unfolding a(4) using dis(1) by (intro filter_cong refl) (auto dest!: in_dict_keys)
  moreover have "D' = filter (\<lambda>(t, tx). t \<notin> set (dict_keys (new @ new'))) B"
    unfolding b(4) using dis(2) by (intro filter_cong refl) (auto dest!: in_dict_keys)
  moreover have "\<forall>t tx'. (t, tx') \<in> set (new @ new') \<longrightarrow> (\<exists>tx pairs. (t, tx) \<in> set (A @ B) \<and> tx' = with_inputs tx pairs
      \<and> list_all2 (resolves u (txs m2)) (prevouts tx) pairs)"
  proof (intro allI impI)
    fix t tx' assume "(t, tx') \<in> set (new @ new')"
    then consider (1) "(t, tx') \<in> set new" | (2) "(t, tx') \<in> set new'" by auto
    then show "\<exists>tx pairs. (t, tx) \<in> set (A @ B) \<and> tx' = with_inputs tx pairs \<and> list_all2 (resolves u (txs m2)) (prevouts tx) pairs"
    proof cases
      case 1
      with a(6) [OF 1] resolves_mono [OF _ map_le_refl, of u "txs m1" _ _ new'] show ?thesis unfolding b(2) by auto
    next
      case 2
      with b(6) [OF 2] show ?thesis by auto
    qed
  qed
  ultimately show ?thesis
    using a(2,3,5) b(1-3,5) keys unfolding accepted_def by (auto simp: dict_keys_def)
qed

text \<open>What is known of the inputs of the transactions that wait.\<close>

definition looked_up :: "(prevout \<Rightarrow> pair option) \<Rightarrow> bytes set \<Rightarrow> (prevout \<Rightarrow> pair option option) \<Rightarrow> (bytes, mempool_tx) dict \<Rightarrow> prevout set \<Rightarrow> bool" where
  "looked_up look all_hashes u tx_map spent \<longleftrightarrow> u \<subseteq>\<^sub>m confirmed look all_hashes
     \<and> (\<forall>(t, tx) \<in> set tx_map. \<forall>p \<in> set (prevouts tx). fst p \<notin> all_hashes \<longrightarrow> u p = Some (look p) \<or> p \<in> spent)"

lemma fetch_accepted:
  assumes "fetch_and_accept sha gv raws lookup all_hashes hs moved m = Inr (deferred, u, moved', m')"
    and "\<And>xs. raws xs = map answer xs" and "\<And>ps us. lookup ps = Inr us \<Longrightarrow> us = map look ps"
    and "mempool_ok m" and "distinct hs" and "\<forall>t \<in> set hs. length t = 32 \<and> map_of (txs m) t = None"
  shows "\<exists>new. accepted (confirmed look all_hashes) (fetched_txs sha answer hs) moved m deferred moved' m' new
    \<and> looked_up look all_hashes u deferred (spends new)"
proof -
  let ?B = "fetched_txs sha answer hs"
  let ?ps = "filter (\<lambda>p. fst p \<notin> all_hashes) (concat (map (prevouts \<circ> snd) ?B))"
  from assms(1) obtain d us where d: "deserialize_txs sha (zip hs (map answer (map hash_to_hex_str hs))) [] = Inr d"
    and us: "lookup (filter (\<lambda>p. fst p \<notin> all_hashes) (concat (map (prevouts \<circ> snd) d))) = Inr us"
    and acc: "accept_transactions gv d (map_of (rev (zip (filter (\<lambda>p. fst p \<notin> all_hashes) (concat (map (prevouts \<circ> snd) d))) us))) moved m = Inr (deferred, u, moved', m')"
    unfolding fetch_and_accept_def assms(2) by (auto simp: rbind_eq_Inr Let_def)
  have d': "d = ?B" using deserialize_fetched [OF d assms(5)] by simp
  define u0 where "u0 = map_of (rev (zip ?ps (map look ?ps)))"
  have u: "u0 p = (if p \<in> set ?ps then Some (look p) else None)" for p
  proof -
    have "rev (zip ?ps (map look ?ps)) = map (\<lambda>p. (p, look p)) (rev ?ps)" by (simp add: zip_map2 zip_same_conv_map rev_map)
    then show ?thesis unfolding u0_def by (simp only: map_of_map_restrict) (simp add: restrict_map_def)
  qed
  have acc': "accept_transactions gv ?B u0 moved m = Inr (deferred, u, moved', m')"
    using acc assms(3) [OF us] unfolding d' u0_def by simp
  have "fresh_txs ?B m" using assms(6) fetched_ok [OF assms(5)] by (auto simp: fresh_txs_def in_fetched_txs)
  from accept_transactions_accepted [OF acc' assms(4) this] obtain new where
    new: "accepted u0 ?B moved m deferred moved' m' new" "u = u0 |` (- spends new)" by blast
  have le: "u0 \<subseteq>\<^sub>m confirmed look all_hashes" by (auto simp: map_le_def u confirmed_def split: if_splits)
  have "u \<subseteq>\<^sub>m confirmed look all_hashes" using map_le_trans [OF restrict_le le] by (simp add: new(2))
  moreover have "u p = Some (look p) \<or> p \<in> spends new" if "(t, tx) \<in> set deferred" "p \<in> set (prevouts tx)" "fst p \<notin> all_hashes" for t tx p
  proof -
    have "(t, tx) \<in> set ?B" using that(1) by (simp add: acceptedD(4) [OF new(1)])
    with that(2,3) have "p \<in> set ?ps" by force
    then have "u0 p = Some (look p)" unfolding u by (rule if_P)
    then show ?thesis by (simp add: new(2) restrict_map_def)
  qed
  ultimately have "looked_up look all_hashes u deferred (spends new)" by (auto simp: looked_up_def)
  with accepted_mono [OF new(1) le] show ?thesis by blast
qed

lemma dict_update_new: "dict_ok new \<Longrightarrow> set (dict_keys d) \<inter> set (dict_keys new) = {} \<Longrightarrow> dict_update d new = d @ new"
proof (induction new arbitrary: d)
  case (Cons e new)
  obtain k v where e: "e = (k, v)" by (cases e)
  have "dict_set k v d = d @ [(k, v)]" using Cons.prems(2) by (intro dict_set_new) (auto simp: e map_of_eq_None_iff dict_keys_def)
  moreover have "dict_update (d @ [(k, v)]) new = (d @ [(k, v)]) @ new"
    using Cons.prems by (intro Cons.IH) (auto simp: e dict_ok_def dict_keys_def)
  ultimately show ?case by (simp add: dict_update_def e)
qed (simp add: dict_update_def)

lemma looked_up_union:
  assumes "looked_up look all_hashes u D S" and "looked_up look all_hashes u' D' S'"
  shows "looked_up look all_hashes (u ++ u') (D @ D') (S \<union> S')"
proof -
  have le: "u \<subseteq>\<^sub>m confirmed look all_hashes" "u' \<subseteq>\<^sub>m confirmed look all_hashes" using assms by (simp_all add: looked_up_def)
  have l: "confirmed look all_hashes p = Some x" if "u p = Some x \<or> u' p = Some x" for p x using le that by (blast dest: map_leD)
  have "u ++ u' \<subseteq>\<^sub>m confirmed look all_hashes"
    unfolding map_le_def
  proof
    fix p assume "p \<in> dom (u ++ u')"
    from domD [OF this] obtain x where x: "(u ++ u') p = Some x" ..
    then have "u p = Some x \<or> u' p = Some x" by (auto simp: map_add_Some_iff)
    with l x show "(u ++ u') p = confirmed look all_hashes p" by simp
  qed
  moreover have sum: "(u ++ u') p = Some (look p)" if "u p = Some (look p) \<or> u' p = Some (look p)" "fst p \<notin> all_hashes" for p
  proof -
    have "(u ++ u') p \<noteq> None" using that(1) by auto
    then obtain x where x: "(u ++ u') p = Some x" unfolding not_None_eq ..
    then have "u p = Some x \<or> u' p = Some x" by (auto simp: map_add_Some_iff)
    from l [OF this] that(2) x show ?thesis by (simp add: confirmed_def)
  qed
  have "(u ++ u') p = Some (look p) \<or> p \<in> S \<union> S'"
    if "(t, tx) \<in> set (D @ D')" "p \<in> set (prevouts tx)" "fst p \<notin> all_hashes" for t tx p
  proof -
    have "u p = Some (look p) \<or> p \<in> S \<or> u' p = Some (look p) \<or> p \<in> S'" using assms that unfolding looked_up_def by auto
    with sum [of p] that(3) show ?thesis by blast
  qed
  ultimately show ?thesis unfolding looked_up_def by blast
qed

definition waiting ::
    "(prevout \<Rightarrow> pair option) \<Rightarrow> bytes set \<Rightarrow> (bytes, mempool_tx) dict \<Rightarrow> bytes set \<Rightarrow> 'g mempool
      \<Rightarrow> (bytes, mempool_tx) dict \<times> (prevout \<Rightarrow> pair option option) \<times> bytes set \<times> 'g mempool \<Rightarrow> (bytes, mempool_tx) dict \<Rightarrow> bool" where
  "waiting look all_hashes old moved m st new = (case st of (tx_map, u, moved', m') \<Rightarrow>
     accepted (confirmed look all_hashes) old moved m tx_map moved' m' new \<and> looked_up look all_hashes u tx_map (spends new))"

lemma fetch_batches_waiting:
  assumes "foldM (fetch_batch sha gv raws lookup all_hashes) st batches = Inr st'"
    and "\<And>xs. raws xs = map answer xs" and "\<And>ps us. lookup ps = Inr us \<Longrightarrow> us = map look ps"
    and "waiting look all_hashes old moved m st new" and "distinct (concat batches)"
    and "\<forall>t \<in> set (concat batches). length t = 32 \<and> map_of (txs m) t = None \<and> t \<notin> set (dict_keys old)"
  shows "\<exists>new'. waiting look all_hashes (old @ fetched_txs sha answer (concat batches)) moved m st' new'"
  using assms(1,4-6)
proof (induction batches arbitrary: st old new)
  case Nil
  then show ?case by (auto simp: fetched_txs_def)
next
  case (Cons hs batches)
  obtain tx_map u moved1 m1 where st: "st = (tx_map, u, moved1, m1)" by (cases st)
  obtain r where r: "fetch_and_accept sha gv raws lookup all_hashes hs moved1 m1 = Inr r"
    using Cons.prems(1) by (cases "fetch_and_accept sha gv raws lookup all_hashes hs moved1 m1") (simp_all add: st fetch_batch_def)
  obtain D u' moved2 m2 where f: "r = (D, u', moved2, m2)" by (cases r)
  note f = r [unfolded f]
  have "fetch_batch sha gv raws lookup all_hashes st hs = Inr (dict_update tx_map D, u ++ u', moved2, m2)"
    by (simp add: st f fetch_batch_def)
  with Cons.prems(1) have rest: "foldM (fetch_batch sha gv raws lookup all_hashes) (dict_update tx_map D, u ++ u', moved2, m2) batches = Inr st'"
    by simp
  let ?B = "fetched_txs sha answer hs"
  have w: "accepted (confirmed look all_hashes) old moved m tx_map moved1 m1 new" "looked_up look all_hashes u tx_map (spends new)"
    using Cons.prems(2) by (simp_all add: waiting_def st)
  note a = acceptedD [OF w(1)]
  have old: "set (dict_keys old) \<inter> set (dict_keys ?B) = {}" using fetched_keys [of sha answer hs] Cons.prems(4) by fastforce
  have "\<forall>t \<in> set hs. length t = 32 \<and> map_of (txs m1) t = None"
  proof
    fix t assume "t \<in> set hs"
    with Cons.prems(4) have t: "length t = 32" "map_of (txs m) t = None" "t \<notin> set (dict_keys old)" by auto
    then have "t \<notin> set (dict_keys new)" using a(3) by blast
    with t show "length t = 32 \<and> map_of (txs m1) t = None" by (simp add: a(2) map_add_def set_dict_keys domIff)
  qed
  from fetch_accepted [OF f assms(2,3) a(1) _ this] Cons.prems(3) obtain new' where
    b: "accepted (confirmed look all_hashes) ?B moved1 m1 D moved2 m2 new'" "looked_up look all_hashes u' D (spends new')" by auto
  have "set (dict_keys tx_map) \<subseteq> set (dict_keys old)" "set (dict_keys D) \<subseteq> set (dict_keys ?B)" "dict_ok D"
    using fetched_ok [of hs sha answer] Cons.prems(3)
    by (auto simp: a(4) acceptedD(4) [OF b(1)] dict_keys_def dict_ok_def distinct_map_filter)
  then have up: "dict_update tx_map D = tx_map @ D" using old by (intro dict_update_new) blast+
  have "waiting look all_hashes (old @ ?B) moved m (tx_map @ D, u ++ u', moved2, m2) (new @ new')"
    using accepted_union [OF w(1) b(1) old] looked_up_union [OF w(2) b(2)] by (simp add: waiting_def)
  moreover have "\<forall>t \<in> set (concat batches). length t = 32 \<and> map_of (txs m) t = None \<and> t \<notin> set (dict_keys (old @ ?B))"
    using Cons.prems(3,4) fetched_keys [of sha answer hs] by fastforce
  moreover have "distinct (concat batches)" using Cons.prems(3) by simp
  ultimately have "\<exists>new'. waiting look all_hashes ((old @ ?B) @ fetched_txs sha answer (concat batches)) moved m st' new'"
    by (intro Cons.IH [OF rest [unfolded up]])
  then show ?case by (simp add: fetched_append)
qed

lemma remove_gone:
  assumes "foldM (remove_tx gv) (moved, m) ts = Inr (moved', m')" and "mempool_ok m" and "distinct ts"
    and "set ts \<subseteq> set (dict_keys (txs m))"
  shows "mempool_ok m' \<and> map_of (txs m') = map_of (txs m) |` (- set ts)
    \<and> moved' = moved \<union> (\<Union>t \<in> set ts. set (touches (the (map_of (txs m) t))))"
  using assms
proof (induction ts arbitrary: moved m)
  case (Cons t ts)
  from Cons.prems(4) obtain tx where tx: "map_of (txs m) t = Some tx" by (auto simp: set_dict_keys)
  from Cons.prems(1) obtain moved1 m1 where 1: "remove_tx gv (moved, m) t = Inr (moved1, m1)"
    and rest: "foldM (remove_tx gv) (moved1, m1) ts = Inr (moved', m')" by (auto simp: rbind_eq_Inr)
  from remove_tx_ok [OF Cons.prems(2) tx 1] have r: "mempool_ok m1" "txs m1 = dict_del t (txs m)" "moved1 = moved \<union> set (touches tx)"
    by blast+
  have "set ts \<subseteq> set (dict_keys (txs m1))" using Cons.prems(3,4) by (auto simp: r(2) set_dict_keys)
  from Cons.IH [OF rest r(1) _ this] Cons.prems(3) have
    ih: "mempool_ok m'" "map_of (txs m') = map_of (txs m1) |` (- set ts)"
      "moved' = moved1 \<union> (\<Union>t \<in> set ts. set (touches (the (map_of (txs m1) t))))" by simp_all
  have "(\<Union>t \<in> set ts. set (touches (the (map_of (txs m1) t)))) = (\<Union>t \<in> set ts. set (touches (the (map_of (txs m) t))))"
    using Cons.prems(3) by (intro SUP_cong) (auto simp: r(2))
  with ih show ?case by (auto simp: r(2,3) tx restrict_map_def fun_eq_iff)
qed simp

text \<open>The answers of the daemon and of the database, one transaction and one outpoint at a time.\<close>

definition answers_with :: "(string list \<Rightarrow> bytes option list) \<Rightarrow> (string \<Rightarrow> bytes option) \<Rightarrow> bool" where
  "answers_with raws answer \<longleftrightarrow> (\<forall>xs. raws xs = map answer xs)"

definition looks_up :: "(prevout list \<Rightarrow> pair option list res) \<Rightarrow> (prevout \<Rightarrow> pair option) \<Rightarrow> bool" where
  "looks_up lookup look \<longleftrightarrow> (\<forall>ps us. lookup ps = Inr us \<longrightarrow> us = map look ps)"

definition reorders :: "(bytes list list \<Rightarrow> bytes list list) \<Rightarrow> bool" where
  "reorders schedule \<longleftrightarrow> (\<forall>bs. mset (schedule bs) = mset bs)"

lemma mset_concat_batches: "mset bs = mset bs' \<Longrightarrow> mset (concat bs) = mset (concat bs')"
  by (metis mset_concat mset_map sum_mset_sum_list)

lemma deserialize_parsed:
  "deserialize_txs sha (zip hs (map answer (map hash_to_hex_str hs))) acc = Inr d \<Longrightarrow> t \<in> set hs
    \<Longrightarrow> truthy (answer (hash_to_hex_str t)) \<noteq> None \<Longrightarrow> fetched sha answer t \<noteq> None"
proof (induction hs arbitrary: acc)
  case (Cons h hs)
  then show ?case by (auto simp: fetched_def rbind_eq_Inr split: option.splits)
qed simp

lemma fetch_batches_parsed:
  assumes "foldM (fetch_batch sha gv raws lookup all_hashes) st batches = Inr st'" and "\<And>xs. raws xs = map answer xs"
    and "t \<in> set (concat batches)" and "truthy (answer (hash_to_hex_str t)) \<noteq> None"
  shows "fetched sha answer t \<noteq> None"
  using assms(1,3)
proof (induction batches arbitrary: st)
  case (Cons hs batches)
  then obtain st1 where 1: "fetch_batch sha gv raws lookup all_hashes st hs = Inr st1"
    "foldM (fetch_batch sha gv raws lookup all_hashes) st1 batches = Inr st'" by (auto simp: rbind_eq_Inr)
  from 1(1) obtain d where "deserialize_txs sha (zip hs (map answer (map hash_to_hex_str hs))) [] = Inr d"
    by (auto simp: fetch_batch_def fetch_and_accept_def assms(2) rbind_eq_Inr split: prod.splits)
  from deserialize_parsed [OF this _ assms(4)] Cons.IH [OF 1(2)] Cons.prems(2) show ?case by auto
qed simp

lemma process_mempool_steps:
  assumes "process_mempool sha gv raws lookup schedule db_ht all_hashes moved ht m = Inr (dropped, moved', m')"
    and "answers_with raws answer" and "looks_up lookup look" and "reorders schedule"
    and "mempool_ok m" and "finite all_hashes" and "\<forall>t \<in> all_hashes. length t = 32"
  shows "\<exists>m1 moved1 news new. mempool_ok m1 \<and> map_of (txs m1) = map_of (txs m) |` all_hashes
    \<and> moved1 = moved \<union> (\<Union>t \<in> dom (map_of (txs m)) - all_hashes. set (touches (the (map_of (txs m) t))))
    \<and> distinct news \<and> set news = all_hashes - dom (map_of (txs m))
    \<and> accepted (confirmed look all_hashes) (fetched_txs sha answer news) moved1 m1 dropped moved' m' new
    \<and> (\<forall>(t, tx) \<in> set dropped. \<exists>p \<in> set (prevouts tx). map_of (txs m') (fst p) = None
         \<and> (fst p \<in> all_hashes \<or> look p = None \<or> p \<in> spends new))
    \<and> (\<forall>t \<in> set news. truthy (answer (hash_to_hex_str t)) \<noteq> None \<longrightarrow> fetched sha answer t \<noteq> None)"
proof -
  have raws: "raws xs = map answer xs" and lookup: "lookup ps = Inr us \<Longrightarrow> us = map look ps" for xs ps us
    using assms(2,3) by (auto simp: answers_with_def looks_up_def)
  let ?gone = "sorted_list_of_set (set (dict_keys (txs m)) - all_hashes)"
  from assms(1) obtain moved1 m1 where gone: "foldM (remove_tx gv) (moved, m) ?gone = Inr (moved1, m1)"
    and rest: "(let new_hashes = sorted_list_of_set (all_hashes - set (dict_keys (txs m1))) in
        if new_hashes = [] then Inr ([], moved1, m1)
        else rbind (chunks new_hashes 500 False) (\<lambda>batches.
          rbind (fetch_batches sha gv raws lookup all_hashes (schedule batches) moved1 m1) (\<lambda>st.
          rbind (retry_deferred gv 0 st) (\<lambda>(dropped, _, moved, m). Inr (dropped, moved, m))))) = Inr (dropped, moved', m')"
    by (auto simp: process_mempool_def rbind_eq_Inr split: if_splits)
  from remove_gone [OF gone assms(5)] have m1: "mempool_ok m1" "map_of (txs m1) = map_of (txs m) |` (- (set (dict_keys (txs m)) - all_hashes))"
    "moved1 = moved \<union> (\<Union>t \<in> set (dict_keys (txs m)) - all_hashes. set (touches (the (map_of (txs m) t))))" by simp_all
  have m1': "map_of (txs m1) = map_of (txs m) |` all_hashes"
    unfolding m1(2) by (auto simp: fun_eq_iff restrict_map_def set_dict_keys)
  let ?new_hashes = "sorted_list_of_set (all_hashes - set (dict_keys (txs m1)))"
  have news: "set ?new_hashes = all_hashes - dom (map_of (txs m))" using assms(6) by (auto simp: set_dict_keys m1')
  show ?thesis
  proof (cases "?new_hashes = []")
    case True
    with rest have "dropped = []" "moved' = moved1" "m' = m1" by (simp_all add: Let_def)
    then show ?thesis using m1(1,3) m1' news True accepted_refl [OF m1(1)]
      by (intro exI [of _ m1] exI [of _ moved1] exI [of _ "[]"]) (simp add: fetched_txs_def set_dict_keys)
  next
    case False
    let ?batches = "schedule (chunks_list 500 ?new_hashes)"
    from rest False obtain st where f: "foldM (fetch_batch sha gv raws lookup all_hashes) ([], Map.empty, moved1, m1) ?batches = Inr st"
      and r: "rbind (retry_deferred gv 0 st) (\<lambda>(dropped, _, moved, m). Inr (dropped, moved, m)) = Inr (dropped, moved', m')"
      by (auto simp: Let_def chunks_def fetch_batches_def rbind_eq_Inr)
    let ?news = "concat ?batches"
    have "mset ?news = mset (concat (chunks_list 500 ?new_hashes))"
      using assms(4) by (intro mset_concat_batches) (simp add: reorders_def)
    then have "mset ?news = mset ?new_hashes" by (simp add: concat_chunks_list)
    from mset_eq_setD [OF this] mset_eq_imp_distinct_iff [OF this] have perm: "set ?news = set ?new_hashes" "distinct ?news"
      by (simp_all only: distinct_sorted_list_of_set)
    have ns: "set ?news = all_hashes - dom (map_of (txs m))" by (rule trans [OF perm(1) news])
    have fresh: "\<forall>t \<in> set ?news. length t = 32 \<and> map_of (txs m1) t = None \<and> t \<notin> set (dict_keys ([] :: (bytes, mempool_tx) dict))"
      unfolding ns using assms(7) by (auto simp: m1' dict_keys_def restrict_map_def)
    have "waiting look all_hashes [] moved1 m1 ([], Map.empty, moved1, m1) []"
      using accepted_refl [OF m1(1)] by (simp add: waiting_def looked_up_def map_le_def)
    from fetch_batches_waiting [OF f raws lookup this perm(2) fresh] obtain new where
      w: "waiting look all_hashes (fetched_txs sha answer ?news) moved1 m1 st new" by auto
    obtain D u moved2 m2 where st: "st = (D, u, moved2, m2)" by (cases st)
    from w have a: "accepted (confirmed look all_hashes) (fetched_txs sha answer ?news) moved1 m1 D moved2 m2 new"
      and l: "looked_up look all_hashes u D (spends new)" by (simp_all add: waiting_def st)
    from r obtain u' where r': "retry_deferred gv 0 (D, u, moved2, m2) = Inr (dropped, u', moved', m')"
      by (auto simp: rbind_eq_Inr st)
    have "fresh_txs (fetched_txs sha answer ?news) m1" using fresh fetched_ok [OF perm(2)] by (auto simp: fresh_txs_def in_fetched_txs)
    from retry_accepted [OF r' acceptedD(1) [OF a] fresh_deferred [OF this a]] obtain new' where
      b: "accepted u D moved2 m2 dropped moved' m' new'" "u' = u |` (- spends new')" "stuck u' (txs m') dropped"
      by (auto simp: stuck_def)
    have le: "u \<subseteq>\<^sub>m confirmed look all_hashes" using l by (simp add: looked_up_def)
    have acc: "accepted (confirmed look all_hashes) (fetched_txs sha answer ?news) moved1 m1 dropped moved' m' (new @ new')"
      by (rule accepted_trans [OF a b(1) le])
    have "\<exists>p \<in> set (prevouts tx). map_of (txs m') (fst p) = None \<and> (fst p \<in> all_hashes \<or> look p = None \<or> p \<in> spends (new @ new'))"
      if "(t, tx) \<in> set dropped" for t tx
    proof -
      from b(3) that obtain p where p: "p \<in> set (prevouts tx)" "missing u' (txs m') p" by (auto simp: stuck_def)
      have "(t, tx) \<in> set D" using that by (simp add: acceptedD(4) [OF b(1)])
      with l p(1) have "fst p \<notin> all_hashes \<longrightarrow> u p = Some (look p) \<or> p \<in> spends new" unfolding looked_up_def by blast
      with p show ?thesis by (auto simp: missing_def b(2) restrict_map_def split: if_splits)
    qed
    then have "\<forall>(t, tx) \<in> set dropped. \<exists>p \<in> set (prevouts tx). map_of (txs m') (fst p) = None
        \<and> (fst p \<in> all_hashes \<or> look p = None \<or> p \<in> spends (new @ new'))" by blast
    moreover note fetch_batches_parsed [OF f raws]
    ultimately show ?thesis using acc m1(1) m1(3) [unfolded set_dict_keys] m1' perm(2) ns by blast
  qed
qed

section \<open>Properties\<close>

text \<open>The transactions that can be accepted: those kept, and those the daemon answered with whose inputs are
  all outputs the database knows or outputs of such transactions.\<close>

inductive acceptable ::
    "(prevout \<Rightarrow> pair option) \<Rightarrow> bytes set \<Rightarrow> (bytes \<Rightarrow> mempool_tx option) \<Rightarrow> bytes set \<Rightarrow> bytes \<Rightarrow> bool"
  for look all_hashes given kept where
  kept: "t \<in> kept \<Longrightarrow> acceptable look all_hashes given kept t"
| inputs: "t \<in> all_hashes \<Longrightarrow> given t = Some tx
    \<Longrightarrow> \<forall>p \<in> set (prevouts tx). fst p \<notin> all_hashes \<and> look p \<noteq> None \<or> acceptable look all_hashes given kept (fst p)
    \<Longrightarrow> acceptable look all_hashes given kept t"

definition no_conflicts :: "bytes set \<Rightarrow> (bytes \<Rightarrow> mempool_tx option) \<Rightarrow> bool" where
  "no_conflicts all_hashes given \<longleftrightarrow> (\<forall>t t' tx tx'. t \<in> all_hashes \<and> t' \<in> all_hashes \<and> t \<noteq> t'
     \<and> given t = Some tx \<and> given t' = Some tx' \<longrightarrow> set (prevouts tx) \<inter> set (prevouts tx') = {})"

lemma no_conflictsD:
  assumes "no_conflicts all_hashes given" and "t \<in> all_hashes" and "t' \<in> all_hashes" and "given t = Some tx" and "given t' = Some tx'"
    and "p \<in> set (prevouts tx)" and "p \<in> set (prevouts tx')"
  shows "t = t'"
  using assms unfolding no_conflicts_def disjoint_iff by meson

text \<open>C5: However the fetches of the batches are ordered, a refresh that returns leaves the mempool with the
  transactions it kept and exactly those of the daemon's others that can be accepted: no parent
  fetched in another batch or listed after its child is missed. (The daemon's mempool holds no two
  transactions spending the same outpoint.)\<close>
theorem mempool_refresh_complete:
  assumes "process_mempool sha gv raws lookup schedule db_ht all_hashes moved ht m = Inr (dropped, moved', m')"
    and "answers_with raws answer" and "looks_up lookup look" and "reorders schedule"
    and "mempool_ok m" and "finite all_hashes" and "\<forall>t \<in> all_hashes. length t = 32"
    and "no_conflicts all_hashes (fetched sha answer)"
  shows "map_of (txs m') t \<noteq> None
    \<longleftrightarrow> acceptable look all_hashes (fetched sha answer) (dom (map_of (txs m)) \<inter> all_hashes) t"
proof -
  from process_mempool_steps [OF assms(1-7)] obtain m1 moved1 news new where
    m1: "map_of (txs m1) = map_of (txs m) |` all_hashes" and news: "set news = all_hashes - dom (map_of (txs m))"
    and acc: "accepted (confirmed look all_hashes) (fetched_txs sha answer news) moved1 m1 dropped moved' m' new"
    and drop: "\<forall>(t, tx) \<in> set dropped. \<exists>p \<in> set (prevouts tx). map_of (txs m') (fst p) = None
         \<and> (fst p \<in> all_hashes \<or> look p = None \<or> p \<in> spends new)" by blast
  let ?A = "acceptable look all_hashes (fetched sha answer) (dom (map_of (txs m)) \<inter> all_hashes)"
  note a = acceptedD [OF acc]
  have dom': "map_of (txs m') t \<noteq> None \<longleftrightarrow> t \<in> set (dict_keys (txs m1)) \<union> set (dict_keys new)" for t
    by (auto simp: a(2) map_add_def set_dict_keys split: option.split)
  have kept: "set (dict_keys (txs m1)) = dom (map_of (txs m)) \<inter> all_hashes" by (simp add: set_dict_keys m1)
  have "?A t \<Longrightarrow> map_of (txs m') t \<noteq> None"
  proof (induction rule: acceptable.induct)
    case (kept t)
    then show ?case unfolding dom' \<open>set (dict_keys (txs m1)) = _\<close> by blast
  next
    case (inputs t tx)
    show ?case
    proof (rule ccontr)
      assume "\<not> map_of (txs m') t \<noteq> None"
      then have t: "t \<notin> set (dict_keys (txs m1))" "t \<notin> set (dict_keys new)" using dom' by blast+
      then have "t \<in> set news" using inputs(1) by (auto simp: news kept)
      with inputs(2) t(2) have "(t, tx) \<in> set dropped" by (simp add: a(4) in_fetched_txs)
      with drop obtain p where p: "p \<in> set (prevouts tx)" "map_of (txs m') (fst p) = None"
        "fst p \<in> all_hashes \<or> look p = None \<or> p \<in> spends new" by blast
      with inputs(3) have "p \<in> spends new" by auto
      then obtain t' tx' where t': "(t', tx') \<in> set new" "p \<in> set (prevouts tx')" by (auto simp: spends_def)
      from a(6) [OF t'(1)] obtain tx0 where "(t', tx0) \<in> set (fetched_txs sha answer news)" "prevouts tx0 = prevouts tx'" by auto
      then have "t' \<in> all_hashes" "fetched sha answer t' = Some tx0" "p \<in> set (prevouts tx0)" using t'(2) by (simp_all add: in_fetched_txs news)
      from no_conflictsD [OF assms(8) inputs(1) this(1) inputs(2) this(2) p(1) this(3)] t(2) t'(1)
      show False by (auto dest: in_dict_keys)
    qed
  qed
  moreover have "closed_under (confirmed look all_hashes) (fetched_txs sha answer news) {t. ?A t}"
    unfolding closed_under_def
  proof (intro ballI, clarsimp)
    fix t tx
    assume t: "(t, tx) \<in> set (fetched_txs sha answer news)"
      and ins: "\<forall>p \<in> set (prevouts tx). (\<exists>a b. confirmed look all_hashes p = Some (Some (a, b))) \<or> ?A (fst p)"
    have "fst p \<notin> all_hashes \<and> look p \<noteq> None \<or> ?A (fst p)" if "p \<in> set (prevouts tx)" for p
      using ins that by (auto simp: confirmed_def split: if_splits)
    with t show "?A t" by (intro acceptable.inputs [of t _ _ tx]) (simp_all add: in_fetched_txs news)
  qed
  from a(7) [OF this] have "set (dict_keys new) \<subseteq> {t. ?A t}" using kept by (auto intro: acceptable.kept)
  then have "map_of (txs m') t \<noteq> None \<Longrightarrow> ?A t" unfolding dom' kept by (auto intro: acceptable.kept)
  ultimately show ?thesis by blast
qed

text \<open>C6: Whatever the daemon and the database answer and however the fetches are ordered, a refresh that
  returns keeps the indexes exact: every address has exactly the transactions that touch it, every
  reference its transactions, every outpoint its references. And every address whose transactions
  have changed is among those the sessions are notified of.\<close>
theorem mempool_indexes_exact:
  assumes "process_mempool sha gv raws lookup schedule db_ht all_hashes moved ht m = Inr (dropped, moved', m')"
    and "answers_with raws answer" and "looks_up lookup look" and "reorders schedule"
    and "mempool_ok m" and "finite all_hashes" and "\<forall>t \<in> all_hashes. length t = 32"
  shows "mempool_ok m' \<and> (\<forall>h. hashXs m' h \<noteq> hashXs m h \<longrightarrow> h \<in> moved') \<and> moved \<subseteq> moved'"
proof -
  from process_mempool_steps [OF assms(1-7)] obtain m1 moved1 news new where
    m1: "mempool_ok m1" "map_of (txs m1) = map_of (txs m) |` all_hashes"
      "moved1 = moved \<union> (\<Union>t \<in> dom (map_of (txs m)) - all_hashes. set (touches (the (map_of (txs m) t))))"
    and acc: "accepted (confirmed look all_hashes) (fetched_txs sha answer news) moved1 m1 dropped moved' m' new" by blast
  note a = acceptedD [OF acc]
  have "touching_txs (txs m') h = touching_txs (txs m) h" if "h \<notin> moved'" for h
  proof -
    have new: "h \<notin> set (touches tx)" if "(t, tx) \<in> set new" for t tx using that \<open>h \<notin> moved'\<close> by (auto simp: a(5) touched_by_def)
    have gone: "h \<notin> set (touches tx)" if "map_of (txs m) t = Some tx" "t \<notin> all_hashes" for t tx
      using that \<open>h \<notin> moved'\<close> by (force simp: a(5) m1(3))
    have "touching_txs (txs m') h = touching_txs (txs m1) h"
      using new by (auto simp: touching_txs_def a(2) map_add_def dest: map_of_SomeD split: option.splits)
    also have "\<dots> = touching_txs (txs m) h" using gone by (auto simp: touching_txs_def m1(2) restrict_map_def)
    finally show ?thesis .
  qed
  then have "\<forall>h. hashXs m' h \<noteq> hashXs m h \<longrightarrow> h \<in> moved'"
    unfolding mempool_okD(3) [OF a(1)] mempool_okD(3) [OF assms(5)] by metis
  with a(1,5) m1(3) show ?thesis by blast
qed

lemma txs_touching:
  assumes "mempool_ok m"
  shows "distinct (txs_touching m h)" "set (txs_touching m h) = touching_txs (txs m) h"
    "\<And>t. t \<in> set (txs_touching m h) \<Longrightarrow> map_of (txs m) t = Some (the (map_of (txs m) t))"
proof -
  have "touching_txs (txs m) h \<subseteq> dom (map_of (txs m))" by (auto simp: touching_txs_def)
  then have fin: "finite (touching_txs (txs m) h)" by (rule finite_subset) (simp add: finite_dom_map_of)
  show "distinct (txs_touching m h)" by (simp add: txs_touching_def)
  show s: "set (txs_touching m h) = touching_txs (txs m) h" by (simp add: txs_touching_def mempool_okD(4) [OF assms] fin)
  show "map_of (txs m) t = Some (the (map_of (txs m) t))" if "t \<in> set (txs_touching m h)" for t
    using that unfolding s by (auto simp: touching_txs_def)
qed

text \<open>What a transaction adds to the balance of an address.\<close>

definition net :: "bytes \<Rightarrow> mempool_tx \<Rightarrow> int" where
  "net hashX tx = paid hashX (out_pairs tx) - paid hashX (in_pairs tx)"

lemma paid_none: "h \<notin> fst ` set ps \<Longrightarrow> paid h ps = 0"
  unfolding paid_def by (subst filter_False) (auto simp: sum_values_def)

lemma queries_fold:
  assumes "\<And>t. t \<in> set ts \<Longrightarrow> map_of (txs m) t = Some (g t)"
  shows "foldM (\<lambda>(utxos, spends, delta) tx_hash. rbind (tx_of m tx_hash) (\<lambda>tx.
       Inr (utxos @ utxos_of h tx_hash tx, spends \<union> set (prevouts tx),
            delta - paid h (in_pairs tx) + paid h (out_pairs tx)))) (us, ps, d) ts
     = Inr (us @ concat (map (\<lambda>t. utxos_of h t (g t)) ts), ps \<union> (\<Union>t \<in> set ts. set (prevouts (g t))), d + sum_list (map (net h \<circ> g) ts))"
    and "foldM (\<lambda>val tx_hash. rbind (tx_of m tx_hash) (\<lambda>tx.
       Inr (val - paid h (in_pairs tx) + paid h (out_pairs tx)))) d ts = Inr (d + sum_list (map (net h \<circ> g) ts))"
    and "foldM (\<lambda>result tx_hash. rbind (tx_of m tx_hash) (\<lambda>tx. Inr (result \<union> set (prevouts tx)))) ps ts
      = Inr (ps \<union> (\<Union>t \<in> set ts. set (prevouts (g t))))"
    and "foldM (\<lambda>utxos tx_hash. case map_of (txs m) tx_hash of
         None \<Rightarrow> Inl AttributeError
       | Some tx \<Rightarrow> Inr (utxos @ utxos_of h tx_hash tx)) us ts = Inr (us @ concat (map (\<lambda>t. utxos_of h t (g t)) ts))"
  using assms by (induction ts arbitrary: us ps d) (auto simp: tx_of_def net_def Un_assoc)

lemma sum_touching:
  assumes "mempool_ok m"
  shows "sum_list (map (net h \<circ> (\<lambda>t. the (map_of (txs m) t))) (txs_touching m h)) = (\<Sum>(t, tx) \<leftarrow> txs m. net h tx)"
proof -
  let ?g = "\<lambda>t. the (map_of (txs m) t)"
  note ts = txs_touching [OF assms, where h = h]
  have ok: "dict_ok (txs m)" by (rule mempool_okD(1) [OF assms])
  have "(\<Sum>(t, tx) \<leftarrow> txs m. net h tx) = (\<Sum>e \<in> set (txs m). net h (snd e))"
    using ok by (subst sum_list_distinct_conv_sum_set) (auto simp: dict_ok_def dict_keys_def distinct_map intro!: sum.cong)
  also have "\<dots> = (\<Sum>e \<in> (\<lambda>t. (t, ?g t)) ` touching_txs (txs m) h. net h (snd e))"
  proof (rule sum.mono_neutral_right)
    show "(\<lambda>t. (t, ?g t)) ` touching_txs (txs m) h \<subseteq> set (txs m)" by (auto simp: touching_txs_def dest: map_of_SomeD)
    show "\<forall>e \<in> set (txs m) - (\<lambda>t. (t, ?g t)) ` touching_txs (txs m) h. net h (snd e) = 0"
    proof
      fix e assume e: "e \<in> set (txs m) - (\<lambda>t. (t, ?g t)) ` touching_txs (txs m) h"
      then have "map_of (txs m) (fst e) = Some (snd e)" using map_of_eq_iff_mem [OF ok] by (cases e) auto
      with e have "h \<notin> set (touches (snd e))" by (cases e) (auto simp: touching_txs_def image_iff)
      then show "net h (snd e) = 0" by (auto simp: net_def touches_def paid_none)
    qed
  qed simp
  also have "\<dots> = (\<Sum>t \<in> touching_txs (txs m) h. net h (?g t))" by (subst sum.reindex) (auto simp: inj_on_def)
  finally show ?thesis using ts(1,2) by (simp add: sum_list_distinct_conv_sum_set)
qed

lemma in_utxos_of: "(pos, t', v) \<in> set (utxos_of h t tx) \<longleftrightarrow> t' = t \<and> pos < length (out_pairs tx) \<and> out_pairs tx ! pos = (h, v)"
  by (force simp: utxos_of_def in_set_enumerate_eq split: if_splits)

text \<open>The three single queries and the combined one agree and none raises; and the answers, computed from
  the index of one address, are those of a scan of the whole mempool: the balance is what all
  transactions add to the address, the outputs are all that pay it, and every input that spends from
  it is among the potential spends.\<close>
theorem mempool_queries_agree:
  assumes "mempool_ok m"
  shows "\<exists>utxos spends. combined_mempool_state m h = Inr (utxos, spends, \<Sum>(t, tx) \<leftarrow> txs m. net h tx)
    \<and> unordered_UTXOs m h = Inr utxos \<and> potential_spends m h = Inr spends
    \<and> balance_delta m h = Inr (\<Sum>(t, tx) \<leftarrow> txs m. net h tx)
    \<and> (\<forall>pos t v. (pos, t, v) \<in> set utxos \<longleftrightarrow>
         (\<exists>tx. map_of (txs m) t = Some tx \<and> pos < length (out_pairs tx) \<and> out_pairs tx ! pos = (h, v)))
    \<and> (\<forall>t tx i. map_of (txs m) t = Some tx \<and> i < length (prevouts tx) \<and> i < length (in_pairs tx)
         \<and> fst (in_pairs tx ! i) = h \<longrightarrow> prevouts tx ! i \<in> spends)"
proof -
  let ?g = "\<lambda>t. the (map_of (txs m) t)" and ?ts = "txs_touching m h"
  note ts = txs_touching [OF assms, where h = h]
  define us where "us = concat (map (\<lambda>t. utxos_of h t (?g t)) ?ts)"
  define ps where "ps = (\<Union>t \<in> set ?ts. set (prevouts (?g t)))"
  have eqs: "combined_mempool_state m h = Inr (us, ps, \<Sum>(t, tx) \<leftarrow> txs m. net h tx)" "unordered_UTXOs m h = Inr us"
    "potential_spends m h = Inr ps" "balance_delta m h = Inr (\<Sum>(t, tx) \<leftarrow> txs m. net h tx)"
    using queries_fold(1) [where h = h and m = m and ts = ?ts and g = ?g and us = "[]" and ps = "{}" and d = 0, OF ts(3)]
      queries_fold(2) [where h = h and m = m and ts = ?ts and g = ?g and d = 0, OF ts(3)]
      queries_fold(3) [where m = m and ts = ?ts and g = ?g and ps = "{}", OF ts(3)]
      queries_fold(4) [where h = h and m = m and ts = ?ts and g = ?g and us = "[]", OF ts(3)]
    by (simp_all add: combined_mempool_state_def unordered_UTXOs_def potential_spends_def balance_delta_def us_def ps_def sum_touching [OF assms])
  have "(pos, t, v) \<in> set us \<longleftrightarrow> (\<exists>tx. map_of (txs m) t = Some tx \<and> pos < length (out_pairs tx) \<and> out_pairs tx ! pos = (h, v))" for pos t v
  proof
    assume "(pos, t, v) \<in> set us"
    then show "\<exists>tx. map_of (txs m) t = Some tx \<and> pos < length (out_pairs tx) \<and> out_pairs tx ! pos = (h, v)"
      using ts(3) by (auto simp: us_def in_utxos_of)
  next
    assume "\<exists>tx. map_of (txs m) t = Some tx \<and> pos < length (out_pairs tx) \<and> out_pairs tx ! pos = (h, v)"
    then obtain tx where tx: "map_of (txs m) t = Some tx" "pos < length (out_pairs tx)" "out_pairs tx ! pos = (h, v)" by blast
    then have "h \<in> set (touches tx)" using nth_mem [OF tx(2)] by (force simp: touches_def)
    with tx(1) have "t \<in> set ?ts" by (auto simp: ts(2) touching_txs_def)
    with tx show "(pos, t, v) \<in> set us" by (auto simp: us_def in_utxos_of)
  qed
  moreover have "prevouts tx ! i \<in> ps" if "map_of (txs m) t = Some tx" "i < length (prevouts tx)" "i < length (in_pairs tx)" "fst (in_pairs tx ! i) = h" for t tx i
  proof -
    have "h \<in> set (touches tx)" using nth_mem [OF that(3)] that(4) by (force simp: touches_def)
    with that(1) have "t \<in> set ?ts" by (auto simp: ts(2) touching_txs_def)
    with that(1,2) show ?thesis by (force simp: ps_def)
  qed
  ultimately show ?thesis using eqs by blast
qed

lemma mapM_all: "mapM f xs = Inr ys \<Longrightarrow> x \<in> set xs \<Longrightarrow> \<exists>y. f x = Inr y"
  by (induction xs arbitrary: ys) (auto simp: rbind_eq_Inr)

text \<open>C26: A transaction with an output script that does not parse (one that ends inside a push) stops the
  synchronisation: while the daemon's mempool holds such a transaction, no refresh returns the new
  state and no session is notified.\<close>
theorem bad_script_stops_refresh:
  assumes "answers_with raws answer" and "looks_up lookup look" and "reorders schedule" and "mempool_ok m"
    and "mapM hex_str_to_hash hex_hashes = Inr hashes" and "\<forall>t \<in> set hashes. length t = 32"
    and "t \<in> set hashes" and "map_of (txs m) t = None" and "truthy (answer (hash_to_hex_str t)) = Some b"
    and "read_tx_and_vsize b 0 = Inr ((tx, sz), c)" and "out \<in> set (tx_outputs tx)" and "get_push_input_refs (pk_script out) = Inl e"
  shows "process_mempool sha gv raws lookup schedule db_ht (set hashes) moved ht m \<noteq> Inr result
    \<and> refresh_hashes sha gv raws lookup schedule ht db_ht hex_hashes daemon_ht (moved, m) \<noteq> Inr (Some note, st')"
proof -
  have no: "process_mempool sha gv raws lookup schedule db_ht (set hashes) moved ht m \<noteq> Inr result" for result ht
  proof
    obtain dropped moved' m' where r: "result = (dropped, moved', m')" by (cases result)
    assume "process_mempool sha gv raws lookup schedule db_ht (set hashes) moved ht m = Inr result"
    from process_mempool_steps [OF this [unfolded r] assms(1-4) finite_set assms(6)] obtain news where
      "set news = set hashes - dom (map_of (txs m))"
      "\<forall>t \<in> set news. truthy (answer (hash_to_hex_str t)) \<noteq> None \<longrightarrow> fetched sha answer t \<noteq> None" by blast
    then have "fetched sha answer t \<noteq> None" using assms(7-9) by (simp add: domIff)
    then obtain tx' where "deserialize_tx sha b = Inr tx'" using assms(9) by (auto simp: fetched_def split: sum.splits)
    then obtain rs where "mapM (output_srefs sha (tx_inputs tx)) (tx_outputs tx) = Inr rs"
      by (auto simp: deserialize_tx_def assms(10) rbind_eq_Inr)
    from mapM_all [OF this assms(11)] show False by (simp add: output_srefs_def assms(12))
  qed
  then show ?thesis
    by (cases "process_mempool sha gv raws lookup schedule db_ht (set hashes) moved ht m")
      (auto simp: refresh_hashes_def assms(5) split: py_exc.splits)
qed

section \<open>Instances\<close>

text \<open>A parent without inputs and a child that spends its output, the child first.\<close>

definition child_raw_tx :: bytes where
  "child_raw_tx = [1, 0, 0, 0] @ [1] @ replicate 32 7 @ replicate 4 0 @ [0] @ replicate 4 255
     @ [1] @ [3, 0, 0, 0, 0, 0, 0, 0] @ [1, 81] @ replicate 4 0"

definition child_tx :: Tx where
  "child_tx = \<lparr>tx_version = 1, tx_inputs = [\<lparr>prev_hash = replicate 32 7, prev_idx = 0, in_script = [], in_sequence = 4294967295\<rparr>],
    tx_outputs = [\<lparr>out_value = 3, pk_script = [81]\<rparr>], tx_locktime = 0\<rparr>"

lemma child_tx_parses: "parses read_tx child_raw_tx child_tx"
proof -
  have "serialize_tx child_tx = Inr child_raw_tx"
    by (simp add: serialize_tx_def child_tx_def child_raw_tx_def packer_defs pack_varint_def pack_uint_def
        pack_sint_def serialize_output_def serialize_input_def pack_varbytes_def le_enc_numeral replicate_4)
  moreover have "fits_tx child_tx" by (simp add: child_tx_def fits_tx_def fits_output_def fits_input_def)
  ultimately show ?thesis by (rule tx.dec_enc [rotated])
qed

definition op_1_hashX :: bytes where "op_1_hashX = 81 # replicate 10 0"

definition mempool_parent :: mempool_tx where
  "mempool_parent = \<lparr>prevouts = [], in_pairs = [], out_pairs = [(op_1_hashX, 5)], tx_fee = 0, tx_vsize = length one_raw_tx,
     out_srefs = [[]], idx_to_script = [[81]]\<rparr>"

definition mempool_child :: mempool_tx where
  "mempool_child = \<lparr>prevouts = [(replicate 32 7, 0)], in_pairs = [], out_pairs = [(op_1_hashX, 3)], tx_fee = 0,
     tx_vsize = length child_raw_tx, out_srefs = [[]], idx_to_script = [[81]]\<rparr>"

lemma op_1_script: "zero_refs [81] = Inr [81]" "get_push_input_refs [81] = Inr ([], [], [])"
  by code_simp+

lemma op_1_hashX_eq: "hashX_from_script sample_sha [81] = op_1_hashX"
  by (simp add: hashX_from_script_def sample_sha_def op_1_hashX_def HASHX_LEN_def numeral_eq_Suc)

lemma parent_deserialized: "deserialize_tx sample_sha one_raw_tx = Inr mempool_parent"
  using parsesD0 [OF one_tx_parses, of "[]"]
  by (simp add: deserialize_tx_def read_tx_and_vsize_def one_tx_def out_pair_def output_srefs_def normal_mints_def op_1_script
      op_1_hashX_eq mempool_parent_def is_generation_def ZERO_def MINUS_1_def zero_bytes_def)

lemma child_deserialized: "deserialize_tx sample_sha child_raw_tx = Inr mempool_child"
  using parsesD0 [OF child_tx_parses, of "[]"]
  by (simp add: deserialize_tx_def read_tx_and_vsize_def child_tx_def out_pair_def output_srefs_def normal_mints_def op_1_script
      op_1_hashX_eq mempool_child_def is_generation_def MINUS_1_def)

definition no_tokens :: "unit glyph_view" where
  "no_tokens = \<lparr>process_mempool_tx = (\<lambda>t tx g. g), remove_mempool_tx = (\<lambda>t g. g)\<rparr>"

definition sample_answer :: "string \<Rightarrow> bytes option" where
  "sample_answer h = (if h = hash_to_hex_str (replicate 32 7) then Some one_raw_tx else Some child_raw_tx)"

definition sample_hashes :: "bytes set" where
  "sample_hashes = {replicate 32 3, replicate 32 7}"

definition sample_refresh :: "((bytes, mempool_tx) dict \<times> bytes set \<times> unit mempool) res" where
  "sample_refresh = process_mempool sample_sha no_tokens (map sample_answer) (\<lambda>ps. Inr (map (\<lambda>_. None) ps)) rev 0
     sample_hashes {} 0 (empty_mempool ())"

lemma replicate_less: "0 < n \<Longrightarrow> a < b \<Longrightarrow> replicate n a < replicate n (b :: byte)"
  by (cases n) auto

lemma sample_hash_order: "sorted_list_of_set sample_hashes = [replicate 32 3, replicate 32 7]"
proof -
  have less: "(replicate 32 3 :: bytes) < replicate 32 7" by (rule replicate_less) simp_all
  then have "insort (replicate 32 3 :: bytes) [replicate 32 7] = [replicate 32 3, replicate 32 7]" by simp
  moreover have "(replicate 32 3 :: bytes) \<notin> {replicate 32 7}" using less by auto
  ultimately show ?thesis unfolding sample_hashes_def
    by (subst sorted_list_of_set.fold_insort_key.insert) simp_all
qed

lemma sample_answers: "sample_answer (hash_to_hex_str (replicate 32 3)) = Some child_raw_tx"
  "sample_answer (hash_to_hex_str (replicate 32 7)) = Some one_raw_tx"
proof -
  have "hash_to_hex_str (replicate 32 3) \<noteq> hash_to_hex_str (replicate 32 7)" by code_simp
  then show "sample_answer (hash_to_hex_str (replicate 32 3)) = Some child_raw_tx"
    "sample_answer (hash_to_hex_str (replicate 32 7)) = Some one_raw_tx" by (simp_all add: sample_answer_def)
qed

lemma sample_deserialized: "deserialize_txs sample_sha (zip [replicate 32 3, replicate 32 7]
    (map sample_answer (map hash_to_hex_str [replicate 32 3, replicate 32 7]))) []
  = Inr [(replicate 32 3, mempool_child), (replicate 32 7, mempool_parent)]"
proof -
  have "truthy (Some child_raw_tx) = Some child_raw_tx" "truthy (Some one_raw_tx) = Some one_raw_tx"
    by (simp_all add: truthy_def child_raw_tx_def one_raw_tx_def)
  moreover have "(replicate 32 3 :: bytes) \<noteq> replicate 32 7" by (simp add: replicate_eq_replicate)
  ultimately show ?thesis by (simp add: sample_answers parent_deserialized child_deserialized)
qed

lemma no_output_refs: "output_refs [81] = Inr []"
  by (simp add: output_refs_def op_1_script dedup_refs_def dict_keys_def)

lemma sample_accept: "\<exists>m'. accept_tx no_tokens t (with_inputs tx pairs) m = Inr m' \<and> txs m' = dict_set t (with_inputs tx pairs) (txs m)"
  if "idx_to_script tx = [[81]]" for m :: "unit mempool"
  using that by (simp add: accept_tx_def Let_def index_outpoint_def no_output_refs index_hashXs index_srefs no_tokens_def)

lemma sample_refresh_returns: "\<exists>moved' m'. sample_refresh = Inr ([], moved', m')"
proof -
  let ?a = "replicate 32 3 :: bytes" and ?b = "replicate 32 7 :: bytes"
  let ?m = "empty_mempool () :: unit mempool"
  have ab: "?a \<noteq> ?b" by (simp add: replicate_eq_replicate)
  have sc: "idx_to_script mempool_child = [[81]]" "idx_to_script mempool_parent = [[81]]" by (simp_all add: mempool_child_def mempool_parent_def)
  from sample_accept [OF sc(2), of ?b "[]" ?m] obtain m1 where m1: "accept_tx no_tokens ?b (with_inputs mempool_parent []) ?m = Inr m1"
    "txs m1 = [(?b, with_inputs mempool_parent [])]" by (auto simp: empty_mempool_def)
  from sample_accept [OF sc(1), of ?a "[(op_1_hashX, 5)]" m1] obtain m2 where
    m2: "accept_tx no_tokens ?a (with_inputs mempool_child [(op_1_hashX, 5)]) m1 = Inr m2" by blast
  have t1: "txs ?m = []" by (simp add: empty_mempool_def)
  have p: "prevouts mempool_child = [(?b, 0)]" "prevouts mempool_parent = []" by (simp_all add: mempool_child_def mempool_parent_def)
  have find: "find_utxo u (txs m1) (?b, 0) = Inr (op_1_hashX, 5)" if "u (?b, 0) = None" for u
    using that by (simp add: find_utxo_def m1(2) mempool_parent_def)
  have pass1: "accept_transactions no_tokens [(?a, mempool_child), (?b, mempool_parent)] Map.empty {} ?m
      = Inr ([(?a, mempool_child)], Map.empty, set (touches (with_inputs mempool_parent [])), m1)"
    by (simp add: accept_transactions_def try_accept_def p t1 find_utxo_def m1(1))
  have pass2: "accept_transactions no_tokens [(?a, mempool_child)] Map.empty S m1
      = Inr ([], Map.empty, S \<union> set (touches (with_inputs mempool_child [(op_1_hashX, 5)])), m2)" for S
    by (simp add: accept_transactions_def try_accept_def p find m2)
  have h: "?a \<in> sample_hashes" "?b \<in> sample_hashes" by (simp_all add: sample_hashes_def)
  have "fetch_batch sample_sha no_tokens (map sample_answer) (\<lambda>ps. Inr (map (\<lambda>_. None) ps)) sample_hashes ([], Map.empty, {}, ?m) [?a, ?b]
      = Inr ([(?a, mempool_child)], Map.empty, set (touches (with_inputs mempool_parent [])), m1)"
    unfolding fetch_batch_def fetch_and_accept_def sample_deserialized
    by (simp add: sample_deserialized p h pass1 dict_update_def)
  then show ?thesis
    by (simp add: sample_refresh_def process_mempool_def t1 dict_keys_def sample_hash_order chunks_def chunks_list_step fetch_batches_def
        retry_deferred.simps pass2)
qed

lemma sample_world: "answers_with (map sample_answer) sample_answer" "looks_up (\<lambda>ps. Inr (map (\<lambda>_. None) ps)) (\<lambda>_. None)"
  "reorders rev" "mempool_ok (empty_mempool ())" "finite sample_hashes" "\<forall>t \<in> sample_hashes. length t = 32"
  by (simp_all add: answers_with_def looks_up_def reorders_def mempool_ok_def empty_mempool_def touching_txs_def sref_txs_def
      refs_of_output_def sample_hashes_def)

lemma sample_fetched: "fetched sample_sha sample_answer (replicate 32 3) = Some mempool_child"
  "fetched sample_sha sample_answer (replicate 32 7) = Some mempool_parent"
  by (simp_all add: fetched_def sample_answers truthy_def child_raw_tx_def [symmetric] one_raw_tx_def [symmetric]
      parent_deserialized child_deserialized split: list.split)
    (simp_all add: child_raw_tx_def one_raw_tx_def)

lemma sample_no_conflicts: "no_conflicts sample_hashes (fetched sample_sha sample_answer)"
  by (auto simp: no_conflicts_def sample_hashes_def sample_fetched mempool_child_def mempool_parent_def)

theorem mempool_refresh_complete_witness:
  "\<exists>moved' m'. sample_refresh = Inr ([], moved', m') \<and> (\<forall>t. map_of (txs m') t \<noteq> None
    \<longleftrightarrow> acceptable (\<lambda>_. None) sample_hashes (fetched sample_sha sample_answer) {} t) \<and> map_of (txs m') (replicate 32 3) \<noteq> None"
proof -
  let ?A = "acceptable (\<lambda>_. None) sample_hashes (fetched sample_sha sample_answer) {}"
  obtain moved' m' where r: "sample_refresh = Inr ([], moved', m')" using sample_refresh_returns by blast
  have all: "map_of (txs m') t \<noteq> None \<longleftrightarrow> ?A t" for t
    using mempool_refresh_complete [OF r [unfolded sample_refresh_def] sample_world sample_no_conflicts] by (simp add: empty_mempool_def)
  have "?A (replicate 32 7)"
    by (rule acceptable.inputs [where given = "fetched sample_sha sample_answer", OF _ sample_fetched(2)]) (simp_all add: sample_hashes_def mempool_parent_def)
  then have "?A (replicate 32 3)"
    by (intro acceptable.inputs [where given = "fetched sample_sha sample_answer", OF _ sample_fetched(1)]) (simp_all add: sample_hashes_def mempool_child_def)
  with r all show ?thesis by blast
qed

theorem mempool_indexes_exact_witness:
  "\<exists>moved' m'. sample_refresh = Inr ([], moved', m') \<and> mempool_ok m' \<and> (\<forall>h. hashXs m' h \<noteq> None \<longrightarrow> h \<in> moved')"
proof -
  obtain moved' m' where r: "sample_refresh = Inr ([], moved', m')" using sample_refresh_returns by blast
  from mempool_indexes_exact [OF r [unfolded sample_refresh_def] sample_world] r show ?thesis by (auto simp: empty_mempool_def)
qed

theorem mempool_queries_agree_witness:
  "\<exists>m :: unit mempool. txs m = [(replicate 32 7, with_inputs mempool_parent [])] \<and> mempool_ok m
    \<and> balance_delta m op_1_hashX = Inr 5"
proof -
  have "mempool_ok (empty_mempool () :: unit mempool)" by (rule sample_world(4))
  moreover from sample_accept [of mempool_parent "replicate 32 7" "[]" "empty_mempool ()"] obtain m where
    "accept_tx no_tokens (replicate 32 7) (with_inputs mempool_parent []) (empty_mempool ()) = Inr m"
    by (auto simp: mempool_parent_def)
  ultimately have m: "mempool_ok m" "txs m = [(replicate 32 7, with_inputs mempool_parent [])]"
    using accept_tx_ok [of "empty_mempool ()" "replicate 32 7" no_tokens] by (auto simp: empty_mempool_def)
  have "(\<Sum>(t, tx) \<leftarrow> txs m. net op_1_hashX tx) = 5"
    using m(2) by (simp add: net_def paid_def sum_values_def with_inputs_def mempool_parent_def)
  with mempool_queries_agree [OF m(1), of op_1_hashX] m show ?thesis by auto
qed


definition bad_raw_tx :: bytes where
  "bad_raw_tx = [1, 0, 0, 0] @ [1] @ replicate 32 0 @ replicate 4 255 @ [0] @ replicate 4 255
     @ [1] @ [5, 0, 0, 0, 0, 0, 0, 0] @ [1, 76] @ replicate 4 0"

definition bad_tx :: Tx where
  "bad_tx = one_tx\<lparr>tx_outputs := [\<lparr>out_value = 5, pk_script = [76]\<rparr>]\<rparr>"

lemma bad_tx_parses: "parses read_tx bad_raw_tx bad_tx"
proof -
  have "serialize_tx bad_tx = Inr bad_raw_tx"
    by (simp add: serialize_tx_def bad_tx_def one_tx_def bad_raw_tx_def packer_defs pack_varint_def pack_uint_def
        pack_sint_def serialize_output_def serialize_input_def pack_varbytes_def le_enc_numeral replicate_4)
  moreover have "fits_tx bad_tx" by (simp add: bad_tx_def one_tx_def fits_tx_def fits_output_def fits_input_def)
  ultimately show ?thesis by (rule tx.dec_enc [rotated])
qed

theorem bad_script_stops_refresh_witness:
  "\<forall>S st'. refresh_hashes sample_sha no_tokens (map (\<lambda>_. Some bad_raw_tx)) (\<lambda>ps. Inr (map (\<lambda>_. None) ps)) rev 0 0
     [hash_to_hex_str (replicate 32 7)] 0 ({}, empty_mempool ()) \<noteq> Inr (Some (S, 0), st')"
proof -
  have 1: "answers_with (map (\<lambda>_. Some bad_raw_tx)) (\<lambda>_. Some bad_raw_tx)" by (simp add: answers_with_def)
  have 2: "mapM hex_str_to_hash [hash_to_hex_str (replicate 32 7)] = Inr [replicate 32 7]" by (simp add: hash_hex_roundtrip)
  have 3: "truthy (Some bad_raw_tx) = Some bad_raw_tx" by (simp add: truthy_def bad_raw_tx_def)
  have 4: "read_tx_and_vsize bad_raw_tx 0 = Inr ((bad_tx, length bad_raw_tx), length bad_raw_tx)"
    using parsesD0 [OF bad_tx_parses, of "[]"] by (simp add: read_tx_and_vsize_def)
  have 5: "get_push_input_refs [76] = Inl ScriptError" by code_simp
  have "refresh_hashes sample_sha no_tokens (map (\<lambda>_. Some bad_raw_tx)) (\<lambda>ps. Inr (map (\<lambda>_. None) ps)) rev 0 0
     [hash_to_hex_str (replicate 32 7)] 0 ({}, empty_mempool ()) \<noteq> Inr (Some (S, 0), st')" for S st'
    using bad_script_stops_refresh [OF 1 sample_world(2-4) 2 _ _ _ 3 4, of "replicate 32 7"
      "\<lparr>out_value = 5, pk_script = [76]\<rparr>" ScriptError] 5
    by (simp add: bad_tx_def empty_mempool_def)
  then show ?thesis by blast
qed

end
