(* ===== verification/Swaps.thy ===== *)
theory Swaps
  imports UndoLog PyData PushChunks Coins Advance
begin

text \<open>
  \<open>electrumx/server/swap_index.py\<close>: the book of swap orders. An order is advertised in an \<open>OP_RETURN\<close>
  output and named after the outpoint that backs it; the transaction that spends this outpoint closes
  it. This theory has the advertisements, the stored form of an order, the index and its queries; theory
  \<open>SwapFacts\<close> has the proofs. The CBOR package is a parameter.
\<close>

unbundle bit_operations_syntax

section \<open>Orders\<close>

definition MAX_UINT64 :: int where "MAX_UINT64 = 18446744073709551615"
definition REF_LEN :: nat where "REF_LEN = 36"
definition REF_ENTRY_LEN :: nat where "REF_ENTRY_LEN = 37"

definition ST_OPEN :: int where "ST_OPEN = 0"
definition ST_PARTIAL :: int where "ST_PARTIAL = 1"
definition ST_FILLED :: int where "ST_FILLED = 2"
definition ST_CANCELLED :: int where "ST_CANCELLED = 3"
definition ST_EXPIRED :: int where "ST_EXPIRED = 4"
definition BUY :: int where "BUY = 0"
definition SELL :: int where "SELL = 1"

record order =
  order_id :: bytes
  order_tx_hash :: bytes
  order_vout :: int
  listed_height :: int
  timestamp :: int
  maker_scripthash :: bytes
  maker_address :: "pystr option"
  base_ref :: bytes
  quote_ref :: bytes
  base_ticker :: "pystr option"
  quote_ticker :: "pystr option"
  side :: int
  price :: int
  amount :: int
  filled_amount :: int
  remaining_amount :: int
  min_fill :: int
  fee_rate :: int
  status :: int
  expiry_height :: int
  cancel_height :: int
  cancel_txid :: "bytes option"
  fill_count :: int
  last_fill_height :: int
  avg_fill_price :: int

definition new_order :: order where
  "new_order = \<lparr>order_id = [], order_tx_hash = [], order_vout = 0, listed_height = 0, timestamp = 0,
     maker_scripthash = [], maker_address = None, base_ref = [], quote_ref = [], base_ticker = None, quote_ticker = None,
     side = SELL, price = 0, amount = 0, filled_amount = 0, remaining_amount = 0, min_fill = 0, fee_rate = 0,
     status = ST_OPEN, expiry_height = 0, cancel_height = 0, cancel_txid = None, fill_count = 0, last_fill_height = 0,
     avg_fill_price = 0\<rparr>"

section \<open>The stored form\<close>

record cbor2 =
  dumps :: "pyval \<Rightarrow> bytes res"
  loads :: "bytes \<Rightarrow> pyval res"

definition opt_val :: "('a \<Rightarrow> pyval) \<Rightarrow> 'a option \<Rightarrow> pyval" where
  "opt_val f v = (case v of None \<Rightarrow> PNone | Some x \<Rightarrow> f x)"

definition order_fields :: "order \<Rightarrow> (string \<times> pyval) list" where
  "order_fields o' =
     [(''oid'', PBytes (order_id o')), (''txh'', PBytes (order_tx_hash o')), (''v'', PInt (order_vout o')),
      (''h'', PInt (listed_height o')), (''ts'', PInt (timestamp o')), (''ms'', PBytes (maker_scripthash o')),
      (''ma'', opt_val PStr (maker_address o')), (''br'', PBytes (base_ref o')), (''qr'', PBytes (quote_ref o')),
      (''bt'', opt_val PStr (base_ticker o')), (''qt'', opt_val PStr (quote_ticker o')), (''sd'', PInt (side o')),
      (''pr'', PInt (price o')), (''am'', PInt (amount o')), (''fa'', PInt (filled_amount o')),
      (''ra'', PInt (remaining_amount o')), (''mf'', PInt (min_fill o')), (''fr'', PInt (fee_rate o')),
      (''st'', PInt (status o')), (''eh'', PInt (expiry_height o')), (''ch'', PInt (cancel_height o')),
      (''ct'', opt_val PBytes (cancel_txid o')), (''fc'', PInt (fill_count o')), (''lfh'', PInt (last_fill_height o')),
      (''afp'', PInt (avg_fill_price o'))]"

text \<open>\<open>v is not None and v != 0 and v != b''\<close>: an integer equals a Boolean and no string.\<close>

definition kept_value :: "pyval \<Rightarrow> bool" where
  "kept_value v \<longleftrightarrow> v \<notin> {PNone, PInt 0, PBool False, PBytes []}"

definition order_data :: "order \<Rightarrow> pyval" where
  "order_data o' =
     (let data = map (\<lambda>(k, v). (PStr (codes k), v)) (filter (\<lambda>(k, v). kept_value v) (order_fields o')) in
      PDict (dict_set (PStr (codes ''st'')) (PInt (status o')) (dict_set (PStr (codes ''sd'')) (PInt (side o')) data)))"

text \<open>Without the package, \<open>RuntimeError\<close>.\<close>

definition order_to_bytes :: "cbor2 option \<Rightarrow> order \<Rightarrow> bytes res" where
  "order_to_bytes cbor o' = (case cbor of None \<Rightarrow> Inl RuntimeError | Some c \<Rightarrow> dumps c (order_data o'))"

text \<open>\<open>d.get(key, default)\<close> of a stored order; a field of another type than \<open>to_bytes\<close> writes, which
  Python would take over as it is, is a \<open>TypeError\<close> here.\<close>

definition get_int :: "(pyval \<times> pyval) list \<Rightarrow> string \<Rightarrow> int \<Rightarrow> int res" where
  "get_int d key dflt = (case map_of d (PStr (codes key)) of None \<Rightarrow> Inr dflt | Some (PInt i) \<Rightarrow> Inr i | Some _ \<Rightarrow> Inl TypeError)"

definition get_bytes :: "(pyval \<times> pyval) list \<Rightarrow> string \<Rightarrow> bytes res" where
  "get_bytes d key = (case map_of d (PStr (codes key)) of None \<Rightarrow> Inr [] | Some (PBytes b) \<Rightarrow> Inr b | Some _ \<Rightarrow> Inl TypeError)"

definition get_str :: "(pyval \<times> pyval) list \<Rightarrow> string \<Rightarrow> pystr option res" where
  "get_str d key = (case map_of d (PStr (codes key)) of None \<Rightarrow> Inr None | Some (PStr s) \<Rightarrow> Inr (Some s) | Some _ \<Rightarrow> Inl TypeError)"

definition get_txid :: "(pyval \<times> pyval) list \<Rightarrow> string \<Rightarrow> bytes option res" where
  "get_txid d key = (case map_of d (PStr (codes key)) of None \<Rightarrow> Inr None | Some (PBytes b) \<Rightarrow> Inr (Some b) | Some _ \<Rightarrow> Inl TypeError)"

definition order_of_data :: "(pyval \<times> pyval) list \<Rightarrow> order res" where
  "order_of_data d =
     rbind (get_bytes d ''oid'') (\<lambda>oid. rbind (get_bytes d ''txh'') (\<lambda>txh. rbind (get_int d ''v'' 0) (\<lambda>v.
     rbind (get_int d ''h'' 0) (\<lambda>h. rbind (get_int d ''ts'' 0) (\<lambda>ts. rbind (get_bytes d ''ms'') (\<lambda>ms.
     rbind (get_str d ''ma'') (\<lambda>ma. rbind (get_bytes d ''br'') (\<lambda>br. rbind (get_bytes d ''qr'') (\<lambda>qr.
     rbind (get_str d ''bt'') (\<lambda>bt. rbind (get_str d ''qt'') (\<lambda>qt. rbind (get_int d ''sd'' SELL) (\<lambda>sd.
     rbind (get_int d ''pr'' 0) (\<lambda>pr. rbind (get_int d ''am'' 0) (\<lambda>am. rbind (get_int d ''fa'' 0) (\<lambda>fa.
     rbind (get_int d ''ra'' 0) (\<lambda>ra. rbind (get_int d ''mf'' 0) (\<lambda>mf. rbind (get_int d ''fr'' 0) (\<lambda>fr.
     rbind (get_int d ''st'' ST_OPEN) (\<lambda>st. rbind (get_int d ''eh'' 0) (\<lambda>eh. rbind (get_int d ''ch'' 0) (\<lambda>ch.
     rbind (get_txid d ''ct'') (\<lambda>ct. rbind (get_int d ''fc'' 0) (\<lambda>fc. rbind (get_int d ''lfh'' 0) (\<lambda>lfh.
     rbind (get_int d ''afp'' 0) (\<lambda>afp.
       Inr \<lparr>order_id = oid, order_tx_hash = txh, order_vout = v, listed_height = h, timestamp = ts, maker_scripthash = ms,
            maker_address = ma, base_ref = br, quote_ref = qr, base_ticker = bt, quote_ticker = qt, side = sd, price = pr,
            amount = am, filled_amount = fa, remaining_amount = ra, min_fill = mf, fee_rate = fr, status = st,
            expiry_height = eh, cancel_height = ch, cancel_txid = ct, fill_count = fc, last_fill_height = lfh,
            avg_fill_price = afp\<rparr>)))))))))))))))))))))))))"

definition order_from_bytes :: "cbor2 option \<Rightarrow> bytes \<Rightarrow> order res" where
  "order_from_bytes cbor b =
     (case cbor of None \<Rightarrow> Inl RuntimeError
      | Some c \<Rightarrow> rbind (loads c b) (\<lambda>v. case as_dict v of None \<Rightarrow> Inl AttributeError | Some d \<Rightarrow> order_of_data d))"

text \<open>What is stored reads back.\<close>

lemma codes_eq [simp]: "codes a = codes b \<longleftrightarrow> a = b"
proof -
  have "inj (of_char :: char \<Rightarrow> nat)" by (rule injI) (metis char_of_char)
  then show ?thesis by (simp add: codes_def inj_map_eq_map)
qed

lemma map_of_codes: "map_of (map (\<lambda>(k, v). (PStr (codes k), v)) xs) (PStr (codes k)) = map_of xs k"
  by (induction xs) auto

lemma map_of_kept: "distinct (map fst xs) \<Longrightarrow> map_of (filter (\<lambda>(k, v). kept_value v) xs) k
    = (case map_of xs k of None \<Rightarrow> None | Some v \<Rightarrow> if kept_value v then Some v else None)"
  by (induction xs) (auto simp: map_of_eq_None_iff split: option.split intro!: map_of_eq_None_iff [THEN iffD2])

lemma order_fields_distinct: "distinct (map fst (order_fields o'))"
  by (simp add: order_fields_def)

lemma map_of_order_data:
  assumes "as_dict (order_data o') = Some d"
  shows "map_of d (PStr (codes k)) = (if k = ''st'' then Some (PInt (status o')) else if k = ''sd'' then Some (PInt (side o'))
    else case map_of (order_fields o') k of None \<Rightarrow> None | Some v \<Rightarrow> if kept_value v then Some v else None)"
  using assms by (auto simp: order_data_def Let_def map_of_codes map_of_kept order_fields_distinct)

lemma kept_value_simps [simp]:
  "kept_value (PInt i) \<longleftrightarrow> i \<noteq> 0" "kept_value (PBytes b) \<longleftrightarrow> b \<noteq> []" "kept_value (PStr s)" "\<not> kept_value PNone"
  by (simp_all add: kept_value_def)

lemma order_data_back:
  assumes "as_dict (order_data o') = Some d"
    and "cancel_txid o' \<noteq> Some []"
  shows "order_of_data d = Inr o'"
proof -
  note m = map_of_order_data [OF assms(1)]
  have i: "get_int d k 0 = Inr i" if "map_of (order_fields o') k = Some (PInt i)" "k \<noteq> ''st''" "k \<noteq> ''sd''" for k i
    using that by (simp add: get_int_def m)
  have b: "get_bytes d k = Inr b" if "map_of (order_fields o') k = Some (PBytes b)" "k \<noteq> ''st''" "k \<noteq> ''sd''" for k b
    using that by (simp add: get_bytes_def m)
  have s: "get_str d k = Inr v" if "map_of (order_fields o') k = Some (opt_val PStr v)" "k \<noteq> ''st''" "k \<noteq> ''sd''" for k v
    using that by (cases v) (simp_all add: get_str_def m opt_val_def)
  have t: "get_txid d ''ct'' = Inr (cancel_txid o')"
    using assms(2) by (cases "cancel_txid o'") (simp_all add: get_txid_def m order_fields_def opt_val_def)
  have "get_int d ''sd'' SELL = Inr (side o')" "get_int d ''st'' ST_OPEN = Inr (status o')" by (simp_all add: get_int_def m)
  moreover have "get_bytes d ''oid'' = Inr (order_id o')" "get_bytes d ''txh'' = Inr (order_tx_hash o')"
      "get_bytes d ''ms'' = Inr (maker_scripthash o')" "get_bytes d ''br'' = Inr (base_ref o')" "get_bytes d ''qr'' = Inr (quote_ref o')"
    by (rule b; simp add: order_fields_def)+
  moreover have "get_str d ''ma'' = Inr (maker_address o')" "get_str d ''bt'' = Inr (base_ticker o')" "get_str d ''qt'' = Inr (quote_ticker o')"
    by (rule s; simp add: order_fields_def)+
  moreover have "get_int d ''v'' 0 = Inr (order_vout o')" "get_int d ''h'' 0 = Inr (listed_height o')" "get_int d ''ts'' 0 = Inr (timestamp o')"
      "get_int d ''pr'' 0 = Inr (price o')" "get_int d ''am'' 0 = Inr (amount o')" "get_int d ''fa'' 0 = Inr (filled_amount o')"
      "get_int d ''ra'' 0 = Inr (remaining_amount o')" "get_int d ''mf'' 0 = Inr (min_fill o')" "get_int d ''fr'' 0 = Inr (fee_rate o')"
      "get_int d ''eh'' 0 = Inr (expiry_height o')" "get_int d ''ch'' 0 = Inr (cancel_height o')" "get_int d ''fc'' 0 = Inr (fill_count o')"
      "get_int d ''lfh'' 0 = Inr (last_fill_height o')" "get_int d ''afp'' 0 = Inr (avg_fill_price o')"
    by (rule i; simp add: order_fields_def)+
  ultimately show ?thesis using t by (simp add: order_of_data_def)
qed

section \<open>Advertisements\<close>

text \<open>\<open>OP_1\<close> to \<open>OP_16\<close> stand for the numbers they push.\<close>

definition swap_chunks :: "bytes \<Rightarrow> bytes list" where
  "swap_chunks script = script_chunks (\<lambda>b. if 81 \<le> unat b \<and> unat b \<le> 96 then [b - 80] else [b]) script"

definition parse_script_int :: "bytes \<Rightarrow> nat option" where
  "parse_script_int data = (if length data \<le> 4 then Some (le_dec data) else None)"

definition read_compact :: "bytes \<Rightarrow> nat \<Rightarrow> (nat \<times> nat) res" where
  "read_compact b pos =
     rbind (index b pos) (\<lambda>first.
       let n = unat first in
       if n < 253 then Inr (n, pos + 1)
       else if n = 253 then rbind (unpack_le_uint16_from b (pos + 1)) (\<lambda>v. Inr (v, pos + 3))
       else if n = 254 then rbind (unpack_le_uint32_from b (pos + 1)) (\<lambda>v. Inr (v, pos + 5))
       else rbind (unpack_le_uint64_from b (pos + 1)) (\<lambda>v. Inr (v, pos + 9)))"

fun multi_outputs :: "bytes \<Rightarrow> nat \<Rightarrow> nat \<Rightarrow> (nat \<times> bytes) list \<Rightarrow> ((nat \<times> bytes) list \<times> nat) res" where
  "multi_outputs blob 0 pos acc = Inr (acc, pos)"
| "multi_outputs blob (Suc n) pos acc =
     (if length blob < pos + 8 then Inl ValueError
      else
        rbind (unpack_le_uint64_from blob pos) (\<lambda>value.
        rbind (read_compact blob (pos + 8)) (\<lambda>(slen, pos).
          if length blob < pos + slen then Inl ValueError
          else multi_outputs blob n (pos + slen) (acc @ [(value, slice pos (pos + slen) blob)]))))"

definition strict_multi_txout :: "bytes \<Rightarrow> (nat \<times> bytes) list res" where
  "strict_multi_txout blob =
     rbind (read_compact blob 0) (\<lambda>(count, pos).
       if count = 0 \<or> 1000 < count then Inl ValueError
       else rbind (multi_outputs blob count pos []) (\<lambda>(outputs, pos).
         if pos \<noteq> length blob \<or> outputs = [] then Inl ValueError else Inr outputs))"

definition parse_multi_txout :: "bytes \<Rightarrow> (nat \<times> bytes) list option" where
  "parse_multi_txout blob =
     (if blob = [] then None
      else case strict_multi_txout blob of Inr outputs \<Rightarrow> Some outputs
      | Inl _ \<Rightarrow> if 9 \<le> length blob then Some [(le_dec (take 8 blob), drop 8 blob)] else None)"

text \<open>The script hash of an output script is that of its base script; only the two standard forms have
  one here. \<open>sha\<close> is SHA-256.\<close>

definition maker_from_script :: "(bytes \<Rightarrow> bytes) \<Rightarrow> coin option \<Rightarrow> bytes \<Rightarrow> bytes \<times> pystr option" where
  "maker_from_script sha coin script =
     (let base = base_locking_script script;
          address = (\<lambda>verbyte hash. map_option (\<lambda>c. codes (encode_check (double_hash sha) (verbyte c @ hash))) coin) in
      if length base = 25 \<and> unat (base ! 0) = OP_DUP \<and> unat (base ! 1) = OP_HASH160 \<and> base ! 2 = 20
         \<and> unat (base ! 23) = OP_EQUALVERIFY \<and> unat (base ! 24) = OP_CHECKSIG
      then (rev (sha base), address P2PKH_VERBYTE (slice 3 23 base))
      else if length base = 23 \<and> unat (base ! 0) = OP_HASH160 \<and> base ! 1 = 20 \<and> unat (base ! 22) = OP_EQUAL
      then (rev (sha base), address (\<lambda>c. hd (P2SH_VERBYTES c)) (slice 2 22 base))
      else ([], None))"

fun first_maker :: "(bytes \<Rightarrow> bytes) \<Rightarrow> coin option \<Rightarrow> (nat \<times> bytes) list \<Rightarrow> order \<Rightarrow> order" where
  "first_maker sha coin [] o' = o'"
| "first_maker sha coin ((_, script) # outs) o' =
     (case maker_from_script sha coin script of (sh, addr) \<Rightarrow>
        if sh \<noteq> [] then o'\<lparr>maker_scripthash := sh, maker_address := addr\<rparr> else first_maker sha coin outs o')"

definition apply_price_terms :: "(bytes \<Rightarrow> bytes) \<Rightarrow> coin option \<Rightarrow> bytes \<Rightarrow> order \<Rightarrow> order" where
  "apply_price_terms sha coin blob o' =
     (case parse_multi_txout blob of None \<Rightarrow> o' | Some [] \<Rightarrow> o'
      | Some outs \<Rightarrow>
        let total = int (sum_list (map fst outs)) in
        first_maker sha coin outs (o'\<lparr>amount := total, remaining_amount := total, price := total\<rparr>))"

definition FLAG_HAS_WANT :: byte where "FLAG_HAS_WANT = 1"
definition FLAG_HAS_EXPIRY :: byte where "FLAG_HAS_EXPIRY = 2"

text \<open>\<open>token + struct.pack('<I', 0)\<close>.\<close>

definition token_ref :: "bytes \<Rightarrow> bytes" where
  "token_ref token = token @ zero_bytes 4"

text \<open>An optional chunk: present when the flag is set, and then of the given length. The result is the
  chunk and the index behind it.\<close>

definition optional_chunk :: "bytes list \<Rightarrow> bool \<Rightarrow> nat \<Rightarrow> nat \<Rightarrow> (bytes option \<times> nat) option" where
  "optional_chunk cs present len idx =
     (if \<not> present then Some (None, idx)
      else if length cs \<le> idx \<or> length (cs ! idx) \<noteq> len then None
      else Some (Some (cs ! idx), idx + 1))"

text \<open>The order an advertisement of version 2 or 3 makes of its outpoint, its token and the token wanted.\<close>

definition order_v2 :: "order \<Rightarrow> byte \<Rightarrow> bytes \<Rightarrow> nat \<Rightarrow> bytes \<Rightarrow> bytes option \<Rightarrow> bytes option \<Rightarrow> order" where
  "order_v2 o' offered_type utxo_hash utxo_index token want expiry =
     (let offered_ref = token_ref token;
          want_ref = token_ref (case want of Some (w # ws) \<Rightarrow> w # ws | _ \<Rightarrow> zero_bytes 32);
          sd = (if offered_type = 0 then BUY else SELL) in
      o'\<lparr>order_id := utxo_hash @ le_enc 4 utxo_index,
         expiry_height := (case expiry of None \<Rightarrow> 0 | Some e \<Rightarrow> int (le_dec e)),
         side := sd,
         base_ref := (if sd = BUY then want_ref else offered_ref),
         quote_ref := (if sd = BUY then offered_ref else want_ref),
         status := ST_OPEN\<rparr>)"

definition parse_rswp_v2 :: "(bytes \<Rightarrow> bytes) \<Rightarrow> coin option \<Rightarrow> bytes list \<Rightarrow> order \<Rightarrow> nat \<Rightarrow> order option" where
  "parse_rswp_v2 sha coin cs o' version =
     (if length cs < 10 \<or> length (cs ! 3) \<noteq> 1 then None
      else let flags = cs ! 3 ! 0; has_want = flags AND FLAG_HAS_WANT \<noteq> 0; has_expiry = flags AND FLAG_HAS_EXPIRY \<noteq> 0 in
        if has_expiry \<and> version \<noteq> 3 then None
        else if length (cs ! 4) \<noteq> 1 \<or> length (cs ! 5) \<noteq> 1 \<or> length (cs ! 6) \<noteq> 32 then None
        else case optional_chunk cs has_want 32 7 of None \<Rightarrow> None
        | Some (want, idx) \<Rightarrow>
          case optional_chunk cs has_expiry 4 idx of None \<Rightarrow> None
          | Some (expiry, idx) \<Rightarrow>
            if length cs \<le> idx \<or> length (cs ! idx) \<noteq> 32 then None
            else if length cs \<le> idx + 1 then None
            else case parse_script_int (cs ! (idx + 1)) of None \<Rightarrow> None
            | Some utxo_index \<Rightarrow>
              let remaining = drop (idx + 2) cs in
              if length remaining < 2 then None
              else Some (apply_price_terms sha coin (remaining ! 0)
                (order_v2 o' (cs ! 4 ! 0) (cs ! idx) utxo_index (cs ! 6) want expiry)))"

definition parse_rswp_v1 :: "bytes list \<Rightarrow> order \<Rightarrow> order option" where
  "parse_rswp_v1 cs o' =
     (if length cs < 9 \<or> length (cs ! 3) \<noteq> 1 \<or> length (cs ! 4) \<noteq> 32 \<or> length (cs ! 5) \<noteq> 32 then None
      else case parse_script_int (cs ! 6) of None \<Rightarrow> None
      | Some utxo_index \<Rightarrow>
        Some (o'\<lparr>order_id := cs ! 5 @ le_enc 4 utxo_index, base_ref := token_ref (cs ! 4), side := SELL, status := ST_OPEN\<rparr>))"

definition RSWP :: bytes where "RSWP = [82, 83, 87, 80]"

definition parse_rswp :: "(bytes \<Rightarrow> bytes) \<Rightarrow> coin option \<Rightarrow> bytes \<Rightarrow> bytes \<Rightarrow> int \<Rightarrow> int \<Rightarrow> int \<Rightarrow> order option" where
  "parse_rswp sha coin script tx_hash vout ht ts =
     (let cs = swap_chunks script in
      if length cs < 4 \<or> cs ! 1 \<noteq> RSWP \<or> length (cs ! 2) \<noteq> 1 then None
      else
        let version = unat (cs ! 2 ! 0);
            o' = new_order\<lparr>order_tx_hash := tx_hash, order_vout := vout, listed_height := ht, timestamp := ts\<rparr> in
        if version = 2 \<or> version = 3 then parse_rswp_v2 sha coin cs o' version
        else if version = 1 then parse_rswp_v1 cs o'
        else None)"

section \<open>Which orders are admitted\<close>

definition order_amounts_in_range :: "order \<Rightarrow> bool" where
  "order_amounts_in_range o' \<longleftrightarrow>
     list_all (\<lambda>v. 0 \<le> v \<and> v \<le> MAX_UINT64) [price o', amount o', remaining_amount o', filled_amount o', min_fill o']
     \<and> 0 \<le> side o' \<and> side o' \<le> 255"

definition advertised_token_hash :: "order \<Rightarrow> bytes option" where
  "advertised_token_hash o' =
     (let offered = (if side o' = BUY then quote_ref o' else base_ref o') in
      if length offered < 32 then None
      else let token = rev (take 32 offered) in if token = zero_bytes 32 then None else Some token)"

function backing_utxo_carries_token :: "(bytes \<Rightarrow> bytes) \<Rightarrow> bytes \<Rightarrow> bytes \<Rightarrow> bool" where
  "backing_utxo_carries_token sha ri_record token =
     (if length ri_record < REF_ENTRY_LEN then False
      else sha (take REF_LEN ri_record) = token \<or> backing_utxo_carries_token sha (drop REF_ENTRY_LEN ri_record) token)"
  by pat_completeness auto
termination
  by (relation "measure (\<lambda>(sha, r, t). length r)") (auto simp: REF_ENTRY_LEN_def)

declare backing_utxo_carries_token.simps [simp del]

text \<open>The references of an output are under \<open>b'ri'\<close> and the outpoint.\<close>

definition backing_utxo_offers_token :: "(bytes \<Rightarrow> bytes) \<Rightarrow> kv \<Rightarrow> order \<Rightarrow> bool" where
  "backing_utxo_offers_token sha kv o' =
     (case advertised_token_hash o' of None \<Rightarrow> True
      | Some token \<Rightarrow>
        (case kv_get kv ([114, 105] @ order_id o') of
           Some (b # bs) \<Rightarrow> backing_utxo_carries_token sha (b # bs) token
         | _ \<Rightarrow> True))"

section \<open>The index\<close>

definition ORDER :: bytes where "ORDER = [83, 79]"
definition OPEN_BY_PAIR :: bytes where "OPEN_BY_PAIR = [83, 80]"
definition OPEN_BY_MAKER :: bytes where "OPEN_BY_MAKER = [83, 77]"
definition SWAP_HISTORY :: bytes where "SWAP_HISTORY = [83, 72]"
definition SWAP_UNDO :: bytes where "SWAP_UNDO = [83, 87, 85]"

record swaps =
  sw_enabled :: bool
  order_cache :: "(bytes, order) dict"
  order_height :: "(bytes, int) dict"
  swap_history :: "(int \<times> bytes \<times> bytes) list"
  swap_log :: undo_log
  swap_pruned :: int

definition new_swap_index :: "bool \<Rightarrow> db \<Rightarrow> swaps" where
  "new_swap_index enabled d =
     \<lparr>sw_enabled = enabled, order_cache = [], order_height = [], swap_history = [], swap_log = no_undo,
      swap_pruned = (if reorg_limit d \<noteq> 0 then max 0 (db_height d - reorg_limit d + 1) else 0) - 1\<rparr>"

definition get_order :: "cbor2 option \<Rightarrow> kv \<Rightarrow> (bytes, order) dict \<Rightarrow> bytes \<Rightarrow> order option res" where
  "get_order cbor kv cache oid =
     (case map_of cache oid of Some o' \<Rightarrow> Inr (Some o')
      | None \<Rightarrow>
        (case kv_get kv (ORDER @ oid) of
           Some (b # bs) \<Rightarrow> rbind (order_from_bytes cbor (b # bs)) (\<lambda>o'. Inr (Some o'))
         | _ \<Rightarrow> Inr None))"

definition terminal :: "order \<Rightarrow> bool" where
  "terminal o' \<longleftrightarrow> status o' \<in> {ST_FILLED, ST_CANCELLED, ST_EXPIRED}"

definition close_order_if_open ::
    "cbor2 option \<Rightarrow> kv \<Rightarrow> bytes \<Rightarrow> bytes \<Rightarrow> int \<Rightarrow> swaps \<Rightarrow> swaps res" where
  "close_order_if_open cbor kv oid tx_hash ht s =
     rbind (get_order cbor kv (order_cache s) oid) (\<lambda>found.
       case found of None \<Rightarrow> Inr s
       | Some o' \<Rightarrow>
         if terminal o' then Inr s
         else
           let closed = o'\<lparr>status := ST_FILLED, cancel_height := ht, cancel_txid := Some tx_hash\<rparr> in
           Inr (s\<lparr>order_cache := dict_set oid closed (order_cache s), order_height := dict_set oid ht (order_height s)\<rparr>))"

text \<open>The loop over the outputs.\<close>

definition admit_output ::
    "(bytes \<Rightarrow> bytes) \<Rightarrow> coin option \<Rightarrow> kv \<Rightarrow> bytes \<Rightarrow> int \<Rightarrow> int \<Rightarrow> int \<times> TxOutput \<Rightarrow> swaps \<Rightarrow> swaps" where
  "admit_output sha coin kv tx_hash ht ts out s =
     (case out of (vout, txout) \<Rightarrow>
      if pk_script txout = [] \<or> unat (hd (pk_script txout)) \<noteq> 106 then s
      else case parse_rswp sha coin (pk_script txout) tx_hash vout ht ts of None \<Rightarrow> s
      | Some o' \<Rightarrow>
        if \<not> order_amounts_in_range o' then s
        else if \<not> backing_utxo_offers_token sha kv o' then s
        else s\<lparr>order_cache := dict_set (order_id o') o' (order_cache s),
               order_height := dict_set (order_id o') ht (order_height s)\<rparr>)"

text \<open>\<open>ord\<close> is the order in which the set of spent outpoints is iterated; a transaction that fails half
  way keeps what it has done.\<close>

fun close_spent :: "cbor2 option \<Rightarrow> kv \<Rightarrow> bytes \<Rightarrow> int \<Rightarrow> bytes list \<Rightarrow> swaps \<Rightarrow> swaps \<times> unit res" where
  "close_spent cbor kv tx_hash ht [] s = (s, Inr ())"
| "close_spent cbor kv tx_hash ht (oid # oids) s =
     (case close_order_if_open cbor kv oid tx_hash ht s of
        Inl e \<Rightarrow> (s, Inl e) | Inr s \<Rightarrow> close_spent cbor kv tx_hash ht oids s)"

definition swap_process_tx ::
    "(bytes \<Rightarrow> bytes) \<Rightarrow> coin option \<Rightarrow> cbor2 option \<Rightarrow> (bytes set \<Rightarrow> bytes list) \<Rightarrow> int \<Rightarrow> (swaps, 'e) overlay" where
  "swap_process_tx sha coin cbor ord ts d ctx envelope s =
     (if \<not> sw_enabled s then (s, Inr ())
      else case close_spent cbor (utxo_db d) (ctx_tx_hash ctx) (ctx_height ctx) (ord (ctx_spent_outpoints ctx)) s of
        (s, Inl e) \<Rightarrow> (s, Inl e)
      | (s, Inr _) \<Rightarrow>
        (fold (admit_output sha coin (utxo_db d) (ctx_tx_hash ctx) (ctx_height ctx) ts)
           (zip (map int [0..<length (tx_outputs (ctx_tx ctx))]) (tx_outputs (ctx_tx ctx))) s, Inr ()))"

definition pack_be_uint64 :: "int \<Rightarrow> bytes res" where
  "pack_be_uint64 n = rbind (pack_uint 8 n) (\<lambda>b. Inr (rev b))"

definition pair_key :: "order \<Rightarrow> bytes option res" where
  "pair_key o' =
     (if base_ref o' = [] \<or> quote_ref o' = [] then Inr None
      else
        rbind (pack_be_uint64 (if side o' = BUY then MAX_UINT64 - price o' else price o')) (\<lambda>price_bytes.
        if side o' < 0 \<or> 255 < side o' then Inl ValueError
        else Inr (Some (OPEN_BY_PAIR @ base_ref o' @ quote_ref o' @ [of_int (side o')] @ price_bytes @ order_id o'))))"

definition maker_key :: "order \<Rightarrow> bytes option" where
  "maker_key o' =
     (if maker_scripthash o' = [] then None else Some (OPEN_BY_MAKER @ maker_scripthash o' @ order_id o'))"

text \<open>What the flush writes for one order, in order; an order that cannot be serialised, or one without
  a height, is left out.\<close>

definition order_ops :: "cbor2 option \<Rightarrow> bytes \<times> order \<Rightarrow> batch_op list" where
  "order_ops cbor entry =
     (case entry of (oid, o') \<Rightarrow>
      case (order_to_bytes cbor o', pair_key o') of
        (Inr order_bytes, Inr pk) \<Rightarrow>
          let keys = (case pk of None \<Rightarrow> [] | Some k \<Rightarrow> [k]) @ (case maker_key o' of None \<Rightarrow> [] | Some k \<Rightarrow> [k]) in
          Put (ORDER @ oid) order_bytes # map (\<lambda>k. if terminal o' then Delete k else Put k []) keys
      | _ \<Rightarrow> [])"

text \<open>Every operation is put after the key has been recorded under the height.\<close>

definition put_logged :: "kv \<Rightarrow> int \<Rightarrow> batch_op \<Rightarrow> batch_op list \<times> undo_log \<Rightarrow> batch_op list \<times> undo_log" where
  "put_logged kv ht op acc = (case acc of (ops, log) \<Rightarrow> (ops @ [op], record_undo kv ht (op_key op) log))"

definition flush_order ::
    "cbor2 option \<Rightarrow> kv \<Rightarrow> (bytes, int) dict \<Rightarrow> bytes \<times> order \<Rightarrow> batch_op list \<times> undo_log \<Rightarrow> batch_op list \<times> undo_log" where
  "flush_order cbor kv heights entry acc =
     (case map_of heights (fst entry) of None \<Rightarrow> acc
      | Some ht \<Rightarrow> fold (put_logged kv ht) (order_ops cbor entry) acc)"

definition swap_flush :: "cbor2 option \<Rightarrow> db \<Rightarrow> swaps \<Rightarrow> (batch_op list \<times> swaps) res" where
  "swap_flush cbor d s =
     (if \<not> sw_enabled s then Inr ([], s)
      else
        rbind (prune_undo SWAP_UNDO d (swap_pruned s)) (\<lambda>(old, pruned).
        let acc = fold (flush_order cbor (utxo_db d) (order_height s)) (order_cache s) (old, swap_log s);
            (ops, log) = fold (\<lambda>(ht, key, val). put_logged (utxo_db d) ht (Put key val)) (swap_history s) acc in
        rbind (undo_puts SWAP_UNDO log) (\<lambda>undos.
          Inr (ops @ undos, s\<lparr>order_cache := [], order_height := [], swap_history := [], swap_log := no_undo,
            swap_pruned := pruned\<rparr>))))"

definition swap_backup :: "db \<Rightarrow> int \<Rightarrow> swaps \<Rightarrow> (batch_op list \<times> swaps) res" where
  "swap_backup d ht s =
     (if \<not> sw_enabled s then Inr ([], s)
      else rbind (revert_undo SWAP_UNDO (utxo_db d) ht) (\<lambda>ops. Inr (ops, s)))"

text \<open>\<open>stats_cache\<close> is never filled.\<close>

definition swap_memory_estimate :: "swaps \<Rightarrow> int" where
  "swap_memory_estimate s =
     (if \<not> sw_enabled s then 0
      else int (length (order_cache s)) * 350 + int (length (order_height s)) * 140 + int (length (swap_history s)) * 250
         + int (sum_list (map (length \<circ> snd) (undo_cache (swap_log s)))) * 120)"

section \<open>Queries\<close>

definition is_expired :: "db \<Rightarrow> order \<Rightarrow> bool" where
  "is_expired d o' \<longleftrightarrow> expiry_height o' \<noteq> 0 \<and> expiry_height o' \<le> db_height d"

definition on_offer :: "db \<Rightarrow> order \<Rightarrow> bool" where
  "on_offer d o' \<longleftrightarrow> status o' \<in> {ST_OPEN, ST_PARTIAL} \<and> \<not> is_expired d o'"

text \<open>One side of a book: the rows in key order, until the list is full.\<close>

fun book_loop :: "cbor2 option \<Rightarrow> db \<Rightarrow> (bytes, order) dict \<Rightarrow> int \<Rightarrow> order list \<Rightarrow> kv \<Rightarrow> order list res" where
  "book_loop cbor d cache limit found [] = Inr found"
| "book_loop cbor d cache limit found ((key, _) # rows) =
     (if limit \<le> int (length found) then Inr found
      else rbind (get_order cbor (utxo_db d) cache (takelast 36 key)) (\<lambda>o'.
        book_loop cbor d cache limit
          (case o' of Some o' \<Rightarrow> if on_offer d o' then found @ [o'] else found | None \<Rightarrow> found) rows))"

definition book_side :: "cbor2 option \<Rightarrow> db \<Rightarrow> swaps \<Rightarrow> bytes \<Rightarrow> bytes \<Rightarrow> int \<Rightarrow> int option \<Rightarrow> int \<Rightarrow> order list res" where
  "book_side cbor d s bref qref this_side wanted limit =
     (if wanted = None \<or> wanted = Some this_side
      then book_loop cbor d (order_cache s) limit []
             (kv_iter (utxo_db d) (OPEN_BY_PAIR @ bref @ qref @ [of_int this_side]) False)
      else Inr [])"

text \<open>The bids and the asks, as orders; the fields shown of an order are \<open>order_status_name\<close> and the
  stored ones.\<close>

definition get_orderbook ::
    "cbor2 option \<Rightarrow> db \<Rightarrow> swaps \<Rightarrow> bytes \<Rightarrow> bytes \<Rightarrow> int option \<Rightarrow> int \<Rightarrow> (order list \<times> order list) res" where
  "get_orderbook cbor d s bref qref wanted limit =
     rbind (book_side cbor d s bref qref SELL wanted limit) (\<lambda>asks.
     rbind (book_side cbor d s bref qref BUY wanted limit) (\<lambda>bids. Inr (bids, asks)))"

fun open_orders_loop :: "cbor2 option \<Rightarrow> db \<Rightarrow> (bytes, order) dict \<Rightarrow> int \<Rightarrow> int \<Rightarrow> int \<Rightarrow> order list \<Rightarrow> kv \<Rightarrow> order list res" where
  "open_orders_loop cbor d cache limit offset count found [] = Inr found"
| "open_orders_loop cbor d cache limit offset count found ((key, _) # rows) =
     (if count < offset then open_orders_loop cbor d cache limit offset (count + 1) found rows
      else if limit \<le> int (length found) then Inr found
      else rbind (get_order cbor (utxo_db d) cache (takelast 36 key)) (\<lambda>o'.
        open_orders_loop cbor d cache limit offset (count + 1)
          (case o' of Some o' \<Rightarrow> if on_offer d o' then found @ [o'] else found | None \<Rightarrow> found) rows))"

text \<open>Without a cursor.\<close>

definition get_open_orders :: "cbor2 option \<Rightarrow> db \<Rightarrow> swaps \<Rightarrow> bytes option \<Rightarrow> int \<Rightarrow> int \<Rightarrow> order list res" where
  "get_open_orders cbor d s bref limit offset =
     open_orders_loop cbor d (order_cache s) limit offset 0 []
       (kv_iter (utxo_db d) (OPEN_BY_PAIR @ (case bref of None \<Rightarrow> [] | Some b \<Rightarrow> b)) False)"

fun user_orders_loop :: "cbor2 option \<Rightarrow> kv \<Rightarrow> (bytes, order) dict \<Rightarrow> nat \<Rightarrow> int option \<Rightarrow> int \<Rightarrow> order list \<Rightarrow> kv \<Rightarrow> order list res" where
  "user_orders_loop cbor kv cache plen status_wanted limit found [] = Inr found"
| "user_orders_loop cbor kv cache plen status_wanted limit found ((key, _) # rows) =
     (if limit \<le> int (length found) then Inr found
      else rbind (get_order cbor kv cache (drop plen key)) (\<lambda>o'.
        user_orders_loop cbor kv cache plen status_wanted limit
          (case o' of Some o' \<Rightarrow> if status_wanted = None \<or> status_wanted = Some (status o') then found @ [o'] else found
           | None \<Rightarrow> found) rows))"

definition get_user_orders :: "cbor2 option \<Rightarrow> db \<Rightarrow> swaps \<Rightarrow> bytes \<Rightarrow> int option \<Rightarrow> int \<Rightarrow> order list res" where
  "get_user_orders cbor d s scripthash status_wanted limit =
     (let prefix = OPEN_BY_MAKER @ scripthash in
      user_orders_loop cbor (utxo_db d) (order_cache s) (length prefix) status_wanted limit [] (kv_iter (utxo_db d) prefix False))"

definition get_swap_count :: "db \<Rightarrow> bytes \<Rightarrow> nat" where
  "get_swap_count d bref = length (kv_iter (utxo_db d) (SWAP_HISTORY @ bref) False)"

definition status_name :: "int \<Rightarrow> string" where
  "status_name st =
     (if st = ST_OPEN then ''open'' else if st = ST_PARTIAL then ''partial'' else if st = ST_FILLED then ''filled''
      else if st = ST_CANCELLED then ''cancelled'' else if st = ST_EXPIRED then ''expired'' else ''unknown'')"

definition order_status_name :: "db \<Rightarrow> order \<Rightarrow> string" where
  "order_status_name d o' =
     (if status o' \<in> {ST_OPEN, ST_PARTIAL} \<and> is_expired d o' then ''expired'' else status_name (status o'))"

end
