(* ===== verification/SwapFacts.thy ===== *)
theory SwapFacts
  imports Swaps Chain
begin

text \<open>
  Proofs about the book of swap orders (theory \<open>Swaps\<close>): the rows of the book are exactly those of the
  open orders as long as no outpoint is advertised twice, the queries return them by price, and what
  happens when an outpoint is advertised again or when a reorganisation undoes a close.
\<close>

section \<open>Advertised orders\<close>

definition order_ok :: "order \<Rightarrow> bool" where
  "order_ok o' \<longleftrightarrow> length (order_id o') = 36 \<and> length (base_ref o') = 36 \<and> (quote_ref o' = [] \<or> length (quote_ref o') = 36)
     \<and> order_amounts_in_range o' \<and> side o' \<in> {BUY, SELL} \<and> (maker_scripthash o' = [] \<or> length (maker_scripthash o') = 32)
     \<and> cancel_txid o' \<noteq> Some []"

text \<open>The price terms change the amounts and the maker only.\<close>

lemma first_maker_keeps:
  assumes "digest32 sha" and "maker_scripthash o' = [] \<or> length (maker_scripthash o') = 32"
  shows "\<exists>ms ma. first_maker sha coin outs o' = o'\<lparr>maker_scripthash := ms, maker_address := ma\<rparr> \<and> (ms = [] \<or> length ms = 32)"
proof (induction outs)
  case Nil
  then show ?case using assms(2) by (intro exI [of _ "maker_scripthash o'"] exI [of _ "maker_address o'"]) simp
next
  case (Cons out outs)
  obtain v script where out: "out = (v, script)" by (cases out)
  obtain sh addr where m: "maker_from_script sha coin script = (sh, addr)" by (cases "maker_from_script sha coin script")
  have "sh = [] \<or> length sh = 32" using m assms(1) by (auto simp: maker_from_script_def Let_def split: if_splits)
  then show ?case using Cons m by (auto simp: out)
qed

lemma price_terms_keep:
  assumes "digest32 sha" and "maker_scripthash o' = []"
  shows "\<exists>am ms ma. apply_price_terms sha coin blob o'
      = o'\<lparr>amount := am, remaining_amount := am, price := am, maker_scripthash := ms, maker_address := ma\<rparr> \<and> (ms = [] \<or> length ms = 32)
    \<or> apply_price_terms sha coin blob o' = o'"
proof (cases "parse_multi_txout blob")
  case (Some outs)
  show ?thesis
  proof (cases outs)
    case (Cons a outs')
    let ?t = "int (sum_list (map fst outs))"
    from first_maker_keeps [OF assms(1), of "o'\<lparr>amount := ?t, remaining_amount := ?t, price := ?t\<rparr>" coin outs] assms(2)
    obtain ms ma where "first_maker sha coin outs (o'\<lparr>amount := ?t, remaining_amount := ?t, price := ?t\<rparr>)
        = (o'\<lparr>amount := ?t, remaining_amount := ?t, price := ?t\<rparr>)\<lparr>maker_scripthash := ms, maker_address := ma\<rparr> \<and> (ms = [] \<or> length ms = 32)"
      by auto
    with Some Cons show ?thesis
      by (intro exI [of _ ?t] exI [of _ ms] exI [of _ ma]) (simp add: apply_price_terms_def Let_def)
  qed (use Some in \<open>simp add: apply_price_terms_def\<close>)
qed (simp add: apply_price_terms_def)

definition ad_shape :: "order \<Rightarrow> bool" where
  "ad_shape o' \<longleftrightarrow> length (order_id o') = 36 \<and> length (base_ref o') = 36 \<and> (quote_ref o' = [] \<or> length (quote_ref o') = 36)
     \<and> side o' \<in> {BUY, SELL} \<and> (maker_scripthash o' = [] \<or> length (maker_scripthash o') = 32)
     \<and> cancel_txid o' = None \<and> status o' = ST_OPEN"

lemma optional_chunk_length: "optional_chunk cs p len idx = Some (Some c, i) \<Longrightarrow> length c = len"
  by (auto simp: optional_chunk_def split: if_splits)

lemma parse_rswp_v2_shape:
  assumes "parse_rswp_v2 sha coin cs o' version = Some r" and "digest32 sha" and "maker_scripthash o' = []" and "cancel_txid o' = None"
  shows "ad_shape r"
proof -
  from assms(1) obtain want idx expiry idx2 utxo_index where w: "optional_chunk cs (cs ! 3 ! 0 AND FLAG_HAS_WANT \<noteq> 0) 32 7 = Some (want, idx)"
      and t: "length (cs ! 6) = 32" "length (cs ! idx2) = 32"
      and r: "r = apply_price_terms sha coin (drop (idx2 + 2) cs ! 0) (order_v2 o' (cs ! 4 ! 0) (cs ! idx2) utxo_index (cs ! 6) want expiry)"
    unfolding parse_rswp_v2_def Let_def by (auto split: if_splits option.splits)
  let ?o = "order_v2 o' (cs ! 4 ! 0) (cs ! idx2) utxo_index (cs ! 6) want expiry"
  have "length (case want of Some (w # ws) \<Rightarrow> w # ws | _ \<Rightarrow> zero_bytes 32) = 32"
  proof (cases want)
    case (Some c)
    with w have "length c = 32" using optional_chunk_length by blast
    with Some show ?thesis by (cases c) simp_all
  qed simp
  then have "ad_shape ?o" using t assms(3,4) by (simp add: ad_shape_def order_v2_def token_ref_def BUY_def SELL_def)
  moreover have "maker_scripthash ?o = []" using assms(3) by (simp add: order_v2_def Let_def)
  ultimately show ?thesis using price_terms_keep [OF assms(2), of ?o coin "drop (idx2 + 2) cs ! 0"] unfolding r
    by (auto simp: ad_shape_def)
qed

lemma parse_rswp_shape:
  assumes "parse_rswp sha coin script tx_hash vout ht ts = Some r" and "digest32 sha"
  shows "ad_shape r"
proof -
  let ?cs = "swap_chunks script" and ?o = "new_order\<lparr>order_tx_hash := tx_hash, order_vout := vout, listed_height := ht, timestamp := ts\<rparr>"
  have o: "maker_scripthash ?o = []" "cancel_txid ?o = None" by (simp_all add: new_order_def)
  from assms(1) consider version where "parse_rswp_v2 sha coin ?cs ?o version = Some r" | "parse_rswp_v1 ?cs ?o = Some r"
    unfolding parse_rswp_def Let_def by (auto split: if_splits)
  then show ?thesis
  proof cases
    case 1
    then show ?thesis by (rule parse_rswp_v2_shape [OF _ assms(2) o])
  next
    case 2
    then show ?thesis
      by (auto simp: parse_rswp_v1_def ad_shape_def new_order_def token_ref_def split: if_splits option.splits)
  qed
qed

lemma admitted_order_ok: "ad_shape o' \<Longrightarrow> order_amounts_in_range o' \<Longrightarrow> order_ok o'"
  by (auto simp: ad_shape_def order_ok_def)

section \<open>The flush as a plan\<close>

definition swap_plan :: "cbor2 option \<Rightarrow> swaps \<Rightarrow> planned" where
  "swap_plan cbor s =
     concat (map (\<lambda>e. case map_of (order_height s) (fst e) of None \<Rightarrow> [] | Some ht \<Rightarrow> map (Pair (Some ht)) (order_ops cbor e)) (order_cache s))
     @ map (\<lambda>(ht, key, val). (Some ht, Put key val)) (swap_history s)"

lemma put_logged_plan:
  "fold (put_logged kv ht) os (ops, log) = (ops @ os, log_plan kv (map (Pair (Some ht)) os) log)"
  by (induction os arbitrary: ops log) (simp_all add: put_logged_def log_plan_def)

lemma flush_orders_plan:
  "fold (flush_order cbor kv heights) cache (ops, log) =
    (ops @ map snd (concat (map (\<lambda>e. case map_of heights (fst e) of None \<Rightarrow> [] | Some ht \<Rightarrow> map (Pair (Some ht)) (order_ops cbor e)) cache)),
     log_plan kv (concat (map (\<lambda>e. case map_of heights (fst e) of None \<Rightarrow> [] | Some ht \<Rightarrow> map (Pair (Some ht)) (order_ops cbor e)) cache)) log)"
proof (induction cache arbitrary: ops log)
  case Nil
  show ?case by (simp add: log_plan_def)
next
  case (Cons e cache)
  then show ?case
    by (cases "map_of heights (fst e)") (simp_all add: flush_order_def put_logged_plan log_plan_def comp_def)
qed

lemma flush_history_plan:
  "fold (\<lambda>(ht, key, val). put_logged kv ht (Put key val)) hist (ops, log) =
    (ops @ map snd (map (\<lambda>(ht, key, val). (Some ht, Put key val)) hist),
     log_plan kv (map (\<lambda>(ht, key, val). (Some ht, Put key val)) hist) log)"
proof (induction hist arbitrary: ops log)
  case Nil
  show ?case by (simp add: log_plan_def)
next
  case (Cons h hist)
  then show ?case by (cases h) (simp add: put_logged_def log_plan_def)
qed

lemma swap_flush_eq: "sw_enabled s \<Longrightarrow> swap_flush cbor d s =
   rbind (prune_undo SWAP_UNDO d (swap_pruned s)) (\<lambda>(old, pruned).
   rbind (undo_puts SWAP_UNDO (log_plan (utxo_db d) (swap_plan cbor s) (swap_log s))) (\<lambda>undos.
     Inr (old @ map snd (swap_plan cbor s) @ undos, s\<lparr>order_cache := [], order_height := [], swap_history := [],
       swap_log := no_undo, swap_pruned := pruned\<rparr>)))"
  unfolding swap_flush_def Let_def flush_orders_plan flush_history_plan prod.case swap_plan_def log_plan_append
  by (simp add: split_beta)

text \<open>No other table starts like the undo table.\<close>

definition history_keys :: "swaps \<Rightarrow> bool" where
  "history_keys s \<longleftrightarrow> (\<forall>(ht, key, val) \<in> set (swap_history s). \<not> starts_with SWAP_UNDO key)"

definition swap_on :: "swaps \<Rightarrow> bool" where
  "swap_on s \<longleftrightarrow> sw_enabled s \<and> history_keys s"

lemma order_ops_keys:
  "op \<in> set (order_ops cbor (oid, o')) \<Longrightarrow> op_key op = ORDER @ oid \<or> pair_key o' = Inr (Some (op_key op)) \<or> maker_key o' = Some (op_key op)"
  by (auto simp: order_ops_def Let_def split: sum.splits option.splits)

lemma pair_key_shape: "pair_key o' = Inr (Some k) \<Longrightarrow> \<exists>pb. length pb = 8 \<and> base_ref o' \<noteq> [] \<and> quote_ref o' \<noteq> []
    \<and> pack_be_uint64 (if side o' = BUY then MAX_UINT64 - price o' else price o') = Inr pb
    \<and> k = OPEN_BY_PAIR @ base_ref o' @ quote_ref o' @ [of_int (side o')] @ pb @ order_id o'"
  by (auto simp: pair_key_def rbind_eq_Inr pack_be_uint64_def pack_uint_def split: if_splits)

lemma maker_key_shape: "maker_key o' = Some k \<Longrightarrow> maker_scripthash o' \<noteq> [] \<and> k = OPEN_BY_MAKER @ maker_scripthash o' @ order_id o'"
  by (auto simp: maker_key_def split: if_splits)

lemma swap_plan_keys: "swap_on s \<Longrightarrow> (h, op) \<in> set (swap_plan cbor s) \<Longrightarrow> \<not> starts_with SWAP_UNDO (op_key op)"
proof -
  assume on: "swap_on s" and "(h, op) \<in> set (swap_plan cbor s)"
  then consider oid o' where "op \<in> set (order_ops cbor (oid, o'))" | ht key val where "(ht, key, val) \<in> set (swap_history s)" "op = Put key val"
    unfolding swap_plan_def by (auto split: option.splits)
  then show "\<not> starts_with SWAP_UNDO (op_key op)"
  proof cases
    case 1
    from order_ops_keys [OF this] show ?thesis
      by (auto simp: starts_with_def SWAP_UNDO_def ORDER_def OPEN_BY_PAIR_def OPEN_BY_MAKER_def dest!: pair_key_shape maker_key_shape)
  next
    case 2
    then show ?thesis using on by (auto simp: swap_on_def history_keys_def)
  qed
qed

interpretation swap_undo: undo_logged SWAP_UNDO "\<lambda>d. swap_plan cbor" swap_log swap_on "swap_flush cbor" swap_backup for cbor
proof
  fix d s ops s'
  assume "swap_on s" "swap_flush cbor d s = Inr (ops, s')"
  then have "rbind (prune_undo SWAP_UNDO d (swap_pruned s)) (\<lambda>(old, pruned).
   rbind (undo_puts SWAP_UNDO (log_plan (utxo_db d) (swap_plan cbor s) (swap_log s))) (\<lambda>undos.
     Inr (old @ map snd (swap_plan cbor s) @ undos, s\<lparr>order_cache := [], order_height := [], swap_history := [],
       swap_log := no_undo, swap_pruned := pruned\<rparr>))) = Inr (ops, s')" by (simp add: swap_flush_eq swap_on_def)
  then show "\<exists>old n puts. prune_undo SWAP_UNDO d n = Inr old
      \<and> undo_written SWAP_UNDO (log_plan (utxo_db d) (swap_plan cbor s) (swap_log s)) puts
      \<and> ops = fst old @ map snd (swap_plan cbor s) @ puts" by (fastforce simp: rbind_eq_Inr)
next
  fix d ht s ops s'
  assume "swap_on s" "swap_backup d ht s = Inr (ops, s')"
  then show "revert_undo SWAP_UNDO (utxo_db d) ht = Inr ops" by (auto simp: swap_on_def swap_backup_def rbind_eq_Inr)
qed (rule swap_plan_keys)

section \<open>The book and its invariant\<close>

text \<open>The stored order of an outpoint.\<close>

definition stored :: "cbor2 option \<Rightarrow> kv \<Rightarrow> bytes \<Rightarrow> order option" where
  "stored cbor kv oid = (case get_order cbor kv [] oid of Inr found \<Rightarrow> found | Inl _ \<Rightarrow> None)"

text \<open>Every stored order reads back, and the rows by pair and by maker are exactly those of the orders
  that are not closed.\<close>

definition orders_read :: "cbor2 option \<Rightarrow> kv \<Rightarrow> bool" where
  "orders_read cbor kv \<longleftrightarrow>
     (\<forall>oid b. kv_get kv (ORDER @ oid) = Some b \<longrightarrow> b \<noteq> [] \<and> (\<exists>o'. order_from_bytes cbor b = Inr o' \<and> order_id o' = oid \<and> order_ok o'))"

definition book_ok :: "cbor2 option \<Rightarrow> kv \<Rightarrow> bool" where
  "book_ok cbor kv \<longleftrightarrow> orders_read cbor kv
     \<and> (\<forall>k. starts_with OPEN_BY_PAIR k \<longrightarrow>
          (kv_get kv k \<noteq> None \<longleftrightarrow> (\<exists>oid o'. stored cbor kv oid = Some o' \<and> \<not> terminal o' \<and> pair_key o' = Inr (Some k))))
     \<and> (\<forall>k. starts_with OPEN_BY_MAKER k \<longrightarrow>
          (kv_get kv k \<noteq> None \<longleftrightarrow> (\<exists>oid o'. stored cbor kv oid = Some o' \<and> \<not> terminal o' \<and> maker_key o' = Some k)))"

lemma book_reads [simp]: "book_ok cbor kv \<Longrightarrow> orders_read cbor kv"
  by (simp add: book_ok_def)

lemma book_row:
  assumes "orders_read cbor kv" and "kv_get kv (ORDER @ oid) = Some b"
  obtains c cs o' where "b = c # cs" and "order_from_bytes cbor b = Inr o'" and "order_id o' = oid" and "order_ok o'"
proof -
  from assms have "b \<noteq> []" "\<exists>o'. order_from_bytes cbor b = Inr o' \<and> order_id o' = oid \<and> order_ok o'"
    unfolding orders_read_def by blast+
  then show thesis using that by (cases b) auto
qed

lemma get_order_row:
  assumes "orders_read cbor kv"
  shows "get_order cbor kv [] oid = Inr (case kv_get kv (ORDER @ oid) of None \<Rightarrow> None | Some b \<Rightarrow> Some (projr (order_from_bytes cbor b)))"
proof (cases "kv_get kv (ORDER @ oid)")
  case None
  then show ?thesis by (simp add: get_order_def)
next
  case (Some b)
  from book_row [OF assms Some] obtain c cs o' where "b = c # cs" "order_from_bytes cbor b = Inr o'" by metis
  with Some show ?thesis by (simp add: get_order_def)
qed

lemma stored_eq: "orders_read cbor kv \<Longrightarrow> stored cbor kv oid =
    (case kv_get kv (ORDER @ oid) of None \<Rightarrow> None | Some b \<Rightarrow> Some (projr (order_from_bytes cbor b)))"
  by (simp add: stored_def get_order_row)

lemma stored_ok: "orders_read cbor kv \<Longrightarrow> stored cbor kv oid = Some o' \<Longrightarrow> order_id o' = oid \<and> order_ok o'"
  by (auto simp: stored_eq split: option.splits elim!: book_row)

lemma get_order_stored: "orders_read cbor kv \<Longrightarrow> get_order cbor kv cache oid =
    Inr (case map_of cache oid of Some o' \<Rightarrow> Some o' | None \<Rightarrow> stored cbor kv oid)"
  using get_order_row [of cbor kv oid] by (simp add: get_order_def stored_eq split: option.split)

lemma no_row_iff: "orders_read cbor kv \<Longrightarrow> kv_get kv (ORDER @ oid) = None \<longleftrightarrow> stored cbor kv oid = None"
  by (simp add: stored_eq split: option.split)

text \<open>The current order of an outpoint: the cached one, else the stored one.\<close>

definition current :: "cbor2 option \<Rightarrow> kv \<Rightarrow> swaps \<Rightarrow> bytes \<Rightarrow> order option" where
  "current cbor kv s oid = (case map_of (order_cache s) oid of Some o' \<Rightarrow> Some o' | None \<Rightarrow> stored cbor kv oid)"

text \<open>The caches over a database: a cached order is well-formed, has a height, and (if \<open>fr\<close>) keeps the
  keys of the stored order of its outpoint, if there is one.\<close>

definition cached_ok :: "bool \<Rightarrow> cbor2 option \<Rightarrow> kv \<Rightarrow> bytes \<times> order \<Rightarrow> bool" where
  "cached_ok fr cbor kv e \<longleftrightarrow> (case e of (oid, o') \<Rightarrow> order_id o' = oid \<and> order_ok o'
     \<and> (\<not> fr \<or> (case stored cbor kv oid of None \<Rightarrow> True | Some old \<Rightarrow> pair_key o' = pair_key old \<and> maker_key o' = maker_key old)))"

definition swaps_ok :: "bool \<Rightarrow> cbor2 option \<Rightarrow> kv \<Rightarrow> swaps \<Rightarrow> bool" where
  "swaps_ok fr cbor kv s \<longleftrightarrow> sw_enabled s \<and> dict_ok (order_cache s) \<and> dom (map_of (order_height s)) = dom (map_of (order_cache s))
     \<and> (\<forall>oid ht. map_of (order_height s) oid = Some ht \<longrightarrow> 0 \<le> ht \<and> ht < 2 ^ 32)
     \<and> swap_history s = [] \<and> swap_log s = no_undo \<and> -1 \<le> swap_pruned s
     \<and> (\<forall>e \<in> set (order_cache s). cached_ok fr cbor kv e)"

lemma new_swap_index_ok [simp]: "swaps_ok fr cbor kv (new_swap_index True d)"
  by (auto simp: swaps_ok_def new_swap_index_def max_def)

lemma swaps_ok_set:
  assumes "swaps_ok fr cbor kv s" and "cached_ok fr cbor kv (oid, o')" and "0 \<le> ht" and "ht < 2 ^ 32"
  shows "swaps_ok fr cbor kv (s\<lparr>order_cache := dict_set oid o' (order_cache s), order_height := dict_set oid ht (order_height s)\<rparr>)"
  using assms unfolding swaps_ok_def by (auto dest!: dict_set_mem)

definition closed :: "order \<Rightarrow> bytes \<Rightarrow> int \<Rightarrow> order" where
  "closed o' tx_hash ht = o'\<lparr>status := ST_FILLED, cancel_height := ht, cancel_txid := Some tx_hash\<rparr>"

lemma closed_fields: "order_id (closed o' h ht) = order_id o'" "base_ref (closed o' h ht) = base_ref o'"
  "quote_ref (closed o' h ht) = quote_ref o'" "side (closed o' h ht) = side o'" "price (closed o' h ht) = price o'"
  "maker_scripthash (closed o' h ht) = maker_scripthash o'" "amount (closed o' h ht) = amount o'"
  "remaining_amount (closed o' h ht) = remaining_amount o'" "filled_amount (closed o' h ht) = filled_amount o'"
  "min_fill (closed o' h ht) = min_fill o'" "status (closed o' h ht) = ST_FILLED" "cancel_txid (closed o' h ht) = Some h"
  by (simp_all add: closed_def)

lemma closed_simps [simp]: "order_id (closed o' h ht) = order_id o'" "pair_key (closed o' h ht) = pair_key o'"
  "maker_key (closed o' h ht) = maker_key o'" "terminal (closed o' h ht)"
  "h \<noteq> [] \<Longrightarrow> order_ok o' \<Longrightarrow> order_ok (closed o' h ht)"
  by (simp_all only: pair_key_def maker_key_def closed_fields)
    (simp_all add: closed_fields terminal_def order_ok_def order_amounts_in_range_def)

text \<open>Closing an outpoint: an open order becomes filled, everything else stays.\<close>

lemma close_step:
  assumes "orders_read cbor kv"
  shows "close_order_if_open cbor kv oid tx_hash ht s = Inr (case current cbor kv s oid of None \<Rightarrow> s
    | Some o' \<Rightarrow> if terminal o' then s
        else s\<lparr>order_cache := dict_set oid (closed o' tx_hash ht) (order_cache s), order_height := dict_set oid ht (order_height s)\<rparr>)"
  by (auto simp: close_order_if_open_def get_order_stored [OF assms] current_def closed_def Let_def split: option.split)

lemma current_ok:
  assumes "orders_read cbor kv" and "swaps_ok fr cbor kv s" and "current cbor kv s oid = Some o'"
  shows "cached_ok fr cbor kv (oid, o')"
proof (cases "map_of (order_cache s) oid")
  case None
  with assms have "stored cbor kv oid = Some o'" by (simp add: current_def)
  with stored_ok [OF assms(1)] show ?thesis by (simp add: cached_ok_def)
next
  case (Some o2)
  with assms have "(oid, o') \<in> set (order_cache s)" by (simp add: current_def map_of_SomeD)
  with assms(2) show ?thesis by (simp add: swaps_ok_def)
qed

lemma close_spent_ok:
  assumes "orders_read cbor kv" and "swaps_ok fr cbor kv s" and "tx_hash \<noteq> []" and "0 \<le> ht" and "ht < 2 ^ 32"
  shows "\<exists>s'. close_spent cbor kv tx_hash ht oids s = (s', Inr ()) \<and> swaps_ok fr cbor kv s'
    \<and> (\<forall>oid. current cbor kv s' oid = (case current cbor kv s oid of None \<Rightarrow> None
         | Some o' \<Rightarrow> Some (if oid \<in> set oids \<and> \<not> terminal o' then closed o' tx_hash ht else o')))"
  using assms(2)
proof (induction oids arbitrary: s)
  case Nil
  then show ?case by (auto split: option.split)
next
  case (Cons oid oids)
  show ?case
  proof (cases "\<exists>o'. current cbor kv s oid = Some o' \<and> \<not> terminal o'")
    case False
    then have "close_order_if_open cbor kv oid tx_hash ht s = Inr s"
      by (auto simp: close_step [OF assms(1)] split: option.split)
    moreover from Cons.IH [OF Cons.prems] obtain s' where s': "close_spent cbor kv tx_hash ht oids s = (s', Inr ())" "swaps_ok fr cbor kv s'"
        "\<And>x. current cbor kv s' x = (case current cbor kv s x of None \<Rightarrow> None
           | Some o' \<Rightarrow> Some (if x \<in> set oids \<and> \<not> terminal o' then closed o' tx_hash ht else o'))" by blast
    ultimately show ?thesis using False by (intro exI [of _ s']) (auto split: option.split)
  next
    case True
    then obtain o' where o: "current cbor kv s oid = Some o'" "\<not> terminal o'" by blast
    let ?s = "s\<lparr>order_cache := dict_set oid (closed o' tx_hash ht) (order_cache s), order_height := dict_set oid ht (order_height s)\<rparr>"
    have step: "close_order_if_open cbor kv oid tx_hash ht s = Inr ?s" using o by (simp add: close_step [OF assms(1)])
    have "cached_ok fr cbor kv (oid, closed o' tx_hash ht)"
      using current_ok [OF assms(1) Cons.prems o(1)] assms(3) by (auto simp: cached_ok_def split: option.splits)
    from swaps_ok_set [OF Cons.prems this assms(4,5)] have "swaps_ok fr cbor kv ?s" .
    from Cons.IH [OF this] obtain s' where s': "close_spent cbor kv tx_hash ht oids ?s = (s', Inr ())" "swaps_ok fr cbor kv s'"
        "\<And>x. current cbor kv s' x = (case current cbor kv ?s x of None \<Rightarrow> None
           | Some o' \<Rightarrow> Some (if x \<in> set oids \<and> \<not> terminal o' then closed o' tx_hash ht else o'))" by blast
    have cur: "current cbor kv ?s x = (if x = oid then Some (closed o' tx_hash ht) else current cbor kv s x)" for x
      by (simp add: current_def)
    show ?thesis using step s' o by (intro exI [of _ s']) (auto simp: cur split: option.splits)
  qed
qed

section \<open>Admitting advertisements\<close>

definition ad_of :: "(bytes \<Rightarrow> bytes) \<Rightarrow> coin option \<Rightarrow> bytes \<Rightarrow> int \<Rightarrow> int \<Rightarrow> int \<times> TxOutput \<Rightarrow> order option" where
  "ad_of sha coin tx_hash ht ts out =
     (case out of (vout, txout) \<Rightarrow>
      if pk_script txout = [] \<or> unat (hd (pk_script txout)) \<noteq> 106 then None
      else parse_rswp sha coin (pk_script txout) tx_hash vout ht ts)"

lemma admit_output_eq: "admit_output sha coin kv tx_hash ht ts out s =
   (case ad_of sha coin tx_hash ht ts out of None \<Rightarrow> s
    | Some o' \<Rightarrow> if order_amounts_in_range o' \<and> backing_utxo_offers_token sha kv o'
        then s\<lparr>order_cache := dict_set (order_id o') o' (order_cache s), order_height := dict_set (order_id o') ht (order_height s)\<rparr>
        else s)"
  by (auto simp: admit_output_def ad_of_def split: prod.split option.split)

text \<open>The outpoints advertised by a transaction.\<close>

definition outs_of :: "tx_ctx \<Rightarrow> (int \<times> TxOutput) list" where
  "outs_of ctx = zip (map int [0..<length (tx_outputs (ctx_tx ctx))]) (tx_outputs (ctx_tx ctx))"

definition advertised :: "(bytes \<Rightarrow> bytes) \<Rightarrow> coin option \<Rightarrow> int \<Rightarrow> tx_ctx \<Rightarrow> bytes list" where
  "advertised sha coin ts ctx =
     concat (map (\<lambda>out. case ad_of sha coin (ctx_tx_hash ctx) (ctx_height ctx) ts out of None \<Rightarrow> [] | Some o' \<Rightarrow> [order_id o']) (outs_of ctx))"

lemma admit_outputs_ok:
  assumes "swaps_ok fr cbor kv s" and "digest32 sha" and "0 \<le> ht" and "ht < 2 ^ 32"
    and "\<forall>out \<in> set outs. \<forall>o'. ad_of sha coin tx_hash ht ts out = Some o' \<longrightarrow> fr \<longrightarrow> stored cbor kv (order_id o') = None"
  shows "swaps_ok fr cbor kv (fold (admit_output sha coin kv tx_hash ht ts) outs s)
    \<and> (\<forall>oid. (\<forall>out \<in> set outs. \<forall>o'. ad_of sha coin tx_hash ht ts out = Some o' \<longrightarrow> order_id o' \<noteq> oid) \<longrightarrow>
         current cbor kv (fold (admit_output sha coin kv tx_hash ht ts) outs s) oid = current cbor kv s oid)"
  using assms(1,5)
proof (induction outs arbitrary: s)
  case Nil
  then show ?case by simp
next
  case (Cons out outs)
  let ?s = "admit_output sha coin kv tx_hash ht ts out s"
  have "swaps_ok fr cbor kv ?s \<and> (\<forall>oid. (\<forall>o'. ad_of sha coin tx_hash ht ts out = Some o' \<longrightarrow> order_id o' \<noteq> oid) \<longrightarrow>
      current cbor kv ?s oid = current cbor kv s oid)"
  proof (cases "ad_of sha coin tx_hash ht ts out")
    case None
    then show ?thesis using Cons.prems(1) by (simp add: admit_output_eq)
  next
    case (Some o')
    then have "ad_shape o'" using parse_rswp_shape [OF _ assms(2)] by (auto simp: ad_of_def split: prod.splits if_splits)
    moreover have "fr \<longrightarrow> stored cbor kv (order_id o') = None" using Cons.prems(2) Some by simp
    ultimately have "cached_ok fr cbor kv (order_id o', o')" if "order_amounts_in_range o'"
      using admitted_order_ok that by (simp add: cached_ok_def)
    then show ?thesis using Some Cons.prems(1) swaps_ok_set [OF Cons.prems(1) _ assms(3,4), of "order_id o'" o']
      by (auto simp: admit_output_eq current_def)
  qed
  with Cons.IH [of ?s] Cons.prems(2) show ?case by simp
qed

section \<open>Processing transactions\<close>

definition swap_ctx_ok :: "tx_ctx \<Rightarrow> bool" where
  "swap_ctx_ok ctx \<longleftrightarrow> 0 \<le> ctx_height ctx \<and> ctx_height ctx < 2 ^ 32 \<and> ctx_tx_hash ctx \<noteq> []"

lemma swap_process_tx_ok:
  assumes "orders_read cbor (utxo_db d)" and "swaps_ok fr cbor (utxo_db d) s" and "digest32 sha" and "swap_ctx_ok ctx"
    and "set (ord (ctx_spent_outpoints ctx)) = ctx_spent_outpoints ctx"
    and "fr \<longrightarrow> (\<forall>oid \<in> set (advertised sha coin ts ctx). stored cbor (utxo_db d) oid = None)"
  shows "\<exists>s'. swap_process_tx sha coin cbor ord ts d ctx env s = (s', Inr ()) \<and> swaps_ok fr cbor (utxo_db d) s'
    \<and> (\<forall>oid. oid \<notin> set (advertised sha coin ts ctx) \<longrightarrow>
         current cbor (utxo_db d) s' oid = (case current cbor (utxo_db d) s oid of None \<Rightarrow> None
           | Some o' \<Rightarrow> Some (if oid \<in> ctx_spent_outpoints ctx \<and> \<not> terminal o' then closed o' (ctx_tx_hash ctx) (ctx_height ctx) else o')))"
proof -
  have on: "sw_enabled s" and ctx: "ctx_tx_hash ctx \<noteq> []" "0 \<le> ctx_height ctx" "ctx_height ctx < 2 ^ 32"
    using assms(2,4) by (simp_all add: swaps_ok_def swap_ctx_ok_def)
  obtain s1 where
      s1: "close_spent cbor (utxo_db d) (ctx_tx_hash ctx) (ctx_height ctx) (ord (ctx_spent_outpoints ctx)) s = (s1, Inr ())"
        "swaps_ok fr cbor (utxo_db d) s1"
        "\<And>oid. current cbor (utxo_db d) s1 oid = (case current cbor (utxo_db d) s oid of None \<Rightarrow> None
           | Some o' \<Rightarrow> Some (if oid \<in> ctx_spent_outpoints ctx \<and> \<not> terminal o' then closed o' (ctx_tx_hash ctx) (ctx_height ctx) else o'))"
    using close_spent_ok [OF assms(1,2) ctx, of "ord (ctx_spent_outpoints ctx)"] unfolding assms(5) by blast
  let ?s2 = "fold (admit_output sha coin (utxo_db d) (ctx_tx_hash ctx) (ctx_height ctx) ts) (outs_of ctx) s1"
  have ads: "oid \<in> set (advertised sha coin ts ctx) \<longleftrightarrow>
      (\<exists>out \<in> set (outs_of ctx). \<exists>o'. ad_of sha coin (ctx_tx_hash ctx) (ctx_height ctx) ts out = Some o' \<and> order_id o' = oid)" for oid
  proof -
    have "oid \<in> set (case a of None \<Rightarrow> [] | Some o' \<Rightarrow> [order_id o']) \<longleftrightarrow> (\<exists>o'. a = Some o' \<and> order_id o' = oid)" for a
      by (auto split: option.split)
    then show ?thesis unfolding advertised_def set_concat set_map by blast
  qed
  have "\<forall>out \<in> set (outs_of ctx). \<forall>o'. ad_of sha coin (ctx_tx_hash ctx) (ctx_height ctx) ts out = Some o' \<longrightarrow>
      fr \<longrightarrow> stored cbor (utxo_db d) (order_id o') = None"
    using assms(6) ads by blast
  from admit_outputs_ok [OF s1(2) assms(3) ctx(2,3) this] have s2: "swaps_ok fr cbor (utxo_db d) ?s2"
      "\<And>oid. oid \<notin> set (advertised sha coin ts ctx) \<Longrightarrow> current cbor (utxo_db d) ?s2 oid = current cbor (utxo_db d) s1 oid"
    using ads by blast+
  have "swap_process_tx sha coin cbor ord ts d ctx env s = (?s2, Inr ())"
    using on s1(1) by (simp add: swap_process_tx_def outs_of_def)
  with s2 s1(3) show ?thesis by (intro exI [of _ ?s2]) simp
qed

definition swap_index_txs ::
    "(bytes \<Rightarrow> bytes) \<Rightarrow> coin option \<Rightarrow> cbor2 option \<Rightarrow> (bytes set \<Rightarrow> bytes list) \<Rightarrow> db
      \<Rightarrow> (tx_ctx \<times> 'e option \<times> int) list \<Rightarrow> swaps \<Rightarrow> swaps" where
  "swap_index_txs sha coin cbor ord d txs s = foldl (\<lambda>s (ctx, env, ts). fst (swap_process_tx sha coin cbor ord ts d ctx env s)) s txs"

lemma swap_index_txs_append:
  "swap_index_txs sha coin cbor ord d (xs @ ys) s = swap_index_txs sha coin cbor ord d ys (swap_index_txs sha coin cbor ord d xs s)"
  by (simp add: swap_index_txs_def)

text \<open>The transactions are well-formed, the iteration order covers what they spend, and (if \<open>fr\<close>) they
  advertise no outpoint the database has an order for.\<close>

definition swap_txs_ok ::
    "bool \<Rightarrow> (bytes \<Rightarrow> bytes) \<Rightarrow> coin option \<Rightarrow> cbor2 option \<Rightarrow> (bytes set \<Rightarrow> bytes list) \<Rightarrow> kv \<Rightarrow> (tx_ctx \<times> 'e option \<times> int) list \<Rightarrow> bool" where
  "swap_txs_ok fr sha coin cbor ord kv txs \<longleftrightarrow>
     (\<forall>(ctx, env, ts) \<in> set txs. swap_ctx_ok ctx \<and> set (ord (ctx_spent_outpoints ctx)) = ctx_spent_outpoints ctx
        \<and> (fr \<longrightarrow> (\<forall>oid \<in> set (advertised sha coin ts ctx). stored cbor kv oid = None)))"

lemma swap_index_txs_ok:
  assumes "orders_read cbor (utxo_db d)" and "swaps_ok fr cbor (utxo_db d) s" and "digest32 sha"
    and "swap_txs_ok fr sha coin cbor ord (utxo_db d) txs"
  shows "swaps_ok fr cbor (utxo_db d) (swap_index_txs sha coin cbor ord d txs s)"
    and "\<forall>(ctx, env, ts) \<in> set txs. oid \<notin> set (advertised sha coin ts ctx) \<Longrightarrow>
      (case current cbor (utxo_db d) s oid of None \<Rightarrow> current cbor (utxo_db d) (swap_index_txs sha coin cbor ord d txs s) oid = None
       | Some o' \<Rightarrow> \<exists>o2. current cbor (utxo_db d) (swap_index_txs sha coin cbor ord d txs s) oid = Some o2 \<and> (terminal o' \<longrightarrow> o2 = o')
         \<and> pair_key o2 = pair_key o')"
  using assms(2,4)
proof (induction txs arbitrary: s)
  case Nil
  {
    case 1
    then show ?case by (simp add: swap_index_txs_def)
  next
    case 2
    then show ?case by (simp add: swap_index_txs_def split: option.split)
  }
next
  case (Cons t txs)
  obtain ctx env ts where t: "t = (ctx, env, ts)" by (cases t)
  have step: "swap_index_txs sha coin cbor ord d (t # txs) s
      = swap_index_txs sha coin cbor ord d txs (fst (swap_process_tx sha coin cbor ord ts d ctx env s))" for s
    by (simp add: swap_index_txs_def t)
  {
    case 1
    have ctx: "swap_ctx_ok ctx" "set (ord (ctx_spent_outpoints ctx)) = ctx_spent_outpoints ctx"
        "fr \<longrightarrow> (\<forall>oid \<in> set (advertised sha coin ts ctx). stored cbor (utxo_db d) oid = None)" "swap_txs_ok fr sha coin cbor ord (utxo_db d) txs"
      using 1(2) by (auto simp: swap_txs_ok_def t)
    from swap_process_tx_ok [where ord = ord and coin = coin, OF assms(1) 1(1) assms(3) ctx(1-3), of env] obtain s' where
        "swap_process_tx sha coin cbor ord ts d ctx env s = (s', Inr ())" "swaps_ok fr cbor (utxo_db d) s'" by blast
    with Cons.IH(1) ctx(4) show ?case unfolding step by simp
  next
    case 2
    have ctx: "swap_ctx_ok ctx" "set (ord (ctx_spent_outpoints ctx)) = ctx_spent_outpoints ctx"
        "fr \<longrightarrow> (\<forall>oid \<in> set (advertised sha coin ts ctx). stored cbor (utxo_db d) oid = None)" "swap_txs_ok fr sha coin cbor ord (utxo_db d) txs"
      using 2(3) by (auto simp: swap_txs_ok_def t)
    from swap_process_tx_ok [where ord = ord and coin = coin, OF assms(1) 2(2) assms(3) ctx(1-3), of env] obtain s' where
        s': "swap_process_tx sha coin cbor ord ts d ctx env s = (s', Inr ())" "swaps_ok fr cbor (utxo_db d) s'"
          "\<And>oid. oid \<notin> set (advertised sha coin ts ctx) \<Longrightarrow>
             current cbor (utxo_db d) s' oid = (case current cbor (utxo_db d) s oid of None \<Rightarrow> None
               | Some o' \<Rightarrow> Some (if oid \<in> ctx_spent_outpoints ctx \<and> \<not> terminal o' then closed o' (ctx_tx_hash ctx) (ctx_height ctx) else o'))"
      by blast
    have "oid \<notin> set (advertised sha coin ts ctx)" "\<forall>(ctx, env, ts) \<in> set txs. oid \<notin> set (advertised sha coin ts ctx)"
      using 2(1) by (auto simp: t)
    with Cons.IH(2) [OF _ s'(2) ctx(4)] s'(3) show ?case
      unfolding step by (auto simp: s'(1) split: option.splits if_splits)
  }
qed

section \<open>The database after a flush\<close>

text \<open>The package stores what it is given and reads it back, for the orders concerned.\<close>

definition cbor_faithful :: "cbor2 option \<Rightarrow> order set \<Rightarrow> bool" where
  "cbor_faithful cbor os \<longleftrightarrow> (\<exists>c. cbor = Some c
     \<and> (\<forall>o' \<in> os. \<exists>b. dumps c (order_data o') = Inr b \<and> b \<noteq> [] \<and> loads c b = Inr (order_data o')))"

lemma order_codec:
  assumes "cbor_faithful cbor os" and "o' \<in> os" and "cancel_txid o' \<noteq> Some []"
  shows "\<exists>b. order_to_bytes cbor o' = Inr b \<and> b \<noteq> [] \<and> order_from_bytes cbor b = Inr o'"
proof -
  from assms(1,2) obtain c b where c: "cbor = Some c" "dumps c (order_data o') = Inr b" "b \<noteq> []" "loads c b = Inr (order_data o')"
    by (auto simp: cbor_faithful_def)
  obtain d where d: "as_dict (order_data o') = Some d" by (simp add: order_data_def Let_def)
  from order_data_back [OF d assms(3)] c d show ?thesis by (auto simp: order_to_bytes_def order_from_bytes_def)
qed

lemma takelast_suffix: "length xs = 36 \<Longrightarrow> takelast 36 (ys @ xs) = xs"
  by (simp add: takelast_def)

lemma order_ops_suffix:
  assumes "order_id o' = oid" and "length oid = 36" and "op \<in> set (order_ops cbor (oid, o'))"
  shows "takelast 36 (op_key op) = oid"
proof -
  have suffix: "takelast 36 (xs @ order_id o') = oid" for xs using assms(1,2) by (simp add: takelast_def)
  from order_ops_keys [OF assms(3)] have "\<exists>xs. op_key op = xs @ order_id o'"
  proof (elim disjE)
    assume "pair_key o' = Inr (Some (op_key op))"
    from pair_key_shape [OF this] obtain pb where
        "op_key op = (OPEN_BY_PAIR @ base_ref o' @ quote_ref o' @ [of_int (side o')] @ pb) @ order_id o'" by auto
    then show ?thesis by blast
  next
    assume "maker_key o' = Some (op_key op)"
    from maker_key_shape [OF this] have "op_key op = (OPEN_BY_MAKER @ maker_scripthash o') @ order_id o'" by simp
    then show ?thesis by blast
  qed (use assms(1) in blast)
  then show ?thesis using suffix by auto
qed

lemma fold_op_local: "m k = m' k \<Longrightarrow> fold op_map ops m k = fold op_map ops m' k"
proof (induction ops arbitrary: m m')
  case (Cons op ops)
  have "op_map op m k = op_map op m' k" using Cons.prems by (cases op) auto
  from Cons.IH [of "op_map op m" "op_map op m'", OF this] show ?case by simp
qed simp

text \<open>The value of a key is decided by the order of the outpoint the key ends with.\<close>

lemma fold_orders:
  assumes "dict_ok cache" and "\<forall>(oid, o') \<in> set cache. \<forall>op \<in> set (rows (oid, o')). takelast 36 (op_key op) = oid"
  shows "fold op_map (concat (map rows cache)) m k =
    (case map_of cache (takelast 36 k) of None \<Rightarrow> m k | Some o' \<Rightarrow> fold op_map (rows (takelast 36 k, o')) m k)"
  using assms
proof (induction cache arbitrary: m)
  case Nil
  then show ?case by simp
next
  case (Cons e cache)
  obtain oid o' where e: "e = (oid, o')" by (cases e)
  have d: "dict_ok cache" "map_of cache oid = None" using Cons.prems(1) by (auto simp: dict_ok_def dict_keys_def e map_of_eq_None_iff)
  have IH: "fold op_map (concat (map rows cache)) m k =
      (case map_of cache (takelast 36 k) of None \<Rightarrow> m k | Some o' \<Rightarrow> fold op_map (rows (takelast 36 k, o')) m k)" for m
    using Cons.prems(2) by (intro Cons.IH d(1)) simp
  show ?case
  proof (cases "takelast 36 k = oid")
    case True
    then show ?thesis by (simp add: e IH d(2))
  next
    case False
    then have "fold op_map (rows (oid, o')) m k = m k"
      using Cons.prems(2) by (intro fold_op_unchanged) (auto simp: e)
    then show ?thesis using False fold_op_local [of "fold op_map (rows (oid, o')) m" k m]
      by (auto simp: e IH split: option.split)
  qed
qed

lemma pair_key_total: "order_ok o' \<Longrightarrow> \<exists>pk. pair_key o' = Inr pk"
  by (auto simp: order_ok_def order_amounts_in_range_def pair_key_def pack_be_uint64_def pack_uint_def MAX_UINT64_def BUY_def SELL_def)

lemma order_rows:
  assumes "order_to_bytes cbor o' = Inr b" and "order_ok o'"
  shows "fold op_map (order_ops cbor (oid, o')) m k =
    (if k = ORDER @ oid then Some b
     else if pair_key o' = Inr (Some k) \<or> maker_key o' = Some k then if terminal o' then None else Some []
     else m k)"
proof -
  obtain pk where pk: "pair_key o' = Inr pk" using pair_key_total [OF assms(2)] by blast
  have ne: "pk = Some x \<Longrightarrow> x \<noteq> ORDER @ oid" "maker_key o' = Some x \<Longrightarrow> x \<noteq> ORDER @ oid" for x
    using pk by (auto simp: ORDER_def OPEN_BY_PAIR_def OPEN_BY_MAKER_def dest!: pair_key_shape maker_key_shape)
  show ?thesis
    using assms(1) pk ne by (cases pk; cases "maker_key o'") (auto simp: order_ops_def Let_def)
qed

text \<open>The values of the rows other than the undo rows can be recorded.\<close>

definition rows_fit :: "kv \<Rightarrow> bool" where
  "rows_fit kv \<longleftrightarrow> (\<forall>k v. \<not> starts_with SWAP_UNDO k \<longrightarrow> kv_get kv k = Some v \<longrightarrow> length v < UNDO_NONE_SENTINEL)"

lemma swap_flush_total:
  assumes "swaps_ok fr cbor (utxo_db d) s" and "rows_fit (utxo_db d)"
    and "db_height d < 2 ^ 32" and "0 \<le> reorg_limit d"
  shows "plan_fits (utxo_db d) (swap_plan cbor s)"
    and "\<exists>ops pruned. swap_flush cbor d s = Inr (ops, s\<lparr>order_cache := [], order_height := [], swap_history := [],
       swap_log := no_undo, swap_pruned := pruned\<rparr>) \<and> -1 \<le> pruned"
proof -
  show fits: "plan_fits (utxo_db d) (swap_plan cbor s)"
    unfolding plan_fits_def
  proof clarify
    fix op h
    assume "(Some h, op) \<in> set (swap_plan cbor s)"
    then obtain oid o' where m: "(oid, o') \<in> set (order_cache s)" "map_of (order_height s) oid = Some h" "op \<in> set (order_ops cbor (oid, o'))"
      using assms(1) unfolding swap_plan_def swaps_ok_def by (auto split: option.splits)
    have ok: "order_ok o'" "order_id o' = oid" using assms(1) m(1) by (auto simp: swaps_ok_def cached_ok_def)
    then have l: "length (order_id o') = 36" "length (base_ref o') = 36" "length (quote_ref o') \<le> 36" "length (maker_scripthash o') \<le> 32"
      by (auto simp: order_ok_def)
    from order_ops_keys [OF m(3)] have "length (op_key op) < 65536"
    proof (elim disjE)
      assume "pair_key o' = Inr (Some (op_key op))"
      from pair_key_shape [OF this] l show ?thesis by (auto simp: OPEN_BY_PAIR_def)
    next
      assume "maker_key o' = Some (op_key op)"
      from maker_key_shape [OF this] l show ?thesis by (auto simp: OPEN_BY_MAKER_def)
    qed (use l ok in \<open>simp add: ORDER_def\<close>)
    moreover have "0 \<le> h \<and> h < 2 ^ 32" using assms(1) m(2) by (auto simp: swaps_ok_def)
    moreover have "\<not> starts_with SWAP_UNDO (op_key op)"
      using swap_plan_keys [OF _ \<open>(Some h, op) \<in> set (swap_plan cbor s)\<close>] assms(1) by (simp add: swaps_ok_def swap_on_def history_keys_def)
    ultimately show "0 \<le> h \<and> h < 2 ^ 32 \<and> undo_entry_fits (op_key op, kv_get (utxo_db d) (op_key op))"
      using assms(2) by (auto simp: undo_entry_fits_def rows_fit_def split: option.split)
  qed
  have ok: "sw_enabled s" "-1 \<le> swap_pruned s" "swap_log s = no_undo" using assms(1) by (simp_all add: swaps_ok_def)
  from prune_undo_total [OF ok(2) assms(3,4), of SWAP_UNDO] obtain old pruned where
      o': "prune_undo SWAP_UNDO d (swap_pruned s) = Inr (old, pruned)" "-1 \<le> pruned" by auto
  from log_plan_ok [OF no_undo_ok fits] have "undo_ok (utxo_db d) (log_plan (utxo_db d) (swap_plan cbor s) (swap_log s))"
    unfolding ok(3) by blast
  from undo_puts_ok [OF this, of SWAP_UNDO] obtain undos where
      "undo_puts SWAP_UNDO (log_plan (utxo_db d) (swap_plan cbor s) (swap_log s)) = Inr undos" by blast
  with o' have "swap_flush cbor d s = Inr (old @ map snd (swap_plan cbor s) @ undos, s\<lparr>order_cache := [], order_height := [],
      swap_history := [], swap_log := no_undo, swap_pruned := pruned\<rparr>)" by (simp add: swap_flush_eq [OF ok(1)])
  with o'(2) show "\<exists>ops pruned. swap_flush cbor d s = Inr (ops, s\<lparr>order_cache := [], order_height := [], swap_history := [],
       swap_log := no_undo, swap_pruned := pruned\<rparr>) \<and> -1 \<le> pruned" by blast
qed

lemma swap_flush_get:
  assumes "swaps_ok fr cbor (utxo_db d) s" and "kv_ok (utxo_db d)" and "swap_flush cbor d s = Inr (ops, s1)"
    and "\<not> starts_with SWAP_UNDO k"
  shows "kv_get (apply_batch ops (utxo_db d)) k = (case map_of (order_cache s) (takelast 36 k) of None \<Rightarrow> kv_get (utxo_db d) k
    | Some o' \<Rightarrow> fold op_map (order_ops cbor (takelast 36 k, o')) (kv_get (utxo_db d)) k)"
proof -
  have on: "swap_on s" using assms(1) by (simp add: swaps_ok_def swap_on_def history_keys_def)
  from swap_undo.flush_plan [OF on assms(3)] obtain old n puts where f: "prune_undo SWAP_UNDO d n = Inr old"
      "undo_written SWAP_UNDO (log_plan (utxo_db d) (swap_plan cbor s) (swap_log s)) puts"
      "ops = fst old @ map snd (swap_plan cbor s) @ puts" by blast
  have "\<forall>op \<in> set puts. op_key op \<noteq> k" "\<forall>op \<in> set (fst old). op_key op \<noteq> k"
    using undo_written_keys [OF f(2)] prune_undo_keys [OF f(1)] assms(4) by blast+
  then have "kv_get (apply_batch ops (utxo_db d)) k = fold op_map (map snd (swap_plan cbor s)) (fold op_map (fst old) (kv_get (utxo_db d))) k"
      and old: "fold op_map (fst old) (kv_get (utxo_db d)) k = kv_get (utxo_db d) k"
    by (simp_all add: kv_get_apply_batch [OF assms(2)] f(3) fold_op_unchanged)
  moreover have "map snd (swap_plan cbor s) = concat (map (order_ops cbor) (order_cache s))"
  proof -
    have h: "map_of (order_height s) (fst e) \<noteq> None" if "e \<in> set (order_cache s)" for e
    proof -
      have "fst e \<in> dom (map_of (order_cache s))" using that by (simp add: dom_map_of_conv_image_fst)
      with assms(1) show ?thesis by (auto simp: swaps_ok_def)
    qed
    then have "map snd (case map_of (order_height s) (fst e) of None \<Rightarrow> [] | Some ht \<Rightarrow> map (Pair (Some ht)) (order_ops cbor e)) = order_ops cbor e"
      if "e \<in> set (order_cache s)" for e
      using h [OF that] by (cases "map_of (order_height s) (fst e)") (simp_all add: comp_def)
    moreover have "swap_history s = []" using assms(1) by (simp add: swaps_ok_def)
    ultimately show ?thesis by (simp add: swap_plan_def map_concat comp_def cong: map_cong)
  qed
  ultimately have "kv_get (apply_batch ops (utxo_db d)) k
      = fold op_map (concat (map (order_ops cbor) (order_cache s))) (fold op_map (fst old) (kv_get (utxo_db d))) k" by simp
  also have "\<dots> = fold op_map (concat (map (order_ops cbor) (order_cache s))) (kv_get (utxo_db d)) k"
    using fold_op_local [of "fold op_map (fst old) (kv_get (utxo_db d))" k "kv_get (utxo_db d)"] old by simp
  also have "\<dots> = (case map_of (order_cache s) (takelast 36 k) of None \<Rightarrow> kv_get (utxo_db d) k
    | Some o' \<Rightarrow> fold op_map (order_ops cbor (takelast 36 k, o')) (kv_get (utxo_db d)) k)"
  proof (rule fold_orders)
    show "dict_ok (order_cache s)" using assms(1) by (simp add: swaps_ok_def)
    show "\<forall>(oid, o') \<in> set (order_cache s). \<forall>op \<in> set (order_ops cbor (oid, o')). takelast 36 (op_key op) = oid"
    proof clarify
      fix oid o' op assume m: "(oid, o') \<in> set (order_cache s)" "op \<in> set (order_ops cbor (oid, o'))"
      then have "order_id o' = oid" "length oid = 36" using assms(1) by (auto simp: swaps_ok_def cached_ok_def order_ok_def)
      then show "takelast 36 (op_key op) = oid" by (rule order_ops_suffix [OF _ _ m(2)])
    qed
  qed
  finally show ?thesis .
qed

lemma swap_table_keys: "\<not> starts_with SWAP_UNDO (ORDER @ x)" "starts_with OPEN_BY_PAIR k \<Longrightarrow> \<not> starts_with SWAP_UNDO k"
  "starts_with OPEN_BY_MAKER k \<Longrightarrow> \<not> starts_with SWAP_UNDO k" "starts_with OPEN_BY_PAIR k \<Longrightarrow> k \<noteq> ORDER @ x"
  "starts_with OPEN_BY_MAKER k \<Longrightarrow> k \<noteq> ORDER @ x" "starts_with OPEN_BY_PAIR k \<Longrightarrow> \<not> starts_with OPEN_BY_MAKER k"
  by (cases k; cases "tl k"; cases "tl (tl k)"; auto simp: starts_with_def SWAP_UNDO_def ORDER_def OPEN_BY_PAIR_def OPEN_BY_MAKER_def)+

lemma key_suffix:
  assumes "order_ok o'" and "order_id o' = oid"
  shows "pair_key o' = Inr (Some k) \<Longrightarrow> takelast 36 k = oid \<and> starts_with OPEN_BY_PAIR k"
    and "maker_key o' = Some k \<Longrightarrow> takelast 36 k = oid \<and> starts_with OPEN_BY_MAKER k"
proof -
  have suffix: "takelast 36 (xs @ order_id o') = oid" for xs using assms by (simp add: takelast_def order_ok_def)
  show "pair_key o' = Inr (Some k) \<Longrightarrow> takelast 36 k = oid \<and> starts_with OPEN_BY_PAIR k"
    using suffix [of "OPEN_BY_PAIR @ base_ref o' @ quote_ref o' @ [of_int (side o')] @ pb" for pb] by (auto simp: starts_with_def dest!: pair_key_shape)
  show "maker_key o' = Some k \<Longrightarrow> takelast 36 k = oid \<and> starts_with OPEN_BY_MAKER k"
    using suffix [of "OPEN_BY_MAKER @ maker_scripthash o'"] by (auto simp: starts_with_def dest!: maker_key_shape)
qed

lemma swap_flush_orders:
  assumes ok: "swaps_ok fr cbor (utxo_db d) s" and reads: "orders_read cbor (utxo_db d)" and kv: "kv_ok (utxo_db d)"
    and f: "swap_flush cbor d s = Inr (ops, s1)" and cb: "cbor_faithful cbor (snd ` set (order_cache s))"
  shows "orders_read cbor (apply_batch ops (utxo_db d))"
    and "stored cbor (apply_batch ops (utxo_db d)) oid = current cbor (utxo_db d) s oid"
    and "map_of (order_cache s) oid = Some o' \<Longrightarrow> order_id o' = oid \<and> order_ok o' \<and> cached_ok fr cbor (utxo_db d) (oid, o')
      \<and> (\<exists>b. order_to_bytes cbor o' = Inr b)"
proof -
  let ?kv = "utxo_db d" and ?kv' = "apply_batch ops (utxo_db d)"
  note get = swap_flush_get [OF ok kv f]
  have cached: "order_id o' = x \<and> order_ok o' \<and> cached_ok fr cbor ?kv (x, o')
      \<and> (\<exists>b. order_to_bytes cbor o' = Inr b \<and> b \<noteq> [] \<and> order_from_bytes cbor b = Inr o')"
    if "map_of (order_cache s) x = Some o'" for x o'
  proof -
    from that have m: "(x, o') \<in> set (order_cache s)" by (rule map_of_SomeD)
    then have c: "cached_ok fr cbor ?kv (x, o')" using ok by (simp add: swaps_ok_def)
    then have "order_id o' = x" "order_ok o'" by (simp_all add: cached_ok_def)
    moreover have "o' \<in> snd ` set (order_cache s)" using m by force
    ultimately show ?thesis using order_codec [OF cb] c by (auto simp: order_ok_def)
  qed
  have row: "kv_get ?kv' (ORDER @ x) = (case map_of (order_cache s) x of None \<Rightarrow> kv_get ?kv (ORDER @ x)
      | Some o' \<Rightarrow> Some (projr (order_to_bytes cbor o')))" for x
  proof -
    let ?y = "takelast 36 (ORDER @ x)"
    have x: "?y = x" if "map_of (order_cache s) x \<noteq> None"
      using that cached [of x] by (auto simp: order_ok_def takelast_def)
    show ?thesis
    proof (cases "map_of (order_cache s) ?y")
      case None
      with x have "map_of (order_cache s) x = None" by fastforce
      with None get [OF swap_table_keys(1), of x] show ?thesis by simp
    next
      case (Some o')
      have ne: "pair_key o' \<noteq> Inr (Some (ORDER @ x))" "maker_key o' \<noteq> Some (ORDER @ x)"
        using key_suffix [of o'] cached [OF Some] swap_table_keys(4,5) by blast+
      from cached [OF Some] obtain b where b: "order_to_bytes cbor o' = Inr b" "order_ok o'" by blast
      from order_rows [OF b] ne Some get [OF swap_table_keys(1), of x]
      have v: "kv_get ?kv' (ORDER @ x) = (if x = ?y then Some b else kv_get ?kv (ORDER @ x))" by simp
      show ?thesis
      proof (cases "x = ?y")
        case True
        with v Some b(1) show ?thesis by simp
      next
        case False
        with x have "map_of (order_cache s) x = None" by fastforce
        with v False show ?thesis by simp
      qed
    qed
  qed
  have st: "stored cbor ?kv' x = current cbor ?kv s x" for x
  proof (cases "map_of (order_cache s) x")
    case None
    then show ?thesis using row [of x] by (simp add: stored_def get_order_def current_def)
  next
    case (Some o')
    from cached [OF Some] obtain b where "order_to_bytes cbor o' = Inr b" "b \<noteq> []" "order_from_bytes cbor b = Inr o'" by blast
    with Some row [of x] show ?thesis by (cases b) (simp_all add: stored_def get_order_def current_def)
  qed
  have reads': "b \<noteq> [] \<and> (\<exists>o'. order_from_bytes cbor b = Inr o' \<and> order_id o' = x \<and> order_ok o')"
    if "kv_get ?kv' (ORDER @ x) = Some b" for x b
  proof (cases "map_of (order_cache s) x")
    case None
    with row [of x] that have "kv_get ?kv (ORDER @ x) = Some b" by simp
    with reads show ?thesis unfolding orders_read_def by blast
  next
    case (Some o')
    with row [of x] that cached [OF Some] show ?thesis by auto
  qed
  show "orders_read cbor ?kv'" unfolding orders_read_def using reads' by blast
  show "stored cbor ?kv' oid = current cbor ?kv s oid" by (rule st)
  show "map_of (order_cache s) oid = Some o' \<Longrightarrow> order_id o' = oid \<and> order_ok o' \<and> cached_ok fr cbor ?kv (oid, o')
      \<and> (\<exists>b. order_to_bytes cbor o' = Inr b)" using cached by blast
qed

text \<open>The value of any other key.\<close>

lemma swap_flush_value:
  assumes ok: "swaps_ok fr cbor (utxo_db d) s" and reads: "orders_read cbor (utxo_db d)" and kv: "kv_ok (utxo_db d)"
    and f: "swap_flush cbor d s = Inr (ops, s1)" and cb: "cbor_faithful cbor (snd ` set (order_cache s))"
    and no: "\<not> starts_with SWAP_UNDO k" and ord: "\<And>x. k \<noteq> ORDER @ x"
  shows "kv_get (apply_batch ops (utxo_db d)) k = (case map_of (order_cache s) (takelast 36 k) of None \<Rightarrow> kv_get (utxo_db d) k
    | Some o' \<Rightarrow> if pair_key o' = Inr (Some k) \<or> maker_key o' = Some k then if terminal o' then None else Some [] else kv_get (utxo_db d) k)"
proof (cases "map_of (order_cache s) (takelast 36 k)")
  case None
  then show ?thesis using swap_flush_get [OF ok kv f no] by simp
next
  case (Some o')
  from swap_flush_orders(3) [OF ok reads kv f cb Some] obtain b where b: "order_to_bytes cbor o' = Inr b" "order_ok o'" by blast
  show ?thesis using swap_flush_get [OF ok kv f no] Some ord by (simp add: order_rows [OF b])
qed

lemma swap_flush_book:
  assumes ok: "swaps_ok True cbor (utxo_db d) s" and book: "book_ok cbor (utxo_db d)" and kv: "kv_ok (utxo_db d)"
    and f: "swap_flush cbor d s = Inr (ops, s1)" and cb: "cbor_faithful cbor (snd ` set (order_cache s))"
  shows "book_ok cbor (apply_batch ops (utxo_db d))"
proof -
  let ?kv = "utxo_db d" and ?kv' = "apply_batch ops (utxo_db d)"
  note reads = book_reads [OF book]
  note st = swap_flush_orders(2) [OF ok reads kv f cb] and cached = swap_flush_orders(3) [OF ok reads kv f cb]
  note val = swap_flush_value [OF ok reads kv f cb]
  have index: "kv_get ?kv' k \<noteq> None \<longleftrightarrow> (\<exists>x o'. stored cbor ?kv' x = Some o' \<and> \<not> terminal o' \<and> key o' = Some k)"
    if old: "kv_get ?kv k \<noteq> None \<longleftrightarrow> (\<exists>x o'. stored cbor ?kv x = Some o' \<and> \<not> terminal o' \<and> key o' = Some k)"
      and no: "\<not> starts_with SWAP_UNDO k" and ord: "\<And>x. k \<noteq> ORDER @ x"
      and keys: "\<And>o'. order_ok o' \<Longrightarrow> (pair_key o' = Inr (Some k) \<or> maker_key o' = Some k) \<longleftrightarrow> key o' = Some k"
      and suff: "\<And>o'. order_ok o' \<Longrightarrow> key o' = Some k \<Longrightarrow> order_id o' = takelast 36 k"
      and same: "\<And>o' o2. pair_key o' = pair_key o2 \<Longrightarrow> maker_key o' = maker_key o2 \<Longrightarrow> key o' = key o2"
    for k and key :: "order \<Rightarrow> bytes option"
  proof -
    let ?y = "takelast 36 k"
    have only: "x = ?y" if "stored cbor ?kv' x = Some o'" "key o' = Some k" for x o'
    proof -
      have "order_id o' = x \<and> order_ok o'"
        using that(1) unfolding st current_def by (auto split: option.splits dest: cached stored_ok [OF reads])
      with suff [of o'] that(2) show ?thesis by simp
    qed
    have only_old: "x = ?y" if "stored cbor ?kv x = Some o'" "key o' = Some k" for x o'
      using stored_ok [OF reads that(1)] suff [of o'] that(2) by simp
    show ?thesis
    proof (cases "map_of (order_cache s) ?y")
      case None
      then have "kv_get ?kv' k = kv_get ?kv k" using val [OF no ord] by simp
      moreover have "stored cbor ?kv' ?y = stored cbor ?kv ?y" using None by (simp add: st current_def)
      ultimately show ?thesis using old only only_old by metis
    next
      case (Some o')
      from cached [OF Some] have ok': "order_ok o'" and c: "cached_ok True cbor ?kv (?y, o')" by blast+
      have v: "kv_get ?kv' k = (if key o' = Some k then if terminal o' then None else Some [] else kv_get ?kv k)"
        using val [OF no ord] Some keys [OF ok'] by simp
      have now: "stored cbor ?kv' ?y = Some o'" using Some by (simp add: st current_def)
      show ?thesis
      proof (cases "key o' = Some k")
        case True
        have one: "o2 = o'" if "stored cbor ?kv' x = Some o2" "key o2 = Some k" for x o2
          using only [OF that] that(1) now by simp
        have "(\<exists>x o2. stored cbor ?kv' x = Some o2 \<and> \<not> terminal o2 \<and> key o2 = Some k) \<longleftrightarrow> \<not> terminal o'"
          using one now True by blast
        with v True show ?thesis by simp
      next
        case False
        have "kv_get ?kv k = None"
        proof (rule ccontr)
          assume "kv_get ?kv k \<noteq> None"
          with old obtain x o2 where o2: "stored cbor ?kv x = Some o2" "key o2 = Some k" by blast
          with only_old have "stored cbor ?kv ?y = Some o2" by metis
          with c have "key o' = key o2" by (intro same) (simp_all add: cached_ok_def)
          with False o2(2) show False by simp
        qed
        moreover have "key o2 \<noteq> Some k" if "stored cbor ?kv' x = Some o2" for x o2
          using only [OF that] that now False by auto
        ultimately show ?thesis using False v by auto
      qed
    qed
  qed
  have pair: "kv_get ?kv' k \<noteq> None \<longleftrightarrow> (\<exists>x o'. stored cbor ?kv' x = Some o' \<and> \<not> terminal o' \<and> pair_key o' = Inr (Some k))"
    if k: "starts_with OPEN_BY_PAIR k" for k
  proof -
    let ?key = "\<lambda>o'. case pair_key o' of Inr pk \<Rightarrow> pk | Inl _ \<Rightarrow> None"
    have eq: "?key o' = Some k \<longleftrightarrow> pair_key o' = Inr (Some k)" for o' by (auto split: sum.split)
    have "kv_get ?kv' k \<noteq> None \<longleftrightarrow> (\<exists>x o'. stored cbor ?kv' x = Some o' \<and> \<not> terminal o' \<and> ?key o' = Some k)"
    proof (rule index)
      show "kv_get ?kv k \<noteq> None \<longleftrightarrow> (\<exists>x o'. stored cbor ?kv x = Some o' \<and> \<not> terminal o' \<and> ?key o' = Some k)"
        using book k unfolding book_ok_def eq by blast
      show "(pair_key o' = Inr (Some k) \<or> maker_key o' = Some k) \<longleftrightarrow> ?key o' = Some k" if "order_ok o'" for o'
        unfolding eq using key_suffix(2) [OF that refl] swap_table_keys(6) [OF k] by blast
      show "order_id o' = takelast 36 k" if "order_ok o'" "?key o' = Some k" for o'
        using key_suffix(1) [OF that(1) refl] that(2) unfolding eq by simp
    qed (use swap_table_keys k in auto)
    then show ?thesis unfolding eq .
  qed
  have maker: "kv_get ?kv' k \<noteq> None \<longleftrightarrow> (\<exists>x o'. stored cbor ?kv' x = Some o' \<and> \<not> terminal o' \<and> maker_key o' = Some k)"
    if k: "starts_with OPEN_BY_MAKER k" for k
  proof (rule index)
    show "kv_get ?kv k \<noteq> None \<longleftrightarrow> (\<exists>x o'. stored cbor ?kv x = Some o' \<and> \<not> terminal o' \<and> maker_key o' = Some k)"
      using book k unfolding book_ok_def by blast
    show "(pair_key o' = Inr (Some k) \<or> maker_key o' = Some k) \<longleftrightarrow> maker_key o' = Some k" if "order_ok o'" for o'
      using key_suffix(1) [OF that refl, of k] swap_table_keys(6) k by blast
    show "order_id o' = takelast 36 k" if "order_ok o'" "maker_key o' = Some k" for o'
      using key_suffix(2) [OF that(1) refl that(2)] by simp
  qed (use swap_table_keys k in auto)
  show ?thesis unfolding book_ok_def using swap_flush_orders(1) [OF ok reads kv f cb] pair maker by blast
qed

section \<open>The queries\<close>

text \<open>The orders of a pair and side that are on offer.\<close>

definition offers :: "cbor2 option \<Rightarrow> db \<Rightarrow> bytes \<Rightarrow> bytes \<Rightarrow> int \<Rightarrow> order set" where
  "offers cbor d bref qref sd =
     {o'. (\<exists>oid. stored cbor (utxo_db d) oid = Some o') \<and> base_ref o' = bref \<and> quote_ref o' = qref \<and> side o' = sd \<and> on_offer d o'}"

lemma on_offer_open: "on_offer d o' \<Longrightarrow> \<not> terminal o'"
  by (auto simp: on_offer_def terminal_def ST_OPEN_def ST_PARTIAL_def ST_FILLED_def ST_CANCELLED_def ST_EXPIRED_def)

lemma book_loop_take:
  assumes "\<forall>(k, v) \<in> set rows. get_order cbor (utxo_db d) cache (takelast 36 k) = Inr (Some (f k))"
  shows "book_loop cbor d cache limit found rows
    = Inr (found @ take (nat limit - length found) (filter (on_offer d) (map (f \<circ> fst) rows)))"
  using assms
proof (induction rows arbitrary: found)
  case Nil
  then show ?case by simp
next
  case (Cons r rows)
  obtain k v where r: "r = (k, v)" by (cases r)
  show ?case
  proof (cases "limit \<le> int (length found)")
    case True
    then show ?thesis by (simp add: r)
  next
    case False
    then obtain n where n: "nat limit - length found = Suc n" by (cases "nat limit - length found") auto
    have "get_order cbor (utxo_db d) cache (takelast 36 k) = Inr (Some (f k))" using Cons.prems by (simp add: r)
    moreover have "nat limit - Suc (length found) = n" using n by simp
    ultimately show ?thesis using False Cons n by (auto simp: r)
  qed
qed

lemma be_enc_append_less:
  assumes "a < 256 ^ n" and "b < 256 ^ n" and "be_enc n a @ x < be_enc n b @ y"
  shows "a \<le> b"
proof (rule ccontr)
  assume "\<not> a \<le> b"
  then have "be_enc n b < be_enc n a" using assms(1,2) by (simp add: be_enc_less_iff)
  then have "be_enc n b @ y < be_enc n a" by (simp add: less_prefix)
  moreover have "be_enc n a \<le> be_enc n a @ x"
    using append_less_iff [of "be_enc n a" "[]" x] by (cases x) simp_all
  ultimately have "be_enc n b @ y < be_enc n a @ x" by (rule less_le_trans)
  then show False using assms(3) by simp
qed

definition price_key :: "order \<Rightarrow> nat" where
  "price_key o' = nat (if side o' = BUY then MAX_UINT64 - price o' else price o')"

lemma pair_key_eq:
  assumes "order_ok o'" and "quote_ref o' \<noteq> []"
  shows "price_key o' < 256 ^ 8 \<and> pair_key o' = Inr (Some (OPEN_BY_PAIR @ base_ref o' @ quote_ref o' @ [of_int (side o')] @ be_enc 8 (price_key o') @ order_id o'))"
proof -
  have side: "side o' = BUY \<or> side o' = SELL" and p: "0 \<le> price o'" "price o' \<le> MAX_UINT64" and b: "base_ref o' \<noteq> []"
    using assms(1) by (auto simp: order_ok_def order_amounts_in_range_def)
  let ?n = "if side o' = BUY then MAX_UINT64 - price o' else price o'"
  have n: "0 \<le> ?n" "?n < 256 ^ 8" using p by (auto simp: MAX_UINT64_def)
  have "pack_uint 8 ?n = Inr (le_enc 8 (nat ?n))" unfolding pack_uint_def using n by (simp only: simp_thms if_True)
  then have "pack_be_uint64 ?n = Inr (be_enc 8 (price_key o'))"
    by (simp only: pack_be_uint64_def price_key_def be_enc_def rbind_simps)
  moreover have "\<not> (side o' < 0 \<or> 255 < side o')" using side by (auto simp: BUY_def SELL_def)
  moreover have "price_key o' < 256 ^ 8" using n by (simp only: price_key_def nat_less_iff of_nat_power of_nat_numeral)
  ultimately show ?thesis using assms(2) b by (simp only: pair_key_def rbind_simps if_False simp_thms)
qed

text \<open>An open row of a pair and side belongs to the order its key spells.\<close>

lemma open_row:
  assumes "book_ok cbor kv" and "kv_get kv k \<noteq> None" and "starts_with (OPEN_BY_PAIR @ bref @ qref @ [of_int sd]) k"
    and "length bref = 36" and "length qref = 36" and "sd \<in> {BUY, SELL}"
  shows "\<exists>o'. stored cbor kv (takelast 36 k) = Some o' \<and> \<not> terminal o' \<and> base_ref o' = bref \<and> quote_ref o' = qref \<and> side o' = sd
    \<and> k = (OPEN_BY_PAIR @ bref @ qref @ [of_int sd]) @ be_enc 8 (price_key o') @ order_id o' \<and> price_key o' < 256 ^ 8"
proof -
  from assms(3) obtain r where r: "k = OPEN_BY_PAIR @ bref @ qref @ [of_int sd] @ r" by (auto simp: starts_with_split)
  then have "starts_with OPEN_BY_PAIR k" by simp
  with assms(1,2) obtain oid o' where o': "stored cbor kv oid = Some o'" "\<not> terminal o'" "pair_key o' = Inr (Some k)"
    unfolding book_ok_def by blast
  from stored_ok [OF book_reads [OF assms(1)] o'(1)] have ok: "order_id o' = oid" "order_ok o'" by simp_all
  have q: "quote_ref o' \<noteq> []" using o'(3) by (auto simp: pair_key_def split: if_splits)
  from pair_key_eq [OF ok(2) q] o'(3) have k: "price_key o' < 256 ^ 8"
      "k = OPEN_BY_PAIR @ base_ref o' @ quote_ref o' @ [of_int (side o')] @ be_enc 8 (price_key o') @ order_id o'" by simp_all
  have "length (base_ref o') = 36" "length (quote_ref o') = 36" "side o' \<in> {BUY, SELL}" using ok(2) q by (auto simp: order_ok_def)
  with k(2) r assms(4-6) have "base_ref o' = bref" "quote_ref o' = qref" "side o' = sd" by (auto simp: BUY_def SELL_def)
  moreover have "takelast 36 k = oid" using key_suffix(1) [OF ok(2,1) o'(3)] by blast
  ultimately show ?thesis using o' k by (intro exI [of _ o']) simp
qed

lemma sorted_rows_distinct: "sorted_wrt (\<lambda>x y. fst x < fst y) rows \<Longrightarrow> distinct (rows :: kv)"
  by (induction rows) auto

lemma book_side_exact:
  assumes "book_ok cbor (utxo_db d)" and "kv_ok (utxo_db d)" and "order_cache s = []"
    and "length bref = 36" and "length qref = 36" and "sd \<in> {BUY, SELL}"
  shows "\<exists>os. book_side cbor d s bref qref sd None limit = Inr (take (nat limit) os)
    \<and> set os = offers cbor d bref qref sd \<and> distinct os \<and> sorted_wrt (\<lambda>o1 o2. price_key o1 \<le> price_key o2) os"
proof -
  let ?kv = "utxo_db d" and ?p = "OPEN_BY_PAIR @ bref @ qref @ [of_int sd]"
  let ?rows = "kv_iter ?kv ?p False"
  define f where "f k = the (stored cbor ?kv (takelast 36 k))" for k
  have mem: "(k, v) \<in> set ?rows \<longleftrightarrow> starts_with ?p k \<and> kv_get ?kv k = Some v" for k v
    using kv_iter_mem [OF assms(2)] by blast
  have row: "stored cbor ?kv (takelast 36 (fst r)) = Some (f (fst r)) \<and> base_ref (f (fst r)) = bref \<and> quote_ref (f (fst r)) = qref
      \<and> side (f (fst r)) = sd \<and> fst r = ?p @ be_enc 8 (price_key (f (fst r))) @ order_id (f (fst r)) \<and> price_key (f (fst r)) < 256 ^ 8"
    if "r \<in> set ?rows" for r
  proof -
    from that mem [of "fst r" "snd r"] have "starts_with ?p (fst r)" "kv_get ?kv (fst r) \<noteq> None" by auto
    from open_row [OF assms(1) this(2,1) assms(4-6)] show ?thesis unfolding f_def by fastforce
  qed
  let ?os = "filter (on_offer d) (map (f \<circ> fst) ?rows)"
  have "\<forall>(k, v) \<in> set ?rows. get_order cbor ?kv (order_cache s) (takelast 36 k) = Inr (Some (f k))"
    using row by (fastforce simp: get_order_stored [OF book_reads [OF assms(1)]] assms(3))
  from book_loop_take [OF this, of limit "[]"] have run: "book_side cbor d s bref qref sd None limit = Inr (take (nat limit) ?os)"
    by (simp add: book_side_def)
  have "set ?os = offers cbor d bref qref sd"
  proof (intro equalityI subsetI)
    fix o' assume "o' \<in> set ?os"
    then obtain r where r: "r \<in> set ?rows" and o': "o' = f (fst r)" "on_offer d o'" by auto
    from row [OF r] o' show "o' \<in> offers cbor d bref qref sd" unfolding offers_def by blast
  next
    fix o' assume "o' \<in> offers cbor d bref qref sd"
    then obtain oid where o': "stored cbor ?kv oid = Some o'" "base_ref o' = bref" "quote_ref o' = qref" "side o' = sd" "on_offer d o'"
      by (auto simp: offers_def)
    from stored_ok [OF book_reads [OF assms(1)] o'(1)] have ok: "order_id o' = oid" "order_ok o'" by simp_all
    have "quote_ref o' \<noteq> []" using o'(3) assms(5) by auto
    from pair_key_eq [OF ok(2) this] obtain k where k: "pair_key o' = Inr (Some k)" "starts_with ?p k"
      using o'(2-4) by (auto simp: starts_with_split)
    then have "starts_with OPEN_BY_PAIR k" by (auto simp: starts_with_split)
    with assms(1) o'(1,5) k(1) have "kv_get ?kv k \<noteq> None" unfolding book_ok_def using on_offer_open by blast
    then obtain v where "(k, v) \<in> set ?rows" using mem k(2) by auto
    moreover have "f k = o'" using key_suffix(1) [OF ok(2,1) k(1)] o'(1) by (simp add: f_def)
    ultimately show "o' \<in> set ?os" using o'(5) by force
  qed
  moreover have "distinct ?os"
  proof -
    have "inj_on (f \<circ> fst) (set ?rows)"
    proof (rule inj_onI)
      fix r r' assume "r \<in> set ?rows" "r' \<in> set ?rows" "(f \<circ> fst) r = (f \<circ> fst) r'"
      with row have "fst r = fst r'" by (metis comp_apply)
      moreover have "kv_get ?kv (fst r) = Some (snd r)" "kv_get ?kv (fst r') = Some (snd r')"
        using \<open>r \<in> set ?rows\<close> \<open>r' \<in> set ?rows\<close> mem [of "fst r" "snd r"] mem [of "fst r'" "snd r'"] by simp_all
      ultimately show "r = r'" by (simp add: prod_eq_iff)
    qed
    moreover have "distinct ?rows"
      using kv_iter_sorted [OF assms(2), of ?p] by (rule sorted_rows_distinct)
    ultimately show ?thesis by (simp add: distinct_map)
  qed
  moreover have "sorted_wrt (\<lambda>o1 o2. price_key o1 \<le> price_key o2) ?os"
  proof (rule sorted_wrt_filter)
    have "sorted_wrt (\<lambda>r r'. price_key (f (fst r)) \<le> price_key (f (fst r'))) ?rows"
    proof (rule sorted_wrt_mono_rel [OF _ kv_iter_sorted [OF assms(2), of ?p]])
      fix r r' assume r: "r \<in> set ?rows" "r' \<in> set ?rows" and less: "fst r < fst r'"
      from row [OF r(1)] row [OF r(2)] less have "?p @ be_enc 8 (price_key (f (fst r))) @ order_id (f (fst r))
          < ?p @ be_enc 8 (price_key (f (fst r'))) @ order_id (f (fst r'))" by metis
      then have "be_enc 8 (price_key (f (fst r))) @ order_id (f (fst r)) < be_enc 8 (price_key (f (fst r'))) @ order_id (f (fst r'))"
        by (simp only: append_less_iff)
      with row [OF r(1)] row [OF r(2)] show "price_key (f (fst r)) \<le> price_key (f (fst r'))"
        by (intro be_enc_append_less) blast+
    qed
    then show "sorted_wrt (\<lambda>o1 o2. price_key o1 \<le> price_key o2) (map (f \<circ> fst) ?rows)" by (simp add: sorted_wrt_map)
  qed
  ultimately show ?thesis using run by blast
qed

section \<open>Properties\<close>

text \<open>C16: The swap orders of any transactions that advertise no outpoint the database already has an
  order for are flushed: the flush raises nothing, and afterwards the rows of the book by pair and by
  maker are again exactly those of the orders that are not closed, whichever orders were opened and
  closed in between and in whatever order the spent outpoints were gone through. An order whose
  outpoint one of the transactions spends is closed in the database, unless that transaction or a later
  one advertises the outpoint again.\<close>
theorem swap_book_exact:
  assumes "book_ok cbor (utxo_db d)" and "kv_ok (utxo_db d)" and "rows_fit (utxo_db d)"
    and "db_height d < 2 ^ 32" and "0 \<le> reorg_limit d" and "digest32 sha"
    and "swap_txs_ok True sha coin cbor ord (utxo_db d) txs"
    and "s = swap_index_txs sha coin cbor ord d txs (new_swap_index True d)"
    and "cbor_faithful cbor (snd ` set (order_cache s))"
  shows "\<exists>ops s1. swap_flush cbor d s = Inr (ops, s1) \<and> order_cache s1 = []
    \<and> book_ok cbor (apply_batch ops (utxo_db d))
    \<and> (\<forall>earlier ctx env ts later oid. txs = earlier @ (ctx, env, ts) # later \<and> oid \<in> ctx_spent_outpoints ctx
         \<and> current cbor (utxo_db d) (swap_index_txs sha coin cbor ord d earlier (new_swap_index True d)) oid \<noteq> None
         \<and> (\<forall>(ctx, env, ts) \<in> set ((ctx, env, ts) # later). oid \<notin> set (advertised sha coin ts ctx))
         \<longrightarrow> (\<exists>o'. stored cbor (apply_batch ops (utxo_db d)) oid = Some o' \<and> terminal o'))"
proof -
  let ?kv = "utxo_db d" and ?run = "\<lambda>txs. swap_index_txs sha coin cbor ord d txs"
  note reads = book_reads [OF assms(1)]
  have ok: "swaps_ok True cbor ?kv s" unfolding assms(8) by (rule swap_index_txs_ok(1) [OF reads new_swap_index_ok assms(6,7)])
  from swap_flush_total(2) [OF ok assms(3-5)] obtain ops pruned where
      f: "swap_flush cbor d s = Inr (ops, s\<lparr>order_cache := [], order_height := [], swap_history := [],
       swap_log := no_undo, swap_pruned := pruned\<rparr>)" by blast
  note book = swap_flush_book [OF ok assms(1,2) f assms(9)] and now = swap_flush_orders(2) [OF ok reads assms(2) f assms(9)]
  have "\<exists>o'. stored cbor (apply_batch ops ?kv) oid = Some o' \<and> terminal o'"
    if txs: "txs = earlier @ (ctx, env, ts) # later" and spent: "oid \<in> ctx_spent_outpoints ctx"
      and known: "current cbor ?kv (?run earlier (new_swap_index True d)) oid \<noteq> None"
      and no_ad: "\<forall>(ctx, env, ts) \<in> set ((ctx, env, ts) # later). oid \<notin> set (advertised sha coin ts ctx)"
    for earlier ctx env ts later oid
  proof -
    let ?s1 = "?run earlier (new_swap_index True d)"
    have ok1: "swap_txs_ok True sha coin cbor ord ?kv earlier" "swap_txs_ok True sha coin cbor ord ?kv later" "swap_ctx_ok ctx"
        "set (ord (ctx_spent_outpoints ctx)) = ctx_spent_outpoints ctx"
        "True \<longrightarrow> (\<forall>oid \<in> set (advertised sha coin ts ctx). stored cbor ?kv oid = None)"
      using assms(7) by (auto simp: txs swap_txs_ok_def)
    have s1: "swaps_ok True cbor ?kv ?s1" by (rule swap_index_txs_ok(1) [OF reads new_swap_index_ok assms(6) ok1(1)])
    from swap_process_tx_ok [where ord = ord and coin = coin, OF reads s1 assms(6) ok1(3-5), of env] obtain s2 where
        s2: "swap_process_tx sha coin cbor ord ts d ctx env ?s1 = (s2, Inr ())" "swaps_ok True cbor ?kv s2"
          "\<And>oid. oid \<notin> set (advertised sha coin ts ctx) \<Longrightarrow>
             current cbor ?kv s2 oid = (case current cbor ?kv ?s1 oid of None \<Rightarrow> None
               | Some o' \<Rightarrow> Some (if oid \<in> ctx_spent_outpoints ctx \<and> \<not> terminal o' then closed o' (ctx_tx_hash ctx) (ctx_height ctx) else o'))"
      by blast
    obtain o' where o': "current cbor ?kv s2 oid = Some o'" "terminal o'"
      using s2(3) [of oid] no_ad known spent by (auto split: option.splits if_splits)
    have "?run ((ctx, env, ts) # later) ?s1 = ?run later (fst (swap_process_tx sha coin cbor ord ts d ctx env ?s1))"
      by (simp add: swap_index_txs_def)
    then have "s = ?run later s2" unfolding assms(8) txs swap_index_txs_append s2(1) fst_conv .
    then have "current cbor ?kv s oid = Some o'"
      using swap_index_txs_ok(2) [OF reads s2(2) assms(6) ok1(2), of oid] no_ad o' by auto
    then show ?thesis using now [of oid] o'(2) by simp
  qed
  then have spent: "\<forall>earlier ctx env ts later oid. txs = earlier @ (ctx, env, ts) # later \<and> oid \<in> ctx_spent_outpoints ctx
         \<and> current cbor ?kv (?run earlier (new_swap_index True d)) oid \<noteq> None
         \<and> (\<forall>(ctx, env, ts) \<in> set ((ctx, env, ts) # later). oid \<notin> set (advertised sha coin ts ctx))
         \<longrightarrow> (\<exists>o'. stored cbor (apply_batch ops ?kv) oid = Some o' \<and> terminal o')" by blast
  have "order_cache (s\<lparr>order_cache := [], order_height := [], swap_history := [], swap_log := no_undo, swap_pruned := pruned\<rparr>) = []"
    by simp
  with f book spent show ?thesis by (intro exI conjI) assumption+
qed

text \<open>C35: Whatever bytes the outputs of the transactions carry, every order the index holds is named by 36
  bytes, has amounts of at most 64 bits and a height of 32 bits, and its row keys can be built and have
  119 and 70 bytes, so the flush leaves none out and the keys fit the entries of the undo log.\<close>
theorem swap_orders_bounded:
  assumes "orders_read cbor (utxo_db d)" and "digest32 sha" and "swap_txs_ok False sha coin cbor ord (utxo_db d) txs"
    and "s = swap_index_txs sha coin cbor ord d txs (new_swap_index True d)" and "(oid, o') \<in> set (order_cache s)"
  shows "length oid = 36 \<and> order_id o' = oid \<and> list_all (\<lambda>v. 0 \<le> v \<and> v < 2 ^ 64) [price o', amount o', remaining_amount o']
    \<and> (\<exists>pk. pair_key o' = Inr pk \<and> (pk = None \<or> length (the pk) = 119))
    \<and> (maker_key o' = None \<or> length (the (maker_key o')) = 70)
    \<and> (\<exists>ht. map_of (order_height s) oid = Some ht \<and> 0 \<le> ht \<and> ht < 2 ^ 32)"
proof -
  have ok: "swaps_ok False cbor (utxo_db d) s" unfolding assms(4) by (rule swap_index_txs_ok(1) [OF assms(1) new_swap_index_ok assms(2,3)])
  then have o': "order_id o' = oid" "order_ok o'" using assms(5) by (auto simp: swaps_ok_def cached_ok_def)
  have "oid \<in> dom (map_of (order_height s))" using ok assms(5) by (auto simp: swaps_ok_def dom_map_of_conv_image_fst intro!: image_eqI)
  then obtain ht where "map_of (order_height s) oid = Some ht" by blast
  with ok have "\<exists>ht. map_of (order_height s) oid = Some ht \<and> 0 \<le> ht \<and> ht < 2 ^ 32" by (auto simp: swaps_ok_def)
  moreover have "\<exists>pk. pair_key o' = Inr pk \<and> (pk = None \<or> length (the pk) = 119)"
  proof -
    obtain pk where pk: "pair_key o' = Inr pk" using pair_key_total [OF o'(2)] by blast
    moreover have "length (the pk) = 119" if "pk = Some k" for k
      using pk o'(2) that by (auto simp: order_ok_def OPEN_BY_PAIR_def dest!: pair_key_shape)
    ultimately show ?thesis by (cases pk) auto
  qed
  moreover have "maker_key o' = None \<or> length (the (maker_key o')) = 70"
    using o'(2) by (auto simp: order_ok_def OPEN_BY_MAKER_def maker_key_def)
  ultimately show ?thesis using o' by (auto simp: order_ok_def order_amounts_in_range_def MAX_UINT64_def)
qed

text \<open>C18: On a database whose book rows are exact, the order book of a pair holds exactly the orders of the
  pair that are open and not expired, each once, the asks by rising and the bids by falling price, cut
  off at the limit.\<close>
theorem orderbook_by_price:
  assumes "book_ok cbor (utxo_db d)" and "kv_ok (utxo_db d)" and "order_cache s = []"
    and "length bref = 36" and "length qref = 36"
  shows "\<exists>bids asks. get_orderbook cbor d s bref qref None limit = Inr (take (nat limit) bids, take (nat limit) asks)
    \<and> set bids = offers cbor d bref qref BUY \<and> distinct bids \<and> sorted_wrt (\<lambda>o1 o2. price o2 \<le> price o1) bids
    \<and> set asks = offers cbor d bref qref SELL \<and> distinct asks \<and> sorted_wrt (\<lambda>o1 o2. price o1 \<le> price o2) asks"
proof -
  from book_side_exact [OF assms, of BUY limit] obtain bids where
      bids: "book_side cbor d s bref qref BUY None limit = Inr (take (nat limit) bids)" "set bids = offers cbor d bref qref BUY"
        "distinct bids" "sorted_wrt (\<lambda>o1 o2. price_key o1 \<le> price_key o2) bids" by auto
  from book_side_exact [OF assms, of SELL limit] obtain asks where
      asks: "book_side cbor d s bref qref SELL None limit = Inr (take (nat limit) asks)" "set asks = offers cbor d bref qref SELL"
        "distinct asks" "sorted_wrt (\<lambda>o1 o2. price_key o1 \<le> price_key o2) asks" by auto
  have range: "0 \<le> price o' \<and> price o' \<le> MAX_UINT64" if "o' \<in> offers cbor d bref qref sd" for o' sd
    using that stored_ok [OF book_reads [OF assms(1)]] by (fastforce simp: offers_def order_ok_def order_amounts_in_range_def)
  have "sorted_wrt (\<lambda>o1 o2. price o2 \<le> price o1) bids"
  proof (rule sorted_wrt_mono_rel [OF _ bids(4)])
    fix x y assume "x \<in> set bids" "y \<in> set bids" "price_key x \<le> price_key y"
    then show "price y \<le> price x" using range [of x BUY] range [of y BUY] bids(2) by (simp add: price_key_def offers_def nat_le_eq_zle)
  qed
  moreover have "sorted_wrt (\<lambda>o1 o2. price o1 \<le> price o2) asks"
  proof (rule sorted_wrt_mono_rel [OF _ asks(4)])
    fix x y assume "x \<in> set asks" "y \<in> set asks" "price_key x \<le> price_key y"
    then show "price x \<le> price y" using range [of x SELL] range [of y SELL] asks(2) by (simp add: price_key_def offers_def BUY_def SELL_def nat_le_eq_zle)
  qed
  ultimately show ?thesis using bids asks
    by (intro exI [of _ bids] exI [of _ asks]) (simp add: get_orderbook_def)
qed


text \<open>C28: An order is advertised in one block and its outpoint spent in a later one, and both blocks share a
  flush. When the later block is undone, the order is gone from the database, although the advertisement
  still stands and flushing the earlier transactions alone would have stored it as open.\<close>
theorem reorg_loses_open_order:
  assumes "book_ok cbor (utxo_db d)" and "kv_ok (utxo_db d)" and "rows_fit (utxo_db d)"
    and "db_height d < 2 ^ 32" and "0 \<le> reorg_limit d" and "digest32 sha"
    and "swap_txs_ok False sha coin cbor ord (utxo_db d) (earlier @ later)"
    and "s0 = swap_index_txs sha coin cbor ord d earlier (new_swap_index True d)"
    and "s = swap_index_txs sha coin cbor ord d later s0"
    and "cbor_faithful cbor (snd ` set (order_cache s0) \<union> snd ` set (order_cache s))"
    and "stored cbor (utxo_db d) oid = None" and "map_of (order_cache s0) oid = Some o'" and "\<not> terminal o'"
    and "map_of (order_height s) oid = Some ht"
    and "db_height d - reorg_limit d < ht \<or> reorg_limit d = 0"
    and "kv_get (utxo_db d) (SWAP_UNDO @ be_enc 4 (nat ht)) = None"
  shows "\<exists>ops0 t0 ops s1 d1 ops' s2. swap_flush cbor d s0 = Inr (ops0, t0)
    \<and> get_order cbor (apply_batch ops0 (utxo_db d)) [] oid = Inr (Some o')
    \<and> swap_flush cbor d s = Inr (ops, s1) \<and> d1 = d\<lparr>utxo_db := apply_batch ops (utxo_db d)\<rparr>
    \<and> swap_backup d1 ht s1 = Inr (ops', s2) \<and> get_order cbor (apply_batch ops' (utxo_db d1)) [] oid = Inr None"
proof -
  let ?kv = "utxo_db d"
  note reads = book_reads [OF assms(1)]
  have txs: "swap_txs_ok False sha coin cbor ord ?kv earlier" "swap_txs_ok False sha coin cbor ord ?kv later"
    using assms(7) by (auto simp: swap_txs_ok_def)
  have ok0: "swaps_ok False cbor ?kv s0" unfolding assms(8) by (rule swap_index_txs_ok(1) [OF reads new_swap_index_ok assms(6) txs(1)])
  have ok: "swaps_ok False cbor ?kv s" unfolding assms(9) by (rule swap_index_txs_ok(1) [OF reads ok0 assms(6) txs(2)])
  have cb: "cbor_faithful cbor (snd ` set (order_cache s0))" "cbor_faithful cbor (snd ` set (order_cache s))"
    using assms(10) by (auto simp: cbor_faithful_def)
  from swap_flush_total(2) [OF ok0 assms(3-5)] obtain ops0 t0 where f0: "swap_flush cbor d s0 = Inr (ops0, t0)" by blast
  have "current cbor ?kv s0 oid = Some o'" using assms(12) by (simp add: current_def)
  then have g0: "get_order cbor (apply_batch ops0 ?kv) [] oid = Inr (Some o')"
    using get_order_stored [OF swap_flush_orders(1) [OF ok0 reads assms(2) f0 cb(1)]] swap_flush_orders(2) [OF ok0 reads assms(2) f0 cb(1)]
    by simp
  from swap_flush_total(2) [OF ok assms(3-5)] obtain ops pruned where
      f: "swap_flush cbor d s = Inr (ops, s\<lparr>order_cache := [], order_height := [], swap_history := [], swap_log := no_undo, swap_pruned := pruned\<rparr>)"
    by blast
  let ?s1 = "s\<lparr>order_cache := [], order_height := [], swap_history := [], swap_log := no_undo, swap_pruned := pruned\<rparr>"
    and ?d1 = "d\<lparr>utxo_db := apply_batch ops ?kv\<rparr>"
  have on: "swap_on s" "swap_on ?s1" using ok by (auto simp: swaps_ok_def swap_on_def history_keys_def)
  have ht: "0 \<le> ht" "ht < 2 ^ 32" using ok assms(14) by (auto simp: swaps_ok_def)
  from revert_undo_total [OF ht] obtain ops' where "revert_undo SWAP_UNDO (utxo_db ?d1) ht = Inr ops'" by blast
  then have b: "swap_backup ?d1 ht ?s1 = Inr (ops', ?s1)" using on(2) by (simp add: swap_backup_def swap_on_def)
  have log: "swap_log s = no_undo" using ok by (simp add: swaps_ok_def)
  then have l: "undo_ok ?kv (swap_log s)" "\<forall>ht k. k \<in> logged (swap_log s) ht \<longrightarrow> \<not> starts_with SWAP_UNDO k" by simp_all
  note fits = swap_flush_total(1) [OF ok assms(3-5)]
  have "ORDER @ oid \<in> {op_key op | op. (Some ht, op) \<in> set (swap_plan cbor s)}"
  proof -
    have "oid \<in> dom (map_of (order_cache s))" using ok assms(14) by (auto simp: swaps_ok_def)
    then obtain o2 where o2: "map_of (order_cache s) oid = Some o2" by blast
    from swap_flush_orders(3) [OF ok reads assms(2) f cb(2) o2] obtain v where v: "order_to_bytes cbor o2 = Inr v" "order_ok o2" by blast
    from pair_key_total [OF v(2)] obtain pk where "pair_key o2 = Inr pk" by blast
    with v(1) have "Put (ORDER @ oid) v \<in> set (order_ops cbor (oid, o2))" by (simp add: order_ops_def Let_def)
    moreover have "(oid, o2) \<in> set (order_cache s)" using o2 by (rule map_of_SomeD)
    ultimately have "(Some ht, Put (ORDER @ oid) v) \<in> set (swap_plan cbor s)"
      using assms(14) unfolding swap_plan_def by fastforce
    then show ?thesis by force
  qed
  with log_plan_ok [OF l(1) fits, of ht] have "ORDER @ oid \<in> logged (log_plan ?kv (swap_plan cbor s) (swap_log s)) ht" by blast
  moreover have "kv_get ?kv (ORDER @ oid) = None" using assms(11) no_row_iff [OF reads] by simp
  ultimately have "kv_get (apply_batch ops' (utxo_db ?d1)) (ORDER @ oid) = None"
    using swap_undo.backup_after_flush [OF on f assms(2) l(1) fits l(2) assms(15) ht _ b assms(16) swap_table_keys(1)] by simp
  then have "get_order cbor (apply_batch ops' (utxo_db ?d1)) [] oid = Inr None" by (simp add: get_order_def)
  with f0 g0 f b show ?thesis
    by (intro exI [of _ ops0] exI [of _ t0] exI [of _ ops] exI [of _ ?s1] exI [of _ ?d1] exI [of _ ops'] exI) simp
qed

section \<open>Sample orders\<close>

definition swap_push :: "bytes \<Rightarrow> bytes" where
  "swap_push data = of_nat (length data) # data"

text \<open>An offer of a token (type 2) for RXD: pay 500 to get it.\<close>

definition ask_script :: "byte \<Rightarrow> bytes" where
  "ask_script b = [106] @ swap_push RSWP @ swap_push [2] @ swap_push [0] @ swap_push [2] @ swap_push [1] @ swap_push (replicate 32 b)
     @ swap_push (replicate 32 7) @ swap_push [0] @ swap_push ([1] @ le_enc 8 500 @ [1, 81]) @ swap_push [9]"

text \<open>A legacy advertisement (version 1) of the same outpoint, without terms.\<close>

definition legacy_script :: bytes where
  "legacy_script = [106] @ swap_push RSWP @ swap_push [1] @ swap_push [0] @ swap_push (replicate 32 3)
     @ swap_push (replicate 32 7) @ swap_push [0] @ swap_push [1] @ swap_push [1]"

definition swap_outpoint :: bytes where "swap_outpoint = replicate 32 7 @ zero_bytes 4"

definition ask_order :: "int \<Rightarrow> order" where
  "ask_order ht = new_order\<lparr>order_id := swap_outpoint, order_tx_hash := replicate 32 5, listed_height := ht, timestamp := 60,
     base_ref := replicate 32 3 @ zero_bytes 4, quote_ref := zero_bytes 36, price := 500, amount := 500, remaining_amount := 500\<rparr>"

definition legacy_order :: "int \<Rightarrow> order" where
  "legacy_order ht = new_order\<lparr>order_id := swap_outpoint, order_tx_hash := replicate 32 5, listed_height := ht, timestamp := 60,
     base_ref := replicate 32 3 @ zero_bytes 4\<rparr>"

lemma sample_ads:
  "parse_rswp sample_sha None (ask_script 3) (replicate 32 5) 0 ht 60 = Some (ask_order ht)"
  "parse_rswp sample_sha None legacy_script (replicate 32 5) 0 ht 60 = Some (legacy_order ht)"
  by code_simp+

definition sample_orders :: "order list" where
  "sample_orders = [ask_order 1, closed (ask_order 1) (replicate 32 6) 2, legacy_order 2, closed (legacy_order 2) (replicate 32 6) 3]"

text \<open>A package that knows the sample orders and writes their number.\<close>

definition sample_cbor :: "cbor2 option" where
  "sample_cbor = Some \<lparr>dumps = (\<lambda>v. case find (\<lambda>i. order_data (sample_orders ! i) = v) [0..<4] of
       Some i \<Rightarrow> Inr [of_nat (i + 1)] | None \<Rightarrow> Inl ValueError),
     loads = (\<lambda>b. case b of [n] \<Rightarrow> if 1 \<le> unat n \<and> unat n \<le> 4 then Inr (order_data (sample_orders ! (unat n - 1))) else Inl ValueError
       | _ \<Rightarrow> Inl ValueError)\<rparr>"

definition sample_ord :: "bytes set \<Rightarrow> bytes list" where
  "sample_ord S = (if swap_outpoint \<in> S then [swap_outpoint] else [])"

definition swap_ctx :: "bytes list \<Rightarrow> bytes set \<Rightarrow> int \<Rightarrow> byte \<Rightarrow> tx_ctx" where
  "swap_ctx scripts spent ht b = \<lparr>ctx_tx_hash = replicate 32 b,
     ctx_tx = one_tx\<lparr>tx_outputs := map (\<lambda>s. \<lparr>out_value = 0, pk_script = s\<rparr>) scripts\<rparr>,
     ctx_height = ht, ctx_tx_idx = 1, ctx_output_refs = [], ctx_spent_singletons = None, ctx_spent_outpoints = spent\<rparr>"

definition ask_tx :: "tx_ctx \<times> unit option \<times> int" where "ask_tx = (swap_ctx [ask_script 3] {} 1 5, None, 60)"
definition legacy_tx :: "tx_ctx \<times> unit option \<times> int" where "legacy_tx = (swap_ctx [legacy_script] {} 2 5, None, 60)"
definition take_tx :: "int \<Rightarrow> tx_ctx \<times> unit option \<times> int" where "take_tx ht = (swap_ctx [] {swap_outpoint} ht 6, None, 60)"


lemma swap_txs_eqs: "ask_tx = (swap_ctx [ask_script 3] {} 1 5, None, 60)" "legacy_tx = (swap_ctx [legacy_script] {} 2 5, None, 60)"
  "take_tx ht = (swap_ctx [] {swap_outpoint} ht 6, None, 60)"
  by (simp_all add: ask_tx_def legacy_tx_def take_tx_def)

lemma swap_ctx_fields [simp]: "ctx_tx_hash (swap_ctx scripts spent ht b) = replicate 32 b" "ctx_height (swap_ctx scripts spent ht b) = ht"
  "ctx_spent_outpoints (swap_ctx scripts spent ht b) = spent"
  "outs_of (swap_ctx [] spent ht b) = []" "outs_of (swap_ctx [script] spent ht b) = [(0, \<lparr>out_value = 0, pk_script = script\<rparr>)]"
  by (simp_all add: swap_ctx_def outs_of_def)

lemma sample_ads_of:
  "ad_of sample_sha None (replicate 32 5) ht 60 (0, \<lparr>out_value = 0, pk_script = ask_script 3\<rparr>) = Some (ask_order ht)"
  "ad_of sample_sha None (replicate 32 5) ht 60 (0, \<lparr>out_value = 0, pk_script = legacy_script\<rparr>) = Some (legacy_order ht)"
  by (simp_all add: ad_of_def sample_ads) (simp_all add: ask_script_def legacy_script_def)

lemma sample_order_ids: "order_id (ask_order ht) = swap_outpoint" "order_id (legacy_order ht) = swap_outpoint"
  "\<not> terminal (ask_order ht)" "\<not> terminal (legacy_order ht)" "order_amounts_in_range (ask_order ht)" "order_amounts_in_range (legacy_order ht)"
  "pair_key (legacy_order ht) = Inr None" "maker_key (ask_order ht) = None" "maker_key (legacy_order ht) = None"
  by (simp_all add: ask_order_def legacy_order_def new_order_def terminal_def ST_OPEN_def ST_FILLED_def ST_CANCELLED_def ST_EXPIRED_def
    order_amounts_in_range_def MAX_UINT64_def SELL_def pair_key_def maker_key_def)

lemma sample_advertised: "advertised sample_sha None 60 (swap_ctx [ask_script 3] spent ht 5) = [swap_outpoint]"
  "advertised sample_sha None 60 (swap_ctx [legacy_script] spent ht 5) = [swap_outpoint]"
  "advertised sample_sha None 60 (swap_ctx [] spent ht b) = []"
  by (simp_all add: advertised_def sample_ads_of sample_order_ids)

lemma swap_txs_ok_append:
  "swap_txs_ok fr sha coin cbor ord kv (xs @ ys) \<longleftrightarrow> swap_txs_ok fr sha coin cbor ord kv xs \<and> swap_txs_ok fr sha coin cbor ord kv ys"
  by (simp add: swap_txs_ok_def ball_Un)

lemma sample_txs_ok:
  "swap_txs_ok fr sample_sha None sample_cbor sample_ord kv [ask_tx] \<longleftrightarrow> (fr \<longrightarrow> stored sample_cbor kv swap_outpoint = None)"
  "swap_txs_ok fr sample_sha None sample_cbor sample_ord kv [legacy_tx] \<longleftrightarrow> (fr \<longrightarrow> stored sample_cbor kv swap_outpoint = None)"
  "0 \<le> ht \<Longrightarrow> ht < 2 ^ 32 \<Longrightarrow> swap_txs_ok fr sample_sha None sample_cbor sample_ord kv [take_tx ht]"
  by (auto simp: swap_txs_ok_def swap_txs_eqs sample_advertised swap_ctx_ok_def sample_ord_def)

lemma ask_run:
  assumes "sw_enabled s" and "kv_get (utxo_db d) ([114, 105] @ swap_outpoint) = None"
  shows "swap_index_txs sample_sha None sample_cbor sample_ord d [ask_tx] s
    = s\<lparr>order_cache := dict_set swap_outpoint (ask_order 1) (order_cache s), order_height := dict_set swap_outpoint 1 (order_height s)\<rparr>"
    and "swap_index_txs sample_sha None sample_cbor sample_ord d [legacy_tx] s
    = s\<lparr>order_cache := dict_set swap_outpoint (legacy_order 2) (order_cache s), order_height := dict_set swap_outpoint 2 (order_height s)\<rparr>"
proof -
  have "backing_utxo_offers_token sample_sha (utxo_db d) o'" if "order_id o' = swap_outpoint" for o'
    using assms(2) that by (simp add: backing_utxo_offers_token_def split: option.split)
  then show "swap_index_txs sample_sha None sample_cbor sample_ord d [ask_tx] s
    = s\<lparr>order_cache := dict_set swap_outpoint (ask_order 1) (order_cache s), order_height := dict_set swap_outpoint 1 (order_height s)\<rparr>"
    "swap_index_txs sample_sha None sample_cbor sample_ord d [legacy_tx] s
    = s\<lparr>order_cache := dict_set swap_outpoint (legacy_order 2) (order_cache s), order_height := dict_set swap_outpoint 2 (order_height s)\<rparr>"
    using assms(1)
    by (simp_all add: swap_index_txs_def swap_txs_eqs swap_process_tx_def sample_ord_def outs_of_def [symmetric] admit_output_eq
      sample_ads_of sample_order_ids)
qed

lemma take_run:
  assumes "sw_enabled s" and "orders_read sample_cbor (utxo_db d)" and "current sample_cbor (utxo_db d) s swap_outpoint = Some o'" and "\<not> terminal o'"
  shows "swap_index_txs sample_sha None sample_cbor sample_ord d [take_tx ht] s
    = s\<lparr>order_cache := dict_set swap_outpoint (closed o' (replicate 32 6) ht) (order_cache s), order_height := dict_set swap_outpoint ht (order_height s)\<rparr>"
  using assms(1,3,4)
  by (simp add: swap_index_txs_def swap_txs_eqs swap_process_tx_def sample_ord_def outs_of_def [symmetric] close_step [OF assms(2)])

lemma sample_orders_length: "length sample_orders = 4"
  by (simp add: sample_orders_def)

lemma sample_faithful: "os \<subseteq> set sample_orders \<Longrightarrow> cbor_faithful sample_cbor os"
proof -
  have "\<exists>b. dumps (the sample_cbor) (order_data (sample_orders ! n)) = Inr b \<and> b \<noteq> [] \<and> loads (the sample_cbor) b = Inr (order_data (sample_orders ! n))"
    if "n < 4" for n
  proof (cases "find (\<lambda>i. order_data (sample_orders ! i) = order_data (sample_orders ! n)) [0..<4]")
    case None
    with that show ?thesis by (auto simp: find_None_iff)
  next
    case (Some i)
    then have "i < 4" "order_data (sample_orders ! i) = order_data (sample_orders ! n)" by (auto simp: find_Some_iff)
    moreover have "i \<in> {0, 1, 2, 3}" using \<open>i < 4\<close> by auto
    then have "unat (of_nat (i + 1) :: byte) = i + 1" by auto
    ultimately show ?thesis using Some by (simp add: sample_cbor_def)
  qed
  moreover assume "os \<subseteq> set sample_orders"
  moreover have "\<exists>n < 4. o' = sample_orders ! n" if "o' \<in> set sample_orders" for o'
    using that by (metis in_set_conv_nth sample_orders_length)
  moreover have "sample_cbor = Some (the sample_cbor)" by (simp add: sample_cbor_def)
  ultimately show ?thesis unfolding cbor_faithful_def by (metis subsetD)
qed

lemma empty_book: "book_ok cbor []"
  by (simp add: book_ok_def orders_read_def stored_def get_order_def kv_get_def)

lemma empty_book_stored [simp]: "stored cbor [] oid = None"
  by (simp add: stored_def get_order_def kv_get_def)

lemma sample_db_swaps: "book_ok cbor (utxo_db sample_db)" "kv_ok (utxo_db sample_db)" "rows_fit (utxo_db sample_db)"
  "db_height sample_db < 2 ^ 32" "0 \<le> reorg_limit sample_db" "kv_get (utxo_db sample_db) k = None" "stored cbor (utxo_db sample_db) oid = None"
  by (simp_all add: sample_db_def empty_book kv_ok_def rows_fit_def kv_get_def)

lemma sample_run: "swap_index_txs sample_sha None sample_cbor sample_ord sample_db [ask_tx] (new_swap_index True sample_db)
    = (new_swap_index True sample_db)\<lparr>order_cache := [(swap_outpoint, ask_order 1)], order_height := [(swap_outpoint, 1)]\<rparr>"
  "swap_index_txs sample_sha None sample_cbor sample_ord sample_db ([ask_tx] @ [take_tx 2]) (new_swap_index True sample_db)
    = (new_swap_index True sample_db)\<lparr>order_cache := [(swap_outpoint, closed (ask_order 1) (replicate 32 6) 2)], order_height := [(swap_outpoint, 2)]\<rparr>"
proof -
  show one: "swap_index_txs sample_sha None sample_cbor sample_ord sample_db [ask_tx] (new_swap_index True sample_db)
    = (new_swap_index True sample_db)\<lparr>order_cache := [(swap_outpoint, ask_order 1)], order_height := [(swap_outpoint, 1)]\<rparr>"
    by (subst ask_run) (simp_all add: new_swap_index_def sample_db_swaps)
  show "swap_index_txs sample_sha None sample_cbor sample_ord sample_db ([ask_tx] @ [take_tx 2]) (new_swap_index True sample_db)
    = (new_swap_index True sample_db)\<lparr>order_cache := [(swap_outpoint, closed (ask_order 1) (replicate 32 6) 2)], order_height := [(swap_outpoint, 2)]\<rparr>"
    unfolding swap_index_txs_append one
    by (subst take_run [where o' = "ask_order 1"])
      (simp_all add: new_swap_index_def sample_db_swaps book_reads [OF sample_db_swaps(1)] current_def sample_order_ids)
qed

lemma swap_book_exact_witness:
  "\<exists>ops s1. swap_flush sample_cbor sample_db (swap_index_txs sample_sha None sample_cbor sample_ord sample_db ([ask_tx] @ [take_tx 2]) (new_swap_index True sample_db))
     = Inr (ops, s1) \<and> book_ok sample_cbor (apply_batch ops (utxo_db sample_db))
     \<and> (\<exists>o'. stored sample_cbor (apply_batch ops (utxo_db sample_db)) swap_outpoint = Some o' \<and> terminal o')"
proof -
  have txs: "swap_txs_ok True sample_sha None sample_cbor sample_ord (utxo_db sample_db) ([ask_tx] @ [take_tx 2])"
    unfolding swap_txs_ok_append by (simp add: sample_txs_ok sample_db_swaps)
  have cb: "cbor_faithful sample_cbor (snd ` set (order_cache (swap_index_txs sample_sha None sample_cbor sample_ord sample_db ([ask_tx] @ [take_tx 2]) (new_swap_index True sample_db))))"
    unfolding sample_run by (rule sample_faithful) (simp add: sample_orders_def)
  from swap_book_exact [OF sample_db_swaps(1-5) digest32_sample txs refl cb] obtain ops s1 where
      f: "swap_flush sample_cbor sample_db (swap_index_txs sample_sha None sample_cbor sample_ord sample_db ([ask_tx] @ [take_tx 2]) (new_swap_index True sample_db)) = Inr (ops, s1)"
        "book_ok sample_cbor (apply_batch ops (utxo_db sample_db))"
      and spent: "\<forall>earlier ctx env ts later oid. [ask_tx] @ [take_tx 2] = earlier @ (ctx, env, ts) # later \<and> oid \<in> ctx_spent_outpoints ctx
         \<and> current sample_cbor (utxo_db sample_db) (swap_index_txs sample_sha None sample_cbor sample_ord sample_db earlier (new_swap_index True sample_db)) oid \<noteq> None
         \<and> (\<forall>(ctx, env, ts) \<in> set ((ctx, env, ts) # later). oid \<notin> set (advertised sample_sha None ts ctx))
         \<longrightarrow> (\<exists>o'. stored sample_cbor (apply_batch ops (utxo_db sample_db)) oid = Some o' \<and> terminal o')"
    by blast
  have "\<exists>o'. stored sample_cbor (apply_batch ops (utxo_db sample_db)) swap_outpoint = Some o' \<and> terminal o'"
    using spent [rule_format, of "[ask_tx]" "fst (take_tx 2)" None 60 "[]" swap_outpoint]
    by (simp add: sample_run(1) swap_txs_eqs(3) sample_advertised current_def)
  with f show ?thesis by blast
qed

text \<open>The sample package writes one byte.\<close>

lemma sample_rows_fit:
  assumes ok: "swaps_ok fr sample_cbor (utxo_db d) s" and reads: "orders_read sample_cbor (utxo_db d)" and kv: "kv_ok (utxo_db d)"
    and f: "swap_flush sample_cbor d s = Inr (ops, s1)" and cb: "cbor_faithful sample_cbor (snd ` set (order_cache s))"
    and fit: "rows_fit (utxo_db d)"
  shows "rows_fit (apply_batch ops (utxo_db d))"
  unfolding rows_fit_def
proof (intro allI impI)
  fix k v assume no: "\<not> starts_with SWAP_UNDO k" and v: "kv_get (apply_batch ops (utxo_db d)) k = Some v"
  show "length v < UNDO_NONE_SENTINEL"
  proof (cases "map_of (order_cache s) (takelast 36 k)")
    case None
    with v fit no show ?thesis unfolding swap_flush_get [OF ok kv f no] by (simp add: rows_fit_def)
  next
    case (Some o')
    from swap_flush_orders(3) [OF ok reads kv f cb Some] obtain b where b: "order_to_bytes sample_cbor o' = Inr b" "order_ok o'" by blast
    then have "length b = 1" by (auto simp: order_to_bytes_def sample_cbor_def split: option.splits)
    with v fit no Some show ?thesis unfolding swap_flush_get [OF ok kv f no]
      by (auto simp: order_rows [OF b] rows_fit_def UNDO_NONE_SENTINEL_def split: if_splits)
  qed
qed

text \<open>The database with the flushed sample order.\<close>

lemma sample_ask_flushed:
  obtains ops s1 where "swap_flush sample_cbor sample_db
      (swap_index_txs sample_sha None sample_cbor sample_ord sample_db [ask_tx] (new_swap_index True sample_db)) = Inr (ops, s1)"
    and "book_ok sample_cbor (apply_batch ops (utxo_db sample_db))" and "kv_ok (apply_batch ops (utxo_db sample_db))"
    and "\<And>oid. stored sample_cbor (apply_batch ops (utxo_db sample_db)) oid = (if oid = swap_outpoint then Some (ask_order 1) else None)"
    and "kv_get (apply_batch ops (utxo_db sample_db)) ([114, 105] @ swap_outpoint) = None" and "rows_fit (apply_batch ops (utxo_db sample_db))"
proof -
  let ?s = "swap_index_txs sample_sha None sample_cbor sample_ord sample_db [ask_tx] (new_swap_index True sample_db)"
  have txs: "swap_txs_ok True sample_sha None sample_cbor sample_ord (utxo_db sample_db) [ask_tx]"
    by (simp add: sample_txs_ok sample_db_swaps)
  note reads = book_reads [OF sample_db_swaps(1)]
  have ok: "swaps_ok True sample_cbor (utxo_db sample_db) ?s" by (rule swap_index_txs_ok(1) [OF reads new_swap_index_ok digest32_sample txs])
  have cb: "cbor_faithful sample_cbor (snd ` set (order_cache ?s))"
    unfolding sample_run by (rule sample_faithful) (simp add: sample_orders_def)
  from swap_flush_total(2) [OF ok sample_db_swaps(3-5)] obtain ops s1 where f: "swap_flush sample_cbor sample_db ?s = Inr (ops, s1)" by blast
  have "stored sample_cbor (apply_batch ops (utxo_db sample_db)) oid = (if oid = swap_outpoint then Some (ask_order 1) else None)" for oid
    unfolding swap_flush_orders(2) [OF ok reads sample_db_swaps(2) f cb] by (simp add: sample_run current_def sample_db_swaps)
  moreover have "kv_get (apply_batch ops (utxo_db sample_db)) ([114, 105] @ swap_outpoint) = None"
  proof -
    have "takelast 36 ([114, 105] @ swap_outpoint) = swap_outpoint" by (rule takelast_suffix) (simp add: swap_outpoint_def zero_bytes_def)
    moreover have "pair_key (ask_order 1) \<noteq> Inr (Some ([114, 105] @ swap_outpoint))" by (auto simp: OPEN_BY_PAIR_def dest: pair_key_shape)
    ultimately show ?thesis using swap_flush_value [OF ok reads sample_db_swaps(2) f cb, of "[114, 105] @ swap_outpoint"]
      by (simp add: sample_run SWAP_UNDO_def ORDER_def starts_with_def sample_db_swaps sample_order_ids)
  qed
  ultimately show thesis
    using that f sample_rows_fit [OF ok reads sample_db_swaps(2) f cb sample_db_swaps(3)] swap_flush_book [OF ok sample_db_swaps(1,2) f cb] kv_ok_apply_batch [OF sample_db_swaps(2)] by blast
qed

lemma orderbook_by_price_witness:
  "\<exists>ops s1. swap_flush sample_cbor sample_db
      (swap_index_txs sample_sha None sample_cbor sample_ord sample_db [ask_tx] (new_swap_index True sample_db)) = Inr (ops, s1)
    \<and> get_orderbook sample_cbor (sample_db\<lparr>utxo_db := apply_batch ops (utxo_db sample_db)\<rparr>) (new_swap_index True sample_db)
        (replicate 32 3 @ zero_bytes 4) (zero_bytes 36) None 10 = Inr ([], [ask_order 1])"
proof -
  obtain ops s1 where f: "swap_flush sample_cbor sample_db
      (swap_index_txs sample_sha None sample_cbor sample_ord sample_db [ask_tx] (new_swap_index True sample_db)) = Inr (ops, s1)"
    and book: "book_ok sample_cbor (apply_batch ops (utxo_db sample_db))" "kv_ok (apply_batch ops (utxo_db sample_db))"
    and st: "\<And>oid. stored sample_cbor (apply_batch ops (utxo_db sample_db)) oid = (if oid = swap_outpoint then Some (ask_order 1) else None)"
    using sample_ask_flushed by metis
  let ?d = "sample_db\<lparr>utxo_db := apply_batch ops (utxo_db sample_db)\<rparr>"
  have d: "book_ok sample_cbor (utxo_db ?d)" "kv_ok (utxo_db ?d)" "order_cache (new_swap_index True sample_db) = []"
      "length (replicate 32 (3 :: byte) @ zero_bytes 4) = 36" "length (zero_bytes 36) = 36"
    using book by (simp_all add: new_swap_index_def zero_bytes_def)
  have o': "base_ref (ask_order 1) = replicate 32 3 @ zero_bytes 4" "quote_ref (ask_order 1) = zero_bytes 36" "side (ask_order 1) = SELL"
      "on_offer ?d (ask_order 1)"
    by (simp_all add: ask_order_def new_order_def on_offer_def is_expired_def)
  have off: "offers sample_cbor ?d (replicate 32 3 @ zero_bytes 4) (zero_bytes 36) sd = (if sd = SELL then {ask_order 1} else {})" for sd
    by (auto simp: offers_def st o' split: if_splits)
  from orderbook_by_price [OF d, of 10] obtain bids asks where
      b: "get_orderbook sample_cbor ?d (new_swap_index True sample_db) (replicate 32 3 @ zero_bytes 4) (zero_bytes 36) None 10
        = Inr (take 10 bids, take 10 asks)" "set bids = {}" "set asks = {ask_order 1}" "distinct asks"
    unfolding off by (auto simp: BUY_def SELL_def)
  then have "bids = []" "length asks = 1" using distinct_card [OF b(4)] by simp_all
  moreover from this(2) obtain a where "asks = [a]" by (cases asks) auto
  ultimately show ?thesis using f b by auto
qed

lemma reorg_loses_open_order_witness:
  "\<exists>ops s1 d1 ops' s2. swap_flush sample_cbor sample_db (swap_index_txs sample_sha None sample_cbor sample_ord sample_db
      ([ask_tx] @ [take_tx 2]) (new_swap_index True sample_db)) = Inr (ops, s1)
    \<and> d1 = sample_db\<lparr>utxo_db := apply_batch ops (utxo_db sample_db)\<rparr>
    \<and> swap_backup d1 2 s1 = Inr (ops', s2) \<and> get_order sample_cbor (apply_batch ops' (utxo_db d1)) [] swap_outpoint = Inr None"
proof -
  have txs: "swap_txs_ok False sample_sha None sample_cbor sample_ord (utxo_db sample_db) ([ask_tx] @ [take_tx 2])"
    unfolding swap_txs_ok_append by (simp add: sample_txs_ok)
  have run: "swap_index_txs sample_sha None sample_cbor sample_ord sample_db ([ask_tx] @ [take_tx 2]) (new_swap_index True sample_db)
      = swap_index_txs sample_sha None sample_cbor sample_ord sample_db [take_tx 2]
          (swap_index_txs sample_sha None sample_cbor sample_ord sample_db [ask_tx] (new_swap_index True sample_db))"
    by (rule swap_index_txs_append)
  have cb: "cbor_faithful sample_cbor (snd ` set (order_cache (swap_index_txs sample_sha None sample_cbor sample_ord sample_db [ask_tx] (new_swap_index True sample_db)))
      \<union> snd ` set (order_cache (swap_index_txs sample_sha None sample_cbor sample_ord sample_db [take_tx 2]
          (swap_index_txs sample_sha None sample_cbor sample_ord sample_db [ask_tx] (new_swap_index True sample_db)))))"
    unfolding run [symmetric] unfolding sample_run by (rule sample_faithful) (simp add: sample_orders_def)
  have ht: "map_of (order_cache (swap_index_txs sample_sha None sample_cbor sample_ord sample_db [ask_tx] (new_swap_index True sample_db))) swap_outpoint = Some (ask_order 1)"
      "map_of (order_height (swap_index_txs sample_sha None sample_cbor sample_ord sample_db [take_tx 2]
          (swap_index_txs sample_sha None sample_cbor sample_ord sample_db [ask_tx] (new_swap_index True sample_db)))) swap_outpoint = Some 2"
    unfolding run [symmetric] unfolding sample_run by simp_all
  have lim: "db_height sample_db - reorg_limit sample_db < 2 \<or> reorg_limit sample_db = 0" by (simp add: sample_db_def)
  show ?thesis
    using reorg_loses_open_order [OF sample_db_swaps(1-5) digest32_sample txs refl refl cb sample_db_swaps(7) ht(1) sample_order_ids(3)
      ht(2) lim sample_db_swaps(6)]
    unfolding run by blast
qed


lemma swap_orders_bounded_witness:
  "\<exists>k. pair_key (ask_order 1) = Inr (Some k) \<and> length k = 119"
proof -
  have "swap_txs_ok False sample_sha None sample_cbor sample_ord (utxo_db sample_db) [ask_tx]" by (simp add: sample_txs_ok)
  from swap_orders_bounded [OF book_reads [OF sample_db_swaps(1)] digest32_sample this refl, of swap_outpoint "ask_order 1"]
  obtain pk where "pair_key (ask_order 1) = Inr pk" "pk = None \<or> length (the pk) = 119" by (auto simp: sample_run)
  moreover have "base_ref (ask_order 1) \<noteq> []" "quote_ref (ask_order 1) \<noteq> []" by (simp_all add: ask_order_def new_order_def zero_bytes_def)
  ultimately show ?thesis by (cases pk) (auto simp: pair_key_def pack_be_uint64_def pack_uint_def split: if_splits)
qed

end
