(* ===== verification/Spec2Isabelle.thy ===== *)
theory Spec2Isabelle
  imports Util Hash Script Enumerations Tx Merkle LogicalFile Storage Compaction Coins Db Chain ReorgRange Realm TokenBalances Markets MarketChain MempoolFacts SwapFacts
begin

text \<open>
  RXinDexer: the indexer core, modelled and proved.

  RXinDexer is an ElectrumX server for the Radiant chain with token indexes on top. It reads blocks from
  a node (the daemon), keeps the unspent outputs, the history of every address, the headers, and the
  locations of token references in a key-value store and in append-only files, undoes blocks when
  the chain is reorganised, keeps a view of the node's mempool, and answers the queries of wallets.

  \<^bold>\<open>How the parts interact.\<close> \<open>BlockProcessor.advance_block\<close> parses a block (\<open>lib/tx.py\<close>, \<open>lib/coins.py\<close>,
  \<open>lib/script.py\<close>) and updates caches in memory; \<open>DB.flush_dbs\<close> (\<open>server/db.py\<close>) writes the caches, the
  history (\<open>server/history.py\<close>) and the overlay indexes (realms, token balances and others) in batches into
  the store of \<open>server/storage.py\<close>, the headers and hashes into logical files (\<open>lib/util.py\<close>);
  \<open>BlockProcessor.backup_block\<close> and \<open>DB.flush_backup\<close> undo the last block from the undo entries written with
  it. The queries read the store. Merkle proofs (\<open>lib/merkle.py\<close>) are computed from the files.

  \<^bold>\<open>Which theory models what.\<close>

  \<^item> \<open>Prelude\<close>: exceptions as values (\<open>'a res\<close> is an exception or a value, \<open>rbind\<close> passes exceptions on,
    so every raise and early return is a branch), byte strings with Python's slicing, fixed-width
    codecs, insertion-ordered dictionaries. \<open>PyData\<close>: the Python values a CBOR payload decodes to.
  \<^item> \<open>Util\<close> (\<open>lib/util.py\<close>): the struct packers with their range checks, CompactSize integers, chunking, the
    undo codec. \<open>LogicalFile\<close>: the file-spanning byte array. \<open>Hash\<close> (\<open>lib/hash.py\<close>): hex forms,
    Base58Check. \<open>Enumerations\<close> (\<open>lib/enum.py\<close>).
  \<^item> \<open>Script\<close> (\<open>lib/script.py\<close>): the script walkers, reference extraction, owner scripts, builders. All
    walkers are related to one token list (\<open>script_tokens\<close>).
  \<^item> \<open>Tx\<close> (\<open>lib/tx.py\<close>): readers over a binary and a cursor, serialisation, the two transaction hashes.
    The locale \<open>codec\<close> states what a writer and a reader owe each other and is interpreted for
    integers, byte strings, inputs, outputs and transactions.
  \<^item> \<open>Merkle\<close> (\<open>lib/merkle.py\<close>): roots, branches, proofs, the cache of a level.
  \<^item> \<open>Storage\<close> (\<open>server/storage.py\<close>): the ordered store, batches, and the iterators of the two engines. The
    locales \<open>plyvel\<close> and \<open>rocksdb_cursors\<close> hold what the engines' bindings document, each gives the
    interface \<open>ordered_store\<close>, and each is interpreted.
  \<^item> \<open>History\<close> and \<open>HistoryFacts\<close> (\<open>server/history.py\<close>): flush, queries, backup, crash recovery;
    \<open>Literal\<close>: the state dictionary as text; \<open>Compaction\<close>: compaction and the row upgrade.
  \<^item> \<open>Coins\<close> (\<open>lib/coins.py\<close>), \<open>Db\<close> (\<open>server/db.py\<close>), \<open>BlockProcessor\<close> (\<open>server/block_processor.py\<close>): the
    state of the database and of the block processor as records with the code's fields, one definition per
    method.
  \<^item> \<open>UtxoSet\<close>, \<open>Spending\<close>, \<open>Ledger\<close>, \<open>Advance\<close>, \<open>Flushing\<close>, \<open>Progress\<close>, \<open>Reorg\<close>, \<open>Queries\<close>, \<open>Chain\<close>:
    the refinement of the abstract ledger (a map from outpoints to entries, changed by a transaction
    as the protocol says) by the tables, caches and batches: \<open>UtxoSet\<close> says what the two UTXO tables
    stand for, \<open>Spending\<close> and \<open>Advance\<close> that the caches over them follow the ledger, \<open>Flushing\<close> that a flush
    moves the caches into the tables, \<open>Progress\<close> that nothing raises on the way, \<open>Reorg\<close> that a block
    backed up is undone, \<open>Queries\<close> that the answers are those of the ledger; \<open>Chain\<close> composes them.
    \<open>ReorgRange\<close>: where a reorganisation starts. What the chain theorems ask of the overlay indexes is
    asked of the states in question only (\<open>safe_flush\<close> of the state to be flushed, \<open>safe_backup\<close> of the state
    to be backed up, over the databases that agree with it in what an index can see, \<open>index_view\<close>); the
    market index is proved to meet it.
  \<^item> \<open>UndoLog\<close>: the undo log the overlay indexes share, with the locale \<open>undo_logged\<close> their flush and
    backup satisfy; \<open>Realm\<close> (\<open>server/realm_index.py\<close>), \<open>TokenBalances\<close> (\<open>server/glyph_index.py\<close>, its
    balance part), \<open>Markets\<close> (\<open>server/predict_index.py\<close>) and \<open>SwapFacts\<close> interpret it.
  \<^item> \<open>Utf8\<close>: the strict and the replacing decoder of byte strings; \<open>PushChunks\<close>: the walker over the pushes
    of an \<open>OP_RETURN\<close> script the market and the swap index each have. \<open>Markets\<close> has the announcements, their
    verification, the record codec and the queries; \<open>MarketChain\<close> puts that index beside the chain.
  \<^item> \<open>Swaps\<close> and \<open>SwapFacts\<close> (\<open>server/swap_index.py\<close>): swap advertisements, the order book, its
    invariant (\<open>book_ok\<close>: the rows by pair and by maker are those of the open orders) and what breaks it.
  \<^item> \<open>Mempool\<close> and \<open>MempoolFacts\<close> (\<open>server/mempool.py\<close>): which transactions are accepted and which are
    deferred, the refresh with the fetches completing in any order, the indexes and the queries.

  \<^bold>\<open>What the lemmas show.\<close> For every part: its operations keep its invariant, they compute what an abstract
  description says on every branch including the exceptions, and what one part relies on in another is a
  lemma of that part. The error theorems state where the code departs from what its comments promise.

  \<^bold>\<open>Bounds.\<close> Integers are unbounded as in Python; every packer has the range check of \<open>struct.pack\<close> and
  its exception, and the theorems carry the bounds under which no packer raises (heights and flush
  counts below \<open>2 ^ 32\<close>, transaction numbers below \<open>2 ^ 40\<close>, values of eight bytes). Every loop is a
  structural recursion or a function with a measure, and the parser of the state row is bounded by the
  length of its text. Two query loops wait for the database and may wait forever (\<open>limited_history\<close>;
  \<open>utxos_loop\<close>, behind \<open>all_utxos\<close> and \<open>codescripthash_all_utxos\<close>): they are given the number of attempts
  allowed and return \<open>None\<close> when all are used up. The theorems that they answer need one attempt; the
  theorem that they never do holds for any number.

  \<^bold>\<open>Parameters.\<close> Digests (SHA-256, SHA-512/256) are function arguments of which the theorems ask at most the
  length; the engines' bindings are locale parameters; the eviction of LRU caches, the clock, the daemon's
  answers, the CBOR package, the order in which Python iterates over a set, and the overlay indexes
  inside the block processor (a record of functions on a state of their own, with the exceptions the
  code catches) are arguments. What the swap theorems ask of the CBOR package is that it reads back the
  orders it wrote.

  \<^bold>\<open>Not modelled.\<close> Logging and timing output; the estimate of remaining transactions (floating
  point, for log lines); \<open>upgrade_db\<close>, which the version check makes unreachable; creating and opening
  database directories; the UTXO state row is kept as the record it spells. Of the overlays, the
  indexes other than realms, token balances, markets and swaps (names, collections, royalties, mining
  contracts, analytics), the cursors and the trade history of the swap index; the token view of the
  mempool; the protocol sessions, the REST and HTTP front ends,
  peer discovery, configuration and process wiring, which are network input and output around the
  core.
\<close>

end
